(* ===== verification/Lapq_Prelude.thy ===== *)
theory Lapq_Prelude
  imports Main "HOL-Library.Word" "HOL-Library.Char_ord" "HOL-Library.List_Lexorder"
begin

text \<open>
  Shared vocabulary of the development.

  \<^item> \<open>fault\<close> and \<open>res\<close>: a C++ function that may throw or may run into undefined
    behaviour (a read outside its buffer, a null dereference, a signed overflow) returns
    \<open>fault + 'a\<close>; \<open>andThen\<close> sequences such functions.
  \<^item> Memory bytes: \<open>nat_le\<close> and \<open>le_nat\<close> convert between an unsigned number and its
    little-endian byte representation, \<open>mem_of_word\<close> and \<open>word_of_mem\<close> do so for words.
  \<^item> \<open>std::map\<close>: an association list kept sorted by a key function, with \<open>map_emplace\<close>
    (insert unless present), \<open>map_insert\<close> (operator[] assignment) and \<open>map_of\<close> (find).
\<close>

section \<open>Faults and sequencing\<close>

datatype exn =
    Length_Error
  | Out_Of_Range
  | Invalid_Argument
  | Bad_Function_Call
  | Bad_Any_Cast
  | System_Error int
  | Int_Thrown int

datatype fault = Undefined_Behaviour | Throw exn

type_synonym 'a res = "fault + 'a"

definition andThen :: "'a res \<Rightarrow> ('a \<Rightarrow> 'b res) \<Rightarrow> 'b res" where
  "andThen r f = (case r of Inl e \<Rightarrow> Inl e | Inr x \<Rightarrow> f x)"

definition is_ok :: "'a res \<Rightarrow> bool" where
  "is_ok r = (case r of Inl _ \<Rightarrow> False | Inr _ \<Rightarrow> True)"

named_theorems wire_simps "equations of the byte-level primitives"
named_theorems codec_rules "round trips of the byte-level readers"

lemma andThen_Inl [simp]: "andThen (Inl e) f = Inl e"
  by (simp add: andThen_def)

lemma andThen_Inr [simp]: "andThen (Inr x) f = f x"
  by (simp add: andThen_def)

lemma andThen_cong [fundef_cong]:
  "r = r' \<Longrightarrow> (\<And>x. r' = Inr x \<Longrightarrow> f x = g x) \<Longrightarrow> andThen r f = andThen r' g"
  by (cases r') (auto simp: andThen_def)

lemma andThen_eq_Inr: "andThen r f = Inr y \<longleftrightarrow> (\<exists>x. r = Inr x \<and> f x = Inr y)"
  by (cases r) auto

lemma andThen_eq_Inl:
  "andThen r f = Inl e \<longleftrightarrow> r = Inl e \<or> (\<exists>x. r = Inr x \<and> f x = Inl e)"
  by (cases r) auto

lemma andThen_assoc: "andThen (andThen r f) g = andThen r (\<lambda>x. andThen (f x) g)"
  by (cases r) auto

lemma is_ok_simps [simp]: "is_ok (Inr x)" "\<not> is_ok (Inl e)"
  by (simp_all add: is_ok_def)

lemma is_ok_iff: "is_ok r \<longleftrightarrow> (\<exists>x. r = Inr x)"
  by (cases r) auto

section \<open>Machine integers and their memory representation\<close>

type_synonym int16 = "16 word"
type_synonym int32 = "32 word"
type_synonym size_t = "64 word"
type_synonym buffer = "char list"
type_synonym byte4 = "char list"

text \<open>The conversion of a 32-bit signed value to \<open>std::size_t\<close> sign-extends it.\<close>

definition size_of_int :: "int32 \<Rightarrow> nat" where
  "size_of_int v = unat (scast v :: size_t)"

text \<open>\<open>std::vector<char>::max_size()\<close> and \<open>std::string::max_size()\<close> bounds on 64-bit Linux.\<close>

definition max_alloc :: nat where
  "max_alloc = 2 ^ 63 - 1"

fun nat_le :: "nat \<Rightarrow> nat \<Rightarrow> char list" where
  "nat_le 0 k = []"
| "nat_le (Suc n) k = char_of (k mod 256) # nat_le n (k div 256)"

fun le_nat :: "char list \<Rightarrow> nat" where
  "le_nat [] = 0"
| "le_nat (c # cs) = of_char c + 256 * le_nat cs"

definition mem_of_word :: "nat \<Rightarrow> 'a::len word \<Rightarrow> char list" where
  "mem_of_word n w = nat_le n (unat w)"

definition word_of_mem :: "char list \<Rightarrow> 'a::len word" where
  "word_of_mem cs = word_of_nat (le_nat cs)"

lemma length_nat_le [simp]: "length (nat_le n k) = n"
  by (induction n arbitrary: k) auto

lemma length_mem_of_word [simp]: "length (mem_of_word n w) = n"
  by (simp add: mem_of_word_def)

lemma le_nat_nat_le: "le_nat (nat_le n k) = k mod 256 ^ n"
proof (induction n arbitrary: k)
  case 0
  then show ?case by simp
next
  case (Suc n)
  have "k mod (256 * 256 ^ n) = 256 * (k div 256 mod 256 ^ n) + k mod 256"
    by (rule mod_mult2_eq)
  then show ?case by (simp add: Suc)
qed

lemma le_nat_less: "le_nat cs < 256 ^ length cs"
proof (induction cs)
  case Nil
  then show ?case by simp
next
  case (Cons c cs)
  have c: "(of_char c :: nat) < 256" by simp
  from Cons have "le_nat cs + 1 \<le> 256 ^ length cs" by simp
  then have "256 * (le_nat cs + 1) \<le> 256 * 256 ^ length cs" by (rule mult_le_mono2)
  moreover from c have "of_char c + 256 * le_nat cs < 256 * (le_nat cs + 1)" by simp
  ultimately have "of_char c + 256 * le_nat cs < 256 * 256 ^ length cs" by (rule less_le_trans [rotated])
  then show ?case by simp
qed

lemma nat_le_le_nat: "nat_le (length cs) (le_nat cs) = cs"
proof (induction cs)
  case Nil
  then show ?case by simp
next
  case (Cons c cs)
  have c: "(of_char c :: nat) < 256" by simp
  have m: "(of_char c + 256 * le_nat cs) mod 256 = of_char c"
    using c by (simp only: mod_mult_self2 mod_less)
  have d: "(of_char c + 256 * le_nat cs) div 256 = le_nat cs"
    using c by simp
  have ch: "char_of (of_char c + 256 * le_nat cs) = c"
    by (subst char_of_mod_256 [symmetric]) (simp only: m char_of_char)
  show ?case
    using Cons d ch by simp
qed

lemma word_of_mem_of_word:
  "LENGTH('a) = 8 * n \<Longrightarrow> word_of_mem (mem_of_word n w) = (w :: 'a::len word)"
proof -
  assume len: "LENGTH('a) = 8 * n"
  have "unat w < 2 ^ LENGTH('a)" by (rule unsigned_less)
  also have "(2::nat) ^ LENGTH('a) = 256 ^ n"
    by (simp add: len power_mult)
  finally have "unat w mod 256 ^ n = unat w" by simp
  then show ?thesis
    by (simp add: word_of_mem_def mem_of_word_def le_nat_nat_le)
qed

lemma mem_of_word_of_mem:
  "LENGTH('a) = 8 * n \<Longrightarrow> length cs = n \<Longrightarrow> mem_of_word n (word_of_mem cs :: 'a::len word) = cs"
proof -
  assume len: "LENGTH('a) = 8 * n" and cs: "length cs = n"
  have "le_nat cs < 256 ^ n" using le_nat_less [of cs] cs by simp
  also have "(256::nat) ^ n = 2 ^ LENGTH('a)" by (simp add: len power_mult)
  finally have "unat (word_of_nat (le_nat cs) :: 'a word) = le_nat cs"
    by (simp add: unat_of_nat)
  then show ?thesis
    using nat_le_le_nat [of cs] cs by (simp add: word_of_mem_def mem_of_word_def)
qed

lemma sint32_range: "- (2 ^ 31) \<le> sint (v :: int32)" "sint (v :: int32) < 2 ^ 31"
  using sint_greater_eq [of v] sint_less [of v] by simp_all

lemma size_of_int_eq:
  "size_of_int v = (if 0 \<le> sint v then nat (sint v) else nat (2 ^ 64 + sint v))"
proof -
  have "uint (scast v :: size_t) = sint v mod 2 ^ 64"
    unfolding scast_eq by (simp only: uint_word_of_int) simp
  moreover have "sint v mod 2 ^ 64 = (if 0 \<le> sint v then sint v else 2 ^ 64 + sint v)"
  proof (cases "0 \<le> sint v")
    case True
    then show ?thesis using sint32_range [of v] by simp
  next
    case False
    have "(2 ^ 64 + sint v) mod 2 ^ 64 = 2 ^ 64 + sint v"
      using False sint32_range [of v] by (intro mod_pos_pos_trivial) simp_all
    then show ?thesis using False by simp
  qed
  ultimately show ?thesis
    by (simp add: size_of_int_def unat_eq_nat_uint)
qed

lemma size_of_int_nonneg: "0 \<le> sint v \<Longrightarrow> size_of_int v = nat (sint v)"
  by (simp add: size_of_int_eq)

lemma size_of_int_neg: "sint v < 0 \<Longrightarrow> max_alloc < size_of_int v"
  using sint32_range [of v] by (auto simp: size_of_int_eq max_alloc_def)

lemma size_of_int_le_iff: "size_of_int v \<le> max_alloc \<longleftrightarrow> 0 \<le> sint v"
  using size_of_int_neg [of v] size_of_int_nonneg [of v] sint32_range [of v]
  by (cases "0 \<le> sint v") (auto simp: max_alloc_def)

lemma sint_of_nat32: "n < 2 ^ 31 \<Longrightarrow> sint (word_of_nat n :: int32) = int n"
proof -
  assume n: "n < 2 ^ 31"
  then have "int n < 2 ^ 31" by simp
  then have "signed_take_bit 31 (int n) = int n"
    by (intro signed_take_bit_int_eq_self) simp_all
  then show ?thesis by (simp add: signed_of_nat)
qed

lemma size_of_int_of_nat: "n < 2 ^ 31 \<Longrightarrow> size_of_int (word_of_nat n) = n"
  by (simp add: size_of_int_nonneg sint_of_nat32)

section \<open>std::map as a sorted association list\<close>

text \<open>
  A \<open>std::map\<close> iterates in key order and holds a key at most once. It is a list of pairs,
  strictly sorted by \<open>key\<close>, the injection of the key type into the order its comparator
  uses: the identity for \<open>std::string\<close> (bytes compared as unsigned), the signed value for
  \<open>char\<close> and \<open>int\<close> keys. \<open>emplace\<close> leaves a present key alone, \<open>operator[]\<close> assignment
  overwrites it.
\<close>

type_synonym ('k, 'v) std_map = "('k \<times> 'v) list"

fun map_emplace :: "('k \<Rightarrow> 'o::linorder) \<Rightarrow> 'k \<Rightarrow> 'v \<Rightarrow> ('k, 'v) std_map \<Rightarrow> ('k, 'v) std_map" where
  "map_emplace key k v [] = [(k, v)]"
| "map_emplace key k v ((k', v') # m) =
     (if key k < key k' then (k, v) # (k', v') # m
      else if key k = key k' then (k', v') # m
      else (k', v') # map_emplace key k v m)"

fun map_insert :: "('k \<Rightarrow> 'o::linorder) \<Rightarrow> 'k \<Rightarrow> 'v \<Rightarrow> ('k, 'v) std_map \<Rightarrow> ('k, 'v) std_map" where
  "map_insert key k v [] = [(k, v)]"
| "map_insert key k v ((k', v') # m) =
     (if key k < key k' then (k, v) # (k', v') # m
      else if key k = key k' then (k', v) # m
      else (k', v') # map_insert key k v m)"

definition map_ok :: "('k \<Rightarrow> 'o::linorder) \<Rightarrow> ('k, 'v) std_map \<Rightarrow> bool" where
  "map_ok key m = sorted_wrt (<) (map (key \<circ> fst) m)"

definition map_init :: "('k \<Rightarrow> 'o::linorder) \<Rightarrow> ('k \<times> 'v) list \<Rightarrow> ('k, 'v) std_map" where
  "map_init key xs = fold (\<lambda>(k, v). map_emplace key k v) xs []"

lemma map_ok_Nil [simp]: "map_ok key []"
  by (simp add: map_ok_def)

lemma map_ok_Cons [simp]:
  "map_ok key ((k, v) # m) \<longleftrightarrow> (\<forall>p \<in> set m. key k < key (fst p)) \<and> map_ok key m"
  by (auto simp: map_ok_def)

lemma set_map_emplace: "set (map_emplace key k v m) \<subseteq> insert (k, v) (set m)"
  by (induction m) (auto split: if_splits)

lemma set_map_insert: "q \<in> set (map_insert key k v m) \<Longrightarrow> fst q = k \<or> fst q \<in> fst ` set m"
  by (induction m) (auto split: if_splits intro: rev_image_eqI)

lemma map_ok_emplace: "map_ok key m \<Longrightarrow> map_ok key (map_emplace key k v m)"
proof (induction m)
  case (Cons p m)
  obtain k' v' where p: "p = (k', v')" by force
  show ?case
    using Cons set_map_emplace [of key k v m] by (auto simp: p not_less)
qed simp

lemma map_ok_insert: "map_ok key m \<Longrightarrow> map_ok key (map_insert key k v m)"
proof (induction m)
  case (Cons p m)
  obtain k' v' where p: "p = (k', v')" by force
  show ?case
    using Cons by (auto simp: p not_less dest!: set_map_insert)
qed simp

lemma map_ok_init: "map_ok key (map_init key xs)"
proof -
  have "map_ok key m \<Longrightarrow> map_ok key (fold (\<lambda>(k, v). map_emplace key k v) xs m)" for m
    by (induction xs arbitrary: m) (auto intro: map_ok_emplace)
  then show ?thesis by (simp add: map_init_def)
qed

lemma map_of_none_less: "map_ok key m \<Longrightarrow> (\<forall>p \<in> set m. key k < key (fst p)) \<Longrightarrow> map_of m k = None"
  by (auto simp: map_of_eq_None_iff)

locale ordered_key =
  fixes key :: "'k \<Rightarrow> 'o::linorder"
  assumes inj_key: "key k = key k' \<Longrightarrow> k = k'"
begin

lemma find_emplace:
  "map_ok key m \<Longrightarrow>
   map_of (map_emplace key k v m) = (case map_of m k of None \<Rightarrow> (map_of m)(k \<mapsto> v) | Some _ \<Rightarrow> map_of m)"
proof (induction m)
  case (Cons p m)
  obtain k' v' where p: "p = (k', v')" by force
  consider "key k < key k'" | "key k = key k'" | "key k' < key k" by force
  then show ?case
  proof cases
    case 1
    then have "map_of (p # m) k = None"
      using Cons.prems by (intro map_of_none_less [where key = key]) (auto simp: p dest: less_trans)
    with 1 show ?thesis by (simp add: p)
  next
    case 2
    then show ?thesis by (auto simp: p dest: inj_key)
  next
    case 3
    then show ?thesis using Cons by (auto simp: p fun_eq_iff split: option.splits)
  qed
qed (simp add: fun_eq_iff)

lemma find_insert: "map_ok key m \<Longrightarrow> map_of (map_insert key k v m) = (map_of m)(k \<mapsto> v)"
proof (induction m)
  case (Cons p m)
  obtain k' v' where p: "p = (k', v')" by force
  consider "key k < key k'" | "key k = key k'" | "key k' < key k" by force
  then show ?case
  proof cases
    case 2
    then have "k = k'" by (rule inj_key)
    then show ?thesis by (simp add: p fun_eq_iff)
  next
    case 3
    then show ?thesis using Cons by (auto simp: p fun_eq_iff)
  qed (simp add: p fun_eq_iff)
qed (simp add: fun_eq_iff)

lemma emplace_present: "map_ok key m \<Longrightarrow> map_of m k = Some w \<Longrightarrow> map_emplace key k v m = m"
proof (induction m)
  case (Cons p m)
  obtain k' v' where p: "p = (k', v')" by force
  have "(k, w) \<in> set (p # m)" using Cons.prems(2) by (rule map_of_SomeD)
  then have "\<not> key k < key k'" using Cons.prems(1) by (auto simp: p dest: less_asym)
  moreover have "key k \<noteq> key k' \<Longrightarrow> map_of m k = Some w" using Cons.prems(2) by (auto simp: p split: if_splits)
  ultimately show ?case using Cons by (auto simp: p)
qed simp

end

end
