(* ===== verification/Lapq_Error.thy ===== *)
theory Lapq_Error
  imports Lapq_Prelude
begin

text \<open>
  \<^verbatim>\<open>src/src/error.h\<close>, \<^verbatim>\<open>src/src/error.cpp\<close>: the library's error codes and category, the
  \<open>Error\<close> exception class, and \<open>SQLError\<close>, the map of error fields a server reports.
  A \<open>std::error_code\<close> is a record of its value and its category; the categories the library
  itself uses are constructors, those of asio are \<open>Other_Category\<close>.
\<close>

section \<open>Error codes\<close>

datatype errc = no_error | result_empty | unsupported_format | busy | sql_error

fun errc_value :: "errc \<Rightarrow> int" where
  "errc_value no_error = 0"
| "errc_value result_empty = 1"
| "errc_value unsupported_format = 2"
| "errc_value busy = 3"
| "errc_value sql_error = 4"

datatype error_category = generic_category | system_category | lapq_category | Other_Category string

record error_code =
  ec_value :: int
  ec_category :: error_category

text \<open>\<open>std::error_code()\<close> and the conversion of an error code to \<open>bool\<close>.\<close>

definition ec_ok :: error_code where
  "ec_ok = \<lparr>ec_value = 0, ec_category = system_category\<rparr>"

definition ec_bool :: "error_code \<Rightarrow> bool" where
  "ec_bool ec = (ec_value ec \<noteq> 0)"

text \<open>The errno values of Linux that the sources name.\<close>

definition EMSGSIZE :: error_code where
  "EMSGSIZE = \<lparr>ec_value = 90, ec_category = generic_category\<rparr>"

definition EBADMSG :: error_code where
  "EBADMSG = \<lparr>ec_value = 74, ec_category = generic_category\<rparr>"

definition ENOSPC :: error_code where
  "ENOSPC = \<lparr>ec_value = 28, ec_category = system_category\<rparr>"

definition ENOSYS :: error_code where
  "ENOSYS = \<lparr>ec_value = 38, ec_category = system_category\<rparr>"

definition ErrorCategoryImpl_name :: string where
  "ErrorCategoryImpl_name = ''lapq.error''"

text \<open>\<open>static_cast<errc>(ev)\<close> followed by the switch: any other value takes the default branch.\<close>

definition ErrorCategoryImpl_message :: "int \<Rightarrow> string" where
  "ErrorCategoryImpl_message ev =
     (if ev = errc_value no_error then ''Success''
      else if ev = errc_value result_empty then ''Result is empty''
      else if ev = errc_value unsupported_format then ''Unsupported format in response''
      else if ev = errc_value busy then ''Busy''
      else if ev = errc_value sql_error then ''Postgres SQL Error''
      else ''Unknown error'')"

definition ErrorCategory :: error_category where
  "ErrorCategory = lapq_category"

type_synonym error_condition = error_code

definition make_error_condition :: "errc \<Rightarrow> error_condition" where
  "make_error_condition e = \<lparr>ec_value = errc_value e, ec_category = ErrorCategory\<rparr>"

definition make_error_code :: "errc \<Rightarrow> error_code" where
  "make_error_code e = \<lparr>ec_value = errc_value e, ec_category = ErrorCategory\<rparr>"

text \<open>
  \<open>Error\<close> is a \<open>std::system_error\<close>: a code and the optional text given to its constructor.
\<close>

record Error =
  err_code :: error_code
  err_arg :: "string option"

definition Error_bool :: "Error \<Rightarrow> bool" where
  "Error_bool e = ec_bool (err_code e)"

section \<open>SQLError\<close>

datatype SQLErrorField =
    SEVERITY | CODE | MESSAGE | DETAIL | HINT | POSITION | INTERNAL_POS | QUERY | WHERE
  | SCHEMA_NAME | TABLE_NAME | COLUMN_NAME | DATA_TYPE_NAME | CONTRAINT_NAME
  | FILE_NAME | LINE | ROUTINE

fun field_char :: "SQLErrorField \<Rightarrow> char" where
  "field_char SEVERITY = CHR ''S''"
| "field_char CODE = CHR ''C''"
| "field_char MESSAGE = CHR ''M''"
| "field_char DETAIL = CHR ''D''"
| "field_char HINT = CHR ''H''"
| "field_char POSITION = CHR ''P''"
| "field_char INTERNAL_POS = CHR ''p''"
| "field_char QUERY = CHR ''q''"
| "field_char WHERE = CHR ''W''"
| "field_char SCHEMA_NAME = CHR ''s''"
| "field_char TABLE_NAME = CHR ''t''"
| "field_char COLUMN_NAME = CHR ''c''"
| "field_char DATA_TYPE_NAME = CHR ''d''"
| "field_char CONTRAINT_NAME = CHR ''n''"
| "field_char FILE_NAME = CHR ''F''"
| "field_char LINE = CHR ''L''"
| "field_char ROUTINE = CHR ''R''"

text \<open>
  The enumeration has the underlying type \<open>char\<close>, and \<open>static_cast<SQLErrorField>\<close> admits
  every byte: the map is keyed by \<open>char\<close>, ordered as the signed type.
\<close>

definition schar :: "char \<Rightarrow> int" where
  "schar c = (if (of_char c :: int) < 128 then of_char c else of_char c - 256)"

type_synonym SQLError = "(char, string) std_map"

definition SQLError_init :: SQLError where
  "SQLError_init = map_init schar [(field_char CODE, ''00000''), (field_char MESSAGE, ''success'')]"

definition SQLError_emplace :: "char \<Rightarrow> string \<Rightarrow> SQLError \<Rightarrow> SQLError" where
  "SQLError_emplace = map_emplace schar"

definition SQLError_bool :: "SQLError \<Rightarrow> bool" where
  "SQLError_bool e =
     (if e \<noteq> [] then
        (case map_of e (field_char CODE) of
           Some s \<Rightarrow> if s = ''00000'' then False else True
         | None \<Rightarrow> True)
      else True)"

fun put_entries :: "string \<Rightarrow> string \<Rightarrow> (string \<times> string) list \<Rightarrow> string" where
  "put_entries separator p [] = []"
| "put_entries separator p ((k, v) # m) =
     p @ ''{'' @ k @ '','' @ v @ ''}'' @ put_entries separator separator m"

definition SQLError_put :: "string \<Rightarrow> SQLError \<Rightarrow> string" where
  "SQLError_put os c =
     os @ ''{'' @ put_entries '', '' [] (map (\<lambda>(k, v). ([k], v)) c) @ ''}''"

lemma schar_inj: "schar a = schar b \<Longrightarrow> a = b"
proof -
  have "(of_char a :: int) < 256" "(of_char b :: int) < 256" "0 \<le> (of_char a :: int)" "0 \<le> (of_char b :: int)"
    by (simp_all add: of_char_def horner_sum_simps)
  then show "schar a = schar b \<Longrightarrow> a = b" by (auto simp: schar_def split: if_splits)
qed

interpretation errfield: ordered_key schar
  by unfold_locales (rule schar_inj)

lemma ec_simps [simp]:
  "\<not> ec_bool ec_ok" "ec_bool EMSGSIZE" "ec_bool EBADMSG" "ec_bool ENOSPC" "ec_bool ENOSYS"
  by (simp_all add: ec_bool_def ec_ok_def EMSGSIZE_def EBADMSG_def ENOSPC_def ENOSYS_def)

lemma ec_distinct [simp]:
  "EMSGSIZE \<noteq> EBADMSG" "EBADMSG \<noteq> EMSGSIZE" "ec_ok \<noteq> EMSGSIZE" "ec_ok \<noteq> EBADMSG"
  "EMSGSIZE \<noteq> ec_ok" "EBADMSG \<noteq> ec_ok"
  by (simp_all add: ec_ok_def EMSGSIZE_def EBADMSG_def)

lemma make_error_code_bool [simp]: "ec_bool (make_error_code e) \<longleftrightarrow> e \<noteq> no_error"
  by (cases e) (simp_all add: ec_bool_def make_error_code_def)

lemma SQLError_init_eq: "SQLError_init = [(CHR ''C'', ''00000''), (CHR ''M'', ''success'')]"
  by (simp add: SQLError_init_def map_init_def schar_def)

lemma SQLError_init_ok: "map_ok schar SQLError_init"
  unfolding SQLError_init_def by (rule map_ok_init)

lemma SQLError_emplace_ok: "map_ok schar e \<Longrightarrow> map_ok schar (SQLError_emplace f s e)"
  by (simp add: SQLError_emplace_def map_ok_emplace)

lemma SQLError_emplace_find:
  "map_ok schar e \<Longrightarrow> map_of e k = Some v \<Longrightarrow> map_of (SQLError_emplace f s e) k = Some v"
  by (auto simp: SQLError_emplace_def errfield.find_emplace split: option.splits)

lemma SQLError_emplace_absent:
  "map_ok schar e \<Longrightarrow> map_of e f = None \<Longrightarrow> map_of (SQLError_emplace f s e) f = Some s"
  by (simp add: SQLError_emplace_def errfield.find_emplace)

lemma field_char_inj: "field_char a = field_char b \<Longrightarrow> a = b"
  by (cases a; cases b) simp_all

lemma SQLError_bool_CODE:
  "map_of e (CHR ''C'') = Some s \<Longrightarrow> SQLError_bool e \<longleftrightarrow> s \<noteq> ''00000''"
  by (auto simp: SQLError_bool_def)

end
