(* ===== verification/Wire.thy ===== *)
theory Wire
  imports Lapq_Error
begin

text \<open>
  The byte-level half of \<^verbatim>\<open>src/src/protocol.cpp\<close> (lines 20 to 160): the free functions that
  append integers, bytes and strings to a \<open>Buffer\<close> and read them back from a position.
  The host is little-endian (\<open>htons\<close>, \<open>htonl\<close> swap bytes; \<open>serialize<T>\<close> copies the
  in-memory representation). A reader returns the value and the number of bytes it advanced;
  a read outside the buffer is \<open>Undefined_Behaviour\<close>.

  The locale \<open>reader\<close> states what the message parsers rely on (a reader stays inside its
  buffer and advances), \<open>codec\<close> adds the round trip with an encoder; every primitive
  interprets them, and the counted loop \<open>read_n\<close> inherits both.
\<close>

section \<open>Writers\<close>

abbreviation NUL :: char where
  "NUL \<equiv> CHR 0x00"

definition push_back :: "buffer \<Rightarrow> char \<Rightarrow> buffer" where
  "push_back buf c = buf @ [c]"

definition hex_digit :: "nat \<Rightarrow> char" where
  "hex_digit d = (if d < 10 then char_of (48 + d) else char_of (87 + d))"

text \<open>\<open>std::hex\<close> with \<open>setw(2)\<close> and \<open>setfill('0')\<close> of the value of one unsigned byte.\<close>

definition hex2 :: "char \<Rightarrow> string" where
  "hex2 c = [hex_digit (of_char c div 16), hex_digit (of_char c mod 16)]"

definition toHex :: "char list \<Rightarrow> string" where
  "toHex t = foldl (\<lambda>ss c. ss @ hex2 c) [] t"

definition htons :: "int16 \<Rightarrow> int16" where
  "htons w = word_of_mem (rev (mem_of_word 2 w))"

definition htonl :: "int32 \<Rightarrow> int32" where
  "htonl w = word_of_mem (rev (mem_of_word 4 w))"

definition ntohs :: "int16 \<Rightarrow> int16" where
  "ntohs w = word_of_mem (rev (mem_of_word 2 w))"

definition ntohl :: "int32 \<Rightarrow> int32" where
  "ntohl w = word_of_mem (rev (mem_of_word 4 w))"

text \<open>\<open>template<typename T> serialize\<close>: the bytes of \<open>val\<close> in memory order; \<open>n\<close> is \<open>sizeof(val)\<close>.\<close>

definition serialize_T :: "nat \<Rightarrow> 'a::len word \<Rightarrow> buffer \<Rightarrow> buffer" where
  "serialize_T n val buf = foldl push_back buf (mem_of_word n val)"

definition serializeInt16 :: "int16 \<Rightarrow> buffer \<Rightarrow> buffer" where
  "serializeInt16 val buf = serialize_T 2 (htons val) buf"

definition serializeInt32 :: "int32 \<Rightarrow> buffer \<Rightarrow> buffer" where
  "serializeInt32 val buf = serialize_T 4 (htonl val) buf"

definition serializeByte1 :: "char \<Rightarrow> buffer \<Rightarrow> buffer" where
  "serializeByte1 c buf = push_back buf c"

definition serializeByte :: "string \<Rightarrow> buffer \<Rightarrow> buffer" where
  "serializeByte s buf = foldl push_back buf s"

definition serialize_string :: "string \<Rightarrow> buffer \<Rightarrow> buffer" where
  "serialize_string s buf = push_back (foldl push_back buf s) NUL"

definition serialize_map :: "(string, string) std_map \<Rightarrow> buffer \<Rightarrow> buffer" where
  "serialize_map option b =
     push_back (foldl (\<lambda>b (k, v). serialize_string v (serialize_string k b)) b option) NUL"

definition serialize_oids :: "int32 list \<Rightarrow> buffer \<Rightarrow> buffer" where
  "serialize_oids oid b =
     foldl (\<lambda>b t. serialize_T 4 t b) (serializeInt16 (word_of_nat (length oid)) b) oid"

section \<open>Readers\<close>

definition read_mem :: "nat \<Rightarrow> buffer \<Rightarrow> nat \<Rightarrow> char list res" where
  "read_mem n b pos =
     (if pos + n \<le> length b then Inr (take n (drop pos b)) else Inl Undefined_Behaviour)"

fun scan_string :: "char list \<Rightarrow> string res" where
  "scan_string [] = Inl Undefined_Behaviour"
| "scan_string (c # cs) =
     (if c = NUL then Inr [] else andThen (scan_string cs) (\<lambda>s. Inr (c # s)))"

definition deserialize_string :: "buffer \<Rightarrow> nat \<Rightarrow> (string \<times> nat) res" where
  "deserialize_string buf pos = andThen (scan_string (drop pos buf)) (\<lambda>s. Inr (s, length s + 1))"

text \<open>\<open>t = ntohs(*tmp)\<close>: the unsigned 16-bit value is converted to \<open>int\<close>.\<close>

definition deserializeInt16 :: "buffer \<Rightarrow> nat \<Rightarrow> (int32 \<times> nat) res" where
  "deserializeInt16 b pos =
     andThen (read_mem 2 b pos) (\<lambda>m. Inr (ucast (ntohs (word_of_mem m)), 2))"

definition deserializeInt32 :: "buffer \<Rightarrow> nat \<Rightarrow> (int32 \<times> nat) res" where
  "deserializeInt32 b pos =
     andThen (read_mem 4 b pos) (\<lambda>m. Inr (ntohl (word_of_mem m), 4))"

definition deserializeByte1 :: "buffer \<Rightarrow> nat \<Rightarrow> (char \<times> nat) res" where
  "deserializeByte1 buf pos = andThen (read_mem 1 buf pos) (\<lambda>m. Inr (hd m, 1))"

definition deserializeByte4 :: "buffer \<Rightarrow> nat \<Rightarrow> (byte4 \<times> nat) res" where
  "deserializeByte4 buf pos = andThen (read_mem 4 buf pos) (\<lambda>m. Inr (m, 4))"

text \<open>The counted loops of the parsers: \<open>pos += deserialize(x, buf, pos); v.push_back(x)\<close>.\<close>

fun read_n :: "(buffer \<Rightarrow> nat \<Rightarrow> ('a \<times> nat) res) \<Rightarrow> nat \<Rightarrow> buffer \<Rightarrow> nat \<Rightarrow> ('a list \<times> nat) res" where
  "read_n dec 0 b pos = Inr ([], pos)"
| "read_n dec (Suc n) b pos =
     andThen (dec b pos) (\<lambda>(x, k).
     andThen (read_n dec n b (pos + k)) (\<lambda>(xs, p). Inr (x # xs, p)))"

section \<open>Big-endian encoding of the writers\<close>

definition be16 :: "int16 \<Rightarrow> buffer" where
  "be16 v = rev (mem_of_word 2 v)"

definition be32 :: "int32 \<Rightarrow> buffer" where
  "be32 v = rev (mem_of_word 4 v)"

definition cstr :: "string \<Rightarrow> buffer" where
  "cstr s = s @ [NUL]"

lemma push_all [simp]: "foldl push_back buf cs = buf @ cs"
  by (induction cs arbitrary: buf) (simp_all add: push_back_def)

lemma length_be16 [simp]: "length (be16 v) = 2"
  by (simp add: be16_def)

lemma length_be32 [simp]: "length (be32 v) = 4"
  by (simp add: be32_def)

lemma length_cstr [simp]: "length (cstr s) = Suc (length s)"
  by (simp add: cstr_def)

lemma mem_htons: "mem_of_word 2 (htons v) = be16 v"
  by (simp add: htons_def be16_def mem_of_word_of_mem)

lemma mem_htonl: "mem_of_word 4 (htonl v) = be32 v"
  by (simp add: htonl_def be32_def mem_of_word_of_mem)

lemma ntohs_be16: "ntohs (word_of_mem (be16 v)) = v"
  by (simp add: ntohs_def be16_def mem_of_word_of_mem word_of_mem_of_word)

lemma ntohl_be32: "ntohl (word_of_mem (be32 v)) = v"
  by (simp add: ntohl_def be32_def mem_of_word_of_mem word_of_mem_of_word)

lemma serializeInt16_eq [wire_simps]: "serializeInt16 v buf = buf @ be16 v"
  by (simp add: serializeInt16_def serialize_T_def mem_htons)

lemma serializeInt32_eq [wire_simps]: "serializeInt32 v buf = buf @ be32 v"
  by (simp add: serializeInt32_def serialize_T_def mem_htonl)

lemma serializeByte1_eq [wire_simps]: "serializeByte1 c buf = buf @ [c]"
  by (simp add: serializeByte1_def push_back_def)

lemma serializeByte_eq [wire_simps]: "serializeByte s buf = buf @ s"
  by (simp add: serializeByte_def)

lemma serialize_string_eq [wire_simps]: "serialize_string s buf = buf @ cstr s"
  by (simp add: serialize_string_def push_back_def cstr_def)

lemma serialize_map_eq [wire_simps]:
  "serialize_map m b = b @ concat (map (\<lambda>(k, v). cstr k @ cstr v) m) @ [NUL]"
proof -
  have "foldl (\<lambda>b (k, v). serialize_string v (serialize_string k b)) b m =
        b @ concat (map (\<lambda>(k, v). cstr k @ cstr v) m)"
    by (induction m arbitrary: b) (auto simp: serialize_string_eq)
  then show ?thesis by (simp add: serialize_map_def push_back_def)
qed

lemma serialize_oids_eq [wire_simps]:
  "serialize_oids oid b = b @ be16 (word_of_nat (length oid)) @ concat (map (mem_of_word 4) oid)"
proof -
  have "foldl (\<lambda>b t. serialize_T 4 t b) b oid = b @ concat (map (mem_of_word 4) oid)" for b
    by (induction oid arbitrary: b) (simp_all add: serialize_T_def)
  then show ?thesis by (simp add: serialize_oids_def serializeInt16_eq)
qed

section \<open>Contracts of the readers\<close>

lemma drop_advance: "drop pos b = xs @ ys \<Longrightarrow> drop (pos + length xs) b = ys"
  by (metis append_eq_conv_conj drop_drop add.commute)

locale reader =
  fixes dec :: "buffer \<Rightarrow> nat \<Rightarrow> ('a \<times> nat) res"
  assumes in_bounds: "dec b pos = Inr (x, k) \<Longrightarrow> 0 < k \<and> pos + k \<le> length b"
    and only_ub: "dec b pos = Inl e \<Longrightarrow> e = Undefined_Behaviour"
begin

lemma read_n_in_bounds:
  "read_n dec n b pos = Inr (xs, p) \<Longrightarrow> length xs = n \<and> pos + n \<le> p \<and> (0 < n \<longrightarrow> p \<le> length b)"
proof (induction n arbitrary: pos xs)
  case (Suc n)
  from Suc.prems obtain x k ys where
    d: "dec b pos = Inr (x, k)" and r: "read_n dec n b (pos + k) = Inr (ys, p)" and xs: "xs = x # ys"
    by (auto simp: andThen_eq_Inr)
  from d have "0 < k" "pos + k \<le> length b" by (auto dest: in_bounds)
  with Suc.IH [OF r] xs show ?case by (cases n) (use r in auto)
qed simp

lemma read_n_only_ub: "read_n dec n b pos = Inl e \<Longrightarrow> e = Undefined_Behaviour"
  by (induction n arbitrary: pos) (auto simp: andThen_eq_Inl dest: only_ub)

end

locale codec = reader dec for dec :: "buffer \<Rightarrow> nat \<Rightarrow> ('a \<times> nat) res" +
  fixes enc :: "'a \<Rightarrow> buffer"
    and valid :: "'a \<Rightarrow> bool"
  assumes dec_enc: "valid x \<Longrightarrow> drop pos b = enc x @ rest \<Longrightarrow> dec b pos = Inr (x, length (enc x))"
begin

lemma dec_front: "valid x \<Longrightarrow> dec (enc x @ rest) 0 = Inr (x, length (enc x))"
  by (rule dec_enc) simp_all

lemma read_n_enc:
  "list_all valid xs \<Longrightarrow> drop pos b = concat (map enc xs) @ rest \<Longrightarrow>
   read_n dec (length xs) b pos = Inr (xs, pos + length (concat (map enc xs)))"
proof (induction xs arbitrary: pos)
  case (Cons x xs)
  then have d: "drop pos b = enc x @ (concat (map enc xs) @ rest)" by simp
  then have "dec b pos = Inr (x, length (enc x))"
    using Cons.prems(1) by (intro dec_enc) simp_all
  moreover have "read_n dec (length xs) b (pos + length (enc x)) =
      Inr (xs, pos + length (enc x) + length (concat (map enc xs)))"
    using Cons.prems(1) drop_advance [OF d] by (intro Cons.IH) simp_all
  ultimately show ?case by simp
qed simp

end

lemma read_mem_Inr: "read_mem n b pos = Inr m \<longleftrightarrow> pos + n \<le> length b \<and> m = take n (drop pos b)"
  by (auto simp: read_mem_def)

lemma read_mem_front: "drop pos b = m @ rest \<Longrightarrow> m \<noteq> [] \<Longrightarrow> read_mem (length m) b pos = Inr m"
proof -
  assume d: "drop pos b = m @ rest" and "m \<noteq> []"
  have "length b - pos = length m + length rest" using d by (metis length_append length_drop)
  moreover have "0 < length m" using \<open>m \<noteq> []\<close> by simp
  ultimately have "pos + length m \<le> length b" by linarith
  then show ?thesis by (simp add: read_mem_def d)
qed

lemma read_mem_Inl: "read_mem n b pos = Inl e \<Longrightarrow> e = Undefined_Behaviour"
  by (auto simp: read_mem_def split: if_splits)

lemma scan_string_Inl: "scan_string cs = Inl e \<Longrightarrow> e = Undefined_Behaviour"
  by (induction cs) (auto simp: andThen_eq_Inl split: if_splits)

lemma scan_string_Inr: "scan_string cs = Inr s \<longleftrightarrow> NUL \<notin> set s \<and> (\<exists>rest. cs = s @ NUL # rest)"
proof (induction cs arbitrary: s)
  case (Cons c cs)
  note IH = Cons.IH
  show ?case
  proof (cases s)
    case Nil
    then show ?thesis by (auto simp: andThen_eq_Inr)
  next
    case (Cons a t)
    then show ?thesis using IH [of t] by (auto simp: andThen_eq_Inr)
  qed
qed simp

lemma scan_string_ok: "is_ok (scan_string cs) \<longleftrightarrow> NUL \<in> set cs"
  by (induction cs) (auto simp: is_ok_iff andThen_eq_Inr)

text \<open>The 16-bit reader returns the zero extension; it inverts the writer on non-negative values.\<close>

definition enc_uint16 :: "int32 \<Rightarrow> buffer" where
  "enc_uint16 v = be16 (ucast v)"

definition fits_uint16 :: "int32 \<Rightarrow> bool" where
  "fits_uint16 v \<longleftrightarrow> unat v < 2 ^ 16"

lemma ucast_ucast_16: "fits_uint16 v \<Longrightarrow> ucast (ucast v :: int16) = (v :: int32)"
proof -
  assume "fits_uint16 v"
  then have "take_bit 16 (unat v) = unat v"
    by (simp add: fits_uint16_def take_bit_nat_eq_self)
  then have "unat (take_bit 16 v) = unat v"
    by (simp only: unsigned_take_bit_eq)
  then show ?thesis
    by (intro word_unat_eq_iff [THEN iffD2]) (simp add: unsigned_ucast_eq)
qed

interpretation int16_codec: codec deserializeInt16 enc_uint16 fits_uint16
proof
  fix b pos x k
  assume "deserializeInt16 b pos = Inr (x, k)"
  then show "0 < k \<and> pos + k \<le> length b"
    by (auto simp: deserializeInt16_def andThen_eq_Inr read_mem_Inr)
next
  fix b pos e
  assume "deserializeInt16 b pos = Inl e"
  then show "e = Undefined_Behaviour"
    by (auto simp: deserializeInt16_def andThen_eq_Inl dest: read_mem_Inl)
next
  fix x pos b rest
  assume v: "fits_uint16 x" and d: "drop pos b = enc_uint16 x @ rest"
  have "read_mem 2 b pos = Inr (be16 (ucast x))"
    using read_mem_front [OF d] by (simp add: enc_uint16_def be16_def flip: length_0_conv)
  then show "deserializeInt16 b pos = Inr (x, length (enc_uint16 x))"
    using v by (simp add: deserializeInt16_def enc_uint16_def ntohs_be16 ucast_ucast_16)
qed

interpretation int32_codec: codec deserializeInt32 be32 "\<lambda>_. True"
proof
  fix b pos x k
  assume "deserializeInt32 b pos = Inr (x, k)"
  then show "0 < k \<and> pos + k \<le> length b"
    by (auto simp: deserializeInt32_def andThen_eq_Inr read_mem_Inr)
next
  fix b pos e
  assume "deserializeInt32 b pos = Inl e"
  then show "e = Undefined_Behaviour"
    by (auto simp: deserializeInt32_def andThen_eq_Inl dest: read_mem_Inl)
next
  fix x pos b rest
  assume d: "drop pos b = be32 x @ rest"
  have "read_mem 4 b pos = Inr (be32 x)"
    using read_mem_front [OF d] by (simp flip: length_0_conv)
  then show "deserializeInt32 b pos = Inr (x, length (be32 x))"
    by (simp add: deserializeInt32_def ntohl_be32)
qed

interpretation byte1_codec: codec deserializeByte1 "\<lambda>c. [c]" "\<lambda>_. True"
proof
  fix b pos x k
  assume "deserializeByte1 b pos = Inr (x, k)"
  then show "0 < k \<and> pos + k \<le> length b"
    by (auto simp: deserializeByte1_def andThen_eq_Inr read_mem_Inr)
next
  fix b pos e
  assume "deserializeByte1 b pos = Inl e"
  then show "e = Undefined_Behaviour"
    by (auto simp: deserializeByte1_def andThen_eq_Inl dest: read_mem_Inl)
next
  fix x :: char and pos b rest
  assume d: "drop pos b = [x] @ rest"
  have "read_mem 1 b pos = Inr [x]"
    using read_mem_front [OF d] by simp
  then show "deserializeByte1 b pos = Inr (x, length [x])"
    by (simp add: deserializeByte1_def)
qed

interpretation byte4_codec: codec deserializeByte4 "\<lambda>m. m" "\<lambda>m. length m = 4"
proof
  fix b pos x k
  assume "deserializeByte4 b pos = Inr (x, k)"
  then show "0 < k \<and> pos + k \<le> length b"
    by (auto simp: deserializeByte4_def andThen_eq_Inr read_mem_Inr)
next
  fix b pos e
  assume "deserializeByte4 b pos = Inl e"
  then show "e = Undefined_Behaviour"
    by (auto simp: deserializeByte4_def andThen_eq_Inl dest: read_mem_Inl)
next
  fix x :: byte4 and pos b rest
  assume l: "length x = 4" and d: "drop pos b = x @ rest"
  have "read_mem 4 b pos = Inr x"
    using read_mem_front [OF d] l by (metis length_0_conv zero_neq_numeral)
  then show "deserializeByte4 b pos = Inr (x, length x)"
    using l by (simp add: deserializeByte4_def)
qed

interpretation string_codec: codec deserialize_string cstr "\<lambda>s. NUL \<notin> set s"
proof
  fix b pos x k
  assume "deserialize_string b pos = Inr (x, k)"
  then obtain rest where k: "k = length x + 1" and d: "drop pos b = x @ NUL # rest"
    by (auto simp: deserialize_string_def andThen_eq_Inr scan_string_Inr)
  have "length (drop pos b) = length x + 1 + length rest" by (simp add: d)
  then show "0 < k \<and> pos + k \<le> length b" by (simp add: k)
next
  fix b pos e
  assume "deserialize_string b pos = Inl e"
  then show "e = Undefined_Behaviour"
    by (auto simp: deserialize_string_def andThen_eq_Inl dest: scan_string_Inl)
next
  fix x :: string and pos b rest
  assume v: "NUL \<notin> set x" and d: "drop pos b = cstr x @ rest"
  have "scan_string (drop pos b) = Inr x"
    using v by (simp add: d scan_string_Inr cstr_def)
  then show "deserialize_string b pos = Inr (x, length (cstr x))"
    by (simp add: deserialize_string_def)
qed

lemmas codec_dec [codec_rules] =
  int16_codec.dec_enc int32_codec.dec_enc byte1_codec.dec_enc byte4_codec.dec_enc string_codec.dec_enc

end
