(* ===== verification/PgFormat.thy ===== *)
theory PgFormat
  imports Wire
begin

text \<open>
  \<^verbatim>\<open>src/src/pgtype.h\<close>, \<^verbatim>\<open>src/src/pgformat.h\<close>, \<^verbatim>\<open>src/src/pgformat.cpp\<close>: type OIDs, the column
  description \<open>FieldSpec\<close>, the three built-in text decoders and the decoder table
  \<open>PGFormatType\<close>. A decoder is called with a pointer into the message buffer, here the buffer
  and a position, and the size field of the column, a signed 32-bit integer.
  \<open>std::any\<close> holds one of the three types the default table produces; \<open>std::stoi\<close> is modelled
  after \<open>strtol\<close> in base 10.

  The locale \<open>column_decoder\<close> is the contract between a decoder and the row parser: on a column
  whose bytes lie in the buffer, the decoder's result is a function of those bytes alone.
\<close>

section \<open>Types\<close>

datatype PGOIDType =
    PG_BOOLOID | PG_BYTEAOID | PG_CHAROID | PG_INT8OID | PG_INT2OID | PG_INT4OID | PG_TEXTOID
  | PG_OIDOID | PG_FLOAT4OID | PG_FLOAT8OID | PG_ABSTIMEOID | PG_RELTIMEOID | PG_TINTERVALOID
  | PG_UNKNOWNOID | PG_CASHOID | PG_MACADDROID | PG_INETOID | PG_CIDROID | PG_INT4ARRAYOID
  | PG_TEXTARRAYOID | PG_CSTRINGARRAYOID | PG_BPCHAROID | PG_VARCHAROID | PG_DATEOID | PG_TIMEOID
  | PG_TIMESTAMPOID | PG_TIMESTAMPTZOID | PG_INTERVALOID | PG_TIMETZOID | PG_BITOID | PG_VARBITOID
  | PG_NUMERICOID

fun oid_value :: "PGOIDType \<Rightarrow> int32" where
  "oid_value PG_BOOLOID = 16"
| "oid_value PG_BYTEAOID = 17"
| "oid_value PG_CHAROID = 18"
| "oid_value PG_INT8OID = 20"
| "oid_value PG_INT2OID = 21"
| "oid_value PG_INT4OID = 23"
| "oid_value PG_TEXTOID = 25"
| "oid_value PG_OIDOID = 26"
| "oid_value PG_FLOAT4OID = 700"
| "oid_value PG_FLOAT8OID = 701"
| "oid_value PG_ABSTIMEOID = 702"
| "oid_value PG_RELTIMEOID = 703"
| "oid_value PG_TINTERVALOID = 704"
| "oid_value PG_UNKNOWNOID = 705"
| "oid_value PG_CASHOID = 790"
| "oid_value PG_MACADDROID = 829"
| "oid_value PG_INETOID = 869"
| "oid_value PG_CIDROID = 650"
| "oid_value PG_INT4ARRAYOID = 1007"
| "oid_value PG_TEXTARRAYOID = 1009"
| "oid_value PG_CSTRINGARRAYOID = 1263"
| "oid_value PG_BPCHAROID = 1042"
| "oid_value PG_VARCHAROID = 1043"
| "oid_value PG_DATEOID = 1082"
| "oid_value PG_TIMEOID = 1083"
| "oid_value PG_TIMESTAMPOID = 1114"
| "oid_value PG_TIMESTAMPTZOID = 1184"
| "oid_value PG_INTERVALOID = 1186"
| "oid_value PG_TIMETZOID = 1266"
| "oid_value PG_BITOID = 1560"
| "oid_value PG_VARBITOID = 1562"
| "oid_value PG_NUMERICOID = 1700"

record FieldSpec =
  fs_name :: string
  table_oid :: int32
  col_num :: int32
  type_oid :: int32
  type_size :: int32
  type_mod :: int32
  type_format :: int32

datatype any = ABool bool | AInt int32 | AString string

section \<open>Text of integers\<close>

definition digit_char :: "nat \<Rightarrow> char" where
  "digit_char d = char_of (48 + d)"

text \<open>\<open>operator<<\<close> of an integer to a stream in decimal.\<close>

fun show_nat :: "nat \<Rightarrow> string" where
  "show_nat n = (if n < 10 then [digit_char n] else show_nat (n div 10) @ [digit_char (n mod 10)])"

declare show_nat.simps [simp del]

definition show_int :: "int \<Rightarrow> string" where
  "show_int i = (if i < 0 then CHR ''-'' # show_nat (nat (- i)) else show_nat (nat i))"

definition is_space :: "char \<Rightarrow> bool" where
  "is_space c \<longleftrightarrow> c = CHR '' '' \<or> (9 \<le> (of_char c :: nat) \<and> (of_char c :: nat) \<le> 13)"

definition is_digit :: "char \<Rightarrow> bool" where
  "is_digit c \<longleftrightarrow> 48 \<le> (of_char c :: nat) \<and> (of_char c :: nat) \<le> 57"

definition digits_value :: "string \<Rightarrow> int" where
  "digits_value ds = foldl (\<lambda>a c. 10 * a + (of_char c - 48)) 0 ds"

text \<open>
  \<open>std::stoi\<close>: \<open>strtol\<close> on the NUL-terminated text (leading white space, a sign, digits; the rest
  is ignored), \<open>invalid_argument\<close> when there is no digit, \<open>out_of_range\<close> when the value is not
  an \<open>int\<close>.
\<close>

definition stoi :: "string \<Rightarrow> int32 res" where
  "stoi str =
     (let s = dropWhile is_space (takeWhile (\<lambda>c. c \<noteq> NUL) str);
          neg = (s \<noteq> [] \<and> hd s = CHR ''-'');
          t = (if s \<noteq> [] \<and> (hd s = CHR ''-'' \<or> hd s = CHR ''+'') then tl s else s);
          ds = takeWhile is_digit t;
          v = (if neg then - digits_value ds else digits_value ds)
      in if ds = [] then Inl (Throw Invalid_Argument)
         else if v < - (2 ^ 31) \<or> 2 ^ 31 \<le> v then Inl (Throw Out_Of_Range)
         else Inr (word_of_int v))"

section \<open>Decoders\<close>

text \<open>\<open>std::string{tmp, static_cast<size_type>(sz)}\<close>\<close>

definition make_string :: "buffer \<Rightarrow> nat \<Rightarrow> int32 \<Rightarrow> string res" where
  "make_string buf pos sz =
     (if max_alloc < size_of_int sz then Inl (Throw Length_Error)
      else read_mem (size_of_int sz) buf pos)"

definition decodeBool :: "buffer \<Rightarrow> nat \<Rightarrow> int32 \<Rightarrow> bool res" where
  "decodeBool buf pos sz =
     andThen (read_mem 1 buf pos) (\<lambda>tmp.
       if hd tmp = CHR ''t'' \<or> hd tmp = CHR ''T'' then Inr True else Inr False)"

definition decodeInt4 :: "buffer \<Rightarrow> nat \<Rightarrow> int32 \<Rightarrow> int32 res" where
  "decodeInt4 buf pos sz = andThen (make_string buf pos sz) stoi"

definition decodeText :: "buffer \<Rightarrow> nat \<Rightarrow> int32 \<Rightarrow> string res" where
  "decodeText buf pos sz = make_string buf pos sz"

type_synonym 'v decode_function = "buffer \<Rightarrow> nat \<Rightarrow> int32 \<Rightarrow> 'v res"
type_synonym 'v PGFormatType = "(int32, 'v decode_function) std_map"

definition any_of :: "('a \<Rightarrow> any) \<Rightarrow> 'a decode_function \<Rightarrow> any decode_function" where
  "any_of mk dec buf pos sz = andThen (dec buf pos sz) (\<lambda>x. Inr (mk x))"

definition PGFormat_init :: "any PGFormatType" where
  "PGFormat_init = map_init sint
     [(oid_value PG_BOOLOID, any_of ABool decodeBool),
      (oid_value PG_INT4OID, any_of AInt decodeInt4),
      (oid_value PG_TEXTOID, any_of AString decodeText)]"

definition PGFormat_decode :: "any PGFormatType \<Rightarrow> FieldSpec \<Rightarrow> any decode_function" where
  "PGFormat_decode m_pg_decoder fs buf pos sz =
     (if type_format fs = 1 then Inl (Throw (Int_Thrown 1))
      else (case map_of m_pg_decoder (type_oid fs) of
              Some dec \<Rightarrow> dec buf pos sz
            | None \<Rightarrow> any_of AString decodeText buf pos sz))"

text \<open>\<open>emplace\<close> reports whether the decoder was inserted; it never replaces one.\<close>

definition PGFormat_emplace ::
  "int32 \<Rightarrow> 'v decode_function \<Rightarrow> 'v PGFormatType \<Rightarrow> 'v PGFormatType \<times> bool" where
  "PGFormat_emplace oid dec m = (map_emplace sint oid dec m, map_of m oid = None)"

definition FieldSpecs_put :: "string \<Rightarrow> FieldSpec list \<Rightarrow> string" where
  "FieldSpecs_put os obj = foldl (\<lambda>os f.
     os @ ''name='' @ fs_name f
        @ '', table_oid='' @ show_int (sint (table_oid f))
        @ '', col_num='' @ show_int (sint (col_num f))
        @ '', type_oid='' @ show_int (sint (type_oid f))
        @ '', type_size='' @ show_int (sint (type_size f))
        @ '', type_mod='' @ show_int (sint (type_mod f))
        @ '', type_format='' @ show_int (sint (type_format f)) @ [CHR 0x0A]) os obj"

section \<open>Decimal text: \<open>stoi\<close> inverts \<open>show_int\<close>\<close>

lemma of_char_digit_char: "d < 10 \<Longrightarrow> (of_char (digit_char d) :: nat) = 48 + d"
  by (simp add: digit_char_def)

lemma of_char_digit_char_int: "d < 10 \<Longrightarrow> (of_char (digit_char d) :: int) = 48 + int d"
  using of_char_digit_char [of d] by (metis of_nat_add of_nat_numeral of_nat_of_char)

lemma is_digit_digit_char: "d < 10 \<Longrightarrow> is_digit (digit_char d)"
  by (simp add: is_digit_def of_char_digit_char)

lemma show_nat_digits: "list_all is_digit (show_nat n)"
proof (induction n rule: show_nat.induct)
  case (1 n)
  show ?case
    using 1 by (subst show_nat.simps) (simp add: is_digit_digit_char)
qed

lemma show_nat_neq_Nil [simp]: "show_nat n \<noteq> []"
  by (subst show_nat.simps) simp

lemma digits_value_snoc: "digits_value (ds @ [c]) = 10 * digits_value ds + (of_char c - 48)"
  by (simp add: digits_value_def)

lemma digits_value_show_nat: "digits_value (show_nat n) = int n"
proof (induction n rule: show_nat.induct)
  case (1 n)
  show ?case
  proof (cases "n < 10")
    case True
    then show ?thesis
      by (subst show_nat.simps) (simp add: digits_value_def of_char_digit_char_int)
  next
    case False
    have "n mod 10 < 10" by simp
    then have "digits_value (show_nat (n div 10) @ [digit_char (n mod 10)])
               = 10 * int (n div 10) + int (n mod 10)"
      using 1 False by (simp only: digits_value_snoc of_char_digit_char_int) simp
    also have "\<dots> = int n" by presburger
    finally show ?thesis using False by (subst show_nat.simps) simp
  qed
qed

lemma is_digit_facts:
  "is_digit c \<Longrightarrow> \<not> is_space c" "is_digit c \<Longrightarrow> c \<noteq> NUL" "is_digit c \<Longrightarrow> c \<noteq> CHR ''-''" "is_digit c \<Longrightarrow> c \<noteq> CHR ''+''"
  by (auto simp: is_digit_def is_space_def)

lemma takeWhile_all: "list_all P xs \<Longrightarrow> takeWhile P xs = xs"
  by (simp add: list_all_iff takeWhile_eq_all_conv)

lemma stoi_show_int:
  assumes "- (2 ^ 31) \<le> i" and "i < 2 ^ 31"
  shows "stoi (show_int i) = Inr (word_of_int i)"
proof -
  define ds where "ds = show_nat (nat \<bar>i\<bar>)"
  have dig: "list_all is_digit ds" and ne: "ds \<noteq> []" and val: "digits_value ds = \<bar>i\<bar>"
    by (simp_all add: ds_def show_nat_digits digits_value_show_nat)
  have hd: "is_digit (hd ds)" using dig ne by (cases ds) auto
  have notnul: "takeWhile (\<lambda>c. c \<noteq> NUL) ds = ds"
    using dig by (intro takeWhile_all) (auto simp: list_all_iff dest: is_digit_facts)
  have nosp: "dropWhile is_space ds = ds"
    using hd ne by (cases ds) (auto dest: is_digit_facts)
  show ?thesis
  proof (cases "i < 0")
    case True
    then have "show_int i = CHR ''-'' # ds" by (simp add: show_int_def ds_def)
    then show ?thesis
      using True assms ne by (simp add: stoi_def notnul is_space_def takeWhile_all [OF dig] val)
  next
    case False
    then have "show_int i = ds" by (simp add: show_int_def ds_def)
    then show ?thesis
      using False assms ne hd is_digit_facts(3,4) [OF hd]
      by (simp add: stoi_def notnul nosp takeWhile_all [OF dig] val)
  qed
qed

section \<open>The contract of a column decoder\<close>

locale column_decoder =
  fixes dec :: "'v decode_function"
    and val :: "string \<Rightarrow> 'v res"
    and least :: nat
  assumes slice: "\<lbrakk> drop pos b = v @ rest; pos \<le> length b; least \<le> length v; length v < 2 ^ 31 \<rbrakk>
                  \<Longrightarrow> dec b pos (word_of_nat (length v)) = val v"

lemma make_string_slice:
  assumes "drop pos b = v @ rest" "pos \<le> length b" "length v < 2 ^ 31"
  shows "make_string b pos (word_of_nat (length v)) = Inr v"
proof -
  have "length b - pos = length v + length rest" using assms(1) by (metis length_append length_drop)
  then have "pos + length v \<le> length b" using assms(2) by linarith
  then show ?thesis
    using assms by (simp add: make_string_def size_of_int_of_nat max_alloc_def read_mem_def)
qed

lemma make_string_null: "make_string b pos (-1) = Inl (Throw Length_Error)"
  by (simp add: make_string_def size_of_int_neg)

definition bool_val :: "string \<Rightarrow> any res" where
  "bool_val v = Inr (ABool (hd v = CHR ''t'' \<or> hd v = CHR ''T''))"

definition int4_val :: "string \<Rightarrow> any res" where
  "int4_val v = andThen (stoi v) (\<lambda>x. Inr (AInt x))"

definition text_val :: "string \<Rightarrow> any res" where
  "text_val v = Inr (AString v)"

interpretation bool_column: column_decoder "any_of ABool decodeBool" bool_val 1
proof
  fix pos :: nat and b v rest :: buffer
  assume d: "drop pos b = v @ rest" and p: "pos \<le> length b" and l: "1 \<le> length v"
  obtain c v' where v: "v = c # v'" using l by (cases v) auto
  have "read_mem 1 b pos = Inr [c]"
    using read_mem_front [of pos b "[c]" "v' @ rest"] d v by simp
  then show "any_of ABool decodeBool b pos (word_of_nat (length v)) = bool_val v"
    by (simp add: any_of_def decodeBool_def bool_val_def v)
qed

interpretation int4_column: column_decoder "any_of AInt decodeInt4" int4_val 0
  by unfold_locales (simp add: any_of_def decodeInt4_def make_string_slice int4_val_def)

interpretation text_column: column_decoder "any_of AString decodeText" text_val 0
  by unfold_locales (simp add: any_of_def decodeText_def make_string_slice text_val_def)

interpretation oid_key: ordered_key "sint :: int32 \<Rightarrow> int"
  by unfold_locales (simp add: signed_word_eqI)

lemma PGFormat_init_lookup:
  "map_of PGFormat_init oid =
     (if oid = 16 then Some (any_of ABool decodeBool)
      else if oid = 23 then Some (any_of AInt decodeInt4)
      else if oid = 25 then Some (any_of AString decodeText) else None)"
  by (simp add: PGFormat_init_def map_init_def)

text \<open>What the default table makes of a column's text.\<close>

definition column_val :: "FieldSpec \<Rightarrow> string \<Rightarrow> any res" where
  "column_val fs v =
     (if type_format fs = 1 then Inl (Throw (Int_Thrown 1))
      else if type_oid fs = oid_value PG_BOOLOID then bool_val v
      else if type_oid fs = oid_value PG_INT4OID then int4_val v
      else text_val v)"

text \<open>\<open>decodeBool\<close> reads a byte whatever the size; the other decoders accept an empty column.\<close>

definition least_size :: "FieldSpec \<Rightarrow> nat" where
  "least_size fs = (if type_oid fs = oid_value PG_BOOLOID then 1 else 0)"

interpretation default_column: column_decoder "PGFormat_decode PGFormat_init fs" "column_val fs" "least_size fs" for fs
proof
  fix pos :: nat and b v rest :: buffer
  assume a: "drop pos b = v @ rest" "pos \<le> length b" "least_size fs \<le> length v" "length v < 2 ^ 31"
  show "PGFormat_decode PGFormat_init fs b pos (word_of_nat (length v)) = column_val fs v"
    using bool_column.slice [OF a(1,2) _ a(4)] int4_column.slice [OF a(1,2) _ a(4)]
      text_column.slice [OF a(1,2) _ a(4)] a(3)
    by (simp add: PGFormat_decode_def PGFormat_init_lookup column_val_def least_size_def split: if_splits)
qed

lemma int4_val_show_int: "- (2 ^ 31) \<le> i \<Longrightarrow> i < 2 ^ 31 \<Longrightarrow> int4_val (show_int i) = Inr (AInt (word_of_int i))"
  by (simp add: int4_val_def stoi_show_int)

section \<open>Properties\<close>

text \<open>
  Integers survive the text format: for every 32-bit integer, when a column of type \<open>int4\<close> holds its
  decimal text, wherever in the message, the default decoder returns exactly that integer, the two
  extreme values included.
\<close>

theorem int4_roundtrip:
  assumes "drop pos b = show_int (sint i) @ rest" and "pos \<le> length b" and "length (show_int (sint i)) < 2 ^ 31"
    and "type_oid fs = oid_value PG_INT4OID" and "type_format fs = 0"
  shows "PGFormat_decode PGFormat_init fs b pos (word_of_nat (length (show_int (sint i)))) = Inr (AInt i)"
proof -
  have "PGFormat_decode PGFormat_init fs b pos (word_of_nat (length (show_int (sint i)))) = column_val fs (show_int (sint i))"
    using assms by (intro default_column.slice) (simp_all add: least_size_def)
  moreover have "column_val fs (show_int (sint i)) = int4_val (show_int (sint i))"
    using assms(4,5) by (simp add: column_val_def)
  moreover have "int4_val (show_int (sint i)) = Inr (AInt i)"
    using int4_val_show_int [of "sint i"] sint32_range [of i] by simp
  ultimately show ?thesis by simp
qed

theorem int4_roundtrip_witness:
  "PGFormat_decode PGFormat_init
     \<lparr>fs_name = ''n'', table_oid = 0, col_num = 0, type_oid = 23, type_size = 4, type_mod = - 1, type_format = 0\<rparr>
     (''xx'' @ show_int (sint (- 42 :: int32)) @ ''yy'') 2 (word_of_nat (length (show_int (sint (- 42 :: int32))))) = Inr (AInt (- 42))"
  by (rule int4_roundtrip [where rest = "''yy''"]) (simp_all add: show_int_def show_nat.simps)

text \<open>
  Registering a decoder: \<open>emplace\<close> reports whether the type was new; a new one is decoded by the
  given function from then on, an existing decoder is never replaced, and no other type changes.
\<close>

theorem decoder_emplace:
  assumes "map_ok sint m"
  shows "let (m', inserted) = PGFormat_emplace oid dec m in
    (inserted \<longleftrightarrow> map_of m oid = None) \<and> map_ok sint m' \<and>
    (\<forall>t. map_of m' t = (if t = oid \<and> inserted then Some dec else map_of m t))"
  using assms by (auto simp: PGFormat_emplace_def oid_key.find_emplace map_ok_emplace split: option.splits)

theorem decoder_emplace_witness:
  "let (m', inserted) = PGFormat_emplace 1700 (any_of AString decodeText) PGFormat_init in
    (inserted \<longleftrightarrow> map_of PGFormat_init 1700 = None) \<and> map_ok sint m' \<and>
    (\<forall>t. map_of m' t = (if t = 1700 \<and> inserted then Some (any_of AString decodeText) else map_of PGFormat_init t))"
  by (rule decoder_emplace) (simp add: PGFormat_init_def map_ok_init)

end
