(* ===== verification/DbResult.thy ===== *)
theory DbResult
  imports PgFormat
begin

text \<open>
  \<^verbatim>\<open>src/src/dbresult.h\<close>: \<open>Record\<close>, \<open>RecordSet\<close>, the abstract \<open>ResultBase\<close> and its
  implementation \<open>ResultSetType\<close> (at \<open>Record\<close>, the default). A row is the list of its values.
  Indexing and \<open>front\<close>/\<open>back\<close> outside the vector are undefined behaviour; \<open>map::at\<close> throws.

  The locale \<open>result_sink\<close> is the virtual interface \<open>ResultBase\<close> as the row parser uses it;
  \<open>ResultSetType\<close> interprets it.
\<close>

section \<open>Record and RecordSet\<close>

type_synonym Record = "any list"

text \<open>\<open>std::any_cast<T>\<close> is given by its projection: \<open>None\<close> when the value holds another type.\<close>

definition any_cast :: "(any \<Rightarrow> 'a option) \<Rightarrow> any \<Rightarrow> 'a res" where
  "any_cast proj x = (case proj x of Some y \<Rightarrow> Inr y | None \<Rightarrow> Inl (Throw Bad_Any_Cast))"

fun to_bool :: "any \<Rightarrow> bool option" where
  "to_bool (ABool b) = Some b"
| "to_bool _ = None"

fun to_int :: "any \<Rightarrow> int32 option" where
  "to_int (AInt i) = Some i"
| "to_int _ = None"

fun to_string :: "any \<Rightarrow> string option" where
  "to_string (AString s) = Some s"
| "to_string _ = None"

definition vec_at :: "'a list \<Rightarrow> nat \<Rightarrow> 'a res" where
  "vec_at xs i = (if i < length xs then Inr (xs ! i) else Inl Undefined_Behaviour)"

definition vec_front :: "'a list \<Rightarrow> 'a res" where
  "vec_front xs = (if xs \<noteq> [] then Inr (hd xs) else Inl Undefined_Behaviour)"

definition vec_back :: "'a list \<Rightarrow> 'a res" where
  "vec_back xs = (if xs \<noteq> [] then Inr (last xs) else Inl Undefined_Behaviour)"

definition Record_get :: "(any \<Rightarrow> 'a option) \<Rightarrow> Record \<Rightarrow> nat \<Rightarrow> 'a res" where
  "Record_get proj r pos = andThen (vec_at r pos) (any_cast proj)"

record RecordSet =
  m_field_spec :: "FieldSpec list"
  m_field_by_name :: "(string, nat) std_map"
  m_row :: "Record list"
  m_error :: SQLError

definition RecordSet_empty :: RecordSet where
  "RecordSet_empty = \<lparr>m_field_spec = [], m_field_by_name = [], m_row = [], m_error = SQLError_init\<rparr>"

definition name_index :: "FieldSpec list \<Rightarrow> (string, nat) std_map" where
  "name_index fs = foldl (\<lambda>m i. map_emplace id (fs_name (fs ! i)) i m) [] [0..<length fs]"

definition RecordSet_fields :: "FieldSpec list \<Rightarrow> RecordSet" where
  "RecordSet_fields fs = RecordSet_empty\<lparr>m_field_spec := fs, m_field_by_name := name_index fs\<rparr>"

definition RecordSet_error :: "SQLError \<Rightarrow> RecordSet" where
  "RecordSet_error er = RecordSet_empty\<lparr>m_error := er\<rparr>"

definition RecordSet_bool :: "RecordSet \<Rightarrow> bool" where
  "RecordSet_bool rs = (\<not> SQLError_bool (m_error rs))"

definition RecordSet_size :: "RecordSet \<Rightarrow> nat" where
  "RecordSet_size rs = length (m_row rs)"

definition RecordSet_front :: "RecordSet \<Rightarrow> Record res" where
  "RecordSet_front rs = vec_front (m_row rs)"

definition RecordSet_back :: "RecordSet \<Rightarrow> Record res" where
  "RecordSet_back rs = vec_back (m_row rs)"

definition RecordSet_clear :: "RecordSet \<Rightarrow> RecordSet" where
  "RecordSet_clear rs = rs\<lparr>m_field_spec := [], m_field_by_name := [], m_row := []\<rparr>"

definition RecordSet_push_back :: "Record \<Rightarrow> RecordSet \<Rightarrow> RecordSet" where
  "RecordSet_push_back r rs = rs\<lparr>m_row := m_row rs @ [r]\<rparr>"

definition RecordSet_emplace_back :: "RecordSet \<Rightarrow> RecordSet" where
  "RecordSet_emplace_back rs = rs\<lparr>m_row := m_row rs @ [[]]\<rparr>"

definition RecordSet_get :: "(any \<Rightarrow> 'a option) \<Rightarrow> RecordSet \<Rightarrow> nat \<Rightarrow> nat \<Rightarrow> 'a res" where
  "RecordSet_get proj rs row col = andThen (vec_at (m_row rs) row) (\<lambda>r. Record_get proj r col)"

definition RecordSet_get_by_name :: "(any \<Rightarrow> 'a option) \<Rightarrow> RecordSet \<Rightarrow> nat \<Rightarrow> string \<Rightarrow> 'a res" where
  "RecordSet_get_by_name proj rs row col =
     (case map_of (m_field_by_name rs) col of
        None \<Rightarrow> Inl (Throw Out_Of_Range)
      | Some i \<Rightarrow> RecordSet_get proj rs row i)"

section \<open>ResultSetType\<close>

record ResultSet =
  m_rset :: "RecordSet list"
  m_pgformat :: "any PGFormatType"

definition ResultSet_init :: "any PGFormatType \<Rightarrow> ResultSet" where
  "ResultSet_init pgf = \<lparr>m_rset = [], m_pgformat = pgf\<rparr>"

definition ResultSet_bool :: "ResultSet \<Rightarrow> bool" where
  "ResultSet_bool res = (if m_rset res = [] then False else RecordSet_bool (m_rset res ! 0))"

definition add_result_fields :: "FieldSpec list \<Rightarrow> ResultSet \<Rightarrow> ResultSet" where
  "add_result_fields fs res = res\<lparr>m_rset := m_rset res @ [RecordSet_fields fs]\<rparr>"

definition add_result_error :: "SQLError \<Rightarrow> ResultSet \<Rightarrow> ResultSet" where
  "add_result_error e res = res\<lparr>m_rset := m_rset res @ [RecordSet_error e]\<rparr>"

definition set_back :: "RecordSet \<Rightarrow> ResultSet \<Rightarrow> ResultSet" where
  "set_back rs res = res\<lparr>m_rset := butlast (m_rset res) @ [rs]\<rparr>"

definition add_row :: "ResultSet \<Rightarrow> ResultSet res" where
  "add_row res =
     andThen (vec_back (m_rset res)) (\<lambda>rs. Inr (set_back (RecordSet_emplace_back rs) res))"

definition add_column :: "nat \<Rightarrow> buffer \<Rightarrow> nat \<Rightarrow> int32 \<Rightarrow> ResultSet \<Rightarrow> ResultSet res" where
  "add_column i buf pos sz res =
     andThen (vec_back (m_rset res)) (\<lambda>rs.
     andThen (RecordSet_back rs) (\<lambda>row.
     andThen (vec_at (m_field_spec rs) i) (\<lambda>fs.
     andThen (PGFormat_decode (m_pgformat res) fs buf pos sz) (\<lambda>v.
       Inr (set_back (rs\<lparr>m_row := butlast (m_row rs) @ [row @ [v]]\<rparr>) res)))))"

definition ResultSet_size :: "ResultSet \<Rightarrow> nat" where
  "ResultSet_size res = length (m_rset res)"

definition ResultSet_at :: "ResultSet \<Rightarrow> nat \<Rightarrow> RecordSet res" where
  "ResultSet_at res pos = vec_at (m_rset res) pos"

section \<open>Lookup by name\<close>

interpretation string_key: ordered_key "id :: string \<Rightarrow> string"
  by unfold_locales simp

lemma name_index_aux:
  "map_ok id m \<Longrightarrow> i \<le> j \<Longrightarrow>
   map_of (foldl (\<lambda>m k. map_emplace id (fs_name (fs ! k)) k m) m [i..<j]) s =
     (case map_of m s of Some k \<Rightarrow> Some k
      | None \<Rightarrow> find (\<lambda>k. fs_name (fs ! k) = s) [i..<j])"
proof (induction "j - i" arbitrary: i m)
  case (Suc d)
  then have ij: "[i..<j] = i # [Suc i..<j]" by (simp add: upt_conv_Cons)
  show ?case
    using Suc by (auto simp: ij map_ok_emplace string_key.find_emplace split: option.splits)
qed (simp split: option.splits)

lemma find_upt_bound: "find P [i..<j] = Some k \<Longrightarrow> i \<le> k \<and> k < j \<and> P k \<and> (\<forall>l. i \<le> l \<longrightarrow> l < k \<longrightarrow> \<not> P l)"
proof -
  assume "find P [i..<j] = Some k"
  then obtain n where n: "n < length [i..<j]" "P ([i..<j] ! n)" "k = [i..<j] ! n"
      "\<forall>m<n. \<not> P ([i..<j] ! m)"
    by (auto simp: find_Some_iff)
  then have k: "k = i + n" by simp
  have "\<not> P l" if "i \<le> l" "l < k" for l
    using n(4) [THEN spec [of _ "l - i"]] that n(1) by (simp add: k)
  with n k show ?thesis by auto
qed

lemma name_index_find: "map_of (name_index fs) s = find (\<lambda>k. fs_name (fs ! k) = s) [0..<length fs]"
  by (simp add: name_index_def name_index_aux)

section \<open>The virtual interface of the row parser\<close>

text \<open>
  \<open>expects\<close> reads the column descriptions of the current result, \<open>cells\<close> the row being built;
  \<open>start\<close> and \<open>put\<close> are \<open>add_row\<close> and \<open>add_column\<close>.
\<close>

locale result_sink =
  fixes start :: "'r \<Rightarrow> 'r res"
    and put :: "nat \<Rightarrow> buffer \<Rightarrow> nat \<Rightarrow> int32 \<Rightarrow> 'r \<Rightarrow> 'r res"
    and ready :: "'r \<Rightarrow> bool"
    and expects :: "'r \<Rightarrow> FieldSpec list"
    and finished :: "'r \<Rightarrow> Record list"
    and cells :: "'r \<Rightarrow> Record"
    and val :: "FieldSpec \<Rightarrow> string \<Rightarrow> any res"
    and good :: "'r \<Rightarrow> bool"
    and outside :: "'r \<Rightarrow> 'f"
  assumes start_ok: "good r \<Longrightarrow> \<exists>r'. start r = Inr r' \<and> good r' \<and> ready r' \<and> expects r' = expects r \<and> cells r' = []
                      \<and> outside r' = outside r \<and> finished r' = finished r @ (if ready r then [cells r] else [])"
    and put_ok: "\<lbrakk> good r; ready r; i < length (expects r); drop pos b = v @ rest; pos \<le> length b;
                   least_size (expects r ! i) \<le> length v; length v < 2 ^ 31; val (expects r ! i) v = Inr x \<rbrakk>
                 \<Longrightarrow> \<exists>r'. put i b pos (word_of_nat (length v)) r = Inr r' \<and> good r' \<and> ready r'
                       \<and> expects r' = expects r \<and> cells r' = cells r @ [x] \<and> finished r' = finished r
                       \<and> outside r' = outside r"

definition rs_good :: "ResultSet \<Rightarrow> bool" where
  "rs_good res \<longleftrightarrow> m_rset res \<noteq> [] \<and> m_pgformat res = PGFormat_init"

definition rs_ready :: "ResultSet \<Rightarrow> bool" where
  "rs_ready res \<longleftrightarrow> m_row (last (m_rset res)) \<noteq> []"

definition rs_expects :: "ResultSet \<Rightarrow> FieldSpec list" where
  "rs_expects res = m_field_spec (last (m_rset res))"

definition rs_finished :: "ResultSet \<Rightarrow> Record list" where
  "rs_finished res = butlast (m_row (last (m_rset res)))"

definition rs_cells :: "ResultSet \<Rightarrow> Record" where
  "rs_cells res = last (m_row (last (m_rset res)))"

definition rs_outside :: "ResultSet \<Rightarrow> RecordSet list \<times> (string, nat) std_map \<times> SQLError \<times> any PGFormatType" where
  "rs_outside res = (butlast (m_rset res), m_field_by_name (last (m_rset res)), m_error (last (m_rset res)), m_pgformat res)"

lemmas rs_defs = rs_good_def rs_ready_def rs_expects_def rs_finished_def rs_cells_def rs_outside_def

interpretation rsink: result_sink add_row add_column rs_ready rs_expects rs_finished rs_cells column_val rs_good rs_outside
proof
  fix r :: ResultSet
  assume "rs_good r"
  then show "\<exists>r'. add_row r = Inr r' \<and> rs_good r' \<and> rs_ready r' \<and> rs_expects r' = rs_expects r \<and> rs_cells r' = []
        \<and> rs_outside r' = rs_outside r \<and> rs_finished r' = rs_finished r @ (if rs_ready r then [rs_cells r] else [])"
    by (auto simp: rs_defs add_row_def vec_back_def set_back_def RecordSet_emplace_back_def)
next
  fix r :: ResultSet and i pos :: nat and b v rest :: buffer and x :: any
  assume g: "rs_good r" and rd: "rs_ready r" and i: "i < length (rs_expects r)"
    and d: "drop pos b = v @ rest" and p: "pos \<le> length b" and ne: "least_size (rs_expects r ! i) \<le> length v" and l: "length v < 2 ^ 31"
    and x: "column_val (rs_expects r ! i) v = Inr x"
  have "PGFormat_decode (m_pgformat r) (rs_expects r ! i) b pos (word_of_nat (length v)) = Inr x"
    using default_column.slice [OF d p ne l] g x by (simp add: rs_good_def)
  then show "\<exists>r'. add_column i b pos (word_of_nat (length v)) r = Inr r' \<and> rs_good r' \<and> rs_ready r'
        \<and> rs_expects r' = rs_expects r \<and> rs_cells r' = rs_cells r @ [x] \<and> rs_finished r' = rs_finished r
        \<and> rs_outside r' = rs_outside r"
    using g rd i by (simp add: rs_defs add_column_def vec_back_def vec_at_def RecordSet_back_def set_back_def)
qed

text \<open>The abstraction determines the object: a complete row is appended to the current record set.\<close>

definition append_row :: "Record \<Rightarrow> ResultSet \<Rightarrow> ResultSet" where
  "append_row xs res = set_back (RecordSet_push_back xs (last (m_rset res))) res"

lemma append_row_unique:
  assumes "rs_good r" "rs_good r'" "rs_ready r'" "rs_expects r' = rs_expects r" "rs_cells r' = xs"
    "rs_outside r' = rs_outside r" "rs_finished r' = rs_finished r @ (if rs_ready r then [rs_cells r] else [])"
  shows "r' = append_row xs r"
proof -
  have rows: "m_row (last (m_rset r')) = m_row (last (m_rset r)) @ [xs]"
    using assms append_butlast_last_id [of "m_row (last (m_rset r'))"]
      append_butlast_last_id [of "m_row (last (m_rset r))"]
    by (cases "m_row (last (m_rset r)) = []") (auto simp: rs_defs)
  have "last (m_rset r') = RecordSet_push_back xs (last (m_rset r))"
    using assms rows by (intro RecordSet.equality) (simp_all add: rs_defs RecordSet_push_back_def)
  then have "m_rset r' = butlast (m_rset r) @ [RecordSet_push_back xs (last (m_rset r))]"
    using assms append_butlast_last_id [of "m_rset r'"] by (simp add: rs_defs)
  then show ?thesis
    using assms by (intro ResultSet.equality) (simp_all add: append_row_def set_back_def rs_defs)
qed

section \<open>Properties\<close>

text \<open>
  Access by column name: on a record set made from the descriptions \<open>fs\<close>, whatever rows it holds,
  \<open>get\<close> by name is \<open>get\<close> by the position of the first column with that name, and throws
  \<open>std::out_of_range\<close> when there is none.
\<close>

theorem get_by_name_first:
  "RecordSet_get_by_name proj ((RecordSet_fields fs)\<lparr>m_row := rows\<rparr>) row col =
     (case find (\<lambda>k. fs_name (fs ! k) = col) [0..<length fs] of
        None \<Rightarrow> Inl (Throw Out_Of_Range)
      | Some i \<Rightarrow> RecordSet_get proj ((RecordSet_fields fs)\<lparr>m_row := rows\<rparr>) row i)"
  by (simp add: RecordSet_get_by_name_def RecordSet_fields_def RecordSet_empty_def name_index_find split: option.splits)

end
