(* ===== verification/DbQuery.thy ===== *)
theory DbQuery
  imports PgFormat
begin

text \<open>
  \<^verbatim>\<open>src/src/dbquery.h\<close>: a query with its optional statement name, its portal name and the
  bound parameter texts. \<open>bind\<close> is a template that prints its argument to a string stream; the
  argument's \<open>operator<<\<close> is the parameter \<open>shw\<close>.
\<close>

record DBQuery =
  dbq_query :: string
  dbq_name :: string
  dbq_portal :: string
  dbq_bind :: "string list"

definition DBQuery_anon :: "string \<Rightarrow> DBQuery" where
  "DBQuery_anon q = \<lparr>dbq_query = q, dbq_name = [], dbq_portal = [], dbq_bind = []\<rparr>"

definition DBQuery_named :: "string \<Rightarrow> string \<Rightarrow> DBQuery" where
  "DBQuery_named n q =
     (let d = \<lparr>dbq_query = q, dbq_name = n, dbq_portal = [], dbq_bind = []\<rparr>
      in if n \<noteq> [] then d\<lparr>dbq_portal := n @ ''port''\<rparr> else d)"

definition DBQuery_bind :: "('t \<Rightarrow> string) \<Rightarrow> 't \<Rightarrow> DBQuery \<Rightarrow> DBQuery" where
  "DBQuery_bind shw t q = q\<lparr>dbq_bind := dbq_bind q @ [shw t]\<rparr>"

lemma bind_frame [simp]:
  "dbq_name (DBQuery_bind shw t q) = dbq_name q"
  "dbq_portal (DBQuery_bind shw t q) = dbq_portal q"
  "dbq_query (DBQuery_bind shw t q) = dbq_query q"
  "dbq_bind (DBQuery_bind shw t q) = dbq_bind q @ [shw t]"
  by (simp_all add: DBQuery_bind_def)

end
