(* ===== verification/Protocol.thy ===== *)
theory Protocol
  imports DbResult DbQuery
begin

text \<open>
  \<^verbatim>\<open>src/src/protocol.h\<close> and the message classes of \<^verbatim>\<open>src/src/protocol.cpp\<close>: the five-byte
  header, \<open>Message::serialize\<close>, one serializer per frontend message and one parser per backend
  message. \<open>serialize\<close> returns the error code and the extended buffer. A parser takes the
  header, the body and the message object and returns the error code and the updated object;
  \<open>Inl\<close> is a throw or undefined behaviour. \<open>Message\<close> is the class hierarchy seen by the writer: a
  constructor per class that overrides \<open>serialize\<close>, and \<open>Inbound\<close> for the classes that inherit
  the default, by message type. OpenSSL's \<open>MD5\<close> is the parameter \<open>md5\<close>.

  The locale \<open>message_parser\<close> is the contract all parsers share (the two guards, then the body).
\<close>

type_synonym MessageType = char

section \<open>Header\<close>

record Header =
  m_mtype :: MessageType
  m_body_length :: int32

definition Header_init :: Header where
  "Header_init = \<lparr>m_mtype = NUL, m_body_length = 0\<rparr>"

definition Header_size :: nat where
  "Header_size = 5"

text \<open>Signed 32-bit addition; overflow is undefined.\<close>

definition int_add :: "int32 \<Rightarrow> int \<Rightarrow> int32 res" where
  "int_add a k =
     (if - (2 ^ 31) \<le> sint a + k \<and> sint a + k < 2 ^ 31 then Inr (word_of_int (sint a + k))
      else Inl Undefined_Behaviour)"

definition Header_serialize :: "Header \<Rightarrow> buffer \<Rightarrow> (error_code \<times> buffer) res" where
  "Header_serialize h buf =
     (let buf1 = (if m_mtype h \<noteq> NUL then serializeByte1 (m_mtype h) buf else buf)
      in andThen (int_add (m_body_length h) 4) (\<lambda>n. Inr (ec_ok, serializeInt32 n buf1)))"

definition Header_deserialize :: "buffer \<Rightarrow> Header \<Rightarrow> (error_code \<times> Header) res" where
  "Header_deserialize buf h =
     (if length buf < Header_size then Inr (EMSGSIZE, h)
      else
        andThen (deserializeByte1 buf 0) (\<lambda>(c, pos).
        andThen (deserializeInt32 buf pos) (\<lambda>(len, _).
        andThen (int_add len (- 4)) (\<lambda>n.
          Inr (ec_ok, h\<lparr>m_mtype := c, m_body_length := n\<rparr>)))))"

section \<open>Message types\<close>

definition SSLRequest_mtype :: MessageType where "SSLRequest_mtype = NUL"
definition StartUp_mtype :: MessageType where "StartUp_mtype = NUL"
definition Authentication_mtype :: MessageType where "Authentication_mtype = CHR ''R''"
definition Bind_mtype :: MessageType where "Bind_mtype = CHR ''B''"
definition BindComplete_mtype :: MessageType where "BindComplete_mtype = CHR ''2''"
definition Close_mtype :: MessageType where "Close_mtype = CHR ''C''"
definition CloseComplete_mtype :: MessageType where "CloseComplete_mtype = CHR ''3''"
definition Describe_mtype :: MessageType where "Describe_mtype = CHR ''D''"
definition Execute_mtype :: MessageType where "Execute_mtype = CHR ''E''"
definition Flush_mtype :: MessageType where "Flush_mtype = CHR ''H''"
definition NoticeResponse_mtype :: MessageType where "NoticeResponse_mtype = CHR ''N''"
definition ParameterDescription_mtype :: MessageType where "ParameterDescription_mtype = CHR ''t''"
definition Parse_mtype :: MessageType where "Parse_mtype = CHR ''P''"
definition ParseComplete_mtype :: MessageType where "ParseComplete_mtype = CHR ''1''"
definition Password_mtype :: MessageType where "Password_mtype = CHR ''p''"
definition Query_mtype :: MessageType where "Query_mtype = CHR ''Q''"
definition RowDescription_mtype :: MessageType where "RowDescription_mtype = CHR ''T''"
definition ParameterStatus_mtype :: MessageType where "ParameterStatus_mtype = CHR ''S''"
definition BackendKeyData_mtype :: MessageType where "BackendKeyData_mtype = CHR ''K''"
definition ReadyForQuery_mtype :: MessageType where "ReadyForQuery_mtype = CHR ''Z''"
definition DataRow_mtype :: MessageType where "DataRow_mtype = CHR ''D''"
definition CommandComplete_mtype :: MessageType where "CommandComplete_mtype = CHR ''C''"
definition ErrorResponse_mtype :: MessageType where "ErrorResponse_mtype = CHR ''E''"
definition Sync_mtype :: MessageType where "Sync_mtype = CHR ''S''"
definition Terminate_mtype :: MessageType where "Terminate_mtype = CHR ''X''"

lemmas mtype_defs =
  SSLRequest_mtype_def StartUp_mtype_def Authentication_mtype_def Bind_mtype_def BindComplete_mtype_def
  Close_mtype_def CloseComplete_mtype_def Describe_mtype_def Execute_mtype_def Flush_mtype_def
  NoticeResponse_mtype_def ParameterDescription_mtype_def Parse_mtype_def ParseComplete_mtype_def
  Password_mtype_def Query_mtype_def RowDescription_mtype_def ParameterStatus_mtype_def
  BackendKeyData_mtype_def ReadyForQuery_mtype_def DataRow_mtype_def CommandComplete_mtype_def
  ErrorResponse_mtype_def Sync_mtype_def Terminate_mtype_def

section \<open>Frontend messages\<close>

type_synonym Option = "(string, string) std_map"

datatype Message =
    SSLRequest
  | StartUp Option
  | Bind string string "string list"
  | Close
  | Describe string string
  | Execute string
  | Flush
  | Parse string string "int32 list"
  | Password string
  | Query string
  | Sync
  | Terminate
  | Inbound MessageType

definition PROTOCOL_VERSION :: int32 where "PROTOCOL_VERSION = 196608"
definition SSL_REQUEST_CODE :: int32 where "SSL_REQUEST_CODE = 80877103"

definition SSLRequest_serialize :: "buffer \<Rightarrow> error_code \<times> buffer" where
  "SSLRequest_serialize buf = (ec_ok, serializeInt32 SSL_REQUEST_CODE buf)"

definition StartUp_serialize :: "Option \<Rightarrow> buffer \<Rightarrow> error_code \<times> buffer" where
  "StartUp_serialize m_dboption buf =
     (ec_ok, serialize_map m_dboption (serializeInt32 PROTOCOL_VERSION buf))"

definition Bind_serialize :: "string \<Rightarrow> string \<Rightarrow> string list \<Rightarrow> buffer \<Rightarrow> error_code \<times> buffer" where
  "Bind_serialize m_name m_portal m_bind buf =
     (let b1 = serialize_string m_portal buf;
          b2 = serialize_string m_name b1;
          b3 = serializeInt16 0 b2;
          b4 = serializeInt16 (word_of_nat (length m_bind)) b3;
          b5 = foldl (\<lambda>b s. serializeByte s (serializeInt32 (word_of_nat (length s)) b)) b4 m_bind;
          b6 = serializeInt16 1 b5;
          b7 = serializeInt16 0 b6
      in (ec_ok, b7))"

definition Close_serialize :: "buffer \<Rightarrow> error_code \<times> buffer" where
  "Close_serialize buf = (ec_ok, buf)"

definition Describe_serialize :: "string \<Rightarrow> string \<Rightarrow> buffer \<Rightarrow> error_code \<times> buffer" where
  "Describe_serialize m_name m_portal buf =
     (if m_portal \<noteq> [] then (ec_ok, serialize_string m_portal (serializeByte1 (CHR ''P'') buf))
      else (ec_ok, serialize_string m_name (serializeByte1 (CHR ''S'') buf)))"

definition Execute_serialize :: "string \<Rightarrow> buffer \<Rightarrow> error_code \<times> buffer" where
  "Execute_serialize m_portal buf = (ec_ok, serializeInt32 0 (serialize_string m_portal buf))"

definition Flush_serialize :: "buffer \<Rightarrow> error_code \<times> buffer" where
  "Flush_serialize buf = (ec_ok, buf)"

definition Parse_serialize :: "string \<Rightarrow> string \<Rightarrow> int32 list \<Rightarrow> buffer \<Rightarrow> error_code \<times> buffer" where
  "Parse_serialize m_name m_query m_oid buf =
     (ec_ok, serialize_oids m_oid (serialize_string m_query (serialize_string m_name buf)))"

definition Password_init :: "(string \<Rightarrow> char list) \<Rightarrow> string \<Rightarrow> string \<Rightarrow> byte4 \<Rightarrow> string" where
  "Password_init md5 user pass salt =
     (let p = pass @ user;
          s = foldl push_back (toHex (md5 p)) salt
      in ''md5'' @ toHex (md5 s))"

definition Password_serialize :: "string \<Rightarrow> buffer \<Rightarrow> error_code \<times> buffer" where
  "Password_serialize m_md5hex buf = (ec_ok, serialize_string m_md5hex buf)"

definition Query_serialize :: "string \<Rightarrow> buffer \<Rightarrow> error_code \<times> buffer" where
  "Query_serialize m_query buf = (ec_ok, serialize_string m_query buf)"

definition Sync_serialize :: "buffer \<Rightarrow> error_code \<times> buffer" where
  "Sync_serialize buf = (ec_ok, buf)"

definition Terminate_serialize :: "buffer \<Rightarrow> error_code \<times> buffer" where
  "Terminate_serialize buf = (ec_ok, buf)"

text \<open>The virtual functions \<open>messageType\<close> and \<open>serialize\<close>.\<close>

fun messageType :: "Message \<Rightarrow> MessageType" where
  "messageType SSLRequest = SSLRequest_mtype"
| "messageType (StartUp _) = StartUp_mtype"
| "messageType (Bind _ _ _) = Bind_mtype"
| "messageType Close = Close_mtype"
| "messageType (Describe _ _) = Describe_mtype"
| "messageType (Execute _) = Execute_mtype"
| "messageType Flush = Flush_mtype"
| "messageType (Parse _ _ _) = Parse_mtype"
| "messageType (Password _) = Password_mtype"
| "messageType (Query _) = Query_mtype"
| "messageType Sync = Sync_mtype"
| "messageType Terminate = Terminate_mtype"
| "messageType (Inbound t) = t"

definition Message_serialize_default :: "buffer \<Rightarrow> error_code \<times> buffer" where
  "Message_serialize_default buf = (EBADMSG, buf)"

fun serialize_body :: "Message \<Rightarrow> buffer \<Rightarrow> error_code \<times> buffer" where
  "serialize_body SSLRequest buf = SSLRequest_serialize buf"
| "serialize_body (StartUp opt) buf = StartUp_serialize opt buf"
| "serialize_body (Bind n p b) buf = Bind_serialize n p b buf"
| "serialize_body Close buf = Close_serialize buf"
| "serialize_body (Describe n p) buf = Describe_serialize n p buf"
| "serialize_body (Execute p) buf = Execute_serialize p buf"
| "serialize_body Flush buf = Flush_serialize buf"
| "serialize_body (Parse n q oid) buf = Parse_serialize n q oid buf"
| "serialize_body (Password s) buf = Password_serialize s buf"
| "serialize_body (Query q) buf = Query_serialize q buf"
| "serialize_body Sync buf = Sync_serialize buf"
| "serialize_body Terminate buf = Terminate_serialize buf"
| "serialize_body (Inbound _) buf = Message_serialize_default buf"

text \<open>\<open>body_buf.size()\<close> is converted to the 32-bit length of the header.\<close>

definition Message_serialize :: "Message \<Rightarrow> buffer \<Rightarrow> buffer \<Rightarrow> (error_code \<times> buffer \<times> buffer) res" where
  "Message_serialize msg header_buf body_buf =
     (case serialize_body msg body_buf of (ec, body) \<Rightarrow>
        if ec_bool ec then Inr (ec, header_buf, body)
        else andThen (Header_serialize \<lparr>m_mtype = messageType msg, m_body_length = word_of_nat (length body)\<rparr> header_buf)
               (\<lambda>(ec', head). Inr (ec', head, body)))"

section \<open>Backend messages\<close>

text \<open>The two guards every parser starts with; \<open>buf.size()\<close> is compared with the length as \<open>size_t\<close>.\<close>

definition guarded ::
  "MessageType \<Rightarrow> Header \<Rightarrow> buffer \<Rightarrow> 'm \<Rightarrow> (error_code \<times> 'm) res \<Rightarrow> (error_code \<times> 'm) res" where
  "guarded t header buf msg body =
     (if length buf < size_of_int (m_body_length header) then Inr (EMSGSIZE, msg)
      else if m_mtype header \<noteq> t then Inr (EBADMSG, msg)
      else body)"

definition Message_deserialize_default :: "Header \<Rightarrow> buffer \<Rightarrow> 'm \<Rightarrow> (error_code \<times> 'm) res" where
  "Message_deserialize_default header buf msg = Inr (EBADMSG, msg)"

text \<open>The members of \<open>Authentication\<close> are uninitialised until they are parsed: \<open>None\<close>.\<close>

record Authentication =
  m_auth_type :: "int32 option"
  m_salt :: "byte4 option"

definition AUTH_OK :: int32 where "AUTH_OK = 0"
definition AUTH_KERBEROS_V5 :: int32 where "AUTH_KERBEROS_V5 = 2"
definition AUTH_MD5_PASSWORD :: int32 where "AUTH_MD5_PASSWORD = 5"

definition Authentication_init :: Authentication where
  "Authentication_init = \<lparr>m_auth_type = None, m_salt = None\<rparr>"

definition Authentication_deserialize ::
  "Header \<Rightarrow> buffer \<Rightarrow> Authentication \<Rightarrow> (error_code \<times> Authentication) res" where
  "Authentication_deserialize header buf msg =
     guarded Authentication_mtype header buf msg
       (andThen (deserializeInt32 buf 0) (\<lambda>(t, pos).
          let msg1 = msg\<lparr>m_auth_type := Some t\<rparr>
          in if sint (m_body_length header) > 4 \<and> t = AUTH_MD5_PASSWORD
             then andThen (deserializeByte4 buf pos) (\<lambda>(salt, _). Inr (ec_ok, msg1\<lparr>m_salt := Some salt\<rparr>))
             else Inr (ec_ok, msg1)))"

definition BindComplete_deserialize :: "Header \<Rightarrow> buffer \<Rightarrow> unit \<Rightarrow> (error_code \<times> unit) res" where
  "BindComplete_deserialize header buf msg = guarded BindComplete_mtype header buf msg (Inr (ec_ok, msg))"

definition CloseComplete_deserialize :: "Header \<Rightarrow> buffer \<Rightarrow> unit \<Rightarrow> (error_code \<times> unit) res" where
  "CloseComplete_deserialize header buf msg = guarded CloseComplete_mtype header buf msg (Inr (ec_ok, msg))"

definition ParseComplete_deserialize :: "Header \<Rightarrow> buffer \<Rightarrow> unit \<Rightarrow> (error_code \<times> unit) res" where
  "ParseComplete_deserialize header buf msg = guarded ParseComplete_mtype header buf msg (Inr (ec_ok, msg))"

text \<open>
  The loop of \<open>NoticeResponse\<close> and \<open>ErrorResponse\<close>: while the field type is not NUL, a string,
  \<open>emplace\<close>, the next field type.
\<close>

function error_fields :: "buffer \<Rightarrow> char \<Rightarrow> nat \<Rightarrow> SQLError \<Rightarrow> SQLError res" where
  "error_fields buf field_type pos e =
     (if field_type = NUL then Inr e
      else
        andThen (deserialize_string buf pos) (\<lambda>(tmp, k).
        andThen (deserializeByte1 buf (pos + k)) (\<lambda>(c, l).
          error_fields buf c (pos + k + l) (SQLError_emplace field_type tmp e))))"
  by pat_completeness auto
termination
proof (relation "measure (\<lambda>(buf, _, pos, _). length buf - pos)", goal_cases)
  case 1
  show ?case by simp
next
  case (2 buf field_type pos e tk tmp k cl c l)
  from 2 have "deserialize_string buf pos = Inr (tmp, k)" by simp
  then have "0 < k" "pos + k \<le> length buf" by (auto dest: string_codec.in_bounds)
  moreover from 2 have "deserializeByte1 buf (pos + k) = Inr (c, l)" by simp
  then have "0 < l" "pos + k + l \<le> length buf" by (auto dest: byte1_codec.in_bounds)
  ultimately show ?case by simp
qed

declare error_fields.simps [simp del]

definition NoticeResponse_deserialize :: "Header \<Rightarrow> buffer \<Rightarrow> SQLError \<Rightarrow> (error_code \<times> SQLError) res" where
  "NoticeResponse_deserialize header buf err =
     guarded NoticeResponse_mtype header buf err
       (andThen (deserializeByte1 buf 0) (\<lambda>(field_type, pos).
        andThen (error_fields buf field_type pos err) (\<lambda>e. Inr (ec_ok, e))))"

definition ErrorResponse_deserialize :: "Header \<Rightarrow> buffer \<Rightarrow> SQLError \<Rightarrow> (error_code \<times> SQLError) res" where
  "ErrorResponse_deserialize header buf err =
     guarded ErrorResponse_mtype header buf err
       (andThen (deserializeByte1 buf 0) (\<lambda>(field_type, pos).
        andThen (error_fields buf field_type pos err) (\<lambda>e. Inr (ec_ok, e))))"

definition ParameterDescription_deserialize ::
  "Header \<Rightarrow> buffer \<Rightarrow> int32 list \<Rightarrow> (error_code \<times> int32 list) res" where
  "ParameterDescription_deserialize header buf v =
     guarded ParameterDescription_mtype header buf v
       (andThen (deserializeInt16 buf 0) (\<lambda>(num, pos).
        andThen (read_n deserializeInt32 (unat num) buf pos) (\<lambda>(oids, _). Inr (ec_ok, v @ oids))))"

definition read_field :: "buffer \<Rightarrow> nat \<Rightarrow> (FieldSpec \<times> nat) res" where
  "read_field buf pos =
     andThen (deserialize_string buf pos) (\<lambda>(nm, k1).
     andThen (deserializeInt32 buf (pos + k1)) (\<lambda>(toid, k2).
     andThen (deserializeInt16 buf (pos + k1 + k2)) (\<lambda>(cnum, k3).
     andThen (deserializeInt32 buf (pos + k1 + k2 + k3)) (\<lambda>(ty, k4).
     andThen (deserializeInt16 buf (pos + k1 + k2 + k3 + k4)) (\<lambda>(tsz, k5).
     andThen (deserializeInt32 buf (pos + k1 + k2 + k3 + k4 + k5)) (\<lambda>(tmod, k6).
     andThen (deserializeInt16 buf (pos + k1 + k2 + k3 + k4 + k5 + k6)) (\<lambda>(fmt, k7).
       Inr (\<lparr>fs_name = nm, table_oid = toid, col_num = cnum, type_oid = ty,
             type_size = tsz, type_mod = tmod, type_format = fmt\<rparr>,
            k1 + k2 + k3 + k4 + k5 + k6 + k7))))))))"

definition RowDescription_deserialize ::
  "Header \<Rightarrow> buffer \<Rightarrow> FieldSpec list \<Rightarrow> (error_code \<times> FieldSpec list) res" where
  "RowDescription_deserialize header buf fsvec =
     guarded RowDescription_mtype header buf fsvec
       (andThen (deserializeInt16 buf 0) (\<lambda>(num, pos).
        andThen (read_n read_field (unat num) buf pos) (\<lambda>(fs, _). Inr (ec_ok, fsvec @ fs))))"

definition ParameterStatus_deserialize ::
  "Header \<Rightarrow> buffer \<Rightarrow> string \<times> string \<Rightarrow> (error_code \<times> (string \<times> string)) res" where
  "ParameterStatus_deserialize header buf msg =
     guarded ParameterStatus_mtype header buf msg
       (andThen (deserialize_string buf 0) (\<lambda>(name, pos).
        andThen (deserialize_string buf pos) (\<lambda>(val, _). Inr (ec_ok, (name, val)))))"

definition BackendKeyData_deserialize ::
  "Header \<Rightarrow> buffer \<Rightarrow> int32 \<times> int32 \<Rightarrow> (error_code \<times> (int32 \<times> int32)) res" where
  "BackendKeyData_deserialize header buf msg =
     guarded BackendKeyData_mtype header buf msg
       (andThen (deserializeInt32 buf 0) (\<lambda>(pid, pos).
        andThen (deserializeInt32 buf pos) (\<lambda>(key, _). Inr (ec_ok, (pid, key)))))"

definition ReadyForQuery_deserialize :: "Header \<Rightarrow> buffer \<Rightarrow> char \<Rightarrow> (error_code \<times> char) res" where
  "ReadyForQuery_deserialize header buf m_status =
     guarded ReadyForQuery_mtype header buf m_status
       (andThen (deserializeByte1 buf 0) (\<lambda>(c, _). Inr (ec_ok, c)))"

definition CommandComplete_deserialize :: "Header \<Rightarrow> buffer \<Rightarrow> string \<Rightarrow> (error_code \<times> string) res" where
  "CommandComplete_deserialize header buf m_tag =
     guarded CommandComplete_mtype header buf m_tag
       (andThen (deserialize_string buf 0) (\<lambda>(tag, _). Inr (ec_ok, tag)))"

text \<open>
  \<open>DataRow\<close> calls the virtual \<open>add_row\<close> and \<open>add_column\<close> of \<open>ResultBase\<close>, its parameters here.
  \<open>pos += sz\<close> adds the sign-extended size modulo \<open>2 ^ 64\<close>.
\<close>

definition add_size :: "nat \<Rightarrow> int32 \<Rightarrow> nat" where
  "add_size pos sz = (pos + size_of_int sz) mod 2 ^ 64"

fun row_columns ::
  "(nat \<Rightarrow> buffer \<Rightarrow> nat \<Rightarrow> int32 \<Rightarrow> 'r \<Rightarrow> 'r res) \<Rightarrow> nat \<Rightarrow> nat \<Rightarrow> buffer \<Rightarrow> nat \<Rightarrow> 'r \<Rightarrow> 'r res" where
  "row_columns v_column 0 i buf pos res = Inr res"
| "row_columns v_column (Suc n) i buf pos res =
     andThen (deserializeInt32 buf pos) (\<lambda>(sz, k).
     andThen (v_column i buf (pos + k) sz res) (\<lambda>res'.
       row_columns v_column n (Suc i) buf (add_size (pos + k) sz) res'))"

definition DataRow_deserialize ::
  "('r \<Rightarrow> 'r res) \<Rightarrow> (nat \<Rightarrow> buffer \<Rightarrow> nat \<Rightarrow> int32 \<Rightarrow> 'r \<Rightarrow> 'r res)
   \<Rightarrow> Header \<Rightarrow> buffer \<Rightarrow> 'r \<Rightarrow> (error_code \<times> 'r) res" where
  "DataRow_deserialize v_row v_column header buf res =
     guarded DataRow_mtype header buf res
       (andThen (deserializeInt16 buf 0) (\<lambda>(num, pos).
        andThen (v_row res) (\<lambda>res1.
        andThen (row_columns v_column (unat num) 0 buf pos res1) (\<lambda>res2. Inr (ec_ok, res2)))))"

end
