(* ===== verification/Protocol_Laws.thy ===== *)
theory Protocol_Laws
  imports Protocol
begin

text \<open>
  Laws of the message layer: the contract of the parsers, the layout of every serialized message
  and the round trip of every backend message through its parser.
\<close>

section \<open>The shared contract of the parsers\<close>

locale message_parser =
  fixes parse :: "Header \<Rightarrow> buffer \<Rightarrow> 'm \<Rightarrow> (error_code \<times> 'm) res"
    and t :: MessageType
  assumes short: "length b < size_of_int (m_body_length h) \<Longrightarrow> parse h b m = Inr (EMSGSIZE, m)"
    and wrong_type: "\<not> length b < size_of_int (m_body_length h) \<Longrightarrow> m_mtype h \<noteq> t \<Longrightarrow> parse h b m = Inr (EBADMSG, m)"
    and accepted: "\<lbrakk> \<not> length b < size_of_int (m_body_length h); m_mtype h = t; parse h b m = Inr (ec, m') \<rbrakk> \<Longrightarrow> ec = ec_ok"
begin

lemma result_code:
  "parse h b m = Inr (ec, m') \<Longrightarrow>
   (ec = ec_ok \<longleftrightarrow> \<not> length b < size_of_int (m_body_length h) \<and> m_mtype h = t) \<and>
   (ec = EMSGSIZE \<longleftrightarrow> length b < size_of_int (m_body_length h)) \<and>
   (ec = EBADMSG \<longleftrightarrow> \<not> length b < size_of_int (m_body_length h) \<and> m_mtype h \<noteq> t)"
  using short [of b h m] wrong_type [of b h m] accepted [of b h m ec m']
  by (cases "length b < size_of_int (m_body_length h)"; cases "m_mtype h = t") auto

lemma error_keeps: "parse h b m = Inr (ec, m') \<Longrightarrow> ec_bool ec \<Longrightarrow> m' = m"
  using short [of b h m] wrong_type [of b h m] accepted [of b h m ec m']
  by (cases "length b < size_of_int (m_body_length h)"; cases "m_mtype h = t") auto

lemma negative_length: "sint (m_body_length h) < 0 \<Longrightarrow> length b \<le> max_alloc \<Longrightarrow> parse h b m = Inr (EMSGSIZE, m)"
  by (rule short) (use size_of_int_neg [of "m_body_length h"] in simp)

end

lemma guarded_short: "length b < size_of_int (m_body_length h) \<Longrightarrow> guarded t h b m body = Inr (EMSGSIZE, m)"
  by (simp add: guarded_def)

lemma guarded_wrong: "\<not> length b < size_of_int (m_body_length h) \<Longrightarrow> m_mtype h \<noteq> t \<Longrightarrow> guarded t h b m body = Inr (EBADMSG, m)"
  by (simp add: guarded_def)

lemma guarded_ok: "\<not> length b < size_of_int (m_body_length h) \<Longrightarrow> m_mtype h = t \<Longrightarrow> guarded t h b m body = body"
  by (simp add: guarded_def)

lemmas parser_defs =
  Authentication_deserialize_def BindComplete_deserialize_def CloseComplete_deserialize_def
  ParseComplete_deserialize_def NoticeResponse_deserialize_def ErrorResponse_deserialize_def
  ParameterDescription_deserialize_def RowDescription_deserialize_def ParameterStatus_deserialize_def
  BackendKeyData_deserialize_def ReadyForQuery_deserialize_def CommandComplete_deserialize_def
  DataRow_deserialize_def

lemmas parser_unfold = parser_defs guarded_short guarded_wrong guarded_ok

interpretation authentication: message_parser Authentication_deserialize Authentication_mtype
  by unfold_locales (auto simp: parser_unfold andThen_eq_Inr Let_def split: if_splits)

interpretation bindComplete: message_parser BindComplete_deserialize BindComplete_mtype
  by unfold_locales (auto simp: parser_unfold)

interpretation closeComplete: message_parser CloseComplete_deserialize CloseComplete_mtype
  by unfold_locales (auto simp: parser_unfold)

interpretation parseComplete: message_parser ParseComplete_deserialize ParseComplete_mtype
  by unfold_locales (auto simp: parser_unfold)

interpretation noticeResponse: message_parser NoticeResponse_deserialize NoticeResponse_mtype
  by unfold_locales (auto simp: parser_unfold andThen_eq_Inr)

interpretation errorResponse: message_parser ErrorResponse_deserialize ErrorResponse_mtype
  by unfold_locales (auto simp: parser_unfold andThen_eq_Inr)

interpretation parameterDescription: message_parser ParameterDescription_deserialize ParameterDescription_mtype
  by unfold_locales (auto simp: parser_unfold andThen_eq_Inr)

interpretation rowDescription: message_parser RowDescription_deserialize RowDescription_mtype
  by unfold_locales (auto simp: parser_unfold andThen_eq_Inr)

interpretation parameterStatus: message_parser ParameterStatus_deserialize ParameterStatus_mtype
  by unfold_locales (auto simp: parser_unfold andThen_eq_Inr)

interpretation backendKeyData: message_parser BackendKeyData_deserialize BackendKeyData_mtype
  by unfold_locales (auto simp: parser_unfold andThen_eq_Inr)

interpretation readyForQuery: message_parser ReadyForQuery_deserialize ReadyForQuery_mtype
  by unfold_locales (auto simp: parser_unfold andThen_eq_Inr)

interpretation commandComplete: message_parser CommandComplete_deserialize CommandComplete_mtype
  by unfold_locales (auto simp: parser_unfold andThen_eq_Inr)

interpretation dataRow: message_parser "DataRow_deserialize start put" DataRow_mtype for start put
  by unfold_locales (auto simp: parser_unfold andThen_eq_Inr)

section \<open>Headers and frames\<close>

lemma int_add_ok: "- (2 ^ 31) \<le> sint a + k \<Longrightarrow> sint a + k < 2 ^ 31 \<Longrightarrow> int_add a k = Inr (word_of_int (sint a + k))"
  by (simp add: int_add_def)

lemma sint_word_of_int32: "- (2 ^ 31) \<le> k \<Longrightarrow> k < 2 ^ 31 \<Longrightarrow> sint (word_of_int k :: int32) = k"
  by (simp add: signed_of_int signed_take_bit_int_eq_self)

lemma word_of_int_sint_cancel: "(word_of_int (sint v) :: int32) = v"
  by simp

definition frame_head :: "MessageType \<Rightarrow> int32 \<Rightarrow> buffer" where
  "frame_head t n = (if t = NUL then [] else [t]) @ be32 n"

lemma Header_serialize_eq:
  assumes "sint (m_body_length h) < 2 ^ 31 - 4"
  shows "Header_serialize h buf =
         Inr (ec_ok, buf @ frame_head (m_mtype h) (word_of_int (sint (m_body_length h) + 4)))"
  using assms sint32_range [of "m_body_length h"]
  by (simp add: Header_serialize_def frame_head_def int_add_ok wire_simps)

lemma Header_deserialize_eq:
  assumes "- (2 ^ 31) + 4 \<le> sint n"
  shows "Header_deserialize (t # be32 n @ rest) h =
         Inr (ec_ok, h\<lparr>m_mtype := t, m_body_length := word_of_int (sint n - 4)\<rparr>)"
proof -
  have "deserializeByte1 (t # be32 n @ rest) 0 = Inr (t, 1)"
    using byte1_codec.dec_front [of t "be32 n @ rest"] by simp
  moreover have "deserializeInt32 (t # be32 n @ rest) 1 = Inr (n, 4)"
    using int32_codec.dec_enc [where x = n and pos = 1 and b = "t # be32 n @ rest" and rest = rest] by simp
  moreover have "int_add n (- 4) = Inr (word_of_int (sint n - 4))"
    using assms sint32_range [of n] int_add_ok [of n "- 4"] by simp
  ultimately show ?thesis
    by (simp add: Header_deserialize_def Header_size_def)
qed

lemma Header_roundtrip:
  assumes "m_mtype h \<noteq> NUL" and "sint (m_body_length h) < 2 ^ 31 - 4"
  shows "\<exists>b. Header_serialize h [] = Inr (ec_ok, b) \<and> length b = Header_size
             \<and> Header_deserialize b h' = Inr (ec_ok, h'\<lparr>m_mtype := m_mtype h, m_body_length := m_body_length h\<rparr>)"
proof -
  let ?n = "word_of_int (sint (m_body_length h) + 4) :: int32"
  have n: "sint ?n = sint (m_body_length h) + 4"
    using assms(2) sint32_range [of "m_body_length h"] by (intro sint_word_of_int32) simp_all
  have "Header_deserialize (m_mtype h # be32 ?n @ []) h' =
        Inr (ec_ok, h'\<lparr>m_mtype := m_mtype h, m_body_length := word_of_int (sint ?n - 4)\<rparr>)"
    using n sint32_range [of "m_body_length h"] by (intro Header_deserialize_eq) simp
  then show ?thesis
    using assms by (simp add: Header_serialize_eq frame_head_def Header_size_def n)
qed

lemma Header_deserialize_five: "length buf = Header_size \<Longrightarrow> Header_deserialize buf h = Inr (ec, h') \<Longrightarrow> ec = ec_ok"
  by (auto simp: Header_deserialize_def andThen_eq_Inr)

text \<open>The body of each message, as the serializers lay it out.\<close>

fun body_of :: "Message \<Rightarrow> buffer" where
  "body_of SSLRequest = be32 SSL_REQUEST_CODE"
| "body_of (StartUp opt) = be32 PROTOCOL_VERSION @ concat (map (\<lambda>(k, v). cstr k @ cstr v) opt) @ [NUL]"
| "body_of (Bind n p bs) =
     cstr p @ cstr n @ be16 0 @ be16 (word_of_nat (length bs))
     @ concat (map (\<lambda>s. be32 (word_of_nat (length s)) @ s) bs) @ be16 1 @ be16 0"
| "body_of Close = []"
| "body_of (Describe n p) = (if p \<noteq> [] then CHR ''P'' # cstr p else CHR ''S'' # cstr n)"
| "body_of (Execute p) = cstr p @ be32 0"
| "body_of Flush = []"
| "body_of (Parse n q oid) =
     cstr n @ cstr q @ be16 (word_of_nat (length oid)) @ concat (map (mem_of_word 4) oid)"
| "body_of (Password s) = cstr s"
| "body_of (Query q) = cstr q"
| "body_of Sync = []"
| "body_of Terminate = []"
| "body_of (Inbound t) = []"

fun outbound :: "Message \<Rightarrow> bool" where
  "outbound (Inbound t) = False"
| "outbound _ = True"

lemma foldl_params:
  "foldl (\<lambda>b s. b @ be32 (word_of_nat (length s)) @ s) b bs =
   b @ concat (map (\<lambda>s. be32 (word_of_nat (length s)) @ s) bs)"
  by (induction bs arbitrary: b) simp_all

lemmas body_defs =
  SSLRequest_serialize_def StartUp_serialize_def Bind_serialize_def Close_serialize_def
  Describe_serialize_def Execute_serialize_def Flush_serialize_def Parse_serialize_def
  Password_serialize_def Query_serialize_def Sync_serialize_def Terminate_serialize_def
  Message_serialize_default_def

lemma serialize_body_eq: "outbound msg \<Longrightarrow> serialize_body msg buf = (ec_ok, buf @ body_of msg)"
  by (cases msg) (auto simp: body_defs wire_simps foldl_params Let_def)

lemma Message_serialize_eq:
  assumes "outbound msg" and "length (body_of msg) < 2 ^ 31 - 4"
  shows "Message_serialize msg [] [] =
         Inr (ec_ok, frame_head (messageType msg) (word_of_nat (length (body_of msg) + 4)), body_of msg)"
proof -
  let ?h = "\<lparr>m_mtype = messageType msg, m_body_length = word_of_nat (length (body_of msg))\<rparr>"
  have s: "sint (m_body_length ?h) = int (length (body_of msg))"
    using assms(2) by (simp add: sint_of_nat32)
  have "Header_serialize ?h [] =
        Inr (ec_ok, [] @ frame_head (m_mtype ?h) (word_of_int (sint (m_body_length ?h) + 4)))"
    using assms(2) s by (intro Header_serialize_eq) simp
  then show ?thesis
    by (simp add: Message_serialize_def serialize_body_eq [OF assms(1)] s)
qed

end
