(* ===== verification/LapqTypes.thy ===== *)
theory LapqTypes
  imports Wire
begin

text \<open>
  \<^verbatim>\<open>src/src/types.h\<close>, \<^verbatim>\<open>src/src/types.cpp\<close>: the hexadecimal dumps of \<open>Buffer\<close> and \<open>Byte4\<close>.
  An output stream is the text written so far. \<open>char\<close> is signed: \<open>(int)i\<close> sign-extends it, and
  \<open>std::hex\<close> prints the value as unsigned.
\<close>

fun show_hex :: "nat \<Rightarrow> string" where
  "show_hex n = (if n < 16 then [hex_digit n] else show_hex (n div 16) @ [hex_digit (n mod 16)])"

declare show_hex.simps [simp del]

text \<open>\<open>std::setw(2) << std::setfill('0') << std::hex << v\<close>\<close>

definition put_hex2 :: "int32 \<Rightarrow> string" where
  "put_hex2 v = (let s = show_hex (unat v) in replicate (2 - length s) (CHR ''0'') @ s)"

definition int_of_char :: "char \<Rightarrow> int32" where
  "int_of_char c = word_of_int (schar c)"

definition Buffer_put :: "string \<Rightarrow> buffer \<Rightarrow> string" where
  "Buffer_put os obj = foldl (\<lambda>os i. os @ put_hex2 (int_of_char i)) os obj"

text \<open>The elements of \<open>Byte4\<close> are unsigned, and the value is masked with \<open>0xff\<close>.\<close>

definition Byte4_put :: "string \<Rightarrow> byte4 \<Rightarrow> string" where
  "Byte4_put os obj = foldl (\<lambda>os c. os @ put_hex2 (take_bit 8 (word_of_nat (of_char c)))) os obj"

lemma put_hex2_byte:
  assumes "n < 256"
  shows "put_hex2 (word_of_nat n) = [hex_digit (n div 16), hex_digit (n mod 16)]"
proof -
  have u: "unat (word_of_nat n :: int32) = n" using assms by (simp add: unat_of_nat)
  have "n div 16 < 16" using assms by simp
  then have "show_hex n = (if n < 16 then [hex_digit n] else [hex_digit (n div 16), hex_digit (n mod 16)])"
    by (subst show_hex.simps) (simp add: show_hex.simps [of "n div 16"])
  moreover have "n < 16 \<Longrightarrow> n div 16 = 0 \<and> n mod 16 = n" by simp
  moreover have "hex_digit 0 = CHR ''0''" by code_simp
  ultimately show ?thesis by (simp add: put_hex2_def u)
qed

lemma foldl_append_map: "foldl (\<lambda>os c. os @ f c) os cs = os @ concat (map f cs)"
  by (induction cs arbitrary: os) simp_all

lemma toHex_eq: "toHex cs = concat (map hex2 cs)"
  by (simp add: toHex_def foldl_append_map)

lemma length_toHex: "length (toHex cs) = 2 * length cs"
  by (induction cs) (simp_all add: toHex_eq hex2_def)

lemma put_hex2_char: "put_hex2 (word_of_nat (of_char c)) = hex2 c"
  by (simp add: put_hex2_byte hex2_def)

lemma take_bit_byte: "take_bit 8 (word_of_nat (of_char c) :: int32) = word_of_nat (of_char c)"
proof -
  have lt: "(of_char c :: nat) < 256" by simp
  have "(of_char c :: nat) < 2 ^ 32" by (rule less_trans [OF lt]) simp
  then have u: "unat (word_of_nat (of_char c) :: int32) = of_char c"
    by (simp only: unat_of_nat len_num0 len_bit0 mod_less) simp
  have "take_bit 8 (of_char c :: nat) = of_char c" using lt by (simp add: take_bit_nat_eq_self)
  then show ?thesis
    by (intro word_unat_eq_iff [THEN iffD2]) (simp only: unsigned_take_bit_eq u)
qed

lemma Byte4_put_eq: "Byte4_put os obj = os @ toHex obj"
  by (simp add: Byte4_put_def foldl_append_map toHex_eq take_bit_byte put_hex2_char)

lemma Buffer_put_ascii:
  assumes "list_all (\<lambda>c. (of_char c :: int) < 128) obj"
  shows "Buffer_put os obj = os @ toHex obj"
proof -
  have "put_hex2 (int_of_char c) = hex2 c" if "(of_char c :: int) < 128" for c
  proof -
    have "int_of_char c = word_of_nat (of_char c)"
      using that by (simp add: int_of_char_def schar_def of_int_of_char of_nat_of_char)
    then show ?thesis by (simp add: put_hex2_char)
  qed
  then have "map (\<lambda>c. put_hex2 (int_of_char c)) obj = map hex2 obj"
    using assms by (simp add: list_all_iff)
  then have "concat (map (\<lambda>c. put_hex2 (int_of_char c)) obj) = concat (map hex2 obj)"
    by (rule arg_cong)
  then show ?thesis by (simp only: Buffer_put_def foldl_append_map toHex_eq)
qed

end
