(* ===== verification/Util.thy ===== *)
theory Util
  imports Protocol LapqTypes "HOL-Library.Multiset"
begin

text \<open>
  \<^verbatim>\<open>src/src/util.h\<close>, \<^verbatim>\<open>src/src/util.cpp\<close>: connection options from the environment, the TLS
  mode, the set-up of the TLS context, the certificate callback and map printing.

  The process environment (\<open>getenv\<close>), the password database entry of the effective user
  (\<open>pw\<close>), the file-system probe \<open>is_regular_file\<close> (which also sets an error code) and the
  operations of \<open>asio::ssl::context\<close> are arguments. A context operation returns the error code and
  the changed context; \<open>set_default_verify_paths\<close> may throw.
\<close>

section \<open>Options\<close>

datatype SSLMode = require | verify_ca | verify_full

definition opt_USER :: string where "opt_USER = ''user''"
definition opt_DATABASE :: string where "opt_DATABASE = ''database''"
definition opt_APPLICATION_NAME :: string where "opt_APPLICATION_NAME = ''application_name''"
definition opt_DATESTYLE :: string where "opt_DATESTYLE = ''DATEStyle''"
definition opt_TIMEZONE :: string where "opt_TIMEZONE = ''TIMEZOne''"
definition opt_GEQO :: string where "opt_GEQO = ''GEQO''"
definition opt_CLIENT_ENCODING :: string where "opt_CLIENT_ENCODING = ''client_encoding''"
definition opt_SSLMODE :: string where "opt_SSLMODE = ''SSLMODE''"
definition opt_SSLCOMPRESSION :: string where "opt_SSLCOMPRESSION = ''Sslcompression''"
definition opt_SSLCERT :: string where "opt_SSLCERT = ''sslcert''"
definition opt_SSLKEY :: string where "opt_SSLKEY = ''SSLKEY''"
definition opt_SSLROOTCERT :: string where "opt_SSLROOTCERT = ''SSLRootcert''"
definition opt_SSLCRL :: string where "opt_SSLCRL = ''SSLCRL''"
definition opt_SSL_CERT_DIR :: string where "opt_SSL_CERT_DIR = ''SSL_cert_dir''"
definition opt_REQUIREPEER :: string where "opt_REQUIREPEER = ''REQuirepeer''"

lemmas opt_defs =
  opt_USER_def opt_DATABASE_def opt_APPLICATION_NAME_def opt_DATESTYLE_def opt_TIMEZONE_def opt_GEQO_def
  opt_CLIENT_ENCODING_def opt_SSLMODE_def opt_SSLCOMPRESSION_def opt_SSLCERT_def opt_SSLKEY_def
  opt_SSLROOTCERT_def opt_SSLCRL_def opt_SSL_CERT_DIR_def opt_REQUIREPEER_def

definition SSLCERT_FILE :: string where "SSLCERT_FILE = ''/.postgresql/postgresql.crt''"
definition SSLKEY_FILE :: string where "SSLKEY_FILE = ''/.postgresql/postgresql.key''"
definition SSLROOTCERT_FILE :: string where "SSLROOTCERT_FILE = ''/.postgresql/root.crt''"
definition SSLCRL_FILE :: string where "SSLCRL_FILE = ''/.postgresql/root.crl''"

definition env_list :: "(string \<times> string) list" where
  "env_list =
     [(''PGUSER'', opt_USER), (''PGDATABASE'', opt_DATABASE), (''PGAPPNAME'', opt_APPLICATION_NAME),
      (''PGDATESTYLE'', opt_DATESTYLE), (''PGTZ'', opt_TIMEZONE), (''PGGEQO'', opt_GEQO),
      (''PGCLIENTENCODING'', opt_CLIENT_ENCODING), (''PGSSLMODE'', opt_SSLMODE),
      (''PGSSLCOMPRESSION'', opt_SSLCOMPRESSION), (''PGSSLCERT'', opt_SSLCERT), (''PGSSLKEY'', opt_SSLKEY),
      (''PGSSLROOTCERT'', opt_SSLROOTCERT), (''PGSSLCRL'', opt_SSLCRL), (''SSL_CERT_DIR'', opt_SSL_CERT_DIR),
      (''PGREQUIREPEER'', opt_REQUIREPEER)]"

definition uname :: "string option \<Rightarrow> string" where
  "uname pw = (case pw of Some pw_name \<Rightarrow> pw_name | None \<Rightarrow> [])"

definition env_step :: "(string \<Rightarrow> string option) \<Rightarrow> Option \<Rightarrow> string \<times> string \<Rightarrow> Option" where
  "env_step getenv option ev =
     (case getenv (fst ev) of
        Some c \<Rightarrow>
          if c \<noteq> [] then
            (if map_of option (snd ev) = None then map_emplace id (snd ev) c option else option)
          else option
      | None \<Rightarrow> option)"

definition getEnv :: "(string \<Rightarrow> string option) \<Rightarrow> string option \<Rightarrow> Option \<Rightarrow> Option" where
  "getEnv getenv pw option =
     (let option1 = foldl (env_step getenv) option (map_init id env_list)
      in if map_of option1 opt_USER = None then
           (let name = uname pw
            in if length name > 0 then map_emplace id ''user'' name option1 else option1)
         else option1)"

definition getEnv0 :: "(string \<Rightarrow> string option) \<Rightarrow> string option \<Rightarrow> Option" where
  "getEnv0 getenv pw = getEnv getenv pw []"

definition getSSLMode :: "Option \<Rightarrow> SSLMode" where
  "getSSLMode option =
     (case map_of option opt_SSLMODE of
        Some s \<Rightarrow> if s = ''verify_ca'' then verify_ca
                   else if s = ''verify_full'' then verify_full
                   else require
      | None \<Rightarrow> require)"

text \<open>The result and the assignment to the reference parameter \<open>val\<close>.\<close>

definition getOption :: "Option \<Rightarrow> string \<Rightarrow> string \<Rightarrow> bool \<times> string" where
  "getOption option key val =
     (case map_of option key of None \<Rightarrow> (False, val) | Some s \<Rightarrow> (True, s))"

definition getDefaultFileName :: "(string \<Rightarrow> string option) \<Rightarrow> string \<Rightarrow> string" where
  "getDefaultFileName getenv name =
     (let fname = (case getenv ''HOME'' of Some home \<Rightarrow> if home \<noteq> [] then home else [] | None \<Rightarrow> [])
      in fname @ name)"

section \<open>The TLS context\<close>

record 'c ssl_ops =
  load_verify_file :: "string \<Rightarrow> 'c \<Rightarrow> error_code \<times> 'c"
  set_default_verify_paths :: "'c \<Rightarrow> 'c res"
  use_certificate_chain_file :: "string \<Rightarrow> 'c \<Rightarrow> error_code \<times> 'c"
  use_private_key_file :: "string \<Rightarrow> 'c \<Rightarrow> error_code \<times> 'c"

text \<open>
  One of the four sections of \<open>setContext\<close>: the file named by an option must be a regular file
  and load; the default file is loaded when it is a regular file, and \<open>missing\<close> is run when it is
  not. \<open>Inl\<close> is an early return of the function, \<open>Inr\<close> the context and error code it goes on with.
\<close>

definition load_section ::
  "(string \<Rightarrow> bool \<times> error_code) \<Rightarrow> (string \<Rightarrow> string option) \<Rightarrow> Option \<Rightarrow> string \<Rightarrow> string
   \<Rightarrow> (string \<Rightarrow> 'c \<Rightarrow> error_code \<times> 'c) \<Rightarrow> ('c \<Rightarrow> 'c res) \<Rightarrow> 'c
   \<Rightarrow> ((Error \<times> 'c) + ('c \<times> error_code)) res" where
  "load_section is_regular_file getenv option key deflt load missing ctx =
     (case getOption option key [] of
        (True, fname) \<Rightarrow>
          (case is_regular_file fname of
             (False, ec) \<Rightarrow> Inr (Inl (\<lparr>err_code = ec, err_arg = Some fname\<rparr>, ctx))
           | (True, _) \<Rightarrow>
               (case load fname ctx of (ec, ctx') \<Rightarrow>
                  if ec_bool ec then Inr (Inl (\<lparr>err_code = ec, err_arg = Some fname\<rparr>, ctx'))
                  else Inr (Inr (ctx', ec))))
      | (False, _) \<Rightarrow>
          (let fname = getDefaultFileName getenv deflt
           in case is_regular_file fname of
                (True, _) \<Rightarrow>
                  (case load fname ctx of (ec, ctx') \<Rightarrow>
                     if ec_bool ec then Inr (Inl (\<lparr>err_code = ec, err_arg = Some fname\<rparr>, ctx'))
                     else Inr (Inr (ctx', ec)))
              | (False, ec) \<Rightarrow> andThen (missing ctx) (\<lambda>ctx'. Inr (Inr (ctx', ec)))))"

definition go_on ::
  "((Error \<times> 'c) + ('c \<times> error_code)) res \<Rightarrow> ('c \<Rightarrow> ((Error \<times> 'c) + ('c \<times> error_code)) res)
   \<Rightarrow> ((Error \<times> 'c) + ('c \<times> error_code)) res" where
  "go_on r f = andThen r (\<lambda>s. case s of Inl e \<Rightarrow> Inr (Inl e) | Inr (ctx, ec) \<Rightarrow> f ctx)"

definition setContext ::
  "(string \<Rightarrow> bool \<times> error_code) \<Rightarrow> (string \<Rightarrow> string option) \<Rightarrow> 'c ssl_ops \<Rightarrow> Option \<Rightarrow> 'c \<Rightarrow> (Error \<times> 'c) res" where
  "setContext is_regular_file getenv ops option context =
     (let sect = load_section is_regular_file getenv option;
          mode = getSSLMode option;
          server =
            (if mode = verify_ca \<or> mode = verify_full then
               go_on (sect opt_SSLROOTCERT SSLROOTCERT_FILE (load_verify_file ops) (set_default_verify_paths ops) context)
                 (\<lambda>ctx. sect opt_SSLCRL SSLCRL_FILE (load_verify_file ops) Inr ctx)
             else Inr (Inr (context, ec_ok)));
          cert = go_on server (\<lambda>ctx. sect opt_SSLCERT SSLCERT_FILE (use_certificate_chain_file ops) Inr ctx);
          key = go_on cert (\<lambda>ctx. sect opt_SSLKEY SSLKEY_FILE (use_private_key_file ops) Inr ctx)
      in andThen key (\<lambda>s. case s of
           Inl early \<Rightarrow> Inr early
         | Inr (ctx, ec) \<Rightarrow> Inr (\<lparr>err_code = ec, err_arg = None\<rparr>, ctx)))"

text \<open>The callback also prints the subject and the issuer of the certificate.\<close>

definition verifyCertificate :: "SSLMode \<Rightarrow> bool \<Rightarrow> string \<Rightarrow> string \<Rightarrow> bool \<times> string list" where
  "verifyCertificate sslmode preverified subject issuer =
     (if sslmode = verify_ca \<or> sslmode = verify_full then (preverified, [subject, issuer])
      else (True, []))"

section \<open>Printing\<close>

definition putMap :: "string \<Rightarrow> (string \<times> string) list \<Rightarrow> string \<Rightarrow> string" where
  "putMap os c separator = os @ ''{'' @ put_entries separator [] c @ ''}''"

definition Option_put :: "string \<Rightarrow> Option \<Rightarrow> string" where
  "Option_put os obj = putMap os obj '', ''"

definition char_map_put :: "string \<Rightarrow> (char, string) std_map \<Rightarrow> string" where
  "char_map_put os obj = putMap os (map (\<lambda>(k, v). ([k], v)) obj) '', ''"

section \<open>Facts\<close>

lemma env_step_ok: "map_ok id m \<Longrightarrow> map_ok id (env_step g m ev)"
  by (auto simp: env_step_def map_ok_emplace split: option.splits)

lemma env_step_find:
  "map_ok id m \<Longrightarrow> map_of (env_step g m ev) k =
     (case map_of m k of Some v \<Rightarrow> Some v
      | None \<Rightarrow> if k = snd ev then (case g (fst ev) of Some c \<Rightarrow> if c \<noteq> [] then Some c else None | None \<Rightarrow> None)
                else None)"
  by (auto simp: env_step_def string_key.find_emplace split: option.splits)

lemma env_fold_ok: "map_ok id m \<Longrightarrow> map_ok id (foldl (env_step g) m evs)"
  by (induction evs arbitrary: m) (simp_all add: env_step_ok)

lemma env_fold_keeps: "map_ok id m \<Longrightarrow> map_of m k = Some v \<Longrightarrow> map_of (foldl (env_step g) m evs) k = Some v"
  by (induction evs arbitrary: m) (simp_all add: env_step_ok env_step_find)

lemma env_fold_find:
  "map_ok id m \<Longrightarrow> map_of m k = None \<Longrightarrow> distinct (map snd evs) \<Longrightarrow> (e, k) \<in> set evs \<Longrightarrow>
   map_of (foldl (env_step g) m evs) k = (case g e of Some c \<Rightarrow> if c \<noteq> [] then Some c else None | None \<Rightarrow> None)"
proof (induction evs arbitrary: m)
  case (Cons ev evs)
  have ok: "map_ok id (env_step g m ev)" using Cons.prems(1) by (rule env_step_ok)
  show ?case
  proof (cases "ev = (e, k)")
    case True
    have rest: "k \<notin> snd ` set evs" using Cons.prems(3) True by auto
    have none: "map_ok id m' \<Longrightarrow> map_of m' k = None \<Longrightarrow> map_of (foldl (env_step g) m' evs) k = None" for m'
      using rest by (induction evs arbitrary: m') (auto simp: env_step_ok env_step_find)
    have keep: "map_of (env_step g m ev) k = Some v \<Longrightarrow> map_of (foldl (env_step g) (env_step g m ev) evs) k = Some v" for v
      by (rule env_fold_keeps [OF ok])
    have fnd: "map_of (env_step g m ev) k = (case g e of Some c \<Rightarrow> if c \<noteq> [] then Some c else None | None \<Rightarrow> None)"
      using True Cons.prems(2) by (simp add: env_step_find [OF Cons.prems(1)])
    show ?thesis
      by (cases "map_of (env_step g m ev) k") (simp_all add: none [OF ok] keep flip: fnd)
  next
    case False
    then have "snd ev \<noteq> k" "(e, k) \<in> set evs" using Cons.prems(3,4) by (auto simp: rev_image_eqI)
    then show ?thesis
      using Cons.IH [OF ok] Cons.prems(2,3) by (simp add: env_step_find [OF Cons.prems(1)])
  qed
qed simp

lemma env_table_eq:
  "map_init id env_list = sort_key fst env_list"
  by (simp add: map_init_def env_list_def)

lemma env_distinct: "distinct (map snd env_list)"
  unfolding env_list_def opt_defs by code_simp

lemma env_table_distinct: "distinct (map snd (map_init id env_list))" "set (map_init id env_list) = set env_list"
proof -
  have "mset (map_init id env_list) = mset env_list" by (simp only: env_table_eq mset_sort)
  then show "set (map_init id env_list) = set env_list" by (metis set_mset_mset)
  have "mset (map snd (map_init id env_list)) = mset (map snd env_list)"
    by (simp only: env_table_eq mset_map mset_sort)
  then show "distinct (map snd (map_init id env_list))" using env_distinct mset_eq_imp_distinct_iff by blast
qed

section \<open>Properties\<close>

text \<open>
  Precedence of the options. For every option of the environment table, \<open>getEnv\<close> leaves a value that
  is already set; otherwise it takes the environment variable, when that is set and not empty; and
  the user name alone falls back to the name of the effective user, when it has one. Nothing else
  can set it.
\<close>

theorem getEnv_precedence:
  assumes ok: "map_ok id option" and e: "(e, k) \<in> set env_list"
  shows "map_of (getEnv getenv pw option) k =
    (case map_of option k of
       Some v \<Rightarrow> Some v
     | None \<Rightarrow>
         (case getenv e of
            Some (c # cs) \<Rightarrow> Some (c # cs)
          | _ \<Rightarrow> if k = opt_USER \<and> uname pw \<noteq> [] then Some (uname pw) else None))"
proof -
  let ?o = "foldl (env_step getenv) option (map_init id env_list)"
  have o: "map_ok id ?o" by (rule env_fold_ok [OF ok])
  have f: "map_of ?o k = (case map_of option k of Some v \<Rightarrow> Some v
      | None \<Rightarrow> (case getenv e of Some c \<Rightarrow> if c \<noteq> [] then Some c else None | None \<Rightarrow> None))"
    using env_fold_keeps [OF ok, of k] env_fold_find [OF ok _ env_table_distinct(1), of k e getenv] e
    by (auto simp: env_table_distinct(2) split: option.splits)
  have "map_of (getEnv getenv pw option) k = (case map_of ?o k of Some v \<Rightarrow> Some v
      | None \<Rightarrow> if k = opt_USER \<and> uname pw \<noteq> [] then Some (uname pw) else None)"
    using o by (auto simp: getEnv_def Let_def opt_USER_def string_key.find_emplace split: option.splits)
  then show ?thesis
    unfolding f by (auto split: option.splits list.splits)
qed

theorem getEnv_precedence_witness:
  "map_of (getEnv (\<lambda>_. Some ''env'') (Some ''root'') [(''user'', ''joe'')]) opt_DATABASE = Some ''env''"
  using getEnv_precedence [of "[(''user'', ''joe'')]" "''PGDATABASE''" opt_DATABASE "\<lambda>_. Some ''env''" "Some ''root''"]
  by (simp add: map_ok_def env_list_def opt_defs)

text \<open>
  Without certificate verification the trust store is not touched: when the mode is \<open>require\<close>,
  \<open>setContext\<close> behaves the same whatever \<open>load_verify_file\<close> and \<open>set_default_verify_paths\<close> do, as it
  calls neither.
\<close>

theorem setContext_require:
  assumes "getSSLMode option = require"
  shows "setContext irf getenv (ops\<lparr>load_verify_file := l, set_default_verify_paths := p\<rparr>) option ctx
         = setContext irf getenv ops option ctx"
  using assms by (simp add: setContext_def)

text \<open>A context that records the files it was given.\<close>

definition recording_ops :: "string list ssl_ops" where
  "recording_ops = \<lparr>load_verify_file = (\<lambda>f c. (ec_ok, f # c)), set_default_verify_paths = Inr,
     use_certificate_chain_file = (\<lambda>f c. (ec_ok, f # c)), use_private_key_file = (\<lambda>f c. (ec_ok, f # c))\<rparr>"

theorem setContext_require_witness:
  "setContext (\<lambda>_. (True, ec_ok)) (\<lambda>_. None)
     (recording_ops\<lparr>load_verify_file := (\<lambda>f c. (ENOSPC, c)), set_default_verify_paths := Inr\<rparr>) [] []
   = setContext (\<lambda>_. (True, ec_ok)) (\<lambda>_. None) recording_ops [] []"
  by (rule setContext_require) (simp add: getSSLMode_def)

text \<open>
  The default configuration is reported as an error. When no certificate or key is configured and
  the default files do not exist, \<open>setContext\<close> changes nothing and returns the code of its last
  look for a file, the one for the default key: an error, although every file is optional.
\<close>

theorem setContext_defaults_error:
  assumes "getSSLMode option = require" and "map_of option opt_SSLCERT = None" and "map_of option opt_SSLKEY = None"
    and "irf (getDefaultFileName getenv SSLCERT_FILE) = (False, ec1)"
    and "irf (getDefaultFileName getenv SSLKEY_FILE) = (False, ec2)"
  shows "setContext irf getenv ops option ctx = Inr (\<lparr>err_code = ec2, err_arg = None\<rparr>, ctx)"
  using assms by (simp add: setContext_def load_section_def go_on_def getOption_def)

theorem setContext_defaults_error_witness:
  "setContext (\<lambda>_. (False, \<lparr>ec_value = 2, ec_category = system_category\<rparr>)) (\<lambda>_. Some ''/home/joe'') recording_ops [] []
   = Inr (\<lparr>err_code = \<lparr>ec_value = 2, ec_category = system_category\<rparr>, err_arg = None\<rparr>, [])"
  by (rule setContext_defaults_error) (simp_all add: getSSLMode_def)

end
