(* ===== verification/Conn.thy ===== *)
theory Conn
  imports Protocol_Laws Util
begin

text \<open>
  \<^verbatim>\<open>src/src/connection.h\<close>, \<^verbatim>\<open>src/src/connection.cpp\<close>: \<open>ConnectionBase\<close> and its four
  implementations over asio streams.

  The asio library is the argument \<open>io\<close>, a record of the stream operations the code calls, over a
  transport state \<open>'s\<close>: \<open>aio_read n\<close> is \<open>asio::read\<close> (or the completion of \<open>async_read\<close>) into a
  buffer of \<open>n\<close> bytes and returns the error code and the bytes transferred; \<open>aio_write\<close> takes the
  gathered buffers and returns the error code and the byte count. The \<open>raw_\<close> operations act on the
  \<open>next_layer()\<close> of a TLS stream, \<open>tls_handshake\<close> is its handshake.

  What a handler is called with is a \<open>completion\<close>. A blocking connection calls the handler
  before it returns; an asynchronous one initiates the operation (\<open>initiate_read\<close>,
  \<open>initiate_write\<close>: the part that runs in the caller and may throw) and calls the handler later.
  The locale \<open>connection\<close> is the contract of the virtual interface; each class interprets it.
\<close>

datatype completion =
    Done error_code
  | Read_done error_code nat buffer
  | Write_done error_code nat

record 's asio =
  aio_connect :: "'s \<Rightarrow> error_code \<times> 's"
  aio_read :: "nat \<Rightarrow> 's \<Rightarrow> error_code \<times> buffer \<times> 's"
  aio_write :: "buffer \<Rightarrow> 's \<Rightarrow> error_code \<times> nat \<times> 's"
  aio_close :: "'s \<Rightarrow> error_code \<times> 's"
  raw_read :: "nat \<Rightarrow> 's \<Rightarrow> error_code \<times> buffer \<times> 's"
  raw_write :: "buffer \<Rightarrow> 's \<Rightarrow> error_code \<times> nat \<times> 's"
  tls_handshake :: "'s \<Rightarrow> error_code \<times> 's"

section \<open>Shared pieces\<close>

text \<open>\<open>Buffer buf(len)\<close> is zero-filled; the transferred bytes are written to its front.\<close>

definition fill :: "nat \<Rightarrow> buffer \<Rightarrow> buffer" where
  "fill len data = take len (data @ replicate len NUL)"

definition initiate_read :: "nat \<Rightarrow> nat res" where
  "initiate_read len = (if max_alloc < len then Inl (Throw Length_Error) else Inr len)"

text \<open>
  The start of \<open>syncWrite\<close> and \<open>asyncWrite\<close>: the message is serialized and the error code of
  \<open>Message::serialize\<close> is dropped.
\<close>

definition initiate_write :: "Message \<Rightarrow> (buffer \<times> buffer) res" where
  "initiate_write msg = andThen (Message_serialize msg [] []) (\<lambda>(_, header_buf, body_buf). Inr (header_buf, body_buf))"

definition write_result :: "buffer \<Rightarrow> buffer \<Rightarrow> error_code \<Rightarrow> nat \<Rightarrow> error_code" where
  "write_result header_buf body_buf ec bytes =
     (if \<not> ec_bool ec then
        (if bytes \<noteq> length header_buf + length body_buf then ENOSPC else ec)
      else ec)"

definition syncWrite ::
  "(buffer \<Rightarrow> 's \<Rightarrow> error_code \<times> nat \<times> 's) \<Rightarrow> Message \<Rightarrow> 's \<Rightarrow> ((error_code \<times> nat) \<times> 's) res" where
  "syncWrite wr msg s =
     andThen (initiate_write msg) (\<lambda>(header_buf, body_buf).
       case wr (header_buf @ body_buf) s of (ec, bytes, s') \<Rightarrow>
         Inr ((write_result header_buf body_buf ec bytes, bytes), s'))"

text \<open>The completion of \<open>asyncWrite\<close>: the lambda that owns the two buffers.\<close>

definition asyncWrite_complete ::
  "(buffer \<Rightarrow> 's \<Rightarrow> error_code \<times> nat \<times> 's) \<Rightarrow> buffer \<Rightarrow> buffer \<Rightarrow> 's \<Rightarrow> (error_code \<times> nat) \<times> 's" where
  "asyncWrite_complete wr header_buf body_buf s =
     (case wr (header_buf @ body_buf) s of (ec, bytes, s') \<Rightarrow>
        if \<not> ec_bool ec then
          (if bytes \<noteq> length header_buf + length body_buf then ((ENOSPC, bytes), s') else ((ec, bytes), s'))
        else ((ec, bytes), s'))"

section \<open>ConnectionBase and the blocking connections\<close>

definition ConnectionBase_handshake :: completion where
  "ConnectionBase_handshake = Done ENOSYS"

definition Connection_connect :: "'s asio \<Rightarrow> 's \<Rightarrow> (completion \<times> 's) res" where
  "Connection_connect io s = (case aio_connect io s of (ec, s') \<Rightarrow> Inr (Done ec, s'))"

definition Connection_read :: "'s asio \<Rightarrow> nat \<Rightarrow> 's \<Rightarrow> (completion \<times> 's) res" where
  "Connection_read io len s =
     andThen (initiate_read len) (\<lambda>len.
       case aio_read io len s of (ec, data, s') \<Rightarrow> Inr (Read_done ec (length data) (fill len data), s'))"

definition Connection_write :: "'s asio \<Rightarrow> Message \<Rightarrow> 's \<Rightarrow> (completion \<times> 's) res" where
  "Connection_write io msg s =
     andThen (syncWrite (aio_write io) msg s) (\<lambda>((ec, bytes), s'). Inr (Write_done ec bytes, s'))"

definition Connection_close :: "'s asio \<Rightarrow> 's \<Rightarrow> (completion \<times> 's) res" where
  "Connection_close io s = (case aio_close io s of (ec, s') \<Rightarrow> Inr (Done ec, s'))"

text \<open>The verify callback the TLS constructors install; the endpoint and socket are in \<open>'s\<close>.\<close>

definition SSLConnection_verify :: "SSLMode \<Rightarrow> bool \<Rightarrow> string \<Rightarrow> string \<Rightarrow> bool" where
  "SSLConnection_verify sslmode preverified subject issuer =
     fst (verifyCertificate sslmode preverified subject issuer)"

definition SSLConnection_connect :: "'s asio \<Rightarrow> 's \<Rightarrow> (completion \<times> 's) res" where
  "SSLConnection_connect io s = (case aio_connect io s of (ec, s') \<Rightarrow> Inr (Done ec, s'))"

definition SSLConnection_handshake :: "'s asio \<Rightarrow> 's \<Rightarrow> (completion \<times> 's) res" where
  "SSLConnection_handshake io s =
     andThen (syncWrite (raw_write io) SSLRequest s) (\<lambda>((ec, bytes), s1).
       if ec_bool ec then Inr (Done ec, s1)
       else case raw_read io 1 s1 of (ec, data, s2) \<Rightarrow>
         if ec_bool ec then Inr (Done ec, s2)
         else if length data \<noteq> 1 then Inr (Done EMSGSIZE, s2)
         else if fill 1 data ! 0 \<noteq> CHR ''S'' then Inr (Done EMSGSIZE, s2)
         else case tls_handshake io s2 of (ec, s3) \<Rightarrow> Inr (Done ec, s3))"

definition SSLConnection_read :: "'s asio \<Rightarrow> nat \<Rightarrow> 's \<Rightarrow> (completion \<times> 's) res" where
  "SSLConnection_read io len s =
     andThen (initiate_read len) (\<lambda>len.
       case aio_read io len s of (ec, data, s') \<Rightarrow> Inr (Read_done ec (length data) (fill len data), s'))"

definition SSLConnection_write :: "'s asio \<Rightarrow> Message \<Rightarrow> 's \<Rightarrow> (completion \<times> 's) res" where
  "SSLConnection_write io msg s =
     andThen (syncWrite (aio_write io) msg s) (\<lambda>((ec, bytes), s'). Inr (Write_done ec bytes, s'))"

definition SSLConnection_close :: "'s asio \<Rightarrow> 's \<Rightarrow> (completion \<times> 's) res" where
  "SSLConnection_close io s = (case aio_close io s of (ec, s') \<Rightarrow> Inr (Done ec, s'))"

section \<open>The asynchronous connections\<close>

text \<open>
  Each operation is its initiation followed by its completion; the scheduler of the \<open>io_service\<close>
  decides when the completion runs (theory \<open>Fsm\<close>). \<open>close\<close> calls its handler at once.
\<close>

definition AsyncConnection_connect :: "'s asio \<Rightarrow> 's \<Rightarrow> (completion \<times> 's) res" where
  "AsyncConnection_connect io s = (case aio_connect io s of (ec, s') \<Rightarrow> Inr (Done ec, s'))"

definition async_read_complete :: "'s asio \<Rightarrow> nat \<Rightarrow> 's \<Rightarrow> completion \<times> 's" where
  "async_read_complete io len s =
     (case aio_read io len s of (ec, data, s') \<Rightarrow> (Read_done ec (length data) (fill len data), s'))"

definition AsyncConnection_read :: "'s asio \<Rightarrow> nat \<Rightarrow> 's \<Rightarrow> (completion \<times> 's) res" where
  "AsyncConnection_read io len s = andThen (initiate_read len) (\<lambda>len. Inr (async_read_complete io len s))"

definition AsyncConnection_write :: "'s asio \<Rightarrow> Message \<Rightarrow> 's \<Rightarrow> (completion \<times> 's) res" where
  "AsyncConnection_write io msg s =
     andThen (initiate_write msg) (\<lambda>(header_buf, body_buf).
       case asyncWrite_complete (aio_write io) header_buf body_buf s of ((ec, bytes), s') \<Rightarrow>
         Inr (Write_done ec bytes, s'))"

definition AsyncConnection_close :: "'s asio \<Rightarrow> 's \<Rightarrow> (completion \<times> 's) res" where
  "AsyncConnection_close io s = (case aio_close io s of (ec, s') \<Rightarrow> Inr (Done ec, s'))"

definition SSLAsyncConnection_connect :: "'s asio \<Rightarrow> 's \<Rightarrow> (completion \<times> 's) res" where
  "SSLAsyncConnection_connect io s = (case aio_connect io s of (ec, s') \<Rightarrow> Inr (Done ec, s'))"

definition SSLAsyncConnection_read :: "'s asio \<Rightarrow> nat \<Rightarrow> 's \<Rightarrow> (completion \<times> 's) res" where
  "SSLAsyncConnection_read io len s = andThen (initiate_read len) (\<lambda>len. Inr (async_read_complete io len s))"

text \<open>The two nested lambdas of \<open>SSLAsyncConnection::handshake\<close>, inner one first.\<close>

definition async_handshake_reply :: "'s asio \<Rightarrow> error_code \<Rightarrow> buffer \<Rightarrow> 's \<Rightarrow> completion \<times> 's" where
  "async_handshake_reply io ec data s =
     (if ec_bool ec then (Done ec, s)
      else if length data \<noteq> 1 then (Done EMSGSIZE, s)
      else if fill 1 data ! 0 \<noteq> CHR ''S'' then (Done EMSGSIZE, s)
      else case tls_handshake io s of (ec, s') \<Rightarrow> (Done ec, s'))"

definition async_handshake_written :: "'s asio \<Rightarrow> error_code \<Rightarrow> 's \<Rightarrow> completion \<times> 's" where
  "async_handshake_written io ec s =
     (if ec_bool ec then (Done ec, s)
      else case raw_read io 1 s of (ec, data, s') \<Rightarrow> async_handshake_reply io ec data s')"

definition SSLAsyncConnection_handshake :: "'s asio \<Rightarrow> 's \<Rightarrow> (completion \<times> 's) res" where
  "SSLAsyncConnection_handshake io s =
     andThen (initiate_write SSLRequest) (\<lambda>(header_buf, body_buf).
       case asyncWrite_complete (raw_write io) header_buf body_buf s of ((ec, bytes), s1) \<Rightarrow>
         Inr (async_handshake_written io ec s1))"

definition SSLAsyncConnection_write :: "'s asio \<Rightarrow> Message \<Rightarrow> 's \<Rightarrow> (completion \<times> 's) res" where
  "SSLAsyncConnection_write io msg s =
     andThen (initiate_write msg) (\<lambda>(header_buf, body_buf).
       case asyncWrite_complete (aio_write io) header_buf body_buf s of ((ec, bytes), s') \<Rightarrow>
         Inr (Write_done ec bytes, s'))"

definition SSLAsyncConnection_close :: "'s asio \<Rightarrow> 's \<Rightarrow> (completion \<times> 's) res" where
  "SSLAsyncConnection_close io s = (case aio_close io s of (ec, s') \<Rightarrow> Inr (Done ec, s'))"

section \<open>The contract of the interface\<close>

definition frame_size :: "Message \<Rightarrow> nat" where
  "frame_size msg = (if messageType msg = NUL then 4 else 5) + length (body_of msg)"

locale connection =
  fixes con_read :: "nat \<Rightarrow> 's \<Rightarrow> (completion \<times> 's) res"
    and con_write :: "Message \<Rightarrow> 's \<Rightarrow> (completion \<times> 's) res"
    and con_handshake :: "'s \<Rightarrow> (completion \<times> 's) res"
  assumes read_shape: "con_read n s = Inr (c, s') \<Longrightarrow> \<exists>ec k buf. c = Read_done ec k buf \<and> length buf = n"
    and read_total: "n \<le> max_alloc \<Longrightarrow> is_ok (con_read n s)"
    and read_huge: "max_alloc < n \<Longrightarrow> con_read n s = Inl (Throw Length_Error)"
    and write_shape: "\<lbrakk> outbound msg; length (body_of msg) < 2 ^ 31 - 4 \<rbrakk> \<Longrightarrow>
        \<exists>ec k s'. con_write msg s = Inr (Write_done ec k, s') \<and> (\<not> ec_bool ec \<longrightarrow> k = frame_size msg)"
    and handshake_shape: "\<exists>ec s'. con_handshake s = Inr (Done ec, s')"
begin

lemma read_header: "con_read Header_size s = Inr (Read_done ec k buf, s') \<Longrightarrow> Header_deserialize buf h = Inr (er, h') \<Longrightarrow> er = ec_ok"
  using read_shape [of Header_size s "Read_done ec k buf" s'] by (auto intro: Header_deserialize_five)

lemma read_negative: "sint len < 0 \<Longrightarrow> con_read (size_of_int len) s = Inl (Throw Length_Error)"
  by (rule read_huge) (rule size_of_int_neg)

end

lemma length_fill [simp]: "length (fill n data) = n"
  by (simp add: fill_def)

lemma fill_exact [simp]: "length data = n \<Longrightarrow> fill n data = data"
  by (simp add: fill_def)

lemma initiate_write_eq:
  assumes "outbound msg" and "length (body_of msg) < 2 ^ 31 - 4"
  shows "initiate_write msg =
         Inr (frame_head (messageType msg) (word_of_nat (length (body_of msg) + 4)), body_of msg)"
  by (simp add: initiate_write_def Message_serialize_eq [OF assms])

lemma length_frame_head [simp]: "length (frame_head t n) = (if t = NUL then 4 else 5)"
  by (simp add: frame_head_def)

lemma syncWrite_shape:
  assumes "outbound msg" and "length (body_of msg) < 2 ^ 31 - 4"
  shows "\<exists>ec k s'. syncWrite wr msg s = Inr ((ec, k), s') \<and> (\<not> ec_bool ec \<longrightarrow> k = frame_size msg)"
  by (auto simp: syncWrite_def initiate_write_eq [OF assms] write_result_def frame_size_def split: prod.splits)

lemma async_complete_sync:
  "asyncWrite_complete wr h b s = (case wr (h @ b) s of (ec, n, s') \<Rightarrow> ((write_result h b ec n, n), s'))"
  by (simp add: asyncWrite_complete_def write_result_def split: prod.splits)

text \<open>The asynchronous classes compute what the blocking ones do; they differ in when the handler runs.\<close>

lemma AsyncConnection_write_eq: "AsyncConnection_write io msg s = Connection_write io msg s"
  by (auto simp: AsyncConnection_write_def Connection_write_def syncWrite_def async_complete_sync andThen_def
      split: sum.splits prod.splits)

lemma AsyncConnection_read_eq: "AsyncConnection_read io n s = Connection_read io n s"
  by (auto simp: AsyncConnection_read_def Connection_read_def async_read_complete_def andThen_def
      split: sum.splits prod.splits)

lemma SSLAsync_handshake_eq: "SSLAsyncConnection_handshake io s = SSLConnection_handshake io s"
  by (auto simp: SSLAsyncConnection_handshake_def SSLConnection_handshake_def syncWrite_def async_complete_sync
      async_handshake_written_def async_handshake_reply_def andThen_def split: sum.splits prod.splits)

interpretation plain: connection "Connection_read io" "Connection_write io" "\<lambda>s. Inr (ConnectionBase_handshake, s)" for io
proof
  fix n s c s'
  assume "Connection_read io n s = Inr (c, s')"
  then show "\<exists>ec k buf. c = Read_done ec k buf \<and> length buf = n"
    by (auto simp: Connection_read_def initiate_read_def split: if_splits prod.splits)
next
  fix msg s
  assume "outbound msg" "length (body_of msg) < 2 ^ 31 - 4"
  from syncWrite_shape [OF this, of "aio_write io" s]
  show "\<exists>ec k s'. Connection_write io msg s = Inr (Write_done ec k, s') \<and> (\<not> ec_bool ec \<longrightarrow> k = frame_size msg)"
    by (auto simp: Connection_write_def)
qed (auto simp: Connection_read_def initiate_read_def ConnectionBase_handshake_def split: prod.splits)

lemma SSLConnection_eq:
  "SSLConnection_read = Connection_read" "SSLConnection_write = Connection_write"
  "SSLAsyncConnection_read = AsyncConnection_read" "SSLAsyncConnection_write = AsyncConnection_write"
  by (simp_all add: fun_eq_iff SSLConnection_read_def Connection_read_def SSLConnection_write_def Connection_write_def
      SSLAsyncConnection_read_def AsyncConnection_read_def SSLAsyncConnection_write_def AsyncConnection_write_def)

lemma SSLRequest_size: "outbound SSLRequest" "length (body_of SSLRequest) < 2 ^ 31 - 4"
  by simp_all

lemma SSLConnection_handshake_shape: "\<exists>ec s'. SSLConnection_handshake io s = Inr (Done ec, s')"
  using syncWrite_shape [OF SSLRequest_size, of "raw_write io" s]
  by (auto simp: SSLConnection_handshake_def split: prod.splits)

interpretation tls: connection "SSLConnection_read io" "SSLConnection_write io" "SSLConnection_handshake io" for io
  unfolding SSLConnection_eq
  by unfold_locales
    (erule plain.read_shape plain.read_total plain.read_huge
     | erule (1) plain.write_shape | rule SSLConnection_handshake_shape)+

interpretation async: connection "AsyncConnection_read io" "AsyncConnection_write io" "\<lambda>s. Inr (ConnectionBase_handshake, s)" for io
  unfolding AsyncConnection_read_eq AsyncConnection_write_eq
  by unfold_locales
    (erule plain.read_shape plain.read_total plain.read_huge
     | erule (1) plain.write_shape | rule plain.handshake_shape)+

interpretation async_tls: connection "SSLAsyncConnection_read io" "SSLAsyncConnection_write io" "SSLAsyncConnection_handshake io" for io
  unfolding SSLConnection_eq AsyncConnection_read_eq AsyncConnection_write_eq SSLAsync_handshake_eq
  by unfold_locales
    (erule plain.read_shape plain.read_total plain.read_huge
     | erule (1) plain.write_shape | rule SSLConnection_handshake_shape)+

section \<open>Properties\<close>

text \<open>
  A successful write is complete. On each of the four connection classes and whatever the
  transport does, writing an outbound message calls the handler exactly once with a write result,
  and a success code means that the byte count is that of the whole frame: a short write is turned
  into \<open>ENOSPC\<close>.
\<close>

theorem write_complete:
  assumes "outbound msg" and "length (body_of msg) < 2 ^ 31 - 4"
    and "wr \<in> {Connection_write io, SSLConnection_write io, AsyncConnection_write io, SSLAsyncConnection_write io}"
  shows "\<exists>ec k s'. wr msg s = Inr (Write_done ec k, s') \<and> (\<not> ec_bool ec \<longrightarrow> k = frame_size msg)"
  using assms plain.write_shape [OF assms(1,2)] tls.write_shape [OF assms(1,2)]
    async.write_shape [OF assms(1,2)] async_tls.write_shape [OF assms(1,2)] by auto

definition stalled_io :: "unit asio" where
  "stalled_io = \<lparr>aio_connect = (\<lambda>s. (ec_ok, s)), aio_read = (\<lambda>n s. (ec_ok, [], s)), aio_write = (\<lambda>b s. (ec_ok, 3, s)),
     aio_close = (\<lambda>s. (ec_ok, s)), raw_read = (\<lambda>n s. (ec_ok, ''N'', s)), raw_write = (\<lambda>b s. (ec_ok, length b, s)),
     tls_handshake = (\<lambda>s. (ec_ok, s))\<rparr>"

theorem write_complete_witness:
  "\<exists>ec k s'. Connection_write stalled_io Sync () = Inr (Write_done ec k, s') \<and> (\<not> ec_bool ec \<longrightarrow> k = frame_size Sync)"
  by (rule write_complete [where io = stalled_io]) simp_all

text \<open>
  The header parser cannot fail on what a connection delivers. \<open>FSM::receive\<close> ignores the code of
  \<open>header.deserialize\<close>; this is harmless, because every connection class hands the read handler a
  buffer of exactly the size asked for, for which that code is always success.
\<close>

theorem header_code_is_success:
  assumes "rd \<in> {Connection_read io, SSLConnection_read io, AsyncConnection_read io, SSLAsyncConnection_read io}"
    and "rd Header_size s = Inr (Read_done ec k buf, s')" and "Header_deserialize buf h = Inr (er, h')"
  shows "er = ec_ok"
  using assms(1)
proof (elim insertE emptyE)
  assume "rd = Connection_read io" then show ?thesis using assms(2,3) by (auto intro: plain.read_header)
next
  assume "rd = SSLConnection_read io" then show ?thesis using assms(2,3) by (auto intro: tls.read_header)
next
  assume "rd = AsyncConnection_read io" then show ?thesis using assms(2,3) by (auto intro: async.read_header)
next
  assume "rd = SSLAsyncConnection_read io" then show ?thesis using assms(2,3) by (auto intro: async_tls.read_header)
qed

lemma stalled_header: "Header_deserialize (fill 5 []) Header_init = Inr (ec_ok, \<lparr>m_mtype = NUL, m_body_length = - 4\<rparr>)"
proof -
  have "fill 5 [] = NUL # be32 0 @ []" by code_simp
  then show ?thesis using Header_deserialize_eq [of 0 NUL "[]" Header_init] by (simp add: Header_init_def)
qed

theorem header_code_is_success_witness:
  "Connection_read stalled_io Header_size () = Inr (Read_done ec_ok 0 (fill 5 []), ()) \<and>
   (\<exists>er h'. Header_deserialize (fill 5 []) Header_init = Inr (er, h') \<and> er = ec_ok)"
proof -
  have r: "Connection_read stalled_io Header_size () = Inr (Read_done ec_ok 0 (fill 5 []), ())"
    by (simp add: Connection_read_def initiate_read_def stalled_io_def Header_size_def max_alloc_def)
  obtain er h' where d: "Header_deserialize (fill 5 []) Header_init = Inr (er, h')" using stalled_header by blast
  have "er = ec_ok" by (rule header_code_is_success [of "Connection_read stalled_io" stalled_io, OF _ r d]) simp
  then show ?thesis using r d by blast
qed

text \<open>
  The asynchronous classes compute what the blocking ones compute: for the same transport, a
  read, a write and the TLS handshake deliver the same completion; only the moment of the handler
  call differs.
\<close>

theorem async_same_as_blocking:
  "AsyncConnection_read io n s = Connection_read io n s \<and> AsyncConnection_write io msg s = Connection_write io msg s \<and>
   SSLAsyncConnection_read io n s = SSLConnection_read io n s \<and>
   SSLAsyncConnection_write io msg s = SSLConnection_write io msg s \<and>
   SSLAsyncConnection_handshake io s = SSLConnection_handshake io s"
  by (simp add: SSLConnection_eq AsyncConnection_read_eq AsyncConnection_write_eq SSLAsync_handshake_eq)

text \<open>
  C30. No fallback to plain text: a TLS connection's handshake reports success only after the
  \<open>SSLRequest\<close> frame was written completely to the raw stream, the server answered with the single
  byte \<open>S\<close>, and the TLS handshake succeeded; the stream state is the one after it.
\<close>

theorem handshake_needs_tls:
  assumes "SSLConnection_handshake io s = Inr (Done ec, s')" and "\<not> ec_bool ec"
  shows "\<exists>s1 s2 ec1 ec2. raw_write io (be32 8 @ be32 SSL_REQUEST_CODE) s = (ec1, 8, s1) \<and> \<not> ec_bool ec1 \<and>
    raw_read io 1 s1 = (ec2, ''S'', s2) \<and> \<not> ec_bool ec2 \<and> tls_handshake io s2 = (ec, s')"
proof -
  have w: "initiate_write SSLRequest = Inr (be32 8, be32 SSL_REQUEST_CODE)"
    by (simp add: initiate_write_eq frame_head_def mtype_defs)
  obtain ec1 k s1 where 1: "raw_write io (be32 8 @ be32 SSL_REQUEST_CODE) s = (ec1, k, s1)" by (metis prod_cases3)
  obtain ec2 d s2 where 2: "raw_read io 1 s1 = (ec2, d, s2)" by (metis prod_cases3)
  obtain ec3 s3 where 3: "tls_handshake io s2 = (ec3, s3)" by fastforce
  have "\<not> ec_bool ec1 \<and> k = 8 \<and> \<not> ec_bool ec2 \<and> length d = 1 \<and> fill 1 d ! 0 = CHR ''S'' \<and> ec3 = ec \<and> s3 = s'"
    using assms 2 by (auto simp: SSLConnection_handshake_def syncWrite_def w 1 3 write_result_def split: if_splits)
  moreover then have "d = ''S''" by (cases d) auto
  ultimately show ?thesis using 1 2 3 by blast
qed

definition tls_io :: "unit asio" where
  "tls_io = stalled_io\<lparr>raw_read := (\<lambda>n s. (ec_ok, ''S'', s))\<rparr>"

theorem handshake_needs_tls_witness:
  "SSLConnection_handshake tls_io () = Inr (Done ec_ok, ()) \<and>
   (\<exists>s1 s2 ec1 ec2. raw_write tls_io (be32 8 @ be32 SSL_REQUEST_CODE) () = (ec1, 8, s1) \<and> \<not> ec_bool ec1 \<and>
    raw_read tls_io 1 s1 = (ec2, ''S'', s2) \<and> \<not> ec_bool ec2 \<and> tls_handshake tls_io s2 = (ec_ok, ()))"
proof -
  have h: "SSLConnection_handshake tls_io () = Inr (Done ec_ok, ())"
    by (simp add: SSLConnection_handshake_def syncWrite_def initiate_write_eq write_result_def tls_io_def stalled_io_def
        mtype_defs)
  then show ?thesis using handshake_needs_tls [OF h] by simp
qed

end
