(* ===== verification/Protocol_Roundtrip.thy ===== *)
theory Protocol_Roundtrip
  imports Protocol_Laws
begin

text \<open>
  Round trips of the backend messages. The encoders \<open>enc_\<dots>\<close> follow the layout of the PostgreSQL
  frontend/backend protocol, version 3; each parser recovers what its encoder was given. The row
  parser is proved once against the interface \<open>result_sink\<close>.
\<close>

section \<open>Encoders of the server's message bodies\<close>

definition enc_field :: "FieldSpec \<Rightarrow> buffer" where
  "enc_field fs = cstr (fs_name fs) @ be32 (table_oid fs) @ enc_uint16 (col_num fs) @ be32 (type_oid fs)
     @ enc_uint16 (type_size fs) @ be32 (type_mod fs) @ enc_uint16 (type_format fs)"

definition valid_field :: "FieldSpec \<Rightarrow> bool" where
  "valid_field fs \<longleftrightarrow> NUL \<notin> set (fs_name fs) \<and> fits_uint16 (col_num fs)
     \<and> fits_uint16 (type_size fs) \<and> fits_uint16 (type_format fs)"

definition enc_fields :: "FieldSpec list \<Rightarrow> buffer" where
  "enc_fields fs = enc_uint16 (word_of_nat (length fs)) @ concat (map enc_field fs)"

definition enc_oids :: "int32 list \<Rightarrow> buffer" where
  "enc_oids oids = enc_uint16 (word_of_nat (length oids)) @ concat (map be32 oids)"

definition enc_errfields :: "(char \<times> string) list \<Rightarrow> buffer" where
  "enc_errfields fs = concat (map (\<lambda>(c, s). c # cstr s) fs) @ [NUL]"

definition valid_errfield :: "char \<times> string \<Rightarrow> bool" where
  "valid_errfield p \<longleftrightarrow> fst p \<noteq> NUL \<and> NUL \<notin> set (snd p)"

definition enc_col :: "string \<Rightarrow> buffer" where
  "enc_col v = be32 (word_of_nat (length v)) @ v"

definition enc_row :: "string list \<Rightarrow> buffer" where
  "enc_row vs = enc_uint16 (word_of_nat (length vs)) @ concat (map enc_col vs)"

definition accepts :: "MessageType \<Rightarrow> Header \<Rightarrow> buffer \<Rightarrow> bool" where
  "accepts t h b \<longleftrightarrow> m_mtype h = t \<and> size_of_int (m_body_length h) \<le> length b"

lemma guarded_accepts: "accepts t h b \<Longrightarrow> guarded t h b m body = body"
  by (simp add: accepts_def guarded_def)

lemma fits_count: "n < 2 ^ 16 \<Longrightarrow> fits_uint16 (word_of_nat n)"
  by (simp add: fits_uint16_def unat_of_nat)

lemma unat_count: "n < 2 ^ 16 \<Longrightarrow> unat (word_of_nat n :: int32) = n"
  by (simp add: unat_of_nat)

lemma length_enc_uint16 [simp]: "length (enc_uint16 v) = 2"
  by (simp add: enc_uint16_def)

lemma read_count: "n < 2 ^ 16 \<Longrightarrow> deserializeInt16 (enc_uint16 (word_of_nat n) @ rest) 0 = Inr (word_of_nat n, 2)"
  using int16_codec.dec_front [of "word_of_nat n" rest] by (simp add: fits_count)

section \<open>Row descriptions\<close>

lemma read_field_enc:
  assumes v: "valid_field x" and d: "drop pos b = enc_field x @ rest"
  shows "read_field b pos = Inr (x, length (enc_field x))"
proof -
  have d1: "drop pos b = cstr (fs_name x) @ be32 (table_oid x) @ enc_uint16 (col_num x) @ be32 (type_oid x)
     @ enc_uint16 (type_size x) @ be32 (type_mod x) @ enc_uint16 (type_format x) @ rest"
    using d by (simp add: enc_field_def)
  note d2 = drop_advance [OF d1]
  note d3 = drop_advance [OF d2]
  note d4 = drop_advance [OF d3]
  note d5 = drop_advance [OF d4]
  note d6 = drop_advance [OF d5]
  note d7 = drop_advance [OF d6]
  have vs: "NUL \<notin> set (fs_name x)" "fits_uint16 (col_num x)" "fits_uint16 (type_size x)" "fits_uint16 (type_format x)"
    using v by (auto simp: valid_field_def)
  note rs = string_codec.dec_enc [OF vs(1) d1] int32_codec.dec_enc [OF TrueI d2]
    int16_codec.dec_enc [OF vs(2) d3] int32_codec.dec_enc [OF TrueI d4]
    int16_codec.dec_enc [OF vs(3) d5] int32_codec.dec_enc [OF TrueI d6]
    int16_codec.dec_enc [OF vs(4) d7]
  show ?thesis
    using rs by (simp add: read_field_def enc_field_def add.assoc)
qed

interpretation field_codec: codec read_field enc_field valid_field
proof
  fix b pos x k
  assume "read_field b pos = Inr (x, k)"
  then show "0 < k \<and> pos + k \<le> length b"
    by (auto simp: read_field_def andThen_eq_Inr dest!: int16_codec.in_bounds)
next
  fix b pos e
  assume "read_field b pos = Inl e"
  then show "e = Undefined_Behaviour"
    by (auto simp: read_field_def andThen_eq_Inl
        dest!: string_codec.only_ub int32_codec.only_ub int16_codec.only_ub)
next
  fix x pos b rest
  assume "valid_field x" "drop pos b = enc_field x @ rest"
  then show "read_field b pos = Inr (x, length (enc_field x))"
    by (rule read_field_enc)
qed

lemma RowDescription_enc:
  assumes "length fs < 2 ^ 16" and "list_all valid_field fs"
    and "accepts RowDescription_mtype h (enc_fields fs @ rest)"
  shows "RowDescription_deserialize h (enc_fields fs @ rest) acc = Inr (ec_ok, acc @ fs)"
proof -
  have "read_n read_field (length fs) (enc_fields fs @ rest) 2
        = Inr (fs, 2 + length (concat (map enc_field fs)))"
    by (rule field_codec.read_n_enc [OF assms(2)]) (simp add: enc_fields_def)
  moreover have "deserializeInt16 (enc_fields fs @ rest) 0 = Inr (word_of_nat (length fs), 2)"
    using read_count [OF assms(1)] by (simp add: enc_fields_def)
  ultimately show ?thesis
    using assms(1) by (simp add: RowDescription_deserialize_def guarded_accepts [OF assms(3)] unat_count)
qed

lemma ParameterDescription_enc:
  assumes "length oids < 2 ^ 16"
    and "accepts ParameterDescription_mtype h (enc_oids oids @ rest)"
  shows "ParameterDescription_deserialize h (enc_oids oids @ rest) acc = Inr (ec_ok, acc @ oids)"
proof -
  have "read_n deserializeInt32 (length oids) (enc_oids oids @ rest) 2
        = Inr (oids, 2 + length (concat (map be32 oids)))"
    by (rule int32_codec.read_n_enc) (simp_all add: enc_oids_def list_all_iff)
  moreover have "deserializeInt16 (enc_oids oids @ rest) 0 = Inr (word_of_nat (length oids), 2)"
    using read_count [OF assms(1)] by (simp add: enc_oids_def)
  ultimately show ?thesis
    using assms(1) by (simp add: ParameterDescription_deserialize_def guarded_accepts [OF assms(2)] unat_count)
qed

section \<open>Error and notice responses\<close>

lemma error_fields_enc:
  "list_all valid_errfield fs \<Longrightarrow> drop pos b = enc_errfields fs @ rest \<Longrightarrow>
   andThen (deserializeByte1 b pos) (\<lambda>(c, l). error_fields b c (pos + l) e)
     = Inr (fold (\<lambda>(c, s). SQLError_emplace c s) fs e)"
proof (induction fs arbitrary: pos e)
  case Nil
  then have "drop pos b = [NUL] @ rest" by (simp add: enc_errfields_def)
  then have "deserializeByte1 b pos = Inr (NUL, 1)"
    using byte1_codec.dec_enc [OF TrueI] by fastforce
  then show ?case by (simp add: error_fields.simps)
next
  case (Cons p fs)
  obtain c s where p: "p = (c, s)" by force
  have v: "c \<noteq> NUL" "NUL \<notin> set s" using Cons.prems(1) by (auto simp: p valid_errfield_def)
  have d1: "drop pos b = [c] @ cstr s @ enc_errfields fs @ rest"
    using Cons.prems(2) by (simp add: p enc_errfields_def)
  note d2 = drop_advance [OF d1]
  note d3 = drop_advance [OF d2]
  have r: "deserializeByte1 b pos = Inr (c, 1)" "deserialize_string b (pos + 1) = Inr (s, length (cstr s))"
    using byte1_codec.dec_enc [OF TrueI d1] string_codec.dec_enc [OF v(2) d2] by simp_all
  have "andThen (deserializeByte1 b (pos + 1 + length (cstr s)))
          (\<lambda>(c', l). error_fields b c' (pos + 1 + length (cstr s) + l) (SQLError_emplace c s e))
        = Inr (fold (\<lambda>(c, s). SQLError_emplace c s) fs (SQLError_emplace c s e))"
    using Cons.prems(1) d3 by (intro Cons.IH) simp_all
  then show ?case
    using r(2) by (simp add: r(1) p error_fields.simps [of b c] v(1))
qed

lemma ErrorResponse_enc:
  assumes "list_all valid_errfield fs" and "accepts ErrorResponse_mtype h (enc_errfields fs @ rest)"
  shows "ErrorResponse_deserialize h (enc_errfields fs @ rest) e =
         Inr (ec_ok, fold (\<lambda>(c, s). SQLError_emplace c s) fs e)"
proof -
  have "andThen (deserializeByte1 (enc_errfields fs @ rest) 0) (\<lambda>(c, l). error_fields (enc_errfields fs @ rest) c l e)
        = Inr (fold (\<lambda>(c, s). SQLError_emplace c s) fs e)"
    using error_fields_enc [OF assms(1), of 0 "enc_errfields fs @ rest" rest e] by simp
  then show ?thesis
    by (auto simp: ErrorResponse_deserialize_def guarded_accepts [OF assms(2)] andThen_eq_Inr split_beta)
qed

lemma NoticeResponse_enc:
  assumes "list_all valid_errfield fs" and "accepts NoticeResponse_mtype h (enc_errfields fs @ rest)"
  shows "NoticeResponse_deserialize h (enc_errfields fs @ rest) e =
         Inr (ec_ok, fold (\<lambda>(c, s). SQLError_emplace c s) fs e)"
proof -
  have "andThen (deserializeByte1 (enc_errfields fs @ rest) 0) (\<lambda>(c, l). error_fields (enc_errfields fs @ rest) c l e)
        = Inr (fold (\<lambda>(c, s). SQLError_emplace c s) fs e)"
    using error_fields_enc [OF assms(1), of 0 "enc_errfields fs @ rest" rest e] by simp
  then show ?thesis
    by (auto simp: NoticeResponse_deserialize_def guarded_accepts [OF assms(2)] andThen_eq_Inr split_beta)
qed

section \<open>Rows\<close>

lemma add_size_ok: "length v < 2 ^ 31 \<Longrightarrow> pos + length v < 2 ^ 64 \<Longrightarrow> add_size pos (word_of_nat (length v)) = pos + length v"
  by (simp add: add_size_def size_of_int_of_nat)

context result_sink
begin

lemma row_columns_enc:
  "\<lbrakk> good r; ready r; i + length vs \<le> length (expects r); drop pos b = concat (map enc_col vs) @ rest;
     pos \<le> length b; length b < 2 ^ 64; length xs = length vs;
     \<forall>j < length vs. least_size (expects r ! (i + j)) \<le> length (vs ! j) \<and> length (vs ! j) < 2 ^ 31
                     \<and> val (expects r ! (i + j)) (vs ! j) = Inr (xs ! j) \<rbrakk>
   \<Longrightarrow> \<exists>r'. row_columns put (length vs) i b pos r = Inr r' \<and> good r' \<and> ready r'
        \<and> expects r' = expects r \<and> cells r' = cells r @ xs \<and> finished r' = finished r
        \<and> outside r' = outside r"
proof (induction vs arbitrary: i pos r xs)
  case Nil
  then show ?case by simp
next
  case (Cons v vs)
  from Cons.prems(7) obtain x xs' where xs: "xs = x # xs'" and lxs: "length xs' = length vs"
    by (cases xs) auto
  have h0: "least_size (expects r ! i) \<le> length v" "length v < 2 ^ 31" "val (expects r ! i) v = Inr x"
    using Cons.prems(8) by (auto simp: xs dest: spec [of _ 0])
  have d1: "drop pos b = be32 (word_of_nat (length v)) @ v @ concat (map enc_col vs) @ rest"
    using Cons.prems(4) by (simp add: enc_col_def [of v])
  note d2 = drop_advance [OF d1]
  have len: "length b = pos + (4 + (length v + (length (concat (map enc_col vs)) + length rest)))"
    using arg_cong [OF d1, of length] Cons.prems(5) by simp
  have rd: "deserializeInt32 b pos = Inr (word_of_nat (length v), 4)"
    using int32_codec.dec_enc [OF TrueI d1] by simp
  obtain r1 where r1: "put i b (pos + 4) (word_of_nat (length v)) r = Inr r1" "good r1" "ready r1"
      "expects r1 = expects r" "cells r1 = cells r @ [x]" "finished r1 = finished r" "outside r1 = outside r"
    using put_ok [of r i "pos + 4" b v "concat (map enc_col vs) @ rest" x] Cons.prems(1-3) d2 len h0
    by auto
  have nxt: "add_size (pos + 4) (word_of_nat (length v)) = pos + 4 + length v"
    using h0(2) len Cons.prems(6) by (intro add_size_ok) simp_all
  have "\<exists>r'. row_columns put (length vs) (Suc i) b (pos + 4 + length v) r1 = Inr r' \<and> good r' \<and> ready r'
        \<and> expects r' = expects r1 \<and> cells r' = cells r1 @ xs' \<and> finished r' = finished r1
        \<and> outside r' = outside r1"
  proof (rule Cons.IH)
    show "drop (pos + 4 + length v) b = concat (map enc_col vs) @ rest"
      using drop_advance [OF d2] by simp
    show "\<forall>j < length vs. least_size (expects r1 ! (Suc i + j)) \<le> length (vs ! j) \<and> length (vs ! j) < 2 ^ 31
                     \<and> val (expects r1 ! (Suc i + j)) (vs ! j) = Inr (xs' ! j)"
    proof (intro allI impI)
      fix j
      assume "j < length vs"
      then show "least_size (expects r1 ! (Suc i + j)) \<le> length (vs ! j) \<and> length (vs ! j) < 2 ^ 31
                     \<and> val (expects r1 ! (Suc i + j)) (vs ! j) = Inr (xs' ! j)"
        using Cons.prems(8) [THEN spec, of "Suc j"] r1(4) by (simp add: xs)
    qed
  qed (use Cons.prems r1 len lxs in simp_all)
  then show ?case
    using rd r1 nxt by (auto simp: xs)
qed

lemma DataRow_enc:
  assumes "good r" and "length vs = length (expects r)" and "length vs < 2 ^ 16"
    and "accepts DataRow_mtype h (enc_row vs @ rest)" and "length (enc_row vs @ rest) < 2 ^ 64"
    and "length xs = length vs"
    and "\<forall>j < length vs. least_size (expects r ! j) \<le> length (vs ! j) \<and> length (vs ! j) < 2 ^ 31
                     \<and> val (expects r ! j) (vs ! j) = Inr (xs ! j)"
  shows "\<exists>r'. DataRow_deserialize start put h (enc_row vs @ rest) r = Inr (ec_ok, r') \<and> good r' \<and> ready r'
        \<and> expects r' = expects r \<and> cells r' = xs \<and> outside r' = outside r
        \<and> finished r' = finished r @ (if ready r then [cells r] else [])"
proof -
  let ?b = "enc_row vs @ rest"
  obtain r1 where r1: "start r = Inr r1" "good r1" "ready r1" "expects r1 = expects r" "cells r1 = []"
      "outside r1 = outside r" "finished r1 = finished r @ (if ready r then [cells r] else [])"
    using start_ok [OF assms(1)] by blast
  have "\<exists>r'. row_columns put (length vs) 0 ?b 2 r1 = Inr r' \<and> good r' \<and> ready r'
        \<and> expects r' = expects r1 \<and> cells r' = cells r1 @ xs \<and> finished r' = finished r1
        \<and> outside r' = outside r1"
    using assms r1 by (intro row_columns_enc [where rest = rest]) (simp_all add: enc_row_def)
  moreover have "deserializeInt16 ?b 0 = Inr (word_of_nat (length vs), 2)"
    using read_count [OF assms(3)] by (simp add: enc_row_def)
  ultimately show ?thesis
    using r1 assms(3) by (auto simp: DataRow_deserialize_def guarded_accepts [OF assms(4)] unat_count)
qed

end

definition decodes :: "FieldSpec list \<Rightarrow> string list \<Rightarrow> Record \<Rightarrow> bool" where
  "decodes fs vs xs \<longleftrightarrow> length vs = length fs \<and> length xs = length vs \<and>
     (\<forall>j < length vs. least_size (fs ! j) \<le> length (vs ! j) \<and> length (vs ! j) < 2 ^ 31
                     \<and> column_val (fs ! j) (vs ! j) = Inr (xs ! j))"

lemma DataRow_appends:
  assumes "rs_good r" and "decodes (rs_expects r) vs xs" and "length vs < 2 ^ 16"
    and "accepts DataRow_mtype h (enc_row vs @ rest)" and "length (enc_row vs @ rest) < 2 ^ 64"
  shows "DataRow_deserialize add_row add_column h (enc_row vs @ rest) r = Inr (ec_ok, append_row xs r)"
proof -
  have "\<exists>r'. DataRow_deserialize add_row add_column h (enc_row vs @ rest) r = Inr (ec_ok, r') \<and> rs_good r' \<and> rs_ready r'
        \<and> rs_expects r' = rs_expects r \<and> rs_cells r' = xs \<and> rs_outside r' = rs_outside r
        \<and> rs_finished r' = rs_finished r @ (if rs_ready r then [rs_cells r] else [])"
    using assms(2) by (intro rsink.DataRow_enc assms) (auto simp: decodes_def)
  then obtain r' where d: "DataRow_deserialize add_row add_column h (enc_row vs @ rest) r = Inr (ec_ok, r')"
    and r': "rs_good r'" "rs_ready r'" "rs_expects r' = rs_expects r" "rs_cells r' = xs"
      "rs_outside r' = rs_outside r"
      "rs_finished r' = rs_finished r @ (if rs_ready r then [rs_cells r] else [])"
    by (elim exE conjE)
  have "r' = append_row xs r" by (rule append_row_unique [OF assms(1) r'])
  with d show ?thesis by simp
qed

end
