(* ===== verification/Fsm.thy ===== *)
theory Fsm
  imports Conn Protocol_Roundtrip "HOL-Library.Multiset"
begin

text \<open>
  \<^verbatim>\<open>src/src/fsm.h\<close>, \<^verbatim>\<open>src/src/fsm.cpp\<close>: the protocol state machine.

  The machine is written in continuation-passing style: every call on \<open>m_con\<close> takes a lambda. The
  lambdas are the constructors of \<open>cont\<close> (with what they capture), \<open>resume\<close> is their bodies, and an
  outstanding call is an \<open>op\<close> in the list \<open>pending\<close>, in the order the calls were made.
  The record \<open>FSM\<close> holds the members \<open>m_state\<close>, \<open>m_query\<close>, \<open>m_result\<close>, \<open>m_ehandler\<close>, and with
  them the objects the pointers reach: \<open>heap\<close> (the \<open>ResultBase\<close> objects), \<open>pending\<close>, and
  \<open>calls\<close>, the log of the handlers called with their error codes.

  A handler is \<open>Some i\<close>, or \<open>None\<close> for an empty \<open>std::function\<close>, whose call throws
  \<open>bad_function_call\<close>; a \<open>std::function\<close> that has been moved from is empty, as in libstdc++, which
  the build uses (the standard leaves its state unspecified). \<open>md5\<close> is OpenSSL's digest. Handlers are called in tail position everywhere, so a call of
  the library from a handler is the next operation on the machine.
\<close>

section \<open>State\<close>

datatype State = S_AUTH | S_CONN | S_IDLE | S_QUERY | S_EQUERY | S_CLOSE | S_END

type_synonym ehandler = "nat option"

abbreviation moved_from :: ehandler where
  "moved_from \<equiv> None"

datatype cont =
    K_connect Message
  | K_then_receive
  | K_ssl_connect Message ehandler
  | K_ssl_handshake Message ehandler
  | K_local_receive ehandler
  | K_bind_written ehandler
  | K_describe_written ehandler
  | K_execute_written ehandler
  | K_parse_written ehandler
  | K_terminate_written
  | K_closed error_code
  | K_header
  | K_body Header

datatype op =
    Op_connect cont
  | Op_handshake cont
  | Op_read nat cont
  | Op_write buffer buffer cont
  | Op_close cont

record FSM =
  m_query :: "DBQuery option"
  m_result :: "nat option"
  m_ehandler :: ehandler
  m_state :: State
  heap :: "nat \<Rightarrow> ResultSet"
  pending :: "op list"
  calls :: "(nat \<times> error_code) list"

definition FSM_init :: "(nat \<Rightarrow> ResultSet) \<Rightarrow> FSM" where
  "FSM_init h = \<lparr>m_query = None, m_result = None, m_ehandler = None, m_state = S_AUTH,
                 heap = h, pending = [], calls = []\<rparr>"

definition call_handler :: "ehandler \<Rightarrow> error_code \<Rightarrow> FSM \<Rightarrow> FSM res" where
  "call_handler eh ec f =
     (case eh of None \<Rightarrow> Inl (Throw Bad_Function_Call) | Some i \<Rightarrow> Inr (f\<lparr>calls := calls f @ [(i, ec)]\<rparr>))"

definition issue :: "op \<Rightarrow> FSM \<Rightarrow> FSM" where
  "issue p f = f\<lparr>pending := pending f @ [p]\<rparr>"

text \<open>The calls \<open>m_con.read\<close> and \<open>m_con.write\<close>: their initiation runs in the caller.\<close>

definition con_read :: "nat \<Rightarrow> cont \<Rightarrow> FSM \<Rightarrow> FSM res" where
  "con_read len k f = andThen (initiate_read len) (\<lambda>len. Inr (issue (Op_read len k) f))"

definition con_write :: "Message \<Rightarrow> cont \<Rightarrow> FSM \<Rightarrow> FSM res" where
  "con_write msg k f = andThen (initiate_write msg) (\<lambda>(h, b). Inr (issue (Op_write h b k) f))"

section \<open>The interface\<close>

definition FSM_connect :: "Option \<Rightarrow> nat \<Rightarrow> FSM \<Rightarrow> FSM res" where
  "FSM_connect option eh f =
     (let f1 = f\<lparr>m_ehandler := Some eh\<rparr>
      in Inr (issue (Op_connect (K_connect (StartUp option))) f1))"

text \<open>\<open>eh\<close> is moved into \<open>m_ehandler\<close> first: the lambda captures an empty function.\<close>

definition FSM_connectSSL :: "Option \<Rightarrow> nat \<Rightarrow> FSM \<Rightarrow> FSM res" where
  "FSM_connectSSL option eh f =
     (let f1 = f\<lparr>m_ehandler := Some eh\<rparr>
      in Inr (issue (Op_connect (K_ssl_connect (StartUp option) moved_from)) f1))"

definition FSM_exec :: "string \<Rightarrow> nat option \<Rightarrow> nat \<Rightarrow> FSM \<Rightarrow> FSM res" where
  "FSM_exec q res eh f =
     (if m_state f \<noteq> S_IDLE then call_handler (Some eh) (make_error_code busy) f
      else
        (let f1 = f\<lparr>m_result := res, m_ehandler := Some eh, m_state := S_QUERY\<rparr>
         in con_write (Query q) K_then_receive f1))"

definition FSM_exec_query :: "DBQuery \<Rightarrow> nat option \<Rightarrow> nat \<Rightarrow> FSM \<Rightarrow> FSM res" where
  "FSM_exec_query q res eh f =
     (if m_state f \<noteq> S_IDLE then call_handler (Some eh) (make_error_code busy) f
      else
        (let f1 = f\<lparr>m_ehandler := Some eh, m_query := Some q, m_result := res, m_state := S_EQUERY\<rparr>
         in con_write (Bind (dbq_name q) (dbq_portal q) (dbq_bind q)) (K_bind_written moved_from) f1))"

definition FSM_parse :: "DBQuery \<Rightarrow> nat \<Rightarrow> FSM \<Rightarrow> FSM res" where
  "FSM_parse q eh f =
     (if m_state f \<noteq> S_IDLE then call_handler (Some eh) (make_error_code busy) f
      else
        (let f1 = f\<lparr>m_ehandler := Some eh, m_query := Some q, m_state := S_QUERY\<rparr>
         in con_write (Parse (dbq_name q) (dbq_query q) []) (K_parse_written moved_from) f1))"

definition FSM_close :: "nat \<Rightarrow> FSM \<Rightarrow> FSM res" where
  "FSM_close eh f =
     (let f1 = f\<lparr>m_state := S_END, m_ehandler := Some eh\<rparr>
      in con_write Terminate K_terminate_written f1)"

section \<open>Actions\<close>

definition receive :: "FSM \<Rightarrow> FSM res" where
  "receive f = con_read Header_size K_header f"

definition authenticate :: "(string \<Rightarrow> char list) \<Rightarrow> Header \<Rightarrow> buffer \<Rightarrow> FSM \<Rightarrow> FSM res" where
  "authenticate md5 head body f =
     andThen (Authentication_deserialize head body Authentication_init) (\<lambda>(ec, msg).
       if ec_bool ec then call_handler (m_ehandler f) ec f
       else if m_auth_type msg = Some AUTH_OK then receive (f\<lparr>m_state := S_CONN\<rparr>)
       else if m_auth_type msg = Some AUTH_MD5_PASSWORD then
         (let f1 = f\<lparr>m_state := S_AUTH\<rparr>
          in case m_salt msg of
               None \<Rightarrow> Inl Undefined_Behaviour
             | Some salt \<Rightarrow>
                 andThen (con_write (Password (Password_init md5 ''gptest'' ''secret'' salt)) K_then_receive f1) receive)
       else receive f)"

definition closeComplete :: "Header \<Rightarrow> buffer \<Rightarrow> FSM \<Rightarrow> FSM res" where
  "closeComplete head body f =
     andThen (CloseComplete_deserialize head body ()) (\<lambda>(ec, _).
       call_handler (m_ehandler f) ec (f\<lparr>m_state := S_END\<rparr>))"

definition authError :: "Header \<Rightarrow> buffer \<Rightarrow> FSM \<Rightarrow> FSM res" where
  "authError head body f =
     andThen (ErrorResponse_deserialize head body SQLError_init) (\<lambda>(ec, _). call_handler (m_ehandler f) ec f)"

definition rowDescription :: "Header \<Rightarrow> buffer \<Rightarrow> FSM \<Rightarrow> FSM res" where
  "rowDescription head body f =
     andThen (RowDescription_deserialize head body []) (\<lambda>(ec, fs).
       if ec_bool ec then call_handler (m_ehandler f) ec f
       else receive (case m_result f of
                       Some r \<Rightarrow> f\<lparr>heap := (heap f)(r := add_result_fields fs (heap f r))\<rparr>
                     | None \<Rightarrow> f))"

definition parameterStatus :: "Header \<Rightarrow> buffer \<Rightarrow> FSM \<Rightarrow> FSM res" where
  "parameterStatus head body f =
     andThen (ParameterStatus_deserialize head body ([], [])) (\<lambda>(ec, _).
       if ec_bool ec then call_handler (m_ehandler f) ec f else receive f)"

definition backendKeyData :: "Header \<Rightarrow> buffer \<Rightarrow> FSM \<Rightarrow> FSM res" where
  "backendKeyData head body f =
     andThen (BackendKeyData_deserialize head body (0, 0)) (\<lambda>(ec, _).
       if ec_bool ec then call_handler (m_ehandler f) ec f else receive f)"

definition readyForQuery :: "Header \<Rightarrow> buffer \<Rightarrow> FSM \<Rightarrow> FSM res" where
  "readyForQuery head body f =
     andThen (ReadyForQuery_deserialize head body NUL) (\<lambda>(ec, _).
       call_handler (m_ehandler f) ec (f\<lparr>m_state := S_IDLE\<rparr>))"

text \<open>\<open>*m_result\<close> is undefined when the pointer is null.\<close>

definition dataRow :: "Header \<Rightarrow> buffer \<Rightarrow> FSM \<Rightarrow> FSM res" where
  "dataRow head body f =
     (case m_result f of
        None \<Rightarrow> Inl Undefined_Behaviour
      | Some r \<Rightarrow>
          andThen (DataRow_deserialize add_row add_column head body (heap f r)) (\<lambda>(ec, res).
            let f1 = f\<lparr>heap := (heap f)(r := res)\<rparr>
            in if ec_bool ec then call_handler (m_ehandler f1) ec f1 else receive f1))"

definition commandComplete :: "Header \<Rightarrow> buffer \<Rightarrow> FSM \<Rightarrow> FSM res" where
  "commandComplete head body f =
     andThen (CommandComplete_deserialize head body []) (\<lambda>(ec, _).
       if ec_bool ec then call_handler (m_ehandler f) ec f else receive f)"

definition parseComplete :: "Header \<Rightarrow> buffer \<Rightarrow> FSM \<Rightarrow> FSM res" where
  "parseComplete head body f = andThen (ParseComplete_deserialize head body ()) (\<lambda>(ec, _). receive f)"

definition bindComplete :: "Header \<Rightarrow> buffer \<Rightarrow> FSM \<Rightarrow> FSM res" where
  "bindComplete head body f = andThen (BindComplete_deserialize head body ()) (\<lambda>(ec, _). receive f)"

definition parameterDescription :: "Header \<Rightarrow> buffer \<Rightarrow> FSM \<Rightarrow> FSM res" where
  "parameterDescription head body f =
     andThen (ParameterDescription_deserialize head body []) (\<lambda>(ec, oid).
       if ec_bool ec then call_handler (m_ehandler f) ec f else receive f)"

definition noticeResponse :: "Header \<Rightarrow> buffer \<Rightarrow> FSM \<Rightarrow> FSM res" where
  "noticeResponse head body f =
     andThen (NoticeResponse_deserialize head body SQLError_init) (\<lambda>(ec, _).
       if ec_bool ec then call_handler (m_ehandler f) ec f else receive f)"

definition query_error :: "Header \<Rightarrow> buffer \<Rightarrow> FSM \<Rightarrow> FSM res" where
  "query_error head body f =
     andThen (ErrorResponse_deserialize head body SQLError_init) (\<lambda>(ec, e).
       if ec_bool ec then call_handler (m_ehandler f) ec f
       else receive (case m_result f of
                       Some r \<Rightarrow> f\<lparr>heap := (heap f)(r := add_result_error e (heap f r))\<rparr>
                     | None \<Rightarrow> f))"

section \<open>The transition table\<close>

datatype Action =
    A_authenticate | A_authError | A_closeComplete | A_rowDescription | A_parameterStatus
  | A_backendKeyData | A_readyForQuery | A_dataRow | A_commandComplete | A_parseComplete
  | A_bindComplete | A_parameterDescription | A_noticeResponse | A_query_error

fun act :: "(string \<Rightarrow> char list) \<Rightarrow> Action \<Rightarrow> Header \<Rightarrow> buffer \<Rightarrow> FSM \<Rightarrow> FSM res" where
  "act md5 A_authenticate h b f = authenticate md5 h b f"
| "act md5 A_authError h b f = authError h b f"
| "act md5 A_closeComplete h b f = closeComplete h b f"
| "act md5 A_rowDescription h b f = rowDescription h b f"
| "act md5 A_parameterStatus h b f = parameterStatus h b f"
| "act md5 A_backendKeyData h b f = backendKeyData h b f"
| "act md5 A_readyForQuery h b f = readyForQuery h b f"
| "act md5 A_dataRow h b f = dataRow h b f"
| "act md5 A_commandComplete h b f = commandComplete h b f"
| "act md5 A_parseComplete h b f = parseComplete h b f"
| "act md5 A_bindComplete h b f = bindComplete h b f"
| "act md5 A_parameterDescription h b f = parameterDescription h b f"
| "act md5 A_noticeResponse h b f = noticeResponse h b f"
| "act md5 A_query_error h b f = query_error h b f"

text \<open>\<open>m_state_table\<close>: \<open>None\<close> for the states without an entry, for which \<open>at\<close> throws.\<close>

fun m_state_table :: "State \<Rightarrow> (MessageType \<times> Action) list option" where
  "m_state_table S_AUTH = Some
     [(Authentication_mtype, A_authenticate), (ErrorResponse_mtype, A_authError)]"
| "m_state_table S_CONN = Some
     [(BackendKeyData_mtype, A_backendKeyData), (ReadyForQuery_mtype, A_readyForQuery),
      (ParameterStatus_mtype, A_parameterStatus)]"
| "m_state_table S_QUERY = Some
     [(RowDescription_mtype, A_rowDescription), (DataRow_mtype, A_dataRow),
      (CommandComplete_mtype, A_commandComplete), (ParseComplete_mtype, A_parseComplete),
      (ReadyForQuery_mtype, A_readyForQuery), (NoticeResponse_mtype, A_noticeResponse),
      (ErrorResponse_mtype, A_query_error)]"
| "m_state_table S_EQUERY = Some
     [(BindComplete_mtype, A_bindComplete), (RowDescription_mtype, A_rowDescription),
      (ParameterDescription_mtype, A_parameterDescription), (DataRow_mtype, A_dataRow),
      (CommandComplete_mtype, A_commandComplete), (ReadyForQuery_mtype, A_readyForQuery),
      (NoticeResponse_mtype, A_noticeResponse), (ErrorResponse_mtype, A_query_error)]"
| "m_state_table S_CLOSE = Some [(CloseComplete_mtype, A_closeComplete)]"
| "m_state_table S_IDLE = None"
| "m_state_table S_END = None"

definition FSM_next :: "(string \<Rightarrow> char list) \<Rightarrow> MessageType \<Rightarrow> Header \<Rightarrow> buffer \<Rightarrow> FSM \<Rightarrow> FSM res" where
  "FSM_next md5 event head body f =
     (case m_state_table (m_state f) of
        None \<Rightarrow> Inl (Throw Out_Of_Range)
      | Some transition \<Rightarrow>
          (case map_of transition event of
             Some a \<Rightarrow> act md5 a head body f
           | None \<Rightarrow> receive f))"

section \<open>The bodies of the lambdas\<close>

text \<open>
  \<open>K_header\<close> stores the code of \<open>header.deserialize\<close> in \<open>er\<close> and tests \<open>ec\<close> again; \<open>er\<close> is not
  looked at. A completion of the wrong kind cannot reach a lambda: its type fixes the kind.
\<close>

fun resume :: "(string \<Rightarrow> char list) \<Rightarrow> cont \<Rightarrow> completion \<Rightarrow> FSM \<Rightarrow> FSM res" where
  "resume md5 (K_connect msg) (Done ec) f =
     (if ec_bool ec then call_handler (m_ehandler f) ec f else con_write msg K_then_receive f)"
| "resume md5 K_then_receive (Write_done ec bytes) f =
     (if ec_bool ec then call_handler (m_ehandler f) ec f else receive f)"
| "resume md5 (K_ssl_connect msg eh) (Done ec) f =
     (if ec_bool ec then call_handler eh ec f else Inr (issue (Op_handshake (K_ssl_handshake msg eh)) f))"
| "resume md5 (K_ssl_handshake msg eh) (Done ec) f =
     (if ec_bool ec then call_handler eh ec f else con_write msg (K_local_receive eh) f)"
| "resume md5 (K_local_receive eh) (Write_done ec bytes) f =
     (if ec_bool ec then call_handler eh ec f else receive f)"
| "resume md5 (K_bind_written eh) (Write_done ec bytes) f =
     (if ec_bool ec then call_handler eh ec f
      else (case m_query f of
              None \<Rightarrow> Inl Undefined_Behaviour
            | Some q \<Rightarrow> con_write (Describe (dbq_name q) (dbq_portal q)) (K_describe_written eh) f))"
| "resume md5 (K_describe_written eh) (Write_done ec bytes) f =
     (if ec_bool ec then call_handler eh ec f
      else (case m_query f of
              None \<Rightarrow> Inl Undefined_Behaviour
            | Some q \<Rightarrow> con_write (Execute (dbq_portal q)) (K_execute_written eh) f))"
| "resume md5 (K_execute_written eh) (Write_done ec bytes) f =
     (if ec_bool ec then call_handler eh ec f else con_write Sync (K_local_receive eh) f)"
| "resume md5 (K_parse_written eh) (Write_done ec bytes) f =
     (if ec_bool ec then call_handler eh ec f else con_write Sync (K_local_receive eh) f)"
| "resume md5 K_terminate_written (Write_done ec bytes) f = Inr (issue (Op_close (K_closed ec)) f)"
| "resume md5 (K_closed ec) (Done _) f = call_handler (m_ehandler f) ec f"
| "resume md5 K_header (Read_done ec bytes buf) f =
     (if ec_bool ec then call_handler (m_ehandler f) ec f
      else andThen (Header_deserialize buf Header_init) (\<lambda>(er, header).
             con_read (size_of_int (m_body_length header)) (K_body header) f))"
| "resume md5 (K_body header) (Read_done ec bytes buf) f =
     (if ec_bool ec then call_handler (m_ehandler f) ec f
      else FSM_next md5 (m_mtype header) header buf f)"
| "resume md5 _ _ f = Inr f"

fun cont_of :: "op \<Rightarrow> cont" where
  "cont_of (Op_connect k) = k"
| "cont_of (Op_handshake k) = k"
| "cont_of (Op_read _ k) = k"
| "cont_of (Op_write _ _ k) = k"
| "cont_of (Op_close k) = k"

end
