(* ===== verification/Fsm_Run.thy ===== *)
theory Fsm_Run
  imports Fsm
begin

text \<open>
  Runs of the state machine.

  Under an \<open>io_service\<close>, any outstanding operation may complete next, with any result of its kind
  (\<open>fits\<close>), and the application may call the library between completions: \<open>async_step\<close>. The
  handler of \<open>close\<close> runs inside the call, so a pending close goes first.
  Over a blocking connection a call on \<open>m_con\<close> completes before it returns: \<open>sync_step\<close> performs
  the first outstanding operation on the transport and puts what its handler issues in front of the
  rest, which is the order of the nested calls; \<open>sync_run\<close> iterates it with fuel.
\<close>

section \<open>The application's calls\<close>

datatype api =
    Api_connect Option nat
  | Api_connectSSL Option nat
  | Api_exec string "nat option" nat
  | Api_exec_query DBQuery "nat option" nat
  | Api_parse DBQuery nat
  | Api_close nat

fun api_call :: "api \<Rightarrow> FSM \<Rightarrow> FSM res" where
  "api_call (Api_connect option eh) f = FSM_connect option eh f"
| "api_call (Api_connectSSL option eh) f = FSM_connectSSL option eh f"
| "api_call (Api_exec q res eh) f = FSM_exec q res eh f"
| "api_call (Api_exec_query q res eh) f = FSM_exec_query q res eh f"
| "api_call (Api_parse q eh) f = FSM_parse q eh f"
| "api_call (Api_close eh) f = FSM_close eh f"

fun api_handler :: "api \<Rightarrow> nat" where
  "api_handler (Api_connect _ eh) = eh"
| "api_handler (Api_connectSSL _ eh) = eh"
| "api_handler (Api_exec _ _ eh) = eh"
| "api_handler (Api_exec_query _ _ eh) = eh"
| "api_handler (Api_parse _ eh) = eh"
| "api_handler (Api_close eh) = eh"

section \<open>Asynchronous runs\<close>

fun fits :: "op \<Rightarrow> completion \<Rightarrow> bool" where
  "fits (Op_connect _) (Done _) = True"
| "fits (Op_handshake _) (Done _) = True"
| "fits (Op_close _) (Done _) = True"
| "fits (Op_read n _) (Read_done _ _ buf) = (length buf = n)"
| "fits (Op_write h b _) (Write_done ec k) = (ec_bool ec \<or> k = length h + length b)"
| "fits _ _ = False"

fun immediate :: "op \<Rightarrow> bool" where
  "immediate (Op_close _) = True"
| "immediate _ = False"

definition fire :: "(string \<Rightarrow> char list) \<Rightarrow> nat \<Rightarrow> completion \<Rightarrow> FSM \<Rightarrow> FSM res" where
  "fire md5 i c f =
     resume md5 (cont_of (pending f ! i)) c (f\<lparr>pending := take i (pending f) @ drop (Suc i) (pending f)\<rparr>)"

inductive async_step :: "(string \<Rightarrow> char list) \<Rightarrow> FSM \<Rightarrow> FSM res \<Rightarrow> bool" for md5 where
  complete: "\<lbrakk> i < length (pending f); fits (pending f ! i) c;
               (\<exists>p \<in> set (pending f). immediate p) \<longrightarrow> immediate (pending f ! i) \<rbrakk>
             \<Longrightarrow> async_step md5 f (fire md5 i c f)"
| call: "\<forall>p \<in> set (pending f). \<not> immediate p \<Longrightarrow> async_step md5 f (api_call a f)"

section \<open>Blocking runs\<close>

datatype conn_class = Plain | Tls

fun perform :: "'s asio \<Rightarrow> conn_class \<Rightarrow> op \<Rightarrow> 's \<Rightarrow> (completion \<times> 's) res" where
  "perform io Plain (Op_connect _) s = Connection_connect io s"
| "perform io Tls (Op_connect _) s = SSLConnection_connect io s"
| "perform io Plain (Op_handshake _) s = Inr (ConnectionBase_handshake, s)"
| "perform io Tls (Op_handshake _) s = SSLConnection_handshake io s"
| "perform io Plain (Op_read n _) s = Connection_read io n s"
| "perform io Tls (Op_read n _) s = SSLConnection_read io n s"
| "perform io _ (Op_write h b _) s =
     (case asyncWrite_complete (aio_write io) h b s of ((ec, bytes), s') \<Rightarrow> Inr (Write_done ec bytes, s'))"
| "perform io Plain (Op_close _) s = Connection_close io s"
| "perform io Tls (Op_close _) s = SSLConnection_close io s"

text \<open>The two stages of a write, its start at the call and its completion, are \<open>Connection::write\<close>.\<close>

lemma perform_write:
  "andThen (initiate_write msg) (\<lambda>(h, b). perform io cl (Op_write h b k) s) = Connection_write io msg s"
  by (auto simp: Connection_write_def syncWrite_def async_complete_sync andThen_def split: sum.splits prod.splits)

definition sync_step ::
  "(string \<Rightarrow> char list) \<Rightarrow> 's asio \<Rightarrow> conn_class \<Rightarrow> op \<Rightarrow> op list \<Rightarrow> FSM \<times> 's \<Rightarrow> (FSM \<times> 's) res" where
  "sync_step md5 io cl p ops fs =
     (case fs of (f, s) \<Rightarrow>
        andThen (perform io cl p s) (\<lambda>(c, s').
        andThen (resume md5 (cont_of p) c (f\<lparr>pending := []\<rparr>)) (\<lambda>f'.
          Inr (f'\<lparr>pending := pending f' @ ops\<rparr>, s'))))"

fun sync_run ::
  "(string \<Rightarrow> char list) \<Rightarrow> 's asio \<Rightarrow> conn_class \<Rightarrow> nat \<Rightarrow> FSM \<times> 's \<Rightarrow> (FSM \<times> 's) res option" where
  "sync_run md5 io cl fuel fs =
     (case pending (fst fs) of
        [] \<Rightarrow> Some (Inr fs)
      | p # ops \<Rightarrow>
          (case fuel of
             0 \<Rightarrow> None
           | Suc n \<Rightarrow>
               (case sync_step md5 io cl p ops fs of
                  Inl e \<Rightarrow> Some (Inl e)
                | Inr fs' \<Rightarrow> sync_run md5 io cl n fs')))"

declare sync_run.simps [simp del]

section \<open>Sessions\<close>

text \<open>
  A session is a run in which the application connects once, before anything else, and closes only
  when nothing is outstanding, in which the server does not ask for an MD5 password, and in which
  nothing throws so far: an exception leaves \<open>io_service::run\<close> or the call, and the run ends there.
  The step that throws is not part of the session; what it does is stated of the session before it
  (\<open>fire\<close> at that state, see \<open>handlers_exactly_once\<close>). The second component records the handlers the
  application passed, in order.
\<close>

definition md5_request :: "cont \<Rightarrow> completion \<Rightarrow> bool" where
  "md5_request k c =
     (case (k, c) of
        (K_body h, Read_done ec n buf) \<Rightarrow>
          m_mtype h = Authentication_mtype \<and> (\<exists>l. deserializeInt32 buf 0 = Inr (AUTH_MD5_PASSWORD, l))
      | _ \<Rightarrow> False)"

fun allowed :: "api \<Rightarrow> FSM \<Rightarrow> nat list \<Rightarrow> bool" where
  "allowed (Api_connect _ _) f ids = (ids = [])"
| "allowed (Api_connectSSL _ _) f ids = (ids = [])"
| "allowed (Api_close _) f ids = (pending f = [])"
| "allowed _ f ids = True"

inductive session :: "(string \<Rightarrow> char list) \<Rightarrow> (nat \<Rightarrow> ResultSet) \<Rightarrow> FSM \<Rightarrow> nat list \<Rightarrow> bool" for md5 h where
  start: "session md5 h (FSM_init h) []"
| complete: "\<lbrakk> session md5 h f ids; i < length (pending f); fits (pending f ! i) c;
               \<not> md5_request (cont_of (pending f ! i)) c; fire md5 i c f = Inr f' \<rbrakk>
             \<Longrightarrow> session md5 h f' ids"
| call: "\<lbrakk> session md5 h f ids; allowed a f ids; api_call a f = Inr f' \<rbrakk>
         \<Longrightarrow> session md5 h f' (ids @ [api_handler a])"

text \<open>
  The code a completion carries; the lambdas that captured the application's handler after it had
  been moved into \<open>m_ehandler\<close>, so that they hold an empty function; and the lambdas that report a
  failure to \<open>m_ehandler\<close>. The two of \<open>close\<close> are neither: a failed \<open>Terminate\<close> still closes.
\<close>

fun code_of :: "completion \<Rightarrow> error_code" where
  "code_of (Done ec) = ec"
| "code_of (Read_done ec _ _) = ec"
| "code_of (Write_done ec _) = ec"

fun loses_handler :: "cont \<Rightarrow> bool" where
  "loses_handler (K_ssl_connect _ _) = True"
| "loses_handler (K_ssl_handshake _ _) = True"
| "loses_handler (K_local_receive _) = True"
| "loses_handler (K_bind_written _) = True"
| "loses_handler (K_describe_written _) = True"
| "loses_handler (K_execute_written _) = True"
| "loses_handler (K_parse_written _) = True"
| "loses_handler _ = False"

fun reports_failure :: "cont \<Rightarrow> bool" where
  "reports_failure (K_connect _) = True"
| "reports_failure K_then_receive = True"
| "reports_failure K_header = True"
| "reports_failure (K_body _) = True"
| "reports_failure _ = False"

definition listening :: "State \<Rightarrow> bool" where
  "listening s \<longleftrightarrow> s = S_AUTH \<or> s = S_CONN \<or> s = S_QUERY \<or> s = S_EQUERY"

fun op_ok :: "State \<Rightarrow> op \<Rightarrow> bool" where
  "op_ok s (Op_connect (K_connect _)) = (s = S_AUTH)"
| "op_ok s (Op_connect (K_ssl_connect _ eh)) = (s = S_AUTH \<and> eh = moved_from)"
| "op_ok s (Op_handshake (K_ssl_handshake _ eh)) = (s = S_AUTH \<and> eh = moved_from)"
| "op_ok s (Op_write _ _ K_then_receive) = listening s"
| "op_ok s (Op_write _ _ (K_local_receive eh)) = (listening s \<and> eh = moved_from)"
| "op_ok s (Op_write _ _ (K_bind_written eh)) = (s = S_EQUERY \<and> eh = moved_from)"
| "op_ok s (Op_write _ _ (K_describe_written eh)) = (s = S_EQUERY \<and> eh = moved_from)"
| "op_ok s (Op_write _ _ (K_execute_written eh)) = (s = S_EQUERY \<and> eh = moved_from)"
| "op_ok s (Op_write _ _ (K_parse_written eh)) = (s = S_QUERY \<and> eh = moved_from)"
| "op_ok s (Op_write _ _ K_terminate_written) = (s = S_END)"
| "op_ok s (Op_close (K_closed _)) = (s = S_END)"
| "op_ok s (Op_read n K_header) = (listening s \<and> n = Header_size)"
| "op_ok s (Op_read n (K_body _)) = listening s"
| "op_ok s _ = False"

definition fsm_inv :: "FSM \<Rightarrow> nat list \<Rightarrow> bool" where
  "fsm_inv f ids \<longleftrightarrow>
     (ids = [] \<longrightarrow> m_state f = S_AUTH \<and> pending f = []) \<and>
     (pending f = [] \<or> (\<exists>p eh. pending f = [p] \<and> op_ok (m_state f) p \<and> m_ehandler f = Some eh)) \<and>
     mset (map fst (calls f)) + (if pending f = [] then {#} else {# the (m_ehandler f) #}) = mset ids"

text \<open>
  What a lambda or an action of an idle machine (nothing outstanding) with handler \<open>h\<close> does: it
  issues one operation and calls no handler, or calls \<open>h\<close> once and issues nothing.
\<close>

definition advances :: "nat \<Rightarrow> FSM \<Rightarrow> FSM \<Rightarrow> bool" where
  "advances h f f' \<longleftrightarrow>
     m_ehandler f' = Some h \<and>
     ((\<exists>p. pending f' = [p] \<and> op_ok (m_state f') p \<and> calls f' = calls f) \<or>
      (pending f' = [] \<and> (\<exists>ec. calls f' = calls f @ [(h, ec)])))"

lemma receive_eq: "receive f = Inr (issue (Op_read Header_size K_header) f)"
  by (simp add: receive_def con_read_def initiate_read_def Header_size_def max_alloc_def)

lemmas advance_simps = receive_eq call_handler_def advances_def issue_def

lemma con_write_Inr: "con_write msg k f = Inr f' \<Longrightarrow> \<exists>hb bb. f' = issue (Op_write hb bb k) f"
  by (auto simp: con_write_def andThen_eq_Inr)

lemma con_read_Inr: "con_read n k f = Inr f' \<Longrightarrow> f' = issue (Op_read n k) f"
  by (auto simp: con_read_def andThen_eq_Inr initiate_read_def split: if_splits)

lemmas listening_simps [simp] =
  listening_def [of S_AUTH, simplified] listening_def [of S_CONN, simplified] listening_def [of S_QUERY, simplified]
  listening_def [of S_EQUERY, simplified] listening_def [of S_IDLE, simplified] listening_def [of S_END, simplified]
  listening_def [of S_CLOSE, simplified]

lemma call_None [simp]: "call_handler None ec f = Inl (Throw Bad_Function_Call)"
  by (simp add: call_handler_def)

section \<open>Every action advances\<close>

lemmas action_defs =
  authError_def closeComplete_def rowDescription_def parameterStatus_def backendKeyData_def
  readyForQuery_def dataRow_def commandComplete_def parseComplete_def bindComplete_def
  parameterDescription_def noticeResponse_def query_error_def

lemma authenticate_advances:
  assumes f: "pending f = []" "m_ehandler f = Some h" "m_state f = S_AUTH"
    and no_md5: "\<not> (\<exists>l. deserializeInt32 b 0 = Inr (AUTH_MD5_PASSWORD, l))"
    and t: "m_mtype hdr = Authentication_mtype"
    and r: "authenticate md5 hdr b f = Inr f'"
  shows "advances h f f'"
proof -
  from r obtain ec msg where d: "Authentication_deserialize hdr b Authentication_init = Inr (ec, msg)"
    by (auto simp: authenticate_def andThen_eq_Inr)
  have "\<not> ec_bool ec \<Longrightarrow> m_auth_type msg \<noteq> Some AUTH_MD5_PASSWORD"
    using d no_md5 t
    by (auto simp: Authentication_deserialize_def guarded_def andThen_eq_Inr Let_def AUTH_MD5_PASSWORD_def
        split: if_splits)
  then show ?thesis
    using r d f
    by (auto simp: authenticate_def advance_simps split: if_splits)
qed

lemma action_advances:
  assumes f: "pending f = []" "m_ehandler f = Some h" "listening (m_state f)"
    and a: "a \<noteq> A_authenticate" and r: "act md5 a hdr b f = Inr f'"
  shows "advances h f f'"
  using f r a
  by (cases a)
    (auto simp: action_defs andThen_eq_Inr Let_def advance_simps split: if_splits option.splits)

lemma next_advances:
  assumes f: "pending f = []" "m_ehandler f = Some h" "listening (m_state f)"
    and no_md5: "t = Authentication_mtype \<Longrightarrow> \<not> (\<exists>l. deserializeInt32 b 0 = Inr (AUTH_MD5_PASSWORD, l))"
    and t: "m_mtype hdr = t" and r: "FSM_next md5 t hdr b f = Inr f'"
  shows "advances h f f'"
proof -
  obtain tr where tr: "m_state_table (m_state f) = Some tr"
    using f(3) by (auto simp: listening_def)
  show ?thesis
  proof (cases "map_of tr t")
    case None
    then show ?thesis using r tr f by (auto simp: FSM_next_def advance_simps)
  next
    case (Some a)
    show ?thesis
    proof (cases "a = A_authenticate")
      case True
      have s: "m_state f = S_AUTH \<and> t = Authentication_mtype"
        using True Some tr by (cases "m_state f") (auto simp: mtype_defs split: if_splits)
      then have "authenticate md5 hdr b f = Inr f'"
        using r tr Some True by (simp add: FSM_next_def)
      then show ?thesis using f s no_md5 t by (intro authenticate_advances) auto
    next
      case False
      then show ?thesis
        using action_advances [OF f False] r tr Some by (simp add: FSM_next_def)
    qed
  qed
qed

lemma body_advances:
  assumes f: "pending f = []" "m_ehandler f = Some h" and l: "listening (m_state f)"
    and no_md5: "\<not> md5_request (K_body hdr) (Read_done ec k buf)"
    and r: "resume md5 (K_body hdr) (Read_done ec k buf) f = Inr f'"
  shows "advances h f f'"
proof (cases "ec_bool ec")
  case True
  then show ?thesis using r f by (auto simp: advance_simps)
next
  case False
  then have "FSM_next md5 (m_mtype hdr) hdr buf f = Inr f'" using r by simp
  then show ?thesis
    using f l no_md5 by (intro next_advances [where t = "m_mtype hdr"]) (auto simp: md5_request_def)
qed

lemma resume_advances:
  assumes f: "pending f = []" "m_ehandler f = Some h" and p: "op_ok (m_state f) p" and c: "fits p c"
    and no_md5: "\<not> md5_request (cont_of p) c" and r: "resume md5 (cont_of p) c f = Inr f'"
  shows "advances h f f'"
proof (cases "\<exists>n hdr ec k buf. p = Op_read n (K_body hdr) \<and> c = Read_done ec k buf")
  case True
  then show ?thesis using body_advances f p no_md5 r by fastforce
next
  case False
  show ?thesis
    using p c f r False
    by (cases "(m_state f, p)" rule: op_ok.cases; cases c)
      (auto simp: advance_simps andThen_eq_Inr dest!: con_write_Inr con_read_Inr split: if_splits option.splits)
qed

end
