(* ===== verification/DbConnection.thy ===== *)
theory DbConnection
  imports Fsm_Run
begin

text \<open>
  \<^verbatim>\<open>src/src/dbconnection.h\<close>, \<^verbatim>\<open>src/src/dbconnection.cpp\<close>: the application's \<open>Connection\<close>
  (blocking) and \<open>AsyncConnection\<close>. Both own a connection and a state machine, created by
  \<open>connect\<close>; before that the pointers are null and a call is undefined behaviour.

  A blocking call passes a handler that stores the code in the local \<open>er\<close>, runs the machine until
  it returns (\<open>sync_run\<close>, with fuel) and returns \<open>er\<close>: the code of the last handler call made
  during the run, or the default \<open>error_code()\<close> when there was none.
\<close>

datatype endpoint = Local_Endpoint string | Tcp_Endpoint string nat

record DbConn =
  db_class :: "conn_class option"
  db_endpoint :: "endpoint option"
  db_sslmode :: "SSLMode option"
  m_fsm :: "FSM option"

definition DbConn_init :: DbConn where
  "DbConn_init = \<lparr>db_class = None, db_endpoint = None, db_sslmode = None, m_fsm = None\<rparr>"

definition er_of :: "nat \<Rightarrow> FSM \<Rightarrow> error_code" where
  "er_of n f = (let cs = drop n (calls f) in if cs = [] then ec_ok else snd (last cs))"

text \<open>Handler 0 stands for the lambda of the call in progress.\<close>

definition blocking_call ::
  "(string \<Rightarrow> char list) \<Rightarrow> 's asio \<Rightarrow> nat \<Rightarrow> (FSM \<Rightarrow> FSM res) \<Rightarrow> DbConn \<Rightarrow> 's
   \<Rightarrow> (error_code \<times> DbConn \<times> 's) res option" where
  "blocking_call md5 io fuel call c s =
     (case (m_fsm c, db_class c) of
        (Some f, Some cl) \<Rightarrow>
          (case call f of
             Inl e \<Rightarrow> Some (Inl e)
           | Inr f1 \<Rightarrow>
               (case sync_run md5 io cl fuel (f1, s) of
                  None \<Rightarrow> None
                | Some (Inl e) \<Rightarrow> Some (Inl e)
                | Some (Inr (f2, s')) \<Rightarrow>
                    Some (Inr (er_of (length (calls f)) f2, c\<lparr>m_fsm := Some f2\<rparr>, s'))))
      | _ \<Rightarrow> Some (Inl Undefined_Behaviour))"

definition Db_connect ::
  "(string \<Rightarrow> char list) \<Rightarrow> 's asio \<Rightarrow> nat \<Rightarrow> Option \<Rightarrow> (nat \<Rightarrow> ResultSet) \<Rightarrow> DbConn \<Rightarrow> 's
   \<Rightarrow> (error_code \<times> DbConn \<times> 's) res option" where
  "Db_connect md5 io fuel option h c s =
     (let ep = Local_Endpoint ''/var/run/postgresql/.s.PGSQL.5432'';
          c1 = c\<lparr>db_class := Some Plain, db_endpoint := Some ep, m_fsm := Some (FSM_init h)\<rparr>
      in blocking_call md5 io fuel (FSM_connect option 0) c1 s)"

definition Db_connectSSL ::
  "(string \<Rightarrow> char list) \<Rightarrow> 's asio \<Rightarrow> nat \<Rightarrow> Option \<Rightarrow> (nat \<Rightarrow> ResultSet) \<Rightarrow> DbConn \<Rightarrow> 's
   \<Rightarrow> (error_code \<times> DbConn \<times> 's) res option" where
  "Db_connectSSL md5 io fuel option h c s =
     (let ep = Tcp_Endpoint ''127.0.0.1'' 5432;
          c1 = c\<lparr>db_class := Some Tls, db_endpoint := Some ep, db_sslmode := Some (getSSLMode option), m_fsm := Some (FSM_init h)\<rparr>
      in blocking_call md5 io fuel (FSM_connectSSL option 0) c1 s)"

definition Db_exec ::
  "(string \<Rightarrow> char list) \<Rightarrow> 's asio \<Rightarrow> nat \<Rightarrow> string \<Rightarrow> nat \<Rightarrow> DbConn \<Rightarrow> 's \<Rightarrow> (error_code \<times> DbConn \<times> 's) res option" where
  "Db_exec md5 io fuel q res c s = blocking_call md5 io fuel (FSM_exec q (Some res) 0) c s"

definition Db_exec_query ::
  "(string \<Rightarrow> char list) \<Rightarrow> 's asio \<Rightarrow> nat \<Rightarrow> DBQuery \<Rightarrow> nat \<Rightarrow> DbConn \<Rightarrow> 's \<Rightarrow> (error_code \<times> DbConn \<times> 's) res option" where
  "Db_exec_query md5 io fuel q res c s = blocking_call md5 io fuel (FSM_exec_query q (Some res) 0) c s"

definition Db_prepare ::
  "(string \<Rightarrow> char list) \<Rightarrow> 's asio \<Rightarrow> nat \<Rightarrow> DBQuery \<Rightarrow> DbConn \<Rightarrow> 's \<Rightarrow> (error_code \<times> DbConn \<times> 's) res option" where
  "Db_prepare md5 io fuel q c s = blocking_call md5 io fuel (FSM_parse q 0) c s"

definition Db_close ::
  "(string \<Rightarrow> char list) \<Rightarrow> 's asio \<Rightarrow> nat \<Rightarrow> DbConn \<Rightarrow> 's \<Rightarrow> (error_code \<times> DbConn \<times> 's) res option" where
  "Db_close md5 io fuel c s = blocking_call md5 io fuel (FSM_close 0) c s"

section \<open>AsyncConnection\<close>

definition forward :: "(FSM \<Rightarrow> FSM res) \<Rightarrow> DbConn \<Rightarrow> DbConn res" where
  "forward call c =
     (case m_fsm c of
        None \<Rightarrow> Inl Undefined_Behaviour
      | Some f \<Rightarrow> andThen (call f) (\<lambda>f'. Inr (c\<lparr>m_fsm := Some f'\<rparr>)))"

definition AsyncConnection_create :: DbConn where
  "AsyncConnection_create = DbConn_init"

definition Async_connect :: "Option \<Rightarrow> nat \<Rightarrow> (nat \<Rightarrow> ResultSet) \<Rightarrow> DbConn \<Rightarrow> DbConn res" where
  "Async_connect option eh h c =
     (let ep = Local_Endpoint ''/var/run/postgresql/.s.PGSQL.5432''
      in forward (FSM_connect option eh)
           (c\<lparr>db_class := Some Plain, db_endpoint := Some ep, m_fsm := Some (FSM_init h)\<rparr>))"

definition Async_connectSSL :: "Option \<Rightarrow> nat \<Rightarrow> (nat \<Rightarrow> ResultSet) \<Rightarrow> DbConn \<Rightarrow> DbConn res" where
  "Async_connectSSL option eh h c =
     (let ep = Tcp_Endpoint ''127.0.0.1'' 5432
      in forward (FSM_connectSSL option eh)
           (c\<lparr>db_class := Some Tls, db_endpoint := Some ep, db_sslmode := Some (getSSLMode option), m_fsm := Some (FSM_init h)\<rparr>))"

definition Async_exec :: "string \<Rightarrow> nat \<Rightarrow> nat \<Rightarrow> DbConn \<Rightarrow> DbConn res" where
  "Async_exec q res eh c = forward (FSM_exec q (Some res) eh) c"

definition Async_close :: "nat \<Rightarrow> DbConn \<Rightarrow> DbConn res" where
  "Async_close eh c = forward (FSM_close eh) c"

end
