(* ===== verification/Blocking.thy ===== *)
theory Blocking
  imports DbConnection
begin

text \<open>
  Blocking conversations, end to end: bytes from the server, through the connection, the parsers and
  the state machine, into the application's result object.

  \<open>reliable io net\<close> says what a healthy stream does, as asio documents it. \<open>net s = (rx, tx)\<close> are the
  bytes the peer has sent and that are not read yet, and the bytes written so far: \<open>asio::read\<close>
  returns the next \<open>n\<close> bytes of \<open>rx\<close> when there are that many, \<open>asio::write\<close> transfers everything.
  The server's replies are written as frames.
\<close>

definition reliable :: "'s asio \<Rightarrow> ('s \<Rightarrow> buffer \<times> buffer) \<Rightarrow> bool" where
  "reliable io net \<longleftrightarrow>
     (\<forall>n s rx tx. net s = (rx, tx) \<and> n \<le> length rx \<longrightarrow>
        (\<exists>s'. aio_read io n s = (ec_ok, take n rx, s') \<and> net s' = (drop n rx, tx))) \<and>
     (\<forall>b s rx tx. net s = (rx, tx) \<longrightarrow> (\<exists>s'. aio_write io b s = (ec_ok, length b, s') \<and> net s' = (rx, tx @ b))) \<and>
     (\<forall>s. \<exists>s'. aio_connect io s = (ec_ok, s') \<and> net s' = net s) \<and>
     (\<forall>s. \<exists>s'. aio_close io s = (ec_ok, s') \<and> net s' = net s)"

text \<open>A stream that plays back a script: the state is what is unread and what was written.\<close>

definition script_eof :: error_code where
  "script_eof = \<lparr>ec_value = 2, ec_category = Other_Category ''asio.misc''\<rparr>"

definition script_io :: "(buffer \<times> buffer) asio" where
  "script_io = \<lparr>
     aio_connect = (\<lambda>s. (ec_ok, s)),
     aio_read = (\<lambda>n (rx, tx). if n \<le> length rx then (ec_ok, take n rx, (drop n rx, tx)) else (script_eof, rx, ([], tx))),
     aio_write = (\<lambda>b (rx, tx). (ec_ok, length b, (rx, tx @ b))),
     aio_close = (\<lambda>s. (ec_ok, s)),
     raw_read = (\<lambda>n (rx, tx). if n \<le> length rx then (ec_ok, take n rx, (drop n rx, tx)) else (script_eof, rx, ([], tx))),
     raw_write = (\<lambda>b (rx, tx). (ec_ok, length b, (rx, tx @ b))),
     tls_handshake = (\<lambda>s. (ec_ok, s))\<rparr>"

lemma script_reliable: "reliable script_io id"
  by (auto simp: reliable_def script_io_def)

definition frame :: "MessageType \<Rightarrow> buffer \<Rightarrow> buffer" where
  "frame t body = t # be32 (word_of_nat (length body + 4)) @ body"

definition header_of :: "MessageType \<Rightarrow> buffer \<Rightarrow> Header" where
  "header_of t body = \<lparr>m_mtype = t, m_body_length = word_of_nat (length body)\<rparr>"

definition waiting :: "FSM \<Rightarrow> FSM" where
  "waiting f = f\<lparr>pending := [Op_read Header_size K_header]\<rparr>"

definition steps_to ::
  "(string \<Rightarrow> char list) \<Rightarrow> 's asio \<Rightarrow> conn_class \<Rightarrow> FSM \<times> 's \<Rightarrow> FSM \<times> 's \<Rightarrow> bool" where
  "steps_to md5 io cl fs fs' \<longleftrightarrow>
     (\<exists>p ops. pending (fst fs) = p # ops \<and> sync_step md5 io cl p ops fs = Inr fs')"

abbreviation runs_to ::
  "(string \<Rightarrow> char list) \<Rightarrow> 's asio \<Rightarrow> conn_class \<Rightarrow> FSM \<times> 's \<Rightarrow> FSM \<times> 's \<Rightarrow> bool" where
  "runs_to md5 io cl \<equiv> (steps_to md5 io cl)\<^sup>*\<^sup>*"

section \<open>Runs and fuel\<close>

lemma sync_run_step: "steps_to md5 io cl fs fs' \<Longrightarrow> sync_run md5 io cl (Suc n) fs = sync_run md5 io cl n fs'"
  by (subst sync_run.simps) (auto simp: steps_to_def)

lemma sync_run_done: "pending (fst fs) = [] \<Longrightarrow> sync_run md5 io cl n fs = Some (Inr fs)"
  by (subst sync_run.simps) simp

lemma sync_run_of_runs:
  "runs_to md5 io cl fs fs' \<Longrightarrow> pending (fst fs') = [] \<Longrightarrow> \<exists>m. \<forall>n \<ge> m. sync_run md5 io cl n fs = Some (Inr fs')"
proof (induction rule: converse_rtranclp_induct)
  case base
  then show ?case by (auto simp: sync_run_done)
next
  case (step fs fs1)
  then obtain m where m: "\<forall>n \<ge> m. sync_run md5 io cl n fs1 = Some (Inr fs')" by blast
  have "sync_run md5 io cl n fs = Some (Inr fs')" if "Suc m \<le> n" for n
    using m sync_run_step [OF step.hyps(1), of "n - 1"] that by (cases n) auto
  then show ?case by blast
qed

section \<open>Delivering one frame\<close>

lemma fsm_pending_twice [simp]: "f\<lparr>pending := x, pending := y\<rparr> = f\<lparr>pending := y\<rparr>"
  by simp

lemma header_of_frame:
  assumes "length body < 2 ^ 31 - 4"
  shows "Header_deserialize (take 5 (frame t body @ rest)) Header_init = Inr (ec_ok, header_of t body)"
proof -
  define n :: int32 where "n = word_of_nat (length body + 4)"
  have s: "sint n = int (length body) + 4"
    using assms sint_of_nat32 [of "length body + 4"] by (simp only: n_def)
  have "take 5 (frame t body @ rest) = t # be32 n @ []" by (simp add: frame_def n_def)
  moreover have "Header_deserialize (t # be32 n @ []) Header_init =
      Inr (ec_ok, Header_init\<lparr>m_mtype := t, m_body_length := word_of_int (sint n - 4)\<rparr>)"
    by (rule Header_deserialize_eq) (simp add: s)
  ultimately show ?thesis
    by (simp add: s header_of_def Header_init_def)
qed

lemma Connection_read_reliable:
  assumes "reliable io net" and "net s = (rx, out)" and "n \<le> length rx" and "n \<le> max_alloc"
  shows "\<exists>s'. Connection_read io n s = Inr (Read_done ec_ok n (take n rx), s') \<and> net s' = (drop n rx, out)"
proof -
  obtain s' where "aio_read io n s = (ec_ok, take n rx, s')" "net s' = (drop n rx, out)"
    using assms unfolding reliable_def by blast
  then show ?thesis
    using assms(3,4) by (auto simp: Connection_read_def initiate_read_def)
qed

lemma deliver:
  assumes io: "reliable io net" and b: "length body < 2 ^ 31 - 4"
    and s: "net s = (frame t body @ rest, out)"
    and nx: "FSM_next md5 t (header_of t body) body (f\<lparr>pending := []\<rparr>) = Inr f'"
  shows "\<exists>s'. runs_to md5 io cl (waiting f, s) (f', s') \<and> net s' = (rest, out)"
proof -
  let ?h = "header_of t body"
  let ?f1 = "f\<lparr>pending := [Op_read (length body) (K_body ?h)]\<rparr>"
  have n5: "(5::nat) \<le> max_alloc" and nb: "length body \<le> max_alloc" using b by (simp_all add: max_alloc_def)
  obtain s1 where s1: "Connection_read io 5 s = Inr (Read_done ec_ok 5 (take 5 (frame t body @ rest)), s1)" "net s1 = (body @ rest, out)"
    using Connection_read_reliable [OF io s, of 5] n5 by (auto simp: frame_def)
  have sz: "size_of_int (m_body_length ?h) = length body"
    using b by (simp add: header_of_def size_of_int_of_nat)
  have "resume md5 K_header (Read_done ec_ok 5 (take 5 (frame t body @ rest))) (f\<lparr>pending := []\<rparr>) = Inr ?f1"
    using header_of_frame [OF b, of t rest] nb
    by (simp add: sz con_read_def initiate_read_def issue_def)
  then have one: "steps_to md5 io cl (waiting f, s) (?f1, s1)"
    using s1 by (cases cl) (simp_all add: steps_to_def sync_step_def waiting_def Header_size_def SSLConnection_eq)
  obtain s2 where s2: "Connection_read io (length body) s1 = Inr (Read_done ec_ok (length body) body, s2)" "net s2 = (rest, out)"
    using Connection_read_reliable [OF io s1(2), of "length body"] nb by auto
  have "resume md5 (K_body ?h) (Read_done ec_ok (length body) body) (f\<lparr>pending := []\<rparr>) = Inr f'"
    using nx by (simp add: header_of_def)
  then have two: "steps_to md5 io cl (?f1, s1) (f', s2)"
    using s2 by (cases cl) (simp_all add: steps_to_def sync_step_def SSLConnection_eq)
  have "runs_to md5 io cl (waiting f, s) (f', s2)"
    by (rule converse_rtranclp_into_rtranclp [OF one r_into_rtranclp [where r = "steps_to md5 io cl", OF two]])
  with s2(2) show ?thesis by blast
qed

lemma accepts_header_of: "length body < 2 ^ 31 \<Longrightarrow> accepts t (header_of t body) body"
  by (simp add: accepts_def header_of_def size_of_int_of_nat)

lemma deliver_then:
  assumes io: "reliable io net" and b: "length body < 2 ^ 31 - 4"
    and s: "net s = (frame t body @ rest, out)"
    and nx: "FSM_next md5 t (header_of t body) body (f\<lparr>pending := []\<rparr>) = Inr (waiting f')"
    and go: "\<And>s'. net s' = (rest, out) \<Longrightarrow> \<exists>s''. runs_to md5 io cl (waiting f', s') (g, s'') \<and> net s'' = (rest', out)"
  shows "\<exists>s''. runs_to md5 io cl (waiting f, s) (g, s'') \<and> net s'' = (rest', out)"
proof -
  obtain s' where s': "runs_to md5 io cl (waiting f, s) (waiting f', s')" "net s' = (rest, out)"
    using deliver [OF io b s nx] by blast
  obtain s'' where s'': "runs_to md5 io cl (waiting f', s') (g, s'')" "net s'' = (rest', out)"
    using go [OF s'(2)] by blast
  show ?thesis using rtranclp_trans [OF s'(1) s''(1)] s''(2) by blast
qed

section \<open>What each reply does to the machine\<close>

definition running :: "FSM \<Rightarrow> bool" where
  "running f \<longleftrightarrow> m_state f = S_QUERY \<or> m_state f = S_EQUERY"

definition set_result :: "nat \<Rightarrow> ResultSet \<Rightarrow> FSM \<Rightarrow> FSM" where
  "set_result r res f = f\<lparr>heap := (heap f)(r := res)\<rparr>"

definition finished_call :: "nat \<Rightarrow> FSM \<Rightarrow> FSM" where
  "finished_call h f = f\<lparr>pending := [], m_state := S_IDLE, calls := calls f @ [(h, ec_ok)]\<rparr>"

lemma receive_waiting: "receive (f\<lparr>pending := []\<rparr>) = Inr (waiting f)"
  by (simp add: receive_eq issue_def waiting_def)

lemma set_result_simps [simp]:
  "m_state (set_result r x f) = m_state f" "m_result (set_result r x f) = m_result f"
  "m_ehandler (set_result r x f) = m_ehandler f" "heap (set_result r x f) r = x"
  "calls (set_result r x f) = calls f" "m_query (set_result r x f) = m_query f"
  "set_result r y (set_result r x f) = set_result r y f" "running (set_result r x f) = running f"
  by (simp_all add: set_result_def running_def)

lemma set_result_same [simp]: "set_result r (heap f r) f = f"
  by (simp add: set_result_def)

lemma next_RowDescription:
  assumes "running f" "m_result f = Some r" "length fs < 2 ^ 16" "list_all valid_field fs"
    "length (enc_fields fs) < 2 ^ 31"
  shows "FSM_next md5 RowDescription_mtype (header_of RowDescription_mtype (enc_fields fs)) (enc_fields fs) (f\<lparr>pending := []\<rparr>)
         = Inr (waiting (set_result r (add_result_fields fs (heap f r)) f))"
  using assms RowDescription_enc [OF assms(3,4), of "header_of RowDescription_mtype (enc_fields fs)" "[]" "[]"]
    accepts_header_of [OF assms(5)]
  by (auto simp: FSM_next_def running_def mtype_defs rowDescription_def receive_eq issue_def waiting_def set_result_def)

lemma next_DataRow:
  assumes "running f" "m_result f = Some r" "rs_good (heap f r)" "decodes (rs_expects (heap f r)) vs xs"
    "length vs < 2 ^ 16" "length (enc_row vs) < 2 ^ 31"
  shows "FSM_next md5 DataRow_mtype (header_of DataRow_mtype (enc_row vs)) (enc_row vs) (f\<lparr>pending := []\<rparr>)
         = Inr (waiting (set_result r (append_row xs (heap f r)) f))"
  using assms DataRow_appends [OF assms(3,4,5), of "header_of DataRow_mtype (enc_row vs)" "[]"]
    accepts_header_of [OF assms(6)]
  by (auto simp: FSM_next_def running_def mtype_defs dataRow_def receive_eq issue_def waiting_def set_result_def)

lemma next_CommandComplete:
  assumes "running f" "NUL \<notin> set tag" "length (cstr tag) < 2 ^ 31"
  shows "FSM_next md5 CommandComplete_mtype (header_of CommandComplete_mtype (cstr tag)) (cstr tag) (f\<lparr>pending := []\<rparr>)
         = Inr (waiting f)"
proof -
  have "CommandComplete_deserialize (header_of CommandComplete_mtype (cstr tag)) (cstr tag) [] = Inr (ec_ok, tag)"
    using string_codec.dec_front [OF assms(2), of "[]"]
    by (simp add: CommandComplete_deserialize_def guarded_accepts [OF accepts_header_of [OF assms(3)]])
  then show ?thesis
    using assms(1) by (auto simp: FSM_next_def running_def mtype_defs commandComplete_def receive_waiting)
qed

lemma next_ReadyForQuery:
  assumes "running f \<or> m_state f = S_CONN" "m_ehandler f = Some h"
  shows "FSM_next md5 ReadyForQuery_mtype (header_of ReadyForQuery_mtype [st]) [st] (f\<lparr>pending := []\<rparr>)
         = Inr (finished_call h f)"
proof -
  have "ReadyForQuery_deserialize (header_of ReadyForQuery_mtype [st]) [st] NUL = Inr (ec_ok, st)"
    using byte1_codec.dec_front [of st "[]"]
    by (simp add: ReadyForQuery_deserialize_def guarded_accepts accepts_header_of)
  then show ?thesis
    using assms by (auto simp: FSM_next_def running_def mtype_defs readyForQuery_def call_handler_def finished_call_def)
qed

lemma next_ParameterDescription:
  assumes "running f" "length oids < 2 ^ 16" "length (enc_oids oids) < 2 ^ 31"
  shows "FSM_next md5 ParameterDescription_mtype (header_of ParameterDescription_mtype (enc_oids oids)) (enc_oids oids) (f\<lparr>pending := []\<rparr>)
         = Inr (waiting f)"
  using assms(1) ParameterDescription_enc [OF assms(2), of "header_of ParameterDescription_mtype (enc_oids oids)" "[]" "[]"]
    accepts_header_of [OF assms(3)]
  by (auto simp: FSM_next_def running_def mtype_defs parameterDescription_def receive_waiting)

lemma next_NoticeResponse:
  assumes "running f" "list_all valid_errfield es" "length (enc_errfields es) < 2 ^ 31"
  shows "FSM_next md5 NoticeResponse_mtype (header_of NoticeResponse_mtype (enc_errfields es)) (enc_errfields es) (f\<lparr>pending := []\<rparr>)
         = Inr (waiting f)"
  using assms(1) NoticeResponse_enc [OF assms(2), of "header_of NoticeResponse_mtype (enc_errfields es)" "[]"]
    accepts_header_of [OF assms(3)]
  by (auto simp: FSM_next_def running_def mtype_defs noticeResponse_def receive_waiting)

lemma next_ErrorResponse:
  assumes "running f" "m_result f = Some r" "list_all valid_errfield es" "length (enc_errfields es) < 2 ^ 31"
  shows "FSM_next md5 ErrorResponse_mtype (header_of ErrorResponse_mtype (enc_errfields es)) (enc_errfields es) (f\<lparr>pending := []\<rparr>)
         = Inr (waiting (set_result r (add_result_error (fold (\<lambda>(c, s). SQLError_emplace c s) es SQLError_init) (heap f r)) f))"
  using assms(1,2) ErrorResponse_enc [OF assms(3), of "header_of ErrorResponse_mtype (enc_errfields es)" "[]"]
    accepts_header_of [OF assms(4)]
  by (auto simp: FSM_next_def running_def mtype_defs query_error_def receive_eq issue_def waiting_def set_result_def)

text \<open>\<open>BindComplete\<close>, \<open>ParseComplete\<close> and every type the table has no entry for.\<close>

definition skipped :: "MessageType \<Rightarrow> bool" where
  "skipped t \<longleftrightarrow> t \<notin> {RowDescription_mtype, ParameterDescription_mtype, DataRow_mtype, CommandComplete_mtype,
                     ReadyForQuery_mtype, NoticeResponse_mtype, ErrorResponse_mtype}"

lemma next_skipped:
  assumes "running f" "skipped t" "length body < 2 ^ 31"
  shows "FSM_next md5 t (header_of t body) body (f\<lparr>pending := []\<rparr>) = Inr (waiting f)"
proof -
  note g = guarded_accepts [OF accepts_header_of [OF assms(3)]]
  have "ParseComplete_deserialize (header_of ParseComplete_mtype body) body () = Inr (ec_ok, ())"
    "BindComplete_deserialize (header_of BindComplete_mtype body) body () = Inr (ec_ok, ())"
    by (simp_all add: ParseComplete_deserialize_def BindComplete_deserialize_def g)
  then show ?thesis
    using assms(1,2)
    by (auto simp: FSM_next_def running_def skipped_def parseComplete_def bindComplete_def receive_waiting)
qed

end
