(* ===== verification/Dialogue.thy ===== *)
theory Dialogue
  imports Blocking
begin

text \<open>
  Abstract specification of a query's reply, and the refinement.

  The server answers a query with a sequence of \<open>reply\<close> messages and a final \<open>ReadyForQuery\<close>.
  \<open>spec_reply\<close> says what each message means for the result object, without bytes, buffers or
  states; it is \<open>None\<close> for a message the protocol does not allow (a row before any description, a
  value its column's decoder does not take, a body of 2 GB). The machine, driven by the bytes of
  the frames over a blocking connection, computes the same result object.
\<close>

section \<open>Replies\<close>

datatype reply =
    R_fields "FieldSpec list"
  | R_params "int32 list"
  | R_row "string list"
  | R_complete string
  | R_notice "(char \<times> string) list"
  | R_error "(char \<times> string) list"
  | R_skip MessageType buffer

fun reply_type :: "reply \<Rightarrow> MessageType" where
  "reply_type (R_fields fs) = RowDescription_mtype"
| "reply_type (R_params oids) = ParameterDescription_mtype"
| "reply_type (R_row vs) = DataRow_mtype"
| "reply_type (R_complete tag) = CommandComplete_mtype"
| "reply_type (R_notice es) = NoticeResponse_mtype"
| "reply_type (R_error es) = ErrorResponse_mtype"
| "reply_type (R_skip t b) = t"

fun reply_body :: "reply \<Rightarrow> buffer" where
  "reply_body (R_fields fs) = enc_fields fs"
| "reply_body (R_params oids) = enc_oids oids"
| "reply_body (R_row vs) = enc_row vs"
| "reply_body (R_complete tag) = cstr tag"
| "reply_body (R_notice es) = enc_errfields es"
| "reply_body (R_error es) = enc_errfields es"
| "reply_body (R_skip t b) = b"

definition reply_frame :: "reply \<Rightarrow> buffer" where
  "reply_frame m = frame (reply_type m) (reply_body m)"

definition ready_frame :: "char \<Rightarrow> buffer" where
  "ready_frame st = frame ReadyForQuery_mtype [st]"

fun decode_row :: "FieldSpec list \<Rightarrow> string list \<Rightarrow> Record option" where
  "decode_row [] [] = Some []"
| "decode_row (fs # fss) (v # vs) =
     (if least_size fs \<le> length v \<and> length v < 2 ^ 31
      then (case column_val fs v of
              Inl e \<Rightarrow> None
            | Inr x \<Rightarrow> map_option (Cons x) (decode_row fss vs))
      else None)"
| "decode_row _ _ = None"

fun spec_message :: "reply \<Rightarrow> ResultSet \<Rightarrow> ResultSet option" where
  "spec_message (R_fields fs) res =
     (if length fs < 2 ^ 16 \<and> list_all valid_field fs then Some (add_result_fields fs res) else None)"
| "spec_message (R_params oids) res = (if length oids < 2 ^ 16 then Some res else None)"
| "spec_message (R_row vs) res =
     (if m_rset res = [] \<or> 2 ^ 16 \<le> length vs then None
      else map_option (\<lambda>xs. append_row xs res) (decode_row (m_field_spec (last (m_rset res))) vs))"
| "spec_message (R_complete tag) res = (if NUL \<in> set tag then None else Some res)"
| "spec_message (R_notice es) res = (if list_all valid_errfield es then Some res else None)"
| "spec_message (R_error es) res =
     (if list_all valid_errfield es
      then Some (add_result_error (fold (\<lambda>(c, s). SQLError_emplace c s) es SQLError_init) res) else None)"
| "spec_message (R_skip t b) res = (if skipped t then Some res else None)"

definition spec_reply :: "reply \<Rightarrow> ResultSet \<Rightarrow> ResultSet option" where
  "spec_reply m res = (if length (reply_body m) < 2 ^ 31 - 4 then spec_message m res else None)"

fun spec_replies :: "reply list \<Rightarrow> ResultSet \<Rightarrow> ResultSet option" where
  "spec_replies [] res = Some res"
| "spec_replies (m # ms) res = Option.bind (spec_reply m res) (spec_replies ms)"

definition replies_bytes :: "reply list \<Rightarrow> buffer" where
  "replies_bytes ms = concat (map reply_frame ms)"

lemma decode_row_decodes: "decode_row fs vs = Some xs \<Longrightarrow> decodes fs vs xs"
proof (induction fs vs arbitrary: xs rule: decode_row.induct)
  case (2 fs fss v vs)
  then obtain x xs' where x: "column_val fs v = Inr x" "decode_row fss vs = Some xs'" "xs = x # xs'"
    "least_size fs \<le> length v" "length v < 2 ^ 31"
    by (auto split: if_splits sum.splits)
  with 2 have "decodes fss vs xs'" by auto
  then show ?case using x by (auto simp: decodes_def nth_Cons split: nat.splits)
qed (simp_all add: decodes_def)

lemma spec_keeps_format: "spec_reply m res = Some res' \<Longrightarrow> m_pgformat res = PGFormat_init \<Longrightarrow> m_pgformat res' = PGFormat_init"
  by (cases m)
    (auto simp: spec_reply_def add_result_fields_def add_result_error_def append_row_def set_back_def split: if_splits)

section \<open>One message, all messages\<close>

lemma next_reply:
  assumes f: "running f" "m_result f = Some r" and pg: "m_pgformat (heap f r) = PGFormat_init"
    and sp: "spec_reply m (heap f r) = Some res"
  shows "FSM_next md5 (reply_type m) (header_of (reply_type m) (reply_body m)) (reply_body m) (f\<lparr>pending := []\<rparr>)
         = Inr (waiting (set_result r res f))"
proof (cases m)
  case (R_row vs)
  then obtain xs where xs: "m_rset (heap f r) \<noteq> []" "length vs < 2 ^ 16" "res = append_row xs (heap f r)"
    "decode_row (m_field_spec (last (m_rset (heap f r)))) vs = Some xs" "length (enc_row vs) < 2 ^ 31 - 4"
    using sp by (auto simp: spec_reply_def not_le split: if_splits)
  then show ?thesis
    using f pg decode_row_decodes [OF xs(4)] R_row
    by (simp add: next_DataRow [OF f] rs_good_def rs_expects_def)
qed (use f sp in \<open>auto simp: spec_reply_def next_RowDescription next_ParameterDescription next_CommandComplete
       next_NoticeResponse next_ErrorResponse next_skipped set_result_same split: if_splits\<close>)

lemma replies_run:
  "\<lbrakk> reliable io net; running f; m_result f = Some r; m_pgformat res = PGFormat_init;
     spec_replies ms res = Some res'; net s = (replies_bytes ms @ rest, out) \<rbrakk>
   \<Longrightarrow> \<exists>s'. runs_to md5 io cl (waiting (set_result r res f), s) (waiting (set_result r res' f), s') \<and> net s' = (rest, out)"
proof (induction ms arbitrary: res s)
  case Nil
  then show ?case by (auto simp: replies_bytes_def)
next
  case (Cons m ms)
  let ?g = "\<lambda>res. set_result r res f"
  obtain res1 where r1: "spec_reply m res = Some res1" "spec_replies ms res1 = Some res'"
    using Cons.prems(5) by (auto simp: bind_eq_Some_conv)
  have nx: "FSM_next md5 (reply_type m) (header_of (reply_type m) (reply_body m)) (reply_body m) ((?g res)\<lparr>pending := []\<rparr>)
      = Inr (waiting (?g res1))"
    using next_reply [of "?g res" r m res1] Cons.prems(2-4) r1(1) by simp
  have s: "net s = (frame (reply_type m) (reply_body m) @ (replies_bytes ms @ rest), out)"
    using Cons.prems(6) by (simp add: replies_bytes_def reply_frame_def)
  have sz: "length (reply_body m) < 2 ^ 31 - 4" using r1(1) by (simp add: spec_reply_def split: if_splits)
  show ?case
    by (rule deliver_then [OF Cons.prems(1) sz s nx])
      (rule Cons.IH [OF Cons.prems(1-3) spec_keeps_format [OF r1(1) Cons.prems(4)] r1(2)])
qed

lemma query_run:
  assumes io: "reliable io net" and f: "running f" "m_result f = Some r" "m_ehandler f = Some h"
    and pg: "m_pgformat (heap f r) = PGFormat_init" and sp: "spec_replies ms (heap f r) = Some res"
    and s: "net s = (replies_bytes ms @ ready_frame st @ rest, out)"
  shows "\<exists>s'. runs_to md5 io cl (waiting f, s) (finished_call h (set_result r res f), s') \<and> net s' = (rest, out)"
proof -
  obtain s1 where s1: "runs_to md5 io cl (waiting f, s) (waiting (set_result r res f), s1)"
      "net s1 = (frame ReadyForQuery_mtype [st] @ rest, out)"
    using replies_run [OF io f(1,2) pg sp s] by (auto simp: ready_frame_def)
  have nx: "FSM_next md5 ReadyForQuery_mtype (header_of ReadyForQuery_mtype [st]) [st] ((set_result r res f)\<lparr>pending := []\<rparr>)
      = Inr (finished_call h (set_result r res f))"
    using f by (intro next_ReadyForQuery) simp_all
  obtain s2 where "runs_to md5 io cl (waiting (set_result r res f), s1) (finished_call h (set_result r res f), s2)"
      "net s2 = (rest, out)"
    using deliver [OF io _ s1(2) nx] by auto
  with rtranclp_trans [OF s1(1) this(1)] show ?thesis by blast
qed

section \<open>Writing\<close>

definition sendable :: "Message \<Rightarrow> bool" where
  "sendable msg \<longleftrightarrow> outbound msg \<and> length (body_of msg) < 2 ^ 31 - 4"

definition msg_head :: "Message \<Rightarrow> buffer" where
  "msg_head msg = frame_head (messageType msg) (word_of_nat (length (body_of msg) + 4))"

definition frame_of :: "Message \<Rightarrow> buffer" where
  "frame_of msg = msg_head msg @ body_of msg"

definition writing :: "Message \<Rightarrow> cont \<Rightarrow> FSM \<Rightarrow> FSM" where
  "writing msg k f = f\<lparr>pending := [Op_write (msg_head msg) (body_of msg) k]\<rparr>"

lemma con_write_writing: "sendable msg \<Longrightarrow> con_write msg k (f\<lparr>pending := []\<rparr>) = Inr (writing msg k f)"
  by (simp add: con_write_def sendable_def initiate_write_eq issue_def writing_def msg_head_def)

lemma con_write_idle: "sendable msg \<Longrightarrow> pending f = [] \<Longrightarrow> con_write msg k f = Inr (writing msg k f)"
  by (simp add: con_write_def sendable_def initiate_write_eq issue_def writing_def msg_head_def)

lemma write_step:
  assumes io: "reliable io net" and s: "net s = (rx, out)"
    and k: "resume md5 k (Write_done ec_ok (length (frame_of msg))) (f\<lparr>pending := []\<rparr>) = Inr f'"
  shows "\<exists>s'. steps_to md5 io cl (writing msg k f, s) (f', s') \<and> net s' = (rx, out @ frame_of msg)"
proof -
  obtain s' where s': "aio_write io (frame_of msg) s = (ec_ok, length (frame_of msg), s')" "net s' = (rx, out @ frame_of msg)"
    using io s unfolding reliable_def by blast
  then have "perform io cl (Op_write (msg_head msg) (body_of msg) k) s = Inr (Write_done ec_ok (length (frame_of msg)), s')"
    by (cases cl) (simp_all add: asyncWrite_complete_def frame_of_def)
  then have "steps_to md5 io cl (writing msg k f, s) (f', s')"
    using k by (simp add: steps_to_def sync_step_def writing_def)
  with s'(2) show ?thesis by blast
qed

lemma write_then:
  assumes io: "reliable io net" and s: "net s = (rx, out)"
    and k: "resume md5 k (Write_done ec_ok (length (frame_of msg))) (f\<lparr>pending := []\<rparr>) = Inr f'"
    and go: "\<And>s'. net s' = (rx, out @ frame_of msg) \<Longrightarrow> \<exists>s''. runs_to md5 io cl (f', s') (g, s'') \<and> net s'' = n"
  shows "\<exists>s''. runs_to md5 io cl (writing msg k f, s) (g, s'') \<and> net s'' = n"
  using write_step [OF io s k, of cl] go by (blast intro: converse_rtranclp_into_rtranclp)

lemma resume_receive:
  "resume md5 K_then_receive (Write_done ec_ok n) (f\<lparr>pending := []\<rparr>) = Inr (waiting f)"
  "resume md5 (K_local_receive eh) (Write_done ec_ok n) (f\<lparr>pending := []\<rparr>) = Inr (waiting f)"
  by (simp_all add: receive_waiting)

section \<open>Blocking calls\<close>

lemma blocking_call_runs:
  assumes c: "m_fsm c = Some f" "db_class c = Some cl" and f1: "call f = Inr f1"
    and run: "\<exists>s'. runs_to md5 io cl (f1, s) (f2, s') \<and> net s' = k"
    and f2: "pending f2 = []" "calls f2 = calls f @ [(h, ec)]"
  shows "\<exists>m s'. net s' = k \<and>
    (\<forall>n \<ge> m. blocking_call md5 io n call c s = Some (Inr (ec, c\<lparr>m_fsm := Some f2\<rparr>, s')))"
proof -
  obtain s' where s': "runs_to md5 io cl (f1, s) (f2, s')" "net s' = k" using run by blast
  obtain m where m: "\<forall>n \<ge> m. sync_run md5 io cl n (f1, s) = Some (Inr (f2, s'))"
    using sync_run_of_runs [OF s'(1)] f2(1) by auto
  have "er_of (length (calls f)) f2 = ec" by (simp add: er_of_def f2(2))
  with c f1 m have "\<forall>n \<ge> m. blocking_call md5 io n call c s = Some (Inr (ec, c\<lparr>m_fsm := Some f2\<rparr>, s'))"
    by (auto simp: blocking_call_def)
  with s'(2) show ?thesis by blast
qed

definition idle :: "DbConn \<Rightarrow> FSM \<Rightarrow> bool" where
  "idle c f \<longleftrightarrow> m_fsm c = Some f \<and> db_class c \<noteq> None \<and> m_state f = S_IDLE \<and> pending f = []"

definition after_query :: "nat \<Rightarrow> ResultSet \<Rightarrow> FSM \<Rightarrow> FSM" where
  "after_query r res f =
     f\<lparr>m_result := Some r, m_ehandler := Some 0, heap := (heap f)(r := res), calls := calls f @ [(0, ec_ok)]\<rparr>"

lemma finished_query:
  assumes "m_state f = S_IDLE" "pending f = []"
  shows "finished_call 0 (set_result r res (f\<lparr>m_result := Some r, m_ehandler := Some 0, m_state := st\<rparr>)) = after_query r res f"
  using assms by (cases f) (simp add: finished_call_def set_result_def after_query_def)

section \<open>The extended protocol\<close>

definition query_frames :: "DBQuery \<Rightarrow> buffer" where
  "query_frames q =
     frame_of (Bind (dbq_name q) (dbq_portal q) (dbq_bind q)) @ frame_of (Describe (dbq_name q) (dbq_portal q))
     @ frame_of (Execute (dbq_portal q)) @ frame_of Sync"

definition query_sendable :: "DBQuery \<Rightarrow> bool" where
  "query_sendable q \<longleftrightarrow>
     sendable (Bind (dbq_name q) (dbq_portal q) (dbq_bind q)) \<and> sendable (Describe (dbq_name q) (dbq_portal q))
     \<and> sendable (Execute (dbq_portal q))"

lemma sendable_empty: "sendable Sync" "sendable Terminate"
  by (simp_all add: sendable_def)

lemma bind_to_waiting:
  assumes io: "reliable io net" and q: "query_sendable q" "m_query f = Some q" and s: "net s = (rx, out)"
  shows "\<exists>s'. runs_to md5 io cl (writing (Bind (dbq_name q) (dbq_portal q) (dbq_bind q)) (K_bind_written eh) f, s) (waiting f, s')
      \<and> net s' = (rx, out @ query_frames q)"
proof -
  note ok = q(1) [unfolded query_sendable_def]
  have k1: "resume md5 (K_bind_written eh) (Write_done ec_ok n) (f\<lparr>pending := []\<rparr>)
      = Inr (writing (Describe (dbq_name q) (dbq_portal q)) (K_describe_written eh) f)" for n
    using q(2) ok by (simp add: con_write_writing)
  have k2: "resume md5 (K_describe_written eh) (Write_done ec_ok n) (f\<lparr>pending := []\<rparr>)
      = Inr (writing (Execute (dbq_portal q)) (K_execute_written eh) f)" for n
    using q(2) ok by (simp add: con_write_writing)
  have k3: "resume md5 (K_execute_written eh) (Write_done ec_ok n) (f\<lparr>pending := []\<rparr>)
      = Inr (writing Sync (K_local_receive eh) f)" for n
    by (simp add: con_write_writing sendable_empty)
  show ?thesis
    by (rule write_then [OF io s k1], erule write_then [OF io _ k2], erule write_then [OF io _ k3],
        erule write_then [OF io _ resume_receive(2)]) (auto simp: query_frames_def)
qed

lemma runs_then:
  assumes "\<exists>s'. runs_to md5 io cl (a, s) (b, s') \<and> net s' = k"
    and "\<And>s'. net s' = k \<Longrightarrow> \<exists>s''. runs_to md5 io cl (b, s') (c, s'') \<and> net s'' = k'"
  shows "\<exists>s''. runs_to md5 io cl (a, s) (c, s'') \<and> net s'' = k'"
  using assms by (blast intro: rtranclp_trans)

section \<open>A concrete dialogue\<close>

definition demo_field :: FieldSpec where
  "demo_field = \<lparr>fs_name = ''n'', table_oid = 0, col_num = 0, type_oid = 23, type_size = 4, type_mod = - 1, type_format = 0\<rparr>"

definition demo_reply :: "reply list" where
  "demo_reply = [R_fields [demo_field], R_row [show_int (- 7)], R_complete ''SELECT 1'']"

definition demo_heap :: "nat \<Rightarrow> ResultSet" where
  "demo_heap = (\<lambda>_. ResultSet_init PGFormat_init)"

definition demo_fsm :: FSM where
  "demo_fsm = (FSM_init demo_heap)\<lparr>m_state := S_IDLE\<rparr>"

definition demo_conn :: DbConn where
  "demo_conn = DbConn_init\<lparr>db_class := Some Plain, m_fsm := Some demo_fsm\<rparr>"

definition demo_result :: ResultSet where
  "demo_result = append_row [AInt (- 7)] (add_result_fields [demo_field] (demo_heap 0))"

definition demo_query :: DBQuery where
  "demo_query = DBQuery_bind show_int (- 7) (DBQuery_named ''stmt'' ''select $1'')"

lemma demo_col: "column_val demo_field (show_int (- 7)) = Inr (AInt (- 7))"
  using stoi_show_int [of "- 7"] by (simp add: column_val_def demo_field_def int4_val_def)

lemma demo_facts:
  "valid_field demo_field" "least_size demo_field = 0" "length (enc_field demo_field) = 20" "length (show_int (- 7)) = 2"
  by (simp_all add: demo_field_def valid_field_def fits_uint16_def least_size_def enc_field_def show_int_def show_nat.simps)

lemma demo_spec: "spec_replies demo_reply (demo_heap 0) = Some demo_result"
  by (simp add: demo_reply_def spec_reply_def enc_fields_def enc_row_def enc_col_def demo_col demo_facts demo_result_def
      add_result_fields_def RecordSet_fields_def demo_heap_def ResultSet_init_def)

lemma demo_idle: "idle demo_conn demo_fsm" "m_pgformat (heap demo_fsm 0) = PGFormat_init" "heap demo_fsm = demo_heap"
  by (simp_all add: idle_def demo_conn_def demo_fsm_def FSM_init_def demo_heap_def ResultSet_init_def)

lemma demo_sendable: "sendable (Query ''select -7'')" "query_sendable demo_query"
  by (simp_all add: sendable_def query_sendable_def demo_query_def DBQuery_named_def demo_facts)

section \<open>Properties\<close>

lemma exec_call:
  assumes io: "reliable io net" and c: "idle c f"
    and pg: "m_pgformat (heap f r) = PGFormat_init" and q: "sendable (Query q)"
    and sp: "spec_replies ms (heap f r) = Some res"
    and s: "net s = (replies_bytes ms @ ready_frame st @ rest, out)"
  shows "\<exists>m s'. net s' = (rest, out @ frame_of (Query q)) \<and>
    (\<forall>n \<ge> m. Db_exec md5 io n q r c s = Some (Inr (ec_ok, c\<lparr>m_fsm := Some (after_query r res f)\<rparr>, s')))"
proof -
  obtain cl where cl: "m_fsm c = Some f" "db_class c = Some cl" "m_state f = S_IDLE" "pending f = []"
    using c by (auto simp: idle_def)
  let ?f1 = "f\<lparr>m_result := Some r, m_ehandler := Some 0, m_state := S_QUERY\<rparr>"
  have f1: "FSM_exec q (Some r) 0 f = Inr (writing (Query q) K_then_receive ?f1)"
    using cl q by (simp add: FSM_exec_def con_write_idle)
  have "\<exists>s'. runs_to md5 io cl (writing (Query q) K_then_receive ?f1, s) (finished_call 0 (set_result r res ?f1), s')
      \<and> net s' = (rest, out @ frame_of (Query q))"
  proof (rule write_then [OF io s resume_receive(1)])
    fix s1
    assume s1: "net s1 = (replies_bytes ms @ ready_frame st @ rest, out @ frame_of (Query q))"
    show "\<exists>s'. runs_to md5 io cl (waiting ?f1, s1) (finished_call 0 (set_result r res ?f1), s')
        \<and> net s' = (rest, out @ frame_of (Query q))"
      using pg sp by (intro query_run [OF io _ _ _ _ _ s1]) (simp_all add: running_def)
  qed
  then show ?thesis
    unfolding Db_exec_def finished_query [OF cl(3,4)]
    by (rule blocking_call_runs [where call = "FSM_exec q (Some r) 0" and h = 0, OF cl(1,2) f1])
      (simp_all add: after_query_def cl)
qed

text \<open>
  C3. A blocking \<open>exec\<close> implements the abstract dialogue. On an idle connection over a healthy
  stream, when the server answers with the frames of any sequence \<open>ms\<close> of replies that the abstract
  specification accepts, followed by \<open>ReadyForQuery\<close>, the call returns (enough fuel exists) with the
  success code. Exactly the frame of the query has been sent, exactly the reply has been read, the
  machine is idle again, and the result object is the one \<open>spec_replies\<close> computes.
\<close>

theorem exec_refines:
  assumes io: "reliable io net" and c: "idle c f"
    and pg: "m_pgformat (heap f r) = PGFormat_init" and q: "sendable (Query q)"
    and sp: "spec_replies ms (heap f r) = Some res"
    and s: "net s = (replies_bytes ms @ ready_frame st @ rest, out)"
  shows "\<exists>m s'. net s' = (rest, out @ frame_of (Query q)) \<and>
    (\<forall>n \<ge> m. Db_exec md5 io n q r c s = Some (Inr (ec_ok, c\<lparr>m_fsm := Some (after_query r res f)\<rparr>, s')))"
  by (rule exec_call [OF assms])

theorem exec_refines_witness:
  "\<exists>m s'. id s' = (''rest'', [] @ frame_of (Query ''select -7'')) \<and>
    (\<forall>n \<ge> m. Db_exec (\<lambda>_. []) script_io n ''select -7'' 0 demo_conn (replies_bytes demo_reply @ ready_frame (CHR ''I'') @ ''rest'', [])
       = Some (Inr (ec_ok, demo_conn\<lparr>m_fsm := Some (after_query 0 demo_result demo_fsm)\<rparr>, s')))"
  using demo_spec demo_idle(3)
  by (intro exec_refines [OF script_reliable demo_idle(1,2) demo_sendable(1)]) simp_all

text \<open>
  C4. The extended protocol: a blocking \<open>exec\<close> of a prepared query sends \<open>Bind\<close>, \<open>Describe\<close>,
  \<open>Execute\<close> and \<open>Sync\<close>, in this order and nothing else, and then implements the same abstract
  dialogue.
\<close>

theorem exec_query_refines:
  assumes io: "reliable io net" and c: "idle c f"
    and pg: "m_pgformat (heap f r) = PGFormat_init" and q: "query_sendable q"
    and sp: "spec_replies ms (heap f r) = Some res"
    and s: "net s = (replies_bytes ms @ ready_frame st @ rest, out)"
  shows "\<exists>m s'. net s' = (rest, out @ query_frames q) \<and>
    (\<forall>n \<ge> m. Db_exec_query md5 io n q r c s
       = Some (Inr (ec_ok, c\<lparr>m_fsm := Some (after_query r res (f\<lparr>m_query := Some q\<rparr>))\<rparr>, s')))"
proof -
  obtain cl where cl: "m_fsm c = Some f" "db_class c = Some cl" "m_state f = S_IDLE" "pending f = []"
    using c by (auto simp: idle_def)
  let ?f1 = "(f\<lparr>m_query := Some q\<rparr>)\<lparr>m_result := Some r, m_ehandler := Some 0, m_state := S_EQUERY\<rparr>"
  let ?w = "writing (Bind (dbq_name q) (dbq_portal q) (dbq_bind q)) (K_bind_written moved_from) ?f1"
  have f1: "FSM_exec_query q (Some r) 0 f = Inr ?w"
    using cl q by (cases f) (simp add: FSM_exec_query_def con_write_idle query_sendable_def)
  have "\<exists>s'. runs_to md5 io cl (?w, s) (finished_call 0 (set_result r res ?f1), s') \<and> net s' = (rest, out @ query_frames q)"
  proof (rule runs_then [OF bind_to_waiting [OF io q _ s]])
    fix s1
    assume s1: "net s1 = (replies_bytes ms @ ready_frame st @ rest, out @ query_frames q)"
    show "\<exists>s'. runs_to md5 io cl (waiting ?f1, s1) (finished_call 0 (set_result r res ?f1), s')
        \<and> net s' = (rest, out @ query_frames q)"
      using pg sp by (intro query_run [OF io _ _ _ _ _ s1]) (simp_all add: running_def)
  qed simp
  moreover have "finished_call 0 (set_result r res ?f1) = after_query r res (f\<lparr>m_query := Some q\<rparr>)"
    using cl by (intro finished_query) simp_all
  ultimately show ?thesis
    unfolding Db_exec_query_def
    by (intro blocking_call_runs [where call = "FSM_exec_query q (Some r) 0" and h = 0, OF cl(1,2) f1])
      (simp_all add: after_query_def cl)
qed

theorem exec_query_refines_witness:
  "\<exists>m s'. id s' = ([], [] @ query_frames demo_query) \<and>
    (\<forall>n \<ge> m. Db_exec_query (\<lambda>_. []) script_io n demo_query 0 demo_conn
         (replies_bytes demo_reply @ ready_frame (CHR ''I'') @ [], [])
       = Some (Inr (ec_ok, demo_conn\<lparr>m_fsm := Some (after_query 0 demo_result (demo_fsm\<lparr>m_query := Some demo_query\<rparr>))\<rparr>, s')))"
  using demo_spec demo_idle(3)
  by (intro exec_query_refines [OF script_reliable demo_idle(1,2) demo_sendable(2)]) simp_all

end
