(* ===== verification/Startup.thy ===== *)
theory Startup
  imports Dialogue
begin

text \<open>
  Blocking \<open>connect\<close>, \<open>prepare\<close> and \<open>close\<close>, end to end, with the same reliable stream as in
  \<open>Dialogue\<close>. The server's side of the startup is \<open>AuthenticationOk\<close>, any number of parameter
  reports, the cancellation key and \<open>ReadyForQuery\<close>.
\<close>

section \<open>What the startup messages do\<close>

definition auth_ok :: buffer where
  "auth_ok = be32 AUTH_OK"

definition param_body :: "string \<times> string \<Rightarrow> buffer" where
  "param_body p = cstr (fst p) @ cstr (snd p)"

definition key_body :: "int32 \<Rightarrow> int32 \<Rightarrow> buffer" where
  "key_body pid key = be32 pid @ be32 key"

definition valid_param :: "string \<times> string \<Rightarrow> bool" where
  "valid_param p \<longleftrightarrow> NUL \<notin> set (fst p) \<and> NUL \<notin> set (snd p) \<and> length (param_body p) < 2 ^ 31 - 4"

definition params_bytes :: "(string \<times> string) list \<Rightarrow> buffer" where
  "params_bytes ps = concat (map (\<lambda>p. frame ParameterStatus_mtype (param_body p)) ps)"

definition startup_reply :: "(string \<times> string) list \<Rightarrow> int32 \<Rightarrow> int32 \<Rightarrow> char \<Rightarrow> buffer" where
  "startup_reply ps pid key st =
     frame Authentication_mtype auth_ok @ params_bytes ps
     @ frame BackendKeyData_mtype (key_body pid key) @ ready_frame st"

lemma next_AuthOK:
  assumes "m_state f = S_AUTH"
  shows "FSM_next md5 Authentication_mtype (header_of Authentication_mtype auth_ok) auth_ok (f\<lparr>pending := []\<rparr>)
         = Inr (waiting (f\<lparr>m_state := S_CONN\<rparr>))"
proof -
  have "deserializeInt32 auth_ok 0 = Inr (AUTH_OK, 4)"
    using int32_codec.dec_front [of AUTH_OK "[]"] by (simp add: auth_ok_def)
  then have "Authentication_deserialize (header_of Authentication_mtype auth_ok) auth_ok Authentication_init
      = Inr (ec_ok, Authentication_init\<lparr>m_auth_type := Some AUTH_OK\<rparr>)"
    by (simp add: Authentication_deserialize_def guarded_accepts accepts_header_of auth_ok_def AUTH_OK_def
        AUTH_MD5_PASSWORD_def)
  then show ?thesis
    using assms by (simp add: FSM_next_def mtype_defs authenticate_def receive_eq issue_def waiting_def)
qed

lemma next_ParameterStatus:
  assumes "m_state f = S_CONN" "valid_param p"
  shows "FSM_next md5 ParameterStatus_mtype (header_of ParameterStatus_mtype (param_body p)) (param_body p) (f\<lparr>pending := []\<rparr>)
         = Inr (waiting f)"
proof -
  have d: "drop 0 (param_body p) = cstr (fst p) @ (cstr (snd p) @ [])" by (simp add: param_body_def)
  note d2 = drop_advance [OF d]
  have v: "NUL \<notin> set (fst p)" "NUL \<notin> set (snd p)" "length (param_body p) < 2 ^ 31"
    using assms(2) by (auto simp: valid_param_def)
  have "ParameterStatus_deserialize (header_of ParameterStatus_mtype (param_body p)) (param_body p) ([], []) = Inr (ec_ok, p)"
    using string_codec.dec_enc [OF v(1) d] string_codec.dec_enc [OF v(2) d2]
    by (simp add: ParameterStatus_deserialize_def guarded_accepts [OF accepts_header_of [OF v(3)]])
  then show ?thesis
    using assms(1) by (simp add: FSM_next_def mtype_defs parameterStatus_def receive_waiting)
qed

lemma next_BackendKeyData:
  assumes "m_state f = S_CONN"
  shows "FSM_next md5 BackendKeyData_mtype (header_of BackendKeyData_mtype (key_body pid key)) (key_body pid key) (f\<lparr>pending := []\<rparr>)
         = Inr (waiting f)"
proof -
  have d: "drop 0 (key_body pid key) = be32 pid @ (be32 key @ [])" by (simp add: key_body_def)
  note d2 = drop_advance [OF d]
  have "BackendKeyData_deserialize (header_of BackendKeyData_mtype (key_body pid key)) (key_body pid key) (0, 0)
      = Inr (ec_ok, (pid, key))"
    using int32_codec.dec_enc [OF TrueI d] int32_codec.dec_enc [OF TrueI d2]
    by (simp add: BackendKeyData_deserialize_def guarded_accepts accepts_header_of key_body_def)
  then show ?thesis
    using assms by (simp add: FSM_next_def mtype_defs backendKeyData_def receive_waiting)
qed

lemma params_run:
  "\<lbrakk> reliable io net; m_state f = S_CONN; list_all valid_param ps; net s = (params_bytes ps @ rest, out) \<rbrakk>
   \<Longrightarrow> \<exists>s'. runs_to md5 io cl (waiting f, s) (waiting f, s') \<and> net s' = (rest, out)"
proof (induction ps arbitrary: s)
  case Nil
  then show ?case by (auto simp: params_bytes_def)
next
  case (Cons p ps)
  have v: "valid_param p" "list_all valid_param ps" using Cons.prems(3) by simp_all
  have sz: "length (param_body p) < 2 ^ 31 - 4" using v(1) by (simp add: valid_param_def)
  have s: "net s = (frame ParameterStatus_mtype (param_body p) @ (params_bytes ps @ rest), out)"
    using Cons.prems(4) by (simp add: params_bytes_def)
  show ?case
    by (rule deliver_then [OF Cons.prems(1) sz s next_ParameterStatus [OF Cons.prems(2) v(1)]])
      (rule Cons.IH [OF Cons.prems(1,2) v(2)])
qed

lemma startup_run:
  assumes io: "reliable io net" and f: "m_state f = S_AUTH" "m_ehandler f = Some h" and ps: "list_all valid_param ps"
    and s: "net s = (startup_reply ps pid key st @ rest, out)"
  shows "\<exists>s'. runs_to md5 io cl (waiting f, s) (finished_call h f, s') \<and> net s' = (rest, out)"
proof -
  let ?f = "f\<lparr>m_state := S_CONN\<rparr>"
  have s: "net s = (frame Authentication_mtype auth_ok @ (params_bytes ps
      @ frame BackendKeyData_mtype (key_body pid key) @ ready_frame st @ rest), out)"
    using s by (simp add: startup_reply_def)
  have nx: "FSM_next md5 ReadyForQuery_mtype (header_of ReadyForQuery_mtype [st]) [st] (?f\<lparr>pending := []\<rparr>) = Inr (finished_call h f)"
    using next_ReadyForQuery [of ?f h md5 st] f by (simp add: finished_call_def)
  have c: "m_state ?f = S_CONN" by simp
  show ?thesis
  proof (rule deliver_then [OF io _ s next_AuthOK [OF f(1)]])
    fix s1
    assume s1: "net s1 = (params_bytes ps @ frame BackendKeyData_mtype (key_body pid key) @ ready_frame st @ rest, out)"
    show "\<exists>s'. runs_to md5 io cl (waiting ?f, s1) (finished_call h f, s') \<and> net s' = (rest, out)"
    proof (rule runs_then [OF params_run [OF io c ps s1]])
      fix s2
      assume s2: "net s2 = (frame BackendKeyData_mtype (key_body pid key) @ ready_frame st @ rest, out)"
      show "\<exists>s'. runs_to md5 io cl (waiting ?f, s2) (finished_call h f, s') \<and> net s' = (rest, out)"
        by (rule deliver_then [OF io _ s2 next_BackendKeyData [OF c]])
          (simp_all add: key_body_def ready_frame_def deliver [OF io _ _ nx])
    qed
  qed (simp add: auth_ok_def)
qed

section \<open>connect\<close>

lemma connect_call:
  assumes io: "reliable io net" and opt: "sendable (StartUp option)" and ps: "list_all valid_param ps"
    and s: "net s = (startup_reply ps pid key st @ rest, out)"
  shows "\<exists>m s' f. net s' = (rest, out @ frame_of (StartUp option)) \<and> m_state f = S_IDLE \<and> pending f = [] \<and> heap f = h \<and>
    (\<forall>n \<ge> m. Db_connect md5 io n option h c s = Some (Inr (ec_ok,
       c\<lparr>db_class := Some Plain, db_endpoint := Some (Local_Endpoint ''/var/run/postgresql/.s.PGSQL.5432''), m_fsm := Some f\<rparr>, s')))"
proof -
  let ?f = "(FSM_init h)\<lparr>m_ehandler := Some 0\<rparr>"
  let ?f1 = "?f\<lparr>pending := [Op_connect (K_connect (StartUp option))]\<rparr>"
  let ?w = "writing (StartUp option) K_then_receive ?f"
  let ?c = "c\<lparr>db_class := Some Plain, db_endpoint := Some (Local_Endpoint ''/var/run/postgresql/.s.PGSQL.5432''), m_fsm := Some (FSM_init h)\<rparr>"
  have call: "FSM_connect option 0 (FSM_init h) = Inr ?f1"
    by (simp add: FSM_connect_def issue_def FSM_init_def)
  obtain s1 where s1: "aio_connect io s = (ec_ok, s1)" "net s1 = (startup_reply ps pid key st @ rest, out)"
    using io s unfolding reliable_def by metis
  have "resume md5 (K_connect (StartUp option)) (Done ec_ok) (?f\<lparr>pending := []\<rparr>) = Inr ?w"
    using con_write_writing [OF opt] by simp
  then have one: "steps_to md5 io Plain (?f1, s) (?w, s1)"
    using s1(1) by (simp add: steps_to_def sync_step_def Connection_connect_def writing_def)
  have "\<exists>s'. runs_to md5 io Plain (?w, s1) (finished_call 0 ?f, s') \<and> net s' = (rest, out @ frame_of (StartUp option))"
    by (rule write_then [OF io s1(2) resume_receive(1)])
      (rule startup_run [OF io _ _ ps], simp_all add: FSM_init_def)
  then have "\<exists>s'. runs_to md5 io Plain (?f1, s) (finished_call 0 ?f, s') \<and> net s' = (rest, out @ frame_of (StartUp option))"
    using converse_rtranclp_into_rtranclp [where r = "steps_to md5 io Plain", OF one] by blast
  from blocking_call_runs [where call = "FSM_connect option 0" and c = ?c and h = 0 and ec = ec_ok, OF _ _ call this]
  obtain m s' where "net s' = (rest, out @ frame_of (StartUp option))"
    "\<forall>n \<ge> m. blocking_call md5 io n (FSM_connect option 0) ?c s = Some (Inr (ec_ok, ?c\<lparr>m_fsm := Some (finished_call 0 ?f)\<rparr>, s'))"
    by (auto simp: finished_call_def)
  moreover have "m_state (finished_call 0 ?f) = S_IDLE" "pending (finished_call 0 ?f) = []" "heap (finished_call 0 ?f) = h"
    by (simp_all add: finished_call_def FSM_init_def)
  ultimately show ?thesis
    unfolding Db_connect_def Let_def by (intro exI [of _ m] exI [of _ s'] exI [of _ "finished_call 0 ?f"]) simp
qed

text \<open>
  A blocking \<open>connect\<close> completes. When the server accepts the connection without a password
  (\<open>AuthenticationOk\<close>, any parameter reports, the key, \<open>ReadyForQuery\<close>), the call returns the
  success code: the startup message and nothing else has been sent, the whole reply has been read,
  and the connection is idle, ready for \<open>exec\<close>.
\<close>

theorem connect_completes:
  assumes io: "reliable io net" and opt: "sendable (StartUp option)" and ps: "list_all valid_param ps"
    and s: "net s = (startup_reply ps pid key st @ rest, out)"
  shows "\<exists>m s' f. net s' = (rest, out @ frame_of (StartUp option)) \<and> m_state f = S_IDLE \<and> pending f = [] \<and> heap f = h \<and>
    (\<forall>n \<ge> m. Db_connect md5 io n option h c s = Some (Inr (ec_ok,
       c\<lparr>db_class := Some Plain, db_endpoint := Some (Local_Endpoint ''/var/run/postgresql/.s.PGSQL.5432''), m_fsm := Some f\<rparr>, s')))"
  by (rule connect_call [OF assms])

theorem connect_completes_witness:
  "\<exists>m s' f. id s' = ([], [] @ frame_of (StartUp [(''user'', ''joe'')])) \<and> m_state f = S_IDLE \<and> pending f = [] \<and> heap f = demo_heap \<and>
    (\<forall>n \<ge> m. Db_connect (\<lambda>_. []) script_io n [(''user'', ''joe'')] demo_heap DbConn_init
       (startup_reply [(''TimeZone'', ''UTC'')] 7 9 (CHR ''I'') @ [], []) = Some (Inr (ec_ok,
       DbConn_init\<lparr>db_class := Some Plain, db_endpoint := Some (Local_Endpoint ''/var/run/postgresql/.s.PGSQL.5432''), m_fsm := Some f\<rparr>, s')))"
  by (rule connect_completes [OF script_reliable, of "[(''user'', ''joe'')]" "[(''TimeZone'', ''UTC'')]" _ 7 9])
    (simp_all add: sendable_def valid_param_def param_body_def)

section \<open>prepare\<close>

definition parse_frames :: "DBQuery \<Rightarrow> buffer" where
  "parse_frames q = frame_of (Parse (dbq_name q) (dbq_query q) []) @ frame_of Sync"

text \<open>
  A blocking \<open>prepare\<close> on an idle connection sends \<open>Parse\<close> and \<open>Sync\<close> and returns the success
  code after \<open>ParseComplete\<close> and \<open>ReadyForQuery\<close>, idle again and with no result object touched.
\<close>

theorem prepare_completes:
  assumes io: "reliable io net" and c: "idle c f" and q: "sendable (Parse (dbq_name q) (dbq_query q) [])"
    and s: "net s = (frame ParseComplete_mtype [] @ ready_frame st @ rest, out)"
  shows "\<exists>m s'. net s' = (rest, out @ parse_frames q) \<and>
    (\<forall>n \<ge> m. Db_prepare md5 io n q c s = Some (Inr (ec_ok,
       c\<lparr>m_fsm := Some (f\<lparr>m_query := Some q, m_ehandler := Some 0, calls := calls f @ [(0, ec_ok)]\<rparr>)\<rparr>, s')))"
proof -
  obtain cl where cl: "m_fsm c = Some f" "db_class c = Some cl" "m_state f = S_IDLE" "pending f = []"
    using c by (auto simp: idle_def)
  let ?f1 = "f\<lparr>m_ehandler := Some 0, m_query := Some q, m_state := S_QUERY\<rparr>"
  let ?w = "writing (Parse (dbq_name q) (dbq_query q) []) (K_parse_written moved_from) ?f1"
  have call: "FSM_parse q 0 f = Inr ?w"
    using cl q by (simp add: FSM_parse_def con_write_idle)
  have run: "running ?f1" by (simp add: running_def)
  have k: "resume md5 (K_parse_written moved_from) (Write_done ec_ok n) (?f1\<lparr>pending := []\<rparr>)
      = Inr (writing Sync (K_local_receive moved_from) ?f1)" for n
    using con_write_writing [OF sendable_empty(1)] by simp
  have n1: "FSM_next md5 ParseComplete_mtype (header_of ParseComplete_mtype []) [] (?f1\<lparr>pending := []\<rparr>) = Inr (waiting ?f1)"
    by (rule next_skipped [OF run]) (simp_all add: skipped_def mtype_defs)
  have n2: "FSM_next md5 ReadyForQuery_mtype (header_of ReadyForQuery_mtype [st]) [st] (?f1\<lparr>pending := []\<rparr>) = Inr (finished_call 0 ?f1)"
    using run by (intro next_ReadyForQuery) simp_all
  have "\<exists>s'. runs_to md5 io cl (?w, s) (finished_call 0 ?f1, s') \<and> net s' = (rest, out @ parse_frames q)"
  proof (rule write_then [OF io s k], erule write_then [OF io _ resume_receive(2)])
    fix s1
    assume s1: "net s1 = (frame ParseComplete_mtype [] @ ready_frame st @ rest,
       (out @ frame_of (Parse (dbq_name q) (dbq_query q) [])) @ frame_of Sync)"
    show "\<exists>s'. runs_to md5 io cl (waiting ?f1, s1) (finished_call 0 ?f1, s') \<and> net s' = (rest, out @ parse_frames q)"
      using deliver_then [OF io _ s1 n1, of cl "finished_call 0 ?f1" rest] deliver [OF io _ _ n2]
      by (simp add: ready_frame_def parse_frames_def)
  qed
  moreover have "finished_call 0 ?f1 = f\<lparr>m_query := Some q, m_ehandler := Some 0, calls := calls f @ [(0, ec_ok)]\<rparr>"
    using cl by (cases f) (simp add: finished_call_def)
  ultimately show ?thesis
    unfolding Db_prepare_def
    by (intro blocking_call_runs [where call = "FSM_parse q 0" and h = 0, OF cl(1,2) call]) (simp_all add: cl)
qed

theorem prepare_completes_witness:
  "\<exists>m s'. id s' = (''x'', [] @ parse_frames demo_query) \<and>
    (\<forall>n \<ge> m. Db_prepare (\<lambda>_. []) script_io n demo_query demo_conn
         (frame ParseComplete_mtype [] @ ready_frame (CHR ''I'') @ ''x'', [])
       = Some (Inr (ec_ok, demo_conn\<lparr>m_fsm :=
           Some (demo_fsm\<lparr>m_query := Some demo_query, m_ehandler := Some 0, calls := calls demo_fsm @ [(0, ec_ok)]\<rparr>)\<rparr>, s')))"
  by (rule prepare_completes [OF script_reliable demo_idle(1)])
    (simp_all add: sendable_def demo_query_def DBQuery_named_def)

section \<open>close\<close>

lemma close_call:
  assumes io: "reliable io net" and c: "m_fsm c = Some f" "db_class c = Some cl" "pending f = []" and s: "net s = (rx, out)"
  shows "\<exists>m s'. net s' = (rx, out @ frame_of Terminate) \<and>
    (\<forall>n \<ge> m. Db_close md5 io n c s = Some (Inr (ec_ok,
       c\<lparr>m_fsm := Some (f\<lparr>m_state := S_END, m_ehandler := Some 0, calls := calls f @ [(0, ec_ok)]\<rparr>)\<rparr>, s')))"
proof -
  let ?f1 = "f\<lparr>m_state := S_END, m_ehandler := Some 0\<rparr>"
  let ?f2 = "f\<lparr>m_state := S_END, m_ehandler := Some 0, calls := calls f @ [(0, ec_ok)]\<rparr>"
  have call: "FSM_close 0 f = Inr (writing Terminate K_terminate_written ?f1)"
    using c sendable_empty by (simp add: FSM_close_def con_write_idle)
  have k: "resume md5 K_terminate_written (Write_done ec_ok n) (?f1\<lparr>pending := []\<rparr>)
      = Inr (?f1\<lparr>pending := [Op_close (K_closed ec_ok)]\<rparr>)" for n
    by (simp add: issue_def)
  have "\<exists>s'. runs_to md5 io cl (writing Terminate K_terminate_written ?f1, s) (?f2, s') \<and> net s' = (rx, out @ frame_of Terminate)"
  proof (rule write_then [OF io s k])
    fix s1
    assume s1: "net s1 = (rx, out @ frame_of Terminate)"
    then obtain s2 where s2: "aio_close io s1 = (ec_ok, s2)" "net s2 = (rx, out @ frame_of Terminate)"
      using io unfolding reliable_def by metis
    have e: "f\<lparr>m_state := S_END, m_ehandler := Some 0, pending := [], calls := calls f @ [(0, ec_ok)]\<rparr> = ?f2"
      using c by (cases f) simp
    have "steps_to md5 io cl (?f1\<lparr>pending := [Op_close (K_closed ec_ok)]\<rparr>, s1) (?f2, s2)"
      using s2(1) by (cases cl)
        (auto simp: steps_to_def sync_step_def Connection_close_def SSLConnection_close_def call_handler_def e)
    with s2(2) show "\<exists>s'. runs_to md5 io cl (?f1\<lparr>pending := [Op_close (K_closed ec_ok)]\<rparr>, s1) (?f2, s')
        \<and> net s' = (rx, out @ frame_of Terminate)" by blast
  qed
  then show ?thesis
    unfolding Db_close_def
    by (intro blocking_call_runs [where call = "FSM_close 0" and h = 0, OF c(1,2) call]) (simp_all add: c)
qed

text \<open>
  A blocking \<open>close\<close> with nothing outstanding sends \<open>Terminate\<close>, closes the socket, calls its
  handler once with the code of the write and leaves the machine in its final state.
\<close>

theorem close_completes:
  assumes io: "reliable io net" and c: "m_fsm c = Some f" "db_class c = Some cl" "pending f = []" and s: "net s = (rx, out)"
  shows "\<exists>m s'. net s' = (rx, out @ frame_of Terminate) \<and>
    (\<forall>n \<ge> m. Db_close md5 io n c s = Some (Inr (ec_ok,
       c\<lparr>m_fsm := Some (f\<lparr>m_state := S_END, m_ehandler := Some 0, calls := calls f @ [(0, ec_ok)]\<rparr>)\<rparr>, s')))"
  by (rule close_call [OF assms])

theorem close_completes_witness:
  "\<exists>m s'. id s' = ([], [] @ frame_of Terminate) \<and>
    (\<forall>n \<ge> m. Db_close (\<lambda>_. []) script_io n demo_conn ([], []) = Some (Inr (ec_ok,
       demo_conn\<lparr>m_fsm := Some (demo_fsm\<lparr>m_state := S_END, m_ehandler := Some 0, calls := calls demo_fsm @ [(0, ec_ok)]\<rparr>)\<rparr>, s')))"
  by (rule close_completes [OF script_reliable, where cl = Plain])
    (simp_all add: demo_conn_def demo_fsm_def FSM_init_def)

end
