(* ===== verification/Fsm_Session.thy ===== *)
theory Fsm_Session
  imports Fsm_Run
begin

text \<open>
  Invariants of sessions: at most one operation is outstanding, every handler passed to the library
  is called exactly once, and the transition table is consulted only in states it has.
\<close>

section \<open>The invariant is kept\<close>

lemma inv_init: "fsm_inv (FSM_init h) []"
  by (simp add: fsm_inv_def FSM_init_def)

lemma inv_complete:
  assumes inv: "fsm_inv f ids" and i: "i < length (pending f)" and c: "fits (pending f ! i) c"
    and no_md5: "\<not> md5_request (cont_of (pending f ! i)) c" and r: "fire md5 i c f = Inr f'"
  shows "fsm_inv f' ids"
proof -
  from inv i obtain p eh where p: "pending f = [p]" "op_ok (m_state f) p" "m_ehandler f = Some eh"
    by (auto simp: fsm_inv_def)
  with i have "i = 0" by simp
  with p r c no_md5 have "advances eh (f\<lparr>pending := []\<rparr>) f'"
    by (intro resume_advances [where p = p and c = c]) (simp_all add: fire_def)
  moreover have "mset (map fst (calls f)) + {# eh #} = mset ids" "ids \<noteq> []"
    using inv p by (auto simp: fsm_inv_def)
  ultimately show ?thesis
    by (auto simp: fsm_inv_def advances_def)
qed

lemma inv_accepted:
  assumes inv: "fsm_inv f ids" and "pending f = []" "calls f' = calls f" "pending f' = [p]"
    "op_ok (m_state f') p" "m_ehandler f' = Some eh"
  shows "fsm_inv f' (ids @ [eh])"
  using assms by (simp add: fsm_inv_def)

lemma idle_quiet: "fsm_inv f ids \<Longrightarrow> m_state f = S_IDLE \<Longrightarrow> pending f = []"
  by (auto simp: fsm_inv_def elim: op_ok.elims)

lemma inv_busy:
  assumes "fsm_inv f ids" "call_handler (Some eh) ec f = Inr f'"
  shows "fsm_inv f' (ids @ [eh])"
  using assms by (auto simp: fsm_inv_def call_handler_def)

lemmas api_defs =
  FSM_connect_def FSM_connectSSL_def FSM_exec_def FSM_exec_query_def FSM_parse_def FSM_close_def

lemma inv_call:
  assumes inv: "fsm_inv f ids" and al: "allowed a f ids" and r: "api_call a f = Inr f'"
  shows "fsm_inv f' (ids @ [api_handler a])"
proof (cases a)
  case (Api_connect opt eh)
  then show ?thesis
    using inv al r by (auto simp: api_defs issue_def fsm_inv_def)
next
  case (Api_connectSSL opt eh)
  then show ?thesis
    using inv al r by (auto simp: api_defs issue_def fsm_inv_def)
next
  case (Api_exec q res eh)
  then show ?thesis
    using r inv idle_quiet [OF inv]
    by (auto simp: api_defs Let_def issue_def split: if_splits dest!: con_write_Inr
        intro: inv_busy inv_accepted [OF inv])
next
  case (Api_exec_query q res eh)
  then show ?thesis
    using r inv idle_quiet [OF inv]
    by (auto simp: api_defs Let_def issue_def split: if_splits dest!: con_write_Inr
        intro: inv_busy inv_accepted [OF inv])
next
  case (Api_parse q eh)
  then show ?thesis
    using r inv idle_quiet [OF inv]
    by (auto simp: api_defs Let_def issue_def split: if_splits dest!: con_write_Inr
        intro: inv_busy inv_accepted [OF inv])
next
  case (Api_close eh)
  then show ?thesis
    using r inv al
    by (auto simp: api_defs Let_def issue_def dest!: con_write_Inr intro: inv_accepted [OF inv])
qed

lemma session_inv: "session md5 h f ids \<Longrightarrow> fsm_inv f ids"
  by (induction rule: session.induct) (auto intro: inv_init inv_complete inv_call)

section \<open>Concrete sessions\<close>

definition sample_heap :: "nat \<Rightarrow> ResultSet" where
  "sample_heap = (\<lambda>_. ResultSet_init PGFormat_init)"

definition sample_connecting :: FSM where
  "sample_connecting = (FSM_init sample_heap)\<lparr>m_ehandler := Some 5, pending := [Op_connect (K_connect (StartUp []))]\<rparr>"


lemma sample_session: "session md5 sample_heap sample_connecting [5]"
proof -
  have "session md5 sample_heap sample_connecting ([] @ [api_handler (Api_connect [] 5)])"
    by (rule session.call [OF session.start])
      (simp_all add: FSM_connect_def issue_def sample_connecting_def FSM_init_def)
  then show ?thesis by simp
qed


section \<open>Properties\<close>






text \<open>
  C6. One operation at a time. In every session at most one connection operation is outstanding; it
  is one that the current state may be waiting for, a header read asks for the five bytes of a
  header, and a handler to report to is set.
\<close>

theorem one_outstanding:
  assumes "session md5 h f ids"
  shows "length (pending f) \<le> 1 \<and> (\<forall>p \<in> set (pending f). op_ok (m_state f) p \<and> m_ehandler f \<noteq> None)"
  using session_inv [OF assms] by (auto simp: fsm_inv_def)

theorem one_outstanding_witness:
  "length (pending sample_connecting) \<le> 1 \<and> op_ok (m_state sample_connecting) (hd (pending sample_connecting)) \<and>
   m_ehandler sample_connecting \<noteq> None"
  using one_outstanding [OF sample_session] by (simp add: sample_connecting_def)

text \<open>
  The transition table is never consulted in a state it lacks: while a session waits for a
  message body, the current state has a row, so \<open>m_state_table.at(m_state)\<close> does not throw.
\<close>

theorem table_has_row:
  assumes "session md5 h f ids" and "Op_read n (K_body hdr) \<in> set (pending f)"
  shows "\<exists>row. m_state_table (m_state f) = Some row"
proof -
  have "listening (m_state f)" using session_inv [OF assms(1)] assms(2) by (auto simp: fsm_inv_def)
  then show ?thesis by (auto simp: listening_def)
qed

definition sample_writing :: FSM where
  "sample_writing = (FSM_init sample_heap)\<lparr>m_ehandler := Some 5,
     pending := [Op_write (frame_head NUL 9) (body_of (StartUp [])) K_then_receive]\<rparr>"

definition sample_header :: Header where
  "sample_header = \<lparr>m_mtype = CHR ''R'', m_body_length = 4\<rparr>"

definition sample_reading :: FSM where
  "sample_reading = (FSM_init sample_heap)\<lparr>m_ehandler := Some 5, pending := [Op_read Header_size K_header]\<rparr>"

definition sample_body :: FSM where
  "sample_body = (FSM_init sample_heap)\<lparr>m_ehandler := Some 5, pending := [Op_read 4 (K_body sample_header)]\<rparr>"

lemma sample_session_writing: "session md5 sample_heap sample_writing [5]"
  using initiate_write_eq [of "StartUp []"]
  by (intro session.complete [OF sample_session, of 0 "Done ec_ok"])
    (simp_all add: sample_connecting_def sample_writing_def fire_def md5_request_def FSM_init_def con_write_def
      initiate_write_eq issue_def mtype_defs)

lemma sample_session_reading: "session md5 sample_heap sample_reading [5]"
  by (rule session.complete [OF sample_session_writing, of 0 "Write_done ec_ok 9"])
    (simp_all add: sample_writing_def sample_reading_def fire_def md5_request_def FSM_init_def receive_eq issue_def)

lemma sample_session_body: "session md5 sample_heap sample_body [5]"
proof (rule session.complete [OF sample_session_reading, of 0 "Read_done ec_ok 5 (CHR ''R'' # be32 8)"])
  have "Header_deserialize (CHR ''R'' # be32 8 @ []) Header_init = Inr (ec_ok, sample_header)"
    by (subst Header_deserialize_eq) (simp_all add: sample_header_def Header_init_def)
  then show "fire md5 0 (Read_done ec_ok 5 (CHR ''R'' # be32 8)) sample_reading = Inr sample_body"
    by (simp add: sample_reading_def sample_body_def fire_def FSM_init_def con_read_def initiate_read_def issue_def
        sample_header_def max_alloc_def size_of_int_def)
qed (simp_all add: sample_reading_def md5_request_def Header_size_def)

theorem table_has_row_witness: "\<exists>row. m_state_table (m_state sample_body) = Some row"
  by (rule table_has_row [OF sample_session_body, of 4 sample_header])
    (simp add: sample_body_def)

end
