(* ===== verification/Limits.thy ===== *)
theory Limits
  imports Startup Fsm_Session
begin

text \<open>
  The edges of the machine: what it does when the application calls at the wrong time, when the
  server reports an error and when the stream is broken. Several of these theorems document
  behaviour that the code's own comments or the protocol's description do not intend; each says
  what the code does.
\<close>

section \<open>Blocking runs are asynchronous runs\<close>




section \<open>Calls at the wrong time\<close>

text \<open>
  A call that needs an idle machine is refused otherwise: \<open>exec\<close> (both kinds) and \<open>parse\<close> call
  the caller's own handler once with \<open>errc::busy\<close> and change nothing else: not the handler of the
  call in progress, its query, its result object, nor the connection.
\<close>

theorem busy_refused:
  assumes "m_state f \<noteq> S_IDLE"
  shows "FSM_exec str res eh f = Inr (f\<lparr>calls := calls f @ [(eh, make_error_code busy)]\<rparr>) \<and>
    FSM_exec_query q res eh f = Inr (f\<lparr>calls := calls f @ [(eh, make_error_code busy)]\<rparr>) \<and>
    FSM_parse q eh f = Inr (f\<lparr>calls := calls f @ [(eh, make_error_code busy)]\<rparr>)"
  using assms by (simp add: FSM_exec_def FSM_exec_query_def FSM_parse_def call_handler_def)

theorem busy_refused_witness:
  "FSM_exec ''select 1'' (Some 0) 3 sample_reading
     = Inr (sample_reading\<lparr>calls := calls sample_reading @ [(3, make_error_code busy)]\<rparr>) \<and>
   FSM_exec_query demo_query (Some 0) 3 sample_reading
     = Inr (sample_reading\<lparr>calls := calls sample_reading @ [(3, make_error_code busy)]\<rparr>) \<and>
   FSM_parse demo_query 3 sample_reading
     = Inr (sample_reading\<lparr>calls := calls sample_reading @ [(3, make_error_code busy)]\<rparr>)"
  by (rule busy_refused) (simp add: sample_reading_def FSM_init_def)

text \<open>
  C34. \<open>close\<close> has no such guard: when it is called while a message body is being read, the arrival of
  the body looks up a state without a row, and \<open>std::out_of_range\<close> leaves the completion handler.
\<close>

theorem close_while_reading:
  assumes f: "pending f = [Op_read n (K_body hdr)]" and c: "\<not> ec_bool ec" and cl: "FSM_close eh f = Inr f'"
  shows "fire md5 0 (Read_done ec k buf) f' = Inl (Throw Out_Of_Range)"
proof -
  have "pending f' ! 0 = Op_read n (K_body hdr)" "m_state f' = S_END"
    using f cl by (auto simp: FSM_close_def issue_def dest!: con_write_Inr)
  then show ?thesis using c by (simp add: fire_def FSM_next_def)
qed

theorem close_while_reading_witness:
  "\<exists>f'. FSM_close 9 sample_body = Inr f' \<and> fire (\<lambda>_. []) 0 (Read_done ec_ok 4 (be32 0)) f' = Inl (Throw Out_Of_Range)"
proof -
  obtain f' where "FSM_close 9 sample_body = Inr f'"
    using initiate_write_eq [of Terminate] by (simp add: FSM_close_def con_write_def)
  then show ?thesis
    using close_while_reading [of sample_body 4 sample_header ec_ok 9 f' "\<lambda>_. []" 4 "be32 0"]
    by (simp add: sample_body_def)
qed

section \<open>Lost handlers\<close>

text \<open>
  \<open>exec\<close> of a prepared query and \<open>parse\<close> move the caller's handler into \<open>m_ehandler\<close> and then
  move it again into the write callback, which therefore holds an empty function: when the write
  fails, the callback throws \<open>std::bad_function_call\<close> and the caller's handler is not called.
\<close>

theorem write_error_loses_handler:
  assumes "m_state f = S_IDLE" and "pending f = []" and "ec_bool ec"
    and "FSM_exec_query q res eh f = Inr f1" and "FSM_parse q eh f = Inr f2"
  shows "fire md5 0 (Write_done ec k) f1 = Inl (Throw Bad_Function_Call) \<and>
    fire md5 0 (Write_done ec k) f2 = Inl (Throw Bad_Function_Call)"
  using assms by (auto simp: FSM_exec_query_def FSM_parse_def issue_def fire_def dest!: con_write_Inr)

theorem write_error_loses_handler_witness:
  "\<exists>f1 f2. FSM_exec_query demo_query (Some 0) 3 demo_fsm = Inr f1 \<and> FSM_parse demo_query 3 demo_fsm = Inr f2 \<and>
     fire (\<lambda>_. []) 0 (Write_done ENOSPC 0) f1 = Inl (Throw Bad_Function_Call) \<and>
     fire (\<lambda>_. []) 0 (Write_done ENOSPC 0) f2 = Inl (Throw Bad_Function_Call)"
proof -
  have i: "m_state demo_fsm = S_IDLE" "pending demo_fsm = []" by (simp_all add: demo_fsm_def FSM_init_def)
  have p: "sendable (Parse (dbq_name demo_query) (dbq_query demo_query) [])"
    by (simp add: sendable_def demo_query_def DBQuery_named_def)
  obtain f1 where f1: "FSM_exec_query demo_query (Some 0) 3 demo_fsm = Inr f1"
    using demo_sendable(2) i by (simp add: FSM_exec_query_def query_sendable_def con_write_idle)
  obtain f2 where f2: "FSM_parse demo_query 3 demo_fsm = Inr f2"
    using p i by (simp add: FSM_parse_def con_write_idle)
  show ?thesis
    using write_error_loses_handler [OF i, of ENOSPC demo_query "Some 0" 3 f1 f2] f1 f2 by simp
qed

section \<open>Errors reported by the server\<close>

definition default_code :: "SQLError \<Rightarrow> bool" where
  "default_code e \<longleftrightarrow> map_ok schar e \<and> map_of e (field_char CODE) = Some ''00000''"

lemma default_code_init: "default_code SQLError_init"
  by (simp add: default_code_def SQLError_init_ok) (simp add: SQLError_init_eq)

lemma default_code_emplace: "default_code e \<Longrightarrow> default_code (SQLError_emplace c s e)"
  by (auto simp: default_code_def SQLError_emplace_ok intro: SQLError_emplace_find)

lemma default_code_fold: "default_code e \<Longrightarrow> default_code (fold (\<lambda>(c, s). SQLError_emplace c s) es e)"
  by (induction es arbitrary: e) (auto intro: default_code_emplace)

lemma default_code_bool: "default_code e \<Longrightarrow> \<not> SQLError_bool e"
  by (simp add: default_code_def SQLError_bool_CODE)

lemma RecordSet_bool_parts:
  "RecordSet_bool (RecordSet_fields fs)"
  "RecordSet_bool (RecordSet_error (fold (\<lambda>(c, s). SQLError_emplace c s) es SQLError_init))"
  "RecordSet_bool (RecordSet_push_back xs rs) = RecordSet_bool rs"
  using default_code_bool [OF default_code_init] default_code_bool [OF default_code_fold [OF default_code_init]]
  by (simp_all add: RecordSet_bool_def RecordSet_fields_def RecordSet_empty_def RecordSet_error_def RecordSet_push_back_def)

lemma spec_reply_reports:
  assumes "spec_reply m res = Some res'" and "list_all RecordSet_bool (m_rset res)"
  shows "list_all RecordSet_bool (m_rset res')"
proof (cases m)
  case (R_row vs)
  then obtain xs where "m_rset res \<noteq> []" "res' = append_row xs res"
    using assms(1) by (auto simp: spec_reply_def split: if_splits)
  then show ?thesis
    using assms(2)
    by (auto simp: append_row_def set_back_def RecordSet_bool_parts list_all_iff dest: in_set_butlastD)
qed (use assms in \<open>auto simp: spec_reply_def add_result_fields_def add_result_error_def RecordSet_bool_parts split: if_splits\<close>)

fun opens_set :: "reply \<Rightarrow> bool" where
  "opens_set (R_fields _) = True"
| "opens_set (R_error _) = True"
| "opens_set _ = False"

lemma spec_replies_report:
  assumes "spec_replies ms res = Some res'" and "list_all RecordSet_bool (m_rset res)"
  shows "list_all RecordSet_bool (m_rset res')"
  using assms
  by (induction ms arbitrary: res) (auto simp: bind_eq_Some_conv dest: spec_reply_reports)

lemma spec_reply_sets:
  "spec_reply m res = Some res' \<Longrightarrow> length (m_rset res') = length (m_rset res) + (if opens_set m then 1 else 0)"
  by (cases m) (auto simp: spec_reply_def add_result_fields_def add_result_error_def append_row_def set_back_def split: if_splits)

lemma spec_replies_sets:
  "spec_replies ms res = Some res' \<Longrightarrow> length (m_rset res') = length (m_rset res) + length (filter opens_set ms)"
  by (induction ms arbitrary: res) (auto simp: bind_eq_Some_conv dest: spec_reply_sets)

text \<open>
  C31. An error of the server is never visible to the application. \<open>SQLError\<close> starts out with the code
  of success, and the parser adds the server's fields with \<open>emplace\<close>, which keeps what is there. A
  blocking \<open>exec\<close> on an idle connection, whose answer is any well-formed sequence of replies, error
  responses with any SQLSTATE included, followed by \<open>ReadyForQuery\<close>, returns the success code; the
  result object has a record set for every row description and every error response of the answer,
  and every one of them converts to \<open>true\<close>, that is \<^emph>\<open>no error\<close>.
\<close>

theorem sql_errors_invisible:
  assumes io: "reliable io net" and c: "idle c f"
    and pg: "m_pgformat (heap f r) = PGFormat_init" and q: "sendable (Query q)"
    and sp: "spec_replies ms (heap f r) \<noteq> None" and old: "list_all RecordSet_bool (m_rset (heap f r))"
    and s: "net s = (replies_bytes ms @ ready_frame st @ rest, out)"
  shows "\<exists>m f' s'. (\<forall>n \<ge> m. Db_exec md5 io n q r c s = Some (Inr (ec_ok, c\<lparr>m_fsm := Some f'\<rparr>, s'))) \<and>
    net s' = (rest, out @ frame_of (Query q)) \<and> m_state f' = S_IDLE \<and>
    length (m_rset (heap f' r)) = length (m_rset (heap f r)) + length (filter opens_set ms) \<and>
    list_all RecordSet_bool (m_rset (heap f' r))"
proof -
  obtain res where res: "spec_replies ms (heap f r) = Some res" using sp by blast
  have "heap (after_query r res f) r = res" "m_state (after_query r res f) = S_IDLE"
    using c by (simp_all add: after_query_def idle_def)
  then show ?thesis
    using exec_call [OF io c pg q res s, of md5] spec_replies_report [OF res old] spec_replies_sets [OF res] by metis
qed

theorem sql_errors_invisible_witness:
  "\<exists>m f' s'. (\<forall>n \<ge> m. Db_exec (\<lambda>_. []) script_io n ''select -7'' 0 demo_conn
        (replies_bytes [R_error [(CHR ''S'', ''ERROR''), (CHR ''C'', ''42601''), (CHR ''M'', ''syntax error'')]] @
           ready_frame (CHR ''I'') @ [], [])
      = Some (Inr (ec_ok, demo_conn\<lparr>m_fsm := Some f'\<rparr>, s'))) \<and>
    length (m_rset (heap f' 0)) = 1 \<and> list_all RecordSet_bool (m_rset (heap f' 0))"
proof -
  let ?ms = "[R_error [(CHR ''S'', ''ERROR''), (CHR ''C'', ''42601''), (CHR ''M'', ''syntax error'')]]"
  have "spec_replies ?ms (heap demo_fsm 0) \<noteq> None" "m_rset (heap demo_fsm 0) = []" "length (filter opens_set ?ms) = 1"
    by (simp_all add: spec_reply_def enc_errfields_def valid_errfield_def demo_idle(3) demo_heap_def ResultSet_init_def)
  moreover have "id (replies_bytes ?ms @ ready_frame (CHR ''I'') @ [], []) = (replies_bytes ?ms @ ready_frame (CHR ''I'') @ [], [])"
    by simp
  ultimately show ?thesis
    using sql_errors_invisible [OF script_reliable demo_idle(1,2) demo_sendable(1), of ?ms "(replies_bytes ?ms @ ready_frame (CHR ''I'') @ [], [])"
        "CHR ''I''" "[]" "[]" "\<lambda>_. []"]
    by simp blast
qed

text \<open>
  C32. A refused login is reported as success. When the server answers the startup message with an
  \<open>ErrorResponse\<close>, \<open>authError\<close> passes on the code of \<^emph>\<open>parsing\<close> the response: the handler given to
  \<open>connect\<close> is called with the success code, while the machine stays in the state \<open>AUTH\<close>.
\<close>

theorem login_error_is_success:
  assumes "list_all valid_errfield es" and "length (enc_errfields es) < 2 ^ 31"
    and "m_state f = S_AUTH" and "m_ehandler f = Some h"
  shows "FSM_next md5 ErrorResponse_mtype (header_of ErrorResponse_mtype (enc_errfields es)) (enc_errfields es) f
         = Inr (f\<lparr>calls := calls f @ [(h, ec_ok)]\<rparr>)"
proof -
  let ?h = "header_of ErrorResponse_mtype (enc_errfields es)"
  have "ErrorResponse_deserialize ?h (enc_errfields es) SQLError_init
      = Inr (ec_ok, fold (\<lambda>(c, s). SQLError_emplace c s) es SQLError_init)"
    using ErrorResponse_enc [OF assms(1), of ?h "[]"] accepts_header_of [OF assms(2)] by simp
  then show ?thesis
    using assms(3,4) by (simp add: FSM_next_def mtype_defs authError_def call_handler_def)
qed

theorem login_error_is_success_witness:
  "FSM_next (\<lambda>_. []) ErrorResponse_mtype
     (header_of ErrorResponse_mtype (enc_errfields [(CHR ''C'', ''28P01'')])) (enc_errfields [(CHR ''C'', ''28P01'')])
     (sample_reading\<lparr>pending := []\<rparr>)
   = Inr (sample_reading\<lparr>pending := [], calls := calls (sample_reading\<lparr>pending := []\<rparr>) @ [(5, ec_ok)]\<rparr>)"
  by (rule login_error_is_success)
    (simp_all add: valid_errfield_def enc_errfields_def sample_reading_def FSM_init_def)

text \<open>
  C33. A request for an MD5 password starts two reads. \<open>authenticate\<close> calls \<open>receive\<close> after starting to
  write the password, and the write's callback calls it again: once the password is written, two
  header reads are outstanding on the same stream.
\<close>

theorem md5_login_reads_twice:
  assumes salt: "length salt = 4" and f: "pending f = []" "m_state f = S_AUTH"
    and pw: "sendable (Password (Password_init md5 ''gptest'' ''secret'' salt))"
  shows "\<exists>f1. FSM_next md5 Authentication_mtype (header_of Authentication_mtype (be32 AUTH_MD5_PASSWORD @ salt))
      (be32 AUTH_MD5_PASSWORD @ salt) f = Inr f1 \<and>
    fire md5 0 (Write_done ec_ok k) f1 =
      Inr (f\<lparr>pending := [Op_read Header_size K_header, Op_read Header_size K_header]\<rparr>)"
proof -
  let ?b = "be32 AUTH_MD5_PASSWORD @ salt"
  let ?m = "Password (Password_init md5 ''gptest'' ''secret'' salt)"
  let ?w = "writing ?m K_then_receive f"
  have d: "drop 0 ?b = be32 AUTH_MD5_PASSWORD @ (salt @ [])" by simp
  have "deserializeInt32 ?b 0 = Inr (AUTH_MD5_PASSWORD, 4)" "deserializeByte4 ?b 4 = Inr (salt, 4)"
    using int32_codec.dec_enc [OF TrueI d] byte4_codec.dec_enc [OF _ drop_advance [OF d]] salt by simp_all
  then have au: "Authentication_deserialize (header_of Authentication_mtype ?b) ?b Authentication_init
      = Inr (ec_ok, Authentication_init\<lparr>m_auth_type := Some AUTH_MD5_PASSWORD, m_salt := Some salt\<rparr>)"
    using salt guarded_accepts [OF accepts_header_of, of ?b]
    by (simp add: Authentication_deserialize_def) (simp add: header_of_def)
  have st: "f\<lparr>m_state := S_AUTH\<rparr> = f" using f(2) by (cases f) simp
  have ne: "AUTH_MD5_PASSWORD \<noteq> AUTH_OK" by (simp add: AUTH_MD5_PASSWORD_def AUTH_OK_def)
  have "authenticate md5 (header_of Authentication_mtype ?b) ?b f = receive ?w"
    using con_write_idle [OF pw f(1)] by (simp add: authenticate_def au ne st)
  then have "FSM_next md5 Authentication_mtype (header_of Authentication_mtype ?b) ?b f = receive ?w"
    using f(2) by (simp add: FSM_next_def)
  then show ?thesis
    by (simp add: receive_eq issue_def writing_def fire_def)
qed

theorem md5_login_reads_twice_witness:
  "\<exists>f1. FSM_next (\<lambda>_. ''0123456789abcdef'') Authentication_mtype
      (header_of Authentication_mtype (be32 AUTH_MD5_PASSWORD @ ''salt'')) (be32 AUTH_MD5_PASSWORD @ ''salt'')
      (sample_reading\<lparr>pending := []\<rparr>) = Inr f1 \<and>
    fire (\<lambda>_. ''0123456789abcdef'') 0 (Write_done ec_ok 41) f1 =
      Inr ((sample_reading\<lparr>pending := []\<rparr>)\<lparr>pending := [Op_read Header_size K_header, Op_read Header_size K_header]\<rparr>)"
  by (rule md5_login_reads_twice)
    (simp_all add: sample_reading_def FSM_init_def sendable_def Password_init_def length_toHex)

text \<open>
  \<open>parse\<close> leaves \<open>m_result\<close> alone: an error response to it is appended to the result object of the
  last \<open>exec\<close>, an object the caller of \<open>prepare\<close> did not pass.
\<close>

theorem parse_error_to_old_result:
  assumes f: "m_state f = S_IDLE" "pending f = []" "m_result f = Some r"
    and q: "sendable (Parse (dbq_name q) (dbq_query q) [])"
    and es: "list_all valid_errfield es" "length (enc_errfields es) < 2 ^ 31"
  shows "\<exists>f1. FSM_parse q eh f = Inr f1 \<and>
    FSM_next md5 ErrorResponse_mtype (header_of ErrorResponse_mtype (enc_errfields es)) (enc_errfields es) (f1\<lparr>pending := []\<rparr>)
    = Inr (waiting (set_result r (add_result_error (fold (\<lambda>(c, s). SQLError_emplace c s) es SQLError_init) (heap f r)) f1))"
proof -
  obtain f1 where f1: "FSM_parse q eh f = Inr f1" "m_result f1 = Some r" "heap f1 = heap f" "running f1"
    using f q by (simp add: FSM_parse_def con_write_idle writing_def running_def)
  then show ?thesis using next_ErrorResponse [OF f1(4,2) es, of md5] by auto
qed

theorem parse_error_to_old_result_witness:
  "\<exists>f1. FSM_parse demo_query 3 (demo_fsm\<lparr>m_result := Some 0\<rparr>) = Inr f1 \<and>
    FSM_next (\<lambda>_. []) ErrorResponse_mtype (header_of ErrorResponse_mtype (enc_errfields [(CHR ''C'', ''42601'')]))
      (enc_errfields [(CHR ''C'', ''42601'')]) (f1\<lparr>pending := []\<rparr>)
    = Inr (waiting (set_result 0 (add_result_error (fold (\<lambda>(c, s). SQLError_emplace c s) [(CHR ''C'', ''42601'')] SQLError_init)
        (heap (demo_fsm\<lparr>m_result := Some 0\<rparr>) 0)) f1))"
  by (rule parse_error_to_old_result)
    (simp_all add: demo_fsm_def FSM_init_def sendable_def demo_query_def DBQuery_named_def valid_errfield_def enc_errfields_def)

section \<open>Malformed input\<close>

text \<open>
  A header whose length field is less than four is not answered with an error code: the body
  length is negative, its conversion to \<open>size_t\<close> asks for a buffer no vector can have, and
  \<open>std::length_error\<close> leaves the read handler.
\<close>

theorem negative_body_length:
  assumes "sint n < 4" and "- (2 ^ 31) + 4 \<le> sint n" and "\<not> ec_bool ec"
  shows "resume md5 K_header (Read_done ec 5 (t # be32 n)) f = Inl (Throw Length_Error)"
proof -
  have "sint (word_of_int (sint n - 4) :: int32) < 0"
    using assms(1,2) by (subst sint_word_of_int32) simp_all
  then have "max_alloc < size_of_int (word_of_int (sint n - 4))" by (rule size_of_int_neg)
  then show ?thesis
    using assms(3) Header_deserialize_eq [OF assms(2), of t "[]" Header_init]
    by (simp add: con_read_def initiate_read_def)
qed

theorem negative_body_length_witness:
  "resume (\<lambda>_. []) K_header (Read_done ec_ok 5 (CHR ''Z'' # be32 0)) sample_reading = Inl (Throw Length_Error)"
  by (rule negative_body_length) simp_all

text \<open>
  A NULL column is not decoded. The protocol marks NULL by the size -1; a row whose next column,
  of a type with a text or integer decoder, is NULL makes the row parser throw
  \<open>std::length_error\<close>, after the columns before it have been stored.
\<close>

theorem null_column_throws:
  assumes "deserializeInt32 b pos = Inr (- 1, 4)"
    and "rs_good res" and "rs_ready res" and "i < length (rs_expects res)"
    and "type_format (rs_expects res ! i) \<noteq> 1" and "type_oid (rs_expects res ! i) \<noteq> oid_value PG_BOOLOID"
  shows "row_columns add_column (Suc n) i b pos res = Inl (Throw Length_Error)"
proof -
  have "PGFormat_decode PGFormat_init (rs_expects res ! i) b (pos + 4) (- 1) = Inl (Throw Length_Error)"
    using assms(5,6) by (auto simp: PGFormat_decode_def PGFormat_init_lookup any_of_def decodeInt4_def decodeText_def make_string_null)
  then show ?thesis
    using assms(1-4)
    by (simp add: add_column_def rs_good_def rs_ready_def rs_expects_def vec_back_def vec_at_def RecordSet_back_def)
qed

theorem null_column_throws_witness:
  "row_columns add_column (Suc 0) 0 (be32 (- 1)) 0
     (append_row [] (add_result_fields [demo_field] (demo_heap 0))) = Inl (Throw Length_Error)"
  by (rule null_column_throws)
    (use int32_codec.dec_front [of "- 1" "[]"] in \<open>simp_all add: rs_good_def rs_ready_def rs_expects_def append_row_def set_back_def
      add_result_fields_def RecordSet_push_back_def RecordSet_fields_def demo_heap_def ResultSet_init_def demo_field_def\<close>)

end
