(* ===== verification/Protocol_Properties.thy ===== *)
theory Protocol_Properties
  imports Dialogue
begin

text \<open>
  What the message layer promises, frame by frame: layout of the messages the client sends, read
  back with readers that follow the protocol's description, and recovery of what the server sent
  by the client's parsers, header included.
\<close>

section \<open>Frames of the client\<close>

text \<open>
  C28. Every message the client sends is a well-formed frame: \<open>Message::serialize\<close> succeeds, and the
  body is the message's fields in the order of the protocol's description. The header of a message
  with a type byte, read back by \<open>Header::deserialize\<close>, carries that type and exactly the length of
  the body. The two messages without one, \<open>StartUp\<close> and \<open>SSLRequest\<close>, have a header of four bytes:
  the length of the body plus four.
\<close>

theorem message_frame:
  assumes "outbound msg" and "length (body_of msg) < 2 ^ 31 - 4"
  shows "\<exists>hb. Message_serialize msg [] [] = Inr (ec_ok, hb, body_of msg) \<and>
    (if messageType msg = NUL
     then (msg = SSLRequest \<or> (\<exists>opt. msg = StartUp opt)) \<and> length hb = 4 \<and>
       (\<exists>n. deserializeInt32 hb 0 = Inr (n, 4) \<and> unat n = length (body_of msg) + 4)
     else Header_deserialize hb Header_init = Inr (ec_ok, header_of (messageType msg) (body_of msg)))"
proof -
  let ?n = "word_of_nat (length (body_of msg) + 4) :: int32"
  have ser: "Message_serialize msg [] [] = Inr (ec_ok, frame_head (messageType msg) ?n, body_of msg)"
    by (rule Message_serialize_eq [OF assms])
  show ?thesis
  proof (cases "messageType msg = NUL")
    case True
    have "unat ?n = length (body_of msg) + 4"
      using assms(2) by (simp add: unat_of_nat del: of_nat_add)
    moreover have "deserializeInt32 (frame_head (messageType msg) ?n) 0 = Inr (?n, 4)"
      using int32_codec.dec_front [of ?n "[]"] True by (simp add: frame_head_def)
    moreover have "msg = SSLRequest \<or> (\<exists>opt. msg = StartUp opt)"
      using assms(1) True by (cases msg) (auto simp: mtype_defs)
    ultimately show ?thesis using ser True by (auto simp: frame_head_def)
  next
    case False
    have "take 5 (frame (messageType msg) (body_of msg) @ []) = frame_head (messageType msg) ?n"
      using False by (simp add: frame_def frame_head_def)
    then show ?thesis using ser False header_of_frame [OF assms(2), of "messageType msg" "[]"] by simp
  qed
qed

theorem message_frame_witness:
  "(\<exists>hb. Message_serialize (Query ''select 1'') [] [] = Inr (ec_ok, hb, ''select 1'' @ [NUL]) \<and>
    Header_deserialize hb Header_init = Inr (ec_ok, \<lparr>m_mtype = CHR ''Q'', m_body_length = 9\<rparr>)) \<and>
   (\<exists>hb n. Message_serialize SSLRequest [] [] = Inr (ec_ok, hb, be32 SSL_REQUEST_CODE) \<and>
    length hb = 4 \<and> deserializeInt32 hb 0 = Inr (n, 4) \<and> unat n = 8)"
  using message_frame [of "Query ''select 1''"] message_frame [of SSLRequest]
  by (auto simp: header_of_def cstr_def mtype_defs)

text \<open>A reader for the body of \<open>Bind\<close>, as a server reads it.\<close>

definition read_param :: "buffer \<Rightarrow> nat \<Rightarrow> (string \<times> nat) res" where
  "read_param b pos =
     andThen (deserializeInt32 b pos) (\<lambda>(n, k).
     andThen (read_mem (size_of_int n) b (pos + k)) (\<lambda>v. Inr (v, k + length v)))"

definition read_bind :: "buffer \<Rightarrow> (string \<times> string \<times> int32 \<times> string list \<times> int32 \<times> int32) res" where
  "read_bind b =
     andThen (deserialize_string b 0) (\<lambda>(portal, k1).
     andThen (deserialize_string b k1) (\<lambda>(name, k2).
     andThen (deserializeInt16 b (k1 + k2)) (\<lambda>(formats, k3).
     andThen (deserializeInt16 b (k1 + k2 + k3)) (\<lambda>(n, k4).
     andThen (read_n read_param (unat n) b (k1 + k2 + k3 + k4)) (\<lambda>(params, p).
     andThen (deserializeInt16 b p) (\<lambda>(rformats, k5).
     andThen (deserializeInt16 b (p + k5)) (\<lambda>(rformat, k6).
       Inr (portal, name, formats, params, rformats, rformat))))))))"

interpretation param_codec: codec read_param enc_col "\<lambda>v. length v < 2 ^ 31"
proof
  fix b pos x k
  assume "read_param b pos = Inr (x, k)"
  then show "0 < k \<and> pos + k \<le> length b"
    by (auto simp: read_param_def andThen_eq_Inr read_mem_Inr dest!: int32_codec.in_bounds)
next
  fix b pos e
  assume "read_param b pos = Inl e"
  then show "e = Undefined_Behaviour"
    by (auto simp: read_param_def andThen_eq_Inl read_mem_def dest!: int32_codec.only_ub split: if_splits)
next
  fix x pos b rest
  assume v: "length x < 2 ^ 31" and "drop pos b = enc_col x @ rest"
  then have d: "drop pos b = be32 (word_of_nat (length x)) @ (x @ rest)" by (simp add: enc_col_def)
  have r: "deserializeInt32 b pos = Inr (word_of_nat (length x), 4)"
    using int32_codec.dec_enc [OF TrueI d] by simp
  have d2: "drop (pos + 4) b = x @ rest" using drop_advance [OF d] by simp
  have "length b = pos + 4 + length x + length rest"
    using arg_cong [OF d, of length] int32_codec.in_bounds [OF r] by simp
  then have "read_mem (length x) b (pos + 4) = Inr x" using d2 by (simp add: read_mem_Inr)
  then show "read_param b pos = Inr (x, length (enc_col x))"
    using r v by (simp add: read_param_def size_of_int_of_nat enc_col_def)
qed

lemma ucast_word_of_nat: "(ucast (word_of_nat n :: int32) :: int16) = word_of_nat n"
  by transfer simp

lemma be16_uint16: "be16 (word_of_nat n) = enc_uint16 (word_of_nat n)"
  by (simp only: enc_uint16_def ucast_word_of_nat)

text \<open>
  C29. \<open>Bind\<close> carries its parameters: a server that reads the body \<open>Bind::serialize\<close> produced finds the
  portal, the statement's name, no parameter formats (all text), exactly the bound values in order,
  and one result format code, text.
\<close>

theorem bind_readable:
  assumes "NUL \<notin> set portal" and "NUL \<notin> set name" and "length bs < 2 ^ 16" and "list_all (\<lambda>v. length v < 2 ^ 31) bs"
  shows "read_bind (snd (Bind_serialize name portal bs [])) = Inr (portal, name, 0, bs, 1, 0)"
proof -
  let ?n = "word_of_nat (length bs) :: int32"
  let ?b = "snd (Bind_serialize name portal bs [])"
  have "serialize_body (Bind name portal bs) [] = (ec_ok, [] @ body_of (Bind name portal bs))"
    by (rule serialize_body_eq) simp
  then have "?b = body_of (Bind name portal bs)" by simp
  then have d1: "drop 0 ?b = cstr portal @ cstr name @ enc_uint16 0 @ enc_uint16 ?n @ concat (map enc_col bs)
      @ enc_uint16 1 @ enc_uint16 0 @ []"
    using be16_uint16 [of "length bs"] be16_uint16 [of 0] be16_uint16 [of 1] by (simp add: enc_col_def [abs_def])
  note d2 = drop_advance [OF d1]
  note d3 = drop_advance [OF d2]
  note d4 = drop_advance [OF d3]
  note d5 = drop_advance [OF d4]
  note d6 = drop_advance [OF d5]
  note d7 = drop_advance [OF d6]
  have f: "fits_uint16 0" "fits_uint16 1" "fits_uint16 ?n" using assms(3) by (simp_all add: fits_uint16_def unat_of_nat)
  show ?thesis
    using string_codec.dec_enc [OF assms(1) d1] string_codec.dec_enc [OF assms(2) d2]
      int16_codec.dec_enc [OF f(1) d3] int16_codec.dec_enc [OF f(3) d4] param_codec.read_n_enc [OF assms(4) d5]
      int16_codec.dec_enc [OF f(2) d6] int16_codec.dec_enc [OF f(1) d7] assms(3)
    by (simp add: read_bind_def unat_count add.assoc)
qed

theorem bind_readable_witness:
  "read_bind (snd (Bind_serialize ''s'' ''sport'' [''1'', ''two''] [])) = Inr (''sport'', ''s'', 0, [''1'', ''two''], 1, 0)"
  by (rule bind_readable) simp_all

text \<open>A reader for the name and value strings of the startup message.\<close>

definition read_pair :: "buffer \<Rightarrow> nat \<Rightarrow> ((string \<times> string) \<times> nat) res" where
  "read_pair b pos =
     andThen (deserialize_string b pos) (\<lambda>(k, n).
     andThen (deserialize_string b (pos + n)) (\<lambda>(v, m). Inr ((k, v), n + m)))"

interpretation pair_codec: codec read_pair "\<lambda>(k, v). cstr k @ cstr v" "\<lambda>(k, v). NUL \<notin> set k \<and> NUL \<notin> set v"
proof
  fix b pos x k
  assume "read_pair b pos = Inr (x, k)"
  then show "0 < k \<and> pos + k \<le> length b"
    by (auto simp: read_pair_def andThen_eq_Inr dest!: string_codec.in_bounds)
next
  fix b pos e
  assume "read_pair b pos = Inl e"
  then show "e = Undefined_Behaviour"
    by (auto simp: read_pair_def andThen_eq_Inl dest!: string_codec.only_ub)
next
  fix x :: "string \<times> string" and pos b rest
  assume v: "case x of (k, v) \<Rightarrow> NUL \<notin> set k \<and> NUL \<notin> set v" and d: "drop pos b = (case x of (k, v) \<Rightarrow> cstr k @ cstr v) @ rest"
  obtain k u where x: "x = (k, u)" by force
  have d1: "drop pos b = cstr k @ (cstr u @ rest)" using d by (simp add: x)
  show "read_pair b pos = Inr (x, length (case x of (k, v) \<Rightarrow> cstr k @ cstr v))"
    using string_codec.dec_enc [OF _ d1] string_codec.dec_enc [OF _ drop_advance [OF d1]] v by (simp add: read_pair_def x)
qed

text \<open>
  The startup message carries every option: its body starts with the protocol version and a server
  that reads name and value strings from there finds the entries of the option map, in the map's
  order, up to the closing zero byte, which is the last byte of the body.
\<close>

theorem startup_readable:
  assumes "list_all (\<lambda>(k, v). NUL \<notin> set k \<and> NUL \<notin> set v) opt"
  shows "let b = snd (StartUp_serialize opt []) in
    deserializeInt32 b 0 = Inr (PROTOCOL_VERSION, 4) \<and>
    read_n read_pair (length opt) b 4 = Inr (opt, length b - 1) \<and> drop (length b - 1) b = [NUL]"
proof -
  have "serialize_body (StartUp opt) [] = (ec_ok, [] @ body_of (StartUp opt))"
    by (rule serialize_body_eq) simp
  then have b: "snd (StartUp_serialize opt []) = body_of (StartUp opt)" by simp
  have d: "drop 0 (body_of (StartUp opt)) = be32 PROTOCOL_VERSION @ (concat (map (\<lambda>(k, v). cstr k @ cstr v) opt) @ [NUL])"
    by simp
  show ?thesis
    using int32_codec.dec_enc [OF TrueI d] pair_codec.read_n_enc [OF assms, of 4 "body_of (StartUp opt)" "[NUL]"]
    unfolding b Let_def by simp
qed

theorem startup_readable_witness:
  "let b = snd (StartUp_serialize [(''database'', ''db''), (''user'', ''joe'')] []) in
    deserializeInt32 b 0 = Inr (PROTOCOL_VERSION, 4) \<and>
    read_n read_pair (length [(''database'', ''db''), (''user'', ''joe'')]) b 4
      = Inr ([(''database'', ''db''), (''user'', ''joe'')], length b - 1) \<and> drop (length b - 1) b = [NUL]"
  by (rule startup_readable) simp

lemma hex_digit_chars: "n < 16 \<Longrightarrow> hex_digit n \<in> set ''0123456789abcdef''"
proof -
  assume "n < 16"
  then have "n \<in> set [0..<16]" by simp
  moreover have "\<forall>n \<in> set [0..<16]. hex_digit n \<in> set ''0123456789abcdef''" by code_simp
  ultimately show ?thesis by blast
qed

lemma toHex_chars: "set (toHex cs) \<subseteq> set ''0123456789abcdef''"
proof -
  have "set (hex2 c) \<subseteq> set ''0123456789abcdef''" for c
  proof -
    have c: "(of_char c :: nat) < 16 * 16" by simp
    have "hex_digit (of_char c div 16) \<in> set ''0123456789abcdef''"
      by (rule hex_digit_chars) (rule less_mult_imp_div_less [OF c])
    moreover have "hex_digit (of_char c mod 16) \<in> set ''0123456789abcdef''"
      by (rule hex_digit_chars) simp
    ultimately show ?thesis unfolding hex2_def by (simp only: list.set insert_subset empty_subsetI simp_thms)
  qed
  then show ?thesis unfolding toHex_eq by (induction cs) (simp_all only: list.map concat.simps set_append Un_subset_iff list.set empty_subsetI simp_thms)
qed

text \<open>
  C32. The password message: whatever the user, the password and the salt, and for any digest of 16 bytes
  (MD5's size), it carries the text \<open>md5\<close> followed by 32 lower-case hexadecimal digits and a
  terminating zero, 36 bytes in all, so the server reads it as one string.
\<close>

theorem password_shape:
  assumes "\<And>x. length (md5 x) = 16"
  shows "\<exists>ds. Password_serialize (Password_init md5 user pass salt) [] = (ec_ok, ''md5'' @ ds @ [NUL]) \<and>
    length ds = 32 \<and> set ds \<subseteq> set ''0123456789abcdef''"
proof -
  let ?s = "foldl push_back (toHex (md5 (pass @ user))) salt"
  have "Password_serialize (Password_init md5 user pass salt) [] = (ec_ok, ''md5'' @ toHex (md5 ?s) @ [NUL])"
    by (simp add: Password_serialize_def Password_init_def Let_def wire_simps cstr_def)
  then show ?thesis using assms toHex_chars by (intro exI [of _ "toHex (md5 ?s)"]) (simp add: length_toHex)
qed

theorem password_shape_witness:
  "\<exists>ds. Password_serialize (Password_init (\<lambda>x. take 16 (x @ ''0123456789abcdef'')) ''gptest'' ''secret'' ''salt'') []
      = (ec_ok, ''md5'' @ ds @ [NUL]) \<and> length ds = 32 \<and> set ds \<subseteq> set ''0123456789abcdef''"
  by (rule password_shape) simp

section \<open>Frames of the server\<close>

text \<open>
  A result code other than success means the frame was refused, and nothing else: when a parser
  returns at all, its code is success exactly when the body is long enough and the header's type is
  the parser's own, and on an error the message object is unchanged (stated for the parsers of row
  descriptions, error responses and rows, for any result object behind the row parser).
\<close>

theorem parser_codes:
  "RowDescription_deserialize h b fs = Inr (ec1, fs') \<Longrightarrow>
   ErrorResponse_deserialize h b e = Inr (ec2, e') \<Longrightarrow>
   DataRow_deserialize start put h b r = Inr (ec3, r') \<Longrightarrow>
   (ec1 = ec_ok \<longleftrightarrow> size_of_int (m_body_length h) \<le> length b \<and> m_mtype h = RowDescription_mtype) \<and> (ec_bool ec1 \<longrightarrow> fs' = fs) \<and>
   (ec2 = ec_ok \<longleftrightarrow> size_of_int (m_body_length h) \<le> length b \<and> m_mtype h = ErrorResponse_mtype) \<and> (ec_bool ec2 \<longrightarrow> e' = e) \<and>
   (ec3 = ec_ok \<longleftrightarrow> size_of_int (m_body_length h) \<le> length b \<and> m_mtype h = DataRow_mtype) \<and> (ec_bool ec3 \<longrightarrow> r' = r)"
  using rowDescription.result_code [of h b fs ec1 fs'] rowDescription.error_keeps [of h b fs ec1 fs']
    errorResponse.result_code [of h b e ec2 e'] errorResponse.error_keeps [of h b e ec2 e']
    dataRow.result_code [of start put h b r ec3 r'] dataRow.error_keeps [of start put h b r ec3 r']
  by (simp add: not_less)

theorem parser_codes_witness:
  "(EBADMSG = ec_ok \<longleftrightarrow> size_of_int (m_body_length \<lparr>m_mtype = CHR ''T'', m_body_length = 2\<rparr>) \<le> length [NUL, NUL] \<and>
      CHR ''T'' = ErrorResponse_mtype) \<and>
   RowDescription_deserialize \<lparr>m_mtype = CHR ''T'', m_body_length = 2\<rparr> [NUL, NUL] [] = Inr (ec_ok, [])"
proof -
  let ?h = "\<lparr>m_mtype = CHR ''T'', m_body_length = 2\<rparr> :: Header"
  have l: "\<not> length [NUL, NUL] < size_of_int (m_body_length ?h)" by (simp add: size_of_int_def)
  have a: "accepts RowDescription_mtype ?h (enc_fields [] @ [])" by (simp add: accepts_def mtype_defs size_of_int_def enc_fields_def)
  have z: "enc_fields [] @ [] = [NUL, NUL]" by code_simp
  have 1: "RowDescription_deserialize ?h [NUL, NUL] [] = Inr (ec_ok, [])"
    using RowDescription_enc [OF _ _ a, of "[]"] unfolding z by simp
  have 2: "ErrorResponse_deserialize ?h [NUL, NUL] [] = Inr (EBADMSG, [])"
    using errorResponse.wrong_type [OF l, of "[]"] by (simp add: mtype_defs)
  have 3: "DataRow_deserialize add_row add_column ?h [NUL, NUL] (demo_heap 0) = Inr (EBADMSG, demo_heap 0)"
    using dataRow.wrong_type [OF l] by (simp add: mtype_defs)
  show ?thesis using parser_codes [OF 1 2 3] 1 l by (simp add: mtype_defs)
qed

text \<open>
  C27. Row descriptions survive the wire: from the frame of a description of fewer than 65536 columns the
  client's header parser and \<open>RowDescription::deserialize\<close> recover every column's name, table,
  number, type, size, modifier and format, in order. (The 16-bit numbers are those below 65536: a
  negative one is read as its unsigned value.)
\<close>

theorem row_description_roundtrip:
  assumes "length fs < 2 ^ 16" and "list_all valid_field fs" and "length (enc_fields fs) < 2 ^ 31 - 4"
  shows "\<exists>hdr. Header_deserialize (take 5 (frame RowDescription_mtype (enc_fields fs))) Header_init = Inr (ec_ok, hdr) \<and>
    RowDescription_deserialize hdr (drop 5 (frame RowDescription_mtype (enc_fields fs))) acc = Inr (ec_ok, acc @ fs)"
  using header_of_frame [OF assms(3), of RowDescription_mtype "[]"] assms(3)
    RowDescription_enc [OF assms(1,2), of "header_of RowDescription_mtype (enc_fields fs)" "[]" acc]
    accepts_header_of [of "enc_fields fs" RowDescription_mtype]
  by (simp add: frame_def)

theorem row_description_roundtrip_witness:
  "\<exists>hdr. Header_deserialize (take 5 (frame RowDescription_mtype (enc_fields [demo_field]))) Header_init = Inr (ec_ok, hdr) \<and>
    RowDescription_deserialize hdr (drop 5 (frame RowDescription_mtype (enc_fields [demo_field]))) [] = Inr (ec_ok, [] @ [demo_field])"
  by (rule row_description_roundtrip) (simp_all add: demo_facts enc_fields_def)

text \<open>
  C26. Rows survive the wire: when the row's values are ones the columns' decoders take, the frame of the
  row makes \<open>DataRow::deserialize\<close>, through \<open>add_row\<close> and \<open>add_column\<close>, append exactly one record
  to the last record set, with the decoded value of every column, and change nothing else of the
  result object.
\<close>

theorem data_row_roundtrip:
  assumes "rs_good res" and "decode_row (rs_expects res) vs = Some xs" and "length vs < 2 ^ 16"
    and "length (enc_row vs) < 2 ^ 31 - 4"
  shows "\<exists>hdr. Header_deserialize (take 5 (frame DataRow_mtype (enc_row vs))) Header_init = Inr (ec_ok, hdr) \<and>
    DataRow_deserialize add_row add_column hdr (drop 5 (frame DataRow_mtype (enc_row vs))) res = Inr (ec_ok, append_row xs res)"
  using header_of_frame [OF assms(4), of DataRow_mtype "[]"] assms(4)
    DataRow_appends [OF assms(1) decode_row_decodes [OF assms(2)] assms(3), of "header_of DataRow_mtype (enc_row vs)" "[]"]
    accepts_header_of [of "enc_row vs" DataRow_mtype]
  by (simp add: frame_def)

theorem data_row_roundtrip_witness:
  "\<exists>hdr. Header_deserialize (take 5 (frame DataRow_mtype (enc_row [show_int (- 7)]))) Header_init = Inr (ec_ok, hdr) \<and>
    DataRow_deserialize add_row add_column hdr (drop 5 (frame DataRow_mtype (enc_row [show_int (- 7)])))
      (add_result_fields [demo_field] (demo_heap 0))
    = Inr (ec_ok, append_row [AInt (- 7)] (add_result_fields [demo_field] (demo_heap 0)))"
  by (rule data_row_roundtrip)
    (simp_all add: rs_good_def rs_expects_def add_result_fields_def RecordSet_fields_def demo_heap_def ResultSet_init_def
      demo_col demo_facts enc_row_def enc_col_def)

lemma find_errfields:
  "map_ok schar e \<Longrightarrow> map_of (fold (\<lambda>(c, s). SQLError_emplace c s) es e) c =
     (case map_of e c of Some v \<Rightarrow> Some v | None \<Rightarrow> map_of es c)"
proof (induction es arbitrary: e)
  case (Cons p es)
  obtain d s where p: "p = (d, s)" by force
  have "map_of (SQLError_emplace d s e) c = (case map_of e c of Some v \<Rightarrow> Some v | None \<Rightarrow> if c = d then Some s else None)"
    using Cons.prems by (auto simp: SQLError_emplace_def errfield.find_emplace split: option.splits)
  then show ?case
    using Cons.IH [OF SQLError_emplace_ok [OF Cons.prems]] by (auto simp: p split: option.splits)
qed (simp split: option.splits)

text \<open>
  What the client keeps of an error response: for every field type other than \<open>C\<close> and \<open>M\<close>, the first
  string the server sent with it; for these two, the values of success that the \<open>SQLError\<close> was
  created with, whatever the server sent.
\<close>

theorem error_response_fields:
  assumes "list_all valid_errfield es" and "length (enc_errfields es) < 2 ^ 31 - 4"
  shows "\<exists>hdr e. Header_deserialize (take 5 (frame ErrorResponse_mtype (enc_errfields es))) Header_init = Inr (ec_ok, hdr) \<and>
    ErrorResponse_deserialize hdr (drop 5 (frame ErrorResponse_mtype (enc_errfields es))) SQLError_init = Inr (ec_ok, e) \<and>
    (\<forall>c. map_of e c = (if c = field_char CODE then Some ''00000''
                        else if c = field_char MESSAGE then Some ''success'' else map_of es c))"
  using header_of_frame [OF assms(2), of ErrorResponse_mtype "[]"] assms(2)
    ErrorResponse_enc [OF assms(1), of "header_of ErrorResponse_mtype (enc_errfields es)" "[]" SQLError_init]
    accepts_header_of [of "enc_errfields es" ErrorResponse_mtype] find_errfields [OF SQLError_init_ok, of es]
  by (simp add: frame_def SQLError_init_eq)

theorem error_response_fields_witness:
  "\<exists>hdr e. Header_deserialize (take 5 (frame ErrorResponse_mtype (enc_errfields [(CHR ''H'', ''hint''), (CHR ''C'', ''42601'')]))) Header_init
      = Inr (ec_ok, hdr) \<and>
    ErrorResponse_deserialize hdr (drop 5 (frame ErrorResponse_mtype (enc_errfields [(CHR ''H'', ''hint''), (CHR ''C'', ''42601'')])))
      SQLError_init = Inr (ec_ok, e) \<and>
    (\<forall>c. map_of e c = (if c = field_char CODE then Some ''00000''
          else if c = field_char MESSAGE then Some ''success'' else map_of [(CHR ''H'', ''hint''), (CHR ''C'', ''42601'')] c))"
  by (rule error_response_fields) (simp_all add: valid_errfield_def enc_errfields_def)

end
