(* ===== verification/FunctionRunner.thy ===== *)
theory FunctionRunner
  imports DbResult
begin

text \<open>
  \<^verbatim>\<open>src/lib/utest/function-runner.h\<close>, \<^verbatim>\<open>src/lib/utest/function-runner.cpp\<close>: the registry of named
  functions of the test programs. A function acts on the program's state \<open>'s\<close> and may throw; an
  empty \<open>std::function\<close> is \<open>None\<close>.
\<close>

type_synonym 's Function = "(int32 \<Rightarrow> string list \<Rightarrow> 's \<Rightarrow> 's res) option"

record 's FunctionRunner =
  m_function :: "(string, 's Function) std_map"

definition FunctionRunner_init :: "'s FunctionRunner" where
  "FunctionRunner_init = \<lparr>m_function = []\<rparr>"

definition FunctionRunner_add :: "string \<Rightarrow> 's Function \<Rightarrow> 's FunctionRunner \<Rightarrow> 's FunctionRunner" where
  "FunctionRunner_add name func fr = fr\<lparr>m_function := map_insert id name func (m_function fr)\<rparr>"

definition FunctionRunner_run ::
  "'s FunctionRunner \<Rightarrow> string \<Rightarrow> int32 \<Rightarrow> string list \<Rightarrow> 's \<Rightarrow> (bool \<times> 's) res" where
  "FunctionRunner_run fr name argc argv s =
     (case map_of (m_function fr) name of
        Some (Some f) \<Rightarrow> andThen (f argc argv s) (\<lambda>s'. Inr (True, s'))
      | Some None \<Rightarrow> Inl (Throw Bad_Function_Call)
      | None \<Rightarrow> Inr (False, s))"

lemma added_ok: "map_ok id (m_function (foldl (\<lambda>fr (n, f). FunctionRunner_add n f fr) FunctionRunner_init fs))"
proof (induction fs rule: rev_induct)
  case (snoc x fs)
  then show ?case by (cases x) (simp add: FunctionRunner_add_def map_ok_insert del: id_apply)
qed (simp add: FunctionRunner_init_def)

lemma added_find:
  "map_of (m_function (foldl (\<lambda>fr (n, f). FunctionRunner_add n f fr) FunctionRunner_init fs)) name = map_of (rev fs) name"
proof (induction fs rule: rev_induct)
  case (snoc x fs)
  then show ?case
    using added_ok [of fs] by (cases x) (simp add: FunctionRunner_add_def string_key.find_insert)
qed (simp add: FunctionRunner_init_def)

text \<open>
  The registry runs what was registered last: after any sequence of \<open>add\<close>, \<open>run\<close> calls exactly the
  function most recently added under the name, with the arguments unchanged, and returns \<open>true\<close>; for
  a name never added it returns \<open>false\<close> and nothing happens.
\<close>

theorem runner_last_added:
  "FunctionRunner_run (foldl (\<lambda>fr (n, f). FunctionRunner_add n f fr) FunctionRunner_init fs) name argc argv s =
     (case map_of (rev fs) name of
        Some (Some f) \<Rightarrow> andThen (f argc argv s) (\<lambda>s'. Inr (True, s'))
      | Some None \<Rightarrow> Inl (Throw Bad_Function_Call)
      | None \<Rightarrow> Inr (False, s))"
  by (simp add: FunctionRunner_run_def added_find)

end
