(* ===== verification/TtmathUInt.thy ===== *)
theory TtmathUInt
  imports Lapq_Prelude
begin

text \<open>
  \<^verbatim>\<open>src/lib/ttmath-0.9.4/ttmath/ttmathuint_noasm.h\<close>: the word and vector arithmetic of the big
  numbers that the test programs register as decoders for \<open>numeric\<close> and \<open>money\<close> columns, in the
  64-bit version without assembler.

  A \<open>UInt<value_size>\<close> is its \<open>table\<close>, a list of 64-bit words, lowest first; \<open>value_size\<close> is its
  length. Loops over the table are recursions over the list. A failing \<open>TTMATH_ASSERT\<close> is
  \<open>Undefined_Behaviour\<close> (the assertion is compiled in only for debugging). The number a table stands
  for is \<open>uval\<close>; every operation is specified by what it does to that number.
\<close>

unbundle bit_operations_syntax

type_synonym uint = "64 word"
type_synonym uint32 = "32 word"
type_synonym table = "uint list"

abbreviation (input) TTMATH_BITS_PER_UINT :: nat where
  "TTMATH_BITS_PER_UINT \<equiv> 64"

definition TTMATH_UINT_HIGHEST_BIT :: uint where
  "TTMATH_UINT_HIGHEST_BIT = 9223372036854775808"

definition TTMATH_UINT_MAX_VALUE :: uint where
  "TTMATH_UINT_MAX_VALUE = 18446744073709551615"

section \<open>Addition and subtraction\<close>

text \<open>The returned carry and \<open>*result\<close>.\<close>

definition AddTwoWords :: "uint \<Rightarrow> uint \<Rightarrow> uint \<Rightarrow> uint \<times> uint" where
  "AddTwoWords a b carry =
     (if carry = 0 then
        (let temp = a + b in (if temp < a then 1 else carry, temp))
      else
        (let carry1 = 1; temp = a + b + carry1 in (if temp > a then 0 else carry1, temp)))"

fun add_words :: "table \<Rightarrow> table \<Rightarrow> uint \<Rightarrow> uint \<times> table" where
  "add_words (a # as) (b # bs) c =
     (let (c1, r) = AddTwoWords a b c; (c2, rs) = add_words as bs c1 in (c2, r # rs))"
| "add_words as _ c = (c, as)"

definition UInt_Add :: "table \<Rightarrow> table \<Rightarrow> uint \<Rightarrow> uint \<times> table" where
  "UInt_Add t ss2 c = add_words t ss2 c"

text \<open>The loop \<open>for( ; i<value_size && c ; ++i)\<close>.\<close>

fun add_carry :: "table \<Rightarrow> uint \<Rightarrow> uint \<times> table" where
  "add_carry [] c = (c, [])"
| "add_carry (a # as) c =
     (if c \<noteq> 0 then (let (c1, r) = AddTwoWords a 0 c; (c2, rs) = add_carry as c1 in (c2, r # rs))
      else (c, a # as))"

definition UInt_AddInt :: "uint \<Rightarrow> nat \<Rightarrow> table \<Rightarrow> (uint \<times> table) res" where
  "UInt_AddInt value index t =
     (if index < length t then
        (let (c, r) = AddTwoWords (t ! index) value 0;
             (c1, rs) = add_carry (drop (index + 1) t) c
         in Inr (c1, take index t @ r # rs))
      else Inl Undefined_Behaviour)"

definition UInt_AddTwoInts :: "uint \<Rightarrow> uint \<Rightarrow> nat \<Rightarrow> table \<Rightarrow> (uint \<times> table) res" where
  "UInt_AddTwoInts x2 x1 index t =
     (if index + 1 < length t then
        (let (c, r1) = AddTwoWords (t ! index) x1 0;
             (c1, r2) = AddTwoWords (t ! (index + 1)) x2 c;
             (c2, rs) = add_carry (drop (index + 2) t) c1
         in Inr (c2, take index t @ r1 # r2 # rs))
      else Inl Undefined_Behaviour)"

text \<open>The second loop of \<open>AddVector\<close> runs to the end, whatever the carry.\<close>

fun add_zeros :: "table \<Rightarrow> uint \<Rightarrow> uint \<times> table" where
  "add_zeros [] c = (c, [])"
| "add_zeros (a # as) c = (let (c1, r) = AddTwoWords a 0 c; (c2, rs) = add_zeros as c1 in (c2, r # rs))"

definition UInt_AddVector :: "table \<Rightarrow> table \<Rightarrow> (uint \<times> table) res" where
  "UInt_AddVector ss1 ss2 =
     (if length ss1 < length ss2 then Inl Undefined_Behaviour
      else
        (let (c, rs) = add_words (take (length ss2) ss1) ss2 0;
             (c1, rs1) = add_zeros (drop (length ss2) ss1) c
         in Inr (c1, rs @ rs1)))"

definition SubTwoWords :: "uint \<Rightarrow> uint \<Rightarrow> uint \<Rightarrow> uint \<times> uint" where
  "SubTwoWords a b carry =
     (if carry = 0 then (if a < b then 1 else carry, a - b)
      else (let carry1 = 1 in (if a > b then 0 else carry1, a - b - carry1)))"

fun sub_words :: "table \<Rightarrow> table \<Rightarrow> uint \<Rightarrow> uint \<times> table" where
  "sub_words (a # as) (b # bs) c =
     (let (c1, r) = SubTwoWords a b c; (c2, rs) = sub_words as bs c1 in (c2, r # rs))"
| "sub_words as _ c = (c, as)"

definition UInt_Sub :: "table \<Rightarrow> table \<Rightarrow> uint \<Rightarrow> uint \<times> table" where
  "UInt_Sub t ss2 c = sub_words t ss2 c"

fun sub_carry :: "table \<Rightarrow> uint \<Rightarrow> uint \<times> table" where
  "sub_carry [] c = (c, [])"
| "sub_carry (a # as) c =
     (if c \<noteq> 0 then (let (c1, r) = SubTwoWords a 0 c; (c2, rs) = sub_carry as c1 in (c2, r # rs))
      else (c, a # as))"

definition UInt_SubInt :: "uint \<Rightarrow> nat \<Rightarrow> table \<Rightarrow> (uint \<times> table) res" where
  "UInt_SubInt value index t =
     (if index < length t then
        (let (c, r) = SubTwoWords (t ! index) value 0;
             (c1, rs) = sub_carry (drop (index + 1) t) c
         in Inr (c1, take index t @ r # rs))
      else Inl Undefined_Behaviour)"

fun sub_zeros :: "table \<Rightarrow> uint \<Rightarrow> uint \<times> table" where
  "sub_zeros [] c = (c, [])"
| "sub_zeros (a # as) c = (let (c1, r) = SubTwoWords a 0 c; (c2, rs) = sub_zeros as c1 in (c2, r # rs))"

definition UInt_SubVector :: "table \<Rightarrow> table \<Rightarrow> (uint \<times> table) res" where
  "UInt_SubVector ss1 ss2 =
     (if length ss1 < length ss2 then Inl Undefined_Behaviour
      else
        (let (c, rs) = sub_words (take (length ss2) ss1) ss2 0;
             (c1, rs1) = sub_zeros (drop (length ss2) ss1) c
         in Inr (c1, rs @ rs1)))"

section \<open>Shifts\<close>

fun rcl_one_words :: "table \<Rightarrow> uint \<Rightarrow> uint \<times> table" where
  "rcl_one_words [] c = (c, [])"
| "rcl_one_words (w # ws) c =
     (let new_c = (if w AND TTMATH_UINT_HIGHEST_BIT \<noteq> 0 then 1 else 0);
          (c1, rs) = rcl_one_words ws new_c
      in (c1, (push_bit 1 w OR c) # rs))"

definition UInt_Rcl2_one :: "uint \<Rightarrow> table \<Rightarrow> uint \<times> table" where
  "UInt_Rcl2_one c t = rcl_one_words t (if c \<noteq> 0 then 1 else c)"

text \<open>The loops of the right shifts run from the highest word down.\<close>

fun rcr_one_words :: "table \<Rightarrow> uint \<Rightarrow> uint \<times> table" where
  "rcr_one_words [] c = (c, [])"
| "rcr_one_words (w # ws) c =
     (let (c1, rs) = rcr_one_words ws c
      in (if w AND 1 \<noteq> 0 then TTMATH_UINT_HIGHEST_BIT else 0, (drop_bit 1 w OR c1) # rs))"

definition UInt_Rcr2_one :: "uint \<Rightarrow> table \<Rightarrow> uint \<times> table" where
  "UInt_Rcr2_one c t =
     (let (c1, rs) = rcr_one_words t (if c \<noteq> 0 then TTMATH_UINT_HIGHEST_BIT else c)
      in (if c1 \<noteq> 0 then 1 else 0, rs))"

fun rcl_words :: "nat \<Rightarrow> table \<Rightarrow> uint \<Rightarrow> uint \<times> table" where
  "rcl_words bits [] c = (c, [])"
| "rcl_words bits (w # ws) c =
     (let new_c = drop_bit (TTMATH_BITS_PER_UINT - bits) w;
          (c1, rs) = rcl_words bits ws new_c
      in (c1, (push_bit bits w OR c) # rs))"

definition UInt_Rcl2 :: "nat \<Rightarrow> uint \<Rightarrow> table \<Rightarrow> (uint \<times> table) res" where
  "UInt_Rcl2 bits c t =
     (if 0 < bits \<and> bits < TTMATH_BITS_PER_UINT then
        (let move = TTMATH_BITS_PER_UINT - bits;
             (c1, rs) = rcl_words bits t (if c \<noteq> 0 then drop_bit move TTMATH_UINT_MAX_VALUE else c)
         in Inr (c1 AND 1, rs))
      else Inl Undefined_Behaviour)"

fun rcr_words :: "nat \<Rightarrow> table \<Rightarrow> uint \<Rightarrow> uint \<times> table" where
  "rcr_words bits [] c = (c, [])"
| "rcr_words bits (w # ws) c =
     (let (c1, rs) = rcr_words bits ws c
      in (push_bit (TTMATH_BITS_PER_UINT - bits) w, (drop_bit bits w OR c1) # rs))"

definition UInt_Rcr2 :: "nat \<Rightarrow> uint \<Rightarrow> table \<Rightarrow> (uint \<times> table) res" where
  "UInt_Rcr2 bits c t =
     (if 0 < bits \<and> bits < TTMATH_BITS_PER_UINT then
        (let move = TTMATH_BITS_PER_UINT - bits;
             (c1, rs) = rcr_words bits t (if c \<noteq> 0 then push_bit move TTMATH_UINT_MAX_VALUE else c)
         in Inr (if c1 AND TTMATH_UINT_HIGHEST_BIT \<noteq> 0 then 1 else 0, rs))
      else Inl Undefined_Behaviour)"

section \<open>Single words\<close>

text \<open>
  The loop of \<open>FindLeadingBitInWord\<close>, entered with a word other than zero (for zero it would not
  end), and that of \<open>FindLowestBitInWord\<close>.
\<close>

function lead_loop :: "uint \<Rightarrow> nat \<Rightarrow> nat" where
  "lead_loop x n = (if x = 0 \<or> x AND TTMATH_UINT_HIGHEST_BIT \<noteq> 0 then n else lead_loop (push_bit 1 x) (n - 1))"
  by pat_completeness auto

function low_loop :: "uint \<Rightarrow> nat \<Rightarrow> nat" where
  "low_loop x n = (if x = 0 \<or> x AND 1 \<noteq> 0 then n else low_loop (drop_bit 1 x) (n + 1))"
  by pat_completeness auto

definition FindLeadingBitInWord :: "uint \<Rightarrow> int" where
  "FindLeadingBitInWord x = (if x = 0 then - 1 else int (lead_loop x (TTMATH_BITS_PER_UINT - 1)))"

definition FindLowestBitInWord :: "uint \<Rightarrow> int" where
  "FindLowestBitInWord x = (if x = 0 then - 1 else int (low_loop x 0))"

definition SetBitInWord :: "uint \<Rightarrow> nat \<Rightarrow> (uint \<times> uint) res" where
  "SetBitInWord value n =
     (if n < TTMATH_BITS_PER_UINT then
        (let mask = (if n > 0 then push_bit n 1 else 1);
             last = value AND mask
         in Inr (if last \<noteq> 0 then 1 else 0, value OR mask))
      else Inl Undefined_Behaviour)"

text \<open>The halves of a word: the anonymous struct in the union \<open>uint_\<close>, on a little-endian machine.\<close>

definition u_low :: "uint \<Rightarrow> uint32" where
  "u_low w = ucast w"

definition u_high :: "uint \<Rightarrow> uint32" where
  "u_high w = ucast (drop_bit 32 w)"

definition mk_uint :: "uint32 \<Rightarrow> uint32 \<Rightarrow> uint" where
  "mk_uint high low = push_bit 32 (ucast high) OR ucast low"

text \<open>\<open>*result_high\<close> and \<open>*result_low\<close>.\<close>

definition MulTwoWords :: "uint \<Rightarrow> uint \<Rightarrow> uint \<times> uint" where
  "MulTwoWords a b =
     (let res_low1 = ucast (u_low b) * ucast (u_low a) :: uint;
          temp = ucast (u_high res_low1) + ucast (u_low b) * ucast (u_high a) :: uint;
          res_low1' = mk_uint (u_low temp) (u_low res_low1);
          res_high1 = mk_uint 0 (u_high temp);
          temp2 = ucast (u_high b) * ucast (u_low a) :: uint;
          res_low2 = mk_uint (u_low temp2) 0;
          res_high2 = ucast (u_high b) * ucast (u_high a) + ucast (u_high temp2) :: uint;
          (c, low) = AddTwoWords res_low1' res_low2 0;
          (_, high) = AddTwoWords res_high1 res_high2 c
      in (high, low))"

section \<open>What the operations compute\<close>

fun uval :: "table \<Rightarrow> nat" where
  "uval [] = 0"
| "uval (w # ws) = unat w + 2 ^ 64 * uval ws"

abbreviation carry_val :: "uint \<Rightarrow> nat" where
  "carry_val c \<equiv> (if c = 0 then 0 else 1)"

lemma unat_bound: "unat (a :: uint) < 18446744073709551616"
  using unsigned_less [of a] by simp

lemma mod_once: "(x::nat) < 2 * m \<Longrightarrow> x mod m = (if x < m then x else x - m)"
  by (simp add: mod_if)

lemma unat_add64:
  "unat (a + b :: uint) = (if unat a + unat b < 18446744073709551616 then unat a + unat b
                           else unat a + unat b - 18446744073709551616)"
  using unat_bound [of a] unat_bound [of b] by (simp add: unat_word_ariths mod_once)

lemma unat_sub64:
  "unat (a - b :: uint) = (if unat b \<le> unat a then unat a - unat b else 18446744073709551616 + unat a - unat b)"
proof -
  have "unat a = unat ((a - b) + b)" by simp
  also have "\<dots> = (if unat (a - b) + unat b < 18446744073709551616 then unat (a - b) + unat b
                    else unat (a - b) + unat b - 18446744073709551616)"
    by (simp only: unat_add64)
  finally show ?thesis using unat_bound [of "a - b"] unat_bound [of b] unat_bound [of a] by (auto split: if_splits)
qed

lemma AddTwoWords_val:
  "AddTwoWords a b c = (c', r) \<Longrightarrow> unat r + 2 ^ 64 * unat c' = unat a + unat b + carry_val c \<and> unat c' = carry_val c'"
  using unat_bound [of a] unat_bound [of b]
  by (auto simp: AddTwoWords_def Let_def word_less_nat_alt unat_add64 split: if_splits)

lemma SubTwoWords_val:
  "SubTwoWords a b c = (c', r) \<Longrightarrow> unat r + unat b + carry_val c = unat a + 2 ^ 64 * unat c' \<and> unat c' = carry_val c'"
  using unat_bound [of a] unat_bound [of b]
  by (auto simp: SubTwoWords_def Let_def word_less_nat_alt unat_sub64 split: if_splits)

lemma carry_step:
  fixes r :: nat
  assumes "r + B * c1 = x + c" and "u + P * c2 = y + c1"
  shows "(r + B * u) + B * P * c2 = (x + B * y) + c"
proof -
  have "B * u + B * P * c2 = B * y + B * c1" using arg_cong [OF assms(2), of "times B"] by (simp add: distrib_left mult.assoc)
  with assms(1) show ?thesis by simp
qed

lemma borrow_step:
  fixes r :: nat
  assumes "r + b + c = a + B * c1" and "u + y2 + c1 = y1 + P * c2"
  shows "(r + B * u) + (b + B * y2) + c = (a + B * y1) + B * P * c2"
proof -
  have "B * u + B * y2 + B * c1 = B * y1 + B * P * c2"
    using arg_cong [OF assms(2), of "times B"] by (simp add: distrib_left mult.assoc)
  with assms(1) show ?thesis by simp
qed

lemma uval_less: "uval t < 2 ^ (64 * length t)"
proof (induction t)
  case (Cons w t)
  have "uval (w # t) < 2 ^ 64 + 2 ^ 64 * uval t" using unat_bound [of w] by simp
  also have "\<dots> = 2 ^ 64 * (uval t + 1)" by simp
  also have "\<dots> \<le> 2 ^ 64 * 2 ^ (64 * length t)" using Cons.IH by (intro mult_le_mono2) simp
  finally show ?case by (simp add: power_add)
qed simp

lemma uval_append: "uval (s @ t) = uval s + 2 ^ (64 * length s) * uval t"
  by (induction s) (simp_all add: power_add distrib_left)

lemma uval_split: "i < length t \<Longrightarrow> uval t = uval (take i t) + 2 ^ (64 * i) * (unat (t ! i) + 2 ^ 64 * uval (drop (i + 1) t))"
  using uval_append [of "take i t" "t ! i # drop (Suc i) t"] by (simp flip: id_take_nth_drop)

text \<open>
  The result and the carry together are the exact sum; the carry is zero or one. For a difference
  the carry is the borrow.
\<close>

definition exact_sum :: "nat \<Rightarrow> uint \<times> table \<Rightarrow> nat \<Rightarrow> bool" where
  "exact_sum n r s \<longleftrightarrow> length (snd r) = n \<and> unat (fst r) = carry_val (fst r) \<and>
     uval (snd r) + 2 ^ (64 * n) * carry_val (fst r) = s"

definition exact_diff :: "nat \<Rightarrow> uint \<times> table \<Rightarrow> nat \<Rightarrow> nat \<Rightarrow> bool" where
  "exact_diff n r a b \<longleftrightarrow> length (snd r) = n \<and> unat (fst r) = carry_val (fst r) \<and>
     uval (snd r) + b = a + 2 ^ (64 * n) * carry_val (fst r)"

definition bit_carry :: "uint \<Rightarrow> bool" where
  "bit_carry c \<longleftrightarrow> unat c = carry_val c"

lemma bit_carry_simps [simp]: "bit_carry 0" "bit_carry 1"
  by (simp_all add: bit_carry_def)

lemma exact_sum_step:
  assumes "unat r + 2 ^ 64 * carry_val c1 = x + carry_val c" and "exact_sum n (c2, rs) (y + carry_val c1)"
  shows "exact_sum (Suc n) (c2, r # rs) (x + 2 ^ 64 * y + carry_val c)"
  using assms(2) carry_step [OF assms(1), of "uval rs" "2 ^ (64 * n)" "carry_val c2" y]
  unfolding exact_sum_def by (simp add: power_add mult.assoc)

lemma exact_diff_step:
  assumes "unat r + b + carry_val c = a + 2 ^ 64 * carry_val c1" and "exact_diff n (c2, rs) y1 (y2 + carry_val c1)"
  shows "exact_diff (Suc n) (c2, r # rs) (a + 2 ^ 64 * y1) (b + 2 ^ 64 * y2 + carry_val c)"
  using assms(2) borrow_step [OF assms(1), of "uval rs" y2 y1 "2 ^ (64 * n)" "carry_val c2"]
  unfolding exact_diff_def by (simp add: power_add mult.assoc add.assoc)

lemma add_words_exact:
  "length as = length bs \<Longrightarrow> as \<noteq> [] \<or> bit_carry c \<Longrightarrow> exact_sum (length as) (add_words as bs c) (uval as + uval bs + carry_val c)"
proof (induction as bs c rule: add_words.induct)
  case (1 a as b bs c)
  obtain c1 r where w: "AddTwoWords a b c = (c1, r)" by force
  obtain c2 rs where v: "add_words as bs c1 = (c2, rs)" by force
  have "exact_sum (length as) (c2, rs) ((uval as + uval bs) + carry_val c1)"
    using "1.IH" [OF w [symmetric] refl] "1.prems"(1) AddTwoWords_val [OF w] v by (simp add: bit_carry_def)
  moreover have "unat r + 2 ^ 64 * carry_val c1 = (unat a + unat b) + carry_val c"
    using AddTwoWords_val [OF w] by simp
  ultimately have "exact_sum (Suc (length as)) (c2, r # rs) ((unat a + unat b) + 2 ^ 64 * (uval as + uval bs) + carry_val c)"
    by (intro exact_sum_step)
  then show ?case by (simp add: w v add_ac distrib_left)
qed (auto simp: exact_sum_def bit_carry_def)

lemma sub_words_exact:
  "length as = length bs \<Longrightarrow> as \<noteq> [] \<or> bit_carry c \<Longrightarrow> exact_diff (length as) (sub_words as bs c) (uval as) (uval bs + carry_val c)"
proof (induction as bs c rule: sub_words.induct)
  case (1 a as b bs c)
  obtain c1 r where w: "SubTwoWords a b c = (c1, r)" by force
  obtain c2 rs where v: "sub_words as bs c1 = (c2, rs)" by force
  have "exact_diff (length as) (c2, rs) (uval as) (uval bs + carry_val c1)"
    using "1.IH" [OF w [symmetric] refl] "1.prems"(1) SubTwoWords_val [OF w] v by (simp add: bit_carry_def)
  moreover have "unat r + unat b + carry_val c = unat a + 2 ^ 64 * carry_val c1"
    using SubTwoWords_val [OF w] by simp
  ultimately have "exact_diff (Suc (length as)) (c2, r # rs) (unat a + 2 ^ 64 * uval as) (unat b + 2 ^ 64 * uval bs + carry_val c)"
    by (intro exact_diff_step)
  then show ?case by (simp add: w v)
qed (auto simp: exact_diff_def bit_carry_def)

lemma add_zeros_exact: "bit_carry c \<Longrightarrow> exact_sum (length as) (add_zeros as c) (uval as + carry_val c)"
proof (induction as c rule: add_zeros.induct)
  case (2 a as c)
  obtain c1 r where w: "AddTwoWords a 0 c = (c1, r)" by force
  obtain c2 rs where v: "add_zeros as c1 = (c2, rs)" by force
  have "exact_sum (length as) (c2, rs) (uval as + carry_val c1)"
    using "2.IH" [OF w [symmetric] refl] AddTwoWords_val [OF w] v by (simp add: bit_carry_def)
  moreover have "unat r + 2 ^ 64 * carry_val c1 = unat a + carry_val c" using AddTwoWords_val [OF w] by simp
  ultimately have "exact_sum (Suc (length as)) (c2, r # rs) (unat a + 2 ^ 64 * uval as + carry_val c)"
    by (intro exact_sum_step)
  then show ?case by (simp add: w v)
qed (auto simp: exact_sum_def bit_carry_def)

lemma sub_zeros_exact: "bit_carry c \<Longrightarrow> exact_diff (length as) (sub_zeros as c) (uval as) (carry_val c)"
proof (induction as c rule: sub_zeros.induct)
  case (2 a as c)
  obtain c1 r where w: "SubTwoWords a 0 c = (c1, r)" by force
  obtain c2 rs where v: "sub_zeros as c1 = (c2, rs)" by force
  have "exact_diff (length as) (c2, rs) (uval as) (0 + carry_val c1)"
    using "2.IH" [OF w [symmetric] refl] SubTwoWords_val [OF w] v by (simp add: bit_carry_def)
  moreover have "unat r + 0 + carry_val c = unat a + 2 ^ 64 * carry_val c1" using SubTwoWords_val [OF w] by simp
  ultimately have "exact_diff (Suc (length as)) (c2, r # rs) (unat a + 2 ^ 64 * uval as) (0 + 2 ^ 64 * 0 + carry_val c)"
    by (intro exact_diff_step)
  then show ?case by (simp add: w v)
qed (auto simp: exact_diff_def bit_carry_def)

text \<open>Stopping when the carry is zero makes no difference.\<close>

lemma add_carry_zeros: "add_carry as c = add_zeros as c"
proof -
  have z: "add_zeros ws 0 = (0, ws)" for ws by (induction ws) (simp_all add: AddTwoWords_def)
  show ?thesis by (induction as arbitrary: c) (auto simp: z AddTwoWords_def split: prod.splits)
qed

lemma sub_carry_zeros: "sub_carry as c = sub_zeros as c"
proof -
  have z: "sub_zeros ws 0 = (0, ws)" for ws by (induction ws) (simp_all add: SubTwoWords_def)
  show ?thesis by (induction as arbitrary: c) (auto simp: z SubTwoWords_def split: prod.splits)
qed

lemma exact_sum_prefix:
  assumes "exact_sum m (c, rs) s"
  shows "exact_sum (length p + m) (c, p @ rs) (uval p + 2 ^ (64 * length p) * s)"
proof -
  have "2 ^ (64 * length p) * s = 2 ^ (64 * length p) * uval rs + 2 ^ (64 * (length p + m)) * carry_val c"
    using assms by (auto simp: exact_sum_def power_add distrib_left)
  then show ?thesis using assms by (simp add: exact_sum_def uval_append)
qed

lemma exact_diff_prefix:
  assumes "exact_diff m (c, rs) a b"
  shows "exact_diff (length p + m) (c, p @ rs) (uval p + 2 ^ (64 * length p) * a) (2 ^ (64 * length p) * b)"
proof -
  have "2 ^ (64 * length p) * uval rs + 2 ^ (64 * length p) * b
      = 2 ^ (64 * length p) * a + 2 ^ (64 * (length p + m)) * carry_val c"
    using assms unfolding exact_diff_def
    by (simp only: fst_conv snd_conv power_add mult_2 distrib_left mult.assoc flip: distrib_left) (simp add: distrib_left power_add)
  then show ?thesis using assms by (simp add: exact_diff_def uval_append)
qed

lemma AddInt_exact:
  assumes "index < length t"
  shows "\<exists>c t'. UInt_AddInt value index t = Inr (c, t') \<and> exact_sum (length t) (c, t') (uval t + 2 ^ (64 * index) * unat value)"
proof -
  obtain c r where w: "AddTwoWords (t ! index) value 0 = (c, r)" by force
  obtain c1 rs where v: "add_carry (drop (index + 1) t) c = (c1, rs)" by force
  have bc: "bit_carry c" using AddTwoWords_val [OF w] by (simp add: bit_carry_def)
  have "exact_sum (length (drop (index + 1) t)) (c1, rs) (uval (drop (index + 1) t) + carry_val c)"
    using add_zeros_exact [OF bc, of "drop (index + 1) t"] v by (simp only: add_carry_zeros)
  moreover have "unat r + 2 ^ 64 * carry_val c = (unat (t ! index) + unat value) + carry_val 0"
    using AddTwoWords_val [OF w] by simp
  ultimately have "exact_sum (Suc (length (drop (index + 1) t))) (c1, r # rs)
      ((unat (t ! index) + unat value) + 2 ^ 64 * uval (drop (index + 1) t) + carry_val 0)"
    by (intro exact_sum_step)
  moreover have "Suc (length t - Suc 0) = length t" using assms by simp
  ultimately show ?thesis
    using exact_sum_prefix [of _ c1 "r # rs" _ "take index t"] assms w v uval_split [OF assms]
    by (fastforce simp: UInt_AddInt_def distrib_left add_ac)
qed

lemma SubInt_exact:
  assumes "index < length t"
  shows "\<exists>c t'. UInt_SubInt value index t = Inr (c, t') \<and> exact_diff (length t) (c, t') (uval t) (2 ^ (64 * index) * unat value)"
proof -
  obtain c r where w: "SubTwoWords (t ! index) value 0 = (c, r)" by force
  obtain c1 rs where v: "sub_carry (drop (index + 1) t) c = (c1, rs)" by force
  have bc: "bit_carry c" using SubTwoWords_val [OF w] by (simp add: bit_carry_def)
  have "exact_diff (length (drop (index + 1) t)) (c1, rs) (uval (drop (index + 1) t)) (0 + carry_val c)"
    using sub_zeros_exact [OF bc, of "drop (index + 1) t"] v by (simp only: sub_carry_zeros add_0)
  moreover have "unat r + unat value + carry_val 0 = unat (t ! index) + 2 ^ 64 * carry_val c"
    using SubTwoWords_val [OF w] by simp
  ultimately have "exact_diff (Suc (length (drop (index + 1) t))) (c1, r # rs)
      (unat (t ! index) + 2 ^ 64 * uval (drop (index + 1) t)) (unat value + 2 ^ 64 * 0 + carry_val 0)"
    by (intro exact_diff_step)
  moreover have "Suc (length t - Suc 0) = length t" using assms by simp
  ultimately show ?thesis
    using exact_diff_prefix [of _ c1 "r # rs" _ _ "take index t"] assms w v uval_split [OF assms]
    by (fastforce simp: UInt_SubInt_def distrib_left add_ac)
qed

lemma AddVector_exact:
  assumes "length ss2 \<le> length ss1"
  shows "\<exists>c t. UInt_AddVector ss1 ss2 = Inr (c, t) \<and> exact_sum (length ss1) (c, t) (uval ss1 + uval ss2)"
proof -
  let ?n = "length ss2"
  obtain c rs where w: "add_words (take ?n ss1) ss2 0 = (c, rs)" by force
  obtain c1 rs1 where v: "add_zeros (drop ?n ss1) c = (c1, rs1)" by force
  have lo: "exact_sum ?n (c, rs) (uval (take ?n ss1) + uval ss2)"
    using add_words_exact [of "take ?n ss1" ss2 0] assms by (simp add: w)
  then have "exact_sum (length ss1 - ?n) (c1, rs1) (uval (drop ?n ss1) + carry_val c)"
    using add_zeros_exact [of c "drop ?n ss1"] by (simp add: exact_sum_def bit_carry_def v)
  from exact_sum_prefix [OF this, of rs] have
    "exact_sum (length ss1) (c1, rs @ rs1) (uval rs + 2 ^ (64 * ?n) * (uval (drop ?n ss1) + carry_val c))"
    using lo assms by (simp add: exact_sum_def)
  moreover have "uval rs + 2 ^ (64 * ?n) * (uval (drop ?n ss1) + carry_val c)
      = (uval rs + 2 ^ (64 * ?n) * carry_val c) + 2 ^ (64 * ?n) * uval (drop ?n ss1)"
    by (simp add: distrib_left)
  moreover have "\<dots> = uval ss1 + uval ss2"
    using lo uval_append [of "take ?n ss1" "drop ?n ss1"] assms by (simp add: exact_sum_def)
  ultimately show ?thesis using assms w v by (simp add: UInt_AddVector_def)
qed

lemma SubVector_exact:
  assumes "length ss2 \<le> length ss1"
  shows "\<exists>c t. UInt_SubVector ss1 ss2 = Inr (c, t) \<and> exact_diff (length ss1) (c, t) (uval ss1) (uval ss2)"
proof -
  let ?n = "length ss2"
  obtain c rs where w: "sub_words (take ?n ss1) ss2 0 = (c, rs)" by force
  obtain c1 rs1 where v: "sub_zeros (drop ?n ss1) c = (c1, rs1)" by force
  have lo: "exact_diff ?n (c, rs) (uval (take ?n ss1)) (uval ss2)"
    using sub_words_exact [of "take ?n ss1" ss2 0] assms by (simp add: w)
  then have "exact_diff (length ss1 - ?n) (c1, rs1) (uval (drop ?n ss1)) (carry_val c)"
    using sub_zeros_exact [of c "drop ?n ss1"] by (simp add: exact_diff_def bit_carry_def v)
  from exact_diff_prefix [OF this, of rs] have
    "exact_diff (length ss1) (c1, rs @ rs1) (uval rs + 2 ^ (64 * ?n) * uval (drop ?n ss1)) (2 ^ (64 * ?n) * carry_val c)"
    using lo assms by (simp add: exact_diff_def)
  moreover have "uval rs + uval ss2 = uval (take ?n ss1) + 2 ^ (64 * ?n) * carry_val c"
    using lo by (simp add: exact_diff_def)
  moreover have "uval ss1 = uval (take ?n ss1) + 2 ^ (64 * ?n) * uval (drop ?n ss1)"
    using uval_append [of "take ?n ss1" "drop ?n ss1"] assms by simp
  ultimately have "exact_diff (length ss1) (c1, rs @ rs1) (uval ss1) (uval ss2)"
    unfolding exact_diff_def by simp
  then show ?thesis using assms w v by (simp add: UInt_SubVector_def)
qed

lemma AddTwoInts_exact:
  assumes "index + 1 < length t"
  shows "\<exists>c t'. UInt_AddTwoInts x2 x1 index t = Inr (c, t') \<and>
    exact_sum (length t) (c, t') (uval t + 2 ^ (64 * index) * (unat x1 + 2 ^ 64 * unat x2))"
proof -
  let ?d = "drop (index + 2) t"
  obtain c r1 where w1: "AddTwoWords (t ! index) x1 0 = (c, r1)" by force
  obtain c1 r2 where w2: "AddTwoWords (t ! (index + 1)) x2 c = (c1, r2)" by force
  obtain c2 rs where v: "add_carry ?d c1 = (c2, rs)" by force
  have "bit_carry c1" using AddTwoWords_val [OF w2] by (simp add: bit_carry_def)
  then have "exact_sum (length ?d) (c2, rs) (uval ?d + carry_val c1)"
    using add_zeros_exact [of c1 ?d] v by (simp only: add_carry_zeros)
  moreover have "unat r2 + 2 ^ 64 * carry_val c1 = (unat (t ! (index + 1)) + unat x2) + carry_val c"
    using AddTwoWords_val [OF w2] by simp
  ultimately have "exact_sum (Suc (length ?d)) (c2, r2 # rs) ((unat (t ! (index + 1)) + unat x2) + 2 ^ 64 * uval ?d + carry_val c)"
    by (intro exact_sum_step)
  moreover have "unat r1 + 2 ^ 64 * carry_val c = (unat (t ! index) + unat x1) + carry_val 0"
    using AddTwoWords_val [OF w1] by simp
  ultimately have e: "exact_sum (Suc (Suc (length ?d))) (c2, r1 # r2 # rs)
      ((unat (t ! index) + unat x1) + 2 ^ 64 * ((unat (t ! (index + 1)) + unat x2) + 2 ^ 64 * uval ?d) + carry_val 0)"
    by (rule exact_sum_step [rotated])
  have "uval (drop (index + 1) t) = unat (t ! (index + 1)) + 2 ^ 64 * uval ?d"
    using assms Cons_nth_drop_Suc [of "index + 1" t] by (metis Suc_eq_plus1 add_2_eq_Suc' uval.simps(2))
  then have u: "uval t = uval (take index t) + 2 ^ (64 * index) * (unat (t ! index) + 2 ^ 64 * (unat (t ! (index + 1)) + 2 ^ 64 * uval ?d))"
    using uval_split [of index t] assms by simp
  have s: "uval (take index t) + 2 ^ (64 * index) *
      ((unat (t ! index) + unat x1) + 2 ^ 64 * ((unat (t ! (index + 1)) + unat x2) + 2 ^ 64 * uval ?d) + carry_val 0)
      = uval t + 2 ^ (64 * index) * (unat x1 + 2 ^ 64 * unat x2)"
    unfolding u by (simp add: distrib_left)
  have "length (take index t) = index" "index + Suc (Suc (length ?d)) = length t" using assms by simp_all
  with exact_sum_prefix [OF e, of "take index t"] have
    "exact_sum (length t) (c2, take index t @ r1 # r2 # rs) (uval t + 2 ^ (64 * index) * (unat x1 + 2 ^ 64 * unat x2))"
    unfolding s [symmetric] by (simp only:)
  then show ?thesis using assms w1 w2 v by (simp add: UInt_AddTwoInts_def)
qed

section \<open>Products of words\<close>

lemma unat_bound32: "unat (x :: uint32) < 4294967296"
  using unsigned_less [of x] by simp

lemma unat_ucast32: "unat (ucast (x :: uint32) :: uint) = unat x"
  by (simp add: unsigned_ucast_eq take_bit_nat_eq_self less_trans [OF unat_bound32])

lemma unat_u_low: "unat (u_low w) = unat w mod 4294967296"
  by (simp add: u_low_def unsigned_ucast_eq take_bit_eq_mod)

lemma unat_u_high: "unat (u_high w) = unat w div 4294967296"
proof -
  have "unat w div 4294967296 < 4294967296" using unat_bound [of w] by (simp add: less_mult_imp_div_less)
  moreover have "unat (drop_bit 32 w) = unat w div 4294967296"
    by (simp only: unsigned_drop_bit_eq) (simp add: drop_bit_eq_div take_bit_nat_eq_self unat_bound)
  ultimately show ?thesis by (simp only: u_high_def unsigned_ucast_eq) (simp add: take_bit_nat_eq_self)
qed

lemma unat_mk_uint: "unat (mk_uint h l) = unat h * 4294967296 + unat l"
proof -
  have d: "push_bit 32 (ucast h :: uint) + ucast l = push_bit 32 (ucast h) OR ucast l"
    by (rule disjunctive_add) (auto simp: bit_simps dest: bit_imp_le_length)
  have h: "unat (push_bit 32 (ucast h :: uint)) = unat h * 4294967296"
    using unat_bound32 [of h]
    by (simp only: unsigned_push_bit_eq unat_ucast32) (simp add: push_bit_eq_mult take_bit_nat_eq_self)
  show ?thesis
    using unat_bound32 [of h] unat_bound32 [of l]
    by (simp add: mk_uint_def unat_add64 h unat_ucast32 flip: d)
qed

lemma unat_mul32: "unat (ucast (x :: uint32) * ucast (y :: uint32) :: uint) = unat x * unat y \<and> unat x * unat y \<le> 18446744065119617025"
proof -
  have "unat x * unat y \<le> 4294967295 * 4294967295"
    using unat_bound32 [of x] unat_bound32 [of y] by (intro mult_le_mono) simp_all
  then show ?thesis by (simp add: unat_word_ariths unat_ucast32)
qed

lemma halves: "unat w = unat (u_high w) * 4294967296 + unat (u_low w)"
  by (simp add: unat_u_high unat_u_low)

lemma product_halves:
  "unat a * unat b =
     unat (u_low b) * unat (u_low a) + 4294967296 * (unat (u_low b) * unat (u_high a))
     + 4294967296 * (unat (u_high b) * unat (u_low a)) + 18446744073709551616 * (unat (u_high b) * unat (u_high a))"
  by (subst halves [of a], subst halves [of b]) (simp add: algebra_simps)

lemma mul_algebra:
  fixes low :: nat
  assumes "low + B * B * c = (t * B + ll) + sl * B" and "high + B * B * c' = th + (w + sh) + c"
    and "x = lh * B + ll" and "lh + y = th * B + t" and "z = sh * B + sl"
  shows "low + B * B * (high + B * B * c') = x + B * y + B * z + B * B * w"
proof -
  have "low + B * B * (high + B * B * c') = (low + B * B * c) + B * B * (th + (w + sh))"
    unfolding assms(2) by (simp add: algebra_simps)
  also have "\<dots> = ll + B * (th * B + t) + B * (sh * B + sl) + B * B * w"
    unfolding assms(1) by (simp add: algebra_simps)
  also have "\<dots> = x + B * y + B * z + B * B * w"
    unfolding assms(3,5) assms(4) [symmetric] by (simp add: algebra_simps)
  finally show ?thesis .
qed

lemma MulTwoWords_val:
  assumes "MulTwoWords a b = (high, low)"
  shows "unat low + 2 ^ 64 * unat high = unat a * unat b"
proof -
  define L :: uint where "L = ucast (u_low b) * ucast (u_low a)"
  define T :: uint where "T = ucast (u_high L) + ucast (u_low b) * ucast (u_high a)"
  define S :: uint where "S = ucast (u_high b) * ucast (u_low a)"
  define H :: uint where "H = ucast (u_high b) * ucast (u_high a) + ucast (u_high S)"
  obtain c where c: "AddTwoWords (mk_uint (u_low T) (u_low L)) (mk_uint (u_low S) 0) 0 = (c, low)"
    and h: "snd (AddTwoWords (mk_uint 0 (u_high T)) H c) = high"
    using assms by (auto simp: MulTwoWords_def Let_def L_def T_def S_def H_def split: prod.splits)
  obtain c' where c': "AddTwoWords (mk_uint 0 (u_high T)) H c = (c', high)" using h by (metis prod.collapse)
  have L: "unat L = unat (u_low b) * unat (u_low a)" using unat_mul32 by (simp add: L_def)
  have S: "unat S = unat (u_high b) * unat (u_low a)" using unat_mul32 by (simp add: S_def)
  have T: "unat T = unat (u_high L) + unat (u_low b) * unat (u_high a)"
    using unat_mul32 [of "u_low b" "u_high a"] unat_bound32 [of "u_high L"] by (simp add: T_def unat_add64 unat_ucast32)
  have H: "unat H = unat (u_high b) * unat (u_high a) + unat (u_high S)"
    using unat_mul32 [of "u_high b" "u_high a"] unat_bound32 [of "u_high S"] by (simp add: H_def unat_add64 unat_ucast32)
  have lo: "unat low + 18446744073709551616 * carry_val c = (unat (u_low T) * 4294967296 + unat (u_low L)) + unat (u_low S) * 4294967296"
    using AddTwoWords_val [OF c] by (simp add: unat_mk_uint)
  have hi: "unat high + 18446744073709551616 * unat c' = unat (u_high T) + unat H + carry_val c"
    using AddTwoWords_val [OF c'] by (simp add: unat_mk_uint)
  have square: "(18446744073709551616 :: nat) = 4294967296 * 4294967296" by simp
  have e: "unat low + 18446744073709551616 * (unat high + 18446744073709551616 * unat c') = unat a * unat b"
    unfolding product_halves [of a b] square
    by (rule mul_algebra [OF lo [unfolded square] hi [unfolded H square] halves [of L, unfolded L] halves [of T, unfolded T] halves [of S, unfolded S]])
  have "unat a * unat b < 18446744073709551616 * 18446744073709551616"
    using unat_bound [of a] unat_bound [of b] by (intro mult_strict_mono) simp_all
  then have "18446744073709551616 * (18446744073709551616 * unat c') < 18446744073709551616 * (18446744073709551616 * 1)"
    using e by simp
  then have "unat c' = 0" by simp
  then show ?thesis using e by simp
qed

section \<open>Shifts\<close>

lemma unat_push_bit64: "unat (push_bit n w :: uint) = (unat w * 2 ^ n) mod 18446744073709551616"
  by (simp only: unsigned_push_bit_eq) (simp add: push_bit_eq_mult take_bit_eq_mod)

lemma unat_drop_bit64: "unat (drop_bit n w :: uint) = unat w div 2 ^ n"
proof -
  have "unat w div 2 ^ n \<le> unat w" by (rule div_le_dividend)
  then have "unat w div 2 ^ n < 2 ^ 64" using le_less_trans [OF _ unat_bound [of w]] by simp
  then show ?thesis
    using unat_bound [of w] by (simp only: unsigned_drop_bit_eq) (simp add: drop_bit_eq_div take_bit_nat_eq_self)
qed

lemma small_bits: "unat (c :: uint) < 2 ^ n \<Longrightarrow> bit c m \<Longrightarrow> m < n"
proof -
  assume "unat c < 2 ^ n" and b: "bit c m"
  then have "unat (take_bit n c) = unat c" by (simp only: unsigned_take_bit_eq) (simp add: take_bit_nat_eq_self)
  then have "take_bit n c = c" by (simp add: word_unat_eq_iff)
  with b show "m < n" by (metis bit_take_bit_iff)
qed

lemma or_add_word:
  fixes w c :: uint
  assumes "bits \<le> 64" and "unat c < 2 ^ bits"
  shows "unat (push_bit bits w OR c) = (unat w * 2 ^ bits) mod 18446744073709551616 + unat c"
proof -
  have "push_bit bits w + c = push_bit bits w OR c"
    by (rule disjunctive_add) (use small_bits [OF assms(2)] in \<open>fastforce simp: bit_simps\<close>)
  moreover have "(unat w * 2 ^ bits) mod 18446744073709551616 + unat c < 18446744073709551616"
  proof -
    have p: "(18446744073709551616 :: nat) = 2 ^ (64 - bits) * 2 ^ bits" using assms(1) by (simp flip: power_add)
    have "(unat w * 2 ^ bits) mod 18446744073709551616 = (unat w mod 2 ^ (64 - bits)) * 2 ^ bits"
      unfolding p by (simp add: mult_mod_left)
    moreover have "unat w mod 2 ^ (64 - bits) + 1 \<le> 2 ^ (64 - bits)" by (simp add: Suc_leI)
    then have "(unat w mod 2 ^ (64 - bits) + 1) * 2 ^ bits \<le> 18446744073709551616" unfolding p by (rule mult_le_mono1)
    ultimately show ?thesis using assms(2) by (simp add: distrib_right)
  qed
  ultimately show ?thesis by (metis unat_add64 unat_push_bit64)
qed

lemma shift_word:
  fixes w c :: uint
  assumes "bits \<le> 64" and "unat c < 2 ^ bits"
  shows "unat (push_bit bits w OR c) + 2 ^ 64 * unat (drop_bit (64 - bits) w) = unat w * 2 ^ bits + unat c"
proof -
  have p: "(18446744073709551616 :: nat) = 2 ^ (64 - bits) * 2 ^ bits" using assms(1) by (simp flip: power_add)
  have "unat w * 2 ^ bits div 18446744073709551616 = unat w div 2 ^ (64 - bits)"
    unfolding p by simp
  then have "unat w * 2 ^ bits = (unat w * 2 ^ bits) mod 18446744073709551616 + 18446744073709551616 * (unat w div 2 ^ (64 - bits))"
    by (metis mod_mult_div_eq)
  then show ?thesis by (simp add: or_add_word [OF assms] unat_drop_bit64)
qed

lemma rcl_words_exact:
  "bits \<le> 64 \<Longrightarrow> unat c < 2 ^ bits \<Longrightarrow> rcl_words bits ws c = (c', rs) \<Longrightarrow>
   length rs = length ws \<and> uval rs + 2 ^ (64 * length ws) * unat c' = uval ws * 2 ^ bits + unat c"
proof (induction ws arbitrary: c rs)
  case (Cons w ws)
  let ?n = "drop_bit (64 - bits) w"
  obtain rs' where r: "rcl_words bits ws ?n = (c', rs')" "rs = (push_bit bits w OR c) # rs'"
    using Cons.prems(3) by (auto split: prod.splits)
  have "unat w < 2 ^ bits * 2 ^ (64 - bits)" using unat_bound [of w] Cons.prems(1) by (simp flip: power_add)
  then have "unat ?n < 2 ^ bits" by (simp add: unat_drop_bit64 less_mult_imp_div_less)
  with Cons.IH [OF Cons.prems(1) this r(1)] have ih: "length rs' = length ws"
    "uval rs' + 2 ^ (64 * length ws) * unat c' = uval ws * 2 ^ bits + unat ?n" by auto
  from carry_step [OF shift_word [OF Cons.prems(1,2), of w] ih(2)] ih(1) show ?case
    by (simp add: r(2) power_add algebra_simps)
qed simp

text \<open>Shifting by one bit is the general shift.\<close>

lemma highest_bit: "w AND TTMATH_UINT_HIGHEST_BIT \<noteq> 0 \<longleftrightarrow> bit w 63"
  using and_exp_eq_0_iff_not_bit [of w 63] by (simp add: TTMATH_UINT_HIGHEST_BIT_def)

lemma drop_bit_63: "drop_bit 63 (w :: uint) = (if bit w 63 then 1 else 0)"
proof (rule bit_word_eqI)
  fix n
  have "bit w (63 + n) \<Longrightarrow> n = 0" using bit_imp_le_length [of w "63 + n"] by simp
  then show "bit (drop_bit 63 w) n \<longleftrightarrow> bit (if bit w 63 then 1 else 0 :: uint) n" by (cases n) (auto simp: bit_simps)
qed

lemma rcl_one_is_rcl: "rcl_one_words ws c = rcl_words 1 ws c"
  by (induction ws arbitrary: c) (simp_all add: highest_bit drop_bit_63)

lemma max_value_shift:
  assumes "0 < bits" "bits < 64"
  shows "unat (drop_bit (64 - bits) TTMATH_UINT_MAX_VALUE) = 2 ^ bits - 1"
    and "unat (push_bit (64 - bits) TTMATH_UINT_MAX_VALUE) = (2 ^ bits - 1) * 2 ^ (64 - bits)"
proof -
  define m where "m = 64 - bits"
  have p: "(18446744073709551616 :: nat) = 2 ^ m * 2 ^ bits" using assms by (simp add: m_def flip: power_add)
  have v: "unat TTMATH_UINT_MAX_VALUE = 2 ^ m * 2 ^ bits - 1" unfolding p [symmetric] by (simp add: TTMATH_UINT_MAX_VALUE_def)
  have "2 ^ m * 2 ^ bits - 1 = (2 ^ bits - 1) * 2 ^ m + ((2::nat) ^ m - 1)" by (simp add: algebra_simps)
  then have e: "unat TTMATH_UINT_MAX_VALUE = (2 ^ bits - 1) * 2 ^ m + (2 ^ m - 1)" using v by simp
  show "unat (drop_bit (64 - bits) TTMATH_UINT_MAX_VALUE) = 2 ^ bits - 1"
    unfolding unat_drop_bit64 m_def [symmetric] e by (subst div_mult_self3) simp_all
  have "unat TTMATH_UINT_MAX_VALUE mod 2 ^ bits = 2 ^ bits - 1"
  proof -
    have "unat TTMATH_UINT_MAX_VALUE = (2 ^ bits - 1) + (2 ^ m - 1) * 2 ^ bits" unfolding v by (simp add: algebra_simps)
    then show ?thesis by (simp only: mod_mult_self1) simp
  qed
  then show "unat (push_bit (64 - bits) TTMATH_UINT_MAX_VALUE) = (2 ^ bits - 1) * 2 ^ (64 - bits)"
    unfolding unat_push_bit64 m_def [symmetric] p by (subst mult.commute [of "2 ^ m" "2 ^ bits"]) (simp add: mult_mod_left)
qed

lemma or_add_right:
  fixes w c :: uint
  assumes "bits \<le> 64" and "unat c = k * 2 ^ (64 - bits)"
  shows "unat (drop_bit bits w OR c) = unat w div 2 ^ bits + k * 2 ^ (64 - bits)"
proof -
  have w: "unat w div 2 ^ bits < 2 ^ (64 - bits)"
    using unat_bound [of w] assms(1) by (intro less_mult_imp_div_less) (simp flip: power_add)
  have c: "c = push_bit (64 - bits) (word_of_nat k)"
    using unat_bound [of c] assms(2)
    by (intro word_unat_eq_iff [THEN iffD2]) (simp add: unat_push_bit64 unat_of_nat mod_mult_left_eq)
  have "drop_bit bits w + c = drop_bit bits w OR c"
  proof (rule disjunctive_add)
    fix n
    have "bit c n \<Longrightarrow> 64 - bits \<le> n" by (subst (asm) c) (simp add: bit_simps)
    moreover have "bit w (bits + n) \<Longrightarrow> bits + n < 64" using bit_imp_le_length [of w "bits + n"] by simp
    ultimately show "\<not> bit (drop_bit bits w) n \<or> \<not> bit c n" by (auto simp: bit_simps)
  qed
  moreover have "unat w div 2 ^ bits + unat c < 18446744073709551616"
  proof -
    have p: "(18446744073709551616 :: nat) = 2 ^ bits * 2 ^ (64 - bits)" using assms(1) by (simp flip: power_add)
    have "k * 2 ^ (64 - bits) < 2 ^ bits * 2 ^ (64 - bits)" using unat_bound [of c] by (simp only: assms(2) p)
    then have "(k + 1) * 2 ^ (64 - bits) \<le> 18446744073709551616" unfolding p by (intro mult_le_mono1) simp
    then show ?thesis using w assms(2) by (simp add: distrib_right)
  qed
  ultimately show ?thesis using assms(2) by (metis unat_add64 unat_drop_bit64)
qed

lemma rcr_words_exact:
  "bits \<le> 64 \<Longrightarrow> unat c = k * 2 ^ (64 - bits) \<Longrightarrow> rcr_words bits ws c = (c', rs) \<Longrightarrow>
   length rs = length ws \<and> (\<exists>k'. unat c' = k' * 2 ^ (64 - bits) \<and> (ws \<noteq> [] \<longrightarrow> k' = uval ws mod 2 ^ bits) \<and>
     uval rs * 2 ^ bits + k' = uval ws + k * 2 ^ (64 * length ws))"
proof (induction ws arbitrary: c' rs)
  case (Cons w ws)
  obtain c1 rs' where r: "rcr_words bits ws c = (c1, rs')" "rs = (drop_bit bits w OR c1) # rs'" "c' = push_bit (64 - bits) w"
    using Cons.prems(3) by (auto split: prod.splits)
  obtain k1 where ih: "length rs' = length ws" "unat c1 = k1 * 2 ^ (64 - bits)"
    "uval rs' * 2 ^ bits + k1 = uval ws + k * 2 ^ (64 * length ws)"
    using Cons.IH [OF Cons.prems(1,2) r(1)] by auto
  have p: "(18446744073709551616 :: nat) = 2 ^ bits * 2 ^ (64 - bits)" using Cons.prems(1) by (simp flip: power_add)
  have c': "unat c' = (unat w mod 2 ^ bits) * 2 ^ (64 - bits)"
    unfolding r(3) unat_push_bit64 p by (simp add: mult_mod_left)
  have m: "uval (w # ws) mod 2 ^ bits = unat w mod 2 ^ bits" by (simp add: p mult.assoc)
  have "uval rs * 2 ^ bits + unat w mod 2 ^ bits
      = (unat w div 2 ^ bits * 2 ^ bits + unat w mod 2 ^ bits) + 18446744073709551616 * (uval rs' * 2 ^ bits + k1)"
    by (simp add: r(2) or_add_right [OF Cons.prems(1) ih(2)] p algebra_simps)
  also have "\<dots> = uval (w # ws) + k * 2 ^ (64 * length (w # ws))"
    unfolding ih(3) by (simp add: power_add algebra_simps)
  finally show ?case using ih(1) c' m r(2) by auto
qed simp

lemma lowest_bit: "w AND 1 \<noteq> 0 \<longleftrightarrow> bit (w :: uint) 0"
  by (simp add: and_one_eq odd_iff_mod_2_eq_one bit_0)

lemma push_bit_63: "push_bit 63 (w :: uint) = (if bit w 0 then TTMATH_UINT_HIGHEST_BIT else 0)"
proof -
  have h: "bit TTMATH_UINT_HIGHEST_BIT n \<longleftrightarrow> n = 63" for n
    using bit_exp_iff [of 63 n, where 'a = "64 word"] by (auto simp: TTMATH_UINT_HIGHEST_BIT_def)
  show ?thesis by (rule bit_word_eqI) (auto simp: bit_simps h)
qed

lemma rcr_one_is_rcr: "rcr_one_words ws c = rcr_words 1 ws c"
  by (induction ws) (simp_all add: lowest_bit push_bit_63 split: prod.splits)

section \<open>Single bits\<close>

lemma double_word: "\<not> bit (x :: uint) 63 \<Longrightarrow> unat (push_bit 1 x) = 2 * unat x \<and> unat x < 9223372036854775808"
proof -
  assume "\<not> bit x 63"
  then have "drop_bit 63 x = 0" by (simp add: drop_bit_63)
  then have "unat (drop_bit 63 x) = 0" by simp
  then have "unat x div 9223372036854775808 = 0" by (simp only: unat_drop_bit64) simp
  then have "unat x < 9223372036854775808" by (simp add: div_eq_0_iff)
  then show ?thesis by (simp only: unat_push_bit64) simp
qed

termination lead_loop
proof (relation "measure (\<lambda>(x, n). 2 ^ 64 - unat x)")
  fix x :: uint and n :: nat
  assume "\<not> (x = 0 \<or> x AND TTMATH_UINT_HIGHEST_BIT \<noteq> 0)"
  then have "\<not> bit x 63" "0 < unat x" using highest_bit by (auto simp: unat_gt_0)
  then show "((push_bit 1 x, n - 1), (x, n)) \<in> measure (\<lambda>(x, n). 2 ^ 64 - unat x)"
    using double_word [of x] by (simp add: diff_less_mono2)
qed simp

termination low_loop
proof (relation "measure (\<lambda>(x, n). unat x)")
  fix x :: uint and n :: nat
  assume "\<not> (x = 0 \<or> x AND 1 \<noteq> 0)"
  then have "0 < unat x" by (simp add: unat_gt_0)
  then show "((drop_bit 1 x, n + 1), (x, n)) \<in> measure (\<lambda>(x, n). unat x)"
    by (simp only: in_measure prod.case unat_drop_bit64) simp
qed simp

declare lead_loop.simps [simp del] low_loop.simps [simp del]

lemma lead_loop_val:
  "x \<noteq> 0 \<Longrightarrow> n \<le> 63 \<Longrightarrow> 2 ^ (63 - n) \<le> unat x \<Longrightarrow> (2 :: nat) ^ 63 * 2 ^ lead_loop x n \<le> unat x * 2 ^ n \<and> unat x * 2 ^ n < 2 ^ 64 * 2 ^ lead_loop x n"
proof (induction x n rule: lead_loop.induct)
  case (1 x n)
  show ?case
  proof (cases "bit x 63")
    case True
    then have "lead_loop x n = n" using highest_bit [of x] by (subst lead_loop.simps) simp
    moreover have "(2::nat) ^ 63 \<le> unat x"
      using True by (metis drop_bit_63 div_less linorder_not_le unat_1 unat_drop_bit64 zero_neq_one)
    ultimately show ?thesis using unat_bound [of x] by simp
  next
    case False
    have d: "unat (push_bit 1 x) = 2 * unat x" "unat x < 9223372036854775808" using double_word [OF False] by auto
    have n: "n \<noteq> 0" using "1.prems"(3) d(2) by (cases n) auto
    have step: "lead_loop x n = lead_loop (push_bit 1 x) (n - 1)"
      using False "1.prems"(1) highest_bit [of x] by (subst lead_loop.simps) simp
    have nz: "push_bit 1 x \<noteq> 0" using d(1) "1.prems"(1) by (metis mult_eq_0_iff unat_eq_zero zero_neq_numeral)
    have "(2::nat) ^ (63 - (n - 1)) = 2 * 2 ^ (63 - n)" using n "1.prems"(2) by (simp flip: power_Suc add: Suc_diff_le)
    then have "2 ^ (63 - (n - 1)) \<le> unat (push_bit 1 x)" using d(1) "1.prems"(3) by simp
    moreover have "\<not> (x = 0 \<or> x AND TTMATH_UINT_HIGHEST_BIT \<noteq> 0)" using False "1.prems"(1) highest_bit [of x] by simp
    ultimately have "2 ^ 63 * 2 ^ lead_loop (push_bit 1 x) (n - 1) \<le> unat (push_bit 1 x) * 2 ^ (n - 1) \<and>
        unat (push_bit 1 x) * 2 ^ (n - 1) < 2 ^ 64 * 2 ^ lead_loop (push_bit 1 x) (n - 1)"
      using "1.IH" nz "1.prems"(2) n by simp
    moreover have "unat (push_bit 1 x) * 2 ^ (n - 1) = unat x * 2 ^ n" using n d(1) by (cases n) simp_all
    ultimately show ?thesis by (simp add: step)
  qed
qed

lemma low_loop_val: "x \<noteq> 0 \<Longrightarrow> \<exists>k. low_loop x n = n + k \<and> 2 ^ k dvd unat x \<and> odd (unat x div 2 ^ k)"
proof (induction x n rule: low_loop.induct)
  case (1 x n)
  have odd: "bit x 0 \<longleftrightarrow> odd (unat x)" by (simp add: bit_unsigned_iff flip: bit_0)
  show ?case
  proof (cases "bit x 0")
    case True
    then have "low_loop x n = n" using lowest_bit [of x] by (subst low_loop.simps) simp
    then show ?thesis using True odd by (intro exI [of _ 0]) simp
  next
    case False
    then have e: "even (unat x)" using odd by simp
    then obtain m where m: "unat x = 2 * m" by blast
    have h: "unat (drop_bit 1 x) = m" unfolding unat_drop_bit64 m by simp
    have "m \<noteq> 0" using m "1.prems" by (metis mult_0_right unat_eq_zero)
    then have "drop_bit 1 x \<noteq> 0" using h by (metis unat_0)
    moreover have g: "\<not> (x = 0 \<or> x AND 1 \<noteq> 0)" using False "1.prems" lowest_bit [of x] by simp
    ultimately obtain k where k: "low_loop (drop_bit 1 x) (n + 1) = n + 1 + k" "2 ^ k dvd m" "odd (m div 2 ^ k)"
      using "1.IH" h by auto
    have "low_loop x n = n + Suc k" using k(1) g by (subst low_loop.simps) simp
    moreover have "2 ^ Suc k dvd unat x" "odd (unat x div 2 ^ Suc k)" using k(2,3) m by simp_all
    ultimately show ?thesis by blast
  qed
qed

lemma shift_right_one:
  assumes "t \<noteq> []"
  shows "case UInt_Rcr2_one c t of (c', t') \<Rightarrow> length t' = length t \<and>
      2 * uval t' + unat c' = uval t + carry_val c * 2 ^ (64 * length t)"
proof -
  let ?f = "if c \<noteq> 0 then TTMATH_UINT_HIGHEST_BIT else c"
  have f: "unat ?f = carry_val c * 2 ^ (64 - 1)" by (simp add: TTMATH_UINT_HIGHEST_BIT_def)
  obtain c1 rs where r: "rcr_words 1 t ?f = (c1, rs)" by force
  obtain k' where e: "length rs = length t" "unat c1 = k' * 2 ^ (64 - 1)" "k' = uval t mod 2 ^ 1"
      "uval rs * 2 ^ 1 + k' = uval t + carry_val c * 2 ^ (64 * length t)"
    using rcr_words_exact [OF _ f r] assms by auto
  have "unat (if c1 \<noteq> 0 then 1 else 0 :: uint) = k'"
  proof (cases "c1 = 0")
    case False
    then have "k' \<noteq> 0" using e(2) by (metis mult_0 unat_eq_zero)
    then show ?thesis using e(3) False by simp
  qed (use e(2) in simp)
  then show ?thesis
    using r e(1,4) by (simp add: UInt_Rcr2_one_def rcr_one_is_rcr mult.commute)
qed

lemma FindLeadingBitInWord_val:
  "x \<noteq> 0 \<Longrightarrow> \<exists>r. FindLeadingBitInWord x = int r \<and> 2 ^ r \<le> unat x \<and> unat x < 2 ^ Suc r"
  using lead_loop_val [of x 63] by (simp add: FindLeadingBitInWord_def Suc_leI unat_gt_0)

lemma FindLowestBitInWord_val:
  "x \<noteq> 0 \<Longrightarrow> \<exists>r. FindLowestBitInWord x = int r \<and> 2 ^ r dvd unat x \<and> odd (unat x div 2 ^ r)"
  using low_loop_val [of x 0] by (auto simp: FindLowestBitInWord_def)

lemma SetBitInWord_val:
  "n < 64 \<Longrightarrow> SetBitInWord x n = Inr (if bit x n then 1 else 0, set_bit n x)"
proof -
  assume n: "n < 64"
  have m: "(if n > 0 then push_bit n 1 else 1) = (2 :: uint) ^ n" by (simp add: push_bit_eq_mult)
  have "x OR 2 ^ n = set_bit n x" by (simp add: set_bit_eq_or push_bit_eq_mult)
  then show ?thesis using n and_exp_eq_0_iff_not_bit [of x n] by (simp add: SetBitInWord_def m Let_def)
qed

lemma Rcl2_val:
  assumes "0 < bits" and "bits < 64"
  shows "(\<exists>c' t'. UInt_Rcl2 bits c t = Inr (c', t') \<and> length t' = length t \<and>
      uval t' = (uval t * 2 ^ bits + (if c \<noteq> 0 then 2 ^ bits - 1 else 0)) mod 2 ^ (64 * length t) \<and>
      unat c' = (uval t * 2 ^ bits + (if c \<noteq> 0 then 2 ^ bits - 1 else 0)) div 2 ^ (64 * length t) mod 2) \<and>
    (case UInt_Rcl2_one c t of (c', t') \<Rightarrow> length t' = length t \<and>
      uval t' + 2 ^ (64 * length t) * unat c' = 2 * uval t + carry_val c)"
proof -
  let ?f = "if c \<noteq> 0 then drop_bit (64 - bits) TTMATH_UINT_MAX_VALUE else c"
  have f: "unat ?f = (if c \<noteq> 0 then 2 ^ bits - 1 else 0)" using max_value_shift(1) [OF assms] by simp
  then have fl: "unat ?f < 2 ^ bits" by simp
  obtain c1 rs where r: "rcl_words bits t ?f = (c1, rs)" by force
  have e: "length rs = length t" "uval rs + 2 ^ (64 * length t) * unat c1 = uval t * 2 ^ bits + unat ?f"
    using rcl_words_exact [OF _ fl r] assms(2) by auto
  have "uval rs < 2 ^ (64 * length t)" using uval_less [of rs] e(1) by simp
  then have d: "uval rs = (uval t * 2 ^ bits + unat ?f) mod 2 ^ (64 * length t)"
    "unat c1 = (uval t * 2 ^ bits + unat ?f) div 2 ^ (64 * length t)"
    unfolding e(2) [symmetric] by simp_all
  have "unat (c1 AND 1) = unat c1 mod 2" by (simp add: and_one_eq unat_mod)
  then have "UInt_Rcl2 bits c t = Inr (c1 AND 1, rs) \<and> length rs = length t \<and>
      uval rs = (uval t * 2 ^ bits + unat ?f) mod 2 ^ (64 * length t) \<and>
      unat (c1 AND 1) = (uval t * 2 ^ bits + unat ?f) div 2 ^ (64 * length t) mod 2"
    using r e(1) d assms by (simp add: UInt_Rcl2_def)
  moreover have "case UInt_Rcl2_one c t of (c', t') \<Rightarrow> length t' = length t \<and>
      uval t' + 2 ^ (64 * length t) * unat c' = 2 * uval t + carry_val c"
    using rcl_words_exact [of 1 "if c \<noteq> 0 then 1 else c" t]
    by (auto simp: UInt_Rcl2_one_def rcl_one_is_rcl split: prod.split)
  ultimately show ?thesis unfolding f by blast
qed

lemma Rcr2_val:
  assumes "0 < bits" and "bits < 64" and "t \<noteq> []"
  shows "(\<exists>c' t'. UInt_Rcr2 bits c t = Inr (c', t') \<and> length t' = length t \<and>
      uval t' = (uval t + (if c \<noteq> 0 then (2 ^ bits - 1) * 2 ^ (64 * length t) else 0)) div 2 ^ bits \<and>
      unat c' = uval t div 2 ^ (bits - 1) mod 2) \<and>
    (case UInt_Rcr2_one c t of (c', t') \<Rightarrow> length t' = length t \<and>
      2 * uval t' + unat c' = uval t + carry_val c * 2 ^ (64 * length t))"
proof -
  let ?f = "if c \<noteq> 0 then push_bit (64 - bits) TTMATH_UINT_MAX_VALUE else c"
  let ?k = "if c \<noteq> 0 then 2 ^ bits - 1 else (0 :: nat)"
  have f: "unat ?f = ?k * 2 ^ (64 - bits)" using max_value_shift(2) [OF assms(1,2)] by simp
  obtain c1 rs where r: "rcr_words bits t ?f = (c1, rs)" by force
  obtain k' where e: "length rs = length t" "unat c1 = k' * 2 ^ (64 - bits)" "k' = uval t mod 2 ^ bits"
      "uval rs * 2 ^ bits + k' = uval t + ?k * 2 ^ (64 * length t)"
    using rcr_words_exact [OF _ f r] assms(2,3) by auto
  have "(uval rs * 2 ^ bits + k') div 2 ^ bits = uval rs" using e(3) by simp
  then have q: "uval rs = (uval t + ?k * 2 ^ (64 * length t)) div 2 ^ bits" by (simp only: e(4))
  have "(2 :: nat) ^ bits = 2 ^ (bits - 1) * 2" using assms(1) by (simp flip: power_Suc2)
  then have "k' div 2 ^ (bits - 1) = uval t div 2 ^ (bits - 1) mod 2" using e(3) by (simp add: mod_mult2_eq)
  moreover have h: "(9223372036854775808 :: nat) = 2 ^ (bits - 1) * 2 ^ (64 - bits)" using assms by (simp flip: power_add)
  have "unat c1 div 9223372036854775808 = k' div 2 ^ (bits - 1)" unfolding e(2) h by simp
  ultimately have "(if bit c1 63 then 1 else 0) = uval t div 2 ^ (bits - 1) mod 2"
    using unat_drop_bit64 [of 63 c1] by (simp add: drop_bit_63 split: if_splits)
  then have "UInt_Rcr2 bits c t = Inr (if bit c1 63 then 1 else 0, rs) \<and> length rs = length t \<and>
      uval rs = (uval t + ?k * 2 ^ (64 * length t)) div 2 ^ bits \<and>
      unat (if bit c1 63 then 1 else 0 :: uint) = uval t div 2 ^ (bits - 1) mod 2"
    using r e(1) q assms(1,2) by (simp add: UInt_Rcr2_def highest_bit split: if_splits)
  moreover have "?k * 2 ^ (64 * length t) = (if c \<noteq> 0 then (2 ^ bits - 1) * 2 ^ (64 * length t) else 0)" by simp
  ultimately have "\<exists>c' t'. UInt_Rcr2 bits c t = Inr (c', t') \<and> length t' = length t \<and>
      uval t' = (uval t + (if c \<noteq> 0 then (2 ^ bits - 1) * 2 ^ (64 * length t) else 0)) div 2 ^ bits \<and>
      unat c' = uval t div 2 ^ (bits - 1) mod 2"
    by (intro exI [of _ "if bit c1 63 then 1 else 0"] exI [of _ rs]) (simp only: simp_thms)
  then show ?thesis using shift_right_one [OF assms(3)] by (intro conjI)
qed

section \<open>Properties\<close>

text \<open>
  Big additions and subtractions are exact. For tables of any size (at least one word), \<open>Add\<close> and
  \<open>Sub\<close> compute the sum and the difference of the numbers, carry in included: the result words and
  the returned carry together are the exact sum, the returned borrow makes the difference exact, and
  both are zero or one. The same holds of \<open>AddVector\<close> and \<open>SubVector\<close> for a shorter second vector.
\<close>

theorem uint_add_sub:
  assumes "length s = length t" and "t \<noteq> []" and "length v \<le> length t"
  shows "exact_sum (length t) (UInt_Add t s c) (uval t + uval s + carry_val c) \<and>
    exact_diff (length t) (UInt_Sub t s c) (uval t) (uval s + carry_val c) \<and>
    (\<exists>r. UInt_AddVector t v = Inr r \<and> exact_sum (length t) r (uval t + uval v)) \<and>
    (\<exists>r. UInt_SubVector t v = Inr r \<and> exact_diff (length t) r (uval t) (uval v))"
  using add_words_exact [of t s c] sub_words_exact [of t s c] AddVector_exact [OF assms(3)] SubVector_exact [OF assms(3)] assms(1,2)
  by (auto simp: UInt_Add_def UInt_Sub_def)

theorem uint_add_sub_witness:
  "exact_sum 2 (UInt_Add [18446744073709551615, 5] [1, 7] 0) (uval [18446744073709551615, 5] + uval [1, 7] + carry_val 0)"
  using uint_add_sub [of "[1, 7]" "[18446744073709551615, 5]" "[]" 0] by (simp add: numeral_2_eq_2)

end
