(* ===== verification/TtmathTable.thy ===== *)
theory TtmathTable
  imports TtmathUInt
begin

text \<open>
  \<^verbatim>\<open>src/lib/ttmath-0.9.4/ttmath/ttmathuint.h\<close>: the operations of \<open>UInt<value_size>\<close> built on the word
  arithmetic of \<open>TtmathUInt\<close>: setting, shifts by any number of bits, bit access, the first two
  multiplication algorithms and comparison.

  As there, \<open>this\<close> is its table, lowest word first, and \<open>value_size\<close> its length, which is never zero.
  Loops that move words inside one table are written as in the source, as updates of the table in
  the same order, since source and destination overlap.
\<close>

section \<open>Setting\<close>

definition SetZero :: "table \<Rightarrow> table" where
  "SetZero t = map (\<lambda>_. 0) t"

definition SetOne :: "table \<Rightarrow> table" where
  "SetOne t = (SetZero t)[0 := 1]"

definition SetMax :: "table \<Rightarrow> table" where
  "SetMax t = map (\<lambda>_. TTMATH_UINT_MAX_VALUE) t"

definition SetMin :: "table \<Rightarrow> table" where
  "SetMin t = SetZero t"

fun Swap :: "table \<Rightarrow> table \<Rightarrow> table \<times> table" where
  "Swap (a # as) (b # bs) = (let (xs, ys) = Swap as bs in (b # xs, a # ys))"
| "Swap as bs = (as, bs)"

text \<open>
  The downward loops \<open>for( ; i>=0 ; --i) table[i] = v\<close>, entered with \<open>i + 1\<close>, and
  \<open>for( ; second>=0 ; --first, --second) table[first] = table[second]\<close>, entered with \<open>second + 1\<close>
  and \<open>first - second\<close>; then the two upward loops of \<open>RcrMoveAllWords\<close>.
\<close>

fun fill_down :: "nat \<Rightarrow> uint \<Rightarrow> table \<Rightarrow> table" where
  "fill_down 0 v t = t"
| "fill_down (Suc i) v t = fill_down i v (t[i := v])"

fun copy_down :: "nat \<Rightarrow> nat \<Rightarrow> table \<Rightarrow> table" where
  "copy_down 0 k t = t"
| "copy_down (Suc second) k t = copy_down second k (t[second + k := t ! second])"

function fill_up :: "nat \<Rightarrow> uint \<Rightarrow> table \<Rightarrow> table" where
  "fill_up first v t = (if first < length t then fill_up (first + 1) v (t[first := v]) else t)"
  by pat_completeness auto
termination by (relation "measure (\<lambda>(first, v, t). length t - first)") auto

function copy_up :: "nat \<Rightarrow> nat \<Rightarrow> table \<Rightarrow> nat \<times> table" where
  "copy_up first second t =
     (if second < length t then copy_up (first + 1) (second + 1) (t[first := t ! second]) else (first, t))"
  by pat_completeness auto
termination by (relation "measure (\<lambda>(first, second, t). length t - second)") auto

declare fill_up.simps [simp del] copy_up.simps [simp del]

text \<open>
  \<open>SetFromTable\<close> in its 64-bit version: \<open>temp_table\<close> holds 32-bit words, highest first. The loop
  returns \<open>i + 1\<close>, what is left of \<open>temp_table\<close> and the table. The rounding bit is looked for with the
  mask of a 64-bit word.
\<close>

fun sft_loop :: "nat \<Rightarrow> uint32 list \<Rightarrow> table \<Rightarrow> nat \<times> uint32 list \<times> table" where
  "sft_loop (Suc i) (a # b # xs) t = sft_loop i xs (t[i := push_bit 32 (ucast a) OR ucast b])"
| "sft_loop (Suc i) [a] t = sft_loop i [] (t[i := push_bit 32 (ucast a)])"
| "sft_loop i xs t = (i, xs, t)"

definition SetFromTable :: "uint32 list \<Rightarrow> table \<Rightarrow> table" where
  "SetFromTable temp_table t =
     (let (i, xs, t1) = sft_loop (length t) temp_table t;
          t2 = (case xs of
                  [] \<Rightarrow> t1
                | x # _ \<Rightarrow> if ucast x AND TTMATH_UINT_HIGHEST_BIT \<noteq> 0 \<and> t1 ! 0 \<noteq> TTMATH_UINT_MAX_VALUE
                           then t1[0 := t1 ! 0 + 1] else t1)
      in fill_down i 0 t2)"

section \<open>Increment, shifts\<close>

definition UInt_AddOne :: "table \<Rightarrow> (uint \<times> table) res" where
  "UInt_AddOne t = UInt_AddInt 1 0 t"

definition UInt_SubOne :: "table \<Rightarrow> (uint \<times> table) res" where
  "UInt_SubOne t = UInt_SubInt 1 0 t"

text \<open>The reference parameters \<open>rest_bits\<close> and \<open>last_c\<close> (zero at the only call) and the table.\<close>

definition RclMoveAllWords :: "nat \<Rightarrow> uint \<Rightarrow> uint \<Rightarrow> table \<Rightarrow> nat \<times> uint \<times> table" where
  "RclMoveAllWords bits c last_c t =
     (let rest_bits = bits mod TTMATH_BITS_PER_UINT;
          all_words = bits div TTMATH_BITS_PER_UINT;
          mask = (if c \<noteq> 0 then TTMATH_UINT_MAX_VALUE else 0)
      in if length t \<le> all_words then
           (0, if all_words = length t \<and> rest_bits = 0 then t ! 0 AND 1 else last_c, map (\<lambda>_. mask) t)
         else if 0 < all_words then
           (rest_bits, t ! (length t - all_words) AND 1,
            fill_down all_words mask (copy_down (length t - all_words) all_words t))
         else (rest_bits, last_c, t))"

definition UInt_Rcl :: "nat \<Rightarrow> uint \<Rightarrow> table \<Rightarrow> (uint \<times> table) res" where
  "UInt_Rcl bits c t =
     (if bits = 0 then Inr (0, t)
      else
        (let (rest_bits, last_c, t1) =
               (if TTMATH_BITS_PER_UINT \<le> bits then RclMoveAllWords bits c 0 t else (bits, 0, t))
         in if rest_bits = 0 then Inr (last_c, t1)
            else if rest_bits = 1 then Inr (UInt_Rcl2_one c t1)
            else if rest_bits = 2 then Inr (UInt_Rcl2_one c (snd (UInt_Rcl2_one c t1)))
            else UInt_Rcl2 rest_bits c t1))"

definition RcrMoveAllWords :: "nat \<Rightarrow> uint \<Rightarrow> uint \<Rightarrow> table \<Rightarrow> nat \<times> uint \<times> table" where
  "RcrMoveAllWords bits c last_c t =
     (let rest_bits = bits mod TTMATH_BITS_PER_UINT;
          all_words = bits div TTMATH_BITS_PER_UINT;
          mask = (if c \<noteq> 0 then TTMATH_UINT_MAX_VALUE else 0)
      in if length t \<le> all_words then
           (0, if all_words = length t \<and> rest_bits = 0
               then (if t ! (length t - 1) AND TTMATH_UINT_HIGHEST_BIT \<noteq> 0 then 1 else 0) else last_c,
            map (\<lambda>_. mask) t)
         else if 0 < all_words then
           (let (first, t1) = copy_up 0 all_words t
            in (rest_bits, if t ! (all_words - 1) AND TTMATH_UINT_HIGHEST_BIT \<noteq> 0 then 1 else 0,
                fill_up first mask t1))
         else (rest_bits, last_c, t))"

definition UInt_Rcr :: "nat \<Rightarrow> uint \<Rightarrow> table \<Rightarrow> (uint \<times> table) res" where
  "UInt_Rcr bits c t =
     (if bits = 0 then Inr (0, t)
      else
        (let (rest_bits, last_c, t1) =
               (if TTMATH_BITS_PER_UINT \<le> bits then RcrMoveAllWords bits c 0 t else (bits, 0, t))
         in if rest_bits = 0 then Inr (last_c, t1)
            else if rest_bits = 1 then Inr (UInt_Rcr2_one c t1)
            else if rest_bits = 2 then Inr (UInt_Rcr2_one c (snd (UInt_Rcr2_one c t1)))
            else UInt_Rcr2 rest_bits c t1))"

text \<open>The loop \<open>for(a=value_size-1 ; a>=0 && table[a]==0 ; --a)\<close>, in and out as \<open>a + 1\<close>.\<close>

fun top_size :: "nat \<Rightarrow> table \<Rightarrow> nat" where
  "top_size 0 t = 0"
| "top_size (Suc a) t = (if t ! a = 0 then top_size a t else Suc a)"

definition CompensationToLeft :: "table \<Rightarrow> (nat \<times> table) res" where
  "CompensationToLeft t =
     (let a = top_size (length t) t
      in if a = 0 then Inr (0, t)
         else
           (let k = length t - a;
                moving = k * TTMATH_BITS_PER_UINT;
                t1 = (if k \<noteq> 0 then fill_down k 0 (copy_down a k t) else t);
                moving2 = TTMATH_BITS_PER_UINT - nat (FindLeadingBitInWord (t1 ! (length t - 1))) - 1
            in andThen (UInt_Rcl moving2 0 t1) (\<lambda>(_, t2). Inr (moving + moving2, t2))))"

section \<open>Bits\<close>

text \<open>The returned value, \<open>table_id\<close> and \<open>index\<close>.\<close>

fun lead_id :: "nat \<Rightarrow> table \<Rightarrow> nat" where
  "lead_id 0 t = 0"
| "lead_id (Suc i) t = (if t ! Suc i = 0 then lead_id i t else Suc i)"

definition FindLeadingBit :: "table \<Rightarrow> bool \<times> nat \<times> nat" where
  "FindLeadingBit t =
     (let table_id = lead_id (length t - 1) t
      in if table_id = 0 \<and> t ! table_id = 0 then (False, table_id, 0)
         else (True, table_id, nat (FindLeadingBitInWord (t ! table_id))))"

fun low_id :: "table \<Rightarrow> nat" where
  "low_id [] = 0"
| "low_id (w # ws) = (if w = 0 then Suc (low_id ws) else 0)"

definition FindLowestBit :: "table \<Rightarrow> bool \<times> nat \<times> nat" where
  "FindLowestBit t =
     (let table_id = low_id t
      in if length t \<le> table_id then (False, 0, 0)
         else (True, table_id, nat (FindLowestBitInWord (t ! table_id))))"

definition GetBit :: "nat \<Rightarrow> table \<Rightarrow> uint res" where
  "GetBit bit_index t =
     (if bit_index < length t * TTMATH_BITS_PER_UINT then
        andThen (SetBitInWord (t ! (bit_index div TTMATH_BITS_PER_UINT)) (bit_index mod TTMATH_BITS_PER_UINT))
          (\<lambda>(res, _). Inr res)
      else Inl Undefined_Behaviour)"

definition SetBit :: "nat \<Rightarrow> table \<Rightarrow> (uint \<times> table) res" where
  "SetBit bit_index t =
     (if bit_index < length t * TTMATH_BITS_PER_UINT then
        (let index = bit_index div TTMATH_BITS_PER_UINT
         in andThen (SetBitInWord (t ! index) (bit_index mod TTMATH_BITS_PER_UINT))
              (\<lambda>(res, w). Inr (res, t[index := w])))
      else Inl Undefined_Behaviour)"

definition BitAnd :: "table \<Rightarrow> table \<Rightarrow> table" where
  "BitAnd t ss2 = map2 (AND) t ss2"

definition BitOr :: "table \<Rightarrow> table \<Rightarrow> table" where
  "BitOr t ss2 = map2 (OR) t ss2"

definition BitXor :: "table \<Rightarrow> table \<Rightarrow> table" where
  "BitXor t ss2 = map2 (XOR) t ss2"

definition BitNot :: "table \<Rightarrow> table" where
  "BitNot t = map NOT t"

definition BitNot2 :: "table \<Rightarrow> table" where
  "BitNot2 t =
     (case FindLeadingBit t of
        (True, table_id, index) \<Rightarrow>
          (let t1 = map NOT (take table_id t) @ drop table_id t;
               shift = TTMATH_BITS_PER_UINT - index - 1;
               mask = (if shift \<noteq> 0 then drop_bit shift TTMATH_UINT_MAX_VALUE else TTMATH_UINT_MAX_VALUE)
           in t1[table_id := t1 ! table_id XOR mask])
      | (False, _, _) \<Rightarrow> t[0 := 1])"

section \<open>Multiplication\<close>

text \<open>The loop of both \<open>MulInt\<close>, over the given indices, with the sum of the carries.\<close>

fun mul_int_words :: "table \<Rightarrow> uint \<Rightarrow> nat list \<Rightarrow> uint \<Rightarrow> table \<Rightarrow> (uint \<times> table) res" where
  "mul_int_words u ss2 [] c t = Inr (c, t)"
| "mul_int_words u ss2 (x1 # xs) c t =
     (let (r2, r1) = MulTwoWords (u ! x1) ss2
      in andThen (UInt_AddTwoInts r2 r1 x1 t) (\<lambda>(c1, t1). mul_int_words u ss2 xs (c + c1) t1))"

definition MulInt :: "uint \<Rightarrow> table \<Rightarrow> (uint \<times> table) res" where
  "MulInt ss2 u =
     (if ss2 = 0 then Inr (0, SetZero u)
      else
        andThen (mul_int_words u ss2 [0..<length u - 1] 0 (SetZero u)) (\<lambda>(c, t).
          (let x1 = length u - 1;
               (r2, r1) = MulTwoWords (u ! x1) ss2;
               c1 = c + (if r2 \<noteq> 0 then 1 else 0)
           in andThen (UInt_AddInt r1 x1 t) (\<lambda>(c2, t1). Inr (if c1 + c2 = 0 then 0 else 1, t1)))))"

text \<open>The second version has a longer result, whose old value is \<open>result\<close>, and ignores the carries.\<close>

definition MulInt_big :: "uint \<Rightarrow> table \<Rightarrow> table \<Rightarrow> table res" where
  "MulInt_big ss2 t result =
     (if length result \<le> length t then Inl Undefined_Behaviour
      else if ss2 = 0 then Inr (SetZero result)
      else
        (let x1size = (if 2 < length t then top_size (length t) t else length t);
             x1start = (if 2 < length t then low_id (take x1size t) else 0)
         in if x1size = 0 then Inr (SetZero result)
            else andThen (mul_int_words t ss2 [x1start..<x1size] 0 (SetZero result)) (\<lambda>(_, r). Inr r)))"

text \<open>\<open>Mul1Ref\<close>: the loop runs its first argument many times; \<open>ss1\<close> is the copy of \<open>this\<close>.\<close>

fun mul1_loop :: "nat \<Rightarrow> table \<Rightarrow> table \<Rightarrow> table \<Rightarrow> (uint \<times> table) res" where
  "mul1_loop 0 ss1 ss2 t = Inr (0, t)"
| "mul1_loop (Suc i) ss1 ss2 t =
     (case UInt_Add t t 0 of (c, t1) \<Rightarrow>
        if c \<noteq> 0 then Inr (1, t1)
        else andThen (UInt_Rcl 1 0 ss1) (\<lambda>(c1, ss1').
          if c1 \<noteq> 0 then
            (case UInt_Add t1 ss2 0 of (c2, t2) \<Rightarrow>
               if c2 \<noteq> 0 then Inr (1, t2) else mul1_loop i ss1' ss2 t2)
          else mul1_loop i ss1' ss2 t1))"

definition Mul1Ref :: "table \<Rightarrow> table \<Rightarrow> (uint \<times> table) res" where
  "Mul1Ref t ss2 = mul1_loop (length t * TTMATH_BITS_PER_UINT) t ss2 (SetZero t)"

text \<open>\<open>Mul1\<close> copies its argument when it is \<open>this\<close> itself; \<open>Mul1Big\<close> works on tables twice as long.\<close>

definition Mul1 :: "table \<Rightarrow> table \<Rightarrow> (uint \<times> table) res" where
  "Mul1 t ss2 = Mul1Ref t ss2"

definition Mul1Big :: "table \<Rightarrow> table \<Rightarrow> table res" where
  "Mul1Big t ss2 =
     andThen (Mul1 (t @ map (\<lambda>_. 0) t) (ss2 @ map (\<lambda>_. 0) ss2)) (\<lambda>(_, result). Inr result)"

text \<open>The two loops of \<open>Mul2Big3\<close>, over the given indices.\<close>

fun mul_inner :: "uint \<Rightarrow> table \<Rightarrow> nat \<Rightarrow> nat list \<Rightarrow> table \<Rightarrow> table res" where
  "mul_inner a ss2 x1 [] result = Inr result"
| "mul_inner a ss2 x1 (x2 # xs) result =
     (let (r2, r1) = MulTwoWords a (ss2 ! x2)
      in andThen (UInt_AddTwoInts r2 r1 (x2 + x1) result) (\<lambda>(_, result1). mul_inner a ss2 x1 xs result1))"

fun mul_outer :: "table \<Rightarrow> table \<Rightarrow> nat list \<Rightarrow> nat list \<Rightarrow> table \<Rightarrow> table res" where
  "mul_outer ss1 ss2 xs2 [] result = Inr result"
| "mul_outer ss1 ss2 xs2 (x1 # xs) result =
     andThen (mul_inner (ss1 ! x1) ss2 x1 xs2 result) (mul_outer ss1 ss2 xs2 xs)"

definition Mul2Big3 :: "table \<Rightarrow> table \<Rightarrow> table \<Rightarrow> nat \<Rightarrow> nat \<Rightarrow> nat \<Rightarrow> nat \<Rightarrow> table res" where
  "Mul2Big3 ss1 ss2 result x1start x1size x2start x2size =
     (if x1size = 0 \<or> x2size = 0 then Inr (SetZero result)
      else mul_outer ss1 ss2 [x2start..<x2size] [x1start..<x1size] (SetZero result))"

definition Mul2Big2 :: "table \<Rightarrow> table \<Rightarrow> table \<Rightarrow> table res" where
  "Mul2Big2 ss1 ss2 result =
     (if 2 < length ss1 then
        (let x1size = top_size (length ss1) ss1; x2size = top_size (length ss1) ss2;
             x1start = low_id (take x1size ss1); x2start = low_id (take x2size ss2)
         in Mul2Big3 ss1 ss2 result x1start x1size x2start x2size)
      else Mul2Big3 ss1 ss2 result 0 (length ss1) 0 (length ss1))"

definition Mul2Big :: "table \<Rightarrow> table \<Rightarrow> table \<Rightarrow> table res" where
  "Mul2Big t ss2 result = Mul2Big2 t ss2 result"

text \<open>
  \<open>Mul2\<close> multiplies into a local result of twice the size. Its old content does not matter
  (\<open>Mul2Big3\<close> sets it to zero); here it is zero.
\<close>

definition Mul2 :: "table \<Rightarrow> table \<Rightarrow> (uint \<times> table) res" where
  "Mul2 t ss2 =
     andThen (Mul2Big t ss2 (replicate (2 * length t) 0)) (\<lambda>result.
       Inr (if list_ex (\<lambda>w. w \<noteq> 0) (drop (length t) result) then 1 else 0, take (length t) result))"

section \<open>Tests and comparison\<close>

definition IsTheHighestBitSet :: "table \<Rightarrow> bool" where
  "IsTheHighestBitSet t \<longleftrightarrow> t ! (length t - 1) AND TTMATH_UINT_HIGHEST_BIT \<noteq> 0"

definition IsTheLowestBitSet :: "table \<Rightarrow> bool" where
  "IsTheLowestBitSet t \<longleftrightarrow> t ! 0 AND 1 \<noteq> 0"

definition IsOnlyTheHighestBitSet :: "table \<Rightarrow> bool" where
  "IsOnlyTheHighestBitSet t \<longleftrightarrow>
     list_all (\<lambda>w. w = 0) (take (length t - 1) t) \<and> t ! (length t - 1) = TTMATH_UINT_HIGHEST_BIT"

definition IsOnlyTheLowestBitSet :: "table \<Rightarrow> bool" where
  "IsOnlyTheLowestBitSet t \<longleftrightarrow> t ! 0 = 1 \<and> list_all (\<lambda>w. w = 0) (drop 1 t)"

definition IsZero :: "table \<Rightarrow> bool" where
  "IsZero t \<longleftrightarrow> list_all (\<lambda>w. w = 0) t"

definition AreFirstBitsZero :: "nat \<Rightarrow> table \<Rightarrow> bool res" where
  "AreFirstBitsZero bits t =
     (if bits \<le> length t * TTMATH_BITS_PER_UINT then
        (let index = bits div TTMATH_BITS_PER_UINT; rest = bits mod TTMATH_BITS_PER_UINT
         in Inr (list_all (\<lambda>w. w = 0) (take index t) \<and>
              (rest = 0 \<or> t ! index AND drop_bit (TTMATH_BITS_PER_UINT - rest) TTMATH_UINT_MAX_VALUE = 0)))
      else Inl Undefined_Behaviour)"

text \<open>
  The start of the comparisons (as \<open>i + 1\<close>, zero when the loop does not run) and their loop, with the
  comparison of the first different words and the answer for equal numbers.
\<close>

definition cmp_start :: "int \<Rightarrow> table \<Rightarrow> nat" where
  "cmp_start index t = nat ((if index = - 1 \<or> int (length t) \<le> index then int (length t) - 1 else index) + 1)"

fun cmp_loop :: "(uint \<Rightarrow> uint \<Rightarrow> bool) \<Rightarrow> bool \<Rightarrow> nat \<Rightarrow> table \<Rightarrow> table \<Rightarrow> bool" where
  "cmp_loop R e 0 t l = e"
| "cmp_loop R e (Suc i) t l = (if t ! i \<noteq> l ! i then R (t ! i) (l ! i) else cmp_loop R e i t l)"

definition CmpSmaller :: "table \<Rightarrow> table \<Rightarrow> int \<Rightarrow> bool" where
  "CmpSmaller t l index = cmp_loop (<) False (cmp_start index t) t l"

definition CmpBigger :: "table \<Rightarrow> table \<Rightarrow> int \<Rightarrow> bool" where
  "CmpBigger t l index = cmp_loop (>) False (cmp_start index t) t l"

definition CmpEqual :: "table \<Rightarrow> table \<Rightarrow> int \<Rightarrow> bool" where
  "CmpEqual t l index = cmp_loop (\<lambda>_ _. False) True (cmp_start index t) t l"

definition CmpSmallerEqual :: "table \<Rightarrow> table \<Rightarrow> int \<Rightarrow> bool" where
  "CmpSmallerEqual t l index = cmp_loop (<) True (cmp_start index t) t l"

definition CmpBiggerEqual :: "table \<Rightarrow> table \<Rightarrow> int \<Rightarrow> bool" where
  "CmpBiggerEqual t l index = cmp_loop (>) True (cmp_start index t) t l"

section \<open>Moving words\<close>

lemma fill_down_eq: "i \<le> length t \<Longrightarrow> fill_down i v t = replicate i v @ drop i t"
proof (induction i arbitrary: t)
  case (Suc i)
  have "drop i (t[i := v]) = v # drop (Suc i) t" using Suc.prems by (simp add: drop_update_swap flip: Cons_nth_drop_Suc)
  then show ?case using Suc by (simp add: replicate_app_Cons_same)
qed simp

lemma copy_down_eq: "j + k \<le> length t \<Longrightarrow> copy_down j k t = take k t @ take j t @ drop (j + k) t"
proof (induction j arbitrary: t)
  case (Suc j)
  have "drop (j + k) (t[j + k := t ! j]) = t ! j # drop (Suc j + k) t"
    using Suc.prems by (simp add: drop_update_swap flip: Cons_nth_drop_Suc)
  then show ?case using Suc by (simp add: take_Suc_conv_app_nth)
qed simp

lemma fill_up_eq: "first \<le> length t \<Longrightarrow> fill_up first v t = take first t @ replicate (length t - first) v"
proof (induction first v t rule: fill_up.induct)
  case (1 first v t)
  show ?case
  proof (cases "first < length t")
    case True
    have "fill_up (first + 1) v (t[first := v]) = take (first + 1) (t[first := v]) @ replicate (length t - (first + 1)) v"
      using 1 True by simp
    moreover have "length t - first = Suc (length t - (first + 1))" using True by simp
    ultimately show ?thesis
      using True by (subst fill_up.simps) (simp add: take_Suc_conv_app_nth)
  qed (use 1 in \<open>subst fill_up.simps, simp\<close>)
qed

lemma copy_up_eq:
  "first \<le> second \<Longrightarrow> second \<le> length t \<Longrightarrow>
   copy_up first second t = (first + (length t - second), take first t @ drop second t @ drop (first + (length t - second)) t)"
proof (induction first second t rule: copy_up.induct)
  case (1 first second t)
  show ?case
  proof (cases "second < length t")
    case True
    let ?t = "t[first := t ! second]"
    have "copy_up (first + 1) (second + 1) ?t = (first + 1 + (length t - (second + 1)),
        take (first + 1) ?t @ drop (second + 1) ?t @ drop (first + 1 + (length t - (second + 1))) ?t)"
      using 1 True by simp
    moreover have "first + 1 + (length t - (second + 1)) = first + (length t - second)" using True by simp
    moreover have "take (first + 1) ?t = take first t @ [t ! second]" using True "1.prems" by (simp add: take_Suc_conv_app_nth)
    moreover have "drop second t = t ! second # drop (second + 1) ?t" using True "1.prems" by (simp add: Cons_nth_drop_Suc)
    ultimately show ?thesis using True "1.prems" by (subst copy_up.simps) simp
  qed (use 1 in \<open>subst copy_up.simps, simp\<close>)
qed

lemma uval_zeros [simp]: "uval (replicate n 0) = 0" "uval (map (\<lambda>_. 0) t) = 0"
  by (induction n, simp_all) (induction t, simp_all)

lemma unat_max [simp]: "unat TTMATH_UINT_MAX_VALUE = 18446744073709551615"
  by (simp add: TTMATH_UINT_MAX_VALUE_def)

lemma uval_take: "uval (take m t) = uval t mod 2 ^ (64 * m)"
proof (cases "m \<le> length t")
  case True
  have "uval t = uval (take m t) + 2 ^ (64 * m) * uval (drop m t)" using uval_append [of "take m t" "drop m t"] True by simp
  moreover have "uval (take m t) < 2 ^ (64 * m)" using uval_less [of "take m t"] True by simp
  ultimately show ?thesis by simp
next
  case False
  then have "uval t < 2 ^ (64 * m)" using uval_less [of t] by (elim less_le_trans) (simp add: power_increasing)
  then show ?thesis using False by simp
qed

lemma uval_drop: "uval (drop m t) = uval t div 2 ^ (64 * m)"
proof (cases "m \<le> length t")
  case True
  have "uval t = uval (take m t) + 2 ^ (64 * m) * uval (drop m t)" using uval_append [of "take m t" "drop m t"] True by simp
  moreover have "uval (take m t) < 2 ^ (64 * m)" using uval_less [of "take m t"] True by simp
  ultimately show ?thesis by simp
next
  case False
  then have "uval t < 2 ^ (64 * m)" using uval_less [of t] by (elim less_le_trans) (simp add: power_increasing)
  then show ?thesis using False by simp
qed

definition ones :: "nat \<Rightarrow> uint \<Rightarrow> nat" where
  "ones k c = (if c \<noteq> 0 then 2 ^ k - 1 else 0)"

lemma ones_less: "ones k c < 2 ^ k"
  by (simp add: ones_def)

lemma ones_add: "ones (a + b) c = ones a c * 2 ^ b + ones b c" "ones (a + b) c = ones a c + ones b c * 2 ^ a"
  by (simp_all add: ones_def power_add diff_mult_distrib algebra_simps)

lemma uval_mask: "uval (replicate k (if c \<noteq> 0 then TTMATH_UINT_MAX_VALUE else 0)) = ones (64 * k) c"
proof (induction k)
  case (Suc k)
  have "ones (64 * Suc k) c = ones 64 c + ones (64 * k) c * 2 ^ 64" using ones_add(2) [of 64 "64 * k" c] by simp
  then show ?case using Suc by (simp add: ones_def)
qed (simp add: ones_def)

section \<open>Shifts by any number of bits\<close>

text \<open>
  What a left and a right shift by \<open>bits\<close> of \<open>t\<close> with carry in \<open>c\<close> give: the new table, and the last
  bit moved out (zero when nothing is moved or more bits than there are).
\<close>

definition shl_spec :: "nat \<Rightarrow> uint \<Rightarrow> table \<Rightarrow> uint \<times> table \<Rightarrow> bool" where
  "shl_spec bits c t r \<longleftrightarrow> length (snd r) = length t \<and>
     uval (snd r) = (uval t * 2 ^ bits + ones bits c) mod 2 ^ (64 * length t) \<and>
     unat (fst r) = (if bits = 0 \<or> 64 * length t < bits then 0 else uval t div 2 ^ (64 * length t - bits) mod 2)"

definition shr_spec :: "nat \<Rightarrow> uint \<Rightarrow> table \<Rightarrow> uint \<times> table \<Rightarrow> bool" where
  "shr_spec bits c t r \<longleftrightarrow> length (snd r) = length t \<and>
     uval (snd r) = (uval t + ones bits c * 2 ^ (64 * length t)) div 2 ^ bits \<and>
     unat (fst r) = (if bits = 0 \<or> 64 * length t < bits then 0 else uval t div 2 ^ (bits - 1) mod 2)"

lemma shifted_div:
  assumes "(f :: nat) < 2 ^ a" and "a \<le> N"
  shows "(x * 2 ^ a + f) div 2 ^ N = x div 2 ^ (N - a)"
proof -
  have "(2 :: nat) ^ N = 2 ^ a * 2 ^ (N - a)" using assms(2) by (simp flip: power_add)
  moreover have "(x * 2 ^ a + f) div 2 ^ a = x" using assms(1) by simp
  ultimately show ?thesis by (simp add: div_mult2_eq)
qed

lemma mod_div_parity:
  assumes "(i :: nat) < N"
  shows "(y mod 2 ^ N) div 2 ^ i mod 2 = (y :: nat) div 2 ^ i mod 2"
proof -
  have "bit (y mod 2 ^ N) i = bit y i" using assms by (simp add: bit_take_bit_iff flip: take_bit_eq_mod)
  then show ?thesis by (simp add: bit_iff_odd mod_2_eq_odd)
qed

lemma shl_compose:
  assumes 1: "shl_spec a c t (c1, t1)" and 2: "shl_spec b c t1 (c2, t2)" and b: "0 < b" "a + b \<le> 64 * length t"
  shows "shl_spec (a + b) c t (c2, t2)"
proof -
  let ?N = "64 * length t"
  let ?y = "uval t * 2 ^ a + ones a c"
  have l: "length t1 = length t" "uval t1 = ?y mod 2 ^ ?N" using 1 by (simp_all add: shl_spec_def)
  have "uval t2 = (uval t1 * 2 ^ b + ones b c) mod 2 ^ ?N" using 2 l(1) by (simp add: shl_spec_def)
  also have "\<dots> = (?y * 2 ^ b + ones b c) mod 2 ^ ?N" unfolding l(2) by (metis mod_add_left_eq mod_mult_left_eq)
  also have "?y * 2 ^ b + ones b c = uval t * 2 ^ (a + b) + ones (a + b) c"
    by (simp add: ones_add(1) power_add algebra_simps)
  finally have v: "uval t2 = (uval t * 2 ^ (a + b) + ones (a + b) c) mod 2 ^ ?N" .
  have "unat c2 = uval t1 div 2 ^ (?N - b) mod 2" using 2 l(1) b by (simp add: shl_spec_def)
  also have "\<dots> = ?y div 2 ^ (?N - b) mod 2" unfolding l(2) using b by (intro mod_div_parity) simp
  also have "?y div 2 ^ (?N - b) = uval t div 2 ^ (?N - (a + b))"
    using shifted_div [OF ones_less [of a c], of "?N - b" "uval t"] b(2) by (simp add: add.commute)
  finally show ?thesis using v 2 l(1) b by (simp add: shl_spec_def)
qed

lemma shr_compose:
  assumes 1: "shr_spec a c t (c1, t1)" and 2: "shr_spec b c t1 (c2, t2)" and b: "0 < b" "a + b \<le> 64 * length t"
  shows "shr_spec (a + b) c t (c2, t2)"
proof -
  let ?N = "64 * length t"
  let ?y = "uval t + ones a c * 2 ^ ?N"
  have l: "length t1 = length t" "uval t1 = ?y div 2 ^ a" using 1 by (simp_all add: shr_spec_def)
  have "uval t2 = (uval t1 + ones b c * 2 ^ ?N) div 2 ^ b" using 2 l(1) by (simp add: shr_spec_def)
  also have "uval t1 + ones b c * 2 ^ ?N = (?y + ones b c * 2 ^ ?N * 2 ^ a) div 2 ^ a" unfolding l(2) by simp
  also have "?y + ones b c * 2 ^ ?N * 2 ^ a = uval t + ones (a + b) c * 2 ^ ?N" by (simp add: ones_add(2) algebra_simps)
  finally have v: "uval t2 = (uval t + ones (a + b) c * 2 ^ ?N) div 2 ^ (a + b)"
    by (simp add: power_add div_mult2_eq)
  have "unat c2 = uval t1 div 2 ^ (b - 1) mod 2" using 2 l(1) b by (simp add: shr_spec_def)
  also have "uval t1 div 2 ^ (b - 1) = ?y div 2 ^ (a + b - 1)"
    unfolding l(2) using b(1) by (simp flip: div_mult2_eq power_add)
  also have "\<dots> mod 2 = (?y mod 2 ^ ?N) div 2 ^ (a + b - 1) mod 2" using b by (intro mod_div_parity [symmetric]) simp
  also have "?y mod 2 ^ ?N = uval t" using uval_less [of t] by simp
  finally show ?thesis using v 2 l(1) b by (simp add: shr_spec_def)
qed

lemma Rcl2_shl: "0 < bits \<Longrightarrow> bits < 64 \<Longrightarrow> t \<noteq> [] \<Longrightarrow> \<exists>r. UInt_Rcl2 bits c t = Inr r \<and> shl_spec bits c t r"
proof -
  assume a: "0 < bits" "bits < 64" "t \<noteq> []"
  then have "64 \<le> 64 * length t" by (cases t) simp_all
  then have n: "bits \<le> 64 * length t" using a(2) by simp
  from Rcl2_val [OF a(1,2), of c t] obtain c' t' where r: "UInt_Rcl2 bits c t = Inr (c', t')" "length t' = length t"
      "uval t' = (uval t * 2 ^ bits + ones bits c) mod 2 ^ (64 * length t)"
      "unat c' = (uval t * 2 ^ bits + ones bits c) div 2 ^ (64 * length t) mod 2"
    unfolding ones_def by blast
  then show ?thesis
    using a n by (intro exI [of _ "(c', t')"]) (simp add: shl_spec_def shifted_div [OF ones_less])
qed

lemma Rcl2_one_shl: "t \<noteq> [] \<Longrightarrow> shl_spec 1 c t (UInt_Rcl2_one c t)"
proof -
  assume t: "t \<noteq> []"
  then have n: "64 \<le> 64 * length t" by (cases t) simp_all
  obtain c' t' where r: "UInt_Rcl2_one c t = (c', t')" by force
  let ?x = "uval t * 2 ^ 1 + ones 1 c"
  have e: "length t' = length t" "uval t' + 2 ^ (64 * length t) * unat c' = ?x"
    using Rcl2_val [of 1 c t] r by (auto simp: ones_def)
  have l: "uval t' < 2 ^ (64 * length t)" using uval_less [of t'] e(1) by simp
  have v: "uval t' = ?x mod 2 ^ (64 * length t)" "unat c' = ?x div 2 ^ (64 * length t)"
    unfolding e(2) [symmetric] using l by simp_all
  have d: "?x div 2 ^ (64 * length t) = uval t div 2 ^ (64 * length t - 1)" using n by (intro shifted_div ones_less) simp
  have "64 * length t = Suc (64 * length t - 1)" using n by simp
  then have "uval t < 2 * 2 ^ (64 * length t - 1)" using uval_less [of t] by (metis power_Suc)
  then have "uval t div 2 ^ (64 * length t - 1) < 2" by (simp add: less_mult_imp_div_less mult.commute)
  then show ?thesis using r e(1) v d n by (simp add: shl_spec_def)
qed

lemma Rcr2_shr: "0 < bits \<Longrightarrow> bits < 64 \<Longrightarrow> t \<noteq> [] \<Longrightarrow> \<exists>r. UInt_Rcr2 bits c t = Inr r \<and> shr_spec bits c t r"
proof -
  assume a: "0 < bits" "bits < 64" "t \<noteq> []"
  then have "64 \<le> 64 * length t" by (cases t) simp_all
  then have n: "bits \<le> 64 * length t" using a(2) by simp
  have o: "(if c \<noteq> 0 then (2 ^ bits - 1) * 2 ^ (64 * length t) else 0) = ones bits c * 2 ^ (64 * length t)"
    by (simp add: ones_def)
  from Rcr2_val [OF a, of c, unfolded o] obtain c' t' where "UInt_Rcr2 bits c t = Inr (c', t')" "length t' = length t"
      "uval t' = (uval t + ones bits c * 2 ^ (64 * length t)) div 2 ^ bits" "unat c' = uval t div 2 ^ (bits - 1) mod 2"
    by blast
  then show ?thesis using a n by (intro exI [of _ "(c', t')"]) (simp add: shr_spec_def)
qed

lemma Rcr2_one_shr: "t \<noteq> [] \<Longrightarrow> shr_spec 1 c t (UInt_Rcr2_one c t)"
proof -
  assume t: "t \<noteq> []"
  then have n: "64 \<le> 64 * length t" by (cases t) simp_all
  obtain c' t' where r: "UInt_Rcr2_one c t = (c', t')" by force
  have e: "length t' = length t" "2 * uval t' + unat c' = uval t + ones 1 c * 2 ^ (64 * length t)"
    using shift_right_one [OF t, of c] r by (auto simp: ones_def)
  have "unat c' < 2" using r by (auto simp: UInt_Rcr2_one_def split: prod.splits)
  moreover have "even (ones 1 c * 2 ^ (64 * length t))" using t by simp
  ultimately have "unat c' = uval t mod 2" using e(2) by presburger
  moreover have "(2 * uval t' + unat c') div 2 = uval t'" using \<open>unat c' < 2\<close> by simp
  then have "uval t' = (uval t + ones 1 c * 2 ^ (64 * length t)) div 2" by (simp only: e(2))
  ultimately show ?thesis using r e(1) n t by (simp add: shr_spec_def)
qed

lemma word_and_one: "unat (w AND 1 :: uint) = unat w mod 2"
  by (simp add: and_one_eq unat_mod)

lemma word_top_bit: "unat (if w AND TTMATH_UINT_HIGHEST_BIT \<noteq> 0 then 1 else 0 :: uint) = unat w div 2 ^ 63"
  using unat_drop_bit64 [of 63 w] by (simp add: highest_bit drop_bit_63 split: if_splits)

lemma uval_nth: "i < length t \<Longrightarrow> unat (t ! i) = uval t div 2 ^ (64 * i) mod 2 ^ 64"
  by (simp flip: uval_drop Cons_nth_drop_Suc) (simp add: unat_bound)

lemma mod_add_low:
  assumes "(f :: nat) < A"
  shows "f + A * (x mod B) = (x * A + f) mod (A * B)"
proof -
  have "(x * A + f) div A = x" "(x * A + f) mod A = f" using assms by simp_all
  then show ?thesis by (simp add: mod_mult2_eq)
qed

lemma RclMove_shl:
  assumes "t \<noteq> []" and "64 \<le> bits"
  shows "\<exists>b last t1. RclMoveAllWords bits c 0 t = (b, last, t1) \<and> b < 64 \<and>
    (if b = 0 then shl_spec bits c t (last, t1)
     else b = bits mod 64 \<and> bits < 64 * length t \<and> shl_spec (bits - b) c t (last, t1))"
proof (cases "length t \<le> bits div 64")
  case True
  let ?N = "64 * length t"
  let ?last = "if bits div 64 = length t \<and> bits mod 64 = 0 then t ! 0 AND 1 else 0"
  let ?t1 = "map (\<lambda>_. if c \<noteq> 0 then TTMATH_UINT_MAX_VALUE else 0) t"
  have n: "?N \<le> bits" using True by simp
  have e: "(2 :: nat) ^ bits = 2 ^ (bits - ?N) * 2 ^ ?N" using n by (simp flip: power_add)
  have o: "ones bits c = ones (bits - ?N) c * 2 ^ ?N + ones ?N c" using ones_add(1) [of "bits - ?N" ?N c] n by simp
  have "(uval t * 2 ^ bits + ones bits c) mod 2 ^ ?N = ones bits c mod 2 ^ ?N" unfolding e by (simp flip: mult.assoc)
  also have "\<dots> = ones ?N c" unfolding o using ones_less [of ?N c] by simp
  finally have "uval ?t1 = (uval t * 2 ^ bits + ones bits c) mod 2 ^ ?N"
    using uval_mask [of "length t" c] by (simp only: map_replicate_const)
  moreover have "unat ?last = (if ?N < bits then 0 else uval t mod 2)"
    using n assms(1) uval_nth [of 0 t] by (auto simp: word_and_one mod_mod_cancel)
  ultimately have "shl_spec bits c t (?last, ?t1)" using n assms by (auto simp: shl_spec_def)
  then show ?thesis using True by (simp add: RclMoveAllWords_def)
next
  case False
  let ?k = "bits div 64" and ?N = "64 * length t"
  let ?m = "if c \<noteq> 0 then TTMATH_UINT_MAX_VALUE else 0"
  have k: "0 < ?k" "?k < length t" using False assms(2) by (simp_all add: div_greater_zero_iff)
  have b: "bits - bits mod 64 = 64 * ?k" "bits < ?N" using k(2) by (auto simp: minus_mod_eq_mult_div)
  have cp: "fill_down ?k ?m (copy_down (length t - ?k) ?k t) = replicate ?k ?m @ take (length t - ?k) t"
    using k by (simp add: copy_down_eq fill_down_eq)
  have "64 * length t = 64 * ?k + 64 * (length t - ?k)" using k by simp
  then have N: "(2 :: nat) ^ ?N = 2 ^ (64 * ?k) * 2 ^ (64 * (length t - ?k))" by (metis power_add)
  have "uval (replicate ?k ?m @ take (length t - ?k) t) = ones (64 * ?k) c + 2 ^ (64 * ?k) * (uval t mod 2 ^ (64 * (length t - ?k)))"
    by (simp only: uval_append uval_mask uval_take length_replicate)
  also have "\<dots> = (uval t * 2 ^ (64 * ?k) + ones (64 * ?k) c) mod 2 ^ ?N" unfolding N by (rule mod_add_low [OF ones_less])
  finally have v: "uval (replicate ?k ?m @ take (length t - ?k) t) = (uval t * 2 ^ (64 * ?k) + ones (64 * ?k) c) mod 2 ^ ?N" .
  have "unat (t ! (length t - ?k) AND 1) = uval t div 2 ^ (?N - 64 * ?k) mod 2"
    using k uval_nth [of "length t - ?k" t] by (simp add: word_and_one mod_mod_cancel diff_mult_distrib2)
  then have "shl_spec (64 * ?k) c t (t ! (length t - ?k) AND 1, replicate ?k ?m @ take (length t - ?k) t)"
    using v k by (simp add: shl_spec_def)
  moreover have "bits mod 64 = 0 \<Longrightarrow> bits = 64 * ?k" using b by simp
  ultimately show ?thesis
    using False k b cp by (auto simp: RclMoveAllWords_def Let_def)
qed

lemma Rcl_rest:
  assumes "0 < b" and "b < 64" and t: "t \<noteq> []"
  shows "\<exists>r. (if b = 1 then Inr (UInt_Rcl2_one c t)
     else if b = 2 then Inr (UInt_Rcl2_one c (snd (UInt_Rcl2_one c t))) else UInt_Rcl2 b c t) = Inr r \<and> shl_spec b c t r"
proof -
  have r1: "shl_spec 1 c t (UInt_Rcl2_one c t)" by (rule Rcl2_one_shl [OF t])
  then have "snd (UInt_Rcl2_one c t) \<noteq> []" using t by (auto simp: shl_spec_def)
  then have "shl_spec (1 + 1) c t (UInt_Rcl2_one c (snd (UInt_Rcl2_one c t)))"
    using shl_compose [of 1 c t "fst (UInt_Rcl2_one c t)" "snd (UInt_Rcl2_one c t)" 1] r1 Rcl2_one_shl t
    by (cases t) (simp_all, metis prod.collapse)
  then show ?thesis using r1 Rcl2_shl [OF assms, of c] by (auto simp: numeral_2_eq_2 simp del: split_paired_Ex)
qed

lemma Rcl_shl:
  assumes "t \<noteq> []"
  shows "\<exists>r. UInt_Rcl bits c t = Inr r \<and> shl_spec bits c t r"
proof (cases "bits = 0")
  case True
  then show ?thesis using uval_less [of t] by (simp add: UInt_Rcl_def shl_spec_def ones_def)
next
  case False
  define st where "st = (if 64 \<le> bits then RclMoveAllWords bits c 0 t else (bits, 0, t))"
  obtain b last t1 where s: "st = (b, last, t1)" "b < 64"
      "if b = 0 then shl_spec bits c t (last, t1)
       else b \<le> bits \<and> bits \<le> 64 * length t \<and> shl_spec (bits - b) c t (last, t1)"
  proof (cases "64 \<le> bits")
    case True
    then show ?thesis using RclMove_shl [OF assms True, of c] that by (fastforce simp: st_def split: if_splits)
  next
    case False
    moreover have "64 \<le> 64 * length t" using assms by (cases t) simp_all
    moreover have "shl_spec 0 c t (0, t)" using uval_less [of t] by (simp add: shl_spec_def ones_def)
    ultimately show ?thesis using that [of bits 0 t] \<open>bits \<noteq> 0\<close> by (simp add: st_def)
  qed
  show ?thesis
  proof (cases "b = 0")
    case True
    then show ?thesis using s \<open>bits \<noteq> 0\<close> by (simp add: UInt_Rcl_def flip: st_def)
  next
    case False
    then have c: "b \<le> bits" "bits \<le> 64 * length t" "shl_spec (bits - b) c t (last, t1)" using s(3) by auto
    then have "t1 \<noteq> []" using assms by (auto simp: shl_spec_def)
    then obtain r where r: "(if b = 1 then Inr (UInt_Rcl2_one c t1)
        else if b = 2 then Inr (UInt_Rcl2_one c (snd (UInt_Rcl2_one c t1))) else UInt_Rcl2 b c t1) = Inr r" "shl_spec b c t1 r"
      using Rcl_rest [of b t1 c] False s(2) by blast
    have "shl_spec bits c t r" using shl_compose [OF c(3), of b "fst r" "snd r"] r(2) c False by simp
    then show ?thesis using s(1) r(1) \<open>bits \<noteq> 0\<close> False by (simp add: UInt_Rcl_def flip: st_def)
  qed
qed

lemma ones_over:
  assumes "(x :: nat) < 2 ^ N" and "N \<le> b"
  shows "(x + ones b c * 2 ^ N) div 2 ^ b = ones N c"
proof (cases "c = 0")
  case True
  have "x < 2 ^ b" using assms by (meson less_le_trans one_le_numeral power_increasing)
  then show ?thesis using True by (simp add: ones_def)
next
  case False
  have "(2 :: nat) ^ N \<le> 2 ^ b" using assms(2) by (simp add: power_increasing)
  moreover have "((2 :: nat) ^ b - 1) * 2 ^ N + 2 ^ N = 2 ^ b * (2 ^ N - 1) + 2 ^ b"
    by (simp add: diff_mult_distrib diff_mult_distrib2)
  ultimately have "x + (2 ^ b - 1) * 2 ^ N = (2 ^ b - 2 ^ N + x) + 2 ^ b * (2 ^ N - 1)" by linarith
  moreover have l: "2 ^ b - 2 ^ N + x < 2 ^ b" using assms(1) \<open>2 ^ N \<le> 2 ^ b\<close> by linarith
  have "((2 ^ b - 2 ^ N + x) + 2 ^ b * (2 ^ N - 1)) div 2 ^ b = 2 ^ N - 1"
    using l by (subst div_mult_self2) simp_all
  ultimately show ?thesis using False by (simp only: ones_def if_True simp_thms)
qed

lemma RcrMove_shr:
  assumes "t \<noteq> []" and "64 \<le> bits"
  shows "\<exists>b last t1. RcrMoveAllWords bits c 0 t = (b, last, t1) \<and> b < 64 \<and>
    (if b = 0 then shr_spec bits c t (last, t1)
     else b = bits mod 64 \<and> bits < 64 * length t \<and> shr_spec (bits - b) c t (last, t1))"
proof (cases "length t \<le> bits div 64")
  case True
  let ?N = "64 * length t"
  let ?last = "if bits div 64 = length t \<and> bits mod 64 = 0
     then (if t ! (length t - 1) AND TTMATH_UINT_HIGHEST_BIT \<noteq> 0 then 1 else 0) else 0 :: uint"
  let ?t1 = "map (\<lambda>_. if c \<noteq> 0 then TTMATH_UINT_MAX_VALUE else 0) t"
  have n: "?N \<le> bits" using True by simp
  have "uval ?t1 = ones ?N c" using uval_mask [of "length t" c] by (simp only: map_replicate_const)
  then have v: "uval ?t1 = (uval t + ones bits c * 2 ^ ?N) div 2 ^ bits" using ones_over [OF uval_less n] by simp
  have "unat (t ! (length t - 1)) = uval t div 2 ^ (?N - 64)"
    using uval_drop [of "length t - 1" t] assms(1) by (cases t rule: rev_cases) (simp_all add: nth_append)
  then have "unat (t ! (length t - 1)) div 2 ^ 63 = uval t div 2 ^ (?N - 1)"
    using assms(1) by (cases t) (simp_all add: power_add mult.commute flip: div_mult2_eq)
  moreover have "uval t div 2 ^ (?N - 1) < 2"
  proof -
    have "?N = Suc (?N - 1)" using assms(1) by (cases t) simp_all
    then have "uval t < 2 * 2 ^ (?N - 1)" using uval_less [of t] by (metis power_Suc)
    then show ?thesis by (simp add: less_mult_imp_div_less mult.commute)
  qed
  ultimately have "unat ?last = (if ?N < bits then 0 else uval t div 2 ^ (bits - 1) mod 2)"
    using n word_top_bit [of "t ! (length t - 1)"] by auto
  then have "shr_spec bits c t (?last, ?t1)" using v assms by (auto simp: shr_spec_def)
  then show ?thesis using True by (simp add: RcrMoveAllWords_def)
next
  case False
  let ?k = "bits div 64" and ?N = "64 * length t"
  let ?m = "if c \<noteq> 0 then TTMATH_UINT_MAX_VALUE else 0"
  have k: "0 < ?k" "?k < length t" using False assms(2) by (simp_all add: div_greater_zero_iff)
  have b: "bits - bits mod 64 = 64 * ?k" "bits < ?N" using k(2) by (auto simp: minus_mod_eq_mult_div)
  have cp: "copy_up 0 ?k t = (length t - ?k, drop ?k t @ drop (length t - ?k) t)" using k by (simp add: copy_up_eq)
  have fl: "fill_up (length t - ?k) ?m (drop ?k t @ drop (length t - ?k) t) = drop ?k t @ replicate ?k ?m"
    using k by (simp add: fill_up_eq)
  have u: "uval (drop ?k t @ replicate ?k ?m) = uval t div 2 ^ (64 * ?k) + 2 ^ (64 * (length t - ?k)) * ones (64 * ?k) c"
    by (simp only: uval_append uval_mask uval_drop length_drop)
  have "64 * length t = 64 * (length t - ?k) + 64 * ?k"
    by (simp only: le_add_diff_inverse2 [OF less_imp_le [OF k(2)]] flip: distrib_left)
  then have N: "(2 :: nat) ^ ?N = 2 ^ (64 * (length t - ?k)) * 2 ^ (64 * ?k)" by (metis power_add)
  have o: "ones (64 * ?k) c * 2 ^ ?N = (2 ^ (64 * (length t - ?k)) * ones (64 * ?k) c) * 2 ^ (64 * ?k)"
    unfolding N by (simp only: mult_ac)
  have v: "uval (drop ?k t @ replicate ?k ?m) = (uval t + ones (64 * ?k) c * 2 ^ ?N) div 2 ^ (64 * ?k)"
    unfolding u o by simp
  have "unat (t ! (?k - 1)) div 2 ^ 63 = uval t div 2 ^ (64 * (?k - 1)) mod 2 ^ 64 div 2 ^ 63"
    using k uval_nth [of "?k - 1" t] by simp
  also have "\<dots> = uval t div 2 ^ (64 * (?k - 1)) div 2 ^ 63 mod 2"
    using mod_mult2_eq [of "uval t div 2 ^ (64 * (?k - 1))" "2 ^ 63" 2] by simp
  also have "uval t div 2 ^ (64 * (?k - 1)) div 2 ^ 63 = uval t div 2 ^ (64 * ?k - 1)"
    using k(1) by (cases ?k) (simp_all add: power_add mult.commute flip: div_mult2_eq)
  finally have "unat (if t ! (?k - 1) AND TTMATH_UINT_HIGHEST_BIT \<noteq> 0 then 1 else 0 :: uint) = uval t div 2 ^ (64 * ?k - 1) mod 2"
    by (simp only: word_top_bit)
  then have "shr_spec (64 * ?k) c t (if t ! (?k - 1) AND TTMATH_UINT_HIGHEST_BIT \<noteq> 0 then 1 else 0, drop ?k t @ replicate ?k ?m)"
    using v k by (simp add: shr_spec_def)
  moreover have "bits mod 64 = 0 \<Longrightarrow> bits = 64 * ?k" using b by simp
  ultimately show ?thesis
    using False k b cp fl by (auto simp: RcrMoveAllWords_def Let_def)
qed

lemma Rcr_rest:
  assumes "0 < b" and "b < 64" and t: "t \<noteq> []"
  shows "\<exists>r. (if b = 1 then Inr (UInt_Rcr2_one c t)
     else if b = 2 then Inr (UInt_Rcr2_one c (snd (UInt_Rcr2_one c t))) else UInt_Rcr2 b c t) = Inr r \<and> shr_spec b c t r"
proof -
  have r1: "shr_spec 1 c t (UInt_Rcr2_one c t)" by (rule Rcr2_one_shr [OF t])
  then have "snd (UInt_Rcr2_one c t) \<noteq> []" using t by (auto simp: shr_spec_def)
  then have "shr_spec (1 + 1) c t (UInt_Rcr2_one c (snd (UInt_Rcr2_one c t)))"
    using shr_compose [of 1 c t "fst (UInt_Rcr2_one c t)" "snd (UInt_Rcr2_one c t)" 1] r1 Rcr2_one_shr t
    by (cases t) (simp_all, metis prod.collapse)
  then show ?thesis using r1 Rcr2_shr [OF assms, of c] by (auto simp: numeral_2_eq_2 simp del: split_paired_Ex)
qed

lemma Rcr_shr:
  assumes "t \<noteq> []"
  shows "\<exists>r. UInt_Rcr bits c t = Inr r \<and> shr_spec bits c t r"
proof (cases "bits = 0")
  case True
  then show ?thesis by (simp add: UInt_Rcr_def shr_spec_def ones_def)
next
  case False
  define st where "st = (if 64 \<le> bits then RcrMoveAllWords bits c 0 t else (bits, 0, t))"
  obtain b last t1 where s: "st = (b, last, t1)" "b < 64"
      "if b = 0 then shr_spec bits c t (last, t1)
       else b \<le> bits \<and> bits \<le> 64 * length t \<and> shr_spec (bits - b) c t (last, t1)"
  proof (cases "64 \<le> bits")
    case True
    then show ?thesis using RcrMove_shr [OF assms True, of c] that by (fastforce simp: st_def split: if_splits)
  next
    case False
    moreover have "64 \<le> 64 * length t" using assms by (cases t) simp_all
    moreover have "shr_spec 0 c t (0, t)" by (simp add: shr_spec_def ones_def)
    ultimately show ?thesis using that [of bits 0 t] \<open>bits \<noteq> 0\<close> by (simp add: st_def)
  qed
  show ?thesis
  proof (cases "b = 0")
    case True
    then show ?thesis using s \<open>bits \<noteq> 0\<close> by (simp add: UInt_Rcr_def flip: st_def)
  next
    case False
    then have c: "b \<le> bits" "bits \<le> 64 * length t" "shr_spec (bits - b) c t (last, t1)" using s(3) by auto
    then have "t1 \<noteq> []" using assms by (auto simp: shr_spec_def)
    then obtain r where r: "(if b = 1 then Inr (UInt_Rcr2_one c t1)
        else if b = 2 then Inr (UInt_Rcr2_one c (snd (UInt_Rcr2_one c t1))) else UInt_Rcr2 b c t1) = Inr r" "shr_spec b c t1 r"
      using Rcr_rest [of b t1 c] False s(2) by blast
    have "shr_spec bits c t r" using shr_compose [OF c(3), of b "fst r" "snd r"] r(2) c False by simp
    then show ?thesis using s(1) r(1) \<open>bits \<noteq> 0\<close> False by (simp add: UInt_Rcr_def flip: st_def)
  qed
qed

section \<open>Products\<close>

text \<open>The part of a number that the words with the given indices make up.\<close>

definition wsum :: "table \<Rightarrow> nat list \<Rightarrow> nat" where
  "wsum t xs = (\<Sum>i\<leftarrow>xs. unat (t ! i) * 2 ^ (64 * i))"

lemma wsum_simps [simp]: "wsum t [] = 0" "wsum t (i # xs) = unat (t ! i) * 2 ^ (64 * i) + wsum t xs"
  "wsum t (xs @ ys) = wsum t xs + wsum t ys"
  by (simp_all add: wsum_def)

lemma wsum_zero: "(\<And>i. i \<in> set xs \<Longrightarrow> t ! i = 0) \<Longrightarrow> wsum t xs = 0"
  by (induction xs) simp_all

lemma wsum_front: "m \<le> length t \<Longrightarrow> wsum t [0..<m] = uval (take m t)"
  by (induction m) (simp_all add: take_Suc_conv_app_nth uval_append)

lemma low_id_zeros: "low_id t \<le> length t \<and> (\<forall>i < low_id t. t ! i = 0) \<and> (low_id t < length t \<longrightarrow> t ! low_id t \<noteq> 0)"
  by (induction t) (auto simp: less_Suc_eq_0_disj)

lemma top_size_zeros: "top_size n t \<le> n \<and> (\<forall>i. top_size n t \<le> i \<longrightarrow> i < n \<longrightarrow> t ! i = 0) \<and> (top_size n t \<noteq> 0 \<longrightarrow> t ! (top_size n t - 1) \<noteq> 0)"
  by (induction n) (auto simp: le_Suc_eq less_Suc_eq)

lemma wsum_trim:
  assumes "e \<le> length t" and "\<And>i. i < s \<Longrightarrow> t ! i = 0" and "\<And>i. e \<le> i \<Longrightarrow> i < length t \<Longrightarrow> t ! i = 0"
  shows "wsum t [s..<e] = uval t"
proof -
  have "[0..<e] = [0..<min s e] @ [s..<e]"
    using upt_add_eq_append [of 0 s "e - s"] by (cases "s \<le> e") (auto simp: min_def)
  moreover have "wsum t [0..<min s e] = 0" using assms(2) by (intro wsum_zero) simp
  ultimately have "wsum t [s..<e] = wsum t [0..<e]" by simp
  moreover have "[0..<length t] = [0..<e] @ [e..<length t]" using upt_add_eq_append [of 0 e "length t - e"] assms(1) by simp
  moreover have "wsum t [e..<length t] = 0" using assms(3) by (intro wsum_zero) simp
  ultimately show ?thesis using wsum_front [of "length t" t] by simp
qed

lemma wsum_trimmed: "wsum t [low_id (take (top_size (length t) t) t)..<top_size (length t) t] = uval t"
proof (rule wsum_trim)
  let ?n = "top_size (length t) t"
  show "?n \<le> length t" "\<And>i. ?n \<le> i \<Longrightarrow> i < length t \<Longrightarrow> t ! i = 0" using top_size_zeros [of "length t" t] by auto
  show "t ! i = 0" if "i < low_id (take ?n t)" for i
    using that low_id_zeros [of "take ?n t"] by (auto dest: spec [of _ i])
qed

lemma add_product:
  assumes "MulTwoWords a b = (r2, r1)" and "i + 1 < length t" and "uval t + 2 ^ (64 * i) * (unat a * unat b) < 2 ^ (64 * length t)"
  shows "\<exists>t'. UInt_AddTwoInts r2 r1 i t = Inr (0, t') \<and> length t' = length t \<and> uval t' = uval t + 2 ^ (64 * i) * (unat a * unat b)"
proof -
  have "unat r1 + 2 ^ 64 * unat r2 = unat a * unat b" using MulTwoWords_val [of a b] assms(1) by simp
  then obtain c t' where r: "UInt_AddTwoInts r2 r1 i t = Inr (c, t')" "length t' = length t"
      "uval t' + 2 ^ (64 * length t) * carry_val c = uval t + 2 ^ (64 * i) * (unat a * unat b)"
    using AddTwoInts_exact [OF assms(2), of r2 r1] by (auto simp: exact_sum_def)
  then have "c = 0" using assms(3) by (auto split: if_splits)
  then show ?thesis using r by simp
qed

lemma mul_int_words_val:
  assumes "\<And>i. i \<in> set xs \<Longrightarrow> i + 1 < length t" and "uval t + wsum u xs * unat s < 2 ^ (64 * length t)"
  shows "\<exists>t'. mul_int_words u s xs c t = Inr (c, t') \<and> length t' = length t \<and> uval t' = uval t + wsum u xs * unat s"
  using assms
proof (induction xs arbitrary: t)
  case (Cons i xs)
  obtain r2 r1 where m: "MulTwoWords (u ! i) s = (r2, r1)" by force
  have e: "uval t + wsum u (i # xs) * unat s = uval t + 2 ^ (64 * i) * (unat (u ! i) * unat s) + wsum u xs * unat s"
    by (simp add: algebra_simps)
  obtain t1 where t1: "UInt_AddTwoInts r2 r1 i t = Inr (0, t1)" "length t1 = length t"
      "uval t1 = uval t + 2 ^ (64 * i) * (unat (u ! i) * unat s)"
    using add_product [OF m, of i t] Cons.prems e by auto
  then show ?case using Cons.IH [of t1] Cons.prems m e by (simp add: add.assoc)
qed simp

lemma mul_inner_val:
  assumes "\<And>i. i \<in> set xs \<Longrightarrow> i + x1 + 1 < length t" and "uval t + unat a * 2 ^ (64 * x1) * wsum v xs < 2 ^ (64 * length t)"
  shows "\<exists>t'. mul_inner a v x1 xs t = Inr t' \<and> length t' = length t \<and> uval t' = uval t + unat a * 2 ^ (64 * x1) * wsum v xs"
  using assms
proof (induction xs arbitrary: t)
  case (Cons i xs)
  obtain r2 r1 where m: "MulTwoWords a (v ! i) = (r2, r1)" by force
  have e: "uval t + unat a * 2 ^ (64 * x1) * wsum v (i # xs)
      = uval t + 2 ^ (64 * (i + x1)) * (unat a * unat (v ! i)) + unat a * 2 ^ (64 * x1) * wsum v xs"
    by (simp add: algebra_simps power_add)
  obtain t1 where t1: "UInt_AddTwoInts r2 r1 (i + x1) t = Inr (0, t1)" "length t1 = length t"
      "uval t1 = uval t + 2 ^ (64 * (i + x1)) * (unat a * unat (v ! i))"
    using add_product [OF m, of "i + x1" t] Cons.prems e by auto
  then show ?case using Cons.IH [of t1] Cons.prems m e by (simp add: add.assoc)
qed simp

lemma mul_outer_val:
  assumes "\<And>i j. i \<in> set xs \<Longrightarrow> j \<in> set ys \<Longrightarrow> j + i + 1 < length t" and "uval t + wsum u xs * wsum v ys < 2 ^ (64 * length t)"
  shows "\<exists>t'. mul_outer u v ys xs t = Inr t' \<and> length t' = length t \<and> uval t' = uval t + wsum u xs * wsum v ys"
  using assms
proof (induction xs arbitrary: t)
  case (Cons i xs)
  have e: "uval t + wsum u (i # xs) * wsum v ys = uval t + unat (u ! i) * 2 ^ (64 * i) * wsum v ys + wsum u xs * wsum v ys"
    by (simp add: algebra_simps)
  obtain t1 where t1: "mul_inner (u ! i) v i ys t = Inr t1" "length t1 = length t"
      "uval t1 = uval t + unat (u ! i) * 2 ^ (64 * i) * wsum v ys"
    using mul_inner_val [of ys i t "u ! i" v] Cons.prems e by auto
  then show ?case using Cons.IH [of t1] Cons.prems e by (simp add: add.assoc)
qed simp

lemma uval_SetZero [simp]: "uval (SetZero t) = 0" "length (SetZero t) = length t" "SetZero t = [] \<longleftrightarrow> t = []"
  by (simp_all add: SetZero_def)

lemma product_bound: "uval t * uval s < 2 ^ (64 * (length t + length s))"
proof (cases "uval s = 0")
  case False
  then have "uval t * uval s < 2 ^ (64 * length t) * uval s" using uval_less [of t] by simp
  also have "\<dots> \<le> 2 ^ (64 * length t) * 2 ^ (64 * length s)" using uval_less [of s] by simp
  finally show ?thesis by (simp add: power_add distrib_left)
qed simp

lemma Mul2Big2_val:
  assumes "length s = length t" and "length res = 2 * length t"
  shows "\<exists>r. Mul2Big2 t s res = Inr r \<and> length r = length res \<and> uval r = uval t * uval s"
proof -
  have b: "uval t * uval s < 2 ^ (64 * length (SetZero res))" using product_bound [of t s] assms by (simp add: mult_2)
  have full: "\<exists>r. mul_outer t s [a..<b] [c..<d] (SetZero res) = Inr r \<and> length r = length res \<and> uval r = uval t * uval s"
    if "wsum t [c..<d] = uval t" "wsum s [a..<b] = uval s" "b \<le> length s" "d \<le> length t" for a b c d
    using mul_outer_val [of "[c..<d]" "[a..<b]" "SetZero res" t s] that b assms by auto
  show ?thesis
  proof (cases "2 < length t")
    case True
    let ?m = "top_size (length t) t" and ?n = "top_size (length s) s"
    have "?m \<le> length t" "?n \<le> length s" using top_size_zeros by blast+
    moreover have "?m = 0 \<Longrightarrow> uval t = 0" "?n = 0 \<Longrightarrow> uval s = 0" using wsum_trimmed [of t] wsum_trimmed [of s] by simp_all
    ultimately show ?thesis
      using True assms(1) full [OF wsum_trimmed wsum_trimmed]
      by (auto simp: Mul2Big2_def Mul2Big3_def Let_def)
  next
    case False
    have "wsum t [0..<length t] = uval t" "wsum s [0..<length s] = uval s" by (simp_all add: wsum_front)
    then show ?thesis using False full assms(1) by (auto simp: Mul2Big2_def Mul2Big3_def)
  qed
qed

lemma top_bit_step:
  assumes "(x :: nat) < 2 ^ N" and "Suc i \<le> N"
  shows "x div 2 ^ (N - Suc i) = (x div 2 ^ (N - 1) mod 2) * 2 ^ i + ((x * 2) mod 2 ^ N) div 2 ^ (N - i)"
proof -
  have N: "(2 :: nat) ^ N = 2 * 2 ^ (N - 1)" using assms(2) by (cases N) simp_all
  then have "x div 2 ^ (N - 1) < 2" using assms(1) by (simp add: less_mult_imp_div_less mult.commute)
  then have m: "x div 2 ^ (N - 1) mod 2 = x div 2 ^ (N - 1)" by simp
  have "(x * 2) mod 2 ^ N = 2 * (x mod 2 ^ (N - 1))" by (simp only: N mult.commute [of x 2] mult_mod_right)
  moreover have e: "(2 :: nat) ^ (N - i) = 2 * 2 ^ (N - Suc i)" using assms(2) by (simp add: Suc_diff_le flip: power_Suc)
  ultimately have d: "((x * 2) mod 2 ^ N) div 2 ^ (N - i) = x mod 2 ^ (N - 1) div 2 ^ (N - Suc i)" by simp
  have p: "(2 :: nat) ^ (N - 1) = 2 ^ (N - Suc i) * 2 ^ i" using assms(2) by (simp flip: power_add)
  have "x div 2 ^ (N - Suc i) = (x div 2 ^ (N - 1) * 2 ^ (N - 1) + x mod 2 ^ (N - 1)) div 2 ^ (N - Suc i)"
    by (simp only: div_mult_mod_eq)
  also have "\<dots> = x div 2 ^ (N - 1) * 2 ^ i + x mod 2 ^ (N - 1) div 2 ^ (N - Suc i)"
  proof -
    have q: "x div 2 ^ (N - 1) * 2 ^ (N - 1) = (x div 2 ^ (N - 1) * 2 ^ i) * 2 ^ (N - Suc i)" unfolding p by simp
    show ?thesis unfolding q by (rule div_mult_self3) simp
  qed
  finally show ?thesis using m d by simp
qed

lemma Mul2Big_val:
  "length s = length t \<Longrightarrow> length res = 2 * length t \<Longrightarrow>
   \<exists>r. Mul2Big t s res = Inr r \<and> length r = length res \<and> uval r = uval t * uval s"
  unfolding Mul2Big_def by (rule Mul2Big2_val)

lemma uval_eq_0: "uval t = 0 \<longleftrightarrow> list_all (\<lambda>w. w = 0) t"
  by (induction t) (auto simp: unat_eq_zero)

text \<open>What a product of \<open>n\<close> words promises: the carry tells whether the product \<open>p\<close> fits.\<close>

definition product_fits :: "nat \<Rightarrow> nat \<Rightarrow> uint \<times> table \<Rightarrow> bool" where
  "product_fits n p r \<longleftrightarrow> length (snd r) = n \<and>
     (if p < 2 ^ (64 * n) then fst r = 0 \<and> uval (snd r) = p else fst r = 1)"

lemma Mul2_val:
  assumes "length s = length t"
  shows "\<exists>r. Mul2 t s = Inr r \<and> product_fits (length t) (uval t * uval s) r \<and>
    uval (snd r) = (uval t * uval s) mod 2 ^ (64 * length t)"
proof -
  obtain r where r: "Mul2Big t s (replicate (2 * length t) 0) = Inr r" "length r = 2 * length t" "uval r = uval t * uval s"
    using Mul2Big_val [OF assms, of "replicate (2 * length t) 0"] by auto
  have "list_ex (\<lambda>w. w \<noteq> 0) (drop (length t) r) \<longleftrightarrow> \<not> uval t * uval s < 2 ^ (64 * length t)"
    using uval_eq_0 [of "drop (length t) r"] by (auto simp: uval_drop r(3) list_ex_iff list_all_iff div_eq_0_iff)
  then show ?thesis using r by (simp add: Mul2_def product_fits_def uval_take)
qed

lemma UInt_Add_val:
  assumes "length s = length t" and "t \<noteq> []"
  shows "\<exists>c r. UInt_Add t s 0 = (c, r) \<and> length r = length t \<and> uval r + 2 ^ (64 * length t) * carry_val c = uval t + uval s"
  using add_words_exact [of t s 0] assms by (cases "UInt_Add t s 0") (auto simp: UInt_Add_def exact_sum_def)

lemma mul1_loop_val:
  assumes "length s = length t" and "length x = length t" and "t \<noteq> []" and "i \<le> 64 * length t"
  shows "\<exists>r. mul1_loop i x s t = Inr r \<and>
    product_fits (length t) (uval t * 2 ^ i + uval x div 2 ^ (64 * length t - i) * uval s) r"
  using assms
proof (induction i arbitrary: x t)
  case 0
  then show ?case using uval_less [of t] uval_less [of x] by (simp add: product_fits_def)
next
  case (Suc i)
  let ?N = "64 * length t"
  let ?V = "uval t * 2 ^ Suc i + uval x div 2 ^ (?N - Suc i) * uval s"
  obtain c t1 where a: "UInt_Add t t 0 = (c, t1)" "length t1 = length t" "uval t1 + 2 ^ ?N * carry_val c = 2 * uval t"
    using UInt_Add_val [of t t] Suc.prems by auto
  obtain c1 x1 where x: "UInt_Rcl 1 0 x = Inr (c1, x1)" "length x1 = length t" "uval x1 = (uval x * 2) mod 2 ^ ?N"
      "unat c1 = uval x div 2 ^ (?N - 1) mod 2"
  proof -
    have "x \<noteq> []" using Suc.prems by auto
    then show ?thesis using Rcl_shl [of x 1 0] Suc.prems that by (auto simp: shl_spec_def ones_def)
  qed
  have k: "uval x div 2 ^ (?N - Suc i) = unat c1 * 2 ^ i + uval x1 div 2 ^ (?N - i)"
    using top_bit_step [of "uval x" ?N i] uval_less [of x] Suc.prems x by simp
  have V: "?V = (2 * uval t + unat c1 * uval s) * 2 ^ i + uval x1 div 2 ^ (?N - i) * uval s"
    unfolding k by (simp add: algebra_simps)
  show ?case
  proof (cases "c = 0")
    case False
    then have "2 ^ ?N \<le> 2 * uval t" using a(3) by simp
    also have "\<dots> \<le> uval t * 2 ^ Suc i" by simp
    finally have "\<not> ?V < 2 ^ ?N" by simp
    then show ?thesis using False a by (simp add: product_fits_def)
  next
    case True
    then have t1: "uval t1 = 2 * uval t" "t1 \<noteq> []" using a Suc.prems by auto
    show ?thesis
    proof (cases "c1 = 0")
      case True
      then show ?thesis
        using Suc.IH [of t1 x1] Suc.prems a x t1 \<open>c = 0\<close> unfolding V by (simp add: mult.assoc)
    next
      case False
      then have c1: "unat c1 = 1" using x(4) by (metis not_mod_2_eq_0_eq_1 unat_eq_zero)
      obtain c2 t2 where b: "UInt_Add t1 s 0 = (c2, t2)" "length t2 = length t" "uval t2 + 2 ^ ?N * carry_val c2 = 2 * uval t + uval s"
        using UInt_Add_val [of s t1] Suc.prems a t1 by auto
      show ?thesis
      proof (cases "c2 = 0")
        case False
        then have "2 ^ ?N \<le> 2 * uval t + uval s" using b(3) by simp
        also have "\<dots> \<le> (2 * uval t + uval s) * 2 ^ i" by simp
        finally have "\<not> ?V < 2 ^ ?N" unfolding V c1 by simp
        then show ?thesis using False \<open>c1 \<noteq> 0\<close> \<open>c = 0\<close> a b x by (simp add: product_fits_def)
      next
        case True
        then have "uval t2 = 2 * uval t + uval s" "t2 \<noteq> []" using b Suc.prems by auto
        then show ?thesis
          using Suc.IH [of t2 x1] Suc.prems a b x t1 \<open>c = 0\<close> \<open>c1 \<noteq> 0\<close> True unfolding V c1 by simp
      qed
    qed
  qed
qed

lemma Mul1_val:
  assumes "length s = length t" and "t \<noteq> []"
  shows "\<exists>r. Mul1 t s = Inr r \<and> product_fits (length t) (uval t * uval s) r"
proof -
  have e: "length t * 64 = 64 * length t" by (rule mult.commute)
  have "\<exists>r. mul1_loop (64 * length t) t s (SetZero t) = Inr r \<and>
      product_fits (length (SetZero t)) (uval (SetZero t) * 2 ^ (64 * length t)
        + uval t div 2 ^ (64 * length (SetZero t) - 64 * length t) * uval s) r"
    by (rule mul1_loop_val) (use assms in simp_all)
  then show ?thesis unfolding Mul1_def Mul1Ref_def e by simp
qed

lemma Mul1Big_val:
  assumes "length s = length t" and "t \<noteq> []"
  shows "\<exists>r. Mul1Big t s = Inr r \<and> length r = 2 * length t \<and> uval r = uval t * uval s"
proof -
  let ?t = "t @ map (\<lambda>_. 0) t" and ?s = "s @ map (\<lambda>_. 0) s"
  have "uval ?t = uval t" "uval ?s = uval s" "length ?s = length ?t" "length ?t = 2 * length t" "?t \<noteq> []"
    using assms by (simp_all add: uval_append)
  then obtain r where "Mul1 ?t ?s = Inr r" "product_fits (2 * length t) (uval t * uval s) r"
    using Mul1_val [of ?s ?t] by metis
  then show ?thesis
    using product_bound [of t s] assms by (cases r) (simp add: Mul1Big_def product_fits_def mult_2)
qed

lemma carry_bits_zero: "bit_carry a \<Longrightarrow> bit_carry b \<Longrightarrow> a + b = 0 \<longleftrightarrow> a = 0 \<and> b = 0"
  using unat_add64 [of a b] by (auto simp: bit_carry_def unat_eq_zero split: if_splits)

lemma MulInt_val:
  assumes "u \<noteq> []"
  shows "\<exists>r. MulInt s u = Inr r \<and> product_fits (length u) (uval u * unat s) r \<and>
    uval (snd r) = (uval u * unat s) mod 2 ^ (64 * length u)"
proof (cases "s = 0")
  case True
  then show ?thesis by (simp add: MulInt_def product_fits_def)
next
  case False
  let ?n = "length u - 1" and ?N = "64 * length u"
  let ?low = "uval (take ?n u) * unat s"
  have n: "?n < length u" "length u = Suc ?n" "?N = 64 * ?n + 64" using assms by (cases u, simp_all)+
  then have P: "(2 :: nat) ^ ?N = 2 ^ (64 * ?n) * 2 ^ 64" by (metis power_add)
  have "uval (take ?n u) < 2 ^ (64 * ?n)" using uval_less [of "take ?n u"] by simp
  then have "?low < 2 ^ (64 * ?n) * 2 ^ 64" using unat_bound [of s] by (intro mult_strict_mono) simp_all
  then have "?low < 2 ^ ?N" by (simp only: P)
  then obtain t where t: "mul_int_words u s [0..<?n] 0 (SetZero u) = Inr (0, t)" "length t = length u" "uval t = ?low"
    using mul_int_words_val [of "[0..<?n]" "SetZero u" u s 0] n(1) by (auto simp: wsum_front)
  obtain r2 r1 where m: "MulTwoWords (u ! ?n) s = (r2, r1)" by force
  have mv: "unat r1 + 2 ^ 64 * unat r2 = unat (u ! ?n) * unat s" using MulTwoWords_val [of "u ! ?n" s] m by simp
  have "?n < length t" using t n by simp
  from AddInt_exact [OF this, of r1] obtain c t1 where a: "UInt_AddInt r1 ?n t = Inr (c, t1)" "bit_carry c" "length t1 = length u"
      "uval t1 + 2 ^ ?N * carry_val c = ?low + 2 ^ (64 * ?n) * unat r1"
    using t by (auto simp: exact_sum_def bit_carry_def)
  have "uval u = uval (take ?n u) + 2 ^ (64 * ?n) * unat (u ! ?n)" using uval_split [OF n(1)] n(2) by simp
  then have "uval u * unat s = ?low + 2 ^ (64 * ?n) * (unat r1 + 2 ^ 64 * unat r2)" unfolding mv by (simp add: algebra_simps)
  also have "\<dots> = uval t1 + 2 ^ ?N * (carry_val c + unat r2)" using a(4) P by (simp add: algebra_simps)
  finally have v: "uval u * unat s = uval t1 + 2 ^ ?N * (carry_val c + unat r2)" .
  have l: "uval t1 < 2 ^ ?N" using uval_less [of t1] a(3) by simp
  let ?c = "if (if r2 \<noteq> 0 then 1 else 0) + c = 0 then 0 else 1 :: uint"
  have z: "?c = 0 \<longleftrightarrow> carry_val c + unat r2 = 0"
    using carry_bits_zero [of "if r2 \<noteq> 0 then 1 else 0" c] a(2) by (auto simp: unat_eq_zero)
  have f: "product_fits (length u) (uval u * unat s) (?c, t1)"
  proof (cases "carry_val c + unat r2 = 0")
    case True
    then show ?thesis using z a(3) v l by (simp add: product_fits_def)
  next
    case False
    then have "2 ^ ?N \<le> uval u * unat s" unfolding v by (cases "carry_val c + unat r2") simp_all
    then show ?thesis using False z a(3) by (auto simp: product_fits_def)
  qed
  have "uval t1 = (uval u * unat s) mod 2 ^ ?N" unfolding v using l by simp
  then show ?thesis using f False t(1) m a(1) by (intro exI [of _ "(?c, t1)"]) (simp add: MulInt_def Let_def)
qed

lemma MulInt_big_val:
  assumes "length t < length res"
  shows "\<exists>r. MulInt_big s t res = Inr r \<and> length r = length res \<and> uval r = uval t * unat s"
proof -
  have "uval t * unat s < 2 ^ (64 * (length t + 1))"
    using product_bound [of t "[s]"] by simp
  also have "\<dots> \<le> (2 :: nat) ^ (64 * length res)" using assms by (intro power_increasing) simp_all
  finally have b: "uval t * unat s < 2 ^ (64 * length (SetZero res))" by simp
  have full: "\<exists>r. mul_int_words t s [a..<b] 0 (SetZero res) = Inr (0, r) \<and> length r = length res \<and> uval r = uval t * unat s"
    if "wsum t [a..<b] = uval t" "b \<le> length t" for a b
    using mul_int_words_val [of "[a..<b]" "SetZero res" t s 0] that b assms by auto
  have top: "top_size (length t) t \<le> length t" using top_size_zeros by blast
  show ?thesis
  proof (cases "2 < length t")
    case True
    then show ?thesis using assms full [OF wsum_trimmed top] wsum_trimmed [of t] by (auto simp: MulInt_big_def Let_def)
  next
    case False
    then show ?thesis using assms full [of 0 "length t"] by (auto simp: MulInt_big_def wsum_front)
  qed
qed

section \<open>Comparison\<close>

lemma compare_step:
  fixes a a' :: nat
  assumes "a < B" and "a' < B"
  shows "a + B * w < a' + B * w' \<longleftrightarrow> w < w' \<or> w = w' \<and> a < a'" "a + B * w = a' + B * w' \<longleftrightarrow> w = w' \<and> a = a'"
proof -
  have d: "(a + B * w) div B = w" "(a' + B * w') div B = w'" "(a + B * w) mod B = a" "(a' + B * w') mod B = a'"
    using assms by simp_all
  show "a + B * w = a' + B * w' \<longleftrightarrow> w = w' \<and> a = a'" using d by metis
  have "a + B * w < a' + B * w'" if "w < w'"
  proof -
    have "a + B * w < B * Suc w" using assms(1) by simp
    also have "\<dots> \<le> B * w'" using that by (intro mult_le_mono2) simp
    finally show ?thesis by simp
  qed
  moreover have "w \<le> w'" if "a + B * w < a' + B * w'" using div_le_mono [OF less_imp_le [OF that], of B] d by simp
  ultimately show "a + B * w < a' + B * w' \<longleftrightarrow> w < w' \<or> w = w' \<and> a < a'" by (cases "w = w'") auto
qed

lemma unat_inject64: "unat (v :: uint) = unat w \<longleftrightarrow> v = w"
  by (auto dest: unsigned_word_eqI)

lemma take_Suc_cmp:
  assumes "Suc i \<le> length t" and "Suc i \<le> length l"
  shows "uval (take (Suc i) t) < uval (take (Suc i) l) \<longleftrightarrow> t ! i < l ! i \<or> t ! i = l ! i \<and> uval (take i t) < uval (take i l)"
    and "uval (take (Suc i) t) = uval (take (Suc i) l) \<longleftrightarrow> t ! i = l ! i \<and> uval (take i t) = uval (take i l)"
proof -
  have "uval (take i t) < 2 ^ (64 * i)" "uval (take i l) < 2 ^ (64 * i)" by (simp_all add: uval_take)
  note s = compare_step [OF this]
  have "uval (take (Suc i) t) = uval (take i t) + 2 ^ (64 * i) * unat (t ! i)"
    "uval (take (Suc i) l) = uval (take i l) + 2 ^ (64 * i) * unat (l ! i)"
    using assms by (simp_all add: take_Suc_conv_app_nth uval_append)
  then show "uval (take (Suc i) t) < uval (take (Suc i) l) \<longleftrightarrow> t ! i < l ! i \<or> t ! i = l ! i \<and> uval (take i t) < uval (take i l)"
    "uval (take (Suc i) t) = uval (take (Suc i) l) \<longleftrightarrow> t ! i = l ! i \<and> uval (take i t) = uval (take i l)"
    by (simp_all add: s word_less_nat_alt unat_inject64)
qed

lemma cmp_loop_less:
  "k \<le> length t \<Longrightarrow> k \<le> length l \<Longrightarrow>
   cmp_loop (<) e k t l \<longleftrightarrow> uval (take k t) < uval (take k l) \<or> e \<and> uval (take k t) = uval (take k l)"
  by (induction k) (auto simp: take_Suc_cmp)

lemma cmp_loop_swap: "cmp_loop (>) e k t l = cmp_loop (<) e k l t"
  by (induction k) auto

lemma cmp_loop_equal:
  "k \<le> length t \<Longrightarrow> k \<le> length l \<Longrightarrow> cmp_loop (\<lambda>_ _. False) True k t l \<longleftrightarrow> uval (take k t) = uval (take k l)"
  by (induction k) (auto simp: take_Suc_cmp)

lemma cmp_start_le: "cmp_start index t \<le> length t"
  by (auto simp: cmp_start_def nat_le_iff)

section \<open>Bits of the number\<close>

lemma uval_top:
  assumes "a \<le> length t" and "\<And>i. a \<le> i \<Longrightarrow> i < length t \<Longrightarrow> t ! i = 0"
  shows "uval (take a t) = uval t"
  using wsum_trim [of a t 0] wsum_front [OF assms(1)] assms by simp

lemma uval_top_word:
  assumes "0 < a" and "a \<le> length t" and "\<And>i. a \<le> i \<Longrightarrow> i < length t \<Longrightarrow> t ! i = 0"
    and "2 ^ r \<le> unat (t ! (a - 1))" and "unat (t ! (a - 1)) < 2 ^ Suc r"
  shows "2 ^ (64 * (a - 1) + r) \<le> uval t" "uval t < 2 ^ (64 * (a - 1) + r + 1)"
proof -
  let ?w = "unat (t ! (a - 1))" and ?B = "(2 :: nat) ^ (64 * (a - 1))"
  have "take a t = take (a - 1) t @ [t ! (a - 1)]" using assms(1,2) by (cases a) (simp_all add: take_Suc_conv_app_nth)
  then have v: "uval t = uval (take (a - 1) t) + ?B * ?w" using uval_top [OF assms(2,3)] assms(2) by (simp add: uval_append)
  have l: "uval (take (a - 1) t) < ?B" by (simp add: uval_take)
  have "?B * 2 ^ r \<le> ?B * ?w" using assms(4) by (intro mult_le_mono2)
  then show "2 ^ (64 * (a - 1) + r) \<le> uval t" unfolding v power_add by (rule trans_le_add2)
  have "uval t < ?B * Suc ?w" unfolding v using l by simp
  also have "\<dots> \<le> ?B * 2 ^ Suc r" using assms(5) by (intro mult_le_mono2) simp
  finally show "uval t < 2 ^ (64 * (a - 1) + r + 1)" by (simp add: power_add)
qed

lemma FindLeading_small: "x \<noteq> 0 \<Longrightarrow> \<exists>r < 64. FindLeadingBitInWord x = int r \<and> 2 ^ r \<le> unat x \<and> unat x < 2 ^ Suc r"
proof -
  assume "x \<noteq> 0"
  then obtain r where r: "FindLeadingBitInWord x = int r" "2 ^ r \<le> unat x" "unat x < 2 ^ Suc r"
    using FindLeadingBitInWord_val by blast
  have "(2 :: nat) ^ r < 2 ^ 64" using r(2) unat_bound [of x] by simp
  then show ?thesis using r by (metis one_less_numeral_iff power_less_imp_less_exp semiring_norm(76))
qed

lemma CompensationToLeft_val:
  assumes "uval t \<noteq> 0"
  shows "\<exists>m t'. CompensationToLeft t = Inr (m, t') \<and> length t' = length t \<and> uval t' = uval t * 2 ^ m \<and>
    2 ^ (64 * length t - 1) \<le> uval t'"
proof -
  let ?a = "top_size (length t) t"
  let ?k = "length t - ?a"
  have z: "?a \<le> length t" "\<And>i. ?a \<le> i \<Longrightarrow> i < length t \<Longrightarrow> t ! i = 0" "?a \<noteq> 0 \<Longrightarrow> t ! (?a - 1) \<noteq> 0"
    using top_size_zeros [of "length t" t] by auto
  have a: "0 < ?a" using uval_top [OF z(1,2)] assms by (cases "?a = 0") simp_all
  define t1 where "t1 = replicate ?k 0 @ take ?a t"
  have t1: "(if ?k \<noteq> 0 then fill_down ?k 0 (copy_down ?a ?k t) else t) = t1"
    using z(1) by (auto simp: copy_down_eq fill_down_eq t1_def)
  have l1: "length t1 = length t" "t1 \<noteq> []" "t1 ! (length t - 1) = t ! (?a - 1)"
    using z(1) a by (auto simp: t1_def nth_append)
  have v1: "uval t1 = uval t * 2 ^ (64 * ?k)" using uval_top [OF z(1,2)] by (simp add: t1_def uval_append)
  obtain r where r: "r < 64" "FindLeadingBitInWord (t ! (?a - 1)) = int r" "2 ^ r \<le> unat (t ! (?a - 1))" "unat (t ! (?a - 1)) < 2 ^ Suc r"
    using FindLeading_small z(3) a by blast
  note b = uval_top_word [OF a z(1,2) r(3,4)]
  let ?m = "64 - r - 1"
  have e: "64 * (?a - 1) + r + 1 + (64 * ?k + ?m) = 64 * length t" using z(1) a r(1) by simp
  obtain c t2 where s: "UInt_Rcl ?m 0 t1 = Inr (c, t2)" "length t2 = length t"
      "uval t2 = (uval t1 * 2 ^ ?m) mod 2 ^ (64 * length t)"
    using Rcl_shl [OF l1(2), of ?m 0] l1(1) by (auto simp: shl_spec_def ones_def)
  have p: "uval t1 * 2 ^ ?m = uval t * 2 ^ (64 * ?k + ?m)" unfolding v1 by (simp add: power_add)
  have "uval t * 2 ^ (64 * ?k + ?m) < 2 ^ (64 * (?a - 1) + r + 1) * 2 ^ (64 * ?k + ?m)" using b(2) by simp
  also have "\<dots> = 2 ^ (64 * length t)" unfolding e [symmetric] by (rule power_add [symmetric])
  finally have v2: "uval t2 = uval t * 2 ^ (64 * ?k + ?m)" using s(3) p by simp
  have e1: "64 * length t - 1 = 64 * (?a - 1) + r + (64 * ?k + ?m)" using e by simp
  have "2 ^ (64 * length t - 1) \<le> uval t2" unfolding v2 e1 power_add [of 2 "64 * (?a - 1) + r"]
    using b(1) by (intro mult_le_mono1)
  moreover have "CompensationToLeft t = Inr (?k * 64 + ?m, t2)"
    unfolding CompensationToLeft_def Let_def t1 l1(3) r(2) using a s(1) by simp
  ultimately show ?thesis
    using s(2) v2 by (intro exI [of _ "?k * 64 + ?m"] exI [of _ t2]) (simp add: mult.commute)
qed

lemma lead_id_top: "n < length t \<Longrightarrow> lead_id n t = top_size (Suc n) t - 1"
  by (induction n) auto

lemma FindLeadingBit_val:
  assumes "t \<noteq> []"
  shows "case FindLeadingBit t of (found, table_id, index) \<Rightarrow>
    if uval t = 0 then \<not> found \<and> table_id = 0 \<and> index = 0
    else found \<and> 2 ^ (64 * table_id + index) \<le> uval t \<and> uval t < 2 ^ (64 * table_id + index + 1)"
proof -
  let ?a = "top_size (length t) t"
  have z: "?a \<le> length t" "\<And>i. ?a \<le> i \<Longrightarrow> i < length t \<Longrightarrow> t ! i = 0" "?a \<noteq> 0 \<Longrightarrow> t ! (?a - 1) \<noteq> 0"
    using top_size_zeros [of "length t" t] by auto
  have id: "lead_id (length t - 1) t = ?a - 1" using lead_id_top [of "length t - 1" t] assms by simp
  show ?thesis
  proof (cases "?a = 0")
    case True
    then have "uval t = 0" using uval_top [OF z(1,2)] by simp
    then show ?thesis using True id z(2) [of 0] assms by (simp add: FindLeadingBit_def)
  next
    case False
    obtain r where r: "FindLeadingBitInWord (t ! (?a - 1)) = int r" "2 ^ r \<le> unat (t ! (?a - 1))" "unat (t ! (?a - 1)) < 2 ^ Suc r"
      using FindLeadingBitInWord_val z(3) False by blast
    have b: "2 ^ (64 * (?a - 1) + r) \<le> uval t" "uval t < 2 ^ (64 * (?a - 1) + r + 1)"
      using uval_top_word [OF _ z(1,2) r(2,3)] False by auto
    have "uval t \<noteq> 0" using b(1) by (metis le_zero_eq power_not_zero zero_neq_numeral)
    then show ?thesis using b id r(1) z(3) False by (simp add: FindLeadingBit_def)
  qed
qed

lemma FindLowestBit_val:
  "case FindLowestBit t of (found, table_id, index) \<Rightarrow>
    if uval t = 0 then \<not> found \<and> table_id = 0 \<and> index = 0
    else found \<and> 2 ^ (64 * table_id + index) dvd uval t \<and> odd (uval t div 2 ^ (64 * table_id + index))"
proof -
  let ?i = "low_id t"
  have z: "?i \<le> length t" "\<And>j. j < ?i \<Longrightarrow> t ! j = 0" "?i < length t \<Longrightarrow> t ! ?i \<noteq> 0" using low_id_zeros [of t] by auto
  have "wsum t [0..<?i] = 0" using z(2) by (intro wsum_zero) simp
  then have f: "uval (take ?i t) = 0" using wsum_front [OF z(1)] by simp
  show ?thesis
  proof (cases "?i < length t")
    case False
    then show ?thesis using f z(1) by (simp add: FindLowestBit_def)
  next
    case True
    obtain r where r: "FindLowestBitInWord (t ! ?i) = int r" "2 ^ r dvd unat (t ! ?i)" "odd (unat (t ! ?i) div 2 ^ r)"
      using FindLowestBitInWord_val z(3) True by blast
    have "r < 64"
    proof (rule ccontr)
      assume "\<not> r < 64"
      then have "unat (t ! ?i) < 2 ^ r" using unat_bound [of "t ! ?i"] power_increasing [of 64 r "2 :: nat"] by simp
      then show False using r(3) by simp
    qed
    let ?h = "uval (drop (?i + 1) t)"
    have v: "uval t = 2 ^ (64 * ?i) * (unat (t ! ?i) + 2 ^ 64 * ?h)" using uval_split [OF True] f by simp
    have p: "(2 :: nat) ^ 64 = 2 ^ r * 2 ^ (64 - r)" using \<open>r < 64\<close> by (simp flip: power_add)
    have d: "2 ^ r dvd unat (t ! ?i) + 2 ^ 64 * ?h" using r(2) unfolding p by simp
    have "(unat (t ! ?i) + 2 ^ 64 * ?h) div 2 ^ r = unat (t ! ?i) div 2 ^ r + 2 ^ (64 - r) * ?h"
      unfolding p mult.assoc by (subst div_mult_self2) simp_all
    then have "odd ((unat (t ! ?i) + 2 ^ 64 * ?h) div 2 ^ r)" using r(3) \<open>r < 64\<close> by simp
    moreover have "uval t \<noteq> 0" using v z(3) True by (simp add: unat_eq_zero)
    ultimately show ?thesis
      using True r(1) d unfolding v by (simp add: FindLowestBit_def power_add)
  qed
qed

lemma bit_uval: "i < 64 * length t \<Longrightarrow> bit (t ! (i div 64)) (i mod 64) \<longleftrightarrow> odd (uval t div 2 ^ i)"
proof -
  assume i: "i < 64 * length t"
  then have d: "i div 64 < length t" by (simp add: less_mult_imp_div_less mult.commute)
  have "bit (t ! (i div 64)) (i mod 64) \<longleftrightarrow> odd (unat (t ! (i div 64)) div 2 ^ (i mod 64))"
    by (simp flip: bit_iff_odd add: bit_unsigned_iff)
  also have "\<dots> \<longleftrightarrow> odd (uval t div 2 ^ (64 * (i div 64)) div 2 ^ (i mod 64))"
    unfolding uval_nth [OF d] using mod_div_parity [of "i mod 64" 64] by (simp add: odd_iff_mod_2_eq_one)
  also have "uval t div 2 ^ (64 * (i div 64)) div 2 ^ (i mod 64) = uval t div 2 ^ i"
    by (simp flip: div_mult2_eq power_add)
  finally show ?thesis .
qed

lemma GetBit_val: "i < 64 * length t \<Longrightarrow> GetBit i t = Inr (if odd (uval t div 2 ^ i) then 1 else 0)"
  using bit_uval [of i t] by (simp add: GetBit_def SetBitInWord_val mult.commute)

lemma unat_set_bit: "\<not> bit (w :: uint) b \<Longrightarrow> b < 64 \<Longrightarrow> unat (set_bit b w) = unat w + 2 ^ b"
proof -
  assume b: "\<not> bit w b" "b < 64"
  have "unat (set_bit b w) = set_bit b (unat w)"
    using b(2) by (intro bit_eqI) (auto simp: bit_unsigned_iff bit_set_bit_iff)
  then show ?thesis using b by (simp add: set_bit_eq bit_unsigned_iff)
qed

lemma uval_update: "i < length t \<Longrightarrow> uval (t[i := w]) + 2 ^ (64 * i) * unat (t ! i) = uval t + 2 ^ (64 * i) * unat w"
  using uval_split [of i t] uval_split [of i "t[i := w]"] by (simp add: algebra_simps)

text \<open>Setting a bit that was clear adds its weight.\<close>

lemma SetBit_val:
  assumes "i < 64 * length t"
  shows "\<exists>t'. SetBit i t = Inr (if odd (uval t div 2 ^ i) then 1 else 0, t') \<and> length t' = length t \<and>
    uval t' = (if odd (uval t div 2 ^ i) then uval t else uval t + 2 ^ i)"
proof -
  let ?k = "i div 64" and ?b = "i mod 64"
  let ?w = "t ! ?k"
  have k: "?k < length t" using assms by (simp add: less_mult_imp_div_less mult.commute)
  have s: "SetBit i t = Inr (if bit ?w ?b then 1 else 0, t[?k := set_bit ?b ?w])"
    using assms by (simp add: SetBit_def SetBitInWord_val mult.commute Let_def)
  have "uval (t[?k := set_bit ?b ?w]) = uval t + (if bit ?w ?b then 0 else 2 ^ i)"
  proof (cases "bit ?w ?b")
    case True
    then have "set_bit ?b ?w = ?w" by (intro bit_eqI) (auto simp: bit_set_bit_iff)
    then show ?thesis using True by simp
  next
    case False
    have "unat (set_bit ?b ?w) = unat ?w + 2 ^ ?b" using False by (rule unat_set_bit) simp
    then have "uval (t[?k := set_bit ?b ?w]) = uval t + 2 ^ (64 * ?k) * 2 ^ ?b"
      using uval_update [OF k, of "set_bit ?b ?w"] by (simp add: distrib_left)
    moreover have "(2 :: nat) ^ (64 * ?k) * 2 ^ ?b = 2 ^ i" by (simp flip: power_add)
    ultimately show ?thesis using False by simp
  qed
  then show ?thesis using s bit_uval [OF assms] by (intro exI [of _ "t[?k := set_bit ?b ?w]"]) simp
qed

lemma bit_uval_Cons: "bit (uval (w # t)) n \<longleftrightarrow> (if n < 64 then bit w n else bit (uval t) (n - 64))"
proof -
  have "bit (uval (w # t)) n \<longleftrightarrow> odd ((unat w + 2 ^ 64 * uval t) div 2 ^ n)" by (simp add: bit_iff_odd)
  also have "\<dots> \<longleftrightarrow> (if n < 64 then odd (unat w div 2 ^ n) else odd (uval t div 2 ^ (n - 64)))"
  proof (cases "n < 64")
    case True
    then have "(2 :: nat) ^ 64 = 2 ^ n * 2 ^ (64 - n)" by (simp flip: power_add)
    then have "(unat w + 2 ^ 64 * uval t) div 2 ^ n = unat w div 2 ^ n + 2 ^ (64 - n) * uval t"
      by (simp only: mult.assoc) (subst div_mult_self2, simp_all)
    then show ?thesis using True by simp
  next
    case False
    have "(uval t * 2 ^ 64 + unat w) div 2 ^ n = uval t div 2 ^ (n - 64)"
      using False unat_bound [of w] by (intro shifted_div) simp_all
    then show ?thesis using False by (simp add: add.commute mult.commute)
  qed
  finally show ?thesis by (simp add: bit_unsigned_iff flip: bit_iff_odd)
qed

lemma uval_bitwise:
  "length t = length s \<Longrightarrow> uval (BitAnd t s) = uval t AND uval s \<and> uval (BitOr t s) = uval t OR uval s \<and> uval (BitXor t s) = uval t XOR uval s"
proof (induction t s rule: list_induct2)
  case (Cons v t w s)
  then have "uval (map2 (AND) t s) = uval t AND uval s" "uval (map2 (OR) t s) = uval t OR uval s" "uval (map2 (XOR) t s) = uval t XOR uval s"
    by (simp_all add: BitAnd_def BitOr_def BitXor_def)
  then show ?case
    by (auto simp: BitAnd_def BitOr_def BitXor_def bit_eq_iff bit_and_iff bit_or_iff bit_xor_iff bit_uval_Cons simp del: uval.simps)
qed (simp add: BitAnd_def BitOr_def BitXor_def)

section \<open>Setting from 32-bit words\<close>

text \<open>The number a list of 32-bit words stands for, highest word first.\<close>

fun be_val :: "uint32 list \<Rightarrow> nat" where
  "be_val [] = 0"
| "be_val (x # xs) = unat x * 2 ^ (32 * length xs) + be_val xs"

lemma no_rounding: "(ucast (x :: uint32) :: uint) AND TTMATH_UINT_HIGHEST_BIT = 0"
proof -
  have "\<not> bit (ucast x :: uint) 63" using bit_imp_le_length [of x 63] by (auto simp: bit_ucast_iff)
  then show ?thesis using highest_bit by blast
qed

lemma sft_word: "unat (push_bit 32 (ucast (a :: uint32)) OR ucast (b :: uint32) :: uint) = unat a * 2 ^ 32 + unat b"
  using unat_mk_uint [of a b] by (simp add: mk_uint_def)

lemma sft_step:
  assumes "k \<le> i" and "i < length t"
  shows "uval (take (Suc i) (fill_down k 0 t)) = uval (take i (fill_down k 0 t)) + 2 ^ (64 * i) * unat (t ! i)"
proof -
  have "fill_down k 0 t ! i = t ! i" "i < length (fill_down k 0 t)" using assms by (simp_all add: fill_down_eq nth_append)
  then show ?thesis by (simp add: take_Suc_conv_app_nth uval_append)
qed

lemma be_val_less: "be_val xs < 2 ^ (32 * length xs)"
proof (induction xs)
  case (Cons x xs)
  have "be_val (x # xs) < Suc (unat x) * 2 ^ (32 * length xs)" using Cons by simp
  also have "\<dots> \<le> 2 ^ 32 * 2 ^ (32 * length xs)" using unat_bound32 [of x] by (intro mult_le_mono1) simp
  finally show ?case by (simp add: power_add)
qed simp

lemma be_val_step:
  "be_val (a # b # xs) * 2 ^ (64 * Suc i) div 2 ^ (32 * length (a # b # xs))
     = be_val xs * 2 ^ (64 * i) div 2 ^ (32 * length xs) + 2 ^ (64 * i) * (unat a * 2 ^ 32 + unat b)"
  "be_val [a] * 2 ^ (64 * Suc i) div 2 ^ (32 * length [a]) = 2 ^ (64 * i) * (unat a * 2 ^ 32)"
proof -
  let ?W = "unat a * 2 ^ 32 + unat b" and ?L = "(2 :: nat) ^ (32 * length xs)" and ?I = "(2 :: nat) ^ (64 * i)"
  have e: "be_val (a # b # xs) * 2 ^ (64 * Suc i) = (be_val xs * ?I + (?W * ?I) * ?L) * 2 ^ 64"
    by (simp add: power_add algebra_simps)
  have l: "(2 :: nat) ^ (32 * length (a # b # xs)) = ?L * 2 ^ 64" by (simp add: power_add)
  have "be_val (a # b # xs) * 2 ^ (64 * Suc i) div 2 ^ (32 * length (a # b # xs)) = (be_val xs * ?I + (?W * ?I) * ?L) div ?L"
    unfolding e l by (rule div_mult_mult2) simp
  then show "be_val (a # b # xs) * 2 ^ (64 * Suc i) div 2 ^ (32 * length (a # b # xs))
     = be_val xs * ?I div ?L + ?I * ?W" by (simp add: mult.commute)
  show "be_val [a] * 2 ^ (64 * Suc i) div 2 ^ (32 * length [a]) = ?I * (unat a * 2 ^ 32)"
    by (simp add: power_add)
qed

lemma sft_val:
  "n \<le> length t \<Longrightarrow> case sft_loop n xs t of (i, ys, t1) \<Rightarrow> i \<le> n \<and> length t1 = length t \<and> drop n t1 = drop n t \<and>
     uval (take n (fill_down i 0 t1)) = be_val xs * 2 ^ (64 * n) div 2 ^ (32 * length xs)"
proof (induction n xs t rule: sft_loop.induct)
  case (1 i a b xs t)
  let ?w = "push_bit 32 (ucast a) OR ucast b :: uint"
  obtain k ys t1 where l: "sft_loop i xs (t[i := ?w]) = (k, ys, t1)" by (metis prod_cases3)
  then have r: "k \<le> i" "length t1 = length t" "drop i t1 = ?w # drop (Suc i) t"
      "uval (take i (fill_down k 0 t1)) = be_val xs * 2 ^ (64 * i) div 2 ^ (32 * length xs)"
    using 1 by (auto simp: drop_update_swap simp flip: Cons_nth_drop_Suc)
  then have w: "t1 ! i = ?w" "drop (Suc i) t1 = drop (Suc i) t" using 1 by (simp_all flip: Cons_nth_drop_Suc)
  have "i < length t1" using 1 r(2) by simp
  from sft_step [OF r(1) this] show ?case
    using l r w by (simp only: be_val_step sft_word sft_loop.simps) simp
next
  case (2 i a t)
  let ?w = "push_bit 32 (ucast a) :: uint"
  obtain k ys t1 where l: "sft_loop i [] (t[i := ?w]) = (k, ys, t1)" by (metis prod_cases3)
  then have r: "k \<le> i" "length t1 = length t" "drop i t1 = ?w # drop (Suc i) t" "uval (take i (fill_down k 0 t1)) = 0"
    using 2 by (auto simp: drop_update_swap simp flip: Cons_nth_drop_Suc)
  then have w: "t1 ! i = ?w" "drop (Suc i) t1 = drop (Suc i) t" using 2 by (simp_all flip: Cons_nth_drop_Suc)
  have "i < length t1" using 2 r(2) by simp
  moreover have "unat ?w = unat a * 2 ^ 32" using sft_word [of a 0] by simp
  ultimately show ?case
    using sft_step [OF r(1), of t1] l r w by (simp only: be_val_step sft_loop.simps) simp
qed (use be_val_less unat_bound32 in \<open>simp_all add: fill_down_eq\<close>)

section \<open>Properties\<close>

text \<open>
  Shifts by any number of bits. \<open>Rcl\<close> and \<open>Rcr\<close>, which first move whole words inside the table, in
  place, and then the remaining bits (one or two bits by the special routines), return for every
  number of bits and every table: the number multiplied (divided) by that power of two, cut to the
  table, with the carry's ones shifted in, and the last bit moved out, zero when more bits are moved
  than there are.
\<close>

theorem uint_shifts:
  assumes "t \<noteq> []"
  shows "(\<exists>c' t'. UInt_Rcl bits c t = Inr (c', t') \<and> length t' = length t \<and>
      uval t' = (uval t * 2 ^ bits + ones bits c) mod 2 ^ (64 * length t) \<and>
      unat c' = (if bits = 0 \<or> 64 * length t < bits then 0 else uval t div 2 ^ (64 * length t - bits) mod 2)) \<and>
    (\<exists>c' t'. UInt_Rcr bits c t = Inr (c', t') \<and> length t' = length t \<and>
      uval t' = (uval t + ones bits c * 2 ^ (64 * length t)) div 2 ^ bits \<and>
      unat c' = (if bits = 0 \<or> 64 * length t < bits then 0 else uval t div 2 ^ (bits - 1) mod 2))"
  using Rcl_shl [OF assms, of bits c] Rcr_shr [OF assms, of bits c] by (auto simp: shl_spec_def shr_spec_def)

theorem uint_shifts_witness:
  "\<exists>c' t'. UInt_Rcl 70 1 [5, 9, 7] = Inr (c', t') \<and> length t' = length [5, 9, 7 :: uint] \<and>
     uval t' = (uval [5, 9, 7] * 2 ^ 70 + ones 70 1) mod 2 ^ (64 * length [5, 9, 7 :: uint])"
  using uint_shifts [of "[5, 9, 7]" 70 1] by blast

text \<open>
  The five comparisons compare the numbers. With the default index they are smaller, bigger, equal,
  smaller or equal, and bigger or equal of the two numbers; with another index, of the parts up to that word.
\<close>

theorem uint_compare:
  assumes "length l = length t"
  shows "let k = cmp_start index t; a = uval (take k t); b = uval (take k l) in
    CmpSmaller t l index = (a < b) \<and> CmpBigger t l index = (a > b) \<and> CmpEqual t l index = (a = b) \<and>
    CmpSmallerEqual t l index = (a \<le> b) \<and> CmpBiggerEqual t l index = (a \<ge> b) \<and>
    take (cmp_start (- 1) t) t = t"
  using cmp_start_le [of index t] assms
  by (auto simp: Let_def CmpSmaller_def CmpBigger_def CmpEqual_def CmpSmallerEqual_def CmpBiggerEqual_def
      cmp_loop_swap cmp_loop_less cmp_loop_equal cmp_start_def)

theorem uint_compare_witness:
  "let k = cmp_start (- 1) [9, 1]; a = uval (take k [9, 1]); b = uval (take k [3, 2]) in
    CmpSmaller [9, 1] [3, 2] (- 1) = (a < b) \<and> CmpBigger [9, 1] [3, 2] (- 1) = (a > b) \<and> CmpEqual [9, 1] [3, 2] (- 1) = (a = b) \<and>
    CmpSmallerEqual [9, 1] [3, 2] (- 1) = (a \<le> b) \<and> CmpBiggerEqual [9, 1] [3, 2] (- 1) = (a \<ge> b) \<and>
    take (cmp_start (- 1) [9, 1 :: uint]) [9, 1] = [9, 1 :: uint]"
  by (rule uint_compare) simp

text \<open>
  \<open>SetFromTable\<close> on a 64-bit platform cuts off what does not fit: the result is the number of the
  32-bit words, highest first, aligned to the top of the table and rounded down. The rounding that
  the routine's description announces never happens, because the highest bit of a 32-bit word is
  looked for with the mask of a 64-bit word.
\<close>

theorem set_from_table_truncates:
  "uval (SetFromTable xs t) = be_val xs * 2 ^ (64 * length t) div 2 ^ (32 * length xs)"
proof -
  obtain i ys t1 where l: "sft_loop (length t) xs t = (i, ys, t1)" by (metis prod_cases3)
  then have r: "i \<le> length t" "length t1 = length t"
      "uval (take (length t) (fill_down i 0 t1)) = be_val xs * 2 ^ (64 * length t) div 2 ^ (32 * length xs)"
    using sft_val [of "length t" t xs] by auto
  have "SetFromTable xs t = fill_down i 0 t1" using l by (simp add: SetFromTable_def no_rounding split: list.split)
  moreover have "length (fill_down i 0 t1) = length t" using r(1,2) by (simp add: fill_down_eq)
  ultimately show ?thesis using r(3) by simp
qed

text \<open>
  The remaining routines on bits: \<open>CompensationToLeft\<close> multiplies a number that is not zero by a power of
  two such that the highest bit of the table is set and returns the exponent; \<open>FindLeadingBit\<close> and
  \<open>FindLowestBit\<close> find the first and the last bit set; \<open>GetBit\<close> and \<open>SetBit\<close> read and set one bit of
  the number.
\<close>

lemmas uint_bit_routines = CompensationToLeft_val FindLeadingBit_val FindLowestBit_val GetBit_val SetBit_val uval_bitwise

end
