(* ===== verification/TtmathMul.thy ===== *)
theory TtmathMul
  imports TtmathTable
begin

text \<open>
  Karatsuba's multiplication of \<^verbatim>\<open>ttmathuint.h\<close>, the choice of the fastest routine and \<open>UInt::Mul\<close>. The result
  vector of a routine is another object than its operands and every word of it is written, so it is the
  value returned. An assertion (\<^verbatim>\<open>TTMATH_ASSERT\<close>) that fails is undefined behaviour; the proofs show
  that none does.
\<close>

section \<open>Karatsuba multiplication\<close>

definition TTMATH_USE_KARATSUBA_MULTIPLICATION_FROM_SIZE :: nat where
  [simp]: "TTMATH_USE_KARATSUBA_MULTIPLICATION_FROM_SIZE = 3"

text \<open>\<open>AddVector\<close> on the words of \<open>z\<close> from \<open>k\<close> on, in place, with the assertion that there is no carry.\<close>

definition add_at :: "nat \<Rightarrow> table \<Rightarrow> table \<Rightarrow> table res" where
  "add_at k z s = andThen (UInt_AddVector (drop k z) s) (\<lambda>(c, r). if c = 0 then Inr (take k z @ r) else Inl Undefined_Behaviour)"

text \<open>The loop that adds \<open>xc * yc\<close>.\<close>

fun inc_words :: "table \<Rightarrow> table" where
  "inc_words [] = []"
| "inc_words (w # ws) = (if w + 1 \<noteq> 0 then (w + 1) # ws else (w + 1) # inc_words ws)"

text \<open>\<open>z1\<close> from the product of \<open>temp\<close> and \<open>temp2\<close>, the two sums and their carries; \<open>z2\<close> and \<open>z0\<close> are taken away.\<close>

definition karatsuba_z1 :: "nat \<Rightarrow> uint \<Rightarrow> uint \<Rightarrow> table \<Rightarrow> table \<Rightarrow> table \<Rightarrow> table \<Rightarrow> table \<Rightarrow> table res" where
  "karatsuba_z1 first_size xc yc temp temp2 p z2 z0 =
     (let z1 = p @ replicate first_size 0
      in andThen (if xc \<noteq> 0 then add_at first_size z1 temp2 else Inr z1) (\<lambda>z1.
         andThen (if yc \<noteq> 0 then add_at first_size z1 temp else Inr z1) (\<lambda>z1.
         let z1 = (if xc \<noteq> 0 \<and> yc \<noteq> 0 then take (first_size * 2) z1 @ inc_words (drop (first_size * 2) z1) else z1)
         in andThen (UInt_SubVector z1 z2) (\<lambda>(c, z1).
            if c \<noteq> 0 then Inl Undefined_Behaviour
            else andThen (UInt_SubVector z1 z0) (\<lambda>(c, z1).
              if c \<noteq> 0 then Inl Undefined_Behaviour else Inr z1)))))"

text \<open>The last step adds \<open>z1\<close> to the result, which holds \<open>z0\<close> and \<open>z2\<close>.\<close>

definition karatsuba_join :: "nat \<Rightarrow> nat \<Rightarrow> nat \<Rightarrow> table \<Rightarrow> table \<Rightarrow> table res" where
  "karatsuba_join first_size second_size result_size result z1 =
     (if first_size > second_size then
        (let z1_size = result_size - first_size
         in if z1_size \<le> first_size * 3 \<and> list_all (\<lambda>w. w = 0) (drop z1_size z1)
            then add_at first_size result (take z1_size z1) else Inl Undefined_Behaviour)
      else add_at first_size result z1)"

function Mul3Big2 :: "table \<Rightarrow> table \<Rightarrow> table res"
  and Mul3Big3 :: "table \<Rightarrow> table \<Rightarrow> table \<Rightarrow> table \<Rightarrow> table res" where
  "Mul3Big2 ss1 ss2 =
     (let ss_size = length ss1
      in if ss_size > 1 \<and> ss_size < TTMATH_USE_KARATSUBA_MULTIPLICATION_FROM_SIZE
         then Mul2Big2 ss1 ss2 (replicate (ss_size * 2) 0)
         else if ss_size = 1 then (case MulTwoWords (ss1 ! 0) (ss2 ! 0) of (high, low) \<Rightarrow> Inr [low, high])
         else if ss_size = 0 \<or> length ss2 \<noteq> ss_size then Inl Undefined_Behaviour
         else if odd ss_size
         then Mul3Big3 (drop (ss_size div 2 + 1) ss1) (take (ss_size div 2 + 1) ss1)
                (drop (ss_size div 2 + 1) ss2) (take (ss_size div 2 + 1) ss2)
         else Mul3Big3 (drop (ss_size div 2) ss1) (take (ss_size div 2) ss1)
                (drop (ss_size div 2) ss2) (take (ss_size div 2) ss2))"
| "Mul3Big3 x1 x0 y1 y0 =
     (let first_size = length x0; second_size = length x1; result_size = first_size * 2 + second_size * 2
      in andThen (Mul3Big2 x0 y0) (\<lambda>z0. andThen (Mul3Big2 x1 y1) (\<lambda>z2.
         andThen (UInt_AddVector x0 x1) (\<lambda>(xc, temp). andThen (UInt_AddVector y0 y1) (\<lambda>(yc, temp2).
         andThen (Mul3Big2 temp temp2) (\<lambda>p.
         andThen (karatsuba_z1 first_size xc yc temp temp2 p z2 z0) (\<lambda>z1.
           karatsuba_join first_size second_size result_size (z0 @ z2) z1)))))))"
  by pat_completeness auto

lemma AddVector_length: "UInt_AddVector ss1 ss2 = Inr (c, t) \<Longrightarrow> length t = length ss1"
  using AddVector_exact [of ss2 ss1] by (cases "length ss2 \<le> length ss1") (auto simp: exact_sum_def UInt_AddVector_def)

termination Mul3Big2
  by (relation "measure (\<lambda>a. case a of Inl (ss1, ss2) \<Rightarrow> 2 * length ss1
        | Inr (x1, x0, y1, y0) \<Rightarrow> 2 * max (length x0) (length x1) + 1)")
    (auto dest: AddVector_length simp: Suc_lessI)

declare Mul3Big2.simps [simp del] Mul3Big3.simps [simp del]

section \<open>The fastest routine\<close>

definition Mul3Big :: "table \<Rightarrow> table \<Rightarrow> table res" where
  "Mul3Big t ss2 = Mul3Big2 t ss2"

text \<open>Copying the low half of the result and testing the high one, at the end of \<open>Mul3\<close> and \<open>MulFastest\<close>.\<close>

definition low_half :: "table \<Rightarrow> table \<Rightarrow> uint \<times> table" where
  "low_half t result = (if list_ex (\<lambda>w. w \<noteq> 0) (drop (length t) result) then 1 else 0, take (length t) result)"

definition Mul3 :: "table \<Rightarrow> table \<Rightarrow> (uint \<times> table) res" where
  "Mul3 t ss2 = andThen (Mul3Big t ss2) (\<lambda>result. Inr (low_half t result))"

definition MulFastestBig :: "table \<Rightarrow> table \<Rightarrow> table \<Rightarrow> table res" where
  "MulFastestBig t ss2 result =
     (if length t < TTMATH_USE_KARATSUBA_MULTIPLICATION_FROM_SIZE then Mul2Big t ss2 result
      else
        (let x1size = top_size (length t) t; x2size = top_size (length t) ss2
         in if x1size = 0 \<or> x2size = 0 then Inr (SetZero result)
            else
              (let x1start = low_id (take x1size t); x2start = low_id (take x2size ss2);
                   distancex1 = x1size - x1start; distancex2 = x2size - x2start
               in if distancex1 < 3 \<or> distancex2 < 3
                  then Mul2Big3 t ss2 result x1start x1size x2start x2size
                  else Mul3Big t ss2)))"

definition MulFastest :: "table \<Rightarrow> table \<Rightarrow> (uint \<times> table) res" where
  "MulFastest t ss2 = andThen (MulFastestBig t ss2 (replicate (length t * 2) 0)) (\<lambda>result. Inr (low_half t result))"

definition UInt_Mul :: "table \<Rightarrow> table \<Rightarrow> nat \<Rightarrow> (uint \<times> table) res" where
  "UInt_Mul t ss2 algorithm =
     (if algorithm = 1 then Mul1 t ss2
      else if algorithm = 2 then Mul2 t ss2
      else if algorithm = 3 then Mul3 t ss2
      else MulFastest t ss2)"

definition UInt_MulBig :: "table \<Rightarrow> table \<Rightarrow> table \<Rightarrow> nat \<Rightarrow> table res" where
  "UInt_MulBig t ss2 result algorithm =
     (if algorithm = 1 then Mul1Big t ss2
      else if algorithm = 2 then Mul2Big t ss2 result
      else if algorithm = 3 then Mul3Big t ss2
      else MulFastestBig t ss2 result)"

section \<open>Correctness\<close>

lemma add_at_val:
  assumes "k + length s \<le> length z" and "uval z + 2 ^ (64 * k) * uval s < 2 ^ (64 * length z)"
  shows "\<exists>z'. add_at k z s = Inr z' \<and> length z' = length z \<and> uval z' = uval z + 2 ^ (64 * k) * uval s"
proof -
  obtain c r where r: "UInt_AddVector (drop k z) s = Inr (c, r)" "exact_sum (length z - k) (c, r) (uval (drop k z) + uval s)"
    using AddVector_exact [of s "drop k z"] assms(1) by (simp add: le_diff_conv2 add.commute) blast
  let ?K = "(2 :: nat) ^ (64 * k)" and ?H = "(2 :: nat) ^ (64 * (length z - k))"
  have z: "uval z = uval (take k z) + ?K * uval (drop k z)" using uval_append [of "take k z" "drop k z"] assms(1) by simp
  have "?K * (uval (drop k z) + uval s) < 2 ^ (64 * length z)" using assms(2) z by (simp add: distrib_left)
  also have "(2 :: nat) ^ (64 * length z) = ?K * ?H" using assms(1) by (simp flip: power_add distrib_left)
  finally have "uval (drop k z) + uval s < ?H" by simp
  then have "c = 0" "uval r = uval (drop k z) + uval s" "length r = length z - k"
    using r(2) by (auto simp: exact_sum_def split: if_splits)
  then show ?thesis using r(1) z assms(1) by (simp add: add_at_def uval_append distrib_left)
qed

lemma sub_vec_val:
  assumes "length s \<le> length z" and "uval s \<le> uval z"
  shows "\<exists>z'. UInt_SubVector z s = Inr (0, z') \<and> length z' = length z \<and> uval z' = uval z - uval s"
proof -
  obtain c r where r: "UInt_SubVector z s = Inr (c, r)" "exact_diff (length z) (c, r) (uval z) (uval s)"
    using SubVector_exact [OF assms(1)] by blast
  then have "length r = length z" "uval r + uval s = uval z + 2 ^ (64 * length z) * carry_val c" by (simp_all add: exact_diff_def)
  moreover have "uval r < 2 ^ (64 * length z)" using uval_less [of r] calculation(1) by simp
  ultimately have "c = 0" "uval r = uval z - uval s" using assms(2) by (cases "c = 0"; simp)+
  then show ?thesis using r(1) \<open>length r = length z\<close> by simp
qed

lemma inc_words_val: "length (inc_words t) = length t \<and> uval (inc_words t) = (uval t + 1) mod 2 ^ (64 * length t)"
proof (induction t)
  case (Cons w ws)
  let ?M = "(2 :: nat) ^ (64 * length ws)"
  show ?case
  proof (cases "w + 1 = 0")
    case True
    then have w: "unat w = 18446744073709551615" using unat_bound [of w] unat_add64 [of w 1] by (auto split: if_splits)
    have "uval (w # ws) + 1 = 18446744073709551616 * (uval ws + 1)" using w by simp
    then show ?thesis using True Cons by (simp add: power_add mult_mod_right)
  next
    case False
    then have "unat (w + 1) = unat w + 1" using unat_add64 [of w 1] unat_bound [of w] unat_eq_zero [of "w + 1"] by (auto split: if_splits)
    moreover have "uval (w # ws) + 1 < 2 ^ (64 * length (w # ws))"
      using uval_less [of "(w + 1) # ws"] calculation by simp
    ultimately show ?thesis using False by simp
  qed
qed simp

text \<open>The value of \<open>z1\<close>: the product of the two sums less the two products that are already there.\<close>

lemma karatsuba_z1_val:
  fixes X Y :: nat
  assumes m: "0 < m" and l: "length temp = m" "length temp2 = m" "length p = 2 * m" "length z0 = 2 * m" "length z2 \<le> 2 * m"
    and X: "uval temp + 2 ^ (64 * m) * carry_val xc = X" and Y: "uval temp2 + 2 ^ (64 * m) * carry_val yc = Y"
    and p: "uval p = uval temp * uval temp2" and le: "uval z2 + uval z0 \<le> X * Y"
  shows "\<exists>z1. karatsuba_z1 m xc yc temp temp2 p z2 z0 = Inr z1 \<and> length z1 = 3 * m \<and> uval z1 = X * Y - uval z2 - uval z0"
proof -
  let ?B = "(2 :: nat) ^ (64 * m)" and ?a = "uval temp" and ?b = "uval temp2" and ?x = "carry_val xc" and ?y = "carry_val yc"
  have B4: "4 \<le> ?B" using power_increasing [of 2 "64 * m" "2 :: nat"] m by simp
  have B3: "(2 :: nat) ^ (64 * (3 * m)) = ?B * ?B * ?B" "(2 :: nat) ^ (64 * (2 * m)) = ?B * ?B" by (simp_all flip: power_add)
  have "?a < ?B" "?b < ?B" using uval_less [of temp] uval_less [of temp2] l by simp_all
  then have "X < 2 * ?B" "Y < 2 * ?B" using X Y by (auto split: if_splits)
  then have "X * Y < (2 * ?B) * (2 * ?B)" by (intro mult_strict_mono) simp_all
  also have "\<dots> = 4 * (?B * ?B)" by simp
  also have "\<dots> \<le> ?B * (?B * ?B)" by (rule mult_le_mono1 [OF B4])
  finally have b: "X * Y < ?B * ?B * ?B" by (simp only: mult.assoc)
  have e: "X * Y = ?a * ?b + ?B * (?x * ?b) + ?B * (?y * ?a) + ?B * ?B * (?x * ?y)"
    unfolding X [symmetric] Y [symmetric] by (simp only: algebra_simps)
  let ?z = "p @ replicate m 0"
  have z: "length ?z = 3 * m" "uval ?z = ?a * ?b" using l p by (simp_all add: uval_append)
  obtain za where za: "(if xc \<noteq> 0 then add_at m ?z temp2 else Inr ?z) = Inr za" "length za = 3 * m" "uval za = ?a * ?b + ?B * (?x * ?b)"
    using add_at_val [of m temp2 ?z] z l b e B3(1) by (cases "xc = 0") auto
  obtain zb where zb: "(if yc \<noteq> 0 then add_at m za temp else Inr za) = Inr zb" "length zb = 3 * m"
      "uval zb = ?a * ?b + ?B * (?x * ?b) + ?B * (?y * ?a)"
    using add_at_val [of m temp za] za l b e B3(1) by (cases "yc = 0") auto
  let ?zc = "if xc \<noteq> 0 \<and> yc \<noteq> 0 then take (m * 2) zb @ inc_words (drop (m * 2) zb) else zb"
  have zc: "length ?zc = 3 * m \<and> uval ?zc = X * Y"
  proof (cases "xc \<noteq> 0 \<and> yc \<noteq> 0")
    case True
    have k: "m * 2 \<le> length zb" "length (drop (m * 2) zb) = m" "64 * (m * 2) = 64 * (2 * m)" using zb(2) by simp_all
    have s: "uval zb = uval (take (m * 2) zb) + ?B * ?B * uval (drop (m * 2) zb)"
      using uval_append [of "take (m * 2) zb" "drop (m * 2) zb"] k B3(2) by (simp only: append_take_drop_id length_take min_absorb2)
    have "X * Y = uval zb + ?B * ?B" using True e zb(3) by simp
    then have t: "X * Y = uval (take (m * 2) zb) + ?B * ?B * (uval (drop (m * 2) zb) + 1)" using s by (simp add: distrib_left)
    then have "?B * ?B * (uval (drop (m * 2) zb) + 1) < ?B * ?B * ?B" using b by linarith
    then have "uval (drop (m * 2) zb) + 1 < ?B" by (metis mult_less_cancel1)
    then have "uval (inc_words (drop (m * 2) zb)) = uval (drop (m * 2) zb) + 1" "length (inc_words (drop (m * 2) zb)) = m"
      using inc_words_val [of "drop (m * 2) zb"] k(2) by (simp_all only: mod_less)
    then show ?thesis using True t zb(2) k(1) B3(2) by (simp add: uval_append)
  next
    case False
    then show ?thesis using zb e by auto
  qed
  obtain zd where zd: "UInt_SubVector ?zc z2 = Inr (0, zd)" "length zd = 3 * m" "uval zd = X * Y - uval z2"
    using sub_vec_val [of z2 ?zc] zc le l by auto
  have "uval z0 \<le> uval zd" using le zd(3) by linarith
  then obtain ze where ze: "UInt_SubVector zd z0 = Inr (0, ze)" "length ze = 3 * m" "uval ze = X * Y - uval z2 - uval z0"
    using sub_vec_val [of z0 zd] zd l by auto
  show ?thesis
    unfolding karatsuba_z1_def Let_def za(1) andThen_Inr zb(1) zd(1) prod.case ze(1) using ze(2,3) by simp
qed

text \<open>Adding \<open>z1\<close> to \<open>z0\<close> and \<open>z2\<close>: no carry, and the words of \<open>z1\<close> beyond the result are zero.\<close>

lemma karatsuba_join_val:
  assumes l: "length z0 = 2 * m" "length z2 = 2 * k" "length z1 = 3 * m" "k \<le> m" "m \<le> Suc k"
    and b: "uval z0 + 2 ^ (64 * m) * uval z1 + 2 ^ (64 * (2 * m)) * uval z2 < 2 ^ (64 * (2 * m + 2 * k))"
  shows "\<exists>r. karatsuba_join m k (m * 2 + k * 2) (z0 @ z2) z1 = Inr r \<and> length r = 2 * m + 2 * k \<and>
    uval r = uval z0 + 2 ^ (64 * m) * uval z1 + 2 ^ (64 * (2 * m)) * uval z2"
proof -
  let ?s = "m * 2 + k * 2 - m"
  have lr: "length (z0 @ z2) = 2 * m + 2 * k" using l by simp
  have vr: "uval (z0 @ z2) = uval z0 + 2 ^ (64 * (2 * m)) * uval z2" using l by (simp add: uval_append)
  have "2 ^ (64 * m) * uval z1 < (2::nat) ^ (64 * (2 * m + 2 * k))" using b by linarith
  also have "(2::nat) ^ (64 * (2 * m + 2 * k)) = 2 ^ (64 * m) * 2 ^ (64 * ?s)" by (simp flip: power_add)
  finally have z1: "uval z1 < 2 ^ (64 * ?s)" by simp
  have t: "uval (take ?s z1) = uval z1" "list_all (\<lambda>w. w = 0) (drop ?s z1)"
    using z1 uval_take [of ?s z1] uval_drop [of ?s z1] uval_eq_0 [of "drop ?s z1"] by simp_all
  have key: "uval (z0 @ z2) + 2 ^ (64 * m) * uval z1 < 2 ^ (64 * length (z0 @ z2))" unfolding vr lr using b by linarith
  show ?thesis
  proof (cases "m > k")
    case True
    have "m + length (take ?s z1) \<le> length (z0 @ z2)" using lr by simp
    from add_at_val [OF this, unfolded t(1), OF key] show ?thesis
      unfolding lr vr using True t(2) by (simp add: karatsuba_join_def add_ac)
  next
    case False
    then have "m + length z1 \<le> length (z0 @ z2)" using lr l by simp
    from add_at_val [OF this key] show ?thesis
      unfolding lr vr using False by (simp add: karatsuba_join_def add_ac)
  qed
qed

definition product_of :: "nat \<Rightarrow> nat \<Rightarrow> table res \<Rightarrow> bool" where
  "product_of n p res \<longleftrightarrow> (\<exists>r. res = Inr r \<and> length r = 2 * n \<and> uval r = p)"

lemma Mul3Big3_val:
  assumes l: "length x0 = m" "length y0 = m" "length x1 = k" "length y1 = k" "0 < k" "k \<le> m" "m \<le> Suc k"
    and IH: "\<And>s t. length s = length t \<Longrightarrow> length t = m \<or> length t = k \<Longrightarrow> product_of (length t) (uval s * uval t) (Mul3Big2 s t)"
  shows "product_of (m + k) (uval (x0 @ x1) * uval (y0 @ y1)) (Mul3Big3 x1 x0 y1 y0)"
proof -
  let ?B = "(2 :: nat) ^ (64 * m)"
  obtain z0 where z0: "Mul3Big2 x0 y0 = Inr z0" "length z0 = 2 * m" "uval z0 = uval x0 * uval y0"
    using IH [of x0 y0] l by (auto simp: product_of_def)
  obtain z2 where z2: "Mul3Big2 x1 y1 = Inr z2" "length z2 = 2 * k" "uval z2 = uval x1 * uval y1"
    using IH [of x1 y1] l by (auto simp: product_of_def)
  obtain xc temp where x: "UInt_AddVector x0 x1 = Inr (xc, temp)" "exact_sum m (xc, temp) (uval x0 + uval x1)"
    using AddVector_exact [of x1 x0] l by auto
  obtain yc temp2 where y: "UInt_AddVector y0 y1 = Inr (yc, temp2)" "exact_sum m (yc, temp2) (uval y0 + uval y1)"
    using AddVector_exact [of y1 y0] l by auto
  have t: "length temp = m" "length temp2 = m" "uval temp + ?B * carry_val xc = uval x0 + uval x1" "uval temp2 + ?B * carry_val yc = uval y0 + uval y1"
    using x(2) y(2) by (simp_all add: exact_sum_def)
  obtain p where p: "Mul3Big2 temp temp2 = Inr p" "length p = 2 * m" "uval p = uval temp * uval temp2"
    using IH [of temp temp2] t by (auto simp: product_of_def)
  let ?Z = "uval x0 * uval y1 + uval x1 * uval y0"
  have e: "(uval x0 + uval x1) * (uval y0 + uval y1) = uval z2 + uval z0 + ?Z"
    unfolding z0(3) z2(3) by (simp only: algebra_simps)
  obtain z1 where z1: "karatsuba_z1 m xc yc temp temp2 p z2 z0 = Inr z1" "length z1 = 3 * m" "uval z1 = ?Z"
    using karatsuba_z1_val [OF _ t(1,2) p(2) z0(2) _ t(3,4) p(3), of z2] z2(2) l e by auto
  have v: "uval (x0 @ x1) * uval (y0 @ y1) = uval z0 + ?B * uval z1 + 2 ^ (64 * (2 * m)) * uval z2"
  proof -
    have "(2 :: nat) ^ (64 * (2 * m)) = ?B * ?B" by (simp flip: power_add)
    then show ?thesis unfolding z1(3) z0(3) z2(3) using l by (simp only: uval_append algebra_simps)
  qed
  have "uval (x0 @ x1) * uval (y0 @ y1) < 2 ^ (64 * (2 * m + 2 * k))"
    using product_bound [of "x0 @ x1" "y0 @ y1"] l by (simp add: algebra_simps)
  then obtain r where "karatsuba_join m k (m * 2 + k * 2) (z0 @ z2) z1 = Inr r" "length r = 2 * m + 2 * k"
      "uval r = uval (x0 @ x1) * uval (y0 @ y1)"
    using karatsuba_join_val [OF z0(2) z2(2) z1(2) l(6,7)] v by auto
  then show ?thesis
    using l x(1) y(1) z0(1) z2(1) p(1) z1(1) by (simp add: product_of_def Mul3Big3.simps)
qed

lemma Mul3Big2_val: "length s = length t \<Longrightarrow> t \<noteq> [] \<Longrightarrow> product_of (length t) (uval s * uval t) (Mul3Big2 s t)"
proof (induction "length t" arbitrary: s t rule: less_induct)
  case less
  let ?n = "length t"
  consider (one) "?n = 1" | (two) "?n = 2" | (big) "3 \<le> ?n" using less.prems(2)
    by (metis One_nat_def Suc_1 Suc_leI length_0_conv less_antisym not_less numeral_3_eq_3 zero_less_Suc less_Suc_eq_0_disj)
  then show ?case
  proof cases
    case one
    then obtain a b where ab: "s = [a]" "t = [b]" using less.prems(1) by (metis One_nat_def length_0_conv length_Suc_conv)
    obtain h w where "MulTwoWords a b = (h, w)" by force
    then show ?thesis using MulTwoWords_val [of a b] ab by (subst Mul3Big2.simps) (simp add: product_of_def)
  next
    case two
    then show ?thesis using Mul2Big2_val [of t s "replicate (length s * 2) 0"] less.prems
      by (subst Mul3Big2.simps) (auto simp: product_of_def)
  next
    case big
    let ?m = "if odd ?n then ?n div 2 + 1 else ?n div 2"
    have m: "?m < ?n" "0 < ?n - ?m" "?n - ?m \<le> ?m" "?m \<le> Suc (?n - ?m)" using big by (auto elim!: evenE oddE)
    have "Mul3Big2 s t = Mul3Big3 (drop ?m s) (take ?m s) (drop ?m t) (take ?m t)"
      using big less.prems(1) by (subst Mul3Big2.simps) (auto simp: Let_def)
    moreover have "product_of (?m + (?n - ?m)) (uval (take ?m s @ drop ?m s) * uval (take ?m t @ drop ?m t))
        (Mul3Big3 (drop ?m s) (take ?m s) (drop ?m t) (take ?m t))"
    proof (rule Mul3Big3_val)
      fix a b :: table
      assume "length a = length b" "length b = ?m \<or> length b = ?n - ?m"
      then show "product_of (length b) (uval a * uval b) (Mul3Big2 a b)" using m by (intro less.hyps) auto
    qed (use m less.prems(1) in auto)
    ultimately show ?thesis using m(1) by (simp only: append_take_drop_id) simp
  qed
qed

lemma low_half_val:
  assumes "length r = 2 * length t" and "uval r = p"
  shows "product_fits (length t) p (low_half t r) \<and> uval (snd (low_half t r)) = p mod 2 ^ (64 * length t)"
proof -
  have "list_ex (\<lambda>w. w \<noteq> 0) (drop (length t) r) \<longleftrightarrow> \<not> p < 2 ^ (64 * length t)"
    using uval_eq_0 [of "drop (length t) r"] assms(2) by (auto simp: uval_drop list_ex_iff list_all_iff div_eq_0_iff)
  then show ?thesis using assms by (simp add: low_half_def product_fits_def uval_take)
qed

lemma MulFastestBig_val:
  assumes "length s = length t" and "t \<noteq> []" and "length res = 2 * length t"
  shows "product_of (length t) (uval t * uval s) (MulFastestBig t s res)"
proof (cases "length t < 3")
  case True
  then show ?thesis using Mul2Big_val [OF assms(1,3)] assms(3) by (simp add: MulFastestBig_def product_of_def)
next
  case False
  let ?m = "top_size (length t) t" and ?n = "top_size (length t) s"
  let ?a = "low_id (take ?m t)" and ?b = "low_id (take ?n s)"
  have zero: "?m = 0 \<or> ?n = 0 \<Longrightarrow> uval t * uval s = 0" using wsum_trimmed [of t] wsum_trimmed [of s] assms(1) by auto
  have school: "product_of (length t) (uval t * uval s) (Mul2Big3 t s res ?a ?m ?b ?n)"
    using Mul2Big2_val [OF assms(1,3)] False assms(3) by (simp add: Mul2Big2_def product_of_def Let_def)
  have fast: "product_of (length t) (uval t * uval s) (Mul3Big t s)"
    using Mul3Big2_val [of t s] assms by (simp add: Mul3Big_def) (metis list.size(3) length_0_conv)
  show ?thesis
  proof (cases "?m = 0 \<or> ?n = 0")
    case True
    then show ?thesis using False zero assms(3) by (simp add: MulFastestBig_def product_of_def)
  next
    case nz: False
    have "MulFastestBig t s res = (if ?m - ?a < 3 \<or> ?n - ?b < 3 then Mul2Big3 t s res ?a ?m ?b ?n else Mul3Big t s)"
      using False nz by (simp add: MulFastestBig_def Let_def)
    then show ?thesis using school fast by simp
  qed
qed

lemma UInt_MulBig_val:
  assumes "length s = length t" and "t \<noteq> []" and "length res = 2 * length t"
  shows "product_of (length t) (uval t * uval s) (UInt_MulBig t s res algorithm)"
proof -
  have "s \<noteq> []" using assms(1,2) by auto
  then show ?thesis
    using Mul1Big_val [OF assms(1,2)] Mul2Big_val [OF assms(1,3)] Mul3Big2_val [of t s] MulFastestBig_val [OF assms] assms(1,3)
    by (auto simp: UInt_MulBig_def Mul3Big_def product_of_def)
qed

lemma Mul3_val:
  assumes "length s = length t" and "t \<noteq> []"
  shows "\<exists>r. Mul3 t s = Inr r \<and> product_fits (length t) (uval t * uval s) r"
proof -
  have "s \<noteq> []" using assms by auto
  then show ?thesis
    using Mul3Big2_val [of t s] low_half_val [of _ t] assms(1) by (auto simp: Mul3_def Mul3Big_def product_of_def simp del: split_paired_Ex)
qed

lemma MulFastest_val:
  assumes "length s = length t" and "t \<noteq> []"
  shows "\<exists>r. MulFastest t s = Inr r \<and> product_fits (length t) (uval t * uval s) r \<and>
    uval (snd r) = (uval t * uval s) mod 2 ^ (64 * length t)"
  using MulFastestBig_val [OF assms, of "replicate (length t * 2) 0"] low_half_val [of _ t]
  by (auto simp: MulFastest_def product_of_def simp del: split_paired_Ex)

lemma UInt_Mul_val:
  assumes "length s = length t" and "t \<noteq> []"
  shows "\<exists>r. UInt_Mul t s algorithm = Inr r \<and> product_fits (length t) (uval t * uval s) r"
  using Mul1_val [OF assms] Mul2_val [OF assms(1)] Mul3_val [OF assms] MulFastest_val [OF assms]
  by (simp add: UInt_Mul_def) blast

section \<open>Properties\<close>

text \<open>
  C40. All multiplication routines compute the same product. For operands of one size \<open>Mul\<close> with any algorithm
  (shift and add, schoolbook, Karatsuba, the fastest) and \<open>MulInt\<close> (by one word) return carry zero and the exact
  product when it fits, and carry one otherwise; \<open>MulBig\<close>, with a result of twice the size, and \<open>MulInt\<close> with a
  longer result always return the exact product.
\<close>

theorem uint_products:
  assumes "t \<noteq> []" and "length s = length t" and "length res = 2 * length t" and "length t < length res1"
  shows "(\<exists>r. UInt_Mul t s algorithm = Inr r \<and> product_fits (length t) (uval t * uval s) r) \<and>
    (\<exists>r. MulInt x t = Inr r \<and> product_fits (length t) (uval t * unat x) r) \<and>
    (\<exists>r. UInt_MulBig t s res algorithm = Inr r \<and> length r = 2 * length t \<and> uval r = uval t * uval s) \<and>
    (\<exists>r. MulInt_big x t res1 = Inr r \<and> length r = length res1 \<and> uval r = uval t * unat x)"
  using UInt_Mul_val [OF assms(2,1), of algorithm] MulInt_val [OF assms(1), of x]
    UInt_MulBig_val [OF assms(2,1,3), of algorithm, unfolded product_of_def] MulInt_big_val [OF assms(4), of x]
  by (intro conjI) metis+

theorem uint_products_witness:
  "(\<exists>r. UInt_Mul [3, 4, 5] [5, 6, 7] 3 = Inr r \<and> product_fits (length [3, 4, 5 :: uint]) (uval [3, 4, 5] * uval [5, 6, 7]) r) \<and>
   (\<exists>r. MulInt 7 [3, 4, 5] = Inr r \<and> product_fits (length [3, 4, 5 :: uint]) (uval [3, 4, 5] * unat (7 :: uint)) r) \<and>
   (\<exists>r. UInt_MulBig [3, 4, 5] [5, 6, 7] [1, 2, 3, 4, 5, 6] 3 = Inr r \<and> length r = 2 * length [3, 4, 5 :: uint] \<and>
      uval r = uval [3, 4, 5] * uval [5, 6, 7]) \<and>
   (\<exists>r. MulInt_big 7 [3, 4, 5] [0, 0, 0, 0] = Inr r \<and> length r = length [0, 0, 0, 0 :: uint] \<and> uval r = uval [3, 4, 5] * unat (7 :: uint))"
  by (rule uint_products) simp_all

end
