(* ===== verification/TtmathDiv.thy ===== *)
theory TtmathDiv
  imports TtmathTable
begin

text \<open>
  Division in the vendored ttmath: \<open>DivTwoWords\<close> and its helpers (\<^verbatim>\<open>ttmathuint_noasm.h\<close>, 64-bit version)
  divide a double word by a word, with Knuth's algorithm in radix \<open>2^32\<close>; \<open>DivInt\<close> (\<^verbatim>\<open>ttmathuint.h\<close>) divides
  a table by a word. The trial quotient of Knuth's algorithm is specified once, over natural numbers and
  for any radix (\<open>trial\<close>); the loops of the code refine it.

  Pointers to results are components of the result. A null pointer for the remainder is \<open>None\<close>.
\<close>

section \<open>A double word by a word\<close>

text \<open>The loop ends at once for a zero divisor, which the callers exclude (the source would not end).\<close>

function norm_loop :: "nat \<Rightarrow> uint \<Rightarrow> uint \<Rightarrow> uint \<Rightarrow> nat \<times> uint \<times> uint \<times> uint" where
  "norm_loop d a b c =
     (if c = 0 \<or> c AND TTMATH_UINT_HIGHEST_BIT \<noteq> 0 then (d, a, b, c)
      else (let bc = b AND TTMATH_UINT_HIGHEST_BIT;
                a1 = push_bit 1 a
            in norm_loop (d + 1) (if bc \<noteq> 0 then a1 OR 1 else a1) (push_bit 1 b) (push_bit 1 c)))"
  by pat_completeness auto

termination norm_loop
proof (relation "measure (\<lambda>(d, a, b, c). 2 ^ 64 - unat c)")
  fix d :: nat and a b c bc a1 :: uint
  assume "\<not> (c = 0 \<or> c AND TTMATH_UINT_HIGHEST_BIT \<noteq> 0)"
  then have "\<not> bit c 63" "0 < unat c" using highest_bit by (auto simp: unat_gt_0)
  then show "((d + 1, if bc \<noteq> 0 then a1 OR 1 else a1, push_bit 1 b, push_bit 1 c), d, a, b, c)
      \<in> measure (\<lambda>(d, a, b, c). 2 ^ 64 - unat c)"
    using double_word [of c] by (simp add: diff_less_mono2)
qed simp

declare norm_loop.simps [simp del]

definition DivTwoWordsNormalize :: "uint \<Rightarrow> uint \<Rightarrow> uint \<Rightarrow> nat \<times> uint \<times> uint \<times> uint" where
  "DivTwoWordsNormalize a b c = norm_loop 0 a b c"

definition DivTwoWordsUnnormalize :: "uint \<Rightarrow> nat \<Rightarrow> uint" where
  "DivTwoWordsUnnormalize u d = (if d = 0 then u else drop_bit d u)"

text \<open>The loop of \<open>DivTwoWordsCalculate\<close>; it ends at once for a zero high half of the divisor, which the caller excludes.\<close>

function calc_loop :: "uint32 \<Rightarrow> uint \<Rightarrow> uint \<Rightarrow> uint \<Rightarrow> uint" where
  "calc_loop u3 v qp rp =
     (let decrease = (u_high qp = 1 \<or> qp * ucast (u_low v) > mk_uint (u_low rp) u3)
      in if decrease then
           (let qp1 = qp - 1; rp1 = rp + ucast (u_high v)
            in if u_high rp1 = 0 \<and> u_high v \<noteq> 0 then calc_loop u3 v qp1 rp1 else qp1)
         else qp)"
  by pat_completeness auto

termination calc_loop
proof (relation "measure (\<lambda>(u3, v, qp, rp). if unat rp < 4294967296 then 4294967296 - unat rp else 4294967297)")
  fix u3 :: uint32 and v qp rp :: uint and x xa xb
  assume "xb = rp + ucast (u_high v)" and h: "u_high xb = 0 \<and> u_high v \<noteq> 0"
  then have s: "unat xb < 4294967296" "0 < unat (u_high v)" "unat (u_high v) < 4294967296"
      "unat xb = unat (rp + ucast (u_high v))"
    using unat_u_high [of xb] unat_bound32 [of "u_high v"] by (auto simp: unat_gt_0 div_eq_0_iff)
  show "((u3, v, xa, xb), u3, v, qp, rp) \<in> measure (\<lambda>(u3, v, qp, rp). if unat rp < 4294967296 then 4294967296 - unat rp else 4294967297)"
    using s by (auto simp: unat_add64 unat_ucast32)
qed simp

declare calc_loop.simps [simp del]

definition DivTwoWordsCalculate :: "uint \<Rightarrow> uint32 \<Rightarrow> uint \<Rightarrow> uint32 res" where
  "DivTwoWordsCalculate u u3 v =
     (let v1 = ucast (u_high v); qp = u div v1; rp = u mod v1
      in if v1 = 0 \<or> \<not> (u_high qp = 0 \<or> u_high qp = 1) then Inl Undefined_Behaviour
         else Inr (u_low (calc_loop u3 v qp rp)))"

text \<open>The new \<open>u_\<close>, \<open>u3\<close> and \<open>q\<close>.\<close>

definition MultiplySubtract :: "uint \<Rightarrow> uint32 \<Rightarrow> uint32 \<Rightarrow> uint \<Rightarrow> uint \<times> uint32 \<times> uint32" where
  "MultiplySubtract u u3 q v =
     (let (res_high, res_low) = MulTwoWords v (ucast q);
          (c, low) = SubTwoWords (mk_uint (u_low u) u3) res_low 0;
          (c1, high) = SubTwoWords (mk_uint 0 (u_high u)) res_high c;
          (q', high', low') =
            (if c1 \<noteq> 0 then
               (let (c2, low1) = AddTwoWords low v 0; (_, high1) = AddTwoWords high 0 c2 in (q - 1, high1, low1))
             else (q, high, low))
      in (mk_uint (u_low high') (u_high low'), u_low low', q'))"

definition DivTwoWords2 :: "uint \<Rightarrow> uint \<Rightarrow> uint \<Rightarrow> (uint \<times> uint) res" where
  "DivTwoWords2 a b c =
     (let (d, a1, b1, c1) = DivTwoWordsNormalize a b c
      in andThen (DivTwoWordsCalculate a1 (u_high b1) c1) (\<lambda>q1.
         let (u, u3, q_high) = MultiplySubtract a1 (u_high b1) q1 c1;
             u' = mk_uint (u_low u) u3
         in andThen (DivTwoWordsCalculate u' (u_low b1) c1) (\<lambda>q0.
            let (u2, u3', q_low) = MultiplySubtract u' (u_low b1) q0 c1
            in Inr (mk_uint q_high q_low, DivTwoWordsUnnormalize (mk_uint (u_low u2) u3') d))))"

definition DivTwoWords :: "uint \<Rightarrow> uint \<Rightarrow> uint \<Rightarrow> (uint \<times> uint) res" where
  "DivTwoWords a b c =
     (if c = 0 \<or> \<not> a < c then Inl Undefined_Behaviour
      else if a = 0 then Inr (b div c, b mod c)
      else if u_high c = 0 then
        (let temp1 = mk_uint (u_low a) (u_high b);
             res_high = u_low (temp1 div c);
             temp2 = mk_uint (u_low (temp1 mod c)) (u_low b);
             res_low = u_low (temp2 div c)
         in Inr (mk_uint res_high res_low, temp2 mod c))
      else DivTwoWords2 a b c)"

section \<open>A table by a word\<close>

fun div_int_words :: "nat \<Rightarrow> table \<Rightarrow> uint \<Rightarrow> table \<Rightarrow> uint \<Rightarrow> (table \<times> uint) res" where
  "div_int_words 0 dividend divisor t r = Inr (t, r)"
| "div_int_words (Suc i) dividend divisor t r =
     andThen (DivTwoWords r (dividend ! i) divisor) (\<lambda>(q, r1). div_int_words i dividend divisor (t[i := q]) r1)"

text \<open>The status, \<open>*remainder\<close> and the new table.\<close>

definition DivInt :: "uint \<Rightarrow> table \<Rightarrow> (uint \<times> uint \<times> table) res" where
  "DivInt divisor t =
     (if divisor = 0 then Inr (1, 0, t)
      else if divisor = 1 then Inr (0, 0, t)
      else andThen (div_int_words (Suc (lead_id (length t - 1) t)) t divisor (SetZero t) 0)
             (\<lambda>(t1, r). Inr (0, r, t1)))"

section \<open>The trial quotient\<close>

text \<open>
  Knuth's step D3 in radix \<open>b\<close>, for the three leading digits \<open>X * b + u0\<close> of the dividend and the two leading
  digits \<open>v1 * b + v0\<close> of the divisor, from the first guess \<open>q = X div v1\<close>, \<open>r = X mod v1\<close>.
\<close>

function trial :: "nat \<Rightarrow> nat \<Rightarrow> nat \<Rightarrow> nat \<Rightarrow> nat \<Rightarrow> nat \<Rightarrow> nat" where
  "trial b v1 v0 u0 q r =
     (if b \<le> q \<or> q * v0 > r * b + u0
      then (if r + v1 < b \<and> 0 < v1 then trial b v1 v0 u0 (q - 1) (r + v1) else q - 1)
      else q)"
  by pat_completeness auto

termination trial
  by (relation "measure (\<lambda>(b, v1, v0, u0, q, r). b - r)") auto

declare trial.simps [simp del]

text \<open>The loop ends at the quotient of the leading digits, or at \<open>b - 1\<close> when that is no digit.\<close>

lemma trial_exact:
  assumes "q * v1 + r = X" and "r < b" and "0 < v1" and "q \<le> b + 1" and "v0 < b" and "u0 < b"
    and "X \<le> v1 * b + v0" and "min ((X * b + u0) div (v1 * b + v0)) (b - 1) \<le> q"
  shows "trial b v1 v0 u0 q r = min ((X * b + u0) div (v1 * b + v0)) (b - 1)"
  using assms
proof (induction b v1 v0 u0 q r rule: trial.induct)
  case (1 b v1 v0 u0 q r)
  let ?U = "X * b + u0" and ?V = "v1 * b + v0"
  have V: "0 < ?V" using "1.prems"(2,3) by simp
  have U: "?U = q * v1 * b + r * b + u0" using "1.prems"(1) by (auto simp: algebra_simps)
  show ?case
  proof (cases "b \<le> q \<or> q * v0 > r * b + u0")
    case False
    then have "q * ?V \<le> ?U" unfolding U by (simp add: distrib_left mult.assoc)
    then have "q \<le> ?U div ?V" using V by (simp add: less_eq_div_iff_mult_less_eq)
    then have e: "q = min (?U div ?V) (b - 1)" using "1.prems"(8) False by linarith
    have "trial b v1 v0 u0 q r = q" using False by (subst trial.simps) simp
    then show ?thesis using e by (rule trans)
  next
    case True
    have less: "min (?U div ?V) (b - 1) < q"
    proof (cases "b \<le> q")
      case True
      then show ?thesis using "1.prems"(2) by linarith
    next
      case False
      then have "?U < q * ?V" unfolding U using True by (simp add: distrib_left mult.assoc)
      then have "?U div ?V < q" using V by (simp add: div_less_iff_less_mult)
      then show ?thesis by simp
    qed
    then obtain q' where q': "q = Suc q'" by (cases q) auto
    have X: "q' * v1 + (r + v1) = X" using "1.prems"(1) q' by simp
    show ?thesis
    proof (cases "r + v1 < b")
      case True': True
      have "trial b v1 v0 u0 q' (r + v1) = min (?U div ?V) (b - 1)"
        using "1.IH" [OF True] True' X q' "1.prems" less by simp
      then show ?thesis using True True' "1.prems"(3) q' by (subst trial.simps) simp
    next
      case False
      have "q' \<noteq> b"
      proof
        assume "q' = b"
        then show False using X "1.prems"(5,7) False by (simp add: mult.commute)
      qed
      then have qb: "q' \<le> b - 1" using "1.prems"(4) q' by simp
      then have "q' * v0 \<le> b * b" using "1.prems"(5) by (intro mult_le_mono) simp_all
      then have "q' * v0 \<le> (r + v1) * b" using False by (meson le_trans mult_le_mono1 not_less)
      moreover have "?U = q' * v1 * b + (r + v1) * b + u0" using X by (auto simp: algebra_simps)
      ultimately have "q' * ?V \<le> ?U" by (simp add: distrib_left mult.assoc)
      then have "q' \<le> ?U div ?V" using V by (simp add: less_eq_div_iff_mult_less_eq)
      then have e: "q' = min (?U div ?V) (b - 1)" using less q' qb by linarith
      have "trial b v1 v0 u0 q r = q'" using True False q' by (subst trial.simps) simp
      then show ?thesis using e by (rule trans)
    qed
  qed
qed

lemma first_guess:
  assumes "0 < v1" and "v1 < b" and "b \<le> 2 * v1" and "v0 < b" and "u0 < b" and "X \<le> v1 * b + v0"
  shows "X div v1 \<le> b + 1" "trial b v1 v0 u0 (X div v1) (X mod v1) = min ((X * b + u0) div (v1 * b + v0)) (b - 1)"
proof -
  let ?U = "X * b + u0" and ?V = "v1 * b + v0"
  have "?V < v1 * b + 2 * v1" using assms(3,4) by simp
  then have "X < (b + 2) * v1" using assms(6) by (simp add: algebra_simps)
  then show q: "X div v1 \<le> b + 1" using less_mult_imp_div_less [of X "b + 2" v1] by simp
  have "?U div ?V * (v1 * b) \<le> ?U div ?V * ?V" by simp
  also have "\<dots> \<le> ?U" by simp
  also have "\<dots> < (X + 1) * b" using assms(5) by simp
  finally have "(?U div ?V * v1) * b < (X + 1) * b" by (simp only: mult.assoc)
  then have "?U div ?V * v1 < X + 1" by (simp only: mult_less_cancel2)
  then have "?U div ?V \<le> X div v1" using assms(1) by (simp add: less_eq_div_iff_mult_less_eq)
  moreover have "X mod v1 < b" using assms(1,2) by (meson less_trans mod_less_divisor)
  ultimately show "trial b v1 v0 u0 (X div v1) (X mod v1) = min (?U div ?V) (b - 1)"
    using assms q by (intro trial_exact) simp_all
qed

section \<open>DivTwoWords\<close>

lemma calc_test:
  assumes "unat qp < 2 * 4294967296" and "unat rp < 4294967296"
  shows "u_high qp = 1 \<or> qp * ucast (u_low v) > mk_uint (u_low rp) u3 \<longleftrightarrow>
    4294967296 \<le> unat qp \<or> unat qp * unat (u_low v) > unat rp * 4294967296 + unat u3"
proof (cases "4294967296 \<le> unat qp")
  case True
  then have "unat (u_high qp) = 1" using assms(1) by (simp add: unat_u_high)
  then show ?thesis using True by (simp add: word_unat_eq_iff)
next
  case False
  then have "u_high qp = 0" using unat_u_high [of qp] by (simp add: word_unat_eq_iff div_eq_0_iff)
  moreover have "unat (qp * ucast (u_low v)) = unat qp * unat (u_low v)"
  proof -
    have "unat qp * unat (u_low v) \<le> 4294967295 * 4294967295"
      using False unat_bound32 [of "u_low v"] by (intro mult_le_mono) simp_all
    then show ?thesis by (simp add: unat_word_ariths unat_ucast32)
  qed
  moreover have "unat (mk_uint (u_low rp) u3) = unat rp * 4294967296 + unat u3"
    using assms(2) by (simp add: unat_mk_uint unat_u_low)
  ultimately show ?thesis using False by (simp add: word_less_nat_alt)
qed

lemma calc_loop_trial:
  assumes "unat qp \<le> 4294967297" and "unat rp < 4294967296" and "u_high v \<noteq> 0"
  shows "unat (calc_loop u3 v qp rp) = trial 4294967296 (unat (u_high v)) (unat (u_low v)) (unat u3) (unat qp) (unat rp)"
  using assms
proof (induction u3 v qp rp rule: calc_loop.induct)
  case (1 u3 v qp rp)
  let ?dec = "u_high qp = 1 \<or> qp * ucast (u_low v) > mk_uint (u_low rp) u3"
  let ?v1 = "unat (u_high v)" and ?rp = "rp + ucast (u_high v)"
  have test: "?dec \<longleftrightarrow> 4294967296 \<le> unat qp \<or> unat qp * unat (u_low v) > unat rp * 4294967296 + unat u3"
    using "1.prems" by (intro calc_test) simp_all
  have r: "unat ?rp = unat rp + ?v1" using "1.prems"(2) unat_bound32 [of "u_high v"] by (simp add: unat_add64 unat_ucast32)
  have v1: "0 < ?v1" using "1.prems"(3) by (simp add: unat_gt_0)
  have next': "u_high ?rp = 0 \<and> u_high v \<noteq> 0 \<longleftrightarrow> unat rp + ?v1 < 4294967296 \<and> 0 < ?v1"
    using unat_u_high [of ?rp] "1.prems"(3) v1 by (simp add: r word_unat_eq_iff div_eq_0_iff)
  show ?case
  proof (cases ?dec)
    case False
    then show ?thesis using test by (subst calc_loop.simps, subst trial.simps) simp
  next
    case True
    then have "unat qp \<noteq> 0" using test by (cases "unat qp = 0") auto
    then have q: "unat (qp - 1) = unat qp - 1" "unat (qp - 1) \<le> 4294967297" using "1.prems"(1) by (simp_all add: unat_sub64)
    show ?thesis
    proof (cases "u_high ?rp = 0 \<and> u_high v \<noteq> 0")
      case True': True
      have "unat (calc_loop u3 v (qp - 1) ?rp) = trial 4294967296 ?v1 (unat (u_low v)) (unat u3) (unat qp - 1) (unat rp + ?v1)"
        using "1.IH" [OF refl True refl refl True'] q r next' True' "1.prems"(3) by simp
      then show ?thesis using True True' test next' by (subst calc_loop.simps, subst trial.simps) simp
    next
      case False
      have "calc_loop u3 v qp rp = qp - 1" using True False by (subst calc_loop.simps) (auto simp: Let_def)
      moreover have "trial 4294967296 ?v1 (unat (u_low v)) (unat u3) (unat qp) (unat rp) = unat qp - 1"
        using True False test next' by (subst trial.simps) auto
      ultimately show ?thesis using q by simp
    qed
  qed
qed

lemma Calculate_val:
  assumes "2147483648 \<le> unat (u_high v)" and "unat u < unat v"
  shows "\<exists>q. DivTwoWordsCalculate u u3 v = Inr q \<and> unat q = (unat u * 4294967296 + unat u3) div unat v"
proof -
  let ?b = "4294967296 :: nat" and ?v1 = "unat (u_high v)" and ?v0 = "unat (u_low v)"
  have V: "unat v = ?v1 * ?b + ?v0" by (rule halves)
  have "(unat u + 1) * ?b \<le> unat v * ?b" using assms(2) by (intro mult_le_mono1) simp
  then have U: "unat u * ?b + unat u3 < ?b * unat v" using unat_bound32 [of u3] by (simp add: mult.commute)
  have v1: "0 < ?v1" "?v1 < ?b" "?b \<le> 2 * ?v1" "?v0 < ?b" "unat u3 < ?b"
    using assms(1) unat_bound32 [of "u_high v"] unat_bound32 [of "u_low v"] unat_bound32 [of u3] by simp_all
  have "unat u \<le> ?v1 * ?b + ?v0" using assms(2) V by simp
  note g = first_guess [OF v1 this]
  let ?qp = "u div ucast (u_high v)" and ?rp = "u mod ucast (u_high v)"
  have qr: "unat ?qp = unat u div ?v1" "unat ?rp = unat u mod ?v1" by (simp_all add: unat_div unat_mod unat_ucast32)
  have nz: "u_high v \<noteq> 0" using v1(1) by auto
  have "unat (calc_loop u3 v ?qp ?rp) = trial ?b ?v1 ?v0 (unat u3) (unat u div ?v1) (unat u mod ?v1)"
    unfolding qr [symmetric] using g(1) v1(1,2) nz
    by (intro calc_loop_trial) (simp_all add: qr less_trans [OF mod_less_divisor])
  also have "\<dots> = min ((unat u * ?b + unat u3) div unat v) (?b - 1)" using g(2) by (simp only: V)
  finally have l: "unat (calc_loop u3 v ?qp ?rp) = min ((unat u * ?b + unat u3) div unat v) (?b - 1)" .
  moreover have "(unat u * ?b + unat u3) div unat v < ?b"
    using U assms(2) by (simp add: div_less_iff_less_mult)
  ultimately have "unat (u_low (calc_loop u3 v ?qp ?rp)) = (unat u * ?b + unat u3) div unat v" by (simp add: unat_u_low)
  moreover have "u_high ?qp = 0 \<or> u_high ?qp = 1"
  proof -
    have "unat (u_high ?qp) \<le> (?b + 1) div ?b" using g(1) unfolding unat_u_high qr by (rule div_le_mono)
    then have "unat (u_high ?qp) = 0 \<or> unat (u_high ?qp) = 1" by auto
    then show ?thesis by (simp add: word_unat_eq_iff)
  qed
  moreover have "(ucast (u_high v) :: uint) \<noteq> 0" using v1(1) unat_ucast32 [of "u_high v"] by auto
  ultimately show ?thesis by (simp add: DivTwoWordsCalculate_def Let_def)
qed

lemma MultiplySubtract_val:
  assumes "unat q = (unat u * 4294967296 + unat u3) div unat v" and "0 < unat v"
  shows "\<exists>u' u3'. MultiplySubtract u u3 q v = (u', u3', q) \<and>
    unat (mk_uint (u_low u') u3') = (unat u * 4294967296 + unat u3) mod unat v"
proof -
  let ?b = "4294967296 :: nat" and ?B = "18446744073709551616 :: nat"
  let ?U = "unat u * ?b + unat u3"
  obtain rh rl where m: "MulTwoWords v (ucast q) = (rh, rl)" by force
  obtain c low where l: "SubTwoWords (mk_uint (u_low u) u3) rl 0 = (c, low)" by force
  obtain c1 high where h: "SubTwoWords (mk_uint 0 (u_high u)) rh c = (c1, high)" by force
  have M: "unat rl + ?B * unat rh = unat q * unat v" using MulTwoWords_val [OF m] by (simp add: unat_ucast32)
  have L: "unat low + unat rl = unat (u_low u) * ?b + unat u3 + ?B * unat c" "unat c = carry_val c"
    using SubTwoWords_val [OF l] by (simp_all add: unat_mk_uint)
  have H: "unat high + unat rh + unat c = unat (u_high u) + ?B * unat c1" "unat c1 = carry_val c1"
    using SubTwoWords_val [OF h] L(2) by (simp_all add: unat_mk_uint)
  have U: "?U = unat (u_low u) * ?b + unat u3 + ?B * unat (u_high u)"
    using arg_cong [OF halves [of u], of "times ?b"] by (simp add: algebra_simps)
  have tot: "unat low + ?B * unat high + unat q * unat v = ?U + ?B * ?B * unat c1"
    unfolding U M [symmetric] using L(1) arg_cong [OF H(1), of "times ?B"] by (simp add: algebra_simps)
  have r: "?U = unat q * unat v + ?U mod unat v" unfolding assms(1) by simp
  have "unat low + ?B * unat high < ?B * ?B" using unat_bound [of low] unat_bound [of high] by simp
  then have "?B * ?B * unat c1 < ?B * ?B * 1" using tot r by simp
  then have c1: "c1 = 0" using H(2) by (simp split: if_splits)
  then have lh: "unat low + ?B * unat high = ?U mod unat v" using tot r by simp
  have "?U mod unat v < ?B" using assms(2) unat_bound [of v] by (meson less_trans mod_less_divisor)
  then have hi: "unat high = 0" using lh by simp
  then have "unat low = ?U mod unat v" using lh by simp
  moreover have "unat (mk_uint (u_low (mk_uint (u_low high) (u_high low))) (u_low low)) = unat low"
    using halves [of low] unat_bound32 [of "u_high low"] by (simp add: unat_mk_uint unat_u_low)
  ultimately show ?thesis
    using c1 hi by (simp add: MultiplySubtract_def m l h)
qed

lemma norm_loop_val:
  assumes "norm_loop d a b c = (d', a', b', c')" and "unat a < unat c"
  shows "\<exists>k. d' = d + k \<and> unat c' = unat c * 2 ^ k \<and> unat a' < unat c' \<and> 2 ^ 63 \<le> unat c' \<and>
    unat a' * 2 ^ 64 + unat b' = (unat a * 2 ^ 64 + unat b) * 2 ^ k"
  using assms
proof (induction d a b c rule: norm_loop.induct)
  case (1 d a b c)
  have c0: "c \<noteq> 0" using "1.prems"(2) by auto
  show ?case
  proof (cases "bit c 63")
    case True
    then have "(d', a', b', c') = (d, a, b, c)" using "1.prems"(1) highest_bit [of c] by (subst (asm) norm_loop.simps) auto
    moreover have "(2::nat) ^ 63 \<le> unat c"
      using True by (metis drop_bit_63 div_less linorder_not_le unat_1 unat_drop_bit64 zero_neq_one)
    ultimately show ?thesis using "1.prems"(2) by (intro exI [of _ 0]) simp
  next
    case False
    let ?a = "if b AND TTMATH_UINT_HIGHEST_BIT \<noteq> 0 then push_bit 1 a OR 1 else push_bit 1 a"
    have g: "\<not> (c = 0 \<or> c AND TTMATH_UINT_HIGHEST_BIT \<noteq> 0)" using False c0 highest_bit [of c] by simp
    have c2: "unat (push_bit 1 c) = 2 * unat c" "unat c < 9223372036854775808" using double_word [OF False] by auto
    have a2: "unat (push_bit 1 a) = 2 * unat a"
      using "1.prems"(2) c2(2) by (simp only: unat_push_bit64) simp
    have a1: "unat ?a = 2 * unat a + (if bit b 63 then 1 else 0)"
    proof (cases "bit b 63")
      case True
      have "unat (push_bit 1 a OR 1) = (unat a * 2 ^ 1) mod 18446744073709551616 + unat (1 :: uint)"
        by (rule or_add_word) simp_all
      then show ?thesis using True highest_bit [of b] a2 [unfolded unat_push_bit64] by simp
    qed (use a2 highest_bit [of b] in simp)
    have b2: "unat (push_bit 1 b) + (if bit b 63 then 2 ^ 64 else 0) = 2 * unat b"
      using shift_word [of 1 0 b] by (simp add: drop_bit_63 split: if_splits)
    have e: "unat ?a * 2 ^ 64 + unat (push_bit 1 b) = (unat a * 2 ^ 64 + unat b) * 2"
      unfolding a1 using b2 by (simp split: if_splits)
    have "norm_loop (d + 1) ?a (push_bit 1 b) (push_bit 1 c) = (d', a', b', c')"
      using "1.prems"(1) g by (subst (asm) norm_loop.simps) (simp only: Let_def if_False)
    moreover have "unat ?a < unat (push_bit 1 c)" unfolding a1 c2 using "1.prems"(2) by simp
    ultimately obtain k where k: "d' = d + 1 + k" "unat c' = unat (push_bit 1 c) * 2 ^ k" "unat a' < unat c'" "2 ^ 63 \<le> unat c'"
        "unat a' * 2 ^ 64 + unat b' = (unat ?a * 2 ^ 64 + unat (push_bit 1 b)) * 2 ^ k"
      using "1.IH" [OF g refl refl] by auto
    show ?thesis
      using k(1,3,4) k(2,5) unfolding e c2(1) by (intro exI [of _ "Suc k"]) simp
  qed
qed

text \<open>Schoolbook division by two digits at a time.\<close>

lemma two_digits:
  fixes a :: nat
  assumes "U1 = a * B + b1" and "U2 = (U1 mod c) * B + b0"
  shows "(a * (B * B) + b1 * B + b0) div c = (U1 div c) * B + U2 div c" "(a * (B * B) + b1 * B + b0) mod c = U2 mod c"
proof -
  have "U1 * B = c * ((U1 div c) * B) + (U1 mod c) * B" by (metis mult_div_mod_eq distrib_right mult.assoc)
  moreover have "a * (B * B) + b1 * B + b0 = U1 * B + b0" unfolding assms(1) by (simp add: algebra_simps)
  ultimately have e: "a * (B * B) + b1 * B + b0 = U2 + c * ((U1 div c) * B)" unfolding assms(2) by simp
  show "(a * (B * B) + b1 * B + b0) mod c = U2 mod c" unfolding e by simp
  show "(a * (B * B) + b1 * B + b0) div c = (U1 div c) * B + U2 div c"
    by (cases "c = 0") (simp_all add: e)
qed

lemma high_half: "2 ^ 63 \<le> unat c \<Longrightarrow> 2147483648 \<le> unat (u_high c)"
proof -
  assume "2 ^ 63 \<le> unat c"
  then have "2 ^ 63 div 4294967296 \<le> unat c div 4294967296" by (rule div_le_mono)
  then show ?thesis by (simp add: unat_u_high)
qed

lemma digit_bound: "a < c \<Longrightarrow> d < B \<Longrightarrow> (a * B + d) div c < (B :: nat)"
proof -
  assume "a < c" and d: "d < B"
  then have "(a + 1) * B \<le> c * B" by (intro mult_le_mono1) simp
  then have "a * B + d < B * c" using d by (simp add: algebra_simps)
  then show ?thesis by (metis less_mult_imp_div_less)
qed

lemma DivTwoWords2_val:
  assumes "unat a < unat c"
  shows "\<exists>r rest. DivTwoWords2 a b c = Inr (r, rest) \<and> unat r = (unat a * 2 ^ 64 + unat b) div unat c \<and>
    unat rest = (unat a * 2 ^ 64 + unat b) mod unat c"
proof -
  let ?B = "4294967296 :: nat" and ?N = "unat a * 2 ^ 64 + unat b"
  obtain d a1 b1 c1 where n: "norm_loop 0 a b c = (d, a1, b1, c1)" by (metis prod_cases4)
  have k: "unat c1 = unat c * 2 ^ d" "unat a1 < unat c1" "2 ^ 63 \<le> unat c1" "unat a1 * 2 ^ 64 + unat b1 = ?N * 2 ^ d"
    using norm_loop_val [OF n assms] by auto
  note hi = high_half [OF k(3)]
  let ?U1 = "unat a1 * ?B + unat (u_high b1)"
  obtain q1 where q1: "DivTwoWordsCalculate a1 (u_high b1) c1 = Inr q1" "unat q1 = ?U1 div unat c1"
    using Calculate_val [OF hi k(2)] by blast
  have pos: "0 < unat c1" using k(2) by simp
  obtain u u3 where u: "MultiplySubtract a1 (u_high b1) q1 c1 = (u, u3, q1)" "unat (mk_uint (u_low u) u3) = ?U1 mod unat c1"
    using MultiplySubtract_val [OF q1(2) pos] by blast
  let ?u = "mk_uint (u_low u) u3"
  let ?U2 = "(?U1 mod unat c1) * ?B + unat (u_low b1)"
  have "unat ?u < unat c1" using u(2) pos by simp
  then obtain q0 where q0: "DivTwoWordsCalculate ?u (u_low b1) c1 = Inr q0" "unat q0 = (unat ?u * ?B + unat (u_low b1)) div unat c1"
    using Calculate_val [OF hi] by blast
  obtain w w3 where w: "MultiplySubtract ?u (u_low b1) q0 c1 = (w, w3, q0)" "unat (mk_uint (u_low w) w3) = ?U2 mod unat c1"
    using MultiplySubtract_val [OF q0(2) pos] u(2) by auto
  have N: "unat a1 * (?B * ?B) + unat (u_high b1) * ?B + unat (u_low b1) = ?N * 2 ^ d"
    using k(4) halves [of b1] by simp
  note td = two_digits [of ?U1 "unat a1" ?B "unat (u_high b1)" ?U2 "unat c1" "unat (u_low b1)", OF refl refl, unfolded N k(1)]
  have "unat q0 = ?U2 div unat c1" using q0(2) unfolding u(2) .
  then have "unat (mk_uint q1 q0) = ?N div unat c"
    using td(1) q1(2) by (simp add: unat_mk_uint k(1))
  moreover have "unat (mk_uint (u_low w) w3) = ?N mod unat c * 2 ^ d" unfolding w(2) k(1) td(2) [symmetric] by (simp add: mult_mod_left)
  then have "unat (DivTwoWordsUnnormalize (mk_uint (u_low w) w3) d) = ?N mod unat c"
    by (simp add: DivTwoWordsUnnormalize_def unat_drop_bit64)
  ultimately show ?thesis
    using n q1(1) u(1) q0(1) w(1) by (simp add: DivTwoWords2_def DivTwoWordsNormalize_def)
qed

lemma DivTwoWords_val:
  assumes "a < c"
  shows "\<exists>r rest. DivTwoWords a b c = Inr (r, rest) \<and> unat r = (unat a * 2 ^ 64 + unat b) div unat c \<and>
    unat rest = (unat a * 2 ^ 64 + unat b) mod unat c"
proof -
  let ?B = "4294967296 :: nat"
  have ac: "unat a < unat c" using assms by (simp add: word_less_nat_alt)
  then have c0: "c \<noteq> 0" by auto
  consider (small) "a = 0" | (half) "a \<noteq> 0" "u_high c = 0" | (full) "a \<noteq> 0" "u_high c \<noteq> 0" by blast
  then show ?thesis
  proof cases
    case small
    then show ?thesis using assms c0 by (simp add: DivTwoWords_def unat_div unat_mod)
  next
    case half
    let ?t1 = "mk_uint (u_low a) (u_high b)"
    let ?t2 = "mk_uint (u_low (?t1 mod c)) (u_low b)"
    have c: "unat c < ?B" using half(2) unat_u_high [of c] by (simp add: div_eq_0_iff)
    have t1: "unat ?t1 = unat a * ?B + unat (u_high b)" using ac c by (simp add: unat_mk_uint unat_u_low)
    have m: "unat (?t1 mod c) < unat c" using ac by (simp add: unat_mod)
    have t2: "unat ?t2 = (unat ?t1 mod unat c) * ?B + unat (u_low b)"
      using m c by (simp add: unat_mk_uint unat_u_low unat_mod)
    have d1: "unat (u_low (?t1 div c)) = unat ?t1 div unat c"
      using digit_bound [OF ac unat_bound32, of "u_high b"] by (simp add: unat_u_low unat_div t1)
    have d2: "unat (u_low (?t2 div c)) = unat ?t2 div unat c"
      using digit_bound [OF m unat_bound32, of "u_low b"] by (simp add: unat_u_low unat_div t2 unat_mod)
    have N: "unat a * (?B * ?B) + unat (u_high b) * ?B + unat (u_low b) = unat a * 2 ^ 64 + unat b" using halves [of b] by simp
    note td = two_digits [OF t1 t2, unfolded N]
    show ?thesis using half assms c0 td by (simp add: DivTwoWords_def Let_def unat_mk_uint d1 d2 unat_mod)
  next
    case full
    then show ?thesis using DivTwoWords2_val [OF ac, of b] assms c0 by (simp add: DivTwoWords_def)
  qed
qed

section \<open>DivInt\<close>

text \<open>One step of long division: the leading part \<open>X\<close> of the dividend is replaced by its remainder.\<close>

lemma long_step:
  fixes lo :: nat
  assumes "0 < c"
  shows "(lo + P * X) div c = (lo + P * (X mod c)) div c + P * (X div c)" "(lo + P * X) mod c = (lo + P * (X mod c)) mod c"
proof -
  have "P * X = P * (X mod c) + c * (P * (X div c))" by (metis add.commute distrib_left mult.left_commute mult_div_mod_eq)
  then have e: "lo + P * X = (lo + P * (X mod c)) + c * (P * (X div c))" by simp
  show "(lo + P * X) div c = (lo + P * (X mod c)) div c + P * (X div c)" "(lo + P * X) mod c = (lo + P * (X mod c)) mod c"
    unfolding e using assms by (simp_all add: div_mult_self2 mod_mult_self2)
qed

lemma uval_take_Suc: "i < length t \<Longrightarrow> uval (take (Suc i) t) = uval (take i t) + 2 ^ (64 * i) * unat (t ! i)"
  by (simp add: take_Suc_conv_app_nth uval_append)

lemma div_int_words_val:
  assumes "i \<le> length u" and "length t = length u" and "r < c"
  shows "\<exists>t' r'. div_int_words i u c t r = Inr (t', r') \<and> length t' = length u \<and> drop i t' = drop i t \<and>
    uval (take i t') = (uval (take i u) + 2 ^ (64 * i) * unat r) div unat c \<and>
    unat r' = (uval (take i u) + 2 ^ (64 * i) * unat r) mod unat c"
  using assms
proof (induction i arbitrary: t r)
  case 0
  then show ?case by (simp add: word_less_nat_alt)
next
  case (Suc i)
  have c: "0 < unat c" using Suc.prems(3) by (auto simp: word_less_nat_alt)
  let ?X = "unat r * 2 ^ 64 + unat (u ! i)"
  obtain q r1 where q: "DivTwoWords r (u ! i) c = Inr (q, r1)" "unat q = ?X div unat c" "unat r1 = ?X mod unat c"
    using DivTwoWords_val [OF Suc.prems(3)] by blast
  have r1: "r1 < c" using q(3) c by (simp add: word_less_nat_alt)
  obtain t' r' where t': "div_int_words i u c (t[i := q]) r1 = Inr (t', r')" "length t' = length u" "drop i t' = drop i (t[i := q])"
      "uval (take i t') = (uval (take i u) + 2 ^ (64 * i) * unat r1) div unat c"
      "unat r' = (uval (take i u) + 2 ^ (64 * i) * unat r1) mod unat c"
    using Suc.IH [OF _ _ r1, of "t[i := q]"] Suc.prems by auto
  have i: "i < length t" using Suc.prems by simp
  have d: "drop i t' = q # drop (Suc i) t" using t'(3) i by (simp add: drop_update_swap Cons_nth_drop_Suc [symmetric])
  have w: "uval (take (Suc i) u) + 2 ^ (64 * Suc i) * unat r = uval (take i u) + 2 ^ (64 * i) * ?X"
    using Suc.prems(1) by (simp add: uval_take_Suc power_add algebra_simps)
  note st = long_step [OF c, of "uval (take i u)" "2 ^ (64 * i)" ?X]
  have n: "t' ! i = q" using d t'(2) i Suc.prems(2) by (metis nth_via_drop)
  have "uval (take (Suc i) t') = (uval (take (Suc i) u) + 2 ^ (64 * Suc i) * unat r) div unat c"
    unfolding w st(1) using t'(2,4) n q(2,3) i Suc.prems(2) by (simp add: uval_take_Suc)
  moreover have "unat r' = (uval (take (Suc i) u) + 2 ^ (64 * Suc i) * unat r) mod unat c"
    unfolding w st(2) using t'(5) q(3) by simp
  moreover have "drop (Suc i) t' = drop (Suc i) t" using d by (metis drop_Suc list.sel(3) tl_drop)
  ultimately show ?case using q(1) t'(1,2) by simp
qed

lemma lead_id_zeros:
  assumes "t \<noteq> []"
  shows "lead_id (length t - 1) t < length t" "\<And>i. lead_id (length t - 1) t < i \<Longrightarrow> i < length t \<Longrightarrow> t ! i = 0"
    "lead_id (length t - 1) t \<noteq> 0 \<Longrightarrow> t ! lead_id (length t - 1) t \<noteq> 0"
    "uval (take (Suc (lead_id (length t - 1) t)) t) = uval t"
proof -
  let ?a = "top_size (length t) t" and ?i = "lead_id (length t - 1) t"
  have z: "?a \<le> length t" "\<And>i. ?a \<le> i \<Longrightarrow> i < length t \<Longrightarrow> t ! i = 0" "?a \<noteq> 0 \<Longrightarrow> t ! (?a - 1) \<noteq> 0"
    using top_size_zeros [of "length t" t] by auto
  have id: "?i = ?a - 1" using lead_id_top [of "length t - 1" t] assms by simp
  show 1: "?i < length t" using id z(1) assms by (cases ?a) auto
  show 2: "\<And>i. ?i < i \<Longrightarrow> i < length t \<Longrightarrow> t ! i = 0" using z(2) id by simp
  show "?i \<noteq> 0 \<Longrightarrow> t ! ?i \<noteq> 0" using z(3) id by simp
  show "uval (take (Suc ?i) t) = uval t" using 1 2 by (intro uval_top) simp_all
qed

lemma DivInt_val:
  assumes "t \<noteq> []" and "divisor \<noteq> 0"
  shows "\<exists>r t'. DivInt divisor t = Inr (0, r, t') \<and> length t' = length t \<and>
    uval t' = uval t div unat divisor \<and> unat r = uval t mod unat divisor"
proof (cases "divisor = 1")
  case True
  then show ?thesis by (simp add: DivInt_def)
next
  case False
  let ?i = "Suc (lead_id (length t - 1) t)"
  note z = lead_id_zeros [OF assms(1)]
  have d: "0 < divisor" using assms(2) by (simp add: word_gt_0)
  obtain t' r where r: "div_int_words ?i t divisor (SetZero t) 0 = Inr (t', r)" "length t' = length t"
      "drop ?i t' = drop ?i (SetZero t)" "uval (take ?i t') = uval t div unat divisor" "unat r = uval t mod unat divisor"
    using div_int_words_val [of ?i t "SetZero t" 0 divisor] z(1,4) d by auto
  have "uval t' = uval (take ?i t') + 2 ^ (64 * length (take ?i t')) * uval (drop ?i t')"
    by (metis append_take_drop_id uval_append)
  moreover have "uval (drop ?i t') = 0" unfolding r(3) by (simp add: SetZero_def drop_map)
  ultimately show ?thesis using False assms(2) r by (simp add: DivInt_def)
qed

end
