(* ===== verification/TtmathKnuth.thy ===== *)
theory TtmathKnuth
  imports TtmathDiv
begin

text \<open>
  \<open>UInt::Div\<close> of \<^verbatim>\<open>ttmathuint.h\<close> with its default algorithm \<open>Div3\<close>: long division after Knuth in radix \<open>2^64\<close>.
  The object is its table \<open>t\<close>, the divisor \<open>v\<close> has the same number of words and is another object (or a copy,
  as \<open>Div3\<close> makes when both are the same); \<open>remainder\<close> is \<open>None\<close> for a null pointer.
\<close>

section \<open>Sizes and the simple cases\<close>

fun diff_id :: "nat \<Rightarrow> table \<Rightarrow> table \<Rightarrow> nat" where
  "diff_id 0 t v = 0"
| "diff_id (Suc i) t v = (if t ! Suc i = v ! Suc i then diff_id i t v else Suc i)"

text \<open>The returned value, \<open>m\<close> and \<open>n\<close>.\<close>

definition Div_CalculatingSize :: "table \<Rightarrow> table \<Rightarrow> nat \<times> nat \<times> nat" where
  "Div_CalculatingSize t v =
     (let n = lead_id (length v - 1) v
      in if n = 0 \<and> v ! n = 0 then (1, length t - 1, n)
         else
           (let m = lead_id (length t - 1) t
            in if m = 0 \<and> t ! m = 0 then (2, m, n)
               else if m < n then (3, m, n)
               else if m = n then
                 (let i = diff_id n t v
                  in if t ! i < v ! i then (3, m, n) else if t ! i = v ! i then (4, m, n) else (0, m, n))
               else (0, m, n)))"

text \<open>The returned value, \<open>m\<close>, \<open>n\<close>, the table and the remainder.\<close>

definition Div_StandardTest :: "table \<Rightarrow> table \<Rightarrow> table option \<Rightarrow> nat \<times> nat \<times> nat \<times> table \<times> table option" where
  "Div_StandardTest t v remainder =
     (case Div_CalculatingSize t v of (code, m, n) \<Rightarrow>
        if code = 4 then (0, m, n, SetOne t, map_option SetZero remainder)
        else if code = 3 then (0, m, n, SetZero t, map_option (\<lambda>_. t) remainder)
        else if code = 2 then (0, m, n, SetZero t, map_option SetZero remainder)
        else if code = 1 then (1, m, n, t, remainder)
        else (2, m, n, t, remainder))"

section \<open>The steps of the algorithm\<close>

text \<open>The returned word beyond the table, \<open>d\<close>, \<open>v\<close> and the table.\<close>

definition Div3_Normalize :: "table \<Rightarrow> nat \<Rightarrow> table \<Rightarrow> (uint \<times> nat \<times> table \<times> table) res" where
  "Div3_Normalize v n t =
     (let bit = nat (FindLeadingBitInWord (v ! (n - 1)));
          move = TTMATH_BITS_PER_UINT - bit - 1;
          res = t ! (length t - 1)
      in if 0 < move then
           andThen (UInt_Rcl move 0 v) (\<lambda>(_, v1).
           andThen (UInt_Rcl move 0 t) (\<lambda>(_, t1). Inr (drop_bit (bit + 1) res, move, v1, t1)))
         else Inr (0, move, v, t))"

definition Div3_Unnormalize :: "nat \<Rightarrow> nat \<Rightarrow> table \<Rightarrow> table res" where
  "Div3_Unnormalize n d t = andThen (UInt_Rcr d 0 (fill_up n 0 t)) (\<lambda>(_, t1). Inr t1)"

definition Div3_MakeBiggerV :: "table \<Rightarrow> table" where
  "Div3_MakeBiggerV v = v @ [0]"

definition Div3_MakeNewU :: "table \<Rightarrow> nat \<Rightarrow> nat \<Rightarrow> uint \<Rightarrow> table" where
  "Div3_MakeNewU t j n u_max = map (\<lambda>i. t ! (j + i)) [0..<n] @ u_max # replicate (length t - n) 0"

definition Div3_CopyNewU :: "table \<Rightarrow> nat \<Rightarrow> nat \<Rightarrow> table \<Rightarrow> table" where
  "Div3_CopyNewU uu j n t =
     (let t1 = foldl (\<lambda>t i. t[i + j := uu ! i]) t [0..<n]
      in if n + j < length t then t1[n + j := uu ! n] else t1)"

lemma no_carry: "v1 \<le> rp + v1 \<longleftrightarrow> unat (rp + v1 :: uint) = unat rp + unat v1"
  using unat_bound [of rp] unat_bound [of v1] by (auto simp: word_le_nat_alt unat_add64)

text \<open>
  The loop of \<open>Div3_Calculate\<close> on the two words \<open>u_temp\<close>; it ends at once for \<open>v1 = 0\<close>, which the assertion
  excludes.
\<close>

function d3_calc_loop :: "uint \<Rightarrow> uint \<Rightarrow> uint \<Rightarrow> table \<Rightarrow> uint \<Rightarrow> table res" where
  "d3_calc_loop u0 v1 v0 u_temp rp =
     (let decrease = (u_temp ! 1 = 1 \<or>
            (case MulTwoWords (u_temp ! 0) v0 of (high, low) \<Rightarrow> CmpBigger [low, high] [u0, rp] (- 1)))
      in if decrease then
           andThen (UInt_SubOne u_temp) (\<lambda>(_, u_temp1).
             let rp1 = rp + v1
             in if rp1 \<ge> v1 \<and> v1 \<noteq> 0 then d3_calc_loop u0 v1 v0 u_temp1 rp1 else Inr u_temp1)
         else Inr u_temp)"
  by pat_completeness auto

termination d3_calc_loop
proof (relation "measure (\<lambda>(u0, v1, v0, u_temp, rp). 2 ^ 64 - unat rp)")
  fix u0 v1 v0 rp y rp1 :: uint and u_temp t1 :: table and dec x
  assume "rp1 = rp + v1" and "v1 \<le> rp1 \<and> v1 \<noteq> 0"
  then have "unat rp1 = unat rp + unat v1" "0 < unat v1" using no_carry [of v1 rp] by (auto simp: unat_gt_0)
  then show "((u0, v1, v0, t1, rp1), u0, v1, v0, u_temp, rp) \<in> measure (\<lambda>(u0, v1, v0, u_temp, rp). 2 ^ 64 - unat rp)"
    using unat_bound [of rp1] by simp
qed simp

declare d3_calc_loop.simps [simp del]

definition Div3_Calculate :: "uint \<Rightarrow> uint \<Rightarrow> uint \<Rightarrow> uint \<Rightarrow> uint \<Rightarrow> uint res" where
  "Div3_Calculate u2 u1 u0 v1 v0 =
     (if v1 = 0 then Inl Undefined_Behaviour
      else andThen (DivInt v1 [u1, u2]) (\<lambda>(_, rp, u_temp).
        if u_temp ! 1 = 0 \<or> u_temp ! 1 = 1
        then andThen (d3_calc_loop u0 v1 v0 u_temp rp) (\<lambda>u_temp1. Inr (u_temp1 ! 0))
        else Inl Undefined_Behaviour))"

text \<open>The new \<open>uu\<close> and \<open>qp\<close>.\<close>

definition Div3_MultiplySubtract :: "table \<Rightarrow> table \<Rightarrow> uint \<Rightarrow> (table \<times> uint) res" where
  "Div3_MultiplySubtract uu vv qp =
     andThen (MulInt qp vv) (\<lambda>(_, vv_temp).
       case UInt_Sub uu vv_temp 0 of (c, uu1) \<Rightarrow>
         if c \<noteq> 0 then Inr (snd (UInt_Add uu1 vv 0), qp - 1) else Inr (uu1, qp))"

fun d3_loop :: "nat \<Rightarrow> nat \<Rightarrow> table \<Rightarrow> table \<Rightarrow> uint \<Rightarrow> table \<Rightarrow> table \<Rightarrow> (table \<times> table) res" where
  "d3_loop j n v vv u2 t q =
     andThen (Div3_Calculate u2 (t ! (j + n - 1)) (t ! (j + n - 2)) (v ! (n - 1)) (v ! (n - 2))) (\<lambda>qp.
     andThen (Div3_MultiplySubtract (Div3_MakeNewU t j n u2) vv qp) (\<lambda>(uu, qp1).
       let t1 = Div3_CopyNewU uu j n t; q1 = q[j := qp1]
       in (case j of 0 \<Rightarrow> Inr (t1, q1) | Suc j1 \<Rightarrow> d3_loop j1 n v vv (t1 ! (j1 + n)) t1 q1)))"

declare d3_loop.simps [simp del]

text \<open>The words of \<open>q\<close> up to \<open>m\<close> are all assigned in the loop; the others are set to zero before it.\<close>

definition Div3_Division :: "table \<Rightarrow> table option \<Rightarrow> nat \<Rightarrow> nat \<Rightarrow> table \<Rightarrow> (table \<times> table option) res" where
  "Div3_Division v remainder m n t =
     (if n < 2 then Inl Undefined_Behaviour
      else andThen (Div3_Normalize v n t) (\<lambda>(u_value_size, d, v1, t1).
        let u2 = (if m + n = length t then u_value_size else t1 ! (m + n))
        in andThen (d3_loop m n v1 (Div3_MakeBiggerV v1) u2 t1 (SetZero t)) (\<lambda>(t2, q).
             case remainder of
               None \<Rightarrow> Inr (q, None)
             | Some _ \<Rightarrow> andThen (Div3_Unnormalize n d t2) (\<lambda>t3. Inr (q, Some t3)))))"

text \<open>The status, the table and the remainder.\<close>

definition Div3Ref :: "table \<Rightarrow> table \<Rightarrow> table option \<Rightarrow> (nat \<times> table \<times> table option) res" where
  "Div3Ref t v remainder =
     (case Div_StandardTest t v remainder of (test, m, n, t1, rem1) \<Rightarrow>
        if test < 2 then Inr (test, t1, rem1)
        else if n = 0 then
          andThen (DivInt (v ! 0) t1) (\<lambda>(_, r, t2). Inr (0, t2, map_option (\<lambda>rem. (SetZero rem)[0 := r]) rem1))
        else andThen (Div3_Division v rem1 (m + 1 - (n + 1)) (n + 1) t1) (\<lambda>(t2, rem2). Inr (0, t2, rem2)))"

definition Div3 :: "table \<Rightarrow> table \<Rightarrow> table option \<Rightarrow> (nat \<times> table \<times> table option) res" where
  "Div3 t ss2 remainder = Div3Ref t ss2 remainder"

section \<open>The trial quotient\<close>

abbreviation (input) radix :: nat where
  "radix \<equiv> 18446744073709551616"

lemma CmpBigger_whole: "length t = length l \<Longrightarrow> CmpBigger t l (- 1) \<longleftrightarrow> uval l < uval t"
  using cmp_loop_less [of "length t" l t False] by (simp add: CmpBigger_def cmp_loop_swap cmp_start_def)

lemma d3_calc_test:
  assumes "unat b = 0 \<or> unat b = 1"
  shows "b = 1 \<or> (case MulTwoWords a v0 of (high, low) \<Rightarrow> CmpBigger [low, high] [u0, rp] (- 1)) \<longleftrightarrow>
    radix \<le> uval [a, b] \<or> uval [a, b] * unat v0 > unat rp * radix + unat u0"
proof (cases "unat b = 0")
  case True
  obtain high low where m: "MulTwoWords a v0 = (high, low)" by force
  have "uval [low, high] = unat a * unat v0" using MulTwoWords_val [OF m] by simp
  then show ?thesis using True m unat_bound [of a] by (auto simp: CmpBigger_whole mult.commute)
next
  case False
  then have "b = 1" using assms by (metis unat_1 unat_inject64)
  then show ?thesis by simp
qed

lemma SubOne_val:
  assumes "t \<noteq> []" and "0 < uval t"
  shows "\<exists>c t'. UInt_SubOne t = Inr (c, t') \<and> length t' = length t \<and> uval t' = uval t - 1"
proof -
  obtain c t' where r: "UInt_SubInt 1 0 t = Inr (c, t')" "length t' = length t" "uval t' + 1 = uval t + 2 ^ (64 * length t) * carry_val c"
    using SubInt_exact [of 0 t 1] assms(1) by (auto simp: exact_diff_def)
  have "uval t' + 1 \<le> 2 ^ (64 * length t)" using uval_less [of t'] r(2) by simp
  then have "c = 0" using r(3) assms(2) by (cases "c = 0") simp_all
  then show ?thesis using r by (simp add: UInt_SubOne_def)
qed

lemma d3_calc_trial:
  assumes "length w = 2" and "uval w \<le> radix + 1" and "v1 \<noteq> 0"
  shows "\<exists>w'. d3_calc_loop u0 v1 v0 w rp = Inr w' \<and> length w' = 2 \<and>
    uval w' = trial radix (unat v1) (unat v0) (unat u0) (uval w) (unat rp)"
  using assms
proof (induction u0 v1 v0 w rp rule: d3_calc_loop.induct)
  case (1 u0 v1 v0 w rp)
  obtain a b where w: "w = [a, b]" using "1.prems"(1) by (auto simp: numeral_2_eq_2 length_Suc_conv)
  have b: "unat b = 0 \<or> unat b = 1" using "1.prems"(2) w by auto
  let ?dec = "w ! 1 = 1 \<or> (case MulTwoWords (w ! 0) v0 of (high, low) \<Rightarrow> CmpBigger [low, high] [u0, rp] (- 1))"
  have test: "?dec \<longleftrightarrow> radix \<le> uval w \<or> uval w * unat v0 > unat rp * radix + unat u0"
    using d3_calc_test [OF b, where a = a and ?v0.0 = v0 and ?u0.0 = u0 and rp = rp] w by simp
  have v1: "0 < unat v1" using "1.prems"(3) by (simp add: unat_gt_0)
  have nx: "v1 \<le> rp + v1 \<and> v1 \<noteq> 0 \<longleftrightarrow> unat rp + unat v1 < radix \<and> 0 < unat v1"
    using no_carry [of v1 rp] v1 "1.prems"(3) unat_bound [of "rp + v1"] by (auto simp: unat_add64)
  show ?case
  proof (cases ?dec)
    case False
    then show ?thesis using test "1.prems"(1) by (subst d3_calc_loop.simps, subst trial.simps) simp
  next
    case True
    then have pos: "0 < uval w" using test by (cases "uval w = 0") auto
    obtain c w1 where w1: "UInt_SubOne w = Inr (c, w1)" "length w1 = 2" "uval w1 = uval w - 1"
      using SubOne_val [OF _ pos] "1.prems"(1) by fastforce
    show ?thesis
    proof (cases "v1 \<le> rp + v1 \<and> v1 \<noteq> 0")
      case True': True
      then have r: "unat (rp + v1) = unat rp + unat v1" using no_carry by blast
      have "\<exists>w'. d3_calc_loop u0 v1 v0 w1 (rp + v1) = Inr w' \<and> length w' = 2 \<and>
          uval w' = trial radix (unat v1) (unat v0) (unat u0) (uval w1) (unat (rp + v1))"
        using "1.IH" [OF refl True, of "(c, w1)" c w1] True' w1 "1.prems" by simp
      moreover have "d3_calc_loop u0 v1 v0 w rp = d3_calc_loop u0 v1 v0 w1 (rp + v1)"
        using True True' w1(1) by (subst d3_calc_loop.simps) (simp add: Let_def)
      moreover have "trial radix (unat v1) (unat v0) (unat u0) (uval w) (unat rp)
          = trial radix (unat v1) (unat v0) (unat u0) (uval w1) (unat (rp + v1))"
        using True True' test nx r w1(3) by (subst trial.simps) simp
      ultimately show ?thesis by simp
    next
      case False
      have "d3_calc_loop u0 v1 v0 w rp = Inr w1" using True False w1(1) by (subst d3_calc_loop.simps) (auto simp: Let_def)
      moreover have "trial radix (unat v1) (unat v0) (unat u0) (uval w) (unat rp) = uval w1"
        using True False test nx w1(3) by (subst trial.simps) auto
      ultimately show ?thesis using w1(2) by simp
    qed
  qed
qed

lemma Div3_Calculate_val:
  assumes "2 ^ 63 \<le> unat v1" and "unat u2 * radix + unat u1 \<le> unat v1 * radix + unat v0"
  shows "\<exists>q. Div3_Calculate u2 u1 u0 v1 v0 = Inr q \<and>
    unat q = min (((unat u2 * radix + unat u1) * radix + unat u0) div (unat v1 * radix + unat v0)) (radix - 1)"
proof -
  let ?X = "unat u2 * radix + unat u1"
  let ?q = "min ((?X * radix + unat u0) div (unat v1 * radix + unat v0)) (radix - 1)"
  have v1: "0 < unat v1" "unat v1 < radix" "radix \<le> 2 * unat v1" "unat v0 < radix" "unat u0 < radix"
    using assms(1) unat_bound [of v1] unat_bound [of v0] unat_bound [of u0] by simp_all
  note g = first_guess [OF v1 assms(2)]
  have nz: "v1 \<noteq> 0" using v1(1) by auto
  obtain rp w where d: "DivInt v1 [u1, u2] = Inr (0, rp, w)" "length w = 2" "uval w = ?X div unat v1" "unat rp = ?X mod unat v1"
    using DivInt_val [OF _ nz, of "[u1, u2]"] by (auto simp: add.commute mult.commute)
  obtain a b where w: "w = [a, b]" using d(2) by (auto simp: numeral_2_eq_2 length_Suc_conv)
  have "uval w \<le> radix + 1" using g(1) d(3) by simp
  then have "unat b = 0 \<or> unat b = 1" using w by auto
  then have b: "b = 0 \<or> b = 1" by (simp add: word_unat_eq_iff)
  have "uval w \<le> radix + 1" using g(1) d(3) by simp
  then obtain w' where w': "d3_calc_loop u0 v1 v0 w rp = Inr w'" "length w' = 2"
      "uval w' = trial radix (unat v1) (unat v0) (unat u0) (?X div unat v1) (?X mod unat v1)"
    using d3_calc_trial [OF d(2) _ nz, of u0 v0 rp] d(3,4) by auto
  obtain a' b' where ab: "w' = [a', b']" using w'(2) by (auto simp: numeral_2_eq_2 length_Suc_conv)
  have q: "unat a' + radix * unat b' = ?q" using w'(3) [unfolded g(2)] ab by simp
  have "?q < radix" by (simp add: min_less_iff_disj)
  then have "unat b' = 0" unfolding q [symmetric] by simp
  then have "unat a' = ?q" using q by simp
  then show ?thesis using nz d(1) b w w'(1) ab by (simp add: Div3_Calculate_def)
qed

text \<open>The quotient of the leading digits is not below the true digit, and at most one above it.\<close>

lemma leading_quotient:
  fixes U :: nat
  assumes "U = U3 * P + lu" and "lu < P" and "V = V2 * P + lv" and "lv < P" and "B \<le> V2" and "0 < B"
  shows "U div V \<le> U3 div V2" "q \<le> U3 div V2 \<Longrightarrow> q \<le> B \<Longrightarrow> q \<le> U div V + 1"
proof -
  have P: "0 < P" using assms(2) by simp
  have V: "0 < V" "B * P \<le> V" using assms(3,5,6) P by (auto intro: trans_le_add1 mult_le_mono1)
  have "U div V * V2 * P \<le> U div V * V" unfolding assms(3) by (simp add: algebra_simps)
  also have "\<dots> \<le> U" by simp
  also have "\<dots> < (U3 + 1) * P" using assms(1,2) by simp
  finally have "U div V * V2 < U3 + 1" by (simp only: mult_less_cancel2)
  then show "U div V \<le> U3 div V2" using assms(5,6) by (simp add: less_eq_div_iff_mult_less_eq)
  assume q: "q \<le> U3 div V2" "q \<le> B"
  have "q * V2 \<le> U3" using q(1) assms(5,6) by (simp add: less_eq_div_iff_mult_less_eq)
  have "q * V = (q * V2) * P + q * lv" unfolding assms(3) by (simp add: algebra_simps)
  also have "\<dots> \<le> U3 * P + B * P" using assms(4) q(2) \<open>q * V2 \<le> U3\<close> by (intro add_mono mult_le_mono) simp_all
  also have "\<dots> \<le> U + V" unfolding assms(1) using V(2) by simp
  finally have "q \<le> (U + V) div V" using V(1) by (simp add: less_eq_div_iff_mult_less_eq)
  moreover have "(U + V) div V = U div V + 1" using V(1) by (simp add: div_add_self2)
  ultimately show "q \<le> U div V + 1" by simp
qed

section \<open>Multiply and subtract\<close>

lemma UInt_Sub_val:
  assumes "length s = length t" and "t \<noteq> []"
  shows "\<exists>c r. UInt_Sub t s 0 = (c, r) \<and> length r = length t \<and> uval r + uval s = uval t + 2 ^ (64 * length t) * carry_val c"
  using sub_words_exact [of t s 0] assms by (cases "UInt_Sub t s 0") (auto simp: UInt_Sub_def exact_diff_def)

lemma Div3_MultiplySubtract_val:
  assumes l: "length vv = length uu" "uu \<noteq> []" and V: "0 < uval vv" and fit: "uval vv * unat qp < 2 ^ (64 * length uu)"
    and q: "uval uu div uval vv \<le> unat qp" "unat qp \<le> uval uu div uval vv + 1"
  shows "\<exists>uu' q'. Div3_MultiplySubtract uu vv qp = Inr (uu', q') \<and> length uu' = length uu \<and>
    unat q' = uval uu div uval vv \<and> uval uu' = uval uu mod uval vv"
proof -
  let ?M = "(2 :: nat) ^ (64 * length uu)" and ?U = "uval uu" and ?V = "uval vv"
  obtain c0 p where p: "MulInt qp vv = Inr (c0, p)" "length p = length uu" "uval p = ?V * unat qp"
  proof -
    have "vv \<noteq> []" using l by auto
    then obtain r where "MulInt qp vv = Inr r" "product_fits (length uu) (?V * unat qp) r" using MulInt_val [of vv qp] l(1) by auto
    then show thesis using fit that by (cases r) (auto simp: product_fits_def)
  qed
  obtain c uu1 where s: "UInt_Sub uu p 0 = (c, uu1)" "length uu1 = length uu" "uval uu1 + ?V * unat qp = ?U + ?M * carry_val c"
    using UInt_Sub_val [OF p(2) l(2)] p(3) by auto
  have r: "?U = ?V * (?U div ?V) + ?U mod ?V" by simp
  have m: "?U mod ?V < ?M" using uval_less [of uu] by (meson le_less_trans mod_less_eq_dividend)
  have b: "uval uu1 < ?M" using uval_less [of uu1] s(2) by simp
  show ?thesis
  proof (cases "unat qp = ?U div ?V")
    case True
    then have "uval uu1 + ?V * (?U div ?V) = ?U + ?M * carry_val c" using s(3) by (simp only:)
    then have "uval uu1 = ?U mod ?V + ?M * carry_val c" using r by linarith
    then have "c = 0" "uval uu1 = ?U mod ?V" using b by (cases "c = 0"; simp)+
    then show ?thesis using p(1) s True by (simp add: Div3_MultiplySubtract_def)
  next
    case False
    then have qp: "unat qp = ?U div ?V + 1" using q by simp
    then have "uval uu1 + ?V * (?U div ?V) + ?V = ?U + ?M * carry_val c" using s(3) by (simp only:) (simp add: distrib_left)
    then have e: "uval uu1 + ?V = ?U mod ?V + ?M * carry_val c" using r by linarith
    have c: "c \<noteq> 0"
    proof
      assume "c = 0"
      then show False using e mod_less_divisor [OF V, of ?U] by simp
    qed
    obtain c2 uu2 where a: "UInt_Add uu1 vv 0 = (c2, uu2)" "length uu2 = length uu" "uval uu2 + ?M * carry_val c2 = uval uu1 + ?V"
      using UInt_Add_val [of vv uu1] l s(2) by fastforce
    have "uval uu2 < ?M" using uval_less [of uu2] a(2) by simp
    then have "uval uu2 = ?U mod ?V" using a(3) e c m by (cases "c2 = 0") simp_all
    moreover have "unat (qp - 1) = ?U div ?V" using qp by (simp add: unat_sub64)
    ultimately show ?thesis using p(1) s(1) c a(1,2) by (simp add: Div3_MultiplySubtract_def)
  qed
qed

section \<open>Moving the window\<close>

lemma MakeNewU_val:
  assumes "j + n \<le> length t"
  shows "Div3_MakeNewU t j n u = take n (drop j t) @ u # replicate (length t - n) 0"
    "length (Div3_MakeNewU t j n u) = length t + 1"
    "uval (Div3_MakeNewU t j n u) = uval (take n (drop j t)) + 2 ^ (64 * n) * unat u"
proof -
  have "map (\<lambda>i. t ! (j + i)) [0..<n] = take n (drop j t)" using assms by (intro nth_equalityI) simp_all
  then show e: "Div3_MakeNewU t j n u = take n (drop j t) @ u # replicate (length t - n) 0" by (simp add: Div3_MakeNewU_def)
  show "length (Div3_MakeNewU t j n u) = length t + 1" "uval (Div3_MakeNewU t j n u) = uval (take n (drop j t)) + 2 ^ (64 * n) * unat u"
    unfolding e using assms by (simp_all add: uval_append)
qed

lemma copy_words: "j + n \<le> length t \<Longrightarrow> n \<le> length uu \<Longrightarrow>
    foldl (\<lambda>t i. t[i + j := uu ! i]) t [0..<n] = take j t @ take n uu @ drop (j + n) t"
proof (induction n)
  case (Suc n)
  have "foldl (\<lambda>t i. t[i + j := uu ! i]) t [0..<Suc n] = (take j t @ take n uu @ drop (j + n) t)[n + j := uu ! n]"
    using Suc by simp
  also have "drop (j + n) t = t ! (j + n) # drop (j + Suc n) t" using Suc.prems(1) by (simp add: Cons_nth_drop_Suc)
  also have "(take j t @ take n uu @ t ! (j + n) # drop (j + Suc n) t)[n + j := uu ! n] = take j t @ take n uu @ uu ! n # drop (j + Suc n) t"
    using Suc.prems by (simp add: list_update_append)
  also have "\<dots> = take j t @ take (Suc n) uu @ drop (j + Suc n) t" using Suc.prems(2) by (simp add: take_Suc_conv_app_nth)
  finally show ?case .
qed simp

lemma CopyNewU_eq:
  assumes "j + n \<le> length t" and "n < length uu"
  shows "Div3_CopyNewU uu j n t = take j t @ take n uu @ (if j + n < length t then uu ! n # drop (Suc (j + n)) t else [])"
proof (cases "j + n < length t")
  case True
  then have "drop (j + n) t = t ! (j + n) # drop (Suc (j + n)) t" by (simp add: Cons_nth_drop_Suc)
  then show ?thesis using True assms by (simp add: Div3_CopyNewU_def copy_words list_update_append add.commute)
next
  case False
  then show ?thesis using assms by (simp add: Div3_CopyNewU_def copy_words add.commute)
qed

section \<open>The main loop\<close>

text \<open>A normalized divisor of \<open>n\<close> words in a table of \<open>N\<close> words.\<close>

definition normalized :: "nat \<Rightarrow> nat \<Rightarrow> table \<Rightarrow> bool" where
  "normalized N n v \<longleftrightarrow> length v = N \<and> 2 \<le> n \<and> n \<le> N \<and> uval (take n v) = uval v \<and> 2 ^ 63 \<le> unat (v ! (n - 1))"

lemma uval_top_two:
  assumes "j + n \<le> length t" and "2 \<le> n"
  shows "uval (take n (drop j t)) = uval (take (n - 2) (drop j t)) + 2 ^ (64 * (n - 2)) * (unat (t ! (j + n - 2)) + radix * unat (t ! (j + n - 1)))"
proof -
  obtain k where k: "n = Suc (Suc k)" using assms(2) by (metis Suc_diff_le diff_Suc_1 diff_Suc_Suc le_add_diff_inverse numeral_2_eq_2 plus_1_eq_Suc add_Suc)
  show ?thesis using assms(1) by (simp add: k uval_take_Suc algebra_simps power_add)
qed

lemma window_digit:
  assumes v: "normalized (length t) n v" and j: "j + n \<le> length t"
    and U: "U = uval (take n (drop j t)) + 2 ^ (64 * n) * unat u2" and less: "U < uval v * radix"
  shows "\<exists>qp. Div3_Calculate u2 (t ! (j + n - 1)) (t ! (j + n - 2)) (v ! (n - 1)) (v ! (n - 2)) = Inr qp \<and>
    U div uval v \<le> unat qp \<and> unat qp \<le> U div uval v + 1"
proof -
  let ?V = "uval v" and ?P = "(2 :: nat) ^ (64 * (n - 2))"
  let ?u1 = "t ! (j + n - 1)" and ?u0 = "t ! (j + n - 2)" and ?v1 = "v ! (n - 1)" and ?v0 = "v ! (n - 2)"
  let ?X = "unat u2 * radix + unat ?u1" and ?V2 = "unat ?v1 * radix + unat ?v0"
  let ?U3 = "?X * radix + unat ?u0"
  let ?lu = "uval (take (n - 2) (drop j t))" and ?lv = "uval (take (n - 2) v)"
  have n: "2 \<le> n" "n \<le> length v" "uval (take n v) = ?V" "2 ^ 63 \<le> unat ?v1" using v by (auto simp: normalized_def)
  have p: "(2 :: nat) ^ (64 * n) = ?P * (radix * radix)"
  proof -
    have "64 * n = 64 * (n - 2) + 128" using n(1) by simp
    then show ?thesis by (simp only: power_add) simp
  qed
  have eU: "U = ?U3 * ?P + ?lu" unfolding U uval_top_two [OF j n(1)] p by (simp add: algebra_simps)
  have eV: "?V = ?V2 * ?P + ?lv" using uval_top_two [of 0 n v] n(1-3) by (simp add: algebra_simps)
  have lu: "?lu < ?P" and lv: "?lv < ?P" by (simp_all add: uval_take)
  have B: "radix \<le> ?V2" using n(4) by (cases "unat ?v1") simp_all
  have "?X * radix * ?P \<le> U" unfolding eU by (simp add: algebra_simps)
  also have "\<dots> < (?V2 + 1) * ?P * radix" using less lv unfolding eV by (simp add: algebra_simps)
  finally have "?X * (radix * ?P) < (?V2 + 1) * (radix * ?P)" by (simp only: ac_simps)
  then have X: "?X \<le> ?V2" by (simp only: mult_less_cancel2) simp
  obtain qp where qp: "Div3_Calculate u2 ?u1 ?u0 ?v1 ?v0 = Inr qp" "unat qp = min (?U3 div ?V2) (radix - 1)"
    using Div3_Calculate_val [OF n(4) X] by blast
  note lq = leading_quotient [OF eU lu eV lv B]
  have "U div ?V < radix" using less by (simp add: less_mult_imp_div_less mult.commute)
  then have "U div ?V \<le> unat qp" using lq(1) qp(2) by simp
  moreover have "unat qp \<le> ?U3 div ?V2" "unat qp \<le> radix" unfolding qp(2) by linarith+
  then have "unat qp \<le> U div ?V + 1" by (intro lq(2)) simp_all
  ultimately show ?thesis using qp(1) by blast
qed

text \<open>
  One step: the window of \<open>n + 1\<close> words is replaced by its remainder, which leaves its top word zero, and
  the quotient digit is exact. \<open>before\<close> and \<open>after\<close> the step the words below the window are the same.
\<close>

lemma window_step:
  assumes v: "normalized (length t) n v" and j: "j + n \<le> length t"
    and U: "U = uval (take n (drop j t)) + 2 ^ (64 * n) * unat u2" and less: "U < uval v * radix"
  shows "\<exists>qp uu q'. Div3_Calculate u2 (t ! (j + n - 1)) (t ! (j + n - 2)) (v ! (n - 1)) (v ! (n - 2)) = Inr qp \<and>
    Div3_MultiplySubtract (Div3_MakeNewU t j n u2) (Div3_MakeBiggerV v) qp = Inr (uu, q') \<and> unat q' = U div uval v \<and>
    length (Div3_CopyNewU uu j n t) = length t \<and> take j (Div3_CopyNewU uu j n t) = take j t \<and>
    uval (take n (drop j (Div3_CopyNewU uu j n t))) = U mod uval v"
proof -
  let ?uu = "Div3_MakeNewU t j n u2" and ?vv = "Div3_MakeBiggerV v" and ?V = "uval v"
  obtain qp where qp: "Div3_Calculate u2 (t ! (j + n - 1)) (t ! (j + n - 2)) (v ! (n - 1)) (v ! (n - 2)) = Inr qp"
      "U div ?V \<le> unat qp" "unat qp \<le> U div ?V + 1"
    using window_digit [OF assms] by blast
  have n: "length v = length t" "n \<le> length t" "uval (take n v) = ?V" using v by (auto simp: normalized_def)
  have u: "length ?uu = length t + 1" "uval ?uu = U" using MakeNewU_val [OF j] U by simp_all
  have vv: "length ?vv = length ?uu" "uval ?vv = ?V" using n(1) u(1) by (simp_all add: Div3_MakeBiggerV_def uval_append)
  have pos: "0 < ?V" using less by (cases "?V = 0") simp_all
  have "?V * unat qp \<le> ?V * radix" using unat_bound [of qp] by (intro mult_le_mono2) simp
  also have "\<dots> < 2 ^ (64 * length t) * radix" using uval_less [of v] n(1) by simp
  also have "\<dots> = 2 ^ (64 * length ?uu)" unfolding u(1) by (simp add: power_add)
  finally have fit: "uval ?vv * unat qp < 2 ^ (64 * length ?uu)" using vv(2) by simp
  obtain uu q' where ms: "Div3_MultiplySubtract ?uu ?vv qp = Inr (uu, q')" "length uu = length t + 1" "unat q' = U div ?V" "uval uu = U mod ?V"
    using Div3_MultiplySubtract_val [OF vv(1) _ _ fit] pos qp(2,3) u vv(2) by (cases ?uu) auto
  have c: "Div3_CopyNewU uu j n t = take j t @ take n uu @ (if j + n < length t then uu ! n # drop (Suc (j + n)) t else [])"
    using CopyNewU_eq [OF j] ms(2) n(2) by simp
  have "U mod ?V < 2 ^ (64 * n)"
    using mod_less_divisor [OF pos, of U] uval_less [of "take n v"] n by simp
  then have "uval (take n uu) = U mod ?V" using ms(4) by (simp add: uval_take)
  moreover have "length (Div3_CopyNewU uu j n t) = length t" using c j n(2) ms(2) by auto
  moreover have "take j (Div3_CopyNewU uu j n t) = take j t" "take n (drop j (Div3_CopyNewU uu j n t)) = take n uu"
    using c j n(2) ms(2) by simp_all
  ultimately show ?thesis using qp(1) ms(1,3) by auto
qed

lemma d3_loop_val:
  assumes "normalized (length t) n v" and "j + n \<le> length t" and "length q = length t"
    and "uval (take n (drop j t)) + 2 ^ (64 * n) * unat u2 < uval v * radix"
    and W: "W = uval (take (j + n) t) + 2 ^ (64 * (j + n)) * unat u2"
  shows "\<exists>t' q'. d3_loop j n v (Div3_MakeBiggerV v) u2 t q = Inr (t', q') \<and> length t' = length t \<and> length q' = length t \<and>
    uval (take n t') = W mod uval v \<and> uval (take (Suc j) q') = W div uval v \<and> drop (Suc j) q' = drop (Suc j) q"
  using assms
proof (induction j arbitrary: u2 t q W)
  case 0
  let ?U = "uval (take n t) + 2 ^ (64 * n) * unat u2"
  obtain qp uu q' where s: "Div3_Calculate u2 (t ! (n - 1)) (t ! (n - 2)) (v ! (n - 1)) (v ! (n - 2)) = Inr qp"
      "Div3_MultiplySubtract (Div3_MakeNewU t 0 n u2) (Div3_MakeBiggerV v) qp = Inr (uu, q')" "unat q' = ?U div uval v"
      "length (Div3_CopyNewU uu 0 n t) = length t" "uval (take n (Div3_CopyNewU uu 0 n t)) = ?U mod uval v"
    using window_step [OF 0(1,2) refl 0(4)] by auto
  have "0 < length q" using 0(1,3) by (auto simp: normalized_def)
  then show ?case using s 0(3,5) by (subst d3_loop.simps) (cases q, simp_all)
next
  case (Suc j)
  let ?U = "uval (take n (drop (Suc j) t)) + 2 ^ (64 * n) * unat u2" and ?V = "uval v"
  obtain qp uu q' where s: "Div3_Calculate u2 (t ! (Suc j + n - 1)) (t ! (Suc j + n - 2)) (v ! (n - 1)) (v ! (n - 2)) = Inr qp"
      "Div3_MultiplySubtract (Div3_MakeNewU t (Suc j) n u2) (Div3_MakeBiggerV v) qp = Inr (uu, q')" "unat q' = ?U div ?V"
      "length (Div3_CopyNewU uu (Suc j) n t) = length t" "take (Suc j) (Div3_CopyNewU uu (Suc j) n t) = take (Suc j) t"
      "uval (take n (drop (Suc j) (Div3_CopyNewU uu (Suc j) n t))) = ?U mod ?V"
    using window_step [OF Suc.prems(1,2) refl Suc.prems(4)] by blast
  define t1 where "t1 = Div3_CopyNewU uu (Suc j) n t"
  define W1 where "W1 = uval (take (Suc j) t) + 2 ^ (64 * Suc j) * (?U mod ?V)"
  let ?q = "q[Suc j := q']"
  have t1: "length t1 = length t" "take (Suc j) t1 = take (Suc j) t" "uval (take n (drop (Suc j) t1)) = ?U mod ?V"
    using s(4-6) by (simp_all add: t1_def)
  have pos: "0 < ?V" using Suc.prems(4) by (cases "?V = 0") simp_all
  have step: "d3_loop (Suc j) n v (Div3_MakeBiggerV v) u2 t q = d3_loop j n v (Div3_MakeBiggerV v) (t1 ! (j + n)) t1 ?q"
    using s(1,2) by (subst d3_loop.simps) (simp add: t1_def Let_def)
  have w1: "uval (take (Suc j + n) t1) = W1"
    using t1 Suc.prems(2) by (simp only: W1_def take_add uval_append) simp
  have n: "n \<noteq> 0" using Suc.prems(1) by (simp add: normalized_def)
  have jn: "j + n < length t1" using Suc.prems(2) t1(1) by simp
  have u2: "uval (take n (drop j t1)) + 2 ^ (64 * n) * unat (t1 ! (j + n)) = unat (t1 ! j) + radix * (?U mod ?V)"
  proof -
    have "uval (take n (drop j t1)) + 2 ^ (64 * n) * unat (t1 ! (j + n)) = uval (take (Suc n) (drop j t1))"
      using jn by (simp add: uval_take_Suc)
    also have "take (Suc n) (drop j t1) = t1 ! j # take n (drop (Suc j) t1)" using jn by (simp add: Cons_nth_drop_Suc [symmetric])
    finally show ?thesis using t1(3) by simp
  qed
  have "?U mod ?V + 1 \<le> ?V" using pos by (simp add: Suc_leI)
  then have "(?U mod ?V + 1) * radix \<le> ?V * radix" by (rule mult_le_mono1)
  then have less: "uval (take n (drop j t1)) + 2 ^ (64 * n) * unat (t1 ! (j + n)) < ?V * radix"
    unfolding u2 using unat_bound [of "t1 ! j"] by simp
  have W1: "W1 = uval (take (j + n) t1) + 2 ^ (64 * (j + n)) * unat (t1 ! (j + n))"
    using w1 uval_take_Suc [OF jn] by simp
  obtain t' r where r: "d3_loop j n v (Div3_MakeBiggerV v) (t1 ! (j + n)) t1 ?q = Inr (t', r)" "length t' = length t" "length r = length t"
      "uval (take n t') = W1 mod ?V" "uval (take (Suc j) r) = W1 div ?V" "drop (Suc j) r = drop (Suc j) ?q"
    using Suc.IH [of t1 ?q "t1 ! (j + n)" W1] Suc.prems(1-3) t1(1) less W1 by auto
  have W: "W = uval (take (Suc j) t) + 2 ^ (64 * Suc j) * ?U"
    using Suc.prems(2,5) by (simp add: take_add [of "Suc j" n t, simplified] uval_append power_add algebra_simps)
  note ls = long_step [OF pos, of "uval (take (Suc j) t)" "2 ^ (64 * Suc j)" ?U, folded W W1_def]
  have l: "Suc j < length r" "Suc j < length q" using r(3) Suc.prems(2,3) n by simp_all
  have d: "drop (Suc j) r = q' # drop (Suc (Suc j)) q" using r(6) l(2) by (simp add: drop_update_swap Cons_nth_drop_Suc [symmetric])
  then have rj: "r ! Suc j = q'" by (metis nth_via_drop)
  have "uval (take (Suc (Suc j)) r) = W div ?V" unfolding ls(1) using uval_take_Suc [OF l(1)] r(5) rj s(3) by simp
  moreover have "drop (Suc (Suc j)) r = drop (Suc (Suc j)) q" using d by (metis drop_Suc list.sel(3) tl_drop)
  moreover have "uval (take n t') = W mod ?V" unfolding ls(2) by (rule r(4))
  ultimately show ?case using step r(1-3) by simp
qed

section \<open>Normalization\<close>

lemma uval_lead:
  assumes "0 < n" and "n \<le> length v" and "uval (take n v) = uval v" and "2 ^ r \<le> unat (v ! (n - 1))" and "unat (v ! (n - 1)) < 2 ^ Suc r"
  shows "2 ^ (64 * (n - 1) + r) \<le> uval v" "uval v < 2 ^ (64 * (n - 1) + r + 1)"
proof -
  have t: "take n v ! (n - 1) = v ! (n - 1)" using assms(1) by simp
  show "2 ^ (64 * (n - 1) + r) \<le> uval v" "uval v < 2 ^ (64 * (n - 1) + r + 1)"
    using uval_top_word [of n "take n v" r] assms by (simp_all add: t)
qed

lemma top_word_div:
  assumes "0 < n" and "n \<le> length v" and "uval v < 2 ^ (64 * n)"
  shows "unat (v ! (n - 1)) = uval v div 2 ^ (64 * (n - 1))"
proof -
  have "64 * n = 64 * (n - 1) + 64" using assms(1) by simp
  then have "uval v < 2 ^ 64 * 2 ^ (64 * (n - 1))" using assms(3) by (simp only: power_add mult.commute)
  then have "uval v div 2 ^ (64 * (n - 1)) < 2 ^ 64" by (rule less_mult_imp_div_less)
  then show ?thesis using uval_nth [of "n - 1" v] assms(1,2) by simp
qed

lemma Rcl_val:
  assumes "t \<noteq> []"
  shows "\<exists>c t'. UInt_Rcl d 0 t = Inr (c, t') \<and> length t' = length t \<and> uval t' = uval t * 2 ^ d mod 2 ^ (64 * length t)"
  using Rcl_shl [OF assms, of d 0] by (auto simp: shl_spec_def ones_def)

lemma shifted_out:
  assumes "t \<noteq> []" and "d < 64"
  shows "uval t * 2 ^ d div 2 ^ (64 * length t) = unat (drop_bit (64 - d) (t ! (length t - 1)))"
proof -
  let ?N = "length t"
  have N: "64 * ?N = 64 * (?N - 1) + (64 - d) + d" using assms by (cases t) simp_all
  have "unat (t ! (?N - 1)) = uval t div 2 ^ (64 * (?N - 1))"
    using assms(1) by (intro top_word_div uval_less) simp_all
  then have "unat (drop_bit (64 - d) (t ! (?N - 1))) = uval t div 2 ^ (64 * (?N - 1)) div 2 ^ (64 - d)" by (simp add: unat_drop_bit64)
  also have "\<dots> = uval t div 2 ^ (64 * (?N - 1) + (64 - d))" by (simp add: div_mult2_eq power_add)
  also have "\<dots> = uval t * 2 ^ d div (2 ^ (64 * (?N - 1) + (64 - d)) * 2 ^ d)" by simp
  also have "\<dots> = uval t * 2 ^ d div 2 ^ (64 * ?N)" by (simp only: N power_add)
  finally show ?thesis ..
qed

lemma Div3_Normalize_val:
  assumes l: "length v = length t" and n: "2 \<le> n" "n \<le> length t" and v: "uval (take n v) = uval v" "v ! (n - 1) \<noteq> 0"
  shows "\<exists>res d v1 t1. Div3_Normalize v n t = Inr (res, d, v1, t1) \<and> d < 64 \<and> length t1 = length t \<and> normalized (length t) n v1 \<and>
    uval v1 = uval v * 2 ^ d \<and> uval t1 + 2 ^ (64 * length t) * unat res = uval t * 2 ^ d"
proof -
  obtain r where r: "r < 64" "FindLeadingBitInWord (v ! (n - 1)) = int r" "2 ^ r \<le> unat (v ! (n - 1))" "unat (v ! (n - 1)) < 2 ^ Suc r"
    using FindLeading_small [OF v(2)] by blast
  let ?d = "64 - r - 1"
  have ne: "t \<noteq> []" "v \<noteq> []" using n l by auto
  have b: "2 ^ (64 * (n - 1) + r) \<le> uval v" "uval v < 2 ^ (64 * (n - 1) + r + 1)"
    using uval_lead [OF _ _ v(1) r(3,4)] n l by simp_all
  obtain c1 v1 where v1: "UInt_Rcl ?d 0 v = Inr (c1, v1)" "length v1 = length t" "uval v1 = uval v * 2 ^ ?d mod 2 ^ (64 * length t)"
    using Rcl_val [OF ne(2), of ?d] l by auto
  obtain c2 t1 where t1: "UInt_Rcl ?d 0 t = Inr (c2, t1)" "length t1 = length t" "uval t1 = uval t * 2 ^ ?d mod 2 ^ (64 * length t)"
    using Rcl_val [OF ne(1), of ?d] by auto
  have e: "64 * (n - 1) + r + 1 + ?d = 64 * n" "64 * (n - 1) + 63 = 64 * (n - 1) + r + ?d" using r(1) n(1) by simp_all
  have "uval v * 2 ^ ?d < 2 ^ (64 * (n - 1) + r + 1) * 2 ^ ?d" using b(2) by simp
  then have small: "uval v * 2 ^ ?d < 2 ^ (64 * n)" by (simp only: power_add [symmetric] e(1))
  have "(2::nat) ^ (64 * n) \<le> 2 ^ (64 * length t)" using n(2) by (intro power_increasing) simp_all
  with small have "uval v * 2 ^ ?d < 2 ^ (64 * length t)" by (rule less_le_trans)
  then have V1: "uval v1 = uval v * 2 ^ ?d" unfolding v1(3) by (rule mod_less)
  have "2 ^ (64 * (n - 1) + r) * 2 ^ ?d \<le> uval v1" unfolding V1 using b(1) by (rule mult_le_mono1)
  then have big: "2 ^ (64 * (n - 1)) * 2 ^ 63 \<le> uval v1" by (simp only: power_add [symmetric] e(2))
  have "unat (v1 ! (n - 1)) = uval v1 div 2 ^ (64 * (n - 1))" using small V1 v1(2) n by (intro top_word_div) simp_all
  then have top: "2 ^ 63 \<le> unat (v1 ! (n - 1))"
    using big by (simp add: less_eq_div_iff_mult_less_eq mult.commute)
  have norm: "normalized (length t) n v1"
    unfolding normalized_def uval_take using v1(2) n small V1 top by simp
  have tt: "uval t1 + 2 ^ (64 * length t) * unat (drop_bit (r + 1) (t ! (length t - 1))) = uval t * 2 ^ ?d"
  proof -
    have "64 - ?d = r + 1" "?d < 64" using r(1) by simp_all
    then have "unat (drop_bit (r + 1) (t ! (length t - 1))) = uval t * 2 ^ ?d div 2 ^ (64 * length t)"
      using shifted_out [OF ne(1), of ?d] by simp
    then show ?thesis unfolding t1(3) by (simp only: mod_mult_div_eq)
  qed
  show ?thesis
  proof (cases "0 < ?d")
    case True
    then show ?thesis using r(1,2) v1 t1 V1 norm tt by (simp add: Div3_Normalize_def Let_def)
  next
    case False
    then have "?d = 0" by simp
    moreover have "v1 = v" "t1 = t" using v1(1) t1(1) \<open>?d = 0\<close> by (simp_all add: UInt_Rcl_def)
    ultimately show ?thesis using r(1,2) norm by (simp add: Div3_Normalize_def Let_def)
  qed
qed

section \<open>Division\<close>

lemma Unnormalize_val:
  assumes "n \<le> length t" and "t \<noteq> []" and "uval (take n t) = r * 2 ^ d"
  shows "\<exists>t'. Div3_Unnormalize n d t = Inr t' \<and> length t' = length t \<and> uval t' = r"
proof -
  let ?f = "fill_up n 0 t"
  have f: "length ?f = length t" "?f \<noteq> []" "uval ?f = r * 2 ^ d" using assms by (auto simp: fill_up_eq uval_append)
  obtain c t' where "UInt_Rcr d 0 ?f = Inr (c, t')" "length t' = length t" "uval t' = r"
    using Rcr_shr [OF f(2), of d 0] f(1,3) by (auto simp: shr_spec_def ones_def)
  then show ?thesis by (simp add: Div3_Unnormalize_def)
qed

text \<open>The digits of the normalized dividend, the word beyond the table included, are those the loop starts with.\<close>

lemma loop_start:
  assumes T: "uval t1 + 2 ^ (64 * length t1) * unat res = uval t * 2 ^ d" and small: "uval t < 2 ^ (64 * k)" and k: "k \<le> length t1" and d: "d < 64"
    and u2: "u2 = (if k = length t1 then res else t1 ! k)"
  shows "uval (take k t1) + 2 ^ (64 * k) * unat u2 = uval t * 2 ^ d"
proof (cases "k = length t1")
  case True
  then show ?thesis using T u2 by simp
next
  case False
  then have lt: "k < length t1" using k by simp
  have "(2::nat) ^ d < 2 ^ 64" using d by (rule power_strict_increasing) simp
  with small have "uval t * 2 ^ d < 2 ^ (64 * k) * 2 ^ 64" by (rule mult_strict_mono) simp_all
  also have "\<dots> = 2 ^ (64 * Suc k)" by (simp add: power_add)
  finally have b: "uval t * 2 ^ d < 2 ^ (64 * Suc k)" .
  have "(2::nat) ^ (64 * Suc k) \<le> 2 ^ (64 * length t1)" using lt by (intro power_increasing) simp_all
  then have "2 ^ (64 * length t1) * unat res < 2 ^ (64 * length t1) * 1" using T b by linarith
  then have "unat res = 0" by simp
  then have T1: "uval t1 = uval t * 2 ^ d" using T by simp
  then have "uval (take (Suc k) t1) = uval t * 2 ^ d" using b by (simp only: uval_take mod_less)
  then show ?thesis using uval_take_Suc [OF lt] u2 False by simp
qed

lemma Div3_Division_val:
  assumes l: "length v = length t" and n: "2 \<le> n" "m + n \<le> length t" and v: "uval (take n v) = uval v" "v ! (n - 1) \<noteq> 0"
    and small: "uval t < 2 ^ (64 * (m + n))"
  shows "\<exists>q r. (\<forall>rem. Div3_Division v rem m n t = Inr (q, map_option (\<lambda>_. r) rem)) \<and> length q = length t \<and> length r = length t \<and>
    uval q = uval t div uval v \<and> uval r = uval t mod uval v"
proof -
  obtain res d v1 t1 where nz: "Div3_Normalize v n t = Inr (res, d, v1, t1)" "d < 64" "length t1 = length t" "normalized (length t) n v1"
      "uval v1 = uval v * 2 ^ d" "uval t1 + 2 ^ (64 * length t) * unat res = uval t * 2 ^ d"
    using Div3_Normalize_val [OF l n(1) _ v] n(2) by auto
  let ?u2 = "if m + n = length t then res else t1 ! (m + n)" and ?W = "uval t * 2 ^ d"
  have W: "uval (take (m + n) t1) + 2 ^ (64 * (m + n)) * unat ?u2 = ?W"
    using loop_start [of t1 res t d "m + n"] nz(2,3,6) small n(2) by simp
  let ?U = "uval (take n (drop m t1)) + 2 ^ (64 * n) * unat ?u2"
  have "2 ^ (64 * m) * ?U \<le> ?W"
    unfolding W [symmetric] using n(2) nz(3) by (simp add: take_add uval_append power_add algebra_simps)
  also have "?W < 2 ^ (64 * (m + n)) * 2 ^ d" using small by simp
  also have "\<dots> = 2 ^ (64 * m) * (2 ^ (64 * n) * 2 ^ d)" by (simp add: power_add algebra_simps)
  finally have "?U < 2 ^ (64 * n) * 2 ^ d" by (simp only: mult_less_cancel1)
  also have "\<dots> \<le> uval v1 * radix"
  proof -
    have "0 < unat (v ! (n - 1))" using v(2) by (simp add: unat_gt_0)
    then have "2 ^ (64 * (n - 1)) * 1 \<le> 2 ^ (64 * (n - 1)) * unat (v ! (n - 1))" by (intro mult_le_mono2) simp
    also have "\<dots> \<le> uval (take n v)" using uval_take_Suc [of "n - 1" v] n l by simp
    finally have "2 ^ (64 * (n - 1)) * (2 ^ 64 * 2 ^ d) \<le> uval v * (2 ^ 64 * 2 ^ d)" unfolding v(1) by (intro mult_le_mono1) simp
    moreover have "64 * n = 64 * (n - 1) + 64" using n(1) by simp
    then have "(2::nat) ^ (64 * n) = 2 ^ (64 * (n - 1)) * 2 ^ 64" by (simp only: power_add)
    ultimately show ?thesis unfolding nz(5) by (simp add: ac_simps)
  qed
  finally have less: "?U < uval v1 * radix" .
  obtain t2 q where lo: "d3_loop m n v1 (Div3_MakeBiggerV v1) ?u2 t1 (SetZero t) = Inr (t2, q)" "length t2 = length t" "length q = length t"
      "uval (take n t2) = ?W mod uval v1" "uval (take (Suc m) q) = ?W div uval v1" "drop (Suc m) q = drop (Suc m) (SetZero t)"
    using d3_loop_val [of t1 n v1 m "SetZero t" ?u2 ?W] nz(3,4) n(2) less W by auto
  have "uval (take n t2) = uval t mod uval v * 2 ^ d" unfolding lo(4) nz(5) by (simp add: mult_mod_left)
  then obtain r where r: "Div3_Unnormalize n d t2 = Inr r" "length r = length t" "uval r = uval t mod uval v"
    using Unnormalize_val [of n t2] lo(2) n by fastforce
  have "uval q = uval (take (Suc m) q) + 2 ^ (64 * length (take (Suc m) q)) * uval (drop (Suc m) q)"
    by (metis append_take_drop_id uval_append)
  then have "uval q = uval t div uval v" unfolding lo(5,6) nz(5) by (simp add: SetZero_def drop_map)
  then show ?thesis
    using nz(1) lo(1,3) r n(1) by (intro exI [of _ q] exI [of _ r]) (auto simp: Div3_Division_def split: option.splits)
qed

lemma diff_id_cmp:
  "n < length t \<Longrightarrow> n < length v \<Longrightarrow>
   (t ! diff_id n t v < v ! diff_id n t v \<longleftrightarrow> uval (take (Suc n) t) < uval (take (Suc n) v)) \<and>
   (t ! diff_id n t v = v ! diff_id n t v \<longleftrightarrow> uval (take (Suc n) t) = uval (take (Suc n) v))"
proof (induction n)
  case 0
  then show ?case using take_Suc_cmp [of 0 t v] by (simp add: Suc_le_eq)
next
  case (Suc n)
  then show ?case using take_Suc_cmp [of "Suc n" t v] by auto
qed

lemma lead_less:
  assumes "t \<noteq> []" and "v \<noteq> []" and "lead_id (length t - 1) t < lead_id (length v - 1) v"
  shows "uval t < uval v"
proof -
  let ?m = "lead_id (length t - 1) t" and ?n = "lead_id (length v - 1) v"
  note t = lead_id_zeros [OF assms(1)] and v = lead_id_zeros [OF assms(2)]
  have "uval t < 2 ^ (64 * Suc ?m)" using t(4) by (metis uval_take mod_less_divisor zero_less_power zero_less_numeral)
  also have "\<dots> \<le> 2 ^ (64 * ?n)" using assms(3) by (intro power_increasing) simp_all
  also have "\<dots> \<le> 2 ^ (64 * ?n) * unat (v ! ?n)" using v(3) assms(3) by (simp add: unat_gt_0 Suc_leI)
  also have "\<dots> \<le> uval (take (Suc ?n) v)" using uval_take_Suc [OF v(1)] by simp
  finally show ?thesis using v(4) by simp
qed

text \<open>What \<open>Div_CalculatingSize\<close> finds out.\<close>

lemma CalculatingSize_val:
  assumes l: "length v = length t" "t \<noteq> []"
  shows "case Div_CalculatingSize t v of (code, m, n) \<Rightarrow>
    (code = 1 \<longleftrightarrow> uval v = 0) \<and> (code = 2 \<longrightarrow> uval t = 0) \<and> (code = 3 \<longrightarrow> uval t < uval v) \<and> (code = 4 \<longrightarrow> uval t = uval v) \<and>
    (code = 0 \<longrightarrow> m = lead_id (length t - 1) t \<and> n = lead_id (length v - 1) v \<and> n \<le> m \<and> v ! n \<noteq> 0) \<and> code \<le> 4"
proof -
  let ?m = "lead_id (length t - 1) t" and ?n = "lead_id (length v - 1) v"
  have vne: "v \<noteq> []" using l by auto
  note t = lead_id_zeros [OF l(2)] and v = lead_id_zeros [OF vne]
  have zero: "lead_id (length w - 1) w = 0 \<and> w ! lead_id (length w - 1) w = 0 \<longleftrightarrow> uval w = 0" if "w \<noteq> []" for w
  proof -
    note z = lead_id_zeros [OF that]
    have "uval w = uval (take (lead_id (length w - 1) w) w) + 2 ^ (64 * lead_id (length w - 1) w) * unat (w ! lead_id (length w - 1) w)"
      using z(4) uval_take_Suc [OF z(1)] by simp
    then show ?thesis using z(3) by (cases "lead_id (length w - 1) w = 0") (auto simp: unat_eq_zero)
  qed
  have vn: "uval v \<noteq> 0 \<Longrightarrow> v ! ?n \<noteq> 0" using v(3) zero [OF vne] by (cases "?n = 0") auto
  have cmp: "?m = ?n \<Longrightarrow> (t ! diff_id ?n t v < v ! diff_id ?n t v \<longleftrightarrow> uval t < uval v) \<and> (t ! diff_id ?n t v = v ! diff_id ?n t v \<longleftrightarrow> uval t = uval v)"
    using diff_id_cmp [of ?n t v] t(1,4) v(1,4) by simp
  show ?thesis
    using zero [OF vne] zero [OF l(2)] lead_less [OF l(2) vne] cmp vn by (auto simp: Div_CalculatingSize_def Let_def)
qed

lemma SetOne_val: "t \<noteq> [] \<Longrightarrow> uval (SetOne t) = 1 \<and> length (SetOne t) = length t"
  by (cases t) (simp_all add: SetOne_def SetZero_def)

lemma SetZero_length: "length s = length t \<Longrightarrow> SetZero s = SetZero t"
  by (simp add: SetZero_def map_replicate_const)

lemma StandardTest_val:
  assumes l: "length v = length t" "t \<noteq> []" and rem: "pred_option (\<lambda>r. length r = length t) rem" and V: "0 < uval v"
  shows "case Div_StandardTest t v rem of (test, m, n, t1, rem1) \<Rightarrow>
    test = 0 \<and> length t1 = length t \<and> uval t1 = uval t div uval v \<and>
      (\<exists>r. rem1 = map_option (\<lambda>_. r) rem \<and> length r = length t \<and> uval r = uval t mod uval v) \<or>
    test = 2 \<and> t1 = t \<and> rem1 = rem \<and> m = lead_id (length t - 1) t \<and> n = lead_id (length v - 1) v \<and> n \<le> m \<and> v ! n \<noteq> 0"
proof -
  obtain code m n where c: "Div_CalculatingSize t v = (code, m, n)" by (metis prod_cases3)
  note f = CalculatingSize_val [OF l, unfolded c prod.case]
  have "code \<noteq> 1" "code \<le> 4" using f V by auto
  then have code: "code = 0 \<or> code = 2 \<or> code = 3 \<or> code = 4" by linarith
  have zero: "\<exists>r. map_option SetZero rem = map_option (\<lambda>_. r) rem \<and> length r = length t \<and> uval r = 0"
    using rem by (intro exI [of _ "SetZero t"]) (cases rem, auto dest: SetZero_length)
  show ?thesis
    using code f V zero SetOne_val [OF l(2)] by (auto simp: Div_StandardTest_def c)
qed

lemma Div3_val:
  assumes l: "length v = length t" "t \<noteq> []" and rem: "pred_option (\<lambda>r. length r = length t) rem" and V: "0 < uval v"
  shows "\<exists>q r. Div3 t v rem = Inr (0, q, map_option (\<lambda>_. r) rem) \<and> length q = length t \<and> length r = length t \<and>
    uval q = uval t div uval v \<and> uval r = uval t mod uval v"
proof -
  obtain test m n t1 rem1 where st: "Div_StandardTest t v rem = (test, m, n, t1, rem1)" by (metis prod_cases5)
  from StandardTest_val [OF l rem V, unfolded st prod.case] show ?thesis
  proof (elim disjE conjE exE)
    fix r
    assume "test = 0" "rem1 = map_option (\<lambda>_. r) rem" "length t1 = length t" "length r = length t" "uval t1 = uval t div uval v" "uval r = uval t mod uval v"
    then show ?thesis using st by (auto simp: Div3_def Div3Ref_def)
  next
    assume two: "test = 2" "t1 = t" "rem1 = rem" "m = lead_id (length t - 1) t" "n = lead_id (length v - 1) v" "n \<le> m" "v ! n \<noteq> 0"
    have vne: "v \<noteq> []" using l by auto
    note tz = lead_id_zeros [OF l(2)] and vz = lead_id_zeros [OF vne]
    show ?thesis
    proof (cases "n = 0")
      case True
      have "uval v = unat (v ! 0)" using vz(4) True two(5) uval_take_Suc [of 0 v] vne by simp
      then obtain r t' where d: "DivInt (v ! 0) t = Inr (0, r, t')" "length t' = length t" "uval t' = uval t div uval v" "unat r = uval t mod uval v"
        using DivInt_val [OF l(2), of "v ! 0"] two(7) True by auto
      let ?r = "(SetZero t)[0 := r]"
      have o: "map_option (\<lambda>rem. (SetZero rem)[0 := r]) rem = map_option (\<lambda>_. ?r) rem"
        using rem by (cases rem) (auto dest: SetZero_length)
      have "uval ?r = unat r" "length ?r = length t" using l(2) by (cases t; simp add: SetZero_def)+
      moreover have "Div3 t v rem = Inr (0, t', map_option (\<lambda>_. ?r) rem)"
        using st two(1-3) True d(1) by (simp add: Div3_def Div3Ref_def o)
      ultimately show ?thesis using d(2-4) by (intro exI [of _ t'] exI [of _ ?r]) simp
    next
      case False
      have less: "uval t < 2 ^ (64 * Suc m)" using tz(4) two(4) by (metis uval_take mod_less_divisor zero_less_power zero_less_numeral)
      have k: "m + 1 - (n + 1) + (n + 1) = Suc m" using two(6) by simp
      have small: "uval t < 2 ^ (64 * (m + 1 - (n + 1) + (n + 1)))" unfolding k by (rule less)
      have "m + 1 - (n + 1) + (n + 1) \<le> length t" unfolding k using tz(1) two(4) by simp
      then obtain q r where "\<forall>rem. Div3_Division v rem (m + 1 - (n + 1)) (n + 1) t = Inr (q, map_option (\<lambda>_. r) rem)"
          "length q = length t" "length r = length t" "uval q = uval t div uval v" "uval r = uval t mod uval v"
        using Div3_Division_val [OF l(1) _ _ _ _ small] False two(5,7) vz(4) by auto
      then show ?thesis using st two False by (auto simp: Div3_def Div3Ref_def)
    qed
  qed
qed

section \<open>Properties\<close>

text \<open>
  Division of words. \<open>DivTwoWords\<close> of a double word by a word whose high part is smaller gives the exact
  quotient and remainder, on all three paths (a word, a divisor of 32 bits, Knuth's algorithm in radix \<open>2^32\<close>
  with its normalization and trial quotients); \<open>DivInt\<close> of a table of any number of words by a word other than
  zero is exact, and reports one and leaves the table for zero.
\<close>

theorem word_division_exact:
  assumes "a < c" and "t \<noteq> []"
  shows "(\<exists>r rest. DivTwoWords a b c = Inr (r, rest) \<and> unat r = (unat a * 2 ^ 64 + unat b) div unat c \<and>
      unat rest = (unat a * 2 ^ 64 + unat b) mod unat c) \<and>
    (\<exists>r t'. DivInt c t = Inr (0, r, t') \<and> length t' = length t \<and> uval t' = uval t div unat c \<and> unat r = uval t mod unat c) \<and>
    DivInt 0 t = Inr (1, 0, t)"
proof -
  have "c \<noteq> 0" using assms(1) by (metis word_not_simps(1))
  then show ?thesis using DivTwoWords_val [OF assms(1), of b] DivInt_val [OF assms(2)] by (simp add: DivInt_def)
qed

theorem word_division_exact_witness:
  "(\<exists>r rest. DivTwoWords 5 7 9223372036854775809 = Inr (r, rest) \<and>
      unat r = (unat (5 :: uint) * 2 ^ 64 + unat (7 :: uint)) div unat (9223372036854775809 :: uint) \<and>
      unat rest = (unat (5 :: uint) * 2 ^ 64 + unat (7 :: uint)) mod unat (9223372036854775809 :: uint)) \<and>
    (\<exists>r t'. DivInt 9223372036854775809 [1, 2, 3] = Inr (0, r, t') \<and> length t' = length ([1, 2, 3] :: table) \<and>
      uval t' = uval [1, 2, 3] div unat (9223372036854775809 :: uint) \<and> unat r = uval [1, 2, 3] mod unat (9223372036854775809 :: uint)) \<and>
    DivInt 0 [1, 2, 3] = Inr (1, 0, [1, 2, 3])"
  by (rule word_division_exact) (simp_all add: word_less_nat_alt)

end
