(* ===== verification/TtmathDivAll.thy ===== *)
theory TtmathDivAll
  imports TtmathKnuth
begin

text \<open>
  The other two division algorithms of \<^verbatim>\<open>ttmathuint.h\<close>, \<open>Div1\<close> (non-restoring, one bit at a time) and \<open>Div2\<close>
  (subtraction of the shifted divisor), and \<open>UInt::Div\<close>, which chooses among the three. The divisor is another
  object than the dividend or a copy of it, as the code makes when they are the same.
\<close>

section \<open>Div1\<close>

text \<open>
  The labels of \<open>Div1_CalculateRef\<close>. \<open>loop\<close> counts down from the number of bits, which is not zero; at zero
  the model stops.
\<close>

datatype div1_label = Div_a | Div_b | Div_c | Div_d

function div1_run :: "div1_label \<Rightarrow> nat \<Rightarrow> uint \<Rightarrow> table \<Rightarrow> table \<Rightarrow> table \<Rightarrow> (table \<times> table) res" where
  "div1_run Div_a loop c divisor t rest =
     andThen (UInt_Rcl 1 c t) (\<lambda>(c1, t1).
       let (c2, rest1) = UInt_Add rest rest c1;
           (c3, rest2) = UInt_Sub rest1 divisor c2;
           c4 = (if c3 = 0 then 1 else 0)
       in if c4 = 0 then div1_run Div_d loop c4 divisor t1 rest2 else div1_run Div_b loop c4 divisor t1 rest2)"
| "div1_run Div_b loop c divisor t rest =
     (if loop - 1 \<noteq> 0 then div1_run Div_a (loop - 1) c divisor t rest
      else andThen (UInt_Rcl 1 c t) (\<lambda>(_, t1). Inr (t1, rest)))"
| "div1_run Div_c loop c divisor t rest =
     andThen (UInt_Rcl 1 c t) (\<lambda>(c1, t1).
       let (c2, rest1) = UInt_Add rest rest c1;
           (c3, rest2) = UInt_Add rest1 divisor 0
       in if c3 \<noteq> 0 then div1_run Div_b loop c3 divisor t1 rest2 else div1_run Div_d loop c3 divisor t1 rest2)"
| "div1_run Div_d loop c divisor t rest =
     (if loop - 1 \<noteq> 0 then div1_run Div_c (loop - 1) c divisor t rest
      else andThen (UInt_Rcl 1 c t) (\<lambda>(_, t1).
             let (_, rest1) = UInt_Add rest divisor 0 in Inr (t1, rest1)))"
  by pat_completeness auto

termination div1_run
  by (relation "measure (\<lambda>(l, loop, _). 2 * loop + (if l = Div_a \<or> l = Div_c then 1 else 0))") auto

declare div1_run.simps [simp del]

definition Div1_CalculateRef :: "table \<Rightarrow> table \<Rightarrow> (table \<times> table) res" where
  "Div1_CalculateRef t divisor = div1_run Div_a (length t * TTMATH_BITS_PER_UINT) 0 divisor t (SetZero t)"

text \<open>Without a \<open>remainder\<close> the code works on a local one.\<close>

definition Div1 :: "table \<Rightarrow> table \<Rightarrow> table option \<Rightarrow> (nat \<times> table \<times> table option) res" where
  "Div1 t divisor remainder =
     (case Div_StandardTest t divisor remainder of (test, m, n, t1, rem1) \<Rightarrow>
        if test < 2 then Inr (test, t1, rem1)
        else andThen (Div1_CalculateRef t1 divisor) (\<lambda>(q, rest). Inr (0, q, map_option (\<lambda>_. rest) rem1)))"

section \<open>Correctness of Div1\<close>

text \<open>
  With \<open>l\<close> bits of the dividend \<open>T\<close> still to come, \<open>P = T div 2^l\<close> has been divided: the register holds the other
  bits of \<open>T\<close> above the bits of the quotient of \<open>P\<close>, of which the last is still in the carry.
\<close>

definition div1_reg :: "nat \<Rightarrow> nat \<Rightarrow> nat \<Rightarrow> uint \<Rightarrow> table \<Rightarrow> bool" where
  "div1_reg T V l c t \<longleftrightarrow> t \<noteq> [] \<and> l \<le> 64 * length t \<and> T < 2 ^ (64 * length t) \<and>
     uval t = (T mod 2 ^ l) * 2 ^ (64 * length t - l) + T div 2 ^ l div V div 2 \<and> carry_val c = T div 2 ^ l div V mod 2"

lemma divmod_unique: "r < V \<Longrightarrow> (q * V + r) div V = q \<and> (q * V + r) mod V = (r :: nat)"
  by simp

lemma half_step:
  fixes P :: nat
  assumes "0 < V" and "b \<le> 1" and "P' = 2 * P + b"
  shows "2 * (P mod V) + b < 2 * V"
    "V \<le> 2 * (P mod V) + b \<Longrightarrow> P' div V = 2 * (P div V) + 1 \<and> P' mod V = 2 * (P mod V) + b - V"
    "2 * (P mod V) + b < V \<Longrightarrow> P' div V = 2 * (P div V) \<and> P' mod V = 2 * (P mod V) + b"
proof -
  let ?s = "2 * (P mod V) + b"
  have "P mod V + 1 \<le> V" using assms(1) by (simp add: Suc_leI)
  then show 1: "?s < 2 * V" using assms(2) by linarith
  have "2 * P = 2 * (P div V * V + P mod V)" by (simp only: div_mult_mod_eq)
  then have e: "P' = (2 * (P div V)) * V + ?s" using assms(3) by (simp only: distrib_left mult.assoc add.assoc)
  show "?s < V \<Longrightarrow> P' div V = 2 * (P div V) \<and> P' mod V = ?s" unfolding e by (rule divmod_unique)
  assume "V \<le> ?s"
  then have "P' = (2 * (P div V) + 1) * V + (?s - V)" unfolding e by (simp add: distrib_right)
  moreover have "?s - V < V" using 1 by simp
  ultimately show "P' div V = 2 * (P div V) + 1 \<and> P' mod V = ?s - V" using divmod_unique by metis
qed

lemma next_bit: "T div 2 ^ k = 2 * (T div 2 ^ Suc k) + T div 2 ^ k mod (2 :: nat)"
proof -
  have "T div 2 ^ Suc k = T div 2 ^ k div 2" by (simp only: power_Suc2 div_mult2_eq)
  then show ?thesis by (simp only: mult_div_mod_eq)
qed

lemma Rcl1_val:
  assumes "t \<noteq> []"
  shows "\<exists>c1 t1. UInt_Rcl 1 c t = Inr (c1, t1) \<and> length t1 = length t \<and> uval t1 = (2 * uval t + carry_val c) mod 2 ^ (64 * length t) \<and>
    unat c1 = uval t div 2 ^ (64 * length t - 1) mod 2"
proof -
  obtain r where "UInt_Rcl 1 c t = Inr r" "shl_spec 1 c t r" using Rcl_shl [OF assms] by blast
  moreover have "1 \<le> 64 * length t" using assms by (cases t) simp_all
  ultimately show ?thesis by (cases r) (simp add: shl_spec_def ones_def mult.commute)
qed

text \<open>Rotating the register: the next bit of the dividend comes out, the carry goes in.\<close>

lemma div1_rotate:
  assumes "div1_reg T V (Suc k) c t"
  shows "\<exists>c1 t1. UInt_Rcl 1 c t = Inr (c1, t1) \<and> length t1 = length t \<and> unat c1 = T div 2 ^ k mod 2 \<and>
    uval t1 = (T mod 2 ^ k) * 2 ^ (64 * length t - k) + T div 2 ^ Suc k div V"
proof -
  let ?K = "64 * length t" and ?Q = "T div 2 ^ Suc k div V" and ?b = "T div 2 ^ k mod 2" and ?cb = "carry_val c"
  note r = assms [unfolded div1_reg_def]
  let ?X = "(T mod 2 ^ k) * 2 ^ (?K - k) + ?Q"
  have K: "?K - k = Suc (?K - Suc k)" "(2 :: nat) ^ ?K = 2 * 2 ^ (?K - 1)" "(2::nat) ^ k * 2 ^ (?K - k) = 2 ^ ?K"
  proof -
    have k: "Suc k \<le> ?K" using r by blast
    then show "?K - k = Suc (?K - Suc k)" by simp
    obtain j where j: "?K = Suc j" using k by (metis Suc_le_D)
    show "(2 :: nat) ^ ?K = 2 * 2 ^ (?K - 1)" by (simp only: j power_Suc diff_Suc_1)
    show "(2::nat) ^ k * 2 ^ (?K - k) = 2 ^ ?K" using k by (simp flip: power_add)
  qed
  have m: "T mod 2 ^ Suc k = T mod 2 ^ k + 2 ^ k * ?b" using mod_mult2_eq [of T "2 ^ k" 2] by (simp add: mult.commute add.commute)
  have "2 * uval t + ?cb = (T mod 2 ^ Suc k) * 2 ^ (?K - k) + (2 * (?Q div 2) + ?Q mod 2)"
    using r K(1) by (simp add: algebra_simps)
  also have "\<dots> = (T mod 2 ^ k + 2 ^ k * ?b) * 2 ^ (?K - k) + ?Q" by (simp only: m mult_div_mod_eq)
  also have "\<dots> = ?X + (2 ^ k * 2 ^ (?K - k)) * ?b" by (simp add: algebra_simps)
  finally have e: "2 * uval t + ?cb = ?X + 2 ^ ?K * ?b" unfolding K(3) .
  have "?Q \<le> T div 2 ^ Suc k" by (rule div_le_dividend)
  also have "\<dots> \<le> T div 2 ^ k" by (rule div_le_mono2) simp_all
  also have "\<dots> < 2 ^ (?K - k)"
    using r K(3) by (simp add: less_mult_imp_div_less mult.commute)
  finally have "?X < (T mod 2 ^ k + 1) * 2 ^ (?K - k)" by simp
  also have "\<dots> \<le> 2 ^ k * 2 ^ (?K - k)" by (intro mult_le_mono1) (simp add: Suc_leI)
  finally have X: "?X < 2 ^ ?K" unfolding K(3) .
  obtain c1 t1 where s: "UInt_Rcl 1 c t = Inr (c1, t1)" "length t1 = length t" "uval t1 = (2 * uval t + ?cb) mod 2 ^ ?K"
      "unat c1 = uval t div 2 ^ (?K - 1) mod 2"
    using Rcl1_val [of t c] r by blast
  have "uval t div 2 ^ (?K - 1) = (2 * uval t + ?cb) div (2 * 2 ^ (?K - 1))" by (simp add: div_mult2_eq)
  also have "\<dots> = ?b" unfolding e K(2) [symmetric] using X by simp
  finally have "unat c1 = ?b" using s(4) by simp
  moreover have "uval t1 = ?X" using s(3) X unfolding e by simp
  ultimately show ?thesis using s(1,2) by blast
qed

text \<open>The end of a step: the register with the new quotient bit in the carry.\<close>

lemma div1_reg_step:
  assumes r: "div1_reg T V (Suc k) c t" and t1: "length t1 = length t" "uval t1 = (T mod 2 ^ k) * 2 ^ (64 * length t - k) + T div 2 ^ Suc k div V"
    and q: "T div 2 ^ k div V = 2 * (T div 2 ^ Suc k div V) + carry_val c1"
  shows "div1_reg T V k c1 t1"
proof -
  have "t1 \<noteq> []" "k \<le> 64 * length t1" "T < 2 ^ (64 * length t1)" using r t1(1) by (auto simp: div1_reg_def)
  then show ?thesis using t1 q by (simp add: div1_reg_def)
qed

lemma div1_last:
  assumes "div1_reg T V 0 c t"
  shows "\<exists>c1 t1. UInt_Rcl 1 c t = Inr (c1, t1) \<and> length t1 = length t \<and> uval t1 = T div V"
proof -
  have t: "t \<noteq> []" "T < 2 ^ (64 * length t)" "uval t = T div V div 2" "carry_val c = T div V mod 2"
    using assms by (simp_all add: div1_reg_def)
  obtain c1 t1 where s: "UInt_Rcl 1 c t = Inr (c1, t1)" "length t1 = length t" "uval t1 = (2 * uval t + carry_val c) mod 2 ^ (64 * length t)"
    using Rcl1_val [OF t(1), of c] by blast
  have "2 * uval t + carry_val c = T div V" unfolding t(3,4) by (rule mult_div_mod_eq)
  moreover have "T div V < 2 ^ (64 * length t)" using t(2) by (meson div_le_dividend le_less_trans)
  ultimately show ?thesis using s by simp
qed

definition div1_done :: "nat \<Rightarrow> nat \<Rightarrow> nat \<Rightarrow> (table \<times> table) res \<Rightarrow> bool" where
  "div1_done n T V res \<longleftrightarrow> (\<exists>q r. res = Inr (q, r) \<and> length q = n \<and> length r = n \<and> uval q = T div V \<and> uval r = T mod V)"

lemma carry_of_bit: "unat c = x mod 2 \<Longrightarrow> carry_val c = x mod 2"
proof -
  assume c: "unat c = x mod 2"
  show ?thesis
  proof (cases "c = 0")
    case False
    then have "unat c \<noteq> 0" by (metis unat_eq_zero)
    then have "x mod 2 = 1" using c by (cases "x mod 2 = 0") simp_all
    then show ?thesis using False by simp
  qed (use c in simp)
qed

lemma add_val:
  assumes "length s = length t" and "t \<noteq> []"
  shows "\<exists>c' r. UInt_Add t s c = (c', r) \<and> length r = length t \<and> uval r + 2 ^ (64 * length t) * carry_val c' = uval t + uval s + carry_val c"
  using add_words_exact [of t s c] assms by (cases "UInt_Add t s c") (auto simp: UInt_Add_def exact_sum_def)

lemma sub_val:
  assumes "length s = length t" and "t \<noteq> []"
  shows "\<exists>c' r. UInt_Sub t s c = (c', r) \<and> length r = length t \<and> uval r + uval s + carry_val c = uval t + 2 ^ (64 * length t) * carry_val c'"
  using sub_words_exact [of t s c] assms by (cases "UInt_Sub t s c") (auto simp: UInt_Sub_def exact_diff_def)

text \<open>
  The state after \<open>k\<close> bits are left, before \<open>div_b\<close> (with a carry) or \<open>div_d\<close> (without): the rest of the prefix, or
  the same less the divisor, modulo the range.
\<close>

definition div1_after :: "nat \<Rightarrow> nat \<Rightarrow> nat \<Rightarrow> nat \<Rightarrow> uint \<Rightarrow> table \<Rightarrow> table \<Rightarrow> bool" where
  "div1_after n T V k c t rest \<longleftrightarrow> div1_reg T V k c t \<and> length t = n \<and> length rest = n \<and>
     (if c \<noteq> 0 then uval rest = T div 2 ^ k mod V else uval rest + V = 2 ^ (64 * n) + T div 2 ^ k mod V)"

abbreviation after_label :: "uint \<Rightarrow> div1_label" where
  "after_label c \<equiv> (if c \<noteq> 0 then Div_b else Div_d)"

lemma div1_step_a:
  assumes d: "length divisor = n" "n \<noteq> 0" "uval divisor = V" "0 < V" "2 * V \<le> 2 ^ (64 * n)"
    and r: "div1_reg T V (Suc k) c t" "length t = n" "length rest = n" "uval rest = T div 2 ^ Suc k mod V"
  shows "\<exists>c1 t1 rest1. div1_run Div_a (Suc k) c divisor t rest = div1_run (after_label c1) (Suc k) c1 divisor t1 rest1 \<and>
    div1_after n T V k c1 t1 rest1"
proof -
  let ?b = "T div 2 ^ k mod 2" and ?s = "2 * (T div 2 ^ Suc k mod V) + T div 2 ^ k mod 2"
  obtain cb t1 where t1: "UInt_Rcl 1 c t = Inr (cb, t1)" "length t1 = length t" "unat cb = ?b"
      "uval t1 = (T mod 2 ^ k) * 2 ^ (64 * length t - k) + T div 2 ^ Suc k div V"
    using div1_rotate [OF r(1)] by blast
  have cb: "carry_val cb = ?b" using t1(3) by (rule carry_of_bit)
  note h = half_step [OF d(4) _ next_bit [of T k]]
  have ne: "rest \<noteq> []" using r(3) d(2) by auto
  have lt: "?s < 2 * V" by (rule h(1)) simp
  obtain c2 r1 where a: "UInt_Add rest rest cb = (c2, r1)" "length r1 = n" "uval r1 + 2 ^ (64 * n) * carry_val c2 = ?s"
    using add_val [OF refl ne, of cb] r(3,4) cb by auto
  have c2: "c2 = 0" "uval r1 = ?s" using a(3) lt d(5) by (cases "c2 = 0"; simp)+
  obtain c3 r2 where b: "UInt_Sub r1 divisor c2 = (c3, r2)" "length r2 = n" "uval r2 + V = ?s + 2 ^ (64 * n) * carry_val c3"
    using sub_val [of divisor r1 c2] a(2) d(1-3) c2 by fastforce
  let ?c = "if c3 = 0 then 1 else 0 :: uint"
  have run: "div1_run Div_a (Suc k) c divisor t rest = div1_run (after_label ?c) (Suc k) ?c divisor t1 r2"
    using t1(1) a(1) b(1) by (subst div1_run.simps) simp
  have "uval r2 < 2 ^ (64 * n)" using uval_less [of r2] b(2) by simp
  then have c3: "c3 = 0 \<longleftrightarrow> V \<le> ?s" using b(3) lt d(5) by (cases "c3 = 0") auto
  have "div1_reg T V k ?c t1"
    using h(2,3) c3 by (intro div1_reg_step [OF r(1) t1(2,4)]) (cases "V \<le> ?s"; simp)
  moreover have "if ?c \<noteq> 0 then uval r2 = T div 2 ^ k mod V else uval r2 + V = 2 ^ (64 * n) + T div 2 ^ k mod V"
    using h(2,3) c3 b(3) by (cases "V \<le> ?s") simp_all
  ultimately have "div1_after n T V k ?c t1 r2" using t1(2) r(2) b(2) by (simp add: div1_after_def)
  with run show ?thesis by blast
qed

lemma div1_step_c:
  assumes d: "length divisor = n" "n \<noteq> 0" "uval divisor = V" "0 < V" "2 * V \<le> 2 ^ (64 * n)"
    and r: "div1_reg T V (Suc k) c t" "length t = n" "length rest = n" "uval rest + V = 2 ^ (64 * n) + T div 2 ^ Suc k mod V"
  shows "\<exists>c1 t1 rest1. div1_run Div_c (Suc k) c divisor t rest = div1_run (after_label c1) (Suc k) c1 divisor t1 rest1 \<and>
    div1_after n T V k c1 t1 rest1"
proof -
  let ?M = "(2 :: nat) ^ (64 * n)"
  let ?b = "T div 2 ^ k mod 2" and ?s = "2 * (T div 2 ^ Suc k mod V) + T div 2 ^ k mod 2"
  obtain cb t1 where t1: "UInt_Rcl 1 c t = Inr (cb, t1)" "length t1 = length t" "unat cb = ?b"
      "uval t1 = (T mod 2 ^ k) * 2 ^ (64 * length t - k) + T div 2 ^ Suc k div V"
    using div1_rotate [OF r(1)] by blast
  have cb: "carry_val cb = ?b" using t1(3) by (rule carry_of_bit)
  note h = half_step [OF d(4) _ next_bit [of T k]]
  have ne: "rest \<noteq> []" using r(3) d(2) by auto
  have lt: "?s < 2 * V" by (rule h(1)) simp
  obtain c2 r1 where a: "UInt_Add rest rest cb = (c2, r1)" "length r1 = n" "uval r1 + ?M * carry_val c2 = 2 * uval rest + ?b"
    using add_val [OF refl ne, of cb] r(3) cb by auto
  have "2 * uval rest + ?b + 2 * V = 2 * ?M + ?s" using r(4) by simp
  moreover have "uval r1 < ?M" using uval_less [of r1] a(2) by simp
  ultimately have r1: "uval r1 + 2 * V = ?M + ?s" using a(3) lt d(5) by (cases "c2 = 0") simp_all
  obtain c3 r2 where b: "UInt_Add r1 divisor 0 = (c3, r2)" "length r2 = n" "uval r2 + ?M * carry_val c3 = uval r1 + V"
    using add_val [of divisor r1 0] a(2) d(1-3) by fastforce
  have run: "div1_run Div_c (Suc k) c divisor t rest = div1_run (after_label c3) (Suc k) c3 divisor t1 r2"
    using t1(1) a(1) b(1) by (subst div1_run.simps) simp
  have e: "uval r2 + ?M * carry_val c3 + V = ?M + ?s" using b(3) r1 by simp
  have "uval r2 < ?M" using uval_less [of r2] b(2) by simp
  then have c3: "c3 \<noteq> 0 \<longleftrightarrow> V \<le> ?s" using e by (cases "c3 = 0") simp_all
  have "div1_reg T V k c3 t1"
    using h(2,3) c3 by (intro div1_reg_step [OF r(1) t1(2,4)]) (cases "V \<le> ?s"; simp)
  moreover have "if c3 \<noteq> 0 then uval r2 = T div 2 ^ k mod V else uval r2 + V = ?M + T div 2 ^ k mod V"
    using h(2,3) c3 e by (cases "V \<le> ?s") simp_all
  ultimately have "div1_after n T V k c3 t1 r2" using t1(2) r(2) b(2) by (simp add: div1_after_def)
  with run show ?thesis by blast
qed

lemma div1_runs:
  assumes d: "length divisor = n" "n \<noteq> 0" "uval divisor = V" "0 < V" "2 * V \<le> 2 ^ (64 * n)"
  shows "div1_after n T V k c t rest \<Longrightarrow> div1_done n T V (div1_run (after_label c) (Suc k) c divisor t rest)"
proof (induction k arbitrary: c t rest)
  case 0
  note f = 0 [unfolded div1_after_def]
  have reg: "div1_reg T V 0 c t" "length t = n" "length rest = n" using f by simp_all
  obtain c1 t1 where t1: "UInt_Rcl 1 c t = Inr (c1, t1)" "length t1 = n" "uval t1 = T div V"
    using div1_last [OF reg(1)] reg(2) by auto
  show ?case
  proof (cases "c = 0")
    case True
    then have e: "uval rest + V = 2 ^ (64 * n) + T mod V" using f by simp
    have ne: "rest \<noteq> []" using reg(3) d(2) by auto
    obtain c2 r where r: "UInt_Add rest divisor 0 = (c2, r)" "length r = n" "uval r + 2 ^ (64 * n) * carry_val c2 = 2 ^ (64 * n) + T mod V"
      using add_val [of divisor rest 0] ne reg(3) d(1,3) e by auto
    have "uval r < 2 ^ (64 * n)" using uval_less [of r] r(2) by simp
    moreover have "T mod V < 2 ^ (64 * n)" using mod_less_divisor [OF d(4), of T] d(5) by simp
    ultimately have "uval r = T mod V" using r(3) by (cases "c2 = 0") simp_all
    then have "div1_done n T V (div1_run Div_d (Suc 0) c divisor t rest)"
      using t1 r(1,2) by (subst div1_run.simps) (simp add: div1_done_def)
    then show ?thesis using True by simp
  next
    case False
    have "div1_done n T V (div1_run Div_b (Suc 0) c divisor t rest)"
      using False t1 f by (subst div1_run.simps) (simp add: div1_done_def)
    then show ?thesis using False by simp
  qed
next
  case (Suc k)
  note f = Suc.prems [unfolded div1_after_def]
  have "\<exists>c1 t1 rest1. div1_run (after_label c) (Suc (Suc k)) c divisor t rest = div1_run (after_label c1) (Suc k) c1 divisor t1 rest1 \<and>
      div1_after n T V k c1 t1 rest1"
  proof (cases "c = 0")
    case True
    have "div1_run Div_d (Suc (Suc k)) c divisor t rest = div1_run Div_c (Suc k) c divisor t rest"
      by (subst div1_run.simps) simp
    then show ?thesis using True div1_step_c [OF d, of T k c t rest] f by simp
  next
    case False
    have "div1_run Div_b (Suc (Suc k)) c divisor t rest = div1_run Div_a (Suc k) c divisor t rest"
      by (subst div1_run.simps) simp
    then show ?thesis using False div1_step_a [OF d, of T k c t rest] f by simp
  qed
  then show ?case using Suc.IH by auto
qed

lemma Div1_Calculate_val:
  assumes "length v = length t" and "t \<noteq> []" and "0 < uval v" and "2 * uval v \<le> 2 ^ (64 * length t)"
  shows "div1_done (length t) (uval t) (uval v) (Div1_CalculateRef t v)"
proof -
  obtain k where k: "64 * length t = Suc k" using assms(2) by (metis Suc_pred length_greater_0_conv mult_pos_pos zero_less_numeral)
  have z: "uval t div 2 ^ (64 * length t) = 0" using uval_less [of t] by simp
  have reg: "div1_reg (uval t) (uval v) (Suc k) 0 t"
    unfolding k [symmetric] div1_reg_def using assms(2) uval_less [of t] by (simp add: z)
  obtain c1 t1 r1 where "Div1_CalculateRef t v = div1_run (after_label c1) (Suc k) c1 v t1 r1"
      "div1_after (length t) (uval t) (uval v) k c1 t1 r1"
    using div1_step_a [OF assms(1) _ refl assms(3,4) reg, of "SetZero t"] assms(2) k z
    by (auto simp: Div1_CalculateRef_def mult.commute simp del: mult_Suc_right)
  then show ?thesis using div1_runs [OF assms(1) _ refl assms(3,4)] assms(2) by simp
qed

lemma Div1_val:
  assumes l: "length v = length t" "t \<noteq> []" and rem: "pred_option (\<lambda>r. length r = length t) rem" and V: "0 < uval v"
    and half: "2 * uval v \<le> 2 ^ (64 * length t)"
  shows "\<exists>q r. Div1 t v rem = Inr (0, q, map_option (\<lambda>_. r) rem) \<and> length q = length t \<and> length r = length t \<and>
    uval q = uval t div uval v \<and> uval r = uval t mod uval v"
proof -
  obtain test m n t1 rem1 where st: "Div_StandardTest t v rem = (test, m, n, t1, rem1)" by (metis prod_cases5)
  from StandardTest_val [OF l rem V, unfolded st prod.case] show ?thesis
  proof (elim disjE conjE exE)
    fix r
    assume "test = 0" "rem1 = map_option (\<lambda>_. r) rem" "length t1 = length t" "length r = length t" "uval t1 = uval t div uval v" "uval r = uval t mod uval v"
    then show ?thesis using st by (auto simp: Div1_def)
  next
    assume "test = 2" "t1 = t" "rem1 = rem"
    then show ?thesis using st Div1_Calculate_val [OF l V half] by (auto simp: Div1_def div1_done_def)
  qed
qed

lemma Div1_wrong:
  "Div1 [9223372036854775811] [9223372036854775810] (Some [0]) = Inr (0, [6917529027641081855], Some [2305843009213693957])"
  by code_simp

section \<open>Div2\<close>

text \<open>The returned value, the table and the remainder.\<close>

definition Div2_DivisorGreaterOrEqual ::
  "table \<Rightarrow> table \<Rightarrow> table option \<Rightarrow> nat \<Rightarrow> nat \<Rightarrow> nat \<Rightarrow> bool \<times> table \<times> table option" where
  "Div2_DivisorGreaterOrEqual t divisor remainder table_id index divisor_index =
     (if divisor_index > index then (True, SetZero t, map_option (\<lambda>_. t) remainder)
      else if divisor_index = index then
        (let i = diff_id table_id t divisor
         in if t ! i < divisor ! i then (True, SetZero t, map_option (\<lambda>_. t) remainder)
            else if t ! i = divisor ! i then (True, SetOne t, map_option SetZero remainder)
            else (False, t, remainder))
      else (False, t, remainder))"

text \<open>The returned value, the table, the remainder, \<open>table_id\<close>, \<open>index\<close> and \<open>divisor_index\<close>.\<close>

definition Div2_FindLeadingBitsAndCheck ::
  "table \<Rightarrow> table \<Rightarrow> table option \<Rightarrow> (nat \<times> table \<times> table option \<times> nat \<times> nat \<times> nat) res" where
  "Div2_FindLeadingBitsAndCheck t divisor remainder =
     (case FindLeadingBit divisor of (vfound, divisor_table_id, divisor_index) \<Rightarrow>
        if \<not> vfound then Inr (1, t, remainder, 0, 0, divisor_index)
        else case FindLeadingBit t of (found, table_id, index) \<Rightarrow>
          if \<not> found then Inr (0, SetZero t, map_option SetZero remainder, table_id, index, divisor_index)
          else
            (let divisor_index1 = divisor_index + divisor_table_id * TTMATH_BITS_PER_UINT;
                 index1 = index + table_id * TTMATH_BITS_PER_UINT
             in if divisor_table_id = 0 then
                  andThen (DivInt (divisor ! 0) t) (\<lambda>(_, r, t1).
                    Inr (0, t1, map_option (\<lambda>rem. (SetZero rem)[0 := r]) remainder, table_id, index1, divisor_index1))
                else (case Div2_DivisorGreaterOrEqual t divisor remainder table_id index1 divisor_index1 of (ge, t1, rem1) \<Rightarrow>
                        Inr (if ge then 0 else 2, t1, rem1, table_id, index1, divisor_index1))))"

text \<open>The returned value, the table, the remainder and \<open>bits_diff\<close>.\<close>

definition Div2_Calculate :: "table \<Rightarrow> table \<Rightarrow> table option \<Rightarrow> (nat \<times> table \<times> table option \<times> nat) res" where
  "Div2_Calculate t divisor remainder =
     andThen (Div2_FindLeadingBitsAndCheck t divisor remainder) (\<lambda>(status, t1, rem1, table_id, index, divisor_index).
       if status < 2 then Inr (status, t1, rem1, 0)
       else
         (let bits_diff = index - divisor_index
          in andThen (UInt_Rcl bits_diff 0 divisor) (\<lambda>(_, divisor_copy).
             if CmpSmaller t1 divisor_copy (int table_id)
             then andThen (UInt_Rcr 1 0 divisor_copy) (\<lambda>(_, divisor_copy1).
                    Inr (2, snd (UInt_Sub t1 divisor_copy1 0), rem1, bits_diff - 1))
             else Inr (2, snd (UInt_Sub t1 divisor_copy 0), rem1, bits_diff))))"

section \<open>Correctness of Div2\<close>

definition div_exact :: "table \<Rightarrow> table \<Rightarrow> table option \<Rightarrow> table \<Rightarrow> table option \<Rightarrow> bool" where
  "div_exact t v rem q rem1 \<longleftrightarrow> length q = length t \<and> uval q = uval t div uval v \<and>
     (\<exists>r. rem1 = map_option (\<lambda>_. r) rem \<and> length r = length t \<and> uval r = uval t mod uval v)"

lemma rem_zero: "pred_option (\<lambda>r. length r = length t) rem \<Longrightarrow> map_option SetZero rem = map_option (\<lambda>_. SetZero t) rem"
  by (cases rem) (auto dest: SetZero_length)

lemma div_exact_zero:
  assumes "t \<noteq> []" and "pred_option (\<lambda>r. length r = length t) rem" and "uval t = 0"
  shows "div_exact t v rem (SetZero t) (map_option SetZero rem)"
  unfolding div_exact_def using assms by (intro conjI exI [of _ "SetZero t"]) (simp_all add: rem_zero)

lemma div_exact_small: "uval t < uval v \<Longrightarrow> div_exact t v rem (SetZero t) (map_option (\<lambda>_. t) rem)"
  unfolding div_exact_def by auto

lemma div_exact_one:
  assumes "t \<noteq> []" and "pred_option (\<lambda>r. length r = length t) rem" and "uval t = uval v" and "0 < uval v"
  shows "div_exact t v rem (SetOne t) (map_option SetZero rem)"
  unfolding div_exact_def using assms SetOne_val [OF assms(1)]
  by (intro conjI exI [of _ "SetZero t"]) (simp_all add: rem_zero)

lemma FindLeadingBit_found:
  assumes "t \<noteq> []" and "0 < uval t"
  shows "\<exists>i < 64. FindLeadingBit t = (True, lead_id (length t - 1) t, i) \<and>
    2 ^ (i + lead_id (length t - 1) t * 64) \<le> uval t \<and> uval t < 2 ^ Suc (i + lead_id (length t - 1) t * 64)"
proof -
  obtain f w i where e: "FindLeadingBit t = (f, w, i)" by (metis prod_cases3)
  have b: "f" "2 ^ (64 * w + i) \<le> uval t" "uval t < 2 ^ (64 * w + i + 1)"
    using FindLeadingBit_val [OF assms(1)] e assms(2) by (simp_all split: if_splits)
  have w: "w = lead_id (length t - 1) t" using e by (auto simp: FindLeadingBit_def Let_def split: if_splits)
  have "uval t < 2 ^ (64 * Suc w)"
    using lead_id_zeros(4) [OF assms(1)] w by (metis uval_take mod_less_divisor zero_less_power zero_less_numeral)
  then have "(2::nat) ^ (64 * w + i) < 2 ^ (64 * Suc w)" using b(2) by (rule order.strict_trans1 [rotated])
  then have "64 * w + i < 64 * Suc w" by (rule power_less_imp_less_exp [rotated]) simp
  then show ?thesis using e b w by (intro exI [of _ i]) (simp add: add.commute mult.commute)
qed

lemma FindLeadingBit_none: "t \<noteq> [] \<Longrightarrow> uval t = 0 \<Longrightarrow> \<exists>w i. FindLeadingBit t = (False, w, i)"
  using FindLeadingBit_val [of t] by (cases "FindLeadingBit t") simp

text \<open>The indices of the leading bits of dividend and divisor.\<close>

definition lead_bits :: "table \<Rightarrow> table \<Rightarrow> nat \<Rightarrow> nat \<Rightarrow> nat \<Rightarrow> bool" where
  "lead_bits t v w ix vix \<longleftrightarrow> w = lead_id (length t - 1) t \<and> 2 ^ ix \<le> uval t \<and> uval t < 2 ^ Suc ix \<and>
     2 ^ vix \<le> uval v \<and> uval v < 2 ^ Suc vix \<and> ix div 64 = w \<and> vix div 64 = lead_id (length v - 1) v"

lemma DivisorGreaterOrEqual_val:
  assumes l: "length v = length t" "t \<noteq> []" and rem: "pred_option (\<lambda>r. length r = length t) rem" and b: "lead_bits t v w ix vix"
  shows "case Div2_DivisorGreaterOrEqual t v rem w ix vix of (ge, t1, rem1) \<Rightarrow>
    if ge then div_exact t v rem t1 rem1 else t1 = t \<and> rem1 = rem \<and> uval v < uval t \<and> vix \<le> ix"
proof -
  note b = b [unfolded lead_bits_def]
  have vne: "v \<noteq> []" using l by auto
  consider (gt) "ix < vix" | (eq) "vix = ix" | (lt) "vix < ix" by linarith
  then show ?thesis
  proof cases
    case gt
    then have "(2::nat) ^ Suc ix \<le> 2 ^ vix" by (intro power_increasing) simp_all
    then have "uval t < uval v" using b by linarith
    then show ?thesis using gt by (simp add: Div2_DivisorGreaterOrEqual_def div_exact_small)
  next
    case lt
    then have "(2::nat) ^ Suc vix \<le> 2 ^ ix" by (intro power_increasing) simp_all
    then have "uval v < uval t" using b by linarith
    then show ?thesis using lt by (simp add: Div2_DivisorGreaterOrEqual_def)
  next
    case eq
    then have w: "lead_id (length t - 1) t = w" "lead_id (length v - 1) v = w" using b by auto
    have c: "(t ! diff_id w t v < v ! diff_id w t v \<longleftrightarrow> uval t < uval v) \<and> (t ! diff_id w t v = v ! diff_id w t v \<longleftrightarrow> uval t = uval v)"
      using diff_id_cmp [of w t v] lead_id_zeros(1,4) [OF l(2), unfolded w] lead_id_zeros(1,4) [OF vne, unfolded w] by simp
    have "0 < uval v" using b by (metis gr0I not_less zero_less_numeral zero_less_power)
    then show ?thesis using eq c div_exact_one [OF l(2) rem] by (auto simp: Div2_DivisorGreaterOrEqual_def Let_def div_exact_small)
  qed
qed

lemma FindLeadingBitsAndCheck_val:
  assumes l: "length v = length t" "t \<noteq> []" and rem: "pred_option (\<lambda>r. length r = length t) rem" and V: "0 < uval v"
  shows "\<exists>st t1 rem1 w ix vix. Div2_FindLeadingBitsAndCheck t v rem = Inr (st, t1, rem1, w, ix, vix) \<and>
    (st = 0 \<and> div_exact t v rem t1 rem1 \<or>
     st = 2 \<and> t1 = t \<and> rem1 = rem \<and> uval v < uval t \<and> vix \<le> ix \<and> lead_bits t v w ix vix)"
proof -
  have vne: "v \<noteq> []" using l by auto
  let ?id = "lead_id (length t - 1) t" and ?vid = "lead_id (length v - 1) v"
  obtain j where j: "j < 64" "FindLeadingBit v = (True, ?vid, j)" "2 ^ (j + ?vid * 64) \<le> uval v" "uval v < 2 ^ Suc (j + ?vid * 64)"
    using FindLeadingBit_found [OF vne V] by blast
  show ?thesis
  proof (cases "uval t = 0")
    case True
    then show ?thesis
      using FindLeadingBit_none [OF l(2)] j(2) div_exact_zero [OF l(2) rem] by (auto simp: Div2_FindLeadingBitsAndCheck_def)
  next
    case False
    then obtain i where i: "i < 64" "FindLeadingBit t = (True, ?id, i)" "2 ^ (i + ?id * 64) \<le> uval t" "uval t < 2 ^ Suc (i + ?id * 64)"
      using FindLeadingBit_found [OF l(2)] by blast
    let ?ix = "i + ?id * 64" and ?vix = "j + ?vid * 64"
    have lb: "lead_bits t v ?id ?ix ?vix" unfolding lead_bits_def using i j by simp
    show ?thesis
    proof (cases "?vid = 0")
      case True
      have v0: "uval v = unat (v ! 0)" using lead_id_zeros(4) [OF vne] True uval_take_Suc [of 0 v] vne by simp
      then have "v ! 0 \<noteq> 0" using V by auto
      then obtain r t' where d: "DivInt (v ! 0) t = Inr (0, r, t')" "length t' = length t" "uval t' = uval t div uval v" "unat r = uval t mod uval v"
        using DivInt_val [OF l(2), of "v ! 0"] v0 by auto
      let ?r = "(SetZero t)[0 := r]"
      have "map_option (\<lambda>rem. (SetZero rem)[0 := r]) rem = map_option (\<lambda>_. ?r) rem"
        using rem by (cases rem) (auto dest: SetZero_length)
      moreover have "uval ?r = unat r" "length ?r = length t" using l(2) by (cases t; simp add: SetZero_def)+
      ultimately have "div_exact t v rem t' (map_option (\<lambda>rem. (SetZero rem)[0 := r]) rem)"
        unfolding div_exact_def using d by metis
      then show ?thesis using True i(2) j(2) d(1) by (simp add: Div2_FindLeadingBitsAndCheck_def)
    next
      case False
      obtain ge t1 rem1 where g: "Div2_DivisorGreaterOrEqual t v rem ?id ?ix ?vix = (ge, t1, rem1)" by (metis prod_cases3)
      note DivisorGreaterOrEqual_val [OF l rem lb, unfolded g prod.case]
      then show ?thesis using False i(2) j(2) g lb by (cases ge) (simp_all add: Div2_FindLeadingBitsAndCheck_def)
    qed
  qed
qed

lemma CmpSmaller_lead:
  assumes "length l = length t" and "w < length t" and "uval (take (Suc w) t) = uval t" and "uval (take (Suc w) l) = uval l"
  shows "CmpSmaller t l (int w) \<longleftrightarrow> uval t < uval l"
proof -
  have "cmp_start (int w) t = Suc w" using assms(2) by (auto simp: cmp_start_def)
  then show ?thesis using cmp_loop_less [of "Suc w" t l False] assms by (simp add: CmpSmaller_def)
qed

lemma Rcr1_val:
  assumes "t \<noteq> []"
  shows "\<exists>c t'. UInt_Rcr 1 0 t = Inr (c, t') \<and> length t' = length t \<and> uval t' = uval t div 2"
  using Rcr_shr [OF assms, of 1 0] by (auto simp: shr_spec_def ones_def)

lemma sub_exact:
  assumes "length s = length t" and "t \<noteq> []" and "uval s \<le> uval t"
  shows "length (snd (UInt_Sub t s 0)) = length t" "uval (snd (UInt_Sub t s 0)) = uval t - uval s"
proof -
  obtain c r where r: "UInt_Sub t s 0 = (c, r)" "length r = length t" "uval r + uval s = uval t + 2 ^ (64 * length t) * carry_val c"
    using UInt_Sub_val [OF assms(1,2)] by blast
  have "uval r < 2 ^ (64 * length t)" using uval_less [of r] r(2) by simp
  then have "c = 0" using r(3) assms(3) by (cases "c = 0") simp_all
  then show "length (snd (UInt_Sub t s 0)) = length t" "uval (snd (UInt_Sub t s 0)) = uval t - uval s" using r by simp_all
qed

text \<open>One round takes away the divisor shifted as far to the left as it fits.\<close>

definition div2_round :: "table \<Rightarrow> table \<Rightarrow> nat \<Rightarrow> table \<Rightarrow> bool" where
  "div2_round t v k t1 \<longleftrightarrow> length t1 = length t \<and> k < 64 * length t \<and> uval t = uval v * 2 ^ k + uval t1 \<and> uval t1 < uval v * 2 ^ k"

lemma Div2_Calculate_val:
  assumes l: "length v = length t" "t \<noteq> []" and rem: "pred_option (\<lambda>r. length r = length t) rem" and V: "0 < uval v"
  shows "\<exists>st t1 rem1 k. Div2_Calculate t v rem = Inr (st, t1, rem1, k) \<and>
    (st = 0 \<and> div_exact t v rem t1 rem1 \<or> st = 2 \<and> rem1 = rem \<and> div2_round t v k t1)"
proof -
  have vne: "v \<noteq> []" using l by auto
  obtain st t1 rem1 w ix vix where c: "Div2_FindLeadingBitsAndCheck t v rem = Inr (st, t1, rem1, w, ix, vix)"
      "st = 0 \<and> div_exact t v rem t1 rem1 \<or>
       st = 2 \<and> t1 = t \<and> rem1 = rem \<and> uval v < uval t \<and> vix \<le> ix \<and> lead_bits t v w ix vix"
    using FindLeadingBitsAndCheck_val [OF l rem V] by blast
  from c(2) show ?thesis
  proof (elim disjE conjE)
    assume "st = 0" "div_exact t v rem t1 rem1"
    then show ?thesis using c(1) by (simp add: Div2_Calculate_def)
  next
    assume two: "st = 2" "t1 = t" "rem1 = rem" "uval v < uval t" "vix \<le> ix" "lead_bits t v w ix vix"
    note b = two(6) [unfolded lead_bits_def]
    let ?k = "ix - vix" and ?M = "(2 :: nat) ^ (64 * length t)"
    let ?S = "uval v * 2 ^ ?k"
    have "2 ^ vix * 2 ^ ?k \<le> ?S" "?S < 2 ^ Suc vix * 2 ^ ?k" using b by (simp_all only: mult_le_mono1 mult_less_mono1 zero_less_power zero_less_numeral)
    moreover have e: "(2::nat) ^ vix * 2 ^ ?k = 2 ^ ix" using two(5) by (simp flip: power_add)
    moreover have "(2::nat) ^ Suc vix * 2 ^ ?k = 2 ^ Suc ix" by (simp only: power_Suc mult.assoc e)
    ultimately have S: "2 ^ ix \<le> ?S" "?S < 2 ^ Suc ix" by (simp_all only:)
    note tz = lead_id_zeros [OF l(2)]
    have w: "w < length t" "uval (take (Suc w) t) = uval t" "ix < 64 * Suc w" using b tz(1,4) by (simp_all, linarith)
    have "(2::nat) ^ Suc ix \<le> 2 ^ (64 * Suc w)" using w(3) by (intro power_increasing) simp_all
    then have Sw: "?S < 2 ^ (64 * Suc w)" using S(2) by (rule less_le_trans [rotated])
    also have "\<dots> \<le> ?M" using w(1) by (intro power_increasing) simp_all
    finally have SM: "?S < ?M" .
    obtain cc dc where dc: "UInt_Rcl ?k 0 v = Inr (cc, dc)" "length dc = length t" "uval dc = ?S"
      using Rcl_val [OF vne, of ?k] l(1) SM by auto
    have cmp: "CmpSmaller t dc (int w) \<longleftrightarrow> uval t < ?S"
      using CmpSmaller_lead [OF dc(2) w(1,2)] dc(3) Sw by (simp only: uval_take mod_less)
    have "64 * Suc w \<le> 64 * length t" using w(1) by (intro mult_le_mono2) simp
    then have "ix < 64 * length t" using w(3) by (rule less_le_trans [rotated])
    then have kk: "?k < 64 * length t" by linarith
    show ?thesis
    proof (cases "uval t < ?S")
      case False
      have "uval t < 2 * ?S" using S(1) b by (simp only: power_Suc) linarith
      then have "div2_round t v ?k (snd (UInt_Sub t dc 0))"
        unfolding div2_round_def using sub_exact [OF dc(2) l(2)] dc(3) False kk by simp
      then show ?thesis using c(1) two dc(1) cmp False by (simp add: Div2_Calculate_def Let_def)
    next
      case True
      have "?k \<noteq> 0" using True two(4) by (cases "?k = 0") simp_all
      then obtain j where j: "?k = Suc j" by (cases ?k) auto
      obtain c2 d2 where d2: "UInt_Rcr 1 0 dc = Inr (c2, d2)" "length d2 = length t" "uval d2 = uval v * 2 ^ j"
        using Rcr1_val [of dc] dc(2,3) l(2) j by fastforce
      have h: "?S = 2 * (uval v * 2 ^ j)" by (simp add: j)
      then have le: "uval d2 \<le> uval t" using d2(3) S(2) b by (simp only: power_Suc) linarith
      have "div2_round t v j (snd (UInt_Sub t d2 0))"
        unfolding div2_round_def using sub_exact [OF d2(2) l(2) le] d2(3) le True h kk j by simp
      then show ?thesis using c(1) two dc(1) d2(1) cmp True j by (simp add: Div2_Calculate_def Let_def)
    qed
  qed
qed

text \<open>
  \<open>Div2Ref\<close>: the quotient bit of the round is set in the quotient of what is left. The three tables have the one
  size of the class template.
\<close>

function Div2Ref :: "table \<Rightarrow> table \<Rightarrow> table option \<Rightarrow> (nat \<times> table \<times> table option) res" where
  "Div2Ref t divisor remainder =
     (if length divisor \<noteq> length t \<or> t = [] \<or> \<not> pred_option (\<lambda>r. length r = length t) remainder then Inl Undefined_Behaviour
      else andThen (Div2_Calculate t divisor remainder) (\<lambda>(status, t1, rem1, bits_diff).
        if status < 2 then Inr (status, t1, rem1)
        else if CmpBiggerEqual t1 divisor (- 1)
        then andThen (Div2Ref t1 divisor rem1) (\<lambda>(_, t2, rem2).
               andThen (SetBit bits_diff t2) (\<lambda>(_, t3). Inr (0, t3, rem2)))
        else andThen (SetBit bits_diff (SetZero t1)) (\<lambda>(_, t3). Inr (0, t3, map_option (\<lambda>_. t1) rem1))))"
  by pat_completeness auto

lemma Div2_Calculate_zero:
  assumes "v \<noteq> []" and "uval v = 0"
  shows "Div2_Calculate t v rem = Inr (1, t, rem, 0)"
  using FindLeadingBit_none [OF assms] by (auto simp: Div2_Calculate_def Div2_FindLeadingBitsAndCheck_def)

lemma Div2_Calculate_less:
  assumes "length v = length t" and "t \<noteq> []" and "pred_option (\<lambda>r. length r = length t) rem"
    and "Div2_Calculate t v rem = Inr (st, t1, rem1, k)" and "\<not> st < 2"
  shows "uval t1 < uval t"
proof -
  have "v \<noteq> []" using assms(1,2) by auto
  then have "0 < uval v" using Div2_Calculate_zero [of v t rem] assms(4,5) by (cases "uval v = 0") auto
  then show ?thesis using Div2_Calculate_val [OF assms(1-3)] assms(4,5) by (auto simp: div2_round_def)
qed

termination Div2Ref
  by (relation "measure (\<lambda>(t, _). uval t)") (auto dest: Div2_Calculate_less)

declare Div2Ref.simps [simp del]

definition Div2 :: "table \<Rightarrow> table \<Rightarrow> table option \<Rightarrow> (nat \<times> table \<times> table option) res" where
  "Div2 t divisor remainder = Div2Ref t divisor remainder"

lemma CmpBiggerEqual_whole: "length t = length l \<Longrightarrow> CmpBiggerEqual t l (- 1) \<longleftrightarrow> uval l \<le> uval t"
  using cmp_loop_less [of "length t" l t True] by (auto simp: CmpBiggerEqual_def cmp_start_def cmp_loop_swap)

lemma set_quotient_bit:
  assumes "k < 64 * length q" and "uval q < 2 ^ k"
  shows "\<exists>c q'. SetBit k q = Inr (c, q') \<and> length q' = length q \<and> uval q' = uval q + 2 ^ k"
  using SetBit_val [OF assms(1)] assms(2) by auto

text \<open>A round and the quotient of what it leaves give the quotient.\<close>

lemma div2_round_exact:
  assumes r: "div2_round t v k t1" and V: "0 < uval v" and q: "div_exact t1 v rem q rem1"
  shows "\<exists>c q'. SetBit k q = Inr (c, q') \<and> div_exact t v rem q' rem1"
proof -
  note r = r [unfolded div2_round_def] and q = q [unfolded div_exact_def]
  have "uval q < 2 ^ k" using r q by (simp add: less_mult_imp_div_less mult.commute)
  then obtain c q' where s: "SetBit k q = Inr (c, q')" "length q' = length q" "uval q' = uval q + 2 ^ k"
    using set_quotient_bit [of k q] r q by auto
  have t: "uval t = uval t1 + uval v * 2 ^ k" using r by simp
  have "uval t div uval v = uval t1 div uval v + 2 ^ k" "uval t mod uval v = uval t1 mod uval v"
    unfolding t using V by simp_all
  then have "div_exact t v rem q' rem1" unfolding div_exact_def using r q s(2,3) by simp
  with s(1) show ?thesis by blast
qed

lemma Div2_val:
  assumes "length v = length t" and "t \<noteq> []" and "pred_option (\<lambda>r. length r = length t) rem" and V: "0 < uval v"
  shows "\<exists>q rem1. Div2Ref t v rem = Inr (0, q, rem1) \<and> div_exact t v rem q rem1"
  using assms(1-3)
proof (induction "uval t" arbitrary: t rule: less_induct)
  case less
  obtain st t1 rem1 k where c: "Div2_Calculate t v rem = Inr (st, t1, rem1, k)"
      "st = 0 \<and> div_exact t v rem t1 rem1 \<or> st = 2 \<and> rem1 = rem \<and> div2_round t v k t1"
    using Div2_Calculate_val [OF less.prems V] by blast
  have g: "\<not> (length v \<noteq> length t \<or> t = [] \<or> \<not> pred_option (\<lambda>r. length r = length t) rem)" using less.prems by simp
  from c(2) show ?case
  proof (elim disjE conjE)
    assume "st = 0" "div_exact t v rem t1 rem1"
    then show ?thesis using c(1) g by (subst Div2Ref.simps) simp
  next
    assume two: "st = 2" "rem1 = rem" "div2_round t v k t1"
    have l: "length t1 = length t" "uval t1 < uval t" using two(3) V by (auto simp: div2_round_def)
    show ?thesis
    proof (cases "uval v \<le> uval t1")
      case True
      have "t1 \<noteq> []" using l(1) less.prems(2) by auto
      then obtain q rem2 where q: "Div2Ref t1 v rem = Inr (0, q, rem2)" "div_exact t1 v rem q rem2"
        using less.hyps [OF l(2)] less.prems l(1) by auto
      from div2_round_exact [OF two(3) V q(2)] show ?thesis
        using c(1) two(1,2) True g q(1) l(1) less.prems(1) by (subst Div2Ref.simps) (auto simp: CmpBiggerEqual_whole)
    next
      case False
      then have "div_exact t1 v rem (SetZero t1) (map_option (\<lambda>_. t1) rem)" by (intro div_exact_small) simp
      from div2_round_exact [OF two(3) V this] show ?thesis
        using c(1) two(1,2) False g l(1) less.prems(1) by (subst Div2Ref.simps) (auto simp: CmpBiggerEqual_whole)
    qed
  qed
qed

section \<open>Division\<close>

definition UInt_Div :: "table \<Rightarrow> table \<Rightarrow> table option \<Rightarrow> nat \<Rightarrow> (nat \<times> table \<times> table option) res" where
  "UInt_Div t divisor remainder algorithm =
     (if algorithm = 1 then Div1 t divisor remainder
      else if algorithm = 2 then Div2 t divisor remainder
      else Div3 t divisor remainder)"

lemma StandardTest_zero:
  assumes "length v = length t" and "t \<noteq> []" and "uval v = 0"
  shows "\<exists>m n. Div_StandardTest t v rem = (1, m, n, t, rem)"
proof -
  obtain code m n where c: "Div_CalculatingSize t v = (code, m, n)" by (metis prod_cases3)
  then have "code = 1" using CalculatingSize_val [OF assms(1,2)] assms(3) by simp
  then show ?thesis using c by (simp add: Div_StandardTest_def)
qed

lemma UInt_Div_zero:
  assumes "length v = length t" and "t \<noteq> []" and "pred_option (\<lambda>r. length r = length t) rem" and "uval v = 0"
  shows "UInt_Div t v rem algorithm = Inr (1, t, rem)"
proof -
  have "v \<noteq> []" using assms(1,2) by auto
  then have "Div2Ref t v rem = Inr (1, t, rem)"
    using Div2_Calculate_zero assms by (subst Div2Ref.simps) simp
  then show ?thesis
    using StandardTest_zero [OF assms(1,2,4), of rem] by (auto simp: UInt_Div_def Div1_def Div2_def Div3_def Div3Ref_def)
qed

lemma UInt_Div_val:
  assumes "length v = length t" and "t \<noteq> []" and "pred_option (\<lambda>r. length r = length t) rem" and "0 < uval v"
    and "algorithm = 1 \<longrightarrow> 2 * uval v \<le> 2 ^ (64 * length t)"
  shows "\<exists>q rem1. UInt_Div t v rem algorithm = Inr (0, q, rem1) \<and> div_exact t v rem q rem1"
  using assms(5) Div1_val [OF assms(1-4)] Div2_val [OF assms(1-4)] Div3_val [OF assms(1-4)]
  unfolding UInt_Div_def Div2_def div_exact_def by (cases "algorithm = 1"; cases "algorithm = 2") auto

text \<open>
  C35. Whichever algorithm \<open>UInt::Div\<close> is asked for, a zero divisor gives 1 and leaves the operands, and any other
  divisor the quotient and the remainder. For \<open>Div1\<close> this needs a divisor of at most half the range: \<open>rest\<close>
  loses its top bit when it is doubled, and above that a quotient is wrong, as the last conjunct shows on one word.
\<close>

theorem division_algorithms:
  assumes "length v = length t" and "t \<noteq> []" and "pred_option (\<lambda>r. length r = length t) rem"
  shows "(if uval v = 0 then UInt_Div t v rem algorithm = Inr (1, t, rem)
      else algorithm \<noteq> 1 \<or> 2 * uval v \<le> 2 ^ (64 * length t) \<longrightarrow>
        (\<exists>q r. UInt_Div t v rem algorithm = Inr (0, q, map_option (\<lambda>_. r) rem) \<and> length q = length t \<and> length r = length t \<and>
          uval q = uval t div uval v \<and> uval r = uval t mod uval v)) \<and>
    UInt_Div [9223372036854775811] [9223372036854775810] (Some [0]) 1 =
      Inr (0, [6917529027641081855], Some [2305843009213693957])"
proof -
  have "UInt_Div [9223372036854775811] [9223372036854775810] (Some [0]) 1 =
      Inr (0, [6917529027641081855], Some [2305843009213693957])"
    by (simp add: UInt_Div_def Div1_wrong)
  then show ?thesis
    using UInt_Div_zero [OF assms] UInt_Div_val [OF assms, of algorithm] unfolding div_exact_def
    by (cases "uval v = 0") auto
qed

theorem division_algorithms_witness:
  "\<exists>q r. UInt_Div [0, 0, 5] [3, 7, 0] (Some [1, 1, 1]) 2 = Inr (0, q, Some r) \<and>
     uval q = uval [0, 0, 5] div uval [3, 7, 0] \<and> uval r = uval [0, 0, 5] mod uval [3, 7, 0]"
  using division_algorithms [of "[3, 7, 0]" "[0, 0, 5]" "Some [1, 1, 1]" 2] by auto

end
