(* ===== verification/TtmathPow.thy ===== *)
theory TtmathPow
  imports TtmathMul TtmathDivAll
begin

text \<open>
  Powers, square roots and clearing of low bits of \<^verbatim>\<open>ttmathuint.h\<close>. The operators \<open>>\<close> and \<open>>=\<close> compare whole numbers.
\<close>

section \<open>Operations\<close>

text \<open>The loop of \<open>Pow\<close>: \<open>pow\<close> is halved in each round, so it ends.\<close>

lemma Rcr2_one_val: "t \<noteq> [] \<Longrightarrow> \<exists>c t'. UInt_Rcr2_one 0 t = (c, t') \<and> length t' = length t \<and> uval t' = uval t div 2"
  using Rcr2_one_shr [of t 0] by (cases "UInt_Rcr2_one 0 t") (simp add: shr_spec_def ones_def)

lemma IsZero_val: "IsZero t \<longleftrightarrow> uval t = 0"
  by (simp add: IsZero_def uval_eq_0)

function pow_loop :: "table \<Rightarrow> table \<Rightarrow> table \<Rightarrow> (uint \<times> table) res" where
  "pow_loop pow start result =
     (if pow = [] then Inl Undefined_Behaviour
      else andThen (if pow ! 0 AND 1 \<noteq> 0 then UInt_Mul result start 100 else Inr (0, result)) (\<lambda>(c, result1).
        case UInt_Rcr2_one 0 pow of (_, pow1) \<Rightarrow>
          if IsZero pow1 then Inr (c, result1)
          else andThen (UInt_Mul start start 100) (\<lambda>(c1, start1).
            if c + c1 = 0 then pow_loop pow1 start1 result1 else Inr (c + c1, result1))))"
  by pat_completeness auto

termination pow_loop
proof (relation "measure (\<lambda>(pow, _). uval pow)")
  fix pow start result :: table and x xa y a pow1 xb xc ya
  assume "pow \<noteq> []" "(a, pow1) = UInt_Rcr2_one 0 pow" "\<not> IsZero pow1"
  then show "((pow1, ya, y), pow, start, result) \<in> measure (\<lambda>(pow, _). uval pow)"
    using Rcr2_one_val [of pow] by (auto simp: IsZero_val)
qed simp

declare pow_loop.simps [simp del]

text \<open>The returned value and the number.\<close>

definition UInt_Pow :: "table \<Rightarrow> table \<Rightarrow> (nat \<times> table) res" where
  "UInt_Pow t pow =
     (if IsZero pow \<and> IsZero t then Inr (2, t)
      else andThen (pow_loop pow t (SetOne t)) (\<lambda>(c, result). Inr (if c = 0 then 0 else 1, result)))"

text \<open>
  The two loops of \<open>Sqrt\<close>, the first one ending because \<open>v\<close> is not zero, both because \<open>bt\<close> is divided by four.
\<close>

lemma Rcr_val:
  assumes "t \<noteq> []"
  shows "\<exists>c t'. UInt_Rcr k 0 t = Inr (c, t') \<and> length t' = length t \<and> uval t' = uval t div 2 ^ k"
  using Rcr_shr [OF assms, of k 0] by (auto simp: shr_spec_def ones_def)

lemma Rcr_less: "t \<noteq> [] \<Longrightarrow> UInt_Rcr 2 0 t = Inr (c, t') \<Longrightarrow> uval t \<noteq> 0 \<Longrightarrow> uval t' < uval t"
  using Rcr_val [of t 2] by auto

function sqrt_start :: "table \<Rightarrow> table \<Rightarrow> table res" where
  "sqrt_start bt v =
     (if length v \<noteq> length bt \<or> bt = [] then Inl Undefined_Behaviour
      else if CmpBigger bt v (- 1) then andThen (UInt_Rcr 2 0 bt) (\<lambda>(_, bt1). sqrt_start bt1 v)
      else Inr bt)"
  by pat_completeness auto

termination sqrt_start
  by (relation "measure (\<lambda>(bt, _). uval bt)") (auto simp: CmpBigger_whole intro!: Rcr_less)

function sqrt_loop :: "table \<Rightarrow> table \<Rightarrow> table \<Rightarrow> table res" where
  "sqrt_loop bt v t =
     (if bt = [] then Inl Undefined_Behaviour
      else if IsZero bt then Inr t
      else
        (let temp = snd (UInt_Add t bt 0)
         in andThen (UInt_Rcr 1 0 t) (\<lambda>(_, t1).
            andThen (UInt_Rcr 2 0 bt) (\<lambda>(_, bt1).
              if CmpBiggerEqual v temp (- 1)
              then sqrt_loop bt1 (snd (UInt_Sub v temp 0)) (snd (UInt_Add t1 bt 0))
              else sqrt_loop bt1 v t1))))"
  by pat_completeness auto

termination sqrt_loop
  by (relation "measure (\<lambda>(bt, _). uval bt)") (auto simp: IsZero_val intro!: Rcr_less)

declare sqrt_start.simps [simp del] sqrt_loop.simps [simp del]

definition UInt_Sqrt :: "table \<Rightarrow> table res" where
  "UInt_Sqrt t =
     (if IsZero t then Inr t
      else andThen (sqrt_start ((SetZero t)[length t - 1 := drop_bit 1 TTMATH_UINT_HIGHEST_BIT]) t) (\<lambda>bt.
        sqrt_loop bt t (SetZero t)))"

text \<open>\<open>ClearFirstBits\<close>; the loop clears whole words.\<close>

fun clear_words :: "nat \<Rightarrow> table \<Rightarrow> table" where
  "clear_words n [] = []"
| "clear_words n (w # ws) =
     (if TTMATH_BITS_PER_UINT \<le> n then 0 # clear_words (n - TTMATH_BITS_PER_UINT) ws
      else if n = 0 then w # ws
      else (w AND push_bit n TTMATH_UINT_MAX_VALUE) # ws)"

definition ClearFirstBits :: "nat \<Rightarrow> table \<Rightarrow> table" where
  "ClearFirstBits n t = (if length t * TTMATH_BITS_PER_UINT \<le> n then SetZero t else clear_words n t)"

section \<open>Powers\<close>

lemma low_bit_odd: "t \<noteq> [] \<Longrightarrow> t ! 0 AND 1 \<noteq> 0 \<longleftrightarrow> odd (uval t)"
proof -
  assume "t \<noteq> []"
  then obtain w ws where t: "t = w # ws" by (cases t) auto
  have "w AND 1 \<noteq> 0 \<longleftrightarrow> unat (w AND 1) \<noteq> 0" by (metis unat_eq_zero)
  then show ?thesis unfolding t by (simp add: word_and_one odd_iff_mod_2_eq_one)
qed

lemma Mul_carry:
  assumes "length s = length t" and "t \<noteq> []"
  shows "\<exists>c r. UInt_Mul t s 100 = Inr (c, r) \<and> length r = length t \<and>
    (if uval t * uval s < 2 ^ (64 * length t) then c = 0 \<and> uval r = uval t * uval s else c = 1)"
proof -
  obtain c r where "UInt_Mul t s 100 = Inr (c, r)" "product_fits (length t) (uval t * uval s) (c, r)"
    using UInt_Mul_val [OF assms, of 100] by auto
  then show ?thesis unfolding product_fits_def by auto
qed

text \<open>What the loop promises for \<open>r * s^p\<close>.\<close>

definition pow_spec :: "nat \<Rightarrow> nat \<Rightarrow> (uint \<times> table) res \<Rightarrow> bool" where
  "pow_spec n v res \<longleftrightarrow> (\<exists>c r. res = Inr (c, r) \<and> length r = n \<and>
     (if v < 2 ^ (64 * n) then c = 0 \<and> uval r = v else c \<noteq> 0))"

lemma pow_loop_val:
  assumes "length start = length pow" and "length result = length pow" and "pow \<noteq> []"
    and "0 < uval result \<or> uval start = 0"
  shows "pow_spec (length pow) (uval result * uval start ^ uval pow) (pow_loop pow start result)"
  using assms
proof (induction "uval pow" arbitrary: pow start result rule: less_induct)
  case less
  let ?n = "length pow" and ?R = "uval result" and ?S = "uval start" and ?P = "uval pow"
  let ?M = "(2 :: nat) ^ (64 * ?n)"
  obtain c r where r: "(if pow ! 0 AND 1 \<noteq> 0 then UInt_Mul result start 100 else Inr (0, result)) = Inr (c, r)" "length r = ?n"
      "if ?R * ?S ^ (?P mod 2) < ?M then c = 0 \<and> uval r = ?R * ?S ^ (?P mod 2) else c = 1"
  proof (cases "odd ?P")
    case True
    have "result \<noteq> []" using less.prems by auto
    then show thesis using Mul_carry [of start result] less.prems True that low_bit_odd [of pow] by (auto simp: odd_iff_mod_2_eq_one)
  next
    case False
    then show thesis using that [of 0 result] less.prems low_bit_odd [of pow] uval_less [of result] by (auto simp: even_iff_mod_2_eq_zero)
  qed
  obtain b pow1 where p: "UInt_Rcr2_one 0 pow = (b, pow1)" "length pow1 = ?n" "uval pow1 = ?P div 2"
    using Rcr2_one_val [OF less.prems(3)] by blast
  obtain c1 s1 where s: "UInt_Mul start start 100 = Inr (c1, s1)" "length s1 = ?n"
      "if ?S * ?S < ?M then c1 = 0 \<and> uval s1 = ?S * ?S else c1 = 1"
    using Mul_carry [of start start] less.prems by fastforce
  have run: "pow_loop pow start result = (if ?P div 2 = 0 then Inr (c, r) else if c + c1 = 0 then pow_loop pow1 s1 r else Inr (c + c1, r))"
    using less.prems(3) r(1) p s(1) by (subst pow_loop.simps) (simp add: IsZero_val)
  have split: "?S ^ ?P = ?S ^ (?P mod 2) * (?S * ?S) ^ (?P div 2)"
    by (simp only: power2_eq_square [symmetric] power_mult [symmetric] power_add [symmetric] mod_mult_div_eq)
  show ?case
  proof (cases "?P div 2 = 0")
    case True
    then show ?thesis unfolding run split pow_spec_def using r by auto
  next
    case False
    let ?V = "?R * ?S ^ (?P mod 2) * (?S * ?S) ^ (?P div 2)"
    have V: "?R * ?S ^ ?P = ?V" unfolding split by (simp only: mult.assoc)
    show ?thesis
    proof (cases "c = 0 \<and> c1 = 0")
      case True
      then have v: "uval r = ?R * ?S ^ (?P mod 2)" "uval s1 = ?S * ?S" using r(3) s(3) by (simp_all split: if_splits)
      have "pow_spec (length pow1) (uval r * uval s1 ^ uval pow1) (pow_loop pow1 s1 r)"
        using less.hyps [of pow1 s1 r] p r(2) s(2) less.prems False v by fastforce
      then show ?thesis unfolding run V using True False v p by simp
    next
      case ov: False
      have pos: "0 < ?S"
        using ov r(3) s(3) uval_less [of result] less.prems(2) by (cases "?S = 0"; cases "?P mod 2 = 0") (auto split: if_splits)
      then have R: "0 < ?R" using less.prems(4) by simp
      have "?M \<le> ?V"
      proof (cases "c = 0")
        case True
        then have "?M \<le> ?S * ?S" using ov s(3) by (simp split: if_splits)
        also have "\<dots> \<le> (?S * ?S) ^ (?P div 2)" using False pos by (intro self_le_power) simp_all
        also have "\<dots> \<le> ?V" using R pos by simp
        finally show ?thesis .
      next
        case c: False
        then have "?M \<le> ?R * ?S ^ (?P mod 2)" using r(3) by (simp split: if_splits)
        also have "\<dots> \<le> ?V" using pos by simp
        finally show ?thesis .
      qed
      moreover have "c + c1 \<noteq> 0" using ov r(3) s(3) by (auto split: if_splits)
      ultimately show ?thesis unfolding run V pow_spec_def using False r(2) by simp
    qed
  qed
qed

lemma UInt_Pow_val:
  assumes "length pow = length t" and "t \<noteq> []"
  shows "if uval pow = 0 \<and> uval t = 0 then UInt_Pow t pow = Inr (2, t)
    else \<exists>st r. UInt_Pow t pow = Inr (st, r) \<and> length r = length t \<and>
      (if uval t ^ uval pow < 2 ^ (64 * length t) then st = 0 \<and> uval r = uval t ^ uval pow else st = 1)"
proof (cases "uval pow = 0 \<and> uval t = 0")
  case True
  then show ?thesis by (simp add: UInt_Pow_def IsZero_val)
next
  case False
  have "pow \<noteq> []" using assms by auto
  then have "pow_spec (length t) (uval t ^ uval pow) (pow_loop pow t (SetOne t))"
    using pow_loop_val [of t pow "SetOne t"] SetOne_val [OF assms(2)] assms by auto
  then obtain c r where "pow_loop pow t (SetOne t) = Inr (c, r)" "length r = length t"
      "if uval t ^ uval pow < 2 ^ (64 * length t) then c = 0 \<and> uval r = uval t ^ uval pow else c \<noteq> 0"
    unfolding pow_spec_def by blast
  then have "UInt_Pow t pow = Inr (if uval t ^ uval pow < 2 ^ (64 * length t) then 0 else 1, r)"
    using False by (auto simp: UInt_Pow_def IsZero_val split: if_splits)
  then show ?thesis using False \<open>length r = length t\<close>
      \<open>if uval t ^ uval pow < 2 ^ (64 * length t) then c = 0 \<and> uval r = uval t ^ uval pow else c \<noteq> 0\<close> by simp
qed

section \<open>Square roots\<close>

lemma sqrt_start_val:
  assumes "length v = length bt" and "bt \<noteq> []" and "uval bt = 4 ^ k" and "0 < uval v" and "uval v < 4 ^ Suc k"
  shows "\<exists>r k'. sqrt_start bt v = Inr r \<and> length r = length bt \<and> k' \<le> k \<and> uval r = 4 ^ k' \<and> uval v < 4 ^ Suc k'"
  using assms
proof (induction k arbitrary: bt)
  case 0
  then show ?case by (subst sqrt_start.simps) (auto simp: CmpBigger_whole intro!: exI [of _ "0 :: nat"])
next
  case (Suc k)
  show ?case
  proof (cases "uval v < uval bt")
    case True
    obtain c bt1 where b: "UInt_Rcr 2 0 bt = Inr (c, bt1)" "length bt1 = length bt" "uval bt1 = 4 ^ k"
      using Rcr_val [OF Suc.prems(2), of 2] Suc.prems(3) by auto
    have "bt1 \<noteq> []" using b(2) Suc.prems(2) by auto
    then obtain r k' where "sqrt_start bt1 v = Inr r" "length r = length bt" "k' \<le> k" "uval r = 4 ^ k'" "uval v < 4 ^ Suc k'"
      using Suc.IH [of bt1] Suc.prems b True by auto
    moreover have "sqrt_start bt v = sqrt_start bt1 v"
      using Suc.prems(1,2) True b(1) by (subst sqrt_start.simps) (simp add: CmpBigger_whole)
    ultimately show ?thesis by (metis le_SucI)
  next
    case False
    then have "sqrt_start bt v = Inr bt" using Suc.prems by (subst sqrt_start.simps) (simp add: CmpBigger_whole)
    then show ?thesis using Suc.prems by blast
  qed
qed

text \<open>
  With \<open>j\<close> binary digits of the root to come and \<open>a\<close> the digits found: the register holds \<open>a * 4^j\<close>, \<open>v\<close> what the
  square of the root so far leaves of the number \<open>N\<close>, \<open>bt\<close> the square of the next digit.
\<close>

definition sqrt_inv :: "nat \<Rightarrow> nat \<Rightarrow> nat \<Rightarrow> nat \<Rightarrow> table \<Rightarrow> table \<Rightarrow> table \<Rightarrow> bool" where
  "sqrt_inv n N j a bt v t \<longleftrightarrow> length bt = n \<and> length v = n \<and> length t = n \<and> n \<noteq> 0 \<and> j \<le> 32 * n \<and> N < 2 ^ (64 * n) \<and>
     uval bt = 4 ^ j div 4 \<and> uval t = a * 4 ^ j \<and> uval v + (a * 2 ^ j)\<^sup>2 = N \<and> N < ((a + 1) * 2 ^ j)\<^sup>2"

lemma four_pow: "(4 :: nat) ^ k = (2 ^ k)\<^sup>2"
  by (simp add: power2_eq_square flip: power_mult_distrib)

lemma sqrt_room:
  assumes "sqrt_inv n N (Suc k) a bt v t"
  shows "(4 * a + 1) * 4 ^ k < (2 :: nat) ^ (64 * n)"
proof -
  note i = assms [unfolded sqrt_inv_def]
  have sk: "Suc k \<le> 32 * n" using i by simp
  have "(a * 2 ^ Suc k)\<^sup>2 < (2 ^ (32 * n))\<^sup>2" using i by (simp add: power_mult [symmetric])
  then have "a * 2 ^ Suc k < 2 ^ (32 * n)" by (rule power_less_imp_less_base) simp
  also have "(2 :: nat) ^ (32 * n) = 2 ^ (32 * n - Suc k) * 2 ^ Suc k" by (simp only: power_add [symmetric] le_add_diff_inverse2 [OF sk])
  finally have "a + 1 \<le> 2 ^ (32 * n - Suc k)" by simp
  then have "(a + 1) * 4 ^ Suc k \<le> 2 ^ (32 * n - Suc k) * 4 ^ Suc k" by (rule mult_le_mono1)
  also have "\<dots> = 2 ^ (32 * n - Suc k) * 2 ^ (2 * Suc k)" by (simp only: power_mult) simp
  also have "\<dots> = 2 ^ (32 * n + Suc k)"
  proof -
    have "32 * n - Suc k + 2 * Suc k = 32 * n + Suc k" using sk by simp
    then show ?thesis by (simp only: power_add [symmetric])
  qed
  also have "\<dots> \<le> 2 ^ (64 * n)" using i by (intro power_increasing) simp_all
  finally have "(4 * a + 4) * 4 ^ k \<le> (2 :: nat) ^ (64 * n)" by (simp add: algebra_simps)
  moreover have "(4 * a + 1) * 4 ^ k < (4 * a + 4) * (4 :: nat) ^ k" by (rule mult_strict_right_mono) simp_all
  ultimately show ?thesis by (rule less_le_trans [rotated])
qed

lemma add_exact:
  assumes "length s = length t" and "t \<noteq> []" and "uval t + uval s < 2 ^ (64 * length t)"
  shows "length (snd (UInt_Add t s 0)) = length t" "uval (snd (UInt_Add t s 0)) = uval t + uval s"
proof -
  obtain c r where "UInt_Add t s 0 = (c, r)" "length r = length t" "uval r + 2 ^ (64 * length t) * carry_val c = uval t + uval s"
    using UInt_Add_val [OF assms(1,2)] by blast
  then show "length (snd (UInt_Add t s 0)) = length t" "uval (snd (UInt_Add t s 0)) = uval t + uval s"
    using assms(3) by (auto split: if_splits)
qed

lemma sqrt_step:
  assumes "sqrt_inv n N (Suc k) a bt v t"
  shows "\<exists>a' bt' v' t'. sqrt_loop bt v t = sqrt_loop bt' v' t' \<and> sqrt_inv n N k a' bt' v' t'"
proof -
  note i = assms [unfolded sqrt_inv_def]
  have ne: "bt \<noteq> []" "t \<noteq> []" "v \<noteq> []" using i by auto
  have b: "uval bt = 4 ^ k" "uval t = 4 * a * 4 ^ k" using i by simp_all
  have room: "(4 * a + 1) * 4 ^ k < (2 :: nat) ^ (64 * n)" by (rule sqrt_room [OF assms])
  let ?temp = "snd (UInt_Add t bt 0)"
  have temp: "length ?temp = n" "uval ?temp = (4 * a + 1) * 4 ^ k"
    using add_exact [of bt t] i ne b room by (simp_all add: algebra_simps)
  obtain c1 t1 where t1: "UInt_Rcr 1 0 t = Inr (c1, t1)" "length t1 = n" "uval t1 = 2 * a * 4 ^ k"
    using Rcr_val [OF ne(2), of 1] i b(2) by auto
  obtain c2 bt1 where bt1: "UInt_Rcr 2 0 bt = Inr (c2, bt1)" "length bt1 = n" "uval bt1 = 4 ^ k div 4"
    using Rcr_val [OF ne(1), of 2] i b(1) by auto
  have sq: "((2 * a + 1) * 2 ^ k)\<^sup>2 = (a * 2 ^ Suc k)\<^sup>2 + (4 * a + 1) * 4 ^ k"
    unfolding four_pow by (simp add: power2_eq_square algebra_simps)
  have e: "2 * a * 2 ^ k = a * 2 ^ Suc k" "(2 * a + 1 + 1) * 2 ^ k = (a + 1) * 2 ^ Suc k" by simp_all
  have run: "sqrt_loop bt v t = (if CmpBiggerEqual v ?temp (- 1)
      then sqrt_loop bt1 (snd (UInt_Sub v ?temp 0)) (snd (UInt_Add t1 bt 0)) else sqrt_loop bt1 v t1)"
    using ne(1) b(1) t1(1) bt1(1) by (subst sqrt_loop.simps) (simp add: IsZero_val)
  have cmp: "CmpBiggerEqual v ?temp (- 1) \<longleftrightarrow> uval ?temp \<le> uval v" using CmpBiggerEqual_whole [of v ?temp] i temp by simp
  show ?thesis
  proof (cases "uval ?temp \<le> uval v")
    case True
    let ?v = "snd (UInt_Sub v ?temp 0)" and ?t = "snd (UInt_Add t1 bt 0)"
    have vv: "length ?v = n" "uval ?v = uval v - (4 * a + 1) * 4 ^ k" using sub_exact [of ?temp v] True temp i ne by simp_all
    have ne1: "t1 \<noteq> []" using t1(2) i by auto
    have "uval t1 + uval bt < 2 ^ (64 * n)" using room t1(3) b(1) by (simp add: algebra_simps)
    then have t: "length ?t = n" "uval ?t = (2 * a + 1) * 4 ^ k" using add_exact [of bt t1] t1 i ne1 b by (simp_all add: algebra_simps)
    have "sqrt_inv n N k (2 * a + 1) bt1 ?v ?t"
      unfolding sqrt_inv_def sq e(2) using i vv t bt1(2,3) True temp(2) by auto
    then show ?thesis unfolding run cmp using True by auto
  next
    case False
    then have "N < ((2 * a + 1) * 2 ^ k)\<^sup>2" unfolding sq temp(2) using i by linarith
    then have "sqrt_inv n N k (2 * a) bt1 v t1" unfolding sqrt_inv_def e(1) using i t1(2,3) bt1(2,3) by simp
    then show ?thesis unfolding run cmp using False by auto
  qed
qed

lemma sqrt_loop_val:
  "sqrt_inv n N j a bt v t \<Longrightarrow>
   \<exists>r. sqrt_loop bt v t = Inr r \<and> length r = n \<and> (uval r)\<^sup>2 \<le> N \<and> N < (uval r + 1)\<^sup>2"
proof (induction j arbitrary: a bt v t)
  case 0
  note i = 0 [unfolded sqrt_inv_def]
  have "sqrt_loop bt v t = Inr t" using i by (subst sqrt_loop.simps) (auto simp: IsZero_val)
  moreover have "(uval t)\<^sup>2 \<le> N" using i by auto
  ultimately show ?case using i by simp
next
  case (Suc k)
  from sqrt_step [OF Suc.prems] show ?case using Suc.IH by metis
qed

lemma UInt_Sqrt_val:
  assumes "t \<noteq> []"
  shows "\<exists>r. UInt_Sqrt t = Inr r \<and> length r = length t \<and> (uval r)\<^sup>2 \<le> uval t \<and> uval t < (uval r + 1)\<^sup>2"
proof (cases "uval t = 0")
  case True
  then show ?thesis by (simp add: UInt_Sqrt_def IsZero_val)
next
  case False
  let ?n = "length t" and ?bt = "(SetZero t)[length t - 1 := drop_bit 1 TTMATH_UINT_HIGHEST_BIT]"
  have n: "0 < ?n" using assms by simp
  have z: "(SetZero t) ! (?n - 1) = 0" using n by (simp add: SetZero_def)
  have d: "unat (drop_bit 1 TTMATH_UINT_HIGHEST_BIT) = 2 ^ 62" by (simp add: unat_drop_bit64 TTMATH_UINT_HIGHEST_BIT_def)
  have "uval ?bt = 2 ^ (64 * (?n - 1)) * 2 ^ 62"
    using uval_update [of "?n - 1" "SetZero t" "drop_bit 1 TTMATH_UINT_HIGHEST_BIT"] n z d by simp
  also have "\<dots> = 2 ^ (2 * (32 * ?n - 1))" 
  proof -
    have "64 * (?n - 1) + 62 = 2 * (32 * ?n - 1)" using n by (cases ?n) simp_all
    then show ?thesis by (simp only: power_add [symmetric])
  qed
  finally have bt: "uval ?bt = 4 ^ (32 * ?n - 1)" by (simp add: power_mult)
  have "uval t < 2 ^ (2 * (32 * ?n))" using uval_less [of t] by simp
  then have lt: "uval t < 4 ^ Suc (32 * ?n - 1)" using n by (simp add: power_mult)
  have "length ?bt = ?n" "?bt \<noteq> []" using assms by simp_all
  then obtain bt k where s: "sqrt_start ?bt t = Inr bt" "length bt = ?n" "k \<le> 32 * ?n - 1" "uval bt = 4 ^ k" "uval t < 4 ^ Suc k"
    using sqrt_start_val [of t ?bt, OF _ _ bt _ lt] False by auto
  have "Suc k \<le> 32 * ?n" using s(3) n by linarith
  then have "sqrt_inv ?n (uval t) (Suc k) 0 bt t (SetZero t)"
    unfolding sqrt_inv_def using s(2-4) n uval_less [of t] s(5) [unfolded four_pow] by simp
  from sqrt_loop_val [OF this] show ?thesis using False s(1) by (simp add: UInt_Sqrt_def IsZero_val)
qed

section \<open>Clearing bits\<close>

lemma unat_mask_low:
  assumes "n < 64"
  shows "unat (w AND push_bit n TTMATH_UINT_MAX_VALUE) = unat w div 2 ^ n * 2 ^ n"
proof -
  have m: "TTMATH_UINT_MAX_VALUE = - 1" by (simp add: TTMATH_UINT_MAX_VALUE_def)
  have "w AND push_bit n TTMATH_UINT_MAX_VALUE = push_bit n (drop_bit n w)"
    unfolding m by (rule bit_word_eqI) (auto simp: bit_simps)
  moreover have "unat w div 2 ^ n * 2 ^ n < 18446744073709551616"
    using unat_bound [of w] by (meson div_times_less_eq_dividend le_less_trans)
  ultimately show ?thesis by (simp add: unat_push_bit64 unat_drop_bit64)
qed

lemma clear_words_val: "length (clear_words n t) = length t \<and> uval (clear_words n t) = uval t div 2 ^ n * 2 ^ n"
proof (induction n t rule: clear_words.induct)
  case (2 n w ws)
  have p: "(2 :: nat) ^ n = 18446744073709551616 * 2 ^ (n - 64)" if "64 \<le> n"
    using that power_add [of "2 :: nat" 64 "n - 64"] by simp
  consider (word) "64 \<le> n" | (none) "n = 0" | (part) "0 < n" "n < 64" by linarith
  then show ?case
  proof cases
    case word
    have "(unat w + 18446744073709551616 * uval ws) div 18446744073709551616 = uval ws" using unat_bound [of w] by simp
    then have "uval (w # ws) div 2 ^ n * 2 ^ n = 18446744073709551616 * (uval ws div 2 ^ (n - 64) * 2 ^ (n - 64))"
      unfolding p [OF word] div_mult2_eq by (simp add: mult_ac)
    then show ?thesis using 2 word by simp
  next
    case none
    then show ?thesis by simp
  next
    case part
    have "(18446744073709551616 :: nat) = 2 ^ n * 2 ^ (64 - n)" using part by (simp flip: power_add)
    then have "(unat w + 18446744073709551616 * uval ws) div 2 ^ n = unat w div 2 ^ n + 2 ^ (64 - n) * uval ws"
      by (simp only: mult.assoc) simp
    then have "uval (w # ws) div 2 ^ n * 2 ^ n = unat w div 2 ^ n * 2 ^ n + (2 ^ n * 2 ^ (64 - n)) * uval ws"
      by (simp add: algebra_simps)
    then show ?thesis using part unat_mask_low [of n w] \<open>18446744073709551616 = 2 ^ n * 2 ^ (64 - n)\<close> by simp
  qed
qed simp

lemma ClearFirstBits_val: "length (ClearFirstBits n t) = length t \<and> uval (ClearFirstBits n t) = uval t div 2 ^ n * 2 ^ n"
proof (cases "length t * 64 \<le> n")
  case True
  then have "(2 :: nat) ^ (64 * length t) \<le> 2 ^ n" by (intro power_increasing) simp_all
  then have "uval t < 2 ^ n" using uval_less [of t] by linarith
  then show ?thesis using True by (simp add: ClearFirstBits_def)
next
  case False
  then show ?thesis using clear_words_val [of n t] by (simp add: ClearFirstBits_def)
qed

section \<open>Properties\<close>

text \<open>
  C39. \<open>Pow\<close> and \<open>Sqrt\<close>. The power loop ends and returns zero with the exact power when it fits in the words of the
  number, one when it does not, and two for zero to the zero; a carry while squaring the base alone is never
  a false alarm. \<open>Sqrt\<close> ends with the largest number whose square is at most the operand.
\<close>

theorem power_root_exact:
  assumes "length pow = length t" and "t \<noteq> []"
  shows "(if uval pow = 0 \<and> uval t = 0 then UInt_Pow t pow = Inr (2, t)
      else \<exists>st r. UInt_Pow t pow = Inr (st, r) \<and> length r = length t \<and>
        (if uval t ^ uval pow < 2 ^ (64 * length t) then st = 0 \<and> uval r = uval t ^ uval pow else st = 1)) \<and>
    (\<exists>r. UInt_Sqrt t = Inr r \<and> length r = length t \<and> (uval r)\<^sup>2 \<le> uval t \<and> uval t < (uval r + 1)\<^sup>2)"
  using UInt_Pow_val [OF assms] UInt_Sqrt_val [OF assms(2)] by (rule conjI)

theorem power_root_exact_witness:
  "\<exists>r. UInt_Sqrt [0, 5] = Inr r \<and> length r = length [0, 5 :: uint] \<and> (uval r)\<^sup>2 \<le> uval [0, 5] \<and> uval [0, 5] < (uval r + 1)\<^sup>2"
  using power_root_exact [of "[3, 0]" "[0, 5]"] by (simp only: list.size list.distinct) simp

end
