(* ===== verification/TtmathString.thy ===== *)
theory TtmathString
  imports TtmathPow
begin

text \<open>
  Conversions of \<^verbatim>\<open>ttmathuint.h\<close> between numbers of different sizes, machine integers and strings, with the
  character functions of \<^verbatim>\<open>ttmathmisc.h\<close>. A C string is the list of its characters without the terminating zero,
  which no test for a digit or a white character accepts.
\<close>

section \<open>Characters\<close>

text \<open>A \<open>char\<close> is signed: it is extended with its sign when it becomes a \<open>uint\<close>.\<close>

definition char_to_uint :: "char \<Rightarrow> uint" where
  "char_to_uint c = (let n = of_char c :: nat in if n < 128 then of_nat n else of_nat n - 256)"

fun SkipWhiteCharacters :: "char list \<Rightarrow> char list" where
  "SkipWhiteCharacters [] = []"
| "SkipWhiteCharacters (c # s) =
     (if c = CHR '' '' \<or> c = CHR 0x09 \<or> c = CHR 0x0D \<or> c = CHR 0x0A then SkipWhiteCharacters s else c # s)"

definition CharToDigit :: "uint \<Rightarrow> uint \<Rightarrow> int" where
  "CharToDigit c base =
     (if 48 \<le> c \<and> c \<le> 57 then (let c1 = c - 48 in if base \<le> c1 then -1 else sint c1)
      else if 97 \<le> c \<and> c \<le> 122 then (let c1 = c - 97 + 10 in if base \<le> c1 then -1 else sint c1)
      else if 65 \<le> c \<and> c \<le> 90 then (let c1 = c - 65 + 10 in if base \<le> c1 then -1 else sint c1)
      else -1)"

definition DigitToChar :: "uint \<Rightarrow> uint" where
  "DigitToChar digit = (if digit < 10 then digit + 48 else digit - 10 + 65)"

section \<open>Numbers of other sizes and machine integers\<close>

definition FromUInt_table :: "table \<Rightarrow> table \<Rightarrow> uint \<times> table" where
  "FromUInt_table p t =
     (let min_size = (if length t < length p then length t else length p);
          t1 = take min_size p @ drop min_size t
      in if length t > length p then (0, take min_size p @ replicate (length t - min_size) 0)
         else if list_ex (\<lambda>w. w \<noteq> 0) (drop min_size p) then (1, t1) else (0, t1))"

definition FromUInt :: "uint \<Rightarrow> table \<Rightarrow> uint \<times> table" where
  "FromUInt v t = (0, v # replicate (length t - 1) 0)"

text \<open>A \<open>sint\<close> is the word that \<open>sint\<close> reads as a signed number.\<close>

definition FromInt_sint :: "uint \<Rightarrow> table \<Rightarrow> uint \<times> table" where
  "FromInt_sint v t = (case FromUInt v t of (c, t1) \<Rightarrow> (if c \<noteq> 0 \<or> sint v < 0 then 1 else 0, t1))"

definition ToUInt :: "table \<Rightarrow> uint \<times> uint" where
  "ToUInt t = (if list_ex (\<lambda>w. w \<noteq> 0) (drop 1 t) then 1 else 0, t ! 0)"

definition ToInt_sint :: "table \<Rightarrow> uint \<times> uint" where
  "ToInt_sint t =
     (if t ! 0 AND TTMATH_UINT_HIGHEST_BIT \<noteq> 0 then (1, t ! 0)
      else (if list_ex (\<lambda>w. w \<noteq> 0) (drop 1 t) then 1 else 0, t ! 0))"

section \<open>Strings\<close>

text \<open>The digits, the lowest one first; the loop ends because the base is at least two.\<close>

function to_string_loop :: "uint \<Rightarrow> table \<Rightarrow> string \<Rightarrow> string res" where
  "to_string_loop b temp result =
     (if unat b < 2 \<or> temp = [] then Inl Undefined_Behaviour
      else andThen (DivInt b temp) (\<lambda>(_, rest, temp1).
        let result1 = result @ [char_of (unat (DigitToChar rest))]
        in if \<not> IsZero temp1 then to_string_loop b temp1 result1 else Inr result1))"
  by pat_completeness auto

termination to_string_loop
proof (relation "measure (\<lambda>(_, temp, _). uval temp)")
  fix b :: uint and temp temp1 :: table and result xb and x xa y xc
  assume a: "\<not> (unat b < 2 \<or> temp = [])" "DivInt b temp = Inr x" "(xa, y) = x" "(xc, temp1) = y" "\<not> IsZero temp1"
  then have "b \<noteq> 0" by auto
  then have "uval temp1 = uval temp div unat b" using DivInt_val [of temp b] a by auto
  moreover have "uval temp1 \<noteq> 0" using a(5) by (simp add: IsZero_val)
  ultimately have "uval temp1 < uval temp" using a(1) by (metis div_less_dividend div_0 gr0I linorder_not_less one_less_numeral_iff semiring_norm(76) less_le_trans)
  then show "((b, temp1, xb), b, temp, result) \<in> measure (\<lambda>(_, temp, _). uval temp)" by simp
qed simp

declare to_string_loop.simps [simp del]

text \<open>The loop that turns the digits around.\<close>

function turn_loop :: "nat \<Rightarrow> nat \<Rightarrow> string \<Rightarrow> string" where
  "turn_loop i1 i2 s = (if i1 < i2 then turn_loop (i1 + 1) (i2 - 1) (s[i1 := s ! i2, i2 := s ! i1]) else s)"
  by pat_completeness auto

termination turn_loop
  by (relation "measure (\<lambda>(i1, i2, _). i2 - i1)") auto

declare turn_loop.simps [simp del]

text \<open>The capacity reserved for the digits has no effect on the string.\<close>

definition ToStringBase :: "table \<Rightarrow> uint \<Rightarrow> bool \<Rightarrow> string res" where
  "ToStringBase t b negative =
     (if b < 2 \<or> b > 16 then Inr ''''
      else case FindLeadingBit t of (found, table_id, index) \<Rightarrow>
        if \<not> found then Inr ''0''
        else andThen (to_string_loop b t (if negative then ''-'' else '''')) (\<lambda>result.
               Inr (turn_loop (if negative then 1 else 0) (length result - 1) result)))"

definition UInt_ToString :: "table \<Rightarrow> uint \<Rightarrow> string res" where
  "UInt_ToString t b = ToStringBase t b False"

text \<open>The loop of \<open>FromStringBase\<close>; after a carry the digits are skipped.\<close>

fun from_string_loop :: "uint \<Rightarrow> table \<Rightarrow> char list \<Rightarrow> bool \<Rightarrow> uint \<Rightarrow> table \<Rightarrow> (uint \<times> table \<times> char list \<times> bool) res" where
  "from_string_loop b base [] value_read c t = Inr (c, t, [], value_read)"
| "from_string_loop b base (x # s) value_read c t =
     (let z = CharToDigit (char_to_uint x) b
      in if z = -1 then Inr (c, t, x # s, value_read)
         else if c = 0 then
           andThen (UInt_Mul t base 100) (\<lambda>(c1, t1).
             case UInt_Add t1 ((SetZero t)[0 := of_int z]) 0 of (c2, t2) \<Rightarrow>
               from_string_loop b base s True (c + c1 + c2) t2)
         else from_string_loop b base s True c t)"

text \<open>The returned value, the number, what is left of the string and whether a digit was read.\<close>

definition FromStringBase :: "char list \<Rightarrow> uint \<Rightarrow> table \<Rightarrow> (uint \<times> table \<times> char list \<times> bool) res" where
  "FromStringBase s b t =
     (let base = snd (FromUInt b t); s1 = SkipWhiteCharacters s
      in if b < 2 \<or> b > 16 then Inr (1, SetZero t, s1, False)
         else andThen (from_string_loop b base s1 False 0 (SetZero t)) (\<lambda>(c, t1, s2, value_read).
                Inr (if c = 0 then 0 else 1, t1, s2, value_read)))"

section \<open>Sizes\<close>

text \<open>Conversion to another number of words is exact when it returns no carry, and it returns one exactly when the number is too big.\<close>

lemma FromUInt_table_val:
  assumes "t \<noteq> []"
  shows "case FromUInt_table p t of (c, t') \<Rightarrow> length t' = length t \<and> uval t' = uval p mod 2 ^ (64 * length t) \<and>
    (c = 0 \<longleftrightarrow> uval p < 2 ^ (64 * length t))"
proof (cases "length p < length t")
  case True
  have "uval p < 2 ^ (64 * length p)" by (rule uval_less)
  also have "\<dots> \<le> 2 ^ (64 * length t)" using True by (intro power_increasing) simp_all
  finally show ?thesis using True by (simp add: FromUInt_table_def Let_def uval_append)
next
  case False
  have "list_ex (\<lambda>w. w \<noteq> 0) (drop (length t) p) \<longleftrightarrow> uval p div 2 ^ (64 * length t) \<noteq> 0"
    using uval_eq_0 [of "drop (length t) p"] by (auto simp: uval_drop list_ex_iff list_all_iff)
  then show ?thesis using False by (auto simp: FromUInt_table_def Let_def uval_take div_eq_0_iff)
qed

lemma ToUInt_val:
  assumes "t \<noteq> []"
  shows "unat (snd (ToUInt t)) = uval t mod 2 ^ 64 \<and> (fst (ToUInt t) = 0 \<longleftrightarrow> uval t < 2 ^ 64)"
proof -
  obtain w ws where t: "t = w # ws" using assms by (cases t) auto
  have "list_ex (\<lambda>w. w \<noteq> 0) ws \<longleftrightarrow> uval ws \<noteq> 0" using uval_eq_0 [of ws] by (auto simp: list_ex_iff list_all_iff)
  then show ?thesis using unat_bound [of w] by (auto simp: t ToUInt_def)
qed

lemma ToInt_sint_val: "t \<noteq> [] \<Longrightarrow> fst (ToInt_sint t) = 0 \<longleftrightarrow> uval t < 2 ^ 63"
proof -
  assume "t \<noteq> []"
  then obtain w ws where t: "t = w # ws" by (cases t) auto
  have e: "list_ex (\<lambda>w. w \<noteq> 0) ws \<longleftrightarrow> uval ws \<noteq> 0" using uval_eq_0 [of ws] by (auto simp: list_ex_iff list_all_iff)
  have h: "w AND TTMATH_UINT_HIGHEST_BIT \<noteq> 0 \<longleftrightarrow> unat w div 2 ^ 63 \<noteq> 0"
    using word_top_bit [of w] by (cases "w AND TTMATH_UINT_HIGHEST_BIT = 0") simp_all
  show ?thesis using e h unat_bound [of w] by (auto simp: t ToInt_sint_def div_eq_0_iff)
qed

section \<open>Digits\<close>

definition is_digit :: "uint \<Rightarrow> char \<Rightarrow> bool" where
  "is_digit b x \<longleftrightarrow> CharToDigit (char_to_uint x) b \<noteq> -1"

definition digit_value :: "uint \<Rightarrow> char \<Rightarrow> nat" where
  "digit_value b x = nat (CharToDigit (char_to_uint x) b)"

text \<open>The number that the digits at the front of \<open>s\<close> continue, from \<open>v\<close> on.\<close>

definition digits_value :: "uint \<Rightarrow> nat \<Rightarrow> char list \<Rightarrow> nat" where
  "digits_value b v s = foldl (\<lambda>v x. v * unat b + digit_value b x) v s"

lemma digits_value_simps [simp]:
  "digits_value b v [] = v" "digits_value b v (x # s) = digits_value b (v * unat b + digit_value b x) s"
  "digits_value b v (s @ r) = digits_value b (digits_value b v s) r"
  by (simp_all add: digits_value_def)

lemma digits_value_grows: "0 < unat b \<Longrightarrow> v \<le> digits_value b v s"
proof (induction s arbitrary: v)
  case (Cons x s)
  have "v \<le> v * unat b + digit_value b x" using Cons.prems by (simp add: trans_le_add1)
  also have "\<dots> \<le> digits_value b (v * unat b + digit_value b x) s" using Cons by blast
  finally show ?case by simp
qed simp

lemma small_sint: "unat (c :: uint) \<le> 35 \<Longrightarrow> sint c = int (unat c)"
proof -
  assume c: "unat c \<le> 35"
  have "sint c = signed_take_bit 63 (int (unat c))" unfolding uint_nat [symmetric] by (simp add: sint_uint)
  also have "\<dots> = int (unat c)"
  proof -
    have "signed_take_bit 63 (int k) = int k" if "k \<le> 35" for k using that by (intro signed_take_bit_int_eq_self) simp_all
    then show ?thesis using c by blast
  qed
  finally show ?thesis .
qed

lemma CharToDigit_range: "CharToDigit c b = -1 \<or> (\<exists>k < unat b. k \<le> 35 \<and> CharToDigit c b = int k)"
proof -
  have "unat (c - 48) \<le> 9" if "48 \<le> c" "c \<le> 57"
    using that by (simp add: unat_sub word_le_nat_alt)
  moreover have "unat (c - 97 + 10) \<le> 35" if "97 \<le> c" "c \<le> 122"
    using that by (simp add: unat_sub word_le_nat_alt unat_add64)
  moreover have "unat (c - 65 + 10) \<le> 35" if "65 \<le> c" "c \<le> 90"
    using that by (simp add: unat_sub word_le_nat_alt unat_add64)
  ultimately show ?thesis
    unfolding CharToDigit_def Let_def by (auto simp: small_sint not_le word_less_nat_alt)
qed

lemma digit_value_less: "is_digit b x \<Longrightarrow> CharToDigit (char_to_uint x) b = int (digit_value b x) \<and> digit_value b x < unat b"
  using CharToDigit_range [of "char_to_uint x" b] by (auto simp: is_digit_def digit_value_def)

text \<open>Every digit below sixteen is printed as a character that is read as this digit.\<close>

definition digit_char :: "uint \<Rightarrow> char" where
  "digit_char d = char_of (unat (DigitToChar d))"

lemma DigitToChar_val: "unat d < 16 \<Longrightarrow> unat (DigitToChar d) = (if unat d < 10 then unat d + 48 else unat d + 55)"
  by (simp add: DigitToChar_def word_less_nat_alt unat_add64 unat_sub64 split: if_splits)

lemma char_to_uint_digit: "unat d < 16 \<Longrightarrow> char_to_uint (digit_char d) = DigitToChar d"
  using DigitToChar_val [of d] by (auto simp: char_to_uint_def digit_char_def DigitToChar_def word_less_nat_alt)

lemma CharToDigit_digit:
  assumes "unat d < unat b" and "unat d < 16"
  shows "CharToDigit (DigitToChar d) b = int (unat d)"
proof -
  have s: "sint d = int (unat d)" using assms(2) by (intro small_sint) simp
  have nb: "\<not> b \<le> d" using assms(1) by (simp add: word_le_nat_alt)
  note v = DigitToChar_val [OF assms(2)]
  show ?thesis
  proof (cases "unat d < 10")
    case True
    then have "DigitToChar d = d + 48" by (simp add: DigitToChar_def word_less_nat_alt)
    moreover have "48 \<le> DigitToChar d" "DigitToChar d \<le> 57" using v True by (simp_all add: word_le_nat_alt)
    ultimately show ?thesis using s nb by (simp add: CharToDigit_def)
  next
    case False
    then have "DigitToChar d = d - 10 + 65" by (simp add: DigitToChar_def word_less_nat_alt)
    moreover have "\<not> DigitToChar d \<le> 57" "\<not> 97 \<le> DigitToChar d" "65 \<le> DigitToChar d" "DigitToChar d \<le> 90"
      using v False assms(2) by (simp_all add: word_le_nat_alt)
    ultimately show ?thesis using s nb by (simp add: CharToDigit_def)
  qed
qed

lemma digit_char_value:
  assumes "unat d < unat b" and "unat b \<le> 16"
  shows "is_digit b (digit_char d) \<and> digit_value b (digit_char d) = unat d"
proof -
  have "CharToDigit (char_to_uint (digit_char d)) b = int (unat d)"
    using CharToDigit_digit [OF assms(1)] char_to_uint_digit [of d] assms by simp
  then show ?thesis unfolding is_digit_def digit_value_def by (simp only: nat_int) linarith
qed

section \<open>Reading\<close>

lemma from_string_skip:
  "c \<noteq> 0 \<Longrightarrow> from_string_loop b base s vr c t = Inr (c, t, dropWhile (is_digit b) s, vr \<or> takeWhile (is_digit b) s \<noteq> [])"
  by (induction s arbitrary: vr) (simp_all add: is_digit_def)

lemma uval_single: "t \<noteq> [] \<Longrightarrow> uval ((SetZero t)[0 := w]) = unat w \<and> length ((SetZero t)[0 := w]) = length t"
  by (cases t) (simp_all add: SetZero_def)

text \<open>What reading promises when the digits stand for \<open>v\<close>.\<close>

definition read_spec :: "nat \<Rightarrow> nat \<Rightarrow> char list \<Rightarrow> bool \<Rightarrow> (uint \<times> table \<times> char list \<times> bool) res \<Rightarrow> bool" where
  "read_spec n v s vr res \<longleftrightarrow> (\<exists>c t. res = Inr (c, t, s, vr) \<and> length t = n \<and>
     (if v < 2 ^ (64 * n) then c = 0 \<and> uval t = v else c \<noteq> 0))"

lemma from_string_digit:
  assumes b: "length base = length t" "t \<noteq> []" "uval base = unat b" and d: "is_digit b x"
  shows "\<exists>c1 c2 t1 t2. UInt_Mul t base 100 = Inr (c1, t1) \<and> UInt_Add t1 ((SetZero t)[0 := of_int (CharToDigit (char_to_uint x) b)]) 0 = (c2, t2) \<and>
    length t2 = length t \<and>
    (if uval t * unat b + digit_value b x < 2 ^ (64 * length t) then c1 + c2 = 0 \<and> uval t2 = uval t * unat b + digit_value b x
     else c1 + c2 \<noteq> 0)"
proof -
  let ?w = "of_int (CharToDigit (char_to_uint x) b) :: uint"
  have z: "CharToDigit (char_to_uint x) b = int (digit_value b x)" "digit_value b x < unat b" using digit_value_less [OF d] by simp_all
  then have w: "unat ?w = digit_value b x" using unat_bound [of b] by (simp add: unat_of_nat take_bit_nat_eq_self_iff)
  obtain c1 t1 where m: "UInt_Mul t base 100 = Inr (c1, t1)" "length t1 = length t"
      "if uval t * unat b < 2 ^ (64 * length t) then c1 = 0 \<and> uval t1 = uval t * unat b else c1 = 1"
    using Mul_carry [OF b(1,2)] b(3) by auto
  have ne: "t1 \<noteq> []" using m(2) b(2) by auto
  have "length ((SetZero t)[0 := ?w]) = length t1" "uval ((SetZero t)[0 := ?w]) = digit_value b x" using uval_single [OF b(2)] m(2) w by simp_all
  then obtain c2 t2 where a: "UInt_Add t1 ((SetZero t)[0 := ?w]) 0 = (c2, t2)" "exact_sum (length t) (c2, t2) (uval t1 + digit_value b x)"
    using add_words_exact [of t1 "(SetZero t)[0 := ?w]" 0] m(2) by (cases "UInt_Add t1 ((SetZero t)[0 := ?w]) 0") (simp add: UInt_Add_def)
  have c2: "c2 = 0 \<or> c2 = 1" using a(2) unat_inject64 [of c2 1] by (cases "c2 = 0") (auto simp: exact_sum_def)
  have "uval t2 < 2 ^ (64 * length t)" using uval_less [of t2] a(2) by (simp add: exact_sum_def)
  then have "if uval t * unat b + digit_value b x < 2 ^ (64 * length t) then c1 + c2 = 0 \<and> uval t2 = uval t * unat b + digit_value b x
     else c1 + c2 \<noteq> 0"
    using m(3) a(2) c2 by (auto simp: exact_sum_def split: if_splits)
  then show ?thesis using m(1) a by (auto simp: exact_sum_def)
qed

lemma from_string_loop_val:
  assumes "0 < unat b"
  shows "length base = length t \<Longrightarrow> t \<noteq> [] \<Longrightarrow> uval base = unat b \<Longrightarrow>
    read_spec (length t) (digits_value b (uval t) (takeWhile (is_digit b) s)) (dropWhile (is_digit b) s)
      (vr \<or> takeWhile (is_digit b) s \<noteq> []) (from_string_loop b base s vr 0 t)"
proof (induction s arbitrary: t vr)
  case Nil
  then show ?case using uval_less [of t] by (simp add: read_spec_def)
next
  case (Cons x s)
  show ?case
  proof (cases "is_digit b x")
    case False
    then show ?thesis using uval_less [of t] by (simp add: read_spec_def is_digit_def)
  next
    case True
    let ?v = "uval t * unat b + digit_value b x"
    obtain c1 c2 t1 t2 where d: "UInt_Mul t base 100 = Inr (c1, t1)"
        "UInt_Add t1 ((SetZero t)[0 := of_int (CharToDigit (char_to_uint x) b)]) 0 = (c2, t2)" "length t2 = length t"
        "if ?v < 2 ^ (64 * length t) then c1 + c2 = 0 \<and> uval t2 = ?v else c1 + c2 \<noteq> 0"
      using from_string_digit [OF Cons.prems True] by blast
    have run: "from_string_loop b base (x # s) vr 0 t = from_string_loop b base s True (c1 + c2) t2"
      using True d(1,2) by (simp add: is_digit_def)
    show ?thesis
    proof (cases "?v < 2 ^ (64 * length t)")
      case fits: True
      have "t2 \<noteq> []" using d(3) Cons.prems(2) by auto
      then show ?thesis using Cons.IH [of t2 True] Cons.prems d(3,4) fits True unfolding run by simp
    next
      case False
      have "?v \<le> digits_value b ?v (takeWhile (is_digit b) s)" by (rule digits_value_grows [OF assms])
      then have "\<not> digits_value b ?v (takeWhile (is_digit b) s) < 2 ^ (64 * length t)" using False by linarith
      then show ?thesis using False True d(3,4) unfolding run read_spec_def by (simp add: from_string_skip)
    qed
  qed
qed

lemma FromUInt_val: "t \<noteq> [] \<Longrightarrow> length (snd (FromUInt w t)) = length t \<and> uval (snd (FromUInt w t)) = unat w"
  by (cases t) (simp_all add: FromUInt_def)

lemma FromStringBase_val:
  assumes "t \<noteq> []" and "2 \<le> unat b" and "unat b \<le> 16"
  shows "\<exists>t'. FromStringBase s b t =
      Inr (if digits_value b 0 (takeWhile (is_digit b) (SkipWhiteCharacters s)) < 2 ^ (64 * length t) then 0 else 1, t',
        dropWhile (is_digit b) (SkipWhiteCharacters s), takeWhile (is_digit b) (SkipWhiteCharacters s) \<noteq> []) \<and> length t' = length t \<and>
    (digits_value b 0 (takeWhile (is_digit b) (SkipWhiteCharacters s)) < 2 ^ (64 * length t) \<longrightarrow>
      uval t' = digits_value b 0 (takeWhile (is_digit b) (SkipWhiteCharacters s)))"
proof -
  let ?s = "SkipWhiteCharacters s"
  have "\<not> (b < 2 \<or> b > 16)" using assms(2,3) by (simp add: word_less_nat_alt)
  moreover have "read_spec (length t) (digits_value b 0 (takeWhile (is_digit b) ?s)) (dropWhile (is_digit b) ?s)
      (takeWhile (is_digit b) ?s \<noteq> []) (from_string_loop b (snd (FromUInt b t)) ?s False 0 (SetZero t))"
    using from_string_loop_val [of b "snd (FromUInt b t)" "SetZero t" ?s False] FromUInt_val [OF assms(1)] assms by simp
  ultimately show ?thesis by (auto simp: FromStringBase_def read_spec_def split: if_splits)
qed

section \<open>Printing\<close>

lemma to_string_loop_val:
  assumes b: "2 \<le> unat b" "unat b \<le> 16"
  shows "t \<noteq> [] \<Longrightarrow> \<exists>ds. to_string_loop b t acc = Inr (acc @ ds) \<and> ds \<noteq> [] \<and> list_all (is_digit b) ds \<and>
    digits_value b 0 (rev ds) = uval t \<and> (uval t \<noteq> 0 \<longrightarrow> digit_value b (last ds) \<noteq> 0)"
proof (induction "uval t" arbitrary: t acc rule: less_induct)
  case less
  have "b \<noteq> 0" using b(1) by auto
  then obtain r t1 where d: "DivInt b t = Inr (0, r, t1)" "length t1 = length t" "uval t1 = uval t div unat b" "unat r = uval t mod unat b"
    using DivInt_val [OF less.prems, of b] by auto
  have "unat r < unat b" using b(1) unfolding d(4) by (intro mod_less_divisor) simp
  then have x: "is_digit b (digit_char r)" "digit_value b (digit_char r) = unat r" using digit_char_value [of r b] b(2) by simp_all
  have run: "to_string_loop b t acc =
      (if uval t1 \<noteq> 0 then to_string_loop b t1 (acc @ [digit_char r]) else Inr (acc @ [digit_char r]))"
    using b(1) less.prems d(1) by (subst to_string_loop.simps) (simp add: IsZero_val digit_char_def)
  show ?case
  proof (cases "uval t1 = 0")
    case True
    have "uval t = unat r" using True d(3,4) div_mult_mod_eq [of "uval t" "unat b"] by simp
    then show ?thesis unfolding run using True x by simp
  next
    case False
    have lt: "uval t1 < uval t" using False d(3) b(1) by (metis div_less_dividend div_0 gr0I less_le_trans one_less_numeral_iff semiring_norm(76))
    have "t1 \<noteq> []" using d(2) less.prems by auto
    then obtain ds where ds: "to_string_loop b t1 (acc @ [digit_char r]) = Inr ((acc @ [digit_char r]) @ ds)" "ds \<noteq> []" "list_all (is_digit b) ds"
        "digits_value b 0 (rev ds) = uval t1" "digit_value b (last ds) \<noteq> 0"
      using less.hyps [OF lt] False by blast
    have "digits_value b 0 (rev (digit_char r # ds)) = uval t" using ds(4) x(2) d(3,4) by simp
    then show ?thesis unfolding run using False ds x(1) by (intro exI [of _ "digit_char r # ds"]) simp
  qed
qed

lemma turn_loop_val: "turn_loop (length p) (length p + length d - 1) (p @ d @ q) = p @ rev d @ q"
proof (induction "length d" arbitrary: p d q rule: less_induct)
  case less
  show ?case
  proof (cases "length d < 2")
    case True
    then have "rev d = d" by (cases d rule: remdups_adj.cases) auto
    then show ?thesis using True by (subst turn_loop.simps) auto
  next
    case False
    then obtain x m y where d: "d = x # m @ [y]"
      by (metis One_nat_def append_butlast_last_id length_Cons less_2_cases_iff list.exhaust list.size(3))
    have i: "length p + length d - 1 = length p + length m + 1" by (simp add: d)
    have s: "(p @ d @ q)[length p := (p @ d @ q) ! (length p + length m + 1), length p + length m + 1 := (p @ d @ q) ! length p]
        = (p @ [y]) @ m @ (x # q)"
      by (simp add: d nth_append list_update_append)
    have "turn_loop (length p) (length p + length d - 1) (p @ d @ q) = turn_loop (length (p @ [y])) (length (p @ [y]) + length m - 1) ((p @ [y]) @ m @ (x # q))"
      unfolding i using s by (subst turn_loop.simps) simp
    also have "\<dots> = (p @ [y]) @ rev m @ (x # q)" by (rule less.hyps) (simp add: d)
    finally show ?thesis by (simp add: d)
  qed
qed

lemma FindLeadingBit_iff: "t \<noteq> [] \<Longrightarrow> \<exists>w i. FindLeadingBit t = (uval t \<noteq> 0, w, i)"
  using FindLeadingBit_found [of t] FindLeadingBit_none [of t] by (cases "uval t = 0") auto

text \<open>
  The string of a number is a hyphen when asked for and the number is not zero, and the digits of the number, the first of
  which is not zero when the number is not.
\<close>

lemma ToStringBase_val:
  assumes "t \<noteq> []" and "2 \<le> unat b" and "unat b \<le> 16"
  shows "\<exists>ds. ToStringBase t b negative = Inr ((if negative \<and> uval t \<noteq> 0 then ''-'' else []) @ ds) \<and> ds \<noteq> [] \<and> list_all (is_digit b) ds \<and>
    digits_value b 0 ds = uval t \<and> (uval t \<noteq> 0 \<longrightarrow> digit_value b (hd ds) \<noteq> 0)"
proof -
  have nb: "\<not> (b < 2 \<or> b > 16)" using assms(2,3) by (simp add: word_less_nat_alt)
  obtain w i where f: "FindLeadingBit t = (uval t \<noteq> 0, w, i)" using FindLeadingBit_iff [OF assms(1)] by blast
  show ?thesis
  proof (cases "uval t = 0")
    case True
    have "digit_char 0 = CHR ''0''" by (simp add: digit_char_def DigitToChar_def char_of_def bit_iff_odd)
    then have "is_digit b (CHR ''0'')" "digit_value b (CHR ''0'') = 0" using digit_char_value [of 0 b] assms(2,3) by simp_all
    then show ?thesis using True f nb by (simp add: ToStringBase_def)
  next
    case False
    let ?p = "if negative then ''-'' else []"
    obtain ds where ds: "to_string_loop b t ?p = Inr (?p @ ds)" "ds \<noteq> []" "list_all (is_digit b) ds" "digits_value b 0 (rev ds) = uval t"
        "digit_value b (last ds) \<noteq> 0"
      using to_string_loop_val [OF assms(2,3,1), of ?p] False by blast
    have "turn_loop (if negative then 1 else 0) (length (?p @ ds) - 1) (?p @ ds) = ?p @ rev ds"
      using turn_loop_val [of ?p ds "[]"] by (auto split: if_splits)
    then have "ToStringBase t b negative = Inr (?p @ rev ds)" using nb f False ds(1) by (simp add: ToStringBase_def)
    then show ?thesis using ds False by (intro exI [of _ "rev ds"]) (simp add: hd_rev list_all_iff)
  qed
qed

section \<open>Round trip\<close>

lemma uval_inject: "length s = length t \<Longrightarrow> uval s = uval t \<Longrightarrow> s = t"
proof (induction s t rule: list_induct2)
  case (Cons v s w t)
  have "uval (v # s) mod 18446744073709551616 = unat v" "uval (w # t) mod 18446744073709551616 = unat w"
    "uval (v # s) div 18446744073709551616 = uval s" "uval (w # t) div 18446744073709551616 = uval t"
    using unat_bound [of v] unat_bound [of w] by simp_all
  then show ?case using Cons by (metis unat_inject64)
qed simp

definition is_white :: "char \<Rightarrow> bool" where
  "is_white c \<longleftrightarrow> c = CHR '' '' \<or> c = CHR 0x09 \<or> c = CHR 0x0D \<or> c = CHR 0x0A"

lemma white_no_digit: "is_white c \<Longrightarrow> \<not> is_digit b c"
  by (auto simp: is_white_def is_digit_def CharToDigit_def char_to_uint_def)

lemma skip_digits: "list_all (is_digit b) ds \<Longrightarrow> ds \<noteq> [] \<Longrightarrow> SkipWhiteCharacters (ds @ s) = ds @ s"
  using white_no_digit [of _ b] by (cases ds) (auto simp: is_white_def)

lemma skip_white: "list_all is_white w \<Longrightarrow> SkipWhiteCharacters (w @ s) = SkipWhiteCharacters s"
  by (induction w) (auto simp: is_white_def)

lemma split_digits:
  assumes "list_all (is_digit b) ds" and "after = [] \<or> \<not> is_digit b (hd after)"
  shows "takeWhile (is_digit b) (ds @ after) = ds" "dropWhile (is_digit b) (ds @ after) = after"
  using assms by (induction ds; cases after; simp)+

lemma FromString_digits:
  assumes "t \<noteq> []" and "2 \<le> unat b" and "unat b \<le> 16" and "list_all is_white w"
    and "list_all (is_digit b) ds" and "ds \<noteq> []" and "after = [] \<or> \<not> is_digit b (hd after)" and "digits_value b 0 ds < 2 ^ (64 * length t)"
  shows "\<exists>t'. FromStringBase (w @ ds @ after) b t = Inr (0, t', after, True) \<and> length t' = length t \<and> uval t' = digits_value b 0 ds"
proof -
  have sk: "SkipWhiteCharacters (w @ ds @ after) = ds @ after"
    using skip_white [OF assms(4)] skip_digits [OF assms(5,6)] by simp
  from FromStringBase_val [OF assms(1-3), of "w @ ds @ after"]
  show ?thesis unfolding sk split_digits [OF assms(5,7)] using assms(6,8) by auto
qed

section \<open>Properties\<close>

text \<open>
  Printing and reading are inverse. In every base from 2 to 16 \<open>ToString\<close> prints the number as digits of that base, and
  \<open>FromString\<close> of white space, this string and anything that does not begin with a digit reads it back into an object of
  the same size: no carry, the same words, a digit was read, and \<open>after_source\<close> points just behind the digits.
\<close>

lemma string_roundtrip:
  assumes "t \<noteq> []" and "length t0 = length t" and "2 \<le> unat b" and "unat b \<le> 16"
    and "list_all is_white w" and "after = [] \<or> \<not> is_digit b (hd after)"
  shows "\<exists>s. UInt_ToString t b = Inr s \<and> FromStringBase (w @ s @ after) b t0 = Inr (0, t, after, True)"
proof -
  obtain ds where ds: "UInt_ToString t b = Inr ds" "ds \<noteq> []" "list_all (is_digit b) ds" "digits_value b 0 ds = uval t"
    using ToStringBase_val [OF assms(1,3,4), of False] by (auto simp: UInt_ToString_def)
  have ne: "t0 \<noteq> []" using assms(1,2) by auto
  have "digits_value b 0 ds < 2 ^ (64 * length t0)" using ds(4) uval_less [of t] assms(2) by simp
  then obtain t' where "FromStringBase (w @ ds @ after) b t0 = Inr (0, t', after, True)" "length t' = length t" "uval t' = uval t"
    using FromString_digits [OF ne assms(3-5) ds(3,2) assms(6)] ds(4) assms(2) by auto
  then show ?thesis using ds(1) uval_inject [of t' t] by simp
qed

text \<open>
  The bound of \<open>FromString\<close>: the carry is returned exactly when the number the digits stand for does not fit into the
  words of the object; otherwise the object holds it. The digits are consumed to the last in both cases. Another base than
  2 to 16 is refused.
\<close>

theorem from_string_bound:
  assumes "t \<noteq> []" and "list_all (is_digit b) ds" and "after = [] \<or> \<not> is_digit b (hd after)" and "ds \<noteq> []"
  shows "if 2 \<le> unat b \<and> unat b \<le> 16
    then \<exists>c t'. FromStringBase (ds @ after) b t = Inr (c, t', after, True) \<and> length t' = length t \<and>
      (c = 0 \<longleftrightarrow> digits_value b 0 ds < 2 ^ (64 * length t)) \<and> (c = 0 \<longrightarrow> uval t' = digits_value b 0 ds)
    else FromStringBase (ds @ after) b t = Inr (1, SetZero t, ds @ after, False)"
proof (cases "2 \<le> unat b \<and> unat b \<le> 16")
  case True
  then show ?thesis
    using FromStringBase_val [OF assms(1), of b "ds @ after"] skip_digits [OF assms(2,4)] split_digits [OF assms(2,3)] assms(4) by auto
next
  case False
  then have "b < 2 \<or> b > 16" by (simp add: word_less_nat_alt) linarith
  then show ?thesis using False skip_digits [OF assms(2,4)] by (simp add: FromStringBase_def)
qed

theorem from_string_bound_witness:
  "\<exists>c t'. FromStringBase (''18446744073709551616'' @ '';'') 10 [0] = Inr (c, t', '';'', True) \<and> c \<noteq> 0"
proof -
  have "list_all (is_digit 10) ''18446744073709551616''" "\<not> is_digit 10 (CHR '';'')"
    by (simp_all add: is_digit_def CharToDigit_def char_to_uint_def word_le_nat_alt)
  moreover have "digits_value 10 0 ''18446744073709551616'' = 18446744073709551616"
    by (simp add: digit_value_def CharToDigit_def char_to_uint_def word_le_nat_alt)
  ultimately show ?thesis using from_string_bound [of "[0]" 10 "''18446744073709551616''" "'';''"] by auto
qed



end
