(* ===== verification/TtmathInt.thy ===== *)
theory TtmathInt
  imports TtmathString
begin

text \<open>
  The signed integers of \<^verbatim>\<open>ttmathint.h\<close>: the class \<open>Int\<close> derived from \<open>UInt\<close>, on the same tables, read in two's
  complement. A \<open>sint\<close> is a word that \<open>sint\<close> reads as a signed number. A method returns its value and the new table.
\<close>

section \<open>Signs\<close>

definition Int_SetMax :: "table \<Rightarrow> table" where
  "Int_SetMax t = (SetMax t)[length t - 1 := NOT TTMATH_UINT_HIGHEST_BIT]"

definition Int_SetMin :: "table \<Rightarrow> table" where
  "Int_SetMin t = (SetZero t)[length t - 1 := TTMATH_UINT_HIGHEST_BIT]"

definition SetSignOne :: "table \<Rightarrow> table" where
  "SetSignOne t = SetMax t"

definition ChangeSign :: "table \<Rightarrow> uint \<times> table" where
  "ChangeSign t = (if IsOnlyTheHighestBitSet t then (1, t) else (0, snd (UInt_Sub (SetZero t) t 0)))"

definition IsSign :: "table \<Rightarrow> bool" where
  "IsSign t = IsTheHighestBitSet t"

definition SetSign :: "table \<Rightarrow> table" where
  "SetSign t = (if IsSign t then t else snd (ChangeSign t))"

definition Int_Abs :: "table \<Rightarrow> uint \<times> table" where
  "Int_Abs t = (if \<not> IsSign t then (0, t) else ChangeSign t)"

section \<open>Addition and subtraction\<close>

definition CorrectCarryAfterAdding :: "table \<Rightarrow> bool \<Rightarrow> bool \<Rightarrow> uint" where
  "CorrectCarryAfterAdding t p1_is_sign p2_is_sign =
     (if \<not> p1_is_sign \<and> \<not> p2_is_sign \<and> IsTheHighestBitSet t then 1
      else if p1_is_sign \<and> p2_is_sign \<and> \<not> IsTheHighestBitSet t then 1 else 0)"

definition Int_Add :: "table \<Rightarrow> table \<Rightarrow> uint \<times> table" where
  "Int_Add t ss2 =
     (let t1 = snd (UInt_Add t ss2 0) in (CorrectCarryAfterAdding t1 (IsSign t) (IsSign ss2), t1))"

definition Int_AddInt :: "uint \<Rightarrow> nat \<Rightarrow> table \<Rightarrow> (uint \<times> table) res" where
  "Int_AddInt v index t = andThen (UInt_AddInt v index t) (\<lambda>(_, t1). Inr (CorrectCarryAfterAdding t1 (IsSign t) False, t1))"

definition Int_AddTwoInts :: "uint \<Rightarrow> uint \<Rightarrow> nat \<Rightarrow> table \<Rightarrow> (uint \<times> table) res" where
  "Int_AddTwoInts x2 x1 index t =
     andThen (UInt_AddTwoInts x2 x1 index t) (\<lambda>(_, t1). Inr (CorrectCarryAfterAdding t1 (IsSign t) False, t1))"

definition CorrectCarryAfterSubtracting :: "table \<Rightarrow> bool \<Rightarrow> bool \<Rightarrow> uint" where
  "CorrectCarryAfterSubtracting t p1_is_sign p2_is_sign =
     (if \<not> p1_is_sign \<and> p2_is_sign \<and> IsTheHighestBitSet t then 1
      else if p1_is_sign \<and> \<not> p2_is_sign \<and> \<not> IsTheHighestBitSet t then 1 else 0)"

definition Int_Sub :: "table \<Rightarrow> table \<Rightarrow> uint \<times> table" where
  "Int_Sub t ss2 =
     (let t1 = snd (UInt_Sub t ss2 0) in (CorrectCarryAfterSubtracting t1 (IsSign t) (IsSign ss2), t1))"

definition Int_SubInt :: "uint \<Rightarrow> nat \<Rightarrow> table \<Rightarrow> (uint \<times> table) res" where
  "Int_SubInt v index t = andThen (UInt_SubInt v index t) (\<lambda>(_, t1). Inr (CorrectCarryAfterSubtracting t1 (IsSign t) False, t1))"

definition Int_AddOne :: "table \<Rightarrow> (uint \<times> table) res" where
  "Int_AddOne t = andThen (UInt_AddOne t) (\<lambda>(_, t1). Inr (CorrectCarryAfterAdding t1 (IsSign t) False, t1))"

definition Int_SubOne :: "table \<Rightarrow> (uint \<times> table) res" where
  "Int_SubOne t = andThen (UInt_SubOne t) (\<lambda>(_, t1). Inr (CorrectCarryAfterSubtracting t1 (IsSign t) False, t1))"

section \<open>Multiplication, division and powers\<close>

definition CheckMinCarry :: "table \<Rightarrow> bool \<Rightarrow> bool \<Rightarrow> uint" where
  "CheckMinCarry t ss1_is_sign ss2_is_sign =
     (if IsSign t then
        (if ss1_is_sign \<noteq> ss2_is_sign then (if \<not> IsOnlyTheHighestBitSet t then 1 else 0) else 1)
      else 0)"

text \<open>The absolute value of a \<open>sint\<close> and its sign; negating the smallest one overflows.\<close>

definition sint_abs :: "uint \<Rightarrow> (bool \<times> uint) res" where
  "sint_abs ss2 =
     (if sint ss2 < 0 then (if ss2 = TTMATH_UINT_HIGHEST_BIT then Inl Undefined_Behaviour else Inr (True, - ss2))
      else Inr (False, ss2))"

definition Int_MulInt :: "uint \<Rightarrow> table \<Rightarrow> (uint \<times> table) res" where
  "Int_MulInt ss2 t =
     andThen (sint_abs ss2) (\<lambda>(ss2_is_sign, a).
     andThen (MulInt a (snd (Int_Abs t))) (\<lambda>(c, t1).
       Inr (c + CheckMinCarry t1 (IsSign t) ss2_is_sign, if IsSign t \<noteq> ss2_is_sign then SetSign t1 else t1)))"

definition Int_Mul :: "table \<Rightarrow> table \<Rightarrow> (uint \<times> table) res" where
  "Int_Mul t ss2 =
     andThen (UInt_Mul (snd (Int_Abs t)) (snd (Int_Abs ss2)) 100) (\<lambda>(c, t1).
       Inr (c + CheckMinCarry t1 (IsSign t) (IsSign ss2), if IsSign t \<noteq> IsSign ss2 then SetSign t1 else t1))"

definition Int_Div :: "table \<Rightarrow> table \<Rightarrow> table option \<Rightarrow> (nat \<times> table \<times> table option) res" where
  "Int_Div t ss2 remainder =
     andThen (UInt_Div (snd (Int_Abs t)) (snd (Int_Abs ss2)) remainder 3) (\<lambda>(c, t1, rem1).
       Inr (c, if IsSign t \<noteq> IsSign ss2 then SetSign t1 else t1, if IsSign t then map_option SetSign rem1 else rem1))"

text \<open>The remainder is a \<open>sint\<close>.\<close>

definition Int_DivInt :: "uint \<Rightarrow> table \<Rightarrow> (uint \<times> uint \<times> table) res" where
  "Int_DivInt ss2 t =
     andThen (sint_abs ss2) (\<lambda>(ss2_is_sign, a).
     andThen (DivInt a (snd (Int_Abs t))) (\<lambda>(c, rem, t1).
       Inr (c, if IsSign t then - rem else rem, if IsSign t \<noteq> ss2_is_sign then SetSign t1 else t1)))"

definition Int_Pow2 :: "table \<Rightarrow> table \<Rightarrow> (nat \<times> table) res" where
  "Int_Pow2 t pow =
     (let was_sign = IsSign t;
          (c, t1) = (if was_sign then Int_Abs t else (0, t))
      in andThen (UInt_Pow t1 pow) (\<lambda>(c_temp, t2).
           if c_temp > 0 then Inr (c_temp, t2)
           else if was_sign \<and> pow ! 0 AND 1 = 1
           then (case ChangeSign t2 of (c1, t3) \<Rightarrow> Inr (if c + c1 = 0 then 0 else 1, t3))
           else Inr (if c = 0 then 0 else 1, t2)))"

definition Int_Pow :: "table \<Rightarrow> table \<Rightarrow> (nat \<times> table) res" where
  "Int_Pow t pow =
     (if \<not> IsSign pow then Int_Pow2 t pow
      else if IsZero t then Inr (2, t)
      else case ChangeSign pow of (cs, pow1) \<Rightarrow>
        if cs \<noteq> 0 then Inr (1, t)
        else andThen (Int_Pow2 t pow1) (\<lambda>(c_temp, p).
          if c_temp > 0 then Inr (c_temp, t)
          else andThen (Int_Div (SetOne t) p None) (\<lambda>(c, t1, _). Inr (if c \<noteq> 0 then 1 else 0, t1))))"

section \<open>Conversions\<close>

definition FromUIntOrInt :: "table \<Rightarrow> bool \<Rightarrow> table \<Rightarrow> uint \<times> table" where
  "FromUIntOrInt p UInt_type t =
     (let min_size = (if length t < length p then length t else length p);
          t1 = take min_size p @ drop min_size t
      in if length t > length p then
           (let fill = (if UInt_type then 0
                        else if p ! (length p - 1) AND TTMATH_UINT_HIGHEST_BIT \<noteq> 0 then TTMATH_UINT_MAX_VALUE else 0)
            in (0, take min_size p @ replicate (length t - min_size) fill))
         else
           (let test = (if t1 ! (length t - 1) AND TTMATH_UINT_HIGHEST_BIT \<noteq> 0 then TTMATH_UINT_MAX_VALUE else 0)
            in if UInt_type \<and> test \<noteq> 0 then (1, t1)
               else if list_ex (\<lambda>w. w \<noteq> test) (drop min_size p) then (1, t1) else (0, t1)))"

definition Int_FromInt :: "uint \<Rightarrow> table \<Rightarrow> uint \<times> table" where
  "Int_FromInt v t = (0, v # replicate (length t - 1) (if sint v < 0 then TTMATH_UINT_MAX_VALUE else 0))"

definition Int_FromUInt :: "uint \<Rightarrow> table \<Rightarrow> uint \<times> table" where
  "Int_FromUInt v t =
     (if length t = 1 \<and> v AND TTMATH_UINT_HIGHEST_BIT \<noteq> 0 then 1 else 0, v # replicate (length t - 1) 0)"

definition Int_ToUInt :: "table \<Rightarrow> uint \<times> uint" where
  "Int_ToUInt t =
     (case ToUInt t of (c, result) \<Rightarrow>
        if length t = 1 then (if result AND TTMATH_UINT_HIGHEST_BIT = 0 then 0 else 1, result) else (c, result))"

definition Int_ToInt :: "table \<Rightarrow> uint \<times> uint" where
  "Int_ToInt t =
     (let result = t ! 0; mask = (if IsSign t then TTMATH_UINT_MAX_VALUE else 0)
      in if result AND TTMATH_UINT_HIGHEST_BIT \<noteq> mask AND TTMATH_UINT_HIGHEST_BIT then (1, result)
         else if list_ex (\<lambda>w. w \<noteq> mask) (drop 1 t) then (1, result) else (0, result))"

definition Int_ToString :: "table \<Rightarrow> uint \<Rightarrow> string res" where
  "Int_ToString t b = (if IsSign t then ToStringBase (snd (Int_Abs t)) b True else ToStringBase t b False)"

text \<open>The sign at the front of a string, and the string behind it.\<close>

definition read_sign :: "char list \<Rightarrow> bool \<times> char list" where
  "read_sign s =
     (case SkipWhiteCharacters s of
        [] \<Rightarrow> (False, [])
      | c # s1 \<Rightarrow>
          if c = CHR ''-'' then (True, SkipWhiteCharacters s1)
          else if c = CHR ''+'' then (False, SkipWhiteCharacters s1)
          else (False, c # s1))"

definition Int_FromStringBase :: "char list \<Rightarrow> uint \<Rightarrow> table \<Rightarrow> (uint \<times> table \<times> char list \<times> bool) res" where
  "Int_FromStringBase s b t =
     (case read_sign s of (is_sign, s1) \<Rightarrow>
        andThen (FromStringBase s1 b t) (\<lambda>(c, t1, after, value_read).
          if c \<noteq> 0 then Inr (1, t1, after, value_read)
          else if is_sign then
            (if CmpBigger t1 (Int_SetMin t) (- 1) then Inr (1, t1, after, value_read)
             else Inr (0, snd (ChangeSign t1), after, value_read))
          else (if CmpBigger t1 (Int_SetMax t) (- 1) then Inr (1, t1, after, value_read)
                else Inr (0, t1, after, value_read))))"

section \<open>Comparison\<close>

text \<open>The four operators differ in the comparison of words and in the result for equal numbers.\<close>

definition Int_less :: "table \<Rightarrow> table \<Rightarrow> bool" where
  "Int_less t l =
     (let i = length t - 1; a1 = sint (t ! i); a2 = sint (l ! i)
      in if a1 \<noteq> a2 then a1 < a2 else cmp_loop (<) False i t l)"

definition Int_greater :: "table \<Rightarrow> table \<Rightarrow> bool" where
  "Int_greater t l =
     (let i = length t - 1; a1 = sint (t ! i); a2 = sint (l ! i)
      in if a1 \<noteq> a2 then a1 > a2 else cmp_loop (>) False i t l)"

definition Int_less_equal :: "table \<Rightarrow> table \<Rightarrow> bool" where
  "Int_less_equal t l =
     (let i = length t - 1; a1 = sint (t ! i); a2 = sint (l ! i)
      in if a1 \<noteq> a2 then a1 < a2 else cmp_loop (<) True i t l)"

definition Int_greater_equal :: "table \<Rightarrow> table \<Rightarrow> bool" where
  "Int_greater_equal t l =
     (let i = length t - 1; a1 = sint (t ! i); a2 = sint (l ! i)
      in if a1 \<noteq> a2 then a1 > a2 else cmp_loop (>) True i t l)"

section \<open>The signed number\<close>

definition half :: "nat \<Rightarrow> nat" where
  "half n = 2 ^ (64 * n - 1)"

definition ival :: "table \<Rightarrow> int" where
  "ival t = (if uval t < half (length t) then int (uval t) else int (uval t) - 2 * int (half (length t)))"

definition in_range :: "nat \<Rightarrow> int \<Rightarrow> bool" where
  "in_range n x \<longleftrightarrow> - int (half n) \<le> x \<and> x < int (half n)"

lemma full_half: "t \<noteq> [] \<Longrightarrow> (2 :: nat) ^ (64 * length t) = 2 * half (length t)"
proof -
  assume "t \<noteq> []"
  then obtain k where "64 * length t = Suc k" by (cases t) auto
  then show ?thesis by (simp add: half_def)
qed

lemma uval_full: "t \<noteq> [] \<Longrightarrow> uval t < 2 * half (length t)"
  using uval_less [of t] full_half [of t] by simp

lemma half_pos: "0 < half n"
  by (simp add: half_def)

lemma ival_small: "uval t < half (length t) \<Longrightarrow> ival t = int (uval t)"
  by (simp add: ival_def)

lemma ival_range: "t \<noteq> [] \<Longrightarrow> in_range (length t) (ival t)"
  using uval_full [of t] by (auto simp: in_range_def ival_def)

lemma uval_of_ival: "t \<noteq> [] \<Longrightarrow> int (uval t) = (if ival t < 0 then ival t + 2 * int (half (length t)) else ival t)"
  using uval_full [of t] by (auto simp: ival_def)

lemma ival_inject: "length s = length t \<Longrightarrow> t \<noteq> [] \<Longrightarrow> ival s = ival t \<Longrightarrow> s = t"
proof -
  assume a: "length s = length t" "t \<noteq> []" "ival s = ival t"
  then have "s \<noteq> []" by auto
  then show ?thesis using uval_of_ival [of s] uval_of_ival [of t] a by (intro uval_inject) (simp_all split: if_splits)
qed

lemma zero_list: "xs = replicate (length xs) 0 \<longleftrightarrow> list_all (\<lambda>w. w = 0) xs"
  by (induction xs) auto

lemma top_word: "t \<noteq> [] \<Longrightarrow> unat (t ! (length t - 1)) = uval t div 2 ^ (64 * (length t - 1))"
  by (intro top_word_div uval_less) simp_all

lemma half_split: "t \<noteq> [] \<Longrightarrow> half (length t) = 2 ^ 63 * 2 ^ (64 * (length t - 1))"
proof -
  assume "t \<noteq> []"
  then have "64 * length t - 1 = 63 + 64 * (length t - 1)" by (cases t) simp_all
  then show ?thesis unfolding half_def by (simp only: power_add)
qed

lemma HighestBit_val: "t \<noteq> [] \<Longrightarrow> IsTheHighestBitSet t \<longleftrightarrow> half (length t) \<le> uval t"
proof -
  assume t: "t \<noteq> []"
  let ?w = "t ! (length t - 1)" and ?B = "(2 :: nat) ^ (64 * (length t - 1))"
  have "IsTheHighestBitSet t \<longleftrightarrow> unat ?w div 2 ^ 63 \<noteq> 0"
    using word_top_bit [of ?w] by (auto simp: IsTheHighestBitSet_def)
  also have "\<dots> \<longleftrightarrow> 2 ^ 63 \<le> uval t div ?B" using top_word [OF t] by (simp add: div_eq_0_iff not_less)
  also have "\<dots> \<longleftrightarrow> half (length t) \<le> uval t" unfolding half_split [OF t] by (simp add: less_eq_div_iff_mult_less_eq)
  finally show ?thesis .
qed

lemma IsSign_val: "t \<noteq> [] \<Longrightarrow> IsSign t \<longleftrightarrow> ival t < 0"
  using HighestBit_val [of t] uval_full [of t] by (auto simp: IsSign_def ival_def)

lemma SetMin_val: "t \<noteq> [] \<Longrightarrow> length (Int_SetMin t) = length t \<and> uval (Int_SetMin t) = half (length t)"
proof -
  assume t: "t \<noteq> []"
  have "(SetZero t) ! (length t - 1) = 0" "length t - 1 < length (SetZero t)" using t by (simp_all add: SetZero_def)
  then show ?thesis
    using uval_update [of "length t - 1" "SetZero t" TTMATH_UINT_HIGHEST_BIT] half_split [OF t]
    by (simp add: Int_SetMin_def TTMATH_UINT_HIGHEST_BIT_def mult.commute)
qed

lemma OnlyHighest_val: "t \<noteq> [] \<Longrightarrow> IsOnlyTheHighestBitSet t \<longleftrightarrow> uval t = half (length t)"
proof -
  assume t: "t \<noteq> []"
  have e: "Int_SetMin t = replicate (length t - 1) 0 @ [TTMATH_UINT_HIGHEST_BIT]"
    using t by (intro nth_equalityI) (auto simp: Int_SetMin_def SetZero_def nth_append nth_list_update)
  have "t = take (length t - 1) t @ [t ! (length t - 1)]"
    using t by (metis append_butlast_last_id butlast_conv_take last_conv_nth)
  then have "t = Int_SetMin t \<longleftrightarrow> take (length t - 1) t = replicate (length t - 1) 0 \<and> t ! (length t - 1) = TTMATH_UINT_HIGHEST_BIT"
    unfolding e by (metis append1_eq_conv)
  also have "\<dots> \<longleftrightarrow> IsOnlyTheHighestBitSet t"
    unfolding IsOnlyTheHighestBitSet_def using zero_list [of "take (length t - 1) t"] by simp
  finally show ?thesis using SetMin_val [OF t] uval_inject [of t "Int_SetMin t"] by auto
qed

lemma SetMax_val: "t \<noteq> [] \<Longrightarrow> length (Int_SetMax t) = length t \<and> uval (Int_SetMax t) = half (length t) - 1"
proof -
  assume t: "t \<noteq> []"
  let ?n = "length t" and ?B = "(2 :: nat) ^ (64 * (length t - 1))"
  have e: "Int_SetMax t = replicate (?n - 1) TTMATH_UINT_MAX_VALUE @ [NOT TTMATH_UINT_HIGHEST_BIT]"
    using t by (intro nth_equalityI) (auto simp: Int_SetMax_def SetMax_def nth_append nth_list_update)
  have m: "uval (replicate (?n - 1) TTMATH_UINT_MAX_VALUE) = ?B - 1" using uval_mask [of "?n - 1" 1] by (simp add: ones_def)
  have "unat (NOT TTMATH_UINT_HIGHEST_BIT) = 2 ^ 63 - 1" by (simp add: TTMATH_UINT_HIGHEST_BIT_def)
  then have "uval (Int_SetMax t) = ?B - 1 + ?B * (2 ^ 63 - 1)" using m unfolding e by (simp add: uval_append)
  moreover have "?B * (2 ^ 63 - 1) = ?B * 2 ^ 63 - ?B" by (simp add: right_diff_distrib')
  moreover have "0 < ?B" by simp
  ultimately have "uval (Int_SetMax t) = ?B * 2 ^ 63 - 1" by simp
  then show ?thesis using t half_split [OF t] by (simp add: e mult.commute)
qed

section \<open>Changing the sign\<close>

lemma ChangeSign_val:
  assumes "t \<noteq> []"
  shows "\<exists>c r. ChangeSign t = (c, r) \<and> length r = length t \<and>
    (if ival t = - int (half (length t)) then c = 1 \<and> r = t else c = 0 \<and> ival r = - ival t)"
proof (cases "uval t = half (length t)")
  case True
  then show ?thesis using OnlyHighest_val [OF assms] by (simp add: ChangeSign_def ival_def)
next
  case False
  have ne: "SetZero t \<noteq> []" using assms by simp
  obtain c r where s: "UInt_Sub (SetZero t) t 0 = (c, r)" "length r = length t" "uval r + uval t = 2 * half (length t) * carry_val c"
    using UInt_Sub_val [of t "SetZero t"] ne full_half [OF assms] by auto
  have "r \<noteq> []" using s(2) assms by auto
  then have "uval r < 2 * half (length t)" using uval_full [of r] s(2) by simp
  then have "ival r = - ival t" "ival t \<noteq> - int (half (length t))"
    using s(2,3) False uval_full [OF assms] by (auto simp: ival_def split: if_splits)
  then show ?thesis using False OnlyHighest_val [OF assms] s(1,2) by (simp add: ChangeSign_def)
qed

lemma Abs_val:
  assumes "t \<noteq> []"
  shows "length (snd (Int_Abs t)) = length t \<and> int (uval (snd (Int_Abs t))) = \<bar>ival t\<bar>"
proof (cases "ival t < 0")
  case False
  then show ?thesis using IsSign_val [OF assms] uval_of_ival [OF assms] by (simp add: Int_Abs_def)
next
  case True
  obtain c r where r: "ChangeSign t = (c, r)" "length r = length t"
      "if ival t = - int (half (length t)) then c = 1 \<and> r = t else c = 0 \<and> ival r = - ival t"
    using ChangeSign_val [OF assms] by blast
  have "r \<noteq> []" using r(2) assms by auto
  then have "int (uval r) = - ival t" using r True uval_of_ival [of r] uval_of_ival [OF assms] by (auto split: if_splits)
  then show ?thesis using True IsSign_val [OF assms] r(1,2) by (simp add: Int_Abs_def)
qed

text \<open>A magnitude of at most half the range becomes negative.\<close>

lemma SetSign_val:
  assumes "t \<noteq> []" and "uval t \<le> half (length t)"
  shows "length (SetSign t) = length t \<and> ival (SetSign t) = - int (uval t)"
proof (cases "uval t = half (length t)")
  case True
  then show ?thesis using IsSign_val [OF assms(1)] half_pos [of "length t"] by (simp add: SetSign_def ival_def)
next
  case False
  then have "ival t = int (uval t)" using assms(2) by (simp add: ival_def)
  moreover obtain c r where "ChangeSign t = (c, r)" "length r = length t"
      "if ival t = - int (half (length t)) then c = 1 \<and> r = t else c = 0 \<and> ival r = - ival t"
    using ChangeSign_val [OF assms(1)] by blast
  ultimately show ?thesis using IsSign_val [OF assms(1)] half_pos [of "length t"] by (simp add: SetSign_def split: if_splits)
qed

section \<open>Addition, subtraction and multiplication\<close>

text \<open>What a method returning a carry promises for the result \<open>x\<close>.\<close>

definition signed_result :: "nat \<Rightarrow> int \<Rightarrow> uint \<times> table \<Rightarrow> bool" where
  "signed_result n x r \<longleftrightarrow> length (snd r) = n \<and> (fst r = 0 \<longleftrightarrow> in_range n x) \<and> (in_range n x \<longrightarrow> ival (snd r) = x)"

lemma Int_Add_val:
  assumes "length s = length t" and "t \<noteq> []"
  shows "signed_result (length t) (ival t + ival s) (Int_Add t s)"
proof -
  let ?H = "half (length t)"
  have sne: "s \<noteq> []" using assms by auto
  obtain c r where r: "UInt_Add t s 0 = (c, r)" "length r = length t" "uval r + 2 * ?H * carry_val c = uval t + uval s"
    using UInt_Add_val [OF assms] full_half [OF assms(2)] by auto
  have rne: "r \<noteq> []" using r(2) assms(2) by auto
  have b: "uval r < 2 * ?H" "uval t < 2 * ?H" "uval s < 2 * ?H" using uval_full [OF rne] uval_full [OF assms(2)] uval_full [OF sne] r(2) assms(1) by simp_all
  have signs: "IsTheHighestBitSet r \<longleftrightarrow> ?H \<le> uval r" "IsSign t \<longleftrightarrow> ?H \<le> uval t" "IsSign s \<longleftrightarrow> ?H \<le> uval s"
    using HighestBit_val rne assms sne r(2) by (simp_all add: IsSign_def)
  have v: "ival t = (if uval t < ?H then int (uval t) else int (uval t) - 2 * int ?H)"
    "ival s = (if uval s < ?H then int (uval s) else int (uval s) - 2 * int ?H)"
    "ival r = (if uval r < ?H then int (uval r) else int (uval r) - 2 * int ?H)"
    using r(2) assms(1) by (simp_all add: ival_def)
  show ?thesis
    unfolding signed_result_def Int_Add_def Let_def r(1) snd_conv fst_conv CorrectCarryAfterAdding_def signs in_range_def v
    using r(2,3) b by (auto split: if_splits)
qed

lemma Int_Sub_val:
  assumes "length s = length t" and "t \<noteq> []"
  shows "signed_result (length t) (ival t - ival s) (Int_Sub t s)"
proof -
  let ?H = "half (length t)"
  have sne: "s \<noteq> []" using assms by auto
  obtain c r where r: "UInt_Sub t s 0 = (c, r)" "length r = length t" "uval r + uval s = uval t + 2 * ?H * carry_val c"
    using UInt_Sub_val [OF assms] full_half [OF assms(2)] by auto
  have rne: "r \<noteq> []" using r(2) assms(2) by auto
  have b: "uval r < 2 * ?H" "uval t < 2 * ?H" "uval s < 2 * ?H" using uval_full [OF rne] uval_full [OF assms(2)] uval_full [OF sne] r(2) assms(1) by simp_all
  have signs: "IsTheHighestBitSet r \<longleftrightarrow> ?H \<le> uval r" "IsSign t \<longleftrightarrow> ?H \<le> uval t" "IsSign s \<longleftrightarrow> ?H \<le> uval s"
    using HighestBit_val rne assms sne r(2) by (simp_all add: IsSign_def)
  have v: "ival t = (if uval t < ?H then int (uval t) else int (uval t) - 2 * int ?H)"
    "ival s = (if uval s < ?H then int (uval s) else int (uval s) - 2 * int ?H)"
    "ival r = (if uval r < ?H then int (uval r) else int (uval r) - 2 * int ?H)"
    using r(2) assms(1) by (simp_all add: ival_def)
  show ?thesis
    unfolding signed_result_def Int_Sub_def Let_def r(1) snd_conv fst_conv CorrectCarryAfterSubtracting_def signs in_range_def v
    using r(2,3) b by (auto split: if_splits)
qed

text \<open>
  The end of a multiplication: from the carry and the table of the product of the magnitudes to the signed product.
\<close>

lemma sign_of_product:
  assumes t: "length t1 = n" "t1 \<noteq> []" and p: "if p < 2 ^ (64 * n) then c = 0 \<and> uval t1 = p else c = 1"
    and x: "x = (if a \<noteq> b then - int p else int p)"
  shows "signed_result n x (c + CheckMinCarry t1 a b, if a \<noteq> b then SetSign t1 else t1)"
proof -
  let ?H = "half n"
  have M: "(2 :: nat) ^ (64 * n) = 2 * ?H" using full_half [OF t(2)] t(1) by simp
  have s: "IsSign t1 \<longleftrightarrow> ?H \<le> uval t1" using HighestBit_val [OF t(2)] t(1) by (simp add: IsSign_def)
  have o: "IsOnlyTheHighestBitSet t1 \<longleftrightarrow> uval t1 = ?H" using OnlyHighest_val [OF t(2)] t(1) by simp
  have len: "length (SetSign t1) = n"
    using ChangeSign_val [OF t(2)] t(1) by (auto simp: SetSign_def)
  show ?thesis
  proof (cases "p < 2 * ?H")
    case False
    then have "c = 1" "\<not> in_range n x" using p M x half_pos [of n] by (auto simp: in_range_def)
    moreover have "c + CheckMinCarry t1 a b \<noteq> 0" using calculation(1) by (simp add: CheckMinCarry_def)
    ultimately show ?thesis using len t(1) by (simp add: signed_result_def)
  next
    case True
    then have c: "c = 0" "uval t1 = p" using p M by simp_all
    have r: "c + CheckMinCarry t1 a b = 0 \<longleftrightarrow> in_range n x"
      using c s o x half_pos [of n] by (auto simp: CheckMinCarry_def in_range_def)
    have "in_range n x \<Longrightarrow> ival (if a \<noteq> b then SetSign t1 else t1) = x"
    proof (cases "a = b")
      case eq: True
      then show "in_range n x \<Longrightarrow> ?thesis" using c(2) t(1) x by (simp add: in_range_def ival_def)
    next
      case False
      then show "in_range n x \<Longrightarrow> ?thesis" using SetSign_val [OF t(2)] c(2) t(1) x by (simp add: in_range_def)
    qed
    then show ?thesis using r len t(1) by (simp add: signed_result_def)
  qed
qed


lemma signed_product:
  fixes i j :: int
  assumes "int p = \<bar>i\<bar>" and "int q = \<bar>j\<bar>"
  shows "i * j = (if (i < 0) \<noteq> (j < 0) then - int (p * q) else int (p * q))"
  using assms by (auto simp: abs_if)

lemma Int_Mul_val:
  assumes "length s = length t" and "t \<noteq> []"
  shows "\<exists>r. Int_Mul t s = Inr r \<and> signed_result (length t) (ival t * ival s) r"
proof -
  have sne: "s \<noteq> []" using assms by auto
  let ?a = "snd (Int_Abs t)" and ?b = "snd (Int_Abs s)"
  have a: "length ?a = length t" "int (uval ?a) = \<bar>ival t\<bar>" "length ?b = length t" "int (uval ?b) = \<bar>ival s\<bar>"
    using Abs_val [OF assms(2)] Abs_val [OF sne] assms(1) by simp_all
  have ane: "?a \<noteq> []" using a(1) assms(2) by auto
  obtain c t1 where m: "UInt_Mul ?a ?b 100 = Inr (c, t1)" "length t1 = length t"
      "if uval ?a * uval ?b < 2 ^ (64 * length t) then c = 0 \<and> uval t1 = uval ?a * uval ?b else c = 1"
    using Mul_carry [of ?b ?a] a ane by auto
  have "t1 \<noteq> []" using m(2) assms(2) by auto
  moreover have "ival t * ival s = (if IsSign t \<noteq> IsSign s then - int (uval ?a * uval ?b) else int (uval ?a * uval ?b))"
    using IsSign_val [OF assms(2)] IsSign_val [OF sne] signed_product [OF a(2,4)] by simp
  ultimately show ?thesis using sign_of_product [OF m(2) _ m(3)] m(1) by (simp add: Int_Mul_def)
qed

text \<open>A \<open>sint\<close> is the signed number of one word.\<close>

lemma two_complement:
  assumes "(k :: nat) < 18446744073709551616"
  shows "signed_take_bit 63 (int k) = (if k < 9223372036854775808 then int k else int k - 18446744073709551616)"
proof -
  have "take_bit 64 (int k) = int k" using assms by (simp add: take_bit_int_eq_self_iff)
  moreover have "bit (int k) 63 \<longleftrightarrow> 9223372036854775808 \<le> k"
  proof -
    have "bit (int k) 63 \<longleftrightarrow> bit k 63" by (simp only: bit_of_nat_iff_bit)
    also have "\<dots> \<longleftrightarrow> odd (k div 9223372036854775808)" by (simp only: bit_iff_odd) simp
    finally have "bit (int k) 63 \<longleftrightarrow> odd (k div 9223372036854775808)" .
    moreover have "k div 9223372036854775808 < 2" using assms by (simp add: less_mult_imp_div_less)
    ultimately show ?thesis by (auto simp: div_eq_0_iff less_2_cases_iff not_less odd_iff_mod_2_eq_one)
  qed
  ultimately show ?thesis using signed_take_bit_eq_take_bit_minus [of 63 "int k"] by simp
qed

lemma sint_val: "sint w = ival [w]"
proof -
  have "sint w = signed_take_bit 63 (int (unat w))" unfolding uint_nat [symmetric] by (simp add: sint_uint)
  then show ?thesis using two_complement [OF unat_bound [of w]] by (simp add: ival_def half_def)
qed

lemma sint_abs_val:
  assumes "w \<noteq> TTMATH_UINT_HIGHEST_BIT"
  shows "\<exists>a. sint_abs w = Inr (sint w < 0, a) \<and> int (unat a) = \<bar>sint w\<bar>"
proof -
  have w: "unat w \<noteq> 9223372036854775808"
    using assms unat_inject64 [of w TTMATH_UINT_HIGHEST_BIT] by (simp add: TTMATH_UINT_HIGHEST_BIT_def)
  have v: "sint w = (if unat w < 9223372036854775808 then int (unat w) else int (unat w) - 18446744073709551616)"
    unfolding sint_val by (simp add: ival_def half_def)
  show ?thesis
  proof (cases "sint w < 0")
    case True
    have "unat (- w) = 18446744073709551616 - unat w"
      using True v unat_sub64 [of 0 w] unat_bound [of w] by (auto split: if_splits)
    then have "int (unat (- w)) = - sint w" using True v unat_bound [of w] by (simp split: if_splits)
    then show ?thesis using True assms by (simp add: sint_abs_def)
  next
    case False
    then show ?thesis using v unat_bound [of w] by (simp add: sint_abs_def split: if_splits)
  qed
qed

lemma Int_MulInt_val:
  assumes "t \<noteq> []" and "w \<noteq> TTMATH_UINT_HIGHEST_BIT"
  shows "\<exists>r. Int_MulInt w t = Inr r \<and> signed_result (length t) (ival t * sint w) r"
proof -
  obtain x where x: "sint_abs w = Inr (sint w < 0, x)" "int (unat x) = \<bar>sint w\<bar>" using sint_abs_val [OF assms(2)] by blast
  let ?a = "snd (Int_Abs t)"
  have a: "length ?a = length t" "int (uval ?a) = \<bar>ival t\<bar>" "?a \<noteq> []" using Abs_val [OF assms(1)] assms(1) by auto
  obtain c t1 where m: "MulInt x ?a = Inr (c, t1)" "length t1 = length t"
      "if uval ?a * unat x < 2 ^ (64 * length t) then c = 0 \<and> uval t1 = uval ?a * unat x else c = 1"
  proof -
    obtain c t1 where "MulInt x ?a = Inr (c, t1)" "product_fits (length ?a) (uval ?a * unat x) (c, t1)"
      using MulInt_val [OF a(3), of x] by (metis surj_pair)
    then show thesis using that [of c t1] a(1) unfolding product_fits_def fst_conv snd_conv by simp
  qed
  have "t1 \<noteq> []" using m(2) assms(1) by auto
  moreover have "ival t * sint w = (if IsSign t \<noteq> (sint w < 0) then - int (uval ?a * unat x) else int (uval ?a * unat x))"
    unfolding IsSign_val [OF assms(1)] by (rule signed_product [OF a(2) x(2)])
  ultimately show ?thesis using sign_of_product [OF m(2) _ m(3)] m(1) x(1) by (simp add: Int_MulInt_def)
qed

section \<open>Comparison\<close>

lemma ival_top:
  assumes "t \<noteq> []"
  shows "ival t = 2 ^ (64 * (length t - 1)) * sint (t ! (length t - 1)) + int (uval (take (length t - 1) t))"
proof -
  let ?n = "length t - 1" and ?w = "t ! (length t - 1)"
  let ?B = "(2 :: nat) ^ (64 * ?n)"
  have t: "uval t = uval (take ?n t) + ?B * unat ?w" using assms uval_take_Suc [of ?n t] by simp
  have l: "uval (take ?n t) < ?B" by (simp add: uval_take)
  have H: "half (length t) = 9223372036854775808 * ?B" using half_split [OF assms] by simp
  have "uval t < half (length t) \<longleftrightarrow> unat ?w < 9223372036854775808"
  proof
    assume "unat ?w < 9223372036854775808"
    then have le: "unat ?w + 1 \<le> 9223372036854775808" by simp
    have "uval t < ?B * (unat ?w + 1)" unfolding t using l by (simp add: distrib_left)
    also have "\<dots> \<le> ?B * 9223372036854775808" using le by (rule mult_le_mono2)
    finally show "uval t < half (length t)" unfolding H by (simp only: mult.commute)
  next
    assume "uval t < half (length t)"
    then have "?B * unat ?w < 9223372036854775808 * ?B" unfolding t H by linarith
    then have "?B * unat ?w < ?B * 9223372036854775808" by (simp only: mult.commute)
    then show "unat ?w < 9223372036854775808" by simp
  qed
  moreover have "sint ?w = (if unat ?w < 9223372036854775808 then int (unat ?w) else int (unat ?w) - 18446744073709551616)"
    unfolding sint_val by (simp add: ival_def half_def)
  moreover have "int (uval t) = int (uval (take ?n t)) + int ?B * int (unat ?w)" "int (half (length t)) = 9223372036854775808 * int ?B" "int ?B = 2 ^ (64 * ?n)"
    unfolding t H by simp_all
  ultimately show ?thesis unfolding ival_def by (simp add: algebra_simps)
qed

text \<open>The operators compare the signed numbers.\<close>

lemma top_decides:
  assumes "(a :: int) < a'" and "0 \<le> l" and "l < B" and "0 \<le> l'"
  shows "B * a + l < B * a' + l'"
proof -
  have "B * (a + 1) \<le> B * a'" using assms by (intro mult_left_mono) simp_all
  then show ?thesis using assms by (simp add: distrib_left)
qed

lemma Int_compare:
  assumes "length l = length t" and "t \<noteq> []"
  shows "Int_less t l \<longleftrightarrow> ival t < ival l" "Int_greater t l \<longleftrightarrow> ival t > ival l"
    "Int_less_equal t l \<longleftrightarrow> ival t \<le> ival l" "Int_greater_equal t l \<longleftrightarrow> ival t \<ge> ival l"
proof -
  let ?n = "length t - 1"
  let ?B = "(2 :: int) ^ (64 * ?n)" and ?a = "sint (t ! ?n)" and ?b = "sint (l ! ?n)" and ?u = "uval (take ?n t)" and ?v = "uval (take ?n l)"
  have lne: "l \<noteq> []" using assms by auto
  have v: "ival t = ?B * ?a + int ?u" "ival l = ?B * ?b + int ?v" using ival_top [OF assms(2)] ival_top [OF lne] assms(1) by simp_all
  have "?u < 2 ^ (64 * ?n)" "?v < 2 ^ (64 * ?n)" by (simp_all add: uval_take)
  then have b: "int ?u < ?B" "int ?v < ?B" by (metis of_nat_less_iff of_nat_numeral of_nat_power)+
  have c: "cmp_loop (<) e ?n t l \<longleftrightarrow> ?u < ?v \<or> e \<and> ?u = ?v" "cmp_loop (>) e ?n t l \<longleftrightarrow> ?v < ?u \<or> e \<and> ?u = ?v" for e
    using cmp_loop_less [of ?n t l e] cmp_loop_less [of ?n l t e] assms(1) by (auto simp: cmp_loop_swap)
  consider (lt) "?a < ?b" | (gt) "?b < ?a" | (eq) "?a = ?b" by linarith
  then have "(Int_less t l \<longleftrightarrow> ival t < ival l) \<and> (Int_greater t l \<longleftrightarrow> ival t > ival l) \<and>
    (Int_less_equal t l \<longleftrightarrow> ival t \<le> ival l) \<and> (Int_greater_equal t l \<longleftrightarrow> ival t \<ge> ival l)"
  proof cases
    case lt
    then have "ival t < ival l" unfolding v using b by (intro top_decides) simp_all
    then show ?thesis using lt by (simp add: Int_less_def Int_greater_def Int_less_equal_def Int_greater_equal_def)
  next
    case gt
    then have "ival l < ival t" unfolding v using b by (intro top_decides) simp_all
    then show ?thesis using gt by (simp add: Int_less_def Int_greater_def Int_less_equal_def Int_greater_equal_def)
  next
    case eq
    then show ?thesis unfolding v Int_less_def Int_greater_def Int_less_equal_def Int_greater_equal_def Let_def c by auto
  qed
  then show "Int_less t l \<longleftrightarrow> ival t < ival l" "Int_greater t l \<longleftrightarrow> ival t > ival l"
    "Int_less_equal t l \<longleftrightarrow> ival t \<le> ival l" "Int_greater_equal t l \<longleftrightarrow> ival t \<ge> ival l" by simp_all
qed

section \<open>Conversions between sizes\<close>

abbreviation sign_mask :: "table \<Rightarrow> uint" where
  "sign_mask t \<equiv> (if t ! (length t - 1) AND TTMATH_UINT_HIGHEST_BIT \<noteq> 0 then TTMATH_UINT_MAX_VALUE else 0)"

lemma sign_extend:
  assumes "p \<noteq> []"
  shows "ival (p @ replicate k (sign_mask p)) = ival p"
proof -
  let ?H = "half (length p)" and ?K = "half (length p + k)" and ?q = "p @ replicate k (sign_mask p)"
  have s: "p ! (length p - 1) AND TTMATH_UINT_HIGHEST_BIT \<noteq> 0 \<longleftrightarrow> ?H \<le> uval p"
    using HighestBit_val [OF assms] by (simp add: IsTheHighestBitSet_def)
  have len: "length ?q = length p + k" by simp
  have le: "?H \<le> ?K" unfolding half_def by (intro power_increasing) simp_all
  have M: "(2 :: nat) ^ (64 * length p) = 2 * ?H" "(2 :: nat) ^ (64 * (length p + k)) = 2 * ?K"
    using full_half [OF assms] full_half [of ?q] assms len by simp_all
  have k: "(2 :: nat) ^ (64 * length p) * (2 ^ (64 * k) - 1) = 2 ^ (64 * (length p + k)) - 2 ^ (64 * length p)"
    by (simp add: right_diff_distrib' power_add distrib_left)
  show ?thesis
  proof (cases "?H \<le> uval p")
    case True
    have "uval ?q = uval p + (2 * ?K - 2 * ?H)"
      using True s uval_mask [of k 1] k M by (simp add: uval_append ones_def)
    then show ?thesis using True le uval_full [OF assms] unfolding ival_def len by auto
  next
    case False
    then have "uval ?q = uval p" using s by (simp add: uval_append)
    then show ?thesis using False le unfolding ival_def len by auto
  qed
qed

lemma constant_list: "xs = replicate (length xs) x \<longleftrightarrow> list_all (\<lambda>w. w = x) xs"
  by (induction xs) auto

lemma ival_mod: "t \<noteq> [] \<Longrightarrow> ival t mod 2 ^ (64 * length t) = int (uval t)"
proof -
  assume t: "t \<noteq> []"
  have M: "(2 :: int) ^ (64 * length t) = 2 * int (half (length t))" using arg_cong [OF full_half [OF t], of int] by simp
  have "int (uval t) < 2 * int (half (length t))" using uval_full [OF t] by linarith
  then have "int (uval t) mod (2 * int (half (length t))) = int (uval t)" by (intro mod_pos_pos_trivial) simp_all
  then show ?thesis unfolding M ival_def by simp
qed

lemma in_range_cong:
  assumes "in_range n x" and "in_range n y" and "n \<noteq> 0" and "x mod 2 ^ (64 * n) = y mod 2 ^ (64 * n)"
  shows "x = y"
proof -
  have M: "(2 :: int) ^ (64 * n) = 2 * int (half n)" using arg_cong [OF full_half [of "replicate n 0"], of int] assms(3) by simp
  have "2 * int (half n) dvd x - y" using assms(4) unfolding M by (simp add: mod_eq_dvd_iff)
  moreover have "\<bar>x - y\<bar> < 2 * int (half n)" using assms(1,2) by (auto simp: in_range_def)
  ultimately show ?thesis by (metis dvd_imp_le_int eq_iff_diff_eq_0 linorder_not_less zdvd_not_zless abs_of_nonneg of_nat_0_le_iff zero_le_mult_iff zero_le_numeral)
qed

text \<open>
  The conversion of an \<open>Int\<close> of any size returns zero exactly when its number is in the range of the object, and then the object
  holds it; conversions from and to a \<open>sint\<close> likewise.
\<close>

lemma FromInt_val:
  assumes "p \<noteq> []" and "t \<noteq> []"
  shows "signed_result (length t) (ival p) (FromUIntOrInt p False t)"
proof (cases "length t > length p")
  case True
  let ?r = "p @ replicate (length t - length p) (sign_mask p)"
  have "FromUIntOrInt p False t = (0, ?r)" using True by (simp add: FromUIntOrInt_def)
  moreover have "ival ?r = ival p" by (rule sign_extend [OF assms(1)])
  moreover have "in_range (length t) (ival ?r)" using ival_range [of ?r] assms(1) True by simp
  ultimately show ?thesis using True by (simp add: signed_result_def)
next
  case False
  let ?n = "length t"
  let ?t = "take ?n p" and ?rest = "drop ?n p"
  have tn: "length ?t = ?n" "?t \<noteq> []" using False assms(2) by auto
  let ?q = "?t @ replicate (length ?rest) (sign_mask ?t)"
  have q: "ival ?q = ival ?t" by (rule sign_extend [OF tn(2)])
  have same: "\<not> list_ex (\<lambda>w. w \<noteq> sign_mask ?t) ?rest \<longleftrightarrow> p = ?q"
  proof -
    have "?t @ ?rest = ?q \<longleftrightarrow> ?rest = replicate (length ?rest) (sign_mask ?t)" by (rule same_append_eq)
    also have "\<dots> \<longleftrightarrow> list_all (\<lambda>w. w = sign_mask ?t) ?rest" by (rule constant_list)
    finally show ?thesis unfolding append_take_drop_id list_ex_iff list_all_iff by blast
  qed
  have "ival p mod 2 ^ (64 * ?n) = int (uval ?t)"
  proof -
    have d: "(2 :: int) ^ (64 * ?n) dvd 2 ^ (64 * length p)" using False by (intro le_imp_power_dvd) simp
    have "ival p mod 2 ^ (64 * ?n) = ival p mod 2 ^ (64 * length p) mod 2 ^ (64 * ?n)" using d by (simp add: mod_mod_cancel)
    also have "\<dots> = int (uval p mod 2 ^ (64 * ?n))" unfolding ival_mod [OF assms(1)] by (simp add: zmod_int)
    finally show ?thesis by (simp add: uval_take)
  qed
  then have c: "ival p mod 2 ^ (64 * ?n) = ival ?t mod 2 ^ (64 * ?n)" using ival_mod [OF tn(2)] tn(1) by simp
  have "in_range ?n (ival p) \<longleftrightarrow> ival p = ival ?t"
    using in_range_cong [OF _ _ _ c] ival_range [OF tn(2)] tn(1) assms(2) by auto
  also have "\<dots> \<longleftrightarrow> p = ?q" using q ival_inject [of ?q p] assms(1) False by auto
  finally have r: "in_range ?n (ival p) \<longleftrightarrow> p = ?q" .
  have run: "FromUIntOrInt p False t = (if p = ?q then 0 else 1, ?t)"
    using False tn(1) same by (cases "?t ! (?n - 1) AND TTMATH_UINT_HIGHEST_BIT = 0") (auto simp: FromUIntOrInt_def Let_def)
  show ?thesis unfolding run signed_result_def r using q tn(1) by auto
qed

lemma Int_FromInt_val:
  assumes "t \<noteq> []"
  shows "length (snd (Int_FromInt v t)) = length t \<and> ival (snd (Int_FromInt v t)) = sint v"
proof -
  have "sint v < 0 \<longleftrightarrow> v AND TTMATH_UINT_HIGHEST_BIT \<noteq> 0"
    using IsSign_val [of "[v]"] by (simp add: sint_val IsSign_def IsTheHighestBitSet_def)
  then have "snd (Int_FromInt v t) = [v] @ replicate (length t - 1) (sign_mask [v])" by (simp add: Int_FromInt_def)
  then show ?thesis using sign_extend [of "[v]" "length t - 1"] assms by (simp add: sint_val)
qed

lemma Int_ToInt_val:
  assumes "t \<noteq> []"
  shows "snd (Int_ToInt t) = t ! 0 \<and> (fst (Int_ToInt t) = 0 \<longrightarrow> sint (t ! 0) = ival t)"
proof -
  obtain w ws where t: "t = w # ws" using assms by (cases t) auto
  let ?mask = "if IsSign t then TTMATH_UINT_MAX_VALUE else 0"
  have "sint w = ival t" if f: "fst (Int_ToInt t) = 0"
  proof -
    have a: "w AND TTMATH_UINT_HIGHEST_BIT = ?mask AND TTMATH_UINT_HIGHEST_BIT" "list_all (\<lambda>x. x = ?mask) ws"
      using f by (auto simp: Int_ToInt_def t Let_def list_ex_iff list_all_iff split: if_splits)
    have "TTMATH_UINT_MAX_VALUE AND TTMATH_UINT_HIGHEST_BIT \<noteq> 0" by code_simp
    then have "?mask = sign_mask [w]" using a(1) by auto
    then have "ws = replicate (length ws) (sign_mask [w])" using a(2) constant_list [of ws "sign_mask [w]"] by (simp only:)
    then have "t = [w] @ replicate (length ws) (sign_mask [w])" unfolding t by (metis append_Cons append_Nil)
    then show ?thesis using sign_extend [of "[w]" "length ws"] by (simp add: sint_val)
  qed
  moreover have "snd (Int_ToInt t) = t ! 0" by (simp add: Int_ToInt_def Let_def)
  ultimately show ?thesis by (simp add: t)
qed

section \<open>Division\<close>

text \<open>Division towards zero: the remainder has the sign of the dividend.\<close>

definition trunc_div :: "int \<Rightarrow> int \<Rightarrow> int \<Rightarrow> int \<Rightarrow> bool" where
  "trunc_div a b q r \<longleftrightarrow> a = b * q + r \<and> \<bar>r\<bar> < \<bar>b\<bar> \<and> (r = 0 \<or> (r < 0 \<longleftrightarrow> a < 0))"

lemma trunc_div_signs:
  assumes "int x = \<bar>a\<bar>" and "int y = \<bar>b\<bar>" and "b \<noteq> 0"
  shows "trunc_div a b (if (a < 0) \<noteq> (b < 0) then - int (x div y) else int (x div y)) (if a < 0 then - int (x mod y) else int (x mod y))"
proof -
  have y: "0 < y" using assms(2,3) by (cases y) simp_all
  have e: "int x = int y * int (x div y) + int (x mod y)"
    by (simp flip: of_nat_mult of_nat_add)
  have "int (x mod y) < int y" using y by simp
  then show ?thesis using e assms(1,2) unfolding trunc_div_def by (auto simp: abs_if split: if_splits)
qed

text \<open>The quotient with its sign; only the smallest number divided by minus one is out of range, and comes back unchanged.\<close>

lemma quotient_sign:
  fixes a b :: int
  assumes ne: "q \<noteq> []" and x: "int x = \<bar>a\<bar>" and y: "int y = \<bar>b\<bar>" and b: "b \<noteq> 0" and a: "in_range (length q) a" and q: "uval q = x div y"
  shows "length (if (a < 0) \<noteq> (b < 0) then SetSign q else q) = length q \<and>
    ival (if (a < 0) \<noteq> (b < 0) then SetSign q else q) =
      (if a = - int (half (length q)) \<and> b = -1 then a else if (a < 0) \<noteq> (b < 0) then - int (x div y) else int (x div y))"
proof -
  let ?H = "half (length q)"
  have xH: "x \<le> ?H" using a x by (auto simp: in_range_def)
  have qH: "uval q \<le> ?H" unfolding q using xH by (meson div_le_dividend le_trans)
  have ypos: "0 < y" using y b by (cases y) simp_all
  show ?thesis
  proof (cases "(a < 0) = (b < 0)")
    case False
    then have "\<not> (a = - int ?H \<and> b = -1)" using half_pos [of "length q"] by auto
    then show ?thesis using SetSign_val [OF ne qH] q False by auto
  next
    case same: True
    show ?thesis
    proof (cases "a = - int ?H \<and> b = -1")
      case True
      then have "uval q = ?H" using q x y by simp
      then show ?thesis using True half_pos [of "length q"] by (simp add: ival_def)
    next
      case False
      have "uval q \<noteq> ?H"
      proof
        assume h: "uval q = ?H"
        then have "x = ?H" "x div y = x" using q xH by (metis div_le_dividend le_antisym)+
        then have "y = 1" using half_pos [of "length q"] ypos by (metis div_less_dividend less_irrefl less_one linorder_neqE_nat)
        then show False using \<open>x = ?H\<close> False same x y a by (auto simp: in_range_def)
      qed
      then have "ival q = int (x div y)" using qH ival_small [of q] q by simp
      then show ?thesis using same False by auto
    qed
  qed
qed

lemma Int_Div_val:
  assumes l: "length v = length t" "t \<noteq> []" "length r0 = length t" and v: "ival v \<noteq> 0"
  shows "\<exists>q r. Int_Div t v (Some r0) = Inr (0, q, Some r) \<and> length q = length t \<and> length r = length t \<and>
    (if ival t = - int (half (length t)) \<and> ival v = -1 then q = t \<and> ival r = 0 else trunc_div (ival t) (ival v) (ival q) (ival r))"
proof -
  let ?a = "snd (Int_Abs t)" and ?b = "snd (Int_Abs v)"
  have vne: "v \<noteq> []" using l by auto
  have a: "length ?a = length t" "int (uval ?a) = \<bar>ival t\<bar>" "length ?b = length t" "int (uval ?b) = \<bar>ival v\<bar>"
    using Abs_val [OF l(2)] Abs_val [OF vne] l(1) by simp_all
  have ane: "?a \<noteq> []" using a(1) l(2) by auto
  have bpos: "0 < uval ?b" using a(4) v by (cases "uval ?b") simp_all
  obtain q r where d: "UInt_Div ?a ?b (Some r0) 3 = Inr (0, q, Some r)" "length q = length t" "length r = length t"
      "uval q = uval ?a div uval ?b" "uval r = uval ?a mod uval ?b"
    using UInt_Div_val [of ?b ?a "Some r0" 3] a ane bpos l(3) by (auto simp: div_exact_def)
  have ne: "q \<noteq> []" "r \<noteq> []" using d(2,3) l(2) by auto
  have "uval ?b \<le> half (length t)" using ival_range [OF vne] a l(1) by (auto simp: in_range_def)
  then have rb: "uval r < half (length t)" unfolding d(5) using bpos by (meson mod_less_divisor less_le_trans)
  have sgn: "IsSign t \<longleftrightarrow> ival t < 0" "IsSign v \<longleftrightarrow> ival v < 0" using IsSign_val l(2) vne by simp_all
  let ?q = "if (ival t < 0) \<noteq> (ival v < 0) then SetSign q else q" and ?r = "if ival t < 0 then SetSign r else r"
  have run: "Int_Div t v (Some r0) = Inr (0, ?q, Some ?r)" using d(1) sgn by (simp add: Int_Div_def)
  have r: "length ?r = length t" "ival ?r = (if ival t < 0 then - int (uval ?a mod uval ?b) else int (uval ?a mod uval ?b))"
    using SetSign_val [OF ne(2)] ival_small [of r] rb d(3,5) by simp_all
  note q = quotient_sign [OF ne(1) a(2,4) v _ d(4), unfolded d(2), OF ival_range [OF l(2)]]
  show ?thesis
  proof (cases "ival t = - int (half (length t)) \<and> ival v = -1")
    case True
    then have "uval ?b = 1" using a by simp
    then have "ival ?r = 0" using r(2) by simp
    moreover have "?q = t" using q unfolding if_P [OF True] by (elim conjE) (rule ival_inject [OF _ l(2)])
    ultimately show ?thesis unfolding if_P [OF True] using run q r(1) by blast
  next
    case False
    have "ival ?q = (if (ival t < 0) \<noteq> (ival v < 0) then - int (uval ?a div uval ?b) else int (uval ?a div uval ?b))"
      using q unfolding if_not_P [OF False] by (rule conjunct2)
    then have "trunc_div (ival t) (ival v) (ival ?q) (ival ?r)" using trunc_div_signs [OF a(2,4) v] r(2) by (simp only:)
    then show ?thesis unfolding if_not_P [OF False] using run q r(1) by blast
  qed
qed

lemma Int_Div_zero:
  assumes l: "length v = length t" "t \<noteq> []" "length r0 = length t" and v: "ival v = 0"
  shows "\<exists>r. Int_Div t v (Some r0) = Inr (1, t, Some r)"
proof -
  let ?a = "snd (Int_Abs t)" and ?b = "snd (Int_Abs v)"
  have vne: "v \<noteq> []" using l by auto
  have a: "length ?a = length t" "int (uval ?a) = \<bar>ival t\<bar>" "length ?b = length t" "uval ?b = 0"
    using Abs_val [OF l(2)] Abs_val [OF vne] l(1) v by simp_all
  have ane: "?a \<noteq> []" using a(1) l(2) by auto
  have sgn: "IsSign t \<longleftrightarrow> ival t < 0" "\<not> IsSign v" using IsSign_val l(2) vne v by simp_all
  have "uval ?a \<le> half (length t)" using ival_range [OF l(2)] a(2) by (auto simp: in_range_def)
  then have "IsSign t \<Longrightarrow> SetSign ?a = t" using SetSign_val [OF ane] a(1,2) sgn(1) ival_inject [OF _ l(2), of "SetSign ?a"] by simp
  moreover have "\<not> IsSign t \<Longrightarrow> ?a = t" by (simp add: Int_Abs_def)
  moreover have "UInt_Div ?a ?b (Some r0) 3 = Inr (1, ?a, Some r0)" using UInt_Div_zero [of ?b ?a "Some r0" 3] a ane l(3) by simp
  ultimately show ?thesis using sgn(2) by (simp add: Int_Div_def)
qed

lemma sint_neg: "unat (r :: uint) < 9223372036854775808 \<Longrightarrow> sint (- r) = - int (unat r) \<and> sint r = int (unat r)"
proof -
  assume r: "unat r < 9223372036854775808"
  have "unat (- r) = (if unat r = 0 then 0 else 18446744073709551616 - unat r)" using unat_sub64 [of 0 r] by simp
  then show ?thesis using r unfolding sint_val by (auto simp: ival_def half_def unat_eq_zero)
qed

lemma Int_DivInt_val:
  assumes "t \<noteq> []" and "w \<noteq> TTMATH_UINT_HIGHEST_BIT" and "sint w \<noteq> 0"
  shows "\<exists>q r. Int_DivInt w t = Inr (0, r, q) \<and> length q = length t \<and>
    (if ival t = - int (half (length t)) \<and> sint w = -1 then q = t \<and> sint r = 0 else trunc_div (ival t) (sint w) (ival q) (sint r))"
proof -
  let ?a = "snd (Int_Abs t)"
  obtain y where y: "sint_abs w = Inr (sint w < 0, y)" "int (unat y) = \<bar>sint w\<bar>" using sint_abs_val [OF assms(2)] by blast
  have a: "length ?a = length t" "int (uval ?a) = \<bar>ival t\<bar>" "?a \<noteq> []" using Abs_val [OF assms(1)] assms(1) by auto
  have ypos: "0 < unat y" using y(2) assms(3) by (cases "unat y") simp_all
  then have "y \<noteq> 0" by auto
  then obtain q0 r0 where d: "DivInt y ?a = Inr (0, r0, q0)" "length q0 = length t" "uval q0 = uval ?a div unat y" "unat r0 = uval ?a mod unat y"
    using DivInt_val [OF a(3), of y] a(1) by auto
  have ne: "q0 \<noteq> []" using d(2) assms(1) by auto
  have "in_range 1 (sint w)" using ival_range [of "[w]"] by (simp add: sint_val)
  then have "unat y \<le> half 1" using y(2) unfolding in_range_def by linarith
  then have "unat r0 < 9223372036854775808" unfolding d(4) using ypos mod_less_divisor [OF ypos, of "uval ?a"] by (simp add: half_def)
  note r = sint_neg [OF this]
  have sgn: "IsSign t \<longleftrightarrow> ival t < 0" using IsSign_val [OF assms(1)] .
  let ?q = "if (ival t < 0) \<noteq> (sint w < 0) then SetSign q0 else q0" and ?r = "if ival t < 0 then - r0 else r0"
  have run: "Int_DivInt w t = Inr (0, ?r, ?q)" using y(1) d(1) sgn by (simp add: Int_DivInt_def)
  have rv: "sint ?r = (if ival t < 0 then - int (uval ?a mod unat y) else int (uval ?a mod unat y))"
    using r unfolding d(4) by (metis (full_types))
  note q = quotient_sign [OF ne a(2) y(2) assms(3) _ d(3), unfolded d(2), OF ival_range [OF assms(1)]]
  show ?thesis
  proof (cases "ival t = - int (half (length t)) \<and> sint w = -1")
    case True
    then have "int (unat y) = 1" using y by linarith
    then have "unat y = 1" by linarith
    then have "sint ?r = 0" unfolding rv by simp
    moreover have "?q = t" using q unfolding if_P [OF True] by (elim conjE) (rule ival_inject [OF _ assms(1)])
    ultimately show ?thesis unfolding if_P [OF True] using run q by blast
  next
    case False
    have "ival ?q = (if (ival t < 0) \<noteq> (sint w < 0) then - int (uval ?a div unat y) else int (uval ?a div unat y))"
      using q unfolding if_not_P [OF False] by (rule conjunct2)
    then have "trunc_div (ival t) (sint w) (ival ?q) (sint ?r)" using trunc_div_signs [OF a(2) y(2) assms(3)] rv by (simp only:)
    then show ?thesis unfolding if_not_P [OF False] using run q by blast
  qed
qed

section \<open>Powers\<close>

text \<open>\<open>Pow\<close> of a number that is not negative looks only at the unsigned range.\<close>

lemma Int_Pow_val:
  assumes "length pow = length t" and "t \<noteq> []" and "0 \<le> ival t" and "0 \<le> ival pow" and "uval pow \<noteq> 0 \<or> uval t \<noteq> 0"
  shows "\<exists>st r. Int_Pow t pow = Inr (st, r) \<and> length r = length t \<and>
    (if uval t ^ uval pow < 2 * half (length t) then st = 0 \<and> uval r = uval t ^ uval pow else st = 1)"
proof -
  have pne: "pow \<noteq> []" using assms(1,2) by auto
  have s: "\<not> IsSign t" "\<not> IsSign pow" using IsSign_val [OF assms(2)] IsSign_val [OF pne] assms(3,4) by simp_all
  obtain st r where "UInt_Pow t pow = Inr (st, r)" "length r = length t"
      "if uval t ^ uval pow < 2 * half (length t) then st = 0 \<and> uval r = uval t ^ uval pow else st = 1"
    using UInt_Pow_val [OF assms(1,2)] assms(5) unfolding full_half [OF assms(2)] by auto
  then show ?thesis using s by (auto simp: Int_Pow_def Int_Pow2_def split: if_splits)
qed

section \<open>Strings\<close>

lemma sign_no_digit: "\<not> is_digit b (CHR ''-'')" "\<not> is_digit b (CHR ''+'')" "\<not> is_white (CHR ''-'')"
  by (simp_all add: is_digit_def CharToDigit_def char_to_uint_def is_white_def)

lemma read_sign_digits:
  assumes "list_all is_white w" and "list_all (is_digit b) ds" and "ds \<noteq> []"
  shows "read_sign (w @ ds @ s) = (False, ds @ s)" "read_sign (w @ ''-'' @ ds @ s) = (True, ds @ s)"
proof -
  obtain x xs where d: "ds = x # xs" using assms(3) by (cases ds) auto
  have "is_digit b x" using assms(2) d by simp
  then have x: "x \<noteq> CHR ''-''" "x \<noteq> CHR ''+''" using sign_no_digit by auto
  show "read_sign (w @ ds @ s) = (False, ds @ s)"
    using skip_white [OF assms(1), of "ds @ s"] skip_digits [OF assms(2,3), of s] x by (simp add: read_sign_def d)
  show "read_sign (w @ ''-'' @ ds @ s) = (True, ds @ s)"
    using skip_white [OF assms(1), of "''-'' @ ds @ s"] skip_digits [OF assms(2,3), of s] by (simp add: read_sign_def)
qed

lemma signed_roundtrip_pos:
  assumes t: "t \<noteq> []" "length t0 = length t" "0 \<le> ival t" and b: "2 \<le> unat b" "unat b \<le> 16"
    and w: "list_all is_white w" and after: "after = [] \<or> \<not> is_digit b (hd after)"
  shows "\<exists>s. Int_ToString t b = Inr s \<and> Int_FromStringBase (w @ s @ after) b t0 = Inr (0, t, after, True)"
proof -
  have ne: "t0 \<noteq> []" using t(1,2) by auto
  obtain ds where ds: "Int_ToString t b = Inr ds" "ds \<noteq> []" "list_all (is_digit b) ds" "digits_value b 0 ds = uval t"
    using ToStringBase_val [OF t(1) b, of False] IsSign_val [OF t(1)] t(3) by (auto simp: Int_ToString_def)
  have "digits_value b 0 ds < 2 ^ (64 * length t0)" using ds(4) uval_less [of t] t(2) by simp
  then obtain t' where r: "FromStringBase ([] @ ds @ after) b t0 = Inr (0, t', after, True)" "length t' = length t" "uval t' = uval t"
    using FromString_digits [OF ne b _ ds(3,2) after, of "[]"] ds(4) t(2) by auto
  have "t' = t" using uval_inject [OF r(2,3)] .
  moreover have "\<not> CmpBigger t (Int_SetMax t0) (- 1)"
    using CmpBigger_whole [of t "Int_SetMax t0"] SetMax_val [OF ne] t uval_of_ival [OF t(1)] ival_range [OF t(1)] by (auto simp: in_range_def)
  ultimately show ?thesis using ds(1) read_sign_digits(1) [OF w ds(3,2)] r(1) by (simp add: Int_FromStringBase_def)
qed

lemma signed_roundtrip_neg:
  assumes t: "t \<noteq> []" "length t0 = length t" "ival t < 0" and b: "2 \<le> unat b" "unat b \<le> 16"
    and w: "list_all is_white w" and after: "after = [] \<or> \<not> is_digit b (hd after)"
  shows "\<exists>s. Int_ToString t b = Inr s \<and> Int_FromStringBase (w @ s @ after) b t0 = Inr (0, t, after, True)"
proof -
  have ne: "t0 \<noteq> []" using t(1,2) by auto
  let ?a = "snd (Int_Abs t)"
  have a: "length ?a = length t" "int (uval ?a) = - ival t" "?a \<noteq> []" using Abs_val [OF t(1)] t(1,3) by auto
  have H: "uval ?a \<le> half (length t)" "uval ?a \<noteq> 0" using ival_range [OF t(1)] a(2) t(3) by (auto simp: in_range_def)
  obtain ds where ds: "Int_ToString t b = Inr (''-'' @ ds)" "ds \<noteq> []" "list_all (is_digit b) ds" "digits_value b 0 ds = uval ?a"
    using ToStringBase_val [OF a(3) b, of True] IsSign_val [OF t(1)] t(3) H(2) by (auto simp: Int_ToString_def)
  have "digits_value b 0 ds < 2 ^ (64 * length t0)" using ds(4) uval_less [of ?a] t(2) a(1) by simp
  then obtain t' where r: "FromStringBase ([] @ ds @ after) b t0 = Inr (0, t', after, True)" "length t' = length t" "uval t' = uval ?a"
    using FromString_digits [OF ne b _ ds(3,2) after, of "[]"] ds(4) t(2) by auto
  have "t' = ?a" using uval_inject [of t' ?a] r(2,3) a(1) by simp
  moreover have "\<not> CmpBigger ?a (Int_SetMin t0) (- 1)" using CmpBigger_whole [of ?a "Int_SetMin t0"] SetMin_val [OF ne] t(2) a(1) H(1) by simp
  moreover have "snd (ChangeSign ?a) = t"
  proof -
    obtain c x where x: "ChangeSign ?a = (c, x)" "length x = length t"
        "if ival ?a = - int (half (length t)) then c = 1 \<and> x = ?a else c = 0 \<and> ival x = - ival ?a"
      using ChangeSign_val [OF a(3)] a(1) by auto
    have "ival x = ival t"
    proof (cases "uval ?a = half (length t)")
      case True
      then have "ival ?a = - int (half (length t))" using a(1) by (simp add: ival_def)
      then show ?thesis using x(3) True a(2) by simp
    next
      case False
      then have "ival ?a = - ival t" using H(1) ival_small [of ?a] a(1,2) by simp
      then show ?thesis using x(3) t(3) half_pos [of "length t"] by (simp split: if_splits)
    qed
    then show ?thesis using x(1) ival_inject [OF x(2) t(1)] by simp
  qed
  ultimately show ?thesis using ds(1) read_sign_digits(2) [OF w ds(3,2)] r(1) by (simp add: Int_FromStringBase_def)
qed

section \<open>Properties\<close>

text \<open>
  C36. Signed arithmetic refines arithmetic of integers. For operands of one size \<open>Add\<close>, \<open>Sub\<close> and \<open>Mul\<close> return zero exactly when the
  sum, difference or product is in the range of the type, and then the object holds it; \<open>ChangeSign\<close> fails only for the
  smallest number; the operators \<open><\<close>, \<open>>\<close>, \<open><=\<close> and \<open>>=\<close> compare the numbers.
\<close>

theorem signed_arithmetic:
  assumes "length s = length t" and "t \<noteq> []"
  shows "signed_result (length t) (ival t + ival s) (Int_Add t s) \<and> signed_result (length t) (ival t - ival s) (Int_Sub t s) \<and>
    (\<exists>r. Int_Mul t s = Inr r \<and> signed_result (length t) (ival t * ival s) r) \<and>
    signed_result (length t) (- ival t) (ChangeSign t) \<and>
    (Int_less t s \<longleftrightarrow> ival t < ival s) \<and> (Int_greater t s \<longleftrightarrow> ival t > ival s) \<and>
    (Int_less_equal t s \<longleftrightarrow> ival t \<le> ival s) \<and> (Int_greater_equal t s \<longleftrightarrow> ival t \<ge> ival s)"
proof -
  have "signed_result (length t) (- ival t) (ChangeSign t)"
    using ChangeSign_val [OF assms(2)] ival_range [OF assms(2)]
    by (cases "ival t = - int (half (length t))") (auto simp: signed_result_def in_range_def)
  then show ?thesis using Int_Add_val [OF assms] Int_Sub_val [OF assms] Int_Mul_val [OF assms] Int_compare [OF assms] by simp
qed

theorem signed_arithmetic_witness:
  "signed_result (length [0, 9223372036854775808 :: uint]) (ival [0, 9223372036854775808] - ival [5, 0]) (Int_Sub [0, 9223372036854775808] [5, 0])"
  using signed_arithmetic [of "[5, 0]" "[0, 9223372036854775808]"] by simp

text \<open>
  Signed division is division towards zero, by a number and by a machine integer: the old value is the divisor times the
  quotient plus the remainder, which is smaller than the divisor and has the sign of the dividend. The one exception is the
  smallest number divided by minus one: the quotient is out of range, and the code returns 0, success, and leaves the
  dividend. A zero divisor is reported and leaves the object.
\<close>

theorem signed_division:
  assumes "length v = length t" and "t \<noteq> []" and "length r0 = length t" and "w \<noteq> TTMATH_UINT_HIGHEST_BIT" and "sint w \<noteq> 0"
  shows "(if ival v = 0 then \<exists>r. Int_Div t v (Some r0) = Inr (1, t, Some r)
      else \<exists>q r. Int_Div t v (Some r0) = Inr (0, q, Some r) \<and> length q = length t \<and> length r = length t \<and>
        (if ival t = - int (half (length t)) \<and> ival v = -1 then q = t \<and> ival r = 0 else trunc_div (ival t) (ival v) (ival q) (ival r))) \<and>
    (\<exists>q r. Int_DivInt w t = Inr (0, r, q) \<and> length q = length t \<and>
      (if ival t = - int (half (length t)) \<and> sint w = -1 then q = t \<and> sint r = 0 else trunc_div (ival t) (sint w) (ival q) (sint r)))"
  using Int_Div_zero [OF assms(1-3)] Int_Div_val [OF assms(1-3)] Int_DivInt_val [OF assms(2,4,5)] by simp

theorem signed_division_witness:
  "\<exists>q r. Int_Div [0, 9223372036854775808] [18446744073709551615, 18446744073709551615] (Some [0, 0]) = Inr (0, q, Some r) \<and>
    q = [0, 9223372036854775808] \<and> ival r = 0"
proof -
  have v: "ival [18446744073709551615, 18446744073709551615] = -1"
      "ival [0, 9223372036854775808] = - int (half (length [0, 9223372036854775808 :: uint]))"
    by (simp_all add: ival_def half_def)
  have w: "7 \<noteq> TTMATH_UINT_HIGHEST_BIT" "sint (7 :: uint) \<noteq> 0" by (simp_all add: TTMATH_UINT_HIGHEST_BIT_def)
  have "\<exists>q r. Int_Div [0, 9223372036854775808] [18446744073709551615, 18446744073709551615] (Some [0, 0]) = Inr (0, q, Some r) \<and>
      length q = length [0, 9223372036854775808 :: uint] \<and> length r = length [0, 9223372036854775808 :: uint] \<and>
      q = [0, 9223372036854775808] \<and> ival r = 0"
    using signed_division [of "[18446744073709551615, 18446744073709551615]" "[0, 9223372036854775808]" "[0, 0]", OF _ _ _ w]
    unfolding v by simp
  then show ?thesis by blast
qed

text \<open>
  C37. The overflow of \<open>Int::Pow\<close> is missed: when the power of two numbers that are not negative lies between the largest signed and the
  largest unsigned number, the method returns 0, success, and the object holds the power less the size of the range, a
  negative number.
\<close>

theorem signed_pow_overflow:
  assumes "length pow = length t" and "t \<noteq> []" and "0 \<le> ival t" and "0 \<le> ival pow"
    and "half (length t) \<le> uval t ^ uval pow" and "uval t ^ uval pow < 2 * half (length t)"
  shows "\<exists>r. Int_Pow t pow = Inr (0, r) \<and> ival r = ival t ^ uval pow - 2 ^ (64 * length t) \<and> ival r < 0"
proof -
  have "uval pow \<noteq> 0 \<or> uval t \<noteq> 0"
  proof (rule ccontr)
    assume "\<not> (uval pow \<noteq> 0 \<or> uval t \<noteq> 0)"
    then have "half (length t) \<le> 1" using assms(5) by simp
    moreover have "(2 :: nat) ^ 1 \<le> half (length t)" unfolding half_def using assms(2) by (intro power_increasing) (cases t; simp)+
    ultimately show False by simp
  qed
  then obtain r where r: "Int_Pow t pow = Inr (0, r)" "length r = length t" "uval r = uval t ^ uval pow"
    using Int_Pow_val [OF assms(1-4)] assms(6) by auto
  have "ival t = int (uval t)" using uval_of_ival [OF assms(2)] assms(3) by simp
  moreover have "(2 :: int) ^ (64 * length t) = 2 * int (half (length t))"
    using arg_cong [OF full_half [OF assms(2)], of int] by simp
  ultimately have "ival r = ival t ^ uval pow - 2 ^ (64 * length t)" using r(2,3) assms(5) by (simp add: ival_def)
  moreover have "ival r < 0" using r(2,3) assms(5,6) by (simp add: ival_def flip: of_nat_power)
  ultimately show ?thesis using r(1) by blast
qed

theorem signed_pow_overflow_witness:
  "\<exists>r. Int_Pow [3] [40] = Inr (0, r) \<and> ival r = ival [3] ^ uval [40] - 2 ^ (64 * length [3 :: uint]) \<and> ival r < 0"
  by (rule signed_pow_overflow) (simp_all add: ival_def half_def)

text \<open>
  C38. Printing and reading signed numbers are inverse, the smallest number included, whose magnitude is not a signed number of its
  size: in every base from 2 to 16 \<open>FromString\<close> of white space, the string \<open>ToString\<close> prints and anything that does not begin with a
  digit gives the number back without a carry, and \<open>after_source\<close> points just behind the digits.
\<close>

theorem signed_string_roundtrip:
  assumes "t \<noteq> []" and "length t0 = length t" and "2 \<le> unat b" and "unat b \<le> 16"
    and "list_all is_white w" and "after = [] \<or> \<not> is_digit b (hd after)"
  shows "(\<exists>s. Int_ToString t b = Inr s \<and> Int_FromStringBase (w @ s @ after) b t0 = Inr (0, t, after, True)) \<and>
    (\<exists>s. UInt_ToString t b = Inr s \<and> FromStringBase (w @ s @ after) b t0 = Inr (0, t, after, True))"
  using signed_roundtrip_pos [OF assms(1,2) _ assms(3-6)] signed_roundtrip_neg [OF assms(1,2) _ assms(3-6)] string_roundtrip [OF assms]
  by (cases "ival t < 0") simp_all

theorem signed_string_roundtrip_witness:
  "\<exists>s. Int_ToString [0, 9223372036854775808] 10 = Inr s \<and>
    Int_FromStringBase ('' '' @ s @ ''xyz'') 10 [7, 7] = Inr (0, [0, 9223372036854775808], ''xyz'', True)"
  using signed_string_roundtrip [of "[0, 9223372036854775808]" "[7, 7]" 10 "'' ''" "''xyz''"]
  by (simp add: is_white_def is_digit_def CharToDigit_def char_to_uint_def)

end
