(* ===== verification/AsioSocket.thy ===== *)
theory AsioSocket
  imports Lapq_Error
begin

text \<open>
  The part of asio that a blocking socket of the library runs through, down to the system calls:
  \<^verbatim>\<open>src/lib/asio-1.30.2/include/asio/detail/impl/socket_ops.ipp\<close> and the socket service in
  \<^verbatim>\<open>detail/reactive_socket_service_base.hpp\<close> and \<^verbatim>\<open>.ipp\<close>, in the branches taken on Linux.

  The system calls are the fields of the record \<open>os\<close> over an operating system state \<open>'s\<close>; a failing
  call yields its \<open>errno\<close> (\<open>Inl\<close>). The descriptor and the address are those of the one socket of a
  connection. A loop that waits for the operating system may not end; it is a partial function with
  result \<open>None\<close> in that case. \<open>sys_sendmsg\<close> is given the gathered bytes of its buffers.
\<close>

section \<open>Error codes\<close>

definition sys_ec :: "int \<Rightarrow> error_code" where
  "sys_ec e = \<lparr>ec_value = e, ec_category = system_category\<rparr>"

definition asio_would_block :: error_code where "asio_would_block = sys_ec 11"
definition asio_try_again :: error_code where "asio_try_again = sys_ec 11"
definition asio_interrupted :: error_code where "asio_interrupted = sys_ec 4"
definition asio_bad_descriptor :: error_code where "asio_bad_descriptor = sys_ec 9"
definition asio_in_progress :: error_code where "asio_in_progress = sys_ec 115"
definition asio_no_buffer_space :: error_code where "asio_no_buffer_space = sys_ec 105"

definition asio_misc :: "int \<Rightarrow> error_code" where
  "asio_misc v = \<lparr>ec_value = v, ec_category = Other_Category ''asio.misc''\<rparr>"

definition asio_already_open :: error_code where "asio_already_open = asio_misc 1"
definition asio_eof :: error_code where "asio_eof = asio_misc 2"

lemmas asio_ec_defs = asio_would_block_def asio_try_again_def asio_interrupted_def asio_bad_descriptor_def
  asio_in_progress_def asio_no_buffer_space_def asio_already_open_def asio_eof_def asio_misc_def sys_ec_def

section \<open>State\<close>

record 's os =
  sys_socket :: "'s \<Rightarrow> (int + unit) \<times> 's"
  reactor_register :: "'s \<Rightarrow> int \<times> 's"
  sys_connect :: "'s \<Rightarrow> (int + unit) \<times> 's"
  sys_poll :: "bool \<Rightarrow> int \<Rightarrow> 's \<Rightarrow> (int + nat) \<times> 's"
  sys_so_error :: "'s \<Rightarrow> (int + int) \<times> 's"
  sys_recv :: "nat \<Rightarrow> 's \<Rightarrow> (int + buffer) \<times> 's"
  sys_sendmsg :: "buffer \<Rightarrow> 's \<Rightarrow> (int + nat) \<times> 's"
  sys_close :: "'s \<Rightarrow> (int + unit) \<times> 's"
  sys_ioctl_blocking :: "'s \<Rightarrow> (int + unit) \<times> 's"
  sys_fcntl_blocking :: "'s \<Rightarrow> 's"

record socket_impl =
  socket_open :: bool
  stream_oriented :: bool
  user_set_non_blocking :: bool
  addr_unix :: bool

definition socket_construct :: "bool \<Rightarrow> socket_impl" where
  "socket_construct u = \<lparr>socket_open = False, stream_oriented = False, user_set_non_blocking = False, addr_unix = u\<rparr>"

definition get_last_error :: "int + 'a \<Rightarrow> error_code" where
  "get_last_error r = (case r of Inl e \<Rightarrow> sys_ec e | Inr _ \<Rightarrow> ec_ok)"

section \<open>Waiting\<close>

text \<open>The result (\<open>- 1\<close> for an error), the code and the state; \<open>msec\<close> is \<open>- 1\<close> at every call here.\<close>

definition poll_read :: "'s os \<Rightarrow> socket_impl \<Rightarrow> int \<Rightarrow> 's \<Rightarrow> int \<times> error_code \<times> 's" where
  "poll_read os sk msec s =
     (if \<not> socket_open sk then (- 1, asio_bad_descriptor, s)
      else (case sys_poll os False (if user_set_non_blocking sk then 0 else msec) s of (r, s') \<Rightarrow>
        (case r of
           Inl e \<Rightarrow> (- 1, get_last_error r, s')
         | Inr n \<Rightarrow> (int n, if n = 0 \<and> user_set_non_blocking sk then asio_would_block else get_last_error r, s'))))"

definition poll_write :: "'s os \<Rightarrow> socket_impl \<Rightarrow> int \<Rightarrow> 's \<Rightarrow> int \<times> error_code \<times> 's" where
  "poll_write os sk msec s =
     (if \<not> socket_open sk then (- 1, asio_bad_descriptor, s)
      else (case sys_poll os True (if user_set_non_blocking sk then 0 else msec) s of (r, s') \<Rightarrow>
        (case r of
           Inl e \<Rightarrow> (- 1, get_last_error r, s')
         | Inr n \<Rightarrow> (int n, if n = 0 \<and> user_set_non_blocking sk then asio_would_block else get_last_error r, s'))))"

definition poll_connect :: "'s os \<Rightarrow> socket_impl \<Rightarrow> int \<Rightarrow> 's \<Rightarrow> int \<times> error_code \<times> 's" where
  "poll_connect os sk msec s =
     (if \<not> socket_open sk then (- 1, asio_bad_descriptor, s)
      else (case sys_poll os True msec s of (r, s') \<Rightarrow>
        (case r of Inl e \<Rightarrow> (- 1, get_last_error r, s') | Inr n \<Rightarrow> (int n, get_last_error r, s'))))"

section \<open>Receiving\<close>

definition recv1 :: "'s os \<Rightarrow> nat \<Rightarrow> 's \<Rightarrow> (int + buffer) \<times> error_code \<times> 's" where
  "recv1 os len s = (case sys_recv os len s of (r, s') \<Rightarrow> (r, get_last_error r, s'))"

text \<open>
  The loop of \<open>sync_recv1\<close>. The inner poll is given the state zero, so it always waits. The result is
  the code, the bytes received and the operating system state.
\<close>

partial_function (option) recv_loop ::
  "'s os \<Rightarrow> socket_impl \<Rightarrow> nat \<Rightarrow> 's \<Rightarrow> (error_code \<times> buffer \<times> 's) option" where
  "recv_loop os sk len s =
     (case recv1 os len s of
        (Inr data, ec, s1) \<Rightarrow> if stream_oriented sk \<and> data = [] then Some (asio_eof, [], s1) else Some (ec, data, s1)
      | (Inl _, ec, s1) \<Rightarrow>
          if user_set_non_blocking sk \<or> (ec \<noteq> asio_would_block \<and> ec \<noteq> asio_try_again) then Some (ec, [], s1)
          else (case poll_read os (sk\<lparr>user_set_non_blocking := False\<rparr>) (- 1) s1 of
                  (n, ec1, s2) \<Rightarrow> if n < 0 then Some (ec1, [], s2) else recv_loop os sk len s2))"

definition sync_recv1 :: "'s os \<Rightarrow> socket_impl \<Rightarrow> nat \<Rightarrow> 's \<Rightarrow> (error_code \<times> buffer \<times> 's) option" where
  "sync_recv1 os sk len s =
     (if \<not> socket_open sk then Some (asio_bad_descriptor, [], s)
      else if len = 0 \<and> stream_oriented sk then Some (ec_ok, [], s)
      else recv_loop os sk len s)"

text \<open>
  \<open>non_blocking_recv1\<close>, which the reactor calls when the descriptor is readable: \<open>None\<close> inside the
  result when the operation has to be run again later.
\<close>

partial_function (option) non_blocking_recv1 ::
  "'s os \<Rightarrow> nat \<Rightarrow> bool \<Rightarrow> 's \<Rightarrow> ((error_code \<times> buffer) option \<times> 's) option" where
  "non_blocking_recv1 os len is_stream s =
     (case recv1 os len s of
        (Inr data, ec, s1) \<Rightarrow> if is_stream \<and> data = [] then Some (Some (asio_eof, []), s1) else Some (Some (ec, data), s1)
      | (Inl _, ec, s1) \<Rightarrow>
          if ec = asio_interrupted then non_blocking_recv1 os len is_stream s1
          else if ec = asio_would_block \<or> ec = asio_try_again then Some (None, s1)
          else Some (Some (ec, []), s1))"

section \<open>Sending\<close>

definition os_send :: "'s os \<Rightarrow> buffer list \<Rightarrow> 's \<Rightarrow> (int + nat) \<times> error_code \<times> 's" where
  "os_send os bufs s = (case sys_sendmsg os (concat bufs) s of (r, s') \<Rightarrow> (r, get_last_error r, s'))"

partial_function (option) send_loop ::
  "'s os \<Rightarrow> socket_impl \<Rightarrow> buffer list \<Rightarrow> 's \<Rightarrow> (error_code \<times> nat \<times> 's) option" where
  "send_loop os sk bufs s =
     (case os_send os bufs s of
        (Inr n, ec, s1) \<Rightarrow> Some (ec, n, s1)
      | (Inl _, ec, s1) \<Rightarrow>
          if user_set_non_blocking sk \<or> (ec \<noteq> asio_would_block \<and> ec \<noteq> asio_try_again) then Some (ec, 0, s1)
          else (case poll_write os (sk\<lparr>user_set_non_blocking := False\<rparr>) (- 1) s1 of
                  (n, ec1, s2) \<Rightarrow> if n < 0 then Some (ec1, 0, s2) else send_loop os sk bufs s2))"

definition sync_send :: "'s os \<Rightarrow> socket_impl \<Rightarrow> buffer list \<Rightarrow> 's \<Rightarrow> (error_code \<times> nat \<times> 's) option" where
  "sync_send os sk bufs s =
     (if \<not> socket_open sk then Some (asio_bad_descriptor, 0, s)
      else if list_all (\<lambda>b. b = []) bufs \<and> stream_oriented sk then Some (ec_ok, 0, s)
      else send_loop os sk bufs s)"

partial_function (option) non_blocking_send ::
  "'s os \<Rightarrow> buffer list \<Rightarrow> 's \<Rightarrow> ((error_code \<times> nat) option \<times> 's) option" where
  "non_blocking_send os bufs s =
     (case os_send os bufs s of
        (Inr n, ec, s1) \<Rightarrow> Some (Some (ec, n), s1)
      | (Inl _, ec, s1) \<Rightarrow>
          if ec = asio_interrupted then non_blocking_send os bufs s1
          else if ec = asio_would_block \<or> ec = asio_try_again then Some (None, s1)
          else Some (Some (ec, 0), s1))"

section \<open>Opening, connecting, closing\<close>

definition ops_connect :: "'s os \<Rightarrow> socket_impl \<Rightarrow> 's \<Rightarrow> error_code \<times> 's" where
  "ops_connect os sk s =
     (if \<not> socket_open sk then (asio_bad_descriptor, s)
      else (case sys_connect os s of (r, s') \<Rightarrow>
        (case r of
           Inl e \<Rightarrow> (if get_last_error r = asio_try_again
                      then (if addr_unix sk then asio_in_progress else asio_no_buffer_space)
                      else get_last_error r, s')
         | Inr _ \<Rightarrow> (get_last_error r, s'))))"

definition sync_connect :: "'s os \<Rightarrow> socket_impl \<Rightarrow> 's \<Rightarrow> error_code \<times> 's" where
  "sync_connect os sk s =
     (case ops_connect os sk s of (ec, s1) \<Rightarrow>
        if ec \<noteq> asio_in_progress \<and> ec \<noteq> asio_would_block then (ec, s1)
        else (case poll_connect os sk (- 1) s1 of (n, ec1, s2) \<Rightarrow>
          if n < 0 then (ec1, s2)
          else (case sys_so_error os s2 of
                  (Inl e, s3) \<Rightarrow> (sys_ec e, s3)
                | (Inr connect_error, s3) \<Rightarrow> (sys_ec connect_error, s3))))"

text \<open>
  \<open>socket_ops::close\<close> of an open descriptor: the code, the socket state (the non-blocking flags may be
  cleared) and the operating system state. A first attempt that would block is repeated in blocking
  mode. The linger option, used on destruction only when the user has set it, is not set here.
\<close>

definition ops_close :: "'s os \<Rightarrow> socket_impl \<Rightarrow> 's \<Rightarrow> error_code \<times> socket_impl \<times> 's" where
  "ops_close os sk s =
     (case sys_close os s of (r, s1) \<Rightarrow>
        let ec = get_last_error r
        in if ec = asio_would_block \<or> ec = asio_try_again then
             (case sys_ioctl_blocking os s1 of (r2, s2) \<Rightarrow>
                let s3 = (if r2 = Inl 25 then sys_fcntl_blocking os s2 else s2)
                in (case sys_close os s3 of (r4, s4) \<Rightarrow> (get_last_error r4, sk\<lparr>user_set_non_blocking := False\<rparr>, s4)))
           else (ec, sk, s1))"

text \<open>\<open>do_open\<close> with type \<open>SOCK_STREAM\<close>; the holder of a descriptor that cannot be registered closes it.\<close>

definition do_open :: "'s os \<Rightarrow> socket_impl \<Rightarrow> 's \<Rightarrow> error_code \<times> socket_impl \<times> 's" where
  "do_open os sk s =
     (if socket_open sk then (asio_already_open, sk, s)
      else (case sys_socket os s of
              (Inl e, s1) \<Rightarrow> (sys_ec e, sk, s1)
            | (Inr _, s1) \<Rightarrow>
                (case reactor_register os s1 of (err, s2) \<Rightarrow>
                   if err \<noteq> 0 then (case ops_close os sk s2 of (_, _, s3) \<Rightarrow> (sys_ec err, sk, s3))
                   else (ec_ok, sk\<lparr>socket_open := True, stream_oriented := True, user_set_non_blocking := False\<rparr>, s2))))"

definition socket_connect :: "'s os \<Rightarrow> socket_impl \<Rightarrow> 's \<Rightarrow> error_code \<times> socket_impl \<times> 's" where
  "socket_connect os sk s =
     (case (if \<not> socket_open sk then do_open os sk s else (ec_ok, sk, s)) of (ec, sk1, s1) \<Rightarrow>
        if ec_bool ec then (ec, sk1, s1)
        else (case sync_connect os sk1 s1 of (ec1, s2) \<Rightarrow> (ec1, sk1, s2)))"

text \<open>Deregistering from the reactor, which completes outstanding asynchronous operations, has no effect here.\<close>

definition service_close :: "'s os \<Rightarrow> socket_impl \<Rightarrow> 's \<Rightarrow> error_code \<times> socket_impl \<times> 's" where
  "service_close os sk s =
     (if socket_open sk
      then (case ops_close os sk s of (ec, _, s1) \<Rightarrow> (ec, socket_construct (addr_unix sk), s1))
      else (ec_ok, socket_construct (addr_unix sk), s))"

end
