(* ===== verification/AsioStream.thy ===== *)
theory AsioStream
  imports AsioSocket
begin

text \<open>
  The composed operations of asio that the library calls: \<open>asio::read\<close> and \<open>asio::write\<close> with
  \<open>transfer_all\<close> (\<^verbatim>\<open>impl/read.hpp\<close>, \<^verbatim>\<open>impl/write.hpp\<close>, \<^verbatim>\<open>completion_condition.hpp\<close>,
  \<^verbatim>\<open>detail/consuming_buffers.hpp\<close> under \<^verbatim>\<open>src/lib/asio-1.30.2/include/asio\<close>), and the operation
  objects \<open>read_op\<close> and \<open>write_op\<close> of their asynchronous versions.

  A stream is given by its \<open>read_some\<close> or \<open>write_some\<close>: the code, what was transferred and the new state,
  or \<open>None\<close> when the call does not return. The loops are partial functions, since a stream that
  transfers nothing and reports no error keeps them running.
\<close>

type_synonym 's read_some = "nat \<Rightarrow> 's \<Rightarrow> (error_code \<times> buffer \<times> 's) option"
type_synonym 's write_some = "buffer list \<Rightarrow> 's \<Rightarrow> (error_code \<times> nat \<times> 's) option"

definition default_max_transfer_size :: nat where
  "default_max_transfer_size = 65536"

definition transfer_all :: "error_code \<Rightarrow> nat \<Rightarrow> nat" where
  "transfer_all err n = (if ec_bool err then 0 else default_max_transfer_size)"

definition transfer_at_least :: "nat \<Rightarrow> error_code \<Rightarrow> nat \<Rightarrow> nat" where
  "transfer_at_least minimum err bytes =
     (if ec_bool err \<or> minimum \<le> bytes then 0 else default_max_transfer_size)"

definition transfer_exactly :: "nat \<Rightarrow> error_code \<Rightarrow> nat \<Rightarrow> nat" where
  "transfer_exactly len err bytes =
     (if ec_bool err \<or> len \<le> bytes then 0
      else if len - bytes < default_max_transfer_size then len - bytes else default_max_transfer_size)"

section \<open>Reading into one buffer\<close>

text \<open>
  \<open>consuming_single_buffer\<close>: the buffer's size and the bytes that have been read into its front;
  \<open>total_consumed\<close> is their number. \<open>prepare\<close> gives the size of the next transfer.
\<close>

definition single_empty :: "nat \<Rightarrow> buffer \<Rightarrow> bool" where
  "single_empty len data \<longleftrightarrow> len \<le> length data"

definition single_prepare :: "nat \<Rightarrow> nat \<Rightarrow> buffer \<Rightarrow> nat" where
  "single_prepare max_size len data = min max_size (len - length data)"

partial_function (option) read_buffer_seq ::
  "(error_code \<Rightarrow> nat \<Rightarrow> nat) \<Rightarrow> 's read_some \<Rightarrow> nat \<Rightarrow> error_code \<Rightarrow> buffer \<Rightarrow> 's \<Rightarrow> (error_code \<times> buffer \<times> 's) option" where
  "read_buffer_seq cond rs len ec data s =
     (if single_empty len data then Some (ec, data, s)
      else
        (let max_size = cond ec (length data)
         in if max_size \<noteq> 0 then
              (case rs (single_prepare max_size len data) s of
                 None \<Rightarrow> None
               | Some (ec1, d, s1) \<Rightarrow> read_buffer_seq cond rs len ec1 (data @ d) s1)
            else Some (ec, data, s)))"

definition asio_read :: "'s read_some \<Rightarrow> nat \<Rightarrow> 's \<Rightarrow> (error_code \<times> buffer \<times> 's) option" where
  "asio_read rs len s = read_buffer_seq transfer_all rs len ec_ok [] s"

section \<open>Writing a sequence of buffers\<close>

record consuming_buffers =
  cb_buffers :: "buffer list"
  total_size :: nat
  total_consumed :: nat
  next_elem :: nat
  next_elem_offset :: nat

definition consuming_init :: "buffer list \<Rightarrow> consuming_buffers" where
  "consuming_init bufs = \<lparr>cb_buffers = bufs, total_size = sum_list (map length bufs), total_consumed = 0,
     next_elem = 0, next_elem_offset = 0\<rparr>"

definition consuming_empty :: "consuming_buffers \<Rightarrow> bool" where
  "consuming_empty cb \<longleftrightarrow> total_size cb \<le> total_consumed cb"

text \<open>
  The loop of \<open>prepare\<close>: what is left of the sequence, the offset into its first buffer, \<open>max_size\<close> and
  the buffers prepared so far (at most sixteen). \<open>Buffer(b) + n\<close> drops \<open>n\<close> bytes, \<open>buffer(b, n)\<close> takes them.
\<close>

fun prepare_loop :: "buffer list \<Rightarrow> nat \<Rightarrow> nat \<Rightarrow> buffer list \<Rightarrow> buffer list" where
  "prepare_loop [] off max_size result = result"
| "prepare_loop (b # bs) off max_size result =
     (if 0 < max_size \<and> length result < 16 then
        (let piece = take max_size (drop off b)
         in prepare_loop bs 0 (max_size - length piece) (if 0 < length piece then result @ [piece] else result))
      else result)"

definition consuming_prepare :: "nat \<Rightarrow> consuming_buffers \<Rightarrow> buffer list" where
  "consuming_prepare max_size cb =
     prepare_loop (drop (next_elem cb) (cb_buffers cb)) (next_elem_offset cb) max_size []"

text \<open>The loop of \<open>consume\<close>: the rest of the sequence, \<open>size\<close>, and the two positions.\<close>

fun consume_loop :: "buffer list \<Rightarrow> nat \<Rightarrow> nat \<Rightarrow> nat \<Rightarrow> nat \<times> nat" where
  "consume_loop [] sz elem off = (elem, off)"
| "consume_loop (b # bs) sz elem off =
     (if 0 < sz then
        (let left = length (drop off b)
         in if sz < left then (elem, off + sz) else consume_loop bs (sz - left) (elem + 1) 0)
      else (elem, off))"

definition consuming_consume :: "nat \<Rightarrow> consuming_buffers \<Rightarrow> consuming_buffers" where
  "consuming_consume sz cb =
     (let (elem, off) = consume_loop (drop (next_elem cb) (cb_buffers cb)) sz (next_elem cb) (next_elem_offset cb)
      in cb\<lparr>total_consumed := total_consumed cb + sz, next_elem := elem, next_elem_offset := off\<rparr>)"

partial_function (option) write_seq ::
  "(error_code \<Rightarrow> nat \<Rightarrow> nat) \<Rightarrow> 's write_some \<Rightarrow> error_code \<Rightarrow> consuming_buffers \<Rightarrow> 's \<Rightarrow> (error_code \<times> nat \<times> 's) option" where
  "write_seq cond ws ec cb s =
     (if consuming_empty cb then Some (ec, total_consumed cb, s)
      else
        (let max_size = cond ec (total_consumed cb)
         in if max_size \<noteq> 0 then
              (case ws (consuming_prepare max_size cb) s of
                 None \<Rightarrow> None
               | Some (ec1, n, s1) \<Rightarrow> write_seq cond ws ec1 (consuming_consume n cb) s1)
            else Some (ec, total_consumed cb, s)))"

definition asio_write :: "'s write_some \<Rightarrow> buffer list \<Rightarrow> 's \<Rightarrow> (error_code \<times> nat \<times> 's) option" where
  "asio_write ws bufs s = write_seq transfer_all ws ec_ok (consuming_init bufs) s"

section \<open>The asynchronous operations\<close>

text \<open>
  What a call of the operation object does: it starts another \<open>async_read_some\<close> (\<open>async_write_some\<close>) of the
  given size (buffers), or calls the handler.
\<close>

datatype 'b composed = Issue 'b | Finish error_code

definition read_op_start :: "nat \<Rightarrow> nat composed" where
  "read_op_start len = Issue (single_prepare (transfer_all ec_ok 0) len [])"

definition read_op_resume :: "bool \<Rightarrow> nat \<Rightarrow> error_code \<Rightarrow> buffer \<Rightarrow> buffer \<Rightarrow> nat composed" where
  "read_op_resume cancelled len ec d data =
     (if (\<not> ec_bool ec \<and> d = []) \<or> single_empty len (data @ d) then Finish ec
      else
        (let max_size = transfer_all ec (length (data @ d))
         in if max_size = 0 then Finish ec
            else if cancelled then Finish (sys_ec 125)
            else Issue (single_prepare max_size len (data @ d))))"

definition write_op_start :: "consuming_buffers \<Rightarrow> buffer list composed" where
  "write_op_start cb = Issue (consuming_prepare (transfer_all ec_ok (total_consumed cb)) cb)"

definition write_op_resume :: "bool \<Rightarrow> error_code \<Rightarrow> nat \<Rightarrow> consuming_buffers \<Rightarrow> buffer list composed \<times> consuming_buffers" where
  "write_op_resume cancelled ec n cb =
     (let cb1 = consuming_consume n cb
      in if (\<not> ec_bool ec \<and> n = 0) \<or> consuming_empty cb1 then (Finish ec, cb1)
         else
           (let max_size = transfer_all ec (total_consumed cb1)
            in if max_size = 0 then (Finish ec, cb1)
               else if cancelled then (Finish (sys_ec 125), cb1)
               else (Issue (consuming_prepare max_size cb1), cb1)))"

text \<open>
  A run of the operation object over a stream whose completions come from \<open>rs\<close>: what the handler is
  finally called with. No cancellation is requested by the library.
\<close>

partial_function (option) read_op_run ::
  "'s read_some \<Rightarrow> nat \<Rightarrow> nat composed \<Rightarrow> buffer \<Rightarrow> 's \<Rightarrow> (error_code \<times> buffer \<times> 's) option" where
  "read_op_run rs len c data s =
     (case c of
        Finish e \<Rightarrow> Some (e, data, s)
      | Issue n \<Rightarrow>
          (case rs n s of
             None \<Rightarrow> None
           | Some (ec1, d, s1) \<Rightarrow> read_op_run rs len (read_op_resume False len ec1 d data) (data @ d) s1))"

definition asio_async_read :: "'s read_some \<Rightarrow> nat \<Rightarrow> 's \<Rightarrow> (error_code \<times> buffer \<times> 's) option" where
  "asio_async_read rs len s = read_op_run rs len (read_op_start len) [] s"

partial_function (option) write_op_run ::
  "'s write_some \<Rightarrow> buffer list composed \<Rightarrow> consuming_buffers \<Rightarrow> 's \<Rightarrow> (error_code \<times> nat \<times> 's) option" where
  "write_op_run ws c cb s =
     (case c of
        Finish e \<Rightarrow> Some (e, total_consumed cb, s)
      | Issue bufs \<Rightarrow>
          (case ws bufs s of
             None \<Rightarrow> None
           | Some (ec1, n, s1) \<Rightarrow> (case write_op_resume False ec1 n cb of (c1, cb1) \<Rightarrow> write_op_run ws c1 cb1 s1)))"

definition asio_async_write :: "'s write_some \<Rightarrow> buffer list \<Rightarrow> 's \<Rightarrow> (error_code \<times> nat \<times> 's) option" where
  "asio_async_write ws bufs s = write_op_run ws (write_op_start (consuming_init bufs)) (consuming_init bufs) s"

section \<open>The position in a sequence of buffers\<close>

definition pos_ok :: "buffer list \<Rightarrow> nat \<Rightarrow> bool" where
  "pos_ok bs off \<longleftrightarrow> (case bs of [] \<Rightarrow> off = 0 | b # _ \<Rightarrow> off \<le> length b)"

text \<open>The bytes that are still to be transferred.\<close>

definition cb_rest :: "consuming_buffers \<Rightarrow> buffer" where
  "cb_rest cb = drop (next_elem_offset cb) (concat (drop (next_elem cb) (cb_buffers cb)))"

definition cb_ok :: "consuming_buffers \<Rightarrow> bool" where
  "cb_ok cb \<longleftrightarrow> length (cb_buffers cb) \<le> 16 \<and> total_size cb = total_consumed cb + length (cb_rest cb) \<and>
     pos_ok (drop (next_elem cb) (cb_buffers cb)) (next_elem_offset cb)"

lemma prepare_loop_concat:
  "pos_ok bs off \<Longrightarrow> length res + length bs \<le> 16 \<Longrightarrow>
   concat (prepare_loop bs off n res) = concat res @ take n (drop off (concat bs))"
proof (induction bs off n res rule: prepare_loop.induct)
  case (2 b bs off n res)
  let ?p = "take n (drop off b)"
  let ?r = "if 0 < length ?p then res @ [?p] else res"
  show ?case
  proof (cases "0 < n")
    case True
    have r: "length res < 16" using "2.prems"(2) by simp
    have "pos_ok bs 0" by (simp add: pos_ok_def split: list.split)
    then have ih: "concat (prepare_loop bs 0 (n - length ?p) ?r) = concat ?r @ take (n - length ?p) (concat bs)"
      using "2.IH" [OF _ refl] True r "2.prems"(2) by (cases "0 < length ?p") simp_all
    have c: "concat ?r = concat res @ ?p" by auto
    have t: "take (n - length ?p) (concat bs) = take (n - length (drop off b)) (concat bs)"
      by (cases "n \<le> length (drop off b)") simp_all
    have d: "drop off (concat (b # bs)) = drop off b @ concat bs" using "2.prems"(1) by (simp add: pos_ok_def)
    have "prepare_loop (b # bs) off n res = prepare_loop bs 0 (n - length ?p) ?r"
      using True r by (simp only: prepare_loop.simps Let_def simp_thms if_True)
    then show ?thesis unfolding d by (simp only: ih c t take_append append_assoc)
  qed simp
qed simp

lemma consume_loop_rest:
  "pos_ok bs off \<Longrightarrow> n \<le> length (drop off (concat bs)) \<Longrightarrow> consume_loop bs n elem off = (elem', off') \<Longrightarrow>
   elem \<le> elem' \<and> pos_ok (drop (elem' - elem) bs) off' \<and> drop off' (concat (drop (elem' - elem) bs)) = drop n (drop off (concat bs))"
proof (induction bs n elem off rule: consume_loop.induct)
  case (2 b bs n elem off)
  have d: "drop off (concat (b # bs)) = drop off b @ concat bs" using "2.prems"(1) by (simp add: pos_ok_def)
  show ?case
  proof (cases "0 < n \<and> length (drop off b) \<le> n")
    case True
    then have l: "consume_loop bs (n - length (drop off b)) (elem + 1) 0 = (elem', off')" using "2.prems"(3) by simp
    have "pos_ok bs 0" by (simp add: pos_ok_def split: list.split)
    then have "elem + 1 \<le> elem' \<and> pos_ok (drop (elem' - (elem + 1)) bs) off' \<and>
        drop off' (concat (drop (elem' - (elem + 1)) bs)) = drop (n - length (drop off b)) (concat bs)"
      using "2.IH" [OF _ refl _ _ _ l] True "2.prems"(2) unfolding d by simp
    moreover from this have "elem' - elem = Suc (elem' - (elem + 1))" by auto
    ultimately show ?thesis unfolding d using True by auto
  next
    case False
    then have "elem' = elem \<and> off' = off + n" using "2.prems"(3) by (auto simp: Let_def split: if_splits)
    then show ?thesis using False "2.prems"(1) by (auto simp: pos_ok_def add.commute)
  qed
qed (simp add: pos_ok_def)

lemma consuming_init_ok: "length bufs \<le> 16 \<Longrightarrow> cb_ok (consuming_init bufs) \<and> cb_rest (consuming_init bufs) = concat bufs"
  by (auto simp: consuming_init_def cb_ok_def cb_rest_def pos_ok_def length_concat split: list.split)

lemma consuming_prepare_rest: "cb_ok cb \<Longrightarrow> concat (consuming_prepare n cb) = take n (cb_rest cb)"
  using prepare_loop_concat [of "drop (next_elem cb) (cb_buffers cb)" "next_elem_offset cb" "[]" n]
  by (auto simp: consuming_prepare_def cb_ok_def cb_rest_def)

lemma consuming_empty_rest: "cb_ok cb \<Longrightarrow> consuming_empty cb \<longleftrightarrow> cb_rest cb = []"
  by (auto simp: cb_ok_def consuming_empty_def)

lemma consuming_consume_rest:
  assumes "cb_ok cb" and "n \<le> length (cb_rest cb)"
  shows "cb_ok (consuming_consume n cb) \<and> cb_rest (consuming_consume n cb) = drop n (cb_rest cb) \<and>
    total_consumed (consuming_consume n cb) = total_consumed cb + n \<and> total_size (consuming_consume n cb) = total_size cb"
proof -
  let ?bs = "drop (next_elem cb) (cb_buffers cb)"
  obtain e f where c: "consume_loop ?bs n (next_elem cb) (next_elem_offset cb) = (e, f)" by force
  have "pos_ok ?bs (next_elem_offset cb)" "n \<le> length (drop (next_elem_offset cb) (concat ?bs))"
    using assms by (simp_all add: cb_ok_def cb_rest_def)
  from consume_loop_rest [OF this c] have r: "next_elem cb \<le> e" "pos_ok (drop (e - next_elem cb) ?bs) f"
      "drop f (concat (drop (e - next_elem cb) ?bs)) = drop n (cb_rest cb)"
    unfolding cb_rest_def by blast+
  have "drop (e - next_elem cb) ?bs = drop e (cb_buffers cb)" using r(1) by simp
  then show ?thesis using assms c r by (simp add: consuming_consume_def cb_ok_def cb_rest_def)
qed

section \<open>Progress\<close>

text \<open>
  What the composed operations rely on: as long as bytes are there, \<open>read_some\<close> returns the next ones, at
  least one and at most as many as asked for, and \<open>write_some\<close> takes at least one of the bytes it is
  given. How many is up to the stream.
\<close>

definition reads_some :: "'s read_some \<Rightarrow> ('s \<Rightarrow> buffer \<times> buffer) \<Rightarrow> bool" where
  "reads_some rs net \<longleftrightarrow> (\<forall>n s rx tx. 0 < n \<and> rx \<noteq> [] \<and> net s = (rx, tx) \<longrightarrow>
     (\<exists>k s'. 0 < k \<and> k \<le> n \<and> k \<le> length rx \<and> rs n s = Some (ec_ok, take k rx, s') \<and> net s' = (drop k rx, tx)))"

definition writes_some :: "'s write_some \<Rightarrow> ('s \<Rightarrow> buffer \<times> buffer) \<Rightarrow> bool" where
  "writes_some ws net \<longleftrightarrow> (\<forall>bufs s rx tx. concat bufs \<noteq> [] \<and> net s = (rx, tx) \<longrightarrow>
     (\<exists>k s'. 0 < k \<and> k \<le> length (concat bufs) \<and> ws bufs s = Some (ec_ok, k, s') \<and> net s' = (rx, tx @ take k (concat bufs))))"

lemma transfer_all_ok [simp]: "transfer_all ec_ok n = 65536"
  by (simp add: transfer_all_def default_max_transfer_size_def ec_bool_def ec_ok_def)

lemma read_seq_exact:
  assumes rs: "reads_some rs net" and "net s = (rx, tx)" and "length data \<le> n" and "n - length data \<le> length rx"
  shows "\<exists>s'. read_buffer_seq transfer_all rs n ec_ok data s = Some (ec_ok, data @ take (n - length data) rx, s') \<and>
    net s' = (drop (n - length data) rx, tx)"
  using assms(2-)
proof (induction "n - length data" arbitrary: data rx s rule: less_induct)
  case less
  show ?case
  proof (cases "length data < n")
    case False
    then show ?thesis using less.prems by (subst read_buffer_seq.simps) (simp add: single_empty_def)
  next
    case True
    let ?m = "single_prepare 65536 n data"
    have "0 < ?m" "?m \<le> n - length data" using True by (simp_all add: single_prepare_def)
    moreover from this have "rx \<noteq> []" using less.prems(3) by auto
    ultimately obtain k s1 where k: "0 < k" "k \<le> ?m" "k \<le> length rx" "rs ?m s = Some (ec_ok, take k rx, s1)" "net s1 = (drop k rx, tx)"
      using rs less.prems(1) unfolding reads_some_def by blast
    have e: "n - length (data @ take k rx) = n - length data - k" using k(3) by simp
    have "k \<le> n - length data" using k(2) \<open>?m \<le> n - length data\<close> by simp
    moreover have "\<exists>s'. read_buffer_seq transfer_all rs n ec_ok (data @ take k rx) s1
        = Some (ec_ok, (data @ take k rx) @ take (n - length (data @ take k rx)) (drop k rx), s') \<and>
        net s' = (drop (n - length (data @ take k rx)) (drop k rx), tx)"
      using less.hyps [OF _ k(5), of "data @ take k rx"] k(1,3) \<open>k \<le> n - length data\<close> less.prems True e by simp
    moreover have "take k rx @ take (n - length data - k) (drop k rx) = take (n - length data) rx"
      using \<open>k \<le> n - length data\<close> by (metis le_add_diff_inverse take_add)
    ultimately show ?thesis
      using True k(4) e by (subst read_buffer_seq.simps) (simp add: single_empty_def Let_def)
  qed
qed

lemma write_seq_all:
  assumes ws: "writes_some ws net" and "net s = (rx, tx)" and "cb_ok cb"
  shows "\<exists>s'. write_seq transfer_all ws ec_ok cb s = Some (ec_ok, total_size cb, s') \<and> net s' = (rx, tx @ cb_rest cb)"
  using assms(2-)
proof (induction "length (cb_rest cb)" arbitrary: cb tx s rule: less_induct)
  case less
  show ?case
  proof (cases "cb_rest cb = []")
    case True
    then show ?thesis
      using less.prems consuming_empty_rest [OF less.prems(2)] by (subst write_seq.simps) (simp add: cb_ok_def)
  next
    case False
    let ?b = "consuming_prepare 65536 cb"
    have b: "concat ?b = take 65536 (cb_rest cb)" by (rule consuming_prepare_rest [OF less.prems(2)])
    then have "concat ?b \<noteq> []" using False by simp
    then obtain k s1 where k: "0 < k" "k \<le> length (concat ?b)" "ws ?b s = Some (ec_ok, k, s1)" "net s1 = (rx, tx @ take k (concat ?b))"
      using ws less.prems(1) unfolding writes_some_def by blast
    have kr: "k \<le> length (cb_rest cb)" "take k (concat ?b) = take k (cb_rest cb)" using k(2) b by simp_all
    note c = consuming_consume_rest [OF less.prems(2) kr(1)]
    have "length (cb_rest (consuming_consume k cb)) < length (cb_rest cb)" using c k(1) False by simp
    from less.hyps [OF this k(4)] have "\<exists>s'. write_seq transfer_all ws ec_ok (consuming_consume k cb) s1
        = Some (ec_ok, total_size cb, s') \<and> net s' = (rx, tx @ cb_rest cb)"
      using c kr by simp
    then show ?thesis
      using False k(3) consuming_empty_rest [OF less.prems(2)] by (subst write_seq.simps) (simp add: Let_def)
  qed
qed

section \<open>The asynchronous operations do the same\<close>

text \<open>A stream that reports success for a transfer that is not empty has transferred something.\<close>

definition no_idle_read :: "'s read_some \<Rightarrow> bool" where
  "no_idle_read rs \<longleftrightarrow> (\<forall>n s ec d s'. 0 < n \<longrightarrow> rs n s = Some (ec, d, s') \<longrightarrow> \<not> ec_bool ec \<longrightarrow> d \<noteq> [])"

definition no_idle_write :: "'s write_some \<Rightarrow> bool" where
  "no_idle_write ws \<longleftrightarrow> (\<forall>bufs s ec n s'. concat bufs \<noteq> [] \<longrightarrow> ws bufs s = Some (ec, n, s') \<longrightarrow> \<not> ec_bool ec \<longrightarrow> n \<noteq> 0)"

lemma transfer_all_bool: "transfer_all ec n = (if ec_bool ec then 0 else 65536)"
  by (simp add: transfer_all_def default_max_transfer_size_def)

lemma no_idle_readD:
  "no_idle_read rs \<Longrightarrow> length data < n \<Longrightarrow> rs (single_prepare 65536 n data) s = Some (ec, d, s') \<Longrightarrow> \<not> ec_bool ec \<Longrightarrow> d \<noteq> []"
  unfolding no_idle_read_def by (metis less_numeral_extra(3) min_less_iff_conj neq0_conv single_prepare_def zero_less_diff zero_less_numeral)

lemma read_op_resume_stop:
  "ec_bool ec \<or> n \<le> length (data @ d) \<Longrightarrow> read_op_resume False n ec d data = Finish ec"
  by (auto simp: read_op_resume_def single_empty_def transfer_all_bool Let_def)

lemma read_op_resume_go:
  "\<not> ec_bool ec \<Longrightarrow> d \<noteq> [] \<Longrightarrow> length (data @ d) < n \<Longrightarrow>
   read_op_resume False n ec d data = Issue (single_prepare 65536 n (data @ d))"
  by (simp add: read_op_resume_def single_empty_def transfer_all_bool Let_def)

lemma read_op_run_sync:
  assumes "read_op_run rs n c data s = Some r" and "no_idle_read rs"
  shows "case c of
      Finish e \<Rightarrow> r = (e, data, s)
    | Issue m \<Rightarrow> length data < n \<longrightarrow> m = single_prepare 65536 n data \<longrightarrow>
        (\<forall>ec. \<not> ec_bool ec \<longrightarrow> read_buffer_seq transfer_all rs n ec data s = Some r)"
proof -
  let ?P = "\<lambda>rs n c data s r. no_idle_read rs \<longrightarrow> (case c of
      Finish e \<Rightarrow> r = (e, data, s)
    | Issue m \<Rightarrow> length data < n \<longrightarrow> m = single_prepare 65536 n data \<longrightarrow>
        (\<forall>ec. \<not> ec_bool ec \<longrightarrow> read_buffer_seq transfer_all rs n ec data s = Some r))"
  have "?P rs n c data s r"
  proof (rule read_op_run.raw_induct [where P = ?P, OF _ assms(1)], rule impI, goal_cases)
    case (1 f rs n c data s r)
    show ?case
    proof (cases c)
      case (Finish e)
      then show ?thesis using 1(2) by simp
    next
      case (Issue m)
      then obtain ec1 d s1 where d: "rs m s = Some (ec1, d, s1)" "f rs n (read_op_resume False n ec1 d data) (data @ d) s1 = Some r"
        using 1(2) by (auto split: option.splits)
      have ih: "?P rs n (read_op_resume False n ec1 d data) (data @ d) s1 r" by (rule 1(1) [OF d(2)])
      note ih = mp [OF ih 1(3)]
      {
        assume a: "length data < n" "m = single_prepare 65536 n data"
        then have nz: "\<not> ec_bool ec1 \<Longrightarrow> d \<noteq> []" using no_idle_readD [OF 1(3), of data n s ec1 d s1] d(1) by simp
        have "read_buffer_seq transfer_all rs n ec1 (data @ d) s1 = Some r"
        proof (cases "ec_bool ec1 \<or> n \<le> length (data @ d)")
          case True
          then have "r = (ec1, data @ d, s1)" using ih by (simp add: read_op_resume_stop)
          then show ?thesis using True
            by (subst read_buffer_seq.simps) (auto simp: single_empty_def transfer_all_bool)
        next
          case False
          then show ?thesis using ih nz by (simp add: read_op_resume_go)
        qed
        then have "read_buffer_seq transfer_all rs n ec data s = Some r" if "\<not> ec_bool ec" for ec
          using that a d(1) by (subst read_buffer_seq.simps) (simp add: single_empty_def transfer_all_bool)
      }
      then show ?thesis using Issue by simp
    qed
  qed
  then show ?thesis using assms(2) by simp
qed

lemma read_seq_async:
  assumes "read_buffer_seq cond rs n ec data s = Some r" and "no_idle_read rs" and "cond = transfer_all"
  shows "if \<not> ec_bool ec \<and> length data < n then read_op_run rs n (Issue (single_prepare 65536 n data)) data s = Some r
    else r = (ec, data, s)"
proof -
  let ?P = "\<lambda>cond rs n ec data s r. no_idle_read rs \<and> cond = transfer_all \<longrightarrow>
    (if \<not> ec_bool ec \<and> length data < n then read_op_run rs n (Issue (single_prepare 65536 n data)) data s = Some r
     else r = (ec, data, s))"
  have "?P cond rs n ec data s r"
  proof (rule read_buffer_seq.raw_induct [where P = ?P, OF _ assms(1)], rule impI, goal_cases)
    case (1 f cond rs n ec data s r)
    show ?case
    proof (cases "\<not> ec_bool ec \<and> length data < n")
      case False
      then show ?thesis using 1(2,3) by (auto simp: single_empty_def transfer_all_bool split: if_splits)
    next
      case True
      let ?m = "single_prepare 65536 n data"
      obtain ec1 d s1 where d: "rs ?m s = Some (ec1, d, s1)" "f cond rs n ec1 (data @ d) s1 = Some r"
        using 1(2,3) True by (auto simp: single_empty_def transfer_all_bool split: option.splits)
      have ih: "?P cond rs n ec1 (data @ d) s1 r" by (rule 1(1) [OF d(2)])
      note ih = mp [OF ih 1(3)]
      have nz: "\<not> ec_bool ec1 \<Longrightarrow> d \<noteq> []"
        using no_idle_readD [of rs data n s ec1 d s1] 1(3) d(1) True by simp
      have "read_op_run rs n (read_op_resume False n ec1 d data) (data @ d) s1 = Some r"
      proof (cases "ec_bool ec1 \<or> n \<le> length (data @ d)")
        case True
        then have "r = (ec1, data @ d, s1)" using ih by auto
        then show ?thesis using True by (subst read_op_run.simps) (simp add: read_op_resume_stop)
      next
        case False
        then show ?thesis using ih nz by (simp add: read_op_resume_go)
      qed
      then show ?thesis using True d(1) by (subst read_op_run.simps) simp
    qed
  qed
  then show ?thesis using assms(2,3) by simp
qed

lemma async_read_same:
  assumes "no_idle_read rs" and "0 < n"
  shows "asio_async_read rs n s = asio_read rs n s"
proof -
  have ok: "\<not> ec_bool ec_ok" by (simp add: ec_bool_def ec_ok_def)
  have "asio_async_read rs n s = Some r \<Longrightarrow> asio_read rs n s = Some r" for r
    using read_op_run_sync [of rs n "Issue (single_prepare 65536 n [])" "[]" s r] assms ok
    by (simp add: asio_async_read_def asio_read_def read_op_start_def)
  moreover have "asio_read rs n s = Some r \<Longrightarrow> asio_async_read rs n s = Some r" for r
    using read_seq_async [of transfer_all rs n ec_ok "[]" s r] assms ok
    by (simp add: asio_async_read_def asio_read_def read_op_start_def)
  ultimately show ?thesis by (metis not_Some_eq option.sel)
qed

lemma write_op_resume_stop:
  "ec_bool ec \<or> consuming_empty (consuming_consume n cb) \<Longrightarrow> write_op_resume False ec n cb = (Finish ec, consuming_consume n cb)"
  by (auto simp: write_op_resume_def transfer_all_bool Let_def)

lemma write_op_resume_go:
  "\<not> ec_bool ec \<Longrightarrow> n \<noteq> 0 \<Longrightarrow> \<not> consuming_empty (consuming_consume n cb) \<Longrightarrow>
   write_op_resume False ec n cb = (Issue (consuming_prepare 65536 (consuming_consume n cb)), consuming_consume n cb)"
  by (simp add: write_op_resume_def transfer_all_bool Let_def)

text \<open>The position after any number of transfers: while something is left, the buffers prepared are not empty.\<close>

definition cb_at :: "consuming_buffers \<Rightarrow> bool" where
  "cb_at cb \<longleftrightarrow> total_size cb = total_consumed cb + length (cb_rest cb) \<and>
     pos_ok (drop (next_elem cb) (cb_buffers cb)) (next_elem_offset cb)"

lemma cb_at_init: "cb_at (consuming_init bufs)"
  by (auto simp: consuming_init_def cb_at_def cb_rest_def pos_ok_def length_concat split: list.split)

lemma prepare_loop_extends: "\<exists>ys. prepare_loop bs off n res = res @ ys"
proof (induction bs off n res rule: prepare_loop.induct)
  case (2 b bs off n res)
  then show ?case by (cases "0 < n \<and> length res < 16") (force simp: Let_def)+
qed simp

lemma prepare_loop_keeps: "concat res \<noteq> [] \<Longrightarrow> concat (prepare_loop bs off n res) \<noteq> []"
  using prepare_loop_extends [of bs off n res] by auto

lemma prepare_loop_some: "pos_ok bs off \<Longrightarrow> drop off (concat bs) \<noteq> [] \<Longrightarrow> 0 < n \<Longrightarrow> concat (prepare_loop bs off n []) \<noteq> []"
proof (induction bs arbitrary: off)
  case (Cons b bs)
  have p: "pos_ok bs 0" by (simp add: pos_ok_def split: list.split)
  show ?case
  proof (cases "drop off b = []")
    case True
    then have "concat bs \<noteq> []" using Cons.prems(1,2) by (auto simp: pos_ok_def)
    then show ?thesis using Cons.IH [OF p] Cons.prems(3) True by simp
  next
    case False
    then have "concat (prepare_loop bs 0 (n - length (take n (drop off b))) [take n (drop off b)]) \<noteq> []"
      using Cons.prems(3) by (intro prepare_loop_keeps) simp
    then show ?thesis using False Cons.prems(3) by (simp add: Let_def)
  qed
qed simp

lemma prepared_some: "cb_at cb \<Longrightarrow> \<not> consuming_empty cb \<Longrightarrow> concat (consuming_prepare 65536 cb) \<noteq> []"
  unfolding consuming_prepare_def by (rule prepare_loop_some) (auto simp: cb_at_def consuming_empty_def cb_rest_def)

lemma consume_at:
  assumes "cb_at cb" and "\<not> consuming_empty (consuming_consume n cb)"
  shows "cb_at (consuming_consume n cb)"
proof -
  let ?bs = "drop (next_elem cb) (cb_buffers cb)"
  obtain e f where c: "consume_loop ?bs n (next_elem cb) (next_elem_offset cb) = (e, f)" by force
  have n: "n \<le> length (cb_rest cb)" using assms by (auto simp: cb_at_def consuming_empty_def consuming_consume_def c)
  have "pos_ok ?bs (next_elem_offset cb)" "n \<le> length (drop (next_elem_offset cb) (concat ?bs))"
    using assms(1) n by (simp_all add: cb_at_def cb_rest_def)
  from consume_loop_rest [OF this c] have r: "next_elem cb \<le> e" "pos_ok (drop (e - next_elem cb) ?bs) f"
      "drop f (concat (drop (e - next_elem cb) ?bs)) = drop n (cb_rest cb)"
    unfolding cb_rest_def by blast+
  have "drop (e - next_elem cb) ?bs = drop e (cb_buffers cb)" using r(1) by simp
  then show ?thesis using assms(1) c r n by (simp add: consuming_consume_def cb_at_def cb_rest_def)
qed

lemma write_op_run_sync:
  assumes "write_op_run ws c cb s = Some r" and "no_idle_write ws" and "cb_at cb \<or> (\<exists>e. c = Finish e)"
  shows "case c of
      Finish e \<Rightarrow> r = (e, total_consumed cb, s)
    | Issue bufs \<Rightarrow> \<not> consuming_empty cb \<longrightarrow> bufs = consuming_prepare 65536 cb \<longrightarrow>
        (\<forall>ec. \<not> ec_bool ec \<longrightarrow> write_seq transfer_all ws ec cb s = Some r)"
proof -
  let ?P = "\<lambda>ws c cb s r. no_idle_write ws \<and> (cb_at cb \<or> (\<exists>e. c = Finish e)) \<longrightarrow> (case c of
      Finish e \<Rightarrow> r = (e, total_consumed cb, s)
    | Issue bufs \<Rightarrow> \<not> consuming_empty cb \<longrightarrow> bufs = consuming_prepare 65536 cb \<longrightarrow>
        (\<forall>ec. \<not> ec_bool ec \<longrightarrow> write_seq transfer_all ws ec cb s = Some r))"
  have "?P ws c cb s r"
  proof (rule write_op_run.raw_induct [where P = ?P, OF _ assms(1)], rule impI, goal_cases)
    case (1 f ws c cb s r)
    show ?case
    proof (cases c)
      case (Finish e)
      then show ?thesis using 1(2) by simp
    next
      case (Issue bufs)
      then obtain ec1 n s1 where d: "ws bufs s = Some (ec1, n, s1)"
          "f ws (fst (write_op_resume False ec1 n cb)) (snd (write_op_resume False ec1 n cb)) s1 = Some r"
        using 1(2) by (auto split: option.splits prod.splits)
      have at: "cb_at cb" using 1(3) Issue by simp
      have ih: "?P ws (fst (write_op_resume False ec1 n cb)) (snd (write_op_resume False ec1 n cb)) s1 r" by (rule 1(1) [OF d(2)])
      have st: "cb_at (snd (write_op_resume False ec1 n cb)) \<or> (\<exists>e. fst (write_op_resume False ec1 n cb) = Finish e)"
        using consume_at [OF at, of n] by (auto simp: write_op_resume_def Let_def)
      note ih = mp [OF ih conjI [OF conjunct1 [OF 1(3)] st]]
      have "write_seq transfer_all ws ec1 (consuming_consume n cb) s1 = Some r"
        if ne: "\<not> consuming_empty cb" "bufs = consuming_prepare 65536 cb"
      proof -
      have nz: "\<not> ec_bool ec1 \<Longrightarrow> n \<noteq> 0" using 1(3) d(1) prepared_some [OF at ne(1)] ne(2) unfolding no_idle_write_def by metis
      show ?thesis
      proof (cases "ec_bool ec1 \<or> consuming_empty (consuming_consume n cb)")
        case True
        then have "r = (ec1, total_consumed (consuming_consume n cb), s1)" using ih by (simp add: write_op_resume_stop)
        then show ?thesis using True by (subst write_seq.simps) (auto simp: transfer_all_bool)
      next
        case False
        then show ?thesis using ih nz by (simp add: write_op_resume_go)
      qed
      qed
      then have "write_seq transfer_all ws ec cb s = Some r"
        if "\<not> ec_bool ec" "\<not> consuming_empty cb" "bufs = consuming_prepare 65536 cb" for ec
        using that d(1) by (subst write_seq.simps) (simp add: transfer_all_bool)
      then show ?thesis using Issue by simp
    qed
  qed
  then show ?thesis using assms(2,3) by blast
qed

lemma write_seq_async:
  assumes "write_seq cond ws ec cb s = Some r" and "no_idle_write ws" and "cond = transfer_all" and "cb_at cb \<or> consuming_empty cb"
  shows "if \<not> ec_bool ec \<and> \<not> consuming_empty cb then write_op_run ws (Issue (consuming_prepare 65536 cb)) cb s = Some r
    else r = (ec, total_consumed cb, s)"
proof -
  let ?P = "\<lambda>cond ws ec cb s r. no_idle_write ws \<and> cond = transfer_all \<and> (cb_at cb \<or> consuming_empty cb) \<longrightarrow>
    (if \<not> ec_bool ec \<and> \<not> consuming_empty cb then write_op_run ws (Issue (consuming_prepare 65536 cb)) cb s = Some r
     else r = (ec, total_consumed cb, s))"
  have "?P cond ws ec cb s r"
  proof (rule write_seq.raw_induct [where P = ?P, OF _ assms(1)], rule impI, goal_cases)
    case (1 f cond ws ec cb s r)
    show ?case
    proof (cases "\<not> ec_bool ec \<and> \<not> consuming_empty cb")
      case False
      then show ?thesis using 1(2,3) by (auto simp: transfer_all_bool split: if_splits)
    next
      case True
      obtain ec1 n s1 where d: "ws (consuming_prepare 65536 cb) s = Some (ec1, n, s1)" "f cond ws ec1 (consuming_consume n cb) s1 = Some r"
        using 1(2,3) True by (auto simp: transfer_all_bool split: option.splits)
      have ih: "?P cond ws ec1 (consuming_consume n cb) s1 r" by (rule 1(1) [OF d(2)])
      have at: "cb_at cb" using 1(3) True by blast
      have st: "cb_at (consuming_consume n cb) \<or> consuming_empty (consuming_consume n cb)" using consume_at [OF at] by blast
      note ih = ih [rule_format, OF conjI [OF conjunct1 [OF 1(3)] conjI [OF conjunct1 [OF conjunct2 [OF 1(3)]] st]]]
      have nz: "\<not> ec_bool ec1 \<Longrightarrow> n \<noteq> 0" using 1(3) d(1) prepared_some [OF at] True unfolding no_idle_write_def by metis
      have "(case write_op_resume False ec1 n cb of (c1, cb1) \<Rightarrow> write_op_run ws c1 cb1 s1) = Some r"
      proof (cases "ec_bool ec1 \<or> consuming_empty (consuming_consume n cb)")
        case True
        then have "r = (ec1, total_consumed (consuming_consume n cb), s1)" using ih by auto
        then show ?thesis using True by (simp add: write_op_resume_stop) (subst write_op_run.simps, simp)
      next
        case False
        then show ?thesis using ih nz by (simp add: write_op_resume_go)
      qed
      then show ?thesis using True d(1) by (subst write_op_run.simps) simp
    qed
  qed
  then show ?thesis using assms(2-4) by blast
qed

lemma async_write_same:
  assumes "no_idle_write ws" and "concat bufs \<noteq> []"
  shows "asio_async_write ws bufs s = asio_write ws bufs s"
proof -
  let ?cb = "consuming_init bufs"
  have ok: "\<not> ec_bool ec_ok" by (simp add: ec_bool_def ec_ok_def)
  have ne: "\<not> consuming_empty ?cb" using assms(2) by (auto simp: consuming_init_def consuming_empty_def simp flip: length_concat)
  have "asio_async_write ws bufs s = Some r \<Longrightarrow> asio_write ws bufs s = Some r" for r
    using write_op_run_sync [of ws "Issue (consuming_prepare 65536 ?cb)" ?cb s r] assms ok ne cb_at_init
    by (simp add: asio_async_write_def asio_write_def write_op_start_def)
  moreover have "asio_write ws bufs s = Some r \<Longrightarrow> asio_async_write ws bufs s = Some r" for r
    using write_seq_async [of transfer_all ws ec_ok ?cb s r] assms ok ne cb_at_init
    by (simp add: asio_async_write_def asio_write_def write_op_start_def)
  ultimately show ?thesis by (metis not_Some_eq option.sel)
qed

section \<open>Properties\<close>

text \<open>
  C9. The asynchronous composed operations compute what the blocking ones compute. Over any stream whose \<open>read_some\<close> and
  \<open>write_some\<close>, asked to transfer at least one byte, do not report success without transferring anything (\<open>no_idle_read\<close>,
  \<open>no_idle_write\<close>; asio's own socket is such a stream, lemma \<open>socket_no_idle\<close> of theory \<open>AsioPosix\<close>), and for a transfer of at least
  one byte, the operation objects \<open>read_op\<close> and \<open>write_op\<close>, which resume in the middle of their loop at every completion, call
  their handler with exactly the code and the bytes that \<open>asio::read\<close> and \<open>asio::write\<close> return, on success and on every error, and
  do not finish exactly when those do not return.
\<close>

theorem async_ops_same:
  assumes "no_idle_read rs" and "no_idle_write ws" and "0 < n" and "concat bufs \<noteq> []"
  shows "asio_async_read rs n s = asio_read rs n s \<and> asio_async_write ws bufs v = asio_write ws bufs v"
  using async_read_same [OF assms(1,3)] async_write_same [OF assms(2,4)] by simp

end
