(* ===== verification/AsioPosix.thy ===== *)
theory AsioPosix
  imports AsioStream Startup
begin

text \<open>
  From system calls to the stream the library relies on. \<open>healthy os net lag\<close> states what a live
  connection does at the level of system calls, as POSIX describes them: \<open>recv\<close> returns some of the
  bytes that have arrived, never more than asked for, \<open>sendmsg\<close> takes some of the bytes it is given, and
  either may first fail with \<open>EAGAIN\<close> a bounded number of times (\<open>lag\<close>). How the bytes are cut into pieces
  is left open. \<open>served_by\<close> says that the transport \<open>io\<close> of the library's connections is the code of asio
  over those system calls. Then the transport is \<open>reliable\<close>: everything proved of blocking calls in
  \<open>Dialogue\<close> and \<open>Startup\<close> holds however the network cuts the bytes.
\<close>

section \<open>The stream socket\<close>

definition socket_read_some :: "'s os \<Rightarrow> socket_impl \<Rightarrow> 's read_some" where
  "socket_read_some os sk len s = sync_recv1 os sk len s"

definition socket_write_some :: "'s os \<Rightarrow> socket_impl \<Rightarrow> 's write_some" where
  "socket_write_some os sk bufs s = sync_send os sk bufs s"

text \<open>The socket of a connection as constructed, and after it has been opened by \<open>connect\<close>.\<close>

definition opened :: "bool \<Rightarrow> socket_impl" where
  "opened u = (socket_construct u)\<lparr>socket_open := True, stream_oriented := True\<rparr>"

definition served_by :: "'s asio \<Rightarrow> bool \<Rightarrow> 's os \<Rightarrow> bool" where
  "served_by io u os \<longleftrightarrow>
     (\<forall>s ec sk s'. socket_connect os (socket_construct u) s = (ec, sk, s') \<longrightarrow> aio_connect io s = (ec, s')) \<and>
     (\<forall>n s r. asio_read (socket_read_some os (opened u)) n s = Some r \<longrightarrow> aio_read io n s = r) \<and>
     (\<forall>h b s r. asio_write (socket_write_some os (opened u)) [h, b] s = Some r \<longrightarrow> aio_write io (h @ b) s = r) \<and>
     (\<forall>s ec sk s'. service_close os (opened u) s = (ec, sk, s') \<longrightarrow> aio_close io s = (ec, s'))"

definition healthy :: "'s os \<Rightarrow> ('s \<Rightarrow> buffer \<times> buffer) \<Rightarrow> ('s \<Rightarrow> nat) \<Rightarrow> bool" where
  "healthy os net lag \<longleftrightarrow>
     (\<forall>n s rx tx. 0 < n \<and> rx \<noteq> [] \<and> net s = (rx, tx) \<longrightarrow>
        (\<exists>k s'. 0 < k \<and> k \<le> n \<and> k \<le> length rx \<and> sys_recv os n s = (Inr (take k rx), s') \<and> net s' = (drop k rx, tx)) \<or>
        (\<exists>s1 m s2. sys_recv os n s = (Inl 11, s1) \<and> sys_poll os False (- 1) s1 = (Inr m, s2) \<and> net s2 = net s \<and> lag s2 < lag s)) \<and>
     (\<forall>b s rx tx. b \<noteq> [] \<and> net s = (rx, tx) \<longrightarrow>
        (\<exists>k s'. 0 < k \<and> k \<le> length b \<and> sys_sendmsg os b s = (Inr k, s') \<and> net s' = (rx, tx @ take k b)) \<or>
        (\<exists>s1 m s2. sys_sendmsg os b s = (Inl 11, s1) \<and> sys_poll os True (- 1) s1 = (Inr m, s2) \<and> net s2 = net s \<and> lag s2 < lag s)) \<and>
     (\<forall>s. \<exists>s1 s2 s3. sys_socket os s = (Inr (), s1) \<and> reactor_register os s1 = (0, s2) \<and> sys_connect os s2 = (Inr (), s3) \<and> net s3 = net s) \<and>
     (\<forall>s. \<exists>s'. sys_close os s = (Inr (), s') \<and> net s' = net s)"

lemma opened_simps [simp]:
  "socket_open (opened u)" "stream_oriented (opened u)" "\<not> user_set_non_blocking (opened u)" "addr_unix (opened u) = u"
  by (simp_all add: opened_def socket_construct_def)

lemma would_block_11 [simp]: "sys_ec 11 = asio_would_block" "asio_try_again = asio_would_block"
  by (simp_all add: asio_would_block_def asio_try_again_def)

section \<open>Progress of the socket\<close>

lemma healthy_recvE:
  assumes "healthy os net lag" and "0 < n" and "rx \<noteq> []" and "net s = (rx, tx)"
  obtains (data) k s' where "0 < k" "k \<le> n" "k \<le> length rx" "sys_recv os n s = (Inr (take k rx), s')" "net s' = (drop k rx, tx)"
    | (wait) s1 m s2 where "sys_recv os n s = (Inl 11, s1)" "sys_poll os False (- 1) s1 = (Inr m, s2)" "net s2 = net s" "lag s2 < lag s"
proof -
  have "(\<exists>k s'. 0 < k \<and> k \<le> n \<and> k \<le> length rx \<and> sys_recv os n s = (Inr (take k rx), s') \<and> net s' = (drop k rx, tx)) \<or>
        (\<exists>s1 m s2. sys_recv os n s = (Inl 11, s1) \<and> sys_poll os False (- 1) s1 = (Inr m, s2) \<and> net s2 = net s \<and> lag s2 < lag s)"
    using assms(1) [unfolded healthy_def, THEN conjunct1] assms(2-) by metis
  then show thesis using data wait by (elim disjE exE conjE)
qed

lemma healthy_sendE:
  assumes "healthy os net lag" and "b \<noteq> []" and "net s = (rx, tx)"
  obtains (data) k s' where "0 < k" "k \<le> length b" "sys_sendmsg os b s = (Inr k, s')" "net s' = (rx, tx @ take k b)"
    | (wait) s1 m s2 where "sys_sendmsg os b s = (Inl 11, s1)" "sys_poll os True (- 1) s1 = (Inr m, s2)" "net s2 = net s" "lag s2 < lag s"
proof -
  have "(\<exists>k s'. 0 < k \<and> k \<le> length b \<and> sys_sendmsg os b s = (Inr k, s') \<and> net s' = (rx, tx @ take k b)) \<or>
        (\<exists>s1 m s2. sys_sendmsg os b s = (Inl 11, s1) \<and> sys_poll os True (- 1) s1 = (Inr m, s2) \<and> net s2 = net s \<and> lag s2 < lag s)"
    using assms(1) [unfolded healthy_def, THEN conjunct2, THEN conjunct1] assms(2-) by metis
  then show thesis using data wait by (elim disjE exE conjE)
qed

lemma recv_loop_some:
  assumes os: "healthy os net lag" and "0 < n" and "rx \<noteq> []" and "net s = (rx, tx)"
  shows "\<exists>k s'. 0 < k \<and> k \<le> n \<and> k \<le> length rx \<and> recv_loop os (opened u) n s = Some (ec_ok, take k rx, s') \<and> net s' = (drop k rx, tx)"
  using assms(4)
proof (induction "lag s" arbitrary: s rule: less_induct)
  case less
  from os assms(2,3) less.prems show ?case
  proof (cases rule: healthy_recvE)
    case (data k s')
    then have "take k rx \<noteq> []" using assms(3) by simp
    then have "recv_loop os (opened u) n s = Some (ec_ok, take k rx, s')"
      using data by (subst recv_loop.simps) (simp add: recv1_def get_last_error_def)
    then show ?thesis using data by blast
  next
    case (wait s1 m s2)
    have "recv_loop os (opened u) n s = recv_loop os (opened u) n s2"
      using wait by (subst recv_loop.simps) (simp add: recv1_def get_last_error_def poll_read_def)
    then show ?thesis using less.hyps [of s2] wait less.prems by simp
  qed
qed

lemma send_loop_some:
  assumes os: "healthy os net lag" and "concat bufs \<noteq> []" and "net s = (rx, tx)"
  shows "\<exists>k s'. 0 < k \<and> k \<le> length (concat bufs) \<and> send_loop os (opened u) bufs s = Some (ec_ok, k, s') \<and>
    net s' = (rx, tx @ take k (concat bufs))"
  using assms(3)
proof (induction "lag s" arbitrary: s rule: less_induct)
  case less
  from os assms(2) less.prems show ?case
  proof (cases rule: healthy_sendE)
    case (data k s')
    then have "send_loop os (opened u) bufs s = Some (ec_ok, k, s')"
      by (subst send_loop.simps) (simp add: os_send_def get_last_error_def)
    then show ?thesis using data by blast
  next
    case (wait s1 m s2)
    have "send_loop os (opened u) bufs s = send_loop os (opened u) bufs s2"
      using wait by (subst send_loop.simps) (simp add: os_send_def get_last_error_def poll_write_def)
    then show ?thesis using less.hyps [of s2] wait less.prems by simp
  qed
qed

lemma socket_reads_some: "healthy os net lag \<Longrightarrow> reads_some (socket_read_some os (opened u)) net"
  unfolding reads_some_def using recv_loop_some [of os net lag] by (simp add: socket_read_some_def sync_recv1_def)

lemma socket_writes_some: "healthy os net lag \<Longrightarrow> writes_some (socket_write_some os (opened u)) net"
proof -
  assume os: "healthy os net lag"
  have "socket_write_some os (opened u) bufs s = send_loop os (opened u) bufs s" if "concat bufs \<noteq> []" for bufs s
    using that by (auto simp: socket_write_some_def sync_send_def list_all_iff)
  then show ?thesis unfolding writes_some_def using send_loop_some [OF os] by simp
qed

lemma healthy_read:
  assumes "healthy os net lag" and "net s = (rx, tx)" and "n \<le> length rx"
  shows "\<exists>s'. asio_read (socket_read_some os (opened u)) n s = Some (ec_ok, take n rx, s') \<and> net s' = (drop n rx, tx)"
  using read_seq_exact [OF socket_reads_some [OF assms(1)] assms(2), of "[]" n] assms(3) by (simp add: asio_read_def)

lemma healthy_write:
  assumes "healthy os net lag" and "net s = (rx, tx)" and "length bufs \<le> 16"
  shows "\<exists>s'. asio_write (socket_write_some os (opened u)) bufs s = Some (ec_ok, length (concat bufs), s') \<and> net s' = (rx, tx @ concat bufs)"
proof -
  have "total_size (consuming_init bufs) = length (concat bufs)" by (simp add: consuming_init_def length_concat)
  then show ?thesis
    using write_seq_all [OF socket_writes_some [OF assms(1)] assms(2), of "consuming_init bufs"] consuming_init_ok [OF assms(3)]
    by (simp add: asio_write_def)
qed

lemma healthy_connect:
  assumes "healthy os net lag"
  shows "\<exists>s'. socket_connect os (socket_construct u) s = (ec_ok, opened u, s') \<and> net s' = net s"
proof -
  obtain s1 s2 s3 where "sys_socket os s = (Inr (), s1)" "reactor_register os s1 = (0, s2)" "sys_connect os s2 = (Inr (), s3)" "net s3 = net s"
    using assms unfolding healthy_def by blast
  then show ?thesis
    by (simp add: socket_connect_def do_open_def socket_construct_def sync_connect_def ops_connect_def opened_def get_last_error_def
        ec_bool_def ec_ok_def asio_ec_defs)
qed

lemma healthy_close:
  assumes "healthy os net lag"
  shows "\<exists>s'. service_close os (opened u) s = (ec_ok, socket_construct u, s') \<and> net s' = net s"
proof -
  obtain s' where "sys_close os s = (Inr (), s')" "net s' = net s" using assms unfolding healthy_def by blast
  then show ?thesis
    by (simp add: service_close_def ops_close_def get_last_error_def ec_ok_def asio_ec_defs)
qed

lemma served_reliable:
  assumes os: "healthy os net lag" and io: "served_by io u os"
  shows "reliable io net"
proof -
  have "\<exists>s'. aio_read io n s = (ec_ok, take n rx, s') \<and> net s' = (drop n rx, tx)" if "net s = (rx, tx)" "n \<le> length rx" for n s rx tx
    using healthy_read [OF os that, of u] io unfolding served_by_def by blast
  moreover have "\<exists>s'. aio_write io b s = (ec_ok, length b, s') \<and> net s' = (rx, tx @ b)" if st: "net s = (rx, tx)" for b s rx tx
  proof -
    obtain s' where "asio_write (socket_write_some os (opened u)) [[], b] s = Some (ec_ok, length b, s')" "net s' = (rx, tx @ b)"
      using healthy_write [OF os st, of "[[], b]" u] by auto
    then show ?thesis using io unfolding served_by_def by (metis append_Nil)
  qed
  moreover have "\<exists>s'. aio_connect io s = (ec_ok, s') \<and> net s' = net s" for s
    using healthy_connect [OF os, of u s] io unfolding served_by_def by blast
  moreover have "\<exists>s'. aio_close io s = (ec_ok, s') \<and> net s' = net s" for s
    using healthy_close [OF os, of u s] io unfolding served_by_def by blast
  ultimately show ?thesis unfolding reliable_def by blast
qed

section \<open>A stream that ends\<close>

text \<open>The peer has closed its side: when everything has been read, \<open>recv\<close> returns zero bytes.\<close>

definition ended :: "'s os \<Rightarrow> ('s \<Rightarrow> buffer \<times> buffer) \<Rightarrow> bool" where
  "ended os net \<longleftrightarrow> (\<forall>n s tx. 0 < n \<and> net s = ([], tx) \<longrightarrow> (\<exists>s'. sys_recv os n s = (Inr [], s') \<and> net s' = ([], tx)))"

lemma asio_eof_bool [simp]: "ec_bool asio_eof"
  by (simp add: ec_bool_def asio_ec_defs)

lemma read_seq_eof:
  assumes rs: "reads_some rs net" and e: "\<forall>n s tx. 0 < n \<and> net s = ([], tx) \<longrightarrow> (\<exists>s'. rs n s = Some (asio_eof, [], s') \<and> net s' = ([], tx))"
    and "net s = (rx, tx)" and "length data + length rx < n"
  shows "\<exists>s'. read_buffer_seq transfer_all rs n ec_ok data s = Some (asio_eof, data @ rx, s') \<and> net s' = ([], tx)"
  using assms(3-)
proof (induction "length rx" arbitrary: data rx s rule: less_induct)
  case less
  let ?m = "single_prepare 65536 n data"
  have m: "0 < ?m" "\<not> single_empty n data" using less.prems(2) by (simp_all add: single_prepare_def single_empty_def)
  show ?case
  proof (cases "rx = []")
    case True
    then obtain s1 where s1: "rs ?m s = Some (asio_eof, [], s1)" "net s1 = ([], tx)" using e m(1) less.prems(1) by blast
    have "read_buffer_seq transfer_all rs n asio_eof data s1 = Some (asio_eof, data, s1)"
      using m(2) by (subst read_buffer_seq.simps) (simp add: transfer_all_bool)
    then show ?thesis using m s1 True by (subst read_buffer_seq.simps) simp
  next
    case False
    then obtain k s1 where k: "0 < k" "k \<le> length rx" "rs ?m s = Some (ec_ok, take k rx, s1)" "net s1 = (drop k rx, tx)"
      using rs [unfolded reads_some_def, rule_format, of ?m rx s tx] m(1) less.prems(1) by blast
    have "length (drop k rx) < length rx" using k(1) False by simp
    from less.hyps [OF this k(4), of "data @ take k rx"]
    obtain s' where "read_buffer_seq transfer_all rs n ec_ok (data @ take k rx) s1 = Some (asio_eof, data @ rx, s')" "net s' = ([], tx)"
      using k(2) less.prems(2) by auto
    then show ?thesis using m k(3) by (subst read_buffer_seq.simps) simp
  qed
qed

lemma ended_read:
  assumes "healthy os net lag" and "ended os net" and "net s = (rx, tx)" and "length rx < n"
  shows "\<exists>s'. asio_read (socket_read_some os (opened u)) n s = Some (asio_eof, rx, s') \<and> net s' = ([], tx)"
proof -
  have "\<exists>s'. socket_read_some os (opened u) n s = Some (asio_eof, [], s') \<and> net s' = ([], tx)" if a: "0 < n" "net s = ([], tx)" for n s tx
  proof -
    obtain s' where r: "sys_recv os n s = (Inr [], s')" "net s' = ([], tx)"
      using assms(2) [unfolded ended_def, rule_format, of n s tx] a by blast
    have "recv_loop os (opened u) n s = Some (asio_eof, [], s')"
      using r(1) by (subst recv_loop.simps) (simp add: recv1_def)
    then show ?thesis using a r(2) by (simp add: socket_read_some_def sync_recv1_def)
  qed
  then show ?thesis
    using read_seq_eof [OF socket_reads_some [OF assms(1)] _ assms(3), of u "[]" n] assms(4) by (simp add: asio_read_def)
qed

section \<open>The cut between header and body does not matter\<close>

text \<open>A stream that looks only at the gathered bytes and never reports more than it was given.\<close>

definition gathers :: "'s write_some \<Rightarrow> bool" where
  "gathers ws \<longleftrightarrow> (\<forall>bufs bufs' s. concat bufs = concat bufs' \<longrightarrow> ws bufs s = ws bufs' s) \<and>
     (\<forall>bufs s ec n s'. ws bufs s = Some (ec, n, s') \<longrightarrow> n \<le> length (concat bufs))"

lemma write_seq_gathers:
  assumes "write_seq cond ws ec cb s = Some r" and "gathers ws" and "cb_ok cb" and "cb_ok cb'"
    and "cb_rest cb' = cb_rest cb" and "total_consumed cb' = total_consumed cb"
  shows "write_seq cond ws ec cb' s = Some r"
proof -
  let ?P = "\<lambda>cond ws ec cb s r. gathers ws \<and> cb_ok cb \<longrightarrow> (\<forall>cb'. cb_ok cb' \<and> cb_rest cb' = cb_rest cb \<and>
    total_consumed cb' = total_consumed cb \<longrightarrow> write_seq cond ws ec cb' s = Some r)"
  have "?P cond ws ec cb s r"
  proof (rule write_seq.raw_induct [where P = ?P, OF _ assms(1)], intro impI allI, goal_cases)
    case (1 f cond ws ec cb s r cb')
    have e: "consuming_empty cb' \<longleftrightarrow> consuming_empty cb" using 1(3,4) by (simp add: consuming_empty_rest)
    show ?case
    proof (cases "consuming_empty cb \<or> cond ec (total_consumed cb) = 0")
      case True
      then show ?thesis using 1(2,4) e by (subst write_seq.simps) (auto simp: Let_def split: if_splits)
    next
      case False
      let ?m = "cond ec (total_consumed cb)"
      have c: "concat (consuming_prepare ?m cb') = concat (consuming_prepare ?m cb)"
        using 1(3,4) by (simp add: consuming_prepare_rest)
      obtain ec1 n s1 where d: "ws (consuming_prepare ?m cb) s = Some (ec1, n, s1)" "f cond ws ec1 (consuming_consume n cb) s1 = Some r"
        using 1(2) False by (auto simp: Let_def split: option.splits)
      have d': "ws (consuming_prepare ?m cb') s = Some (ec1, n, s1)" using 1(3) d(1) c unfolding gathers_def by metis
      have "n \<le> length (concat (consuming_prepare ?m cb))" using 1(3) d(1) unfolding gathers_def by blast
      then have n: "n \<le> length (cb_rest cb)" using 1(3) by (simp add: consuming_prepare_rest)
      have "write_seq cond ws ec1 (consuming_consume n cb') s1 = Some r"
        using 1(1) [OF d(2)] 1(3,4) consuming_consume_rest [of cb n] consuming_consume_rest [of cb' n] n by simp
      then show ?thesis using False e 1(4) d' by (subst write_seq.simps) (simp add: Let_def)
    qed
  qed
  then show ?thesis using assms(2-) by simp
qed

lemma asio_write_gathers:
  assumes "gathers ws" and "asio_write ws bufs s = Some r" and "length bufs \<le> 16" and "length bufs' \<le> 16" and "concat bufs = concat bufs'"
  shows "asio_write ws bufs' s = Some r"
  using write_seq_gathers [OF assms(2) [unfolded asio_write_def] assms(1), of "consuming_init bufs'"]
    consuming_init_ok [OF assms(3)] consuming_init_ok [OF assms(4)] assms(5)
  by (simp add: asio_write_def consuming_init_def)

lemma send_loop_gathers:
  assumes "send_loop os sk bufs s = Some r" and "\<forall>b s n s'. sys_sendmsg os b s = (Inr n, s') \<longrightarrow> n \<le> length b"
  shows "(\<forall>bufs'. concat bufs' = concat bufs \<longrightarrow> send_loop os sk bufs' s = Some r) \<and> fst (snd r) \<le> length (concat bufs)"
proof -
  let ?P = "\<lambda>os sk bufs s r. (\<forall>b s n s'. sys_sendmsg os b s = (Inr n, s') \<longrightarrow> n \<le> length b) \<longrightarrow>
    (\<forall>bufs'. concat bufs' = concat bufs \<longrightarrow> send_loop os sk bufs' s = Some r) \<and> fst (snd r) \<le> length (concat bufs)"
  have "?P os sk bufs s r"
  proof (rule send_loop.raw_induct [where P = ?P, OF _ assms(1)], rule impI, goal_cases)
    case (1 f os sk bufs s r)
    obtain q s1 where q: "sys_sendmsg os (concat bufs) s = (q, s1)" by force
    have o: "os_send os bufs' s = (q, get_last_error q, s1)" if "concat bufs' = concat bufs" for bufs'
      using that q by (simp add: os_send_def)
    show ?case
    proof (cases q)
      case (Inr n)
      then have "r = (get_last_error q, n, s1)" "n \<le> length (concat bufs)" using 1(2,3) o [of bufs] q by auto
      then show ?thesis using o Inr by (intro conjI allI impI) (subst send_loop.simps, simp_all)
    next
      case (Inl e)
      let ?w = "user_set_non_blocking sk \<or> (get_last_error q \<noteq> asio_would_block \<and> get_last_error q \<noteq> asio_try_again)"
      obtain m ec1 s2 where p: "poll_write os (sk\<lparr>user_set_non_blocking := False\<rparr>) (- 1) s1 = (m, ec1, s2)" by (metis prod_cases3)
      show ?thesis
      proof (cases "?w \<or> m < 0")
        case True
        then have "r = (if ?w then (get_last_error q, 0, s1) else (ec1, 0, s2))" using 1(2) o [of bufs] Inl p by auto
        then show ?thesis using o Inl p True by (intro conjI allI impI) (subst send_loop.simps, auto)
      next
        case False
        then have "f os sk bufs s2 = Some r" using 1(2) o [of bufs] Inl p by auto
        from 1(1) [OF this] 1(3) show ?thesis using o Inl p False by (intro conjI allI impI) (subst send_loop.simps, auto)
      qed
    qed
  qed
  then show ?thesis using assms(2) by simp
qed

lemma socket_gathers:
  assumes "\<forall>b s n s'. sys_sendmsg os b s = (Inr n, s') \<longrightarrow> n \<le> length b"
  shows "gathers (socket_write_some os sk)"
  unfolding gathers_def
proof (intro conjI allI impI)
  fix bufs bufs' s assume c: "concat bufs = concat (bufs' :: buffer list)"
  have "send_loop os sk bs s = Some r \<Longrightarrow> concat bs' = concat bs \<Longrightarrow> send_loop os sk bs' s = Some r" for bs bs' r
    using send_loop_gathers [OF _ assms] by blast
  then have "send_loop os sk bufs s = send_loop os sk bufs' s" using c by (metis not_Some_eq option.sel)
  moreover have "list_all (\<lambda>b. b = []) bufs = list_all (\<lambda>b. b = []) bufs'"
    using c concat_eq_Nil_conv [of bufs] concat_eq_Nil_conv [of bufs'] by (simp only: list_all_iff)
  ultimately show "socket_write_some os sk bufs s = socket_write_some os sk bufs' s"
    by (simp add: socket_write_some_def sync_send_def)
next
  fix bufs s ec n s' assume "socket_write_some os sk bufs s = Some (ec, n, s')"
  then have "n = 0 \<or> send_loop os sk bufs s = Some (ec, n, s')"
    by (auto simp: socket_write_some_def sync_send_def split: if_splits)
  then show "n \<le> length (concat bufs)"
    using send_loop_gathers [OF _ assms, of sk bufs s "(ec, n, s')"] by (elim disjE) simp_all
qed

section \<open>The socket never idles\<close>

text \<open>
  What POSIX says of the system calls: one that fails has an error number, and a \<open>sendmsg\<close> with at least one byte that succeeds has
  taken at least one. A \<open>recv\<close> that yields nothing is the end of the stream, which the code turns into an error.
\<close>

definition posix_calls :: "'s os \<Rightarrow> bool" where
  "posix_calls os \<longleftrightarrow>
     (\<forall>n s s'. sys_recv os n s \<noteq> (Inl 0, s')) \<and> (\<forall>b s s'. sys_sendmsg os b s \<noteq> (Inl 0, s')) \<and>
     (\<forall>w t s s'. sys_poll os w t s \<noteq> (Inl 0, s')) \<and> (\<forall>b s s'. b \<noteq> [] \<longrightarrow> sys_sendmsg os b s \<noteq> (Inr 0, s'))"

lemma failed_bool: "ec_bool (sys_ec e) \<longleftrightarrow> e \<noteq> 0"
  by (simp add: sys_ec_def ec_bool_def)

lemma poll_failed:
  assumes "posix_calls os"
  shows "poll_read os sk t s = (m, ec, s') \<Longrightarrow> m < 0 \<Longrightarrow> ec_bool ec" and "poll_write os sk t s = (m, ec, s') \<Longrightarrow> m < 0 \<Longrightarrow> ec_bool ec"
proof -
  have p: "sys_poll os w t s = (Inl e, s') \<Longrightarrow> e \<noteq> 0" for w t s e s' using assms by (auto simp: posix_calls_def)
  have o: "ec_bool asio_bad_descriptor" by (simp add: failed_bool asio_bad_descriptor_def)
  show "poll_read os sk t s = (m, ec, s') \<Longrightarrow> m < 0 \<Longrightarrow> ec_bool ec" "poll_write os sk t s = (m, ec, s') \<Longrightarrow> m < 0 \<Longrightarrow> ec_bool ec"
    using o by (auto simp: poll_read_def poll_write_def failed_bool get_last_error_def dest: p split: if_splits prod.splits sum.splits)
qed

lemma recv_loop_no_idle:
  assumes "recv_loop os sk n s = Some (ec, d, s')" and "posix_calls os" and "stream_oriented sk" and "\<not> ec_bool ec"
  shows "d \<noteq> []"
proof -
  let ?P = "\<lambda>os sk n s r. posix_calls os \<and> stream_oriented sk \<and> \<not> ec_bool (fst r) \<longrightarrow> fst (snd r) \<noteq> []"
  have "?P os sk n s (ec, d, s')"
  proof (rule recv_loop.raw_induct [where P = ?P, OF _ assms(1)], rule impI, goal_cases)
    case (1 f os sk n s r)
    obtain q s1 where q: "sys_recv os n s = (q, s1)" by force
    show ?case
    proof (cases q)
      case (Inr d)
      then show ?thesis using 1(2,3) q by (auto simp: recv1_def split: if_splits)
    next
      case (Inl e)
      then have "e \<noteq> 0" using 1(3) q by (auto simp: posix_calls_def)
      then have e: "ec_bool (get_last_error q)" using Inl by (simp add: failed_bool get_last_error_def)
      obtain m ec1 s2 where p: "poll_read os (sk\<lparr>user_set_non_blocking := False\<rparr>) (- 1) s1 = (m, ec1, s2)" by (metis prod_cases3)
      have "f os sk n s2 = Some r" using 1(2,3) q Inl p e poll_failed(1) [OF conjunct1 [OF 1(3)] p] by (auto simp: recv1_def split: if_splits)
      from 1(1) [OF this] 1(3) show ?thesis by blast
    qed
  qed
  then show ?thesis using assms(2-) by simp
qed

lemma send_loop_no_idle:
  assumes "send_loop os sk bufs s = Some (ec, n, s')" and "posix_calls os" and "concat bufs \<noteq> []" and "\<not> ec_bool ec"
  shows "n \<noteq> 0"
proof -
  let ?P = "\<lambda>os sk bufs s r. posix_calls os \<and> concat bufs \<noteq> [] \<and> \<not> ec_bool (fst r) \<longrightarrow> fst (snd r) \<noteq> 0"
  have "?P os sk bufs s (ec, n, s')"
  proof (rule send_loop.raw_induct [where P = ?P, OF _ assms(1)], rule impI, goal_cases)
    case (1 f os sk bufs s r)
    obtain q s1 where q: "sys_sendmsg os (concat bufs) s = (q, s1)" by force
    show ?case
    proof (cases q)
      case (Inr k)
      have "\<forall>b s s'. b \<noteq> [] \<longrightarrow> sys_sendmsg os b s \<noteq> (Inr 0, s')" using 1(3) by (simp add: posix_calls_def)
      then have "k \<noteq> 0" using 1(3) q Inr by metis
      then show ?thesis using 1(2,3) q Inr by (auto simp: os_send_def)
    next
      case (Inl e)
      then have "e \<noteq> 0" using 1(3) q by (auto simp: posix_calls_def)
      then have e: "ec_bool (get_last_error q)" using Inl by (simp add: failed_bool get_last_error_def)
      obtain m ec1 s2 where p: "poll_write os (sk\<lparr>user_set_non_blocking := False\<rparr>) (- 1) s1 = (m, ec1, s2)" by (metis prod_cases3)
      have "f os sk bufs s2 = Some r" using 1(2,3) q Inl p e poll_failed(2) [OF conjunct1 [OF 1(3)] p] by (auto simp: os_send_def split: if_splits)
      from 1(1) [OF this] 1(3) show ?thesis by blast
    qed
  qed
  then show ?thesis using assms(2-) by simp
qed

lemma socket_no_idle:
  assumes "posix_calls os" and "stream_oriented sk"
  shows "no_idle_read (socket_read_some os sk)" and "no_idle_write (socket_write_some os sk)"
proof -
  have o: "ec_bool asio_bad_descriptor" by (simp add: ec_bool_def asio_ec_defs)
  show "no_idle_read (socket_read_some os sk)"
    using recv_loop_no_idle [OF _ assms] o unfolding no_idle_read_def socket_read_some_def sync_recv1_def
    by (auto split: if_splits, blast)
  show "no_idle_write (socket_write_some os sk)"
    using send_loop_no_idle [OF _ assms(1)] o unfolding no_idle_write_def socket_write_some_def sync_send_def
    by (auto simp: list_all_iff split: if_splits, blast)
qed

section \<open>An operating system for examples\<close>

text \<open>
  The state is what has arrived, what was sent and a counter. A call first fails with \<open>EAGAIN\<close> when the
  counter is not zero (for \<open>recv\<close>, unless the stream has ended); otherwise it moves at most three bytes and sets the counter.
\<close>

definition chunk_os :: "(buffer \<times> buffer \<times> nat) os" where
  "chunk_os = \<lparr>
     sys_socket = (\<lambda>s. (Inr (), s)), reactor_register = (\<lambda>s. (0, s)), sys_connect = (\<lambda>s. (Inr (), s)),
     sys_poll = (\<lambda>_ _ s. (Inr 1, s)), sys_so_error = (\<lambda>s. (Inr 0, s)),
     sys_recv = (\<lambda>n (rx, tx, l). if l \<noteq> 0 \<and> rx \<noteq> [] then (Inl 11, (rx, tx, l - 1))
        else (Inr (take (min n 3) rx), (drop (min n 3) rx, tx, 1))),
     sys_sendmsg = (\<lambda>b (rx, tx, l). if l \<noteq> 0 then (Inl 11, (rx, tx, l - 1))
        else (Inr (min 3 (length b)), (rx, tx @ take 3 b, 1))),
     sys_close = (\<lambda>s. (Inr (), s)), sys_ioctl_blocking = (\<lambda>s. (Inr (), s)), sys_fcntl_blocking = (\<lambda>s. s)\<rparr>"

definition chunk_net :: "buffer \<times> buffer \<times> nat \<Rightarrow> buffer \<times> buffer" where
  "chunk_net = (\<lambda>(rx, tx, l). (rx, tx))"

definition chunk_lag :: "buffer \<times> buffer \<times> nat \<Rightarrow> nat" where
  "chunk_lag = (\<lambda>(rx, tx, l). l)"

lemma chunk_healthy: "healthy chunk_os chunk_net chunk_lag"
proof -
  have r: "(\<exists>k s'. 0 < k \<and> k \<le> n \<and> k \<le> length rx \<and> sys_recv chunk_os n s = (Inr (take k rx), s') \<and> chunk_net s' = (drop k rx, tx)) \<or>
      (\<exists>s1 m s2. sys_recv chunk_os n s = (Inl 11, s1) \<and> sys_poll chunk_os False (- 1) s1 = (Inr m, s2) \<and> chunk_net s2 = chunk_net s \<and>
        chunk_lag s2 < chunk_lag s)"
    if "0 < n" "rx \<noteq> []" "chunk_net s = (rx, tx)" for n s rx tx
    using that by (cases s) (auto simp: chunk_os_def chunk_net_def chunk_lag_def Suc_leI min_def intro!: exI [of _ "min (min n 3) (length rx)"])
  have w: "(\<exists>k s'. 0 < k \<and> k \<le> length b \<and> sys_sendmsg chunk_os b s = (Inr k, s') \<and> chunk_net s' = (rx, tx @ take k b)) \<or>
      (\<exists>s1 m s2. sys_sendmsg chunk_os b s = (Inl 11, s1) \<and> sys_poll chunk_os True (- 1) s1 = (Inr m, s2) \<and> chunk_net s2 = chunk_net s \<and>
        chunk_lag s2 < chunk_lag s)"
    if "b \<noteq> []" "chunk_net s = (rx, tx)" for b s rx tx
    using that by (cases s) (auto simp: chunk_os_def chunk_net_def chunk_lag_def min_def)
  show ?thesis unfolding healthy_def using r w by (auto simp: chunk_os_def)
qed

lemma chunk_posix: "posix_calls chunk_os"
  by (auto simp: posix_calls_def chunk_os_def split: if_splits)

lemma chunk_ended: "ended chunk_os chunk_net"
  unfolding ended_def by (auto simp: chunk_os_def chunk_net_def)

text \<open>The transport that runs asio's code over an operating system (with the code \<open>would_block\<close> for a call that never returns).\<close>

definition os_io :: "bool \<Rightarrow> 's os \<Rightarrow> 's asio" where
  "os_io u os = \<lparr>
     aio_connect = (\<lambda>s. case socket_connect os (socket_construct u) s of (ec, _, s') \<Rightarrow> (ec, s')),
     aio_read = (\<lambda>n s. case asio_read (socket_read_some os (opened u)) n s of Some r \<Rightarrow> r | None \<Rightarrow> (asio_would_block, [], s)),
     aio_write = (\<lambda>b s. case asio_write (socket_write_some os (opened u)) [[], b] s of Some r \<Rightarrow> r | None \<Rightarrow> (asio_would_block, 0, s)),
     aio_close = (\<lambda>s. case service_close os (opened u) s of (ec, _, s') \<Rightarrow> (ec, s')),
     raw_read = (\<lambda>n s. case asio_read (socket_read_some os (opened u)) n s of Some r \<Rightarrow> r | None \<Rightarrow> (asio_would_block, [], s)),
     raw_write = (\<lambda>b s. case asio_write (socket_write_some os (opened u)) [[], b] s of Some r \<Rightarrow> r | None \<Rightarrow> (asio_would_block, 0, s)),
     tls_handshake = (\<lambda>s. (asio_would_block, s))\<rparr>"

lemma os_io_served:
  assumes "\<forall>b s n s'. sys_sendmsg os b s = (Inr n, s') \<longrightarrow> n \<le> length b"
  shows "served_by (os_io u os) u os"
proof -
  have "asio_write (socket_write_some os (opened u)) [h, b] s = Some r \<Longrightarrow> asio_write (socket_write_some os (opened u)) [[], h @ b] s = Some r"
    for h b s r
    by (rule asio_write_gathers [OF socket_gathers [OF assms], of _ "[h, b]"]) simp_all
  then show ?thesis unfolding served_by_def by (simp add: os_io_def)
qed

lemma chunk_served: "served_by (os_io u chunk_os) u chunk_os"
  by (rule os_io_served) (auto simp: chunk_os_def split: if_splits)

theorem async_ops_same_witness:
  "asio_async_read (socket_read_some chunk_os (opened True)) 5 (''abcdefgh'', [], 1)
     = asio_read (socket_read_some chunk_os (opened True)) 5 (''abcdefgh'', [], 1) \<and>
   asio_async_write (socket_write_some chunk_os (opened True)) [''head'', ''body''] ([], [], 1)
     = asio_write (socket_write_some chunk_os (opened True)) [''head'', ''body''] ([], [], 1)"
  by (rule async_ops_same) (simp_all add: socket_no_idle [OF chunk_posix])

section \<open>Properties\<close>

text \<open>
  C7. Composed transfers return and are complete, however the network cuts the bytes. Over a live
  connection \<open>asio::read\<close> of as many bytes as will arrive returns, without an error, exactly the next
  bytes of the stream, and \<open>asio::write\<close> of a header and a body returns with everything sent in order:
  the loops over \<open>recv\<close> and \<open>sendmsg\<close>, the waits after \<open>EAGAIN\<close> included, come to an end.
\<close>

theorem transfers_complete:
  assumes "healthy os net lag" and "net s = (rx, tx)" and "n \<le> length rx"
  shows "(\<exists>s'. asio_read (socket_read_some os (opened u)) n s = Some (ec_ok, take n rx, s') \<and> net s' = (drop n rx, tx)) \<and>
    (\<exists>s'. asio_write (socket_write_some os (opened u)) [h, b] s = Some (ec_ok, length h + length b, s') \<and> net s' = (rx, tx @ h @ b))"
  using healthy_read [OF assms, of u] healthy_write [OF assms(1,2), of "[h, b]" u] by simp

theorem transfers_complete_witness:
  "(\<exists>s'. asio_read (socket_read_some chunk_os (opened True)) 5 (''abcdefgh'', [], 1) = Some (ec_ok, take 5 ''abcdefgh'', s') \<and>
      chunk_net s' = (drop 5 ''abcdefgh'', [])) \<and>
   (\<exists>s'. asio_write (socket_write_some chunk_os (opened True)) [''head'', ''body''] (''abcdefgh'', [], 1)
        = Some (ec_ok, length ''head'' + length ''body'', s') \<and>
      chunk_net s' = (''abcdefgh'', [] @ ''head'' @ ''body''))"
  by (rule transfers_complete [OF chunk_healthy]) (simp_all add: chunk_net_def)

text \<open>
  C8. A connection that ends early is reported, not waited for. When the peer has closed its side before
  sending all the bytes a \<open>Connection::read\<close> asks for, the handler is called with \<open>eof\<close>, the number of
  bytes that did arrive, and a buffer of the size asked for that starts with them and is zero after them.
\<close>

theorem early_end_reported:
  assumes "healthy os net lag" and "ended os net" and "served_by io u os" and "net s = (rx, tx)" and "length rx < n" and "n \<le> max_alloc"
  shows "\<exists>s'. Connection_read io n s = Inr (Read_done asio_eof (length rx) (rx @ replicate (n - length rx) NUL), s') \<and> net s' = ([], tx)"
proof -
  obtain s' where "aio_read io n s = (asio_eof, rx, s')" "net s' = ([], tx)"
    using ended_read [OF assms(1,2,4,5), of u] assms(3) unfolding served_by_def by blast
  moreover have "fill n rx = rx @ replicate (n - length rx) NUL" using assms(5) by (simp add: fill_def)
  ultimately show ?thesis using assms(6) by (simp add: Connection_read_def initiate_read_def)
qed

theorem early_end_reported_witness:
  "\<exists>s'. Connection_read (os_io True chunk_os) 5 (''abc'', [], 0) = Inr (Read_done asio_eof (length ''abc'') (''abc'' @ replicate (5 - length ''abc'') NUL), s') \<and>
     chunk_net s' = ([], [])"
  by (rule early_end_reported [OF chunk_healthy chunk_ended chunk_served]) (simp_all add: chunk_net_def max_alloc_def)

end
