(* ===== verification/Broken.thy ===== *)
theory Broken
  imports AsioPosix "HOL-Library.Sublist"
begin

text \<open>
  What a lost connection does to the state machine. \<open>ends_with io net e\<close> says that a read beyond the bytes
  the peer has sent reports \<open>e\<close> with the bytes that did arrive (\<open>asio::read\<close> reports \<open>eof\<close>, as \<open>AsioPosix\<close>
  derives from the system calls). The stream may end anywhere: between two messages, inside a header or
  inside a body.
\<close>

definition ends_with :: "'s asio \<Rightarrow> ('s \<Rightarrow> buffer \<times> buffer) \<Rightarrow> error_code \<Rightarrow> bool" where
  "ends_with io net e \<longleftrightarrow> ec_bool e \<and>
     (\<forall>n s rx tx. net s = (rx, tx) \<and> length rx < n \<longrightarrow> (\<exists>s'. aio_read io n s = (e, rx, s') \<and> net s' = ([], tx)))"

lemma script_ends: "ends_with script_io id script_eof"
  by (simp add: ends_with_def script_io_def script_eof_def ec_bool_def)

lemma served_ends: "healthy os net lag \<Longrightarrow> ended os net \<Longrightarrow> served_by io u os \<Longrightarrow> ends_with io net asio_eof"
  unfolding ends_with_def served_by_def using ended_read [of os net lag] by (metis asio_eof_bool)

definition failed_call :: "nat \<Rightarrow> error_code \<Rightarrow> FSM \<Rightarrow> FSM" where
  "failed_call h e f = f\<lparr>pending := [], calls := calls f @ [(h, e)]\<rparr>"

section \<open>The end of the stream inside a frame\<close>

lemma Connection_read_ends:
  assumes "ends_with io net e" and "net s = (rx, out)" and "length rx < n" and "n \<le> max_alloc"
  shows "\<exists>s' b. Connection_read io n s = Inr (Read_done e (length rx) b, s') \<and> net s' = ([], out)"
proof -
  obtain s' where "aio_read io n s = (e, rx, s')" "net s' = ([], out)"
    using assms(1-3) unfolding ends_with_def by blast
  then show ?thesis using assms(4) by (auto simp: Connection_read_def initiate_read_def)
qed

lemma read_fails:
  assumes en: "ends_with io net e" and s: "net s = (rx, out)" and n: "length rx < n" "n \<le> max_alloc"
    and h: "m_ehandler f = Some h" and k: "k = K_header \<or> k = K_body hdr"
  shows "\<exists>s'. steps_to md5 io cl (f\<lparr>pending := [Op_read n k]\<rparr>, s) (failed_call h e f, s') \<and> net s' = ([], out)"
proof -
  obtain s' b where r: "Connection_read io n s = Inr (Read_done e (length rx) b, s')" "net s' = ([], out)"
    using Connection_read_ends [OF en s n] by blast
  have "ec_bool e" using en by (simp add: ends_with_def)
  then have "resume md5 k (Read_done e (length rx) b) (f\<lparr>pending := []\<rparr>) = Inr (failed_call h e f)"
    using k h by (auto simp: call_handler_def failed_call_def)
  then have "steps_to md5 io cl (f\<lparr>pending := [Op_read n k]\<rparr>, s) (failed_call h e f, s')"
    using r(1) by (cases cl) (simp_all add: steps_to_def sync_step_def SSLConnection_eq)
  with r(2) show ?thesis by blast
qed

lemma frame_cut:
  assumes "strict_prefix got (frame t body)"
  shows "length got < 5 \<or> (\<exists>part. got = take 5 (frame t body) @ part \<and> length part < length body)"
proof (cases "length got < 5")
  case False
  obtain ys where ys: "frame t body = got @ ys" "ys \<noteq> []" using assms by (auto elim: strict_prefixE')
  then have "got = take 5 (frame t body) @ drop 5 got" using False by simp
  moreover have "length (drop 5 got) < length body"
  proof -
    have "length (frame t body) = length body + 5" by (simp add: frame_def)
    moreover have "length (frame t body) = length got + length ys" "0 < length ys" using ys by simp_all
    ultimately have "length got < length body + 5" by linarith
    then show ?thesis using False by simp
  qed
  ultimately show ?thesis by blast
qed simp

lemma broken_frame:
  assumes io: "reliable io net" and en: "ends_with io net e" and b: "length body < 2 ^ 31 - 4"
    and got: "strict_prefix got (frame t body)" and s: "net s = (got, out)" and h: "m_ehandler f = Some h"
  shows "\<exists>s'. runs_to md5 io cl (waiting f, s) (failed_call h e f, s') \<and> net s' = ([], out)"
proof -
  have n5: "(5::nat) \<le> max_alloc" and nb: "length body \<le> max_alloc" using b by (simp_all add: max_alloc_def)
  from frame_cut [OF got] show ?thesis
  proof (elim disjE exE conjE)
    assume "length got < 5"
    then show ?thesis
      using read_fails [OF en s _ n5 h, of K_header] unfolding waiting_def Header_size_def by blast
  next
    fix part assume p: "got = take 5 (frame t body) @ part" "length part < length body"
    have l5: "length (take 5 (frame t body)) = 5" by (simp add: frame_def)
    let ?h = "header_of t body"
    let ?f1 = "f\<lparr>pending := [Op_read (length body) (K_body ?h)]\<rparr>"
    obtain s1 where s1: "Connection_read io 5 s = Inr (Read_done ec_ok 5 (take 5 (frame t body)), s1)" "net s1 = (part, out)"
      using Connection_read_reliable [OF io s, of 5] n5 p(1) l5 by auto
    have sz: "size_of_int (m_body_length ?h) = length body"
      using b by (simp add: header_of_def size_of_int_of_nat)
    have "resume md5 K_header (Read_done ec_ok 5 (take 5 (frame t body))) (f\<lparr>pending := []\<rparr>) = Inr ?f1"
      using header_of_frame [OF b, of t "[]"] nb by (simp add: sz con_read_def initiate_read_def issue_def)
    then have one: "steps_to md5 io cl (waiting f, s) (?f1, s1)"
      using s1 by (cases cl) (simp_all add: steps_to_def sync_step_def waiting_def Header_size_def SSLConnection_eq)
    obtain s2 where two: "steps_to md5 io cl (?f1, s1) (failed_call h e f, s2)" "net s2 = ([], out)"
      using read_fails [OF en s1(2) p(2) nb h] by blast
    show ?thesis
      using converse_rtranclp_into_rtranclp [OF one r_into_rtranclp [where r = "steps_to md5 io cl", OF two(1)]] two(2) by blast
  qed
qed

section \<open>A machine that stays busy\<close>

text \<open>A connection whose machine has nothing outstanding and is not idle: no call but \<open>close\<close> or a new \<open>connect\<close> gets through.\<close>

definition stuck :: "DbConn \<Rightarrow> FSM \<Rightarrow> bool" where
  "stuck c f \<longleftrightarrow> m_fsm c = Some f \<and> db_class c \<noteq> None \<and> m_state f \<noteq> S_IDLE \<and> pending f = []"

definition note_busy :: "DbConn \<Rightarrow> DbConn" where
  "note_busy c = c\<lparr>m_fsm := map_option (\<lambda>f. f\<lparr>calls := calls f @ [(0, make_error_code busy)]\<rparr>) (m_fsm c)\<rparr>"

lemma stuck_calls:
  assumes "stuck c f"
  shows "Db_exec md5 io n q r c s = Some (Inr (make_error_code busy, note_busy c, s))"
    "Db_exec_query md5 io n dq r c s = Some (Inr (make_error_code busy, note_busy c, s))"
    "Db_prepare md5 io n dq c s = Some (Inr (make_error_code busy, note_busy c, s))"
  using assms
  by (auto simp: stuck_def Db_exec_def Db_exec_query_def Db_prepare_def blocking_call_def FSM_exec_def FSM_exec_query_def
      FSM_parse_def call_handler_def note_busy_def sync_run_done er_of_def)

lemma stuck_note: "stuck c f \<Longrightarrow> \<exists>g. stuck (note_busy c) g"
  by (auto simp: stuck_def note_busy_def)

lemma stuck_forever: "stuck c f \<Longrightarrow> \<exists>g. stuck ((note_busy ^^ k) c) g"
  by (induction k) (auto dest: stuck_note)

definition after_break :: "nat \<Rightarrow> ResultSet \<Rightarrow> error_code \<Rightarrow> FSM \<Rightarrow> FSM" where
  "after_break r res e f =
     f\<lparr>m_result := Some r, m_ehandler := Some 0, m_state := S_QUERY, heap := (heap f)(r := res), calls := calls f @ [(0, e)]\<rparr>"

lemma exec_breaks:
  assumes io: "reliable io net" and en: "ends_with io net e" and c: "idle c f"
    and pg: "m_pgformat (heap f r) = PGFormat_init" and q: "sendable (Query q)"
    and sp: "spec_replies ms (heap f r) = Some res"
    and got: "strict_prefix got (frame t body)" "length body < 2 ^ 31 - 4" and s: "net s = (replies_bytes ms @ got, out)"
  shows "\<exists>m s'. net s' = ([], out @ frame_of (Query q)) \<and>
    (\<forall>n \<ge> m. Db_exec md5 io n q r c s = Some (Inr (e, c\<lparr>m_fsm := Some (after_break r res e f)\<rparr>, s')))"
proof -
  obtain cl where cl: "m_fsm c = Some f" "db_class c = Some cl" "m_state f = S_IDLE" "pending f = []"
    using c by (auto simp: idle_def)
  let ?f1 = "f\<lparr>m_result := Some r, m_ehandler := Some 0, m_state := S_QUERY\<rparr>"
  let ?f2 = "set_result r res ?f1"
  have f1: "FSM_exec q (Some r) 0 f = Inr (writing (Query q) K_then_receive ?f1)"
    using cl q by (simp add: FSM_exec_def con_write_idle)
  have run: "running ?f1" "m_result ?f1 = Some r" by (simp_all add: running_def)
  have "\<exists>s'. runs_to md5 io cl (writing (Query q) K_then_receive ?f1, s) (failed_call 0 e ?f2, s') \<and> net s' = ([], out @ frame_of (Query q))"
  proof (rule write_then [OF io s resume_receive(1)])
    fix s1 assume s1: "net s1 = (replies_bytes ms @ got, out @ frame_of (Query q))"
    have "\<exists>s'. runs_to md5 io cl (waiting ?f1, s1) (waiting ?f2, s') \<and> net s' = (got, out @ frame_of (Query q))"
      using replies_run [OF io run, of "heap f r" ms res s1 got] pg sp s1 set_result_same [of r ?f1] by simp
    then show "\<exists>s'. runs_to md5 io cl (waiting ?f1, s1) (failed_call 0 e ?f2, s') \<and> net s' = ([], out @ frame_of (Query q))"
      by (rule runs_then) (rule broken_frame [OF io en got(2,1)], simp_all)
  qed
  moreover have "failed_call 0 e ?f2 = after_break r res e f"
    using cl(3,4) by (cases f) (simp add: failed_call_def set_result_def after_break_def)
  ultimately have r: "\<exists>s'. runs_to md5 io cl (writing (Query q) K_then_receive ?f1, s) (after_break r res e f, s') \<and> net s' = ([], out @ frame_of (Query q))"
    by simp
  show ?thesis
    unfolding Db_exec_def by (rule blocking_call_runs [where call = "FSM_exec q (Some r) 0", OF cl(1,2) f1 r])
      (simp_all add: after_break_def cl(4))
qed

lemma after_break_stuck: "idle c f \<Longrightarrow> stuck (c\<lparr>m_fsm := Some (after_break r res e f)\<rparr>) (after_break r res e f)"
  by (simp add: idle_def stuck_def after_break_def)

lemma take_strict_prefix: "n < length xs \<Longrightarrow> strict_prefix (take n xs) xs"
  by (metis length_take less_irrefl min.absorb4 strict_prefixI take_is_prefix)

section \<open>Properties\<close>

text \<open>
  C23. A stream that ends during the answer to a query, between two messages or anywhere inside one. The
  blocking \<open>exec\<close> returns with the code of the stream; what the complete messages before the break say is in
  the result object, and nothing of the incomplete one. But the machine stays in its query state with
  nothing outstanding: every later \<open>exec\<close>, of a text or of a prepared query, and every \<open>prepare\<close>, however often it
  is tried, is answered \<open>busy\<close> without touching the stream.
\<close>

theorem broken_stream:
  assumes io: "reliable io net" and en: "ends_with io net e" and c: "idle c f"
    and pg: "m_pgformat (heap f r) = PGFormat_init" and q: "sendable (Query q)"
    and sp: "spec_replies ms (heap f r) = Some res"
    and got: "strict_prefix got (frame t body)" "length body < 2 ^ 31 - 4" and s: "net s = (replies_bytes ms @ got, out)"
  shows "\<exists>m s' c' f'. net s' = ([], out @ frame_of (Query q)) \<and>
    (\<forall>n \<ge> m. Db_exec md5 io n q r c s = Some (Inr (e, c', s'))) \<and>
    m_fsm c' = Some f' \<and> heap f' = (heap f)(r := res) \<and> m_state f' = S_QUERY \<and> pending f' = [] \<and>
    (\<forall>k n q' r' dq s''.
       Db_exec md5 io n q' r' ((note_busy ^^ k) c') s'' = Some (Inr (make_error_code busy, (note_busy ^^ Suc k) c', s'')) \<and>
       Db_exec_query md5 io n dq r' ((note_busy ^^ k) c') s'' = Some (Inr (make_error_code busy, (note_busy ^^ Suc k) c', s'')) \<and>
       Db_prepare md5 io n dq ((note_busy ^^ k) c') s'' = Some (Inr (make_error_code busy, (note_busy ^^ Suc k) c', s'')))"
proof -
  let ?f = "after_break r res e f"
  let ?c = "c\<lparr>m_fsm := Some ?f\<rparr>"
  obtain m s' where 1: "net s' = ([], out @ frame_of (Query q))"
      "\<forall>n \<ge> m. Db_exec md5 io n q r c s = Some (Inr (e, ?c, s'))"
    using exec_breaks [OF assms] by blast
  have 2: "Db_exec md5 io n q' r' ((note_busy ^^ k) ?c) s'' = Some (Inr (make_error_code busy, (note_busy ^^ Suc k) ?c, s'')) \<and>
       Db_exec_query md5 io n dq r' ((note_busy ^^ k) ?c) s'' = Some (Inr (make_error_code busy, (note_busy ^^ Suc k) ?c, s'')) \<and>
       Db_prepare md5 io n dq ((note_busy ^^ k) ?c) s'' = Some (Inr (make_error_code busy, (note_busy ^^ Suc k) ?c, s''))"
    for k n q' r' dq s''
    using stuck_forever [OF after_break_stuck [OF c], of k r res e] stuck_calls by auto
  have 3: "m_fsm ?c = Some ?f" "heap ?f = (heap f)(r := res)" "m_state ?f = S_QUERY" "pending ?f = []"
    using c by (simp_all add: after_break_def idle_def)
  show ?thesis by (intro exI [of _ m] exI [of _ s'] exI [of _ ?c] exI [of _ ?f] conjI 1 3 allI) (simp_all only: 2)
qed

theorem broken_stream_witness:
  "\<exists>m s' c' f'. chunk_net s' = ([], [] @ frame_of (Query ''select -7'')) \<and>
    (\<forall>n \<ge> m. Db_exec (\<lambda>_. []) (os_io True chunk_os) n ''select -7'' 0 demo_conn
        (replies_bytes demo_reply @ take 3 (ready_frame (CHR ''I'')), [], 1) = Some (Inr (asio_eof, c', s'))) \<and>
    m_fsm c' = Some f' \<and> heap f' = (heap demo_fsm)(0 := demo_result) \<and> m_state f' = S_QUERY \<and> pending f' = [] \<and>
    (\<forall>k n q' r' dq s''.
       Db_exec (\<lambda>_. []) (os_io True chunk_os) n q' r' ((note_busy ^^ k) c') s'' = Some (Inr (make_error_code busy, (note_busy ^^ Suc k) c', s'')) \<and>
       Db_exec_query (\<lambda>_. []) (os_io True chunk_os) n dq r' ((note_busy ^^ k) c') s'' = Some (Inr (make_error_code busy, (note_busy ^^ Suc k) c', s'')) \<and>
       Db_prepare (\<lambda>_. []) (os_io True chunk_os) n dq ((note_busy ^^ k) c') s'' = Some (Inr (make_error_code busy, (note_busy ^^ Suc k) c', s'')))"
  by (rule broken_stream [where got = "take 3 (ready_frame (CHR ''I''))" and t = ReadyForQuery_mtype and body = "[CHR ''I'']" and ms = demo_reply,
        OF served_reliable [OF chunk_healthy chunk_served] served_ends [OF chunk_healthy chunk_ended chunk_served] demo_idle(1,2) demo_sendable(1)])
    (simp_all add: demo_idle demo_spec chunk_net_def ready_frame_def frame_def take_strict_prefix del: take_Suc_Cons take_Cons_numeral)

end
