(* ===== verification/Secure.thy ===== *)
theory Secure
  imports Startup
begin

text \<open>
  Blocking \<open>connect\<close> with TLS, end to end: \<open>Connection::connectSSL\<close>, \<open>FSM::connectSSL\<close>, the handshake of
  \<open>SSLConnection\<close> and the startup dialogue. Besides the stream \<open>net\<close> that TLS carries, \<open>raw\<close> is what
  travels in plain text below it: the request for TLS and its one-byte answer. \<open>tls_channel\<close> states what
  the plain operations do, and that the operations through TLS send nothing in plain text; \<open>tls_agrees\<close> that
  the TLS handshake succeeds.
\<close>

definition tls_channel :: "'s asio \<Rightarrow> ('s \<Rightarrow> buffer \<times> buffer) \<Rightarrow> ('s \<Rightarrow> buffer \<times> buffer) \<Rightarrow> bool" where
  "tls_channel io net raw \<longleftrightarrow>
     (\<forall>s. \<exists>s'. aio_connect io s = (ec_ok, s') \<and> net s' = net s \<and> raw s' = raw s) \<and>
     (\<forall>b s rx tx. raw s = (rx, tx) \<longrightarrow>
        (\<exists>s'. raw_write io b s = (ec_ok, length b, s') \<and> net s' = net s \<and> raw s' = (rx, tx @ b))) \<and>
     (\<forall>a s rx tx. raw s = (a # rx, tx) \<longrightarrow>
        (\<exists>s'. raw_read io 1 s = (ec_ok, [a], s') \<and> net s' = net s \<and> raw s' = (rx, tx))) \<and>
     (\<forall>n s ec d s'. aio_read io n s = (ec, d, s') \<longrightarrow> raw s' = raw s) \<and>
     (\<forall>b s ec n s'. aio_write io b s = (ec, n, s') \<longrightarrow> raw s' = raw s) \<and>
     (\<forall>s ec s'. aio_close io s = (ec, s') \<longrightarrow> raw s' = raw s)"

lemma tls_channelD:
  assumes "tls_channel io net raw"
  shows "\<exists>s'. aio_connect io s = (ec_ok, s') \<and> net s' = net s \<and> raw s' = raw s"
    "raw s = (rx, tx) \<Longrightarrow> \<exists>s'. raw_write io b s = (ec_ok, length b, s') \<and> net s' = net s \<and> raw s' = (rx, tx @ b)"
    "raw s = (a # rx, tx) \<Longrightarrow> \<exists>s'. raw_read io 1 s = (ec_ok, [a], s') \<and> net s' = net s \<and> raw s' = (rx, tx)"
    "aio_read io n s = (ec, d, s') \<Longrightarrow> raw s' = raw s"
    "aio_write io b s = (ec, m, s') \<Longrightarrow> raw s' = raw s"
    "aio_close io s = (ec, s') \<Longrightarrow> raw s' = raw s"
  using assms unfolding tls_channel_def by simp_all

lemma reliableD:
  assumes "reliable io net" and "net s = (rx, tx)"
  shows "n \<le> length rx \<Longrightarrow> \<exists>s'. aio_read io n s = (ec_ok, take n rx, s') \<and> net s' = (drop n rx, tx)"
    "\<exists>s'. aio_write io b s = (ec_ok, length b, s') \<and> net s' = (rx, tx @ b)"
    "\<exists>s'. aio_close io s = (ec_ok, s') \<and> net s' = net s"
  using assms unfolding reliable_def by (simp, blast, blast)

definition tls_agrees :: "'s asio \<Rightarrow> ('s \<Rightarrow> buffer \<times> buffer) \<Rightarrow> ('s \<Rightarrow> buffer \<times> buffer) \<Rightarrow> bool" where
  "tls_agrees io net raw \<longleftrightarrow> (\<forall>s. \<exists>s'. tls_handshake io s = (ec_ok, s') \<and> net s' = net s \<and> raw s' = raw s)"

text \<open>Two scripts, one for each channel.\<close>

definition both_io :: "((buffer \<times> buffer) \<times> buffer \<times> buffer) asio" where
  "both_io = \<lparr>
     aio_connect = (\<lambda>s. (ec_ok, s)),
     aio_read = (\<lambda>n ((rx, tx), w). if n \<le> length rx then (ec_ok, take n rx, ((drop n rx, tx), w)) else (script_eof, rx, (([], tx), w))),
     aio_write = (\<lambda>b ((rx, tx), w). (ec_ok, length b, ((rx, tx @ b), w))),
     aio_close = (\<lambda>s. (ec_ok, s)),
     raw_read = (\<lambda>n (w, rx, tx). if n \<le> length rx then (ec_ok, take n rx, (w, drop n rx, tx)) else (script_eof, rx, (w, [], tx))),
     raw_write = (\<lambda>b (w, rx, tx). (ec_ok, length b, (w, rx, tx @ b))),
     tls_handshake = (\<lambda>s. (ec_ok, s))\<rparr>"

lemma both_channels: "reliable both_io fst" "tls_channel both_io fst snd" "tls_agrees both_io fst snd"
  by (auto simp: reliable_def tls_channel_def tls_agrees_def both_io_def split: if_splits)

text \<open>Everything sent so far: first the plain text, then what went through TLS.\<close>

definition all_sent :: "('s \<Rightarrow> buffer \<times> buffer) \<Rightarrow> ('s \<Rightarrow> buffer \<times> buffer) \<Rightarrow> 's \<Rightarrow> buffer \<times> buffer" where
  "all_sent net raw s = (fst (net s), snd (raw s) @ snd (net s))"

lemma all_sent_reliable:
  assumes "reliable io net" and "tls_channel io net raw"
  shows "reliable io (all_sent net raw)"
proof -
  note ch = tls_channelD [OF assms(2)] and re = reliableD [OF assms(1)]
  have "\<exists>s'. aio_read io n s = (ec_ok, take n rx, s') \<and> all_sent net raw s' = (drop n rx, tx)"
    if "all_sent net raw s = (rx, tx)" "n \<le> length rx" for n s rx tx
  proof -
    have "net s = (rx, snd (net s))" using that(1) by (auto simp: all_sent_def)
    from re(1) [OF this that(2)] obtain s' where "aio_read io n s = (ec_ok, take n rx, s')" "net s' = (drop n rx, snd (net s))" by blast
    then show ?thesis using that(1) ch(4) [of n s] by (auto simp: all_sent_def)
  qed
  moreover have "\<exists>s'. aio_write io b s = (ec_ok, length b, s') \<and> all_sent net raw s' = (rx, tx @ b)"
    if "all_sent net raw s = (rx, tx)" for b s rx tx
  proof -
    obtain s' where "aio_write io b s = (ec_ok, length b, s')" "net s' = (fst (net s), snd (net s) @ b)"
      using re(2) [of s "fst (net s)" "snd (net s)" b] by auto
    then show ?thesis using that ch(5) [of b s] by (auto simp: all_sent_def)
  qed
  moreover have "\<exists>s'. aio_connect io s = (ec_ok, s') \<and> all_sent net raw s' = all_sent net raw s" for s
    using ch(1) [of s] by (auto simp: all_sent_def)
  moreover have "\<exists>s'. aio_close io s = (ec_ok, s') \<and> all_sent net raw s' = all_sent net raw s" for s
  proof -
    obtain s' where "aio_close io s = (ec_ok, s')" "net s' = net s" using re(3) [of s "fst (net s)" "snd (net s)"] by auto
    then show ?thesis using ch(6) [of s] by (auto simp: all_sent_def)
  qed
  ultimately show ?thesis unfolding reliable_def by blast
qed

section \<open>The request for TLS\<close>

lemma sendable_SSLRequest: "sendable SSLRequest"
  by (simp add: sendable_def)

lemma ssl_request_sent:
  assumes io: "tls_channel io net raw" and s: "raw s = (rx, tx)"
  shows "\<exists>s'. syncWrite (raw_write io) SSLRequest s = Inr ((ec_ok, length (frame_of SSLRequest)), s') \<and>
    net s' = net s \<and> raw s' = (rx, tx @ frame_of SSLRequest)"
proof -
  have "\<exists>s'. raw_write io b s = (ec_ok, length b, s') \<and> net s' = net s \<and> raw s' = (rx, tx @ b)" for b
    by (rule tls_channelD(2) [OF io s])
  then obtain s' where "raw_write io (frame_of SSLRequest) s = (ec_ok, length (frame_of SSLRequest), s')" "net s' = net s"
      "raw s' = (rx, tx @ frame_of SSLRequest)" by blast
  moreover have "initiate_write SSLRequest = Inr (msg_head SSLRequest, body_of SSLRequest)"
    using sendable_SSLRequest unfolding sendable_def msg_head_def by (blast intro: initiate_write_eq)
  ultimately show ?thesis
    by (simp add: syncWrite_def write_result_def frame_of_def)
qed

lemma handshake_answered:
  assumes io: "tls_channel io net raw" and s: "raw s = (a # rx, tx)"
  shows "\<exists>s'. SSLConnection_handshake io s =
      (if a = CHR ''S'' then (case tls_handshake io s' of (ec, s3) \<Rightarrow> Inr (Done ec, s3)) else Inr (Done EMSGSIZE, s')) \<and>
    net s' = net s \<and> raw s' = (rx, tx @ frame_of SSLRequest)"
proof -
  obtain s1 where s1: "syncWrite (raw_write io) SSLRequest s = Inr ((ec_ok, length (frame_of SSLRequest)), s1)"
      "net s1 = net s" "raw s1 = (a # rx, tx @ frame_of SSLRequest)"
    using ssl_request_sent [OF io s] by blast
  obtain s2 where s2: "raw_read io 1 s1 = (ec_ok, [a], s2)" "net s2 = net s1" "raw s2 = (rx, tx @ frame_of SSLRequest)"
    using tls_channelD(3) [OF io s1(3)] by blast
  have "SSLConnection_handshake io s =
      (if a = CHR ''S'' then (case tls_handshake io s2 of (ec, s3) \<Rightarrow> Inr (Done ec, s3)) else Inr (Done EMSGSIZE, s2))"
    using s1(1) s2(1) by (simp add: SSLConnection_handshake_def fill_def)
  then show ?thesis using s1(2) s2(2,3) by auto
qed

section \<open>connectSSL\<close>

definition tls_db :: "Option \<Rightarrow> FSM \<Rightarrow> DbConn \<Rightarrow> DbConn" where
  "tls_db option f c =
     c\<lparr>db_class := Some Tls, db_endpoint := Some (Tcp_Endpoint ''127.0.0.1'' 5432), db_sslmode := Some (getSSLMode option), m_fsm := Some f\<rparr>"

abbreviation ssl_started :: "(nat \<Rightarrow> ResultSet) \<Rightarrow> FSM" where
  "ssl_started h \<equiv> (FSM_init h)\<lparr>m_ehandler := Some 0\<rparr>"

lemma connectSSL_shakes:
  assumes io: "tls_channel io net raw" and s: "raw s = (rx, tx)"
  shows "\<exists>s1. steps_to md5 io Tls ((ssl_started h)\<lparr>pending := [Op_connect (K_ssl_connect msg eh)]\<rparr>, s)
      ((ssl_started h)\<lparr>pending := [Op_handshake (K_ssl_handshake msg eh)]\<rparr>, s1) \<and> net s1 = net s \<and> raw s1 = (rx, tx)"
proof -
  obtain s1 where "aio_connect io s = (ec_ok, s1)" "net s1 = net s" "raw s1 = raw s"
    using tls_channelD(1) [OF io] by blast
  then show ?thesis
    using s by (intro exI [of _ s1]) (simp add: steps_to_def sync_step_def SSLConnection_connect_def issue_def)
qed

text \<open>From the call to the startup message, the first thing that goes through TLS.\<close>

lemma connectSSL_to_startup:
  assumes io: "tls_channel io net raw" "tls_agrees io net raw" and opt: "sendable (StartUp option)" and raw: "raw s = (CHR ''S'' # rx, tx)"
  shows "\<exists>s3. runs_to md5 io Tls ((ssl_started h)\<lparr>pending := [Op_connect (K_ssl_connect (StartUp option) eh)]\<rparr>, s)
      (writing (StartUp option) (K_local_receive eh) (ssl_started h), s3) \<and> net s3 = net s \<and> raw s3 = (rx, tx @ frame_of SSLRequest)"
proof -
  let ?f1 = "(ssl_started h)\<lparr>pending := [Op_connect (K_ssl_connect (StartUp option) eh)]\<rparr>"
  let ?f2 = "(ssl_started h)\<lparr>pending := [Op_handshake (K_ssl_handshake (StartUp option) eh)]\<rparr>"
  let ?w = "writing (StartUp option) (K_local_receive eh) (ssl_started h)"
  obtain s1 where s1: "steps_to md5 io Tls (?f1, s) (?f2, s1)" "net s1 = net s" "raw s1 = (CHR ''S'' # rx, tx)"
    using connectSSL_shakes [OF io(1) raw] by blast
  obtain s2 where s2: "SSLConnection_handshake io s1 = (case tls_handshake io s2 of (ec, s3) \<Rightarrow> Inr (Done ec, s3))"
      "net s2 = net s1" "raw s2 = (rx, tx @ frame_of SSLRequest)"
    using handshake_answered [OF io(1) s1(3)] by auto
  obtain s3 where s3: "tls_handshake io s2 = (ec_ok, s3)" "net s3 = net s2" "raw s3 = raw s2"
    using io(2) unfolding tls_agrees_def by blast
  have "steps_to md5 io Tls (?f2, s1) (?w, s3)"
    using s2(1) s3(1) con_write_writing [OF opt, of "K_local_receive eh" "ssl_started h"]
    by (simp add: steps_to_def sync_step_def)
  with s1(1) have "runs_to md5 io Tls (?f1, s) (?w, s3)" by (blast intro: converse_rtranclp_into_rtranclp)
  then show ?thesis using s1(2) s2(2,3) s3(2,3) by auto
qed

lemma connectSSL_finishes:
  assumes io: "reliable io net" and ps: "list_all valid_param ps"
    and run: "runs_to md5 io Tls ((ssl_started h)\<lparr>pending := [Op_connect (K_ssl_connect (StartUp option) moved_from)]\<rparr>, s)
      (writing (StartUp option) (K_local_receive moved_from) (ssl_started h), s3)"
    and s: "net s3 = (startup_reply ps pid key st @ rest, out)"
  shows "\<exists>m s'. net s' = (rest, out @ frame_of (StartUp option)) \<and>
    (\<forall>n \<ge> m. Db_connectSSL md5 io n option h c s = Some (Inr (ec_ok, tls_db option (finished_call 0 (ssl_started h)) c, s')))"
proof -
  let ?f1 = "(ssl_started h)\<lparr>pending := [Op_connect (K_ssl_connect (StartUp option) moved_from)]\<rparr>"
  let ?f = "finished_call 0 (ssl_started h)"
  have call: "FSM_connectSSL option 0 (FSM_init h) = Inr ?f1"
    by (simp add: FSM_connectSSL_def issue_def FSM_init_def)
  have "\<exists>s'. runs_to md5 io Tls (writing (StartUp option) (K_local_receive moved_from) (ssl_started h), s3) (?f, s')
      \<and> net s' = (rest, out @ frame_of (StartUp option))"
    by (rule write_then [OF io s resume_receive(2)]) (rule startup_run [OF io _ _ ps], simp_all add: FSM_init_def)
  with run have r: "\<exists>s'. runs_to md5 io Tls (?f1, s) (?f, s') \<and> net s' = (rest, out @ frame_of (StartUp option))"
    by (blast intro: rtranclp_trans)
  have "\<exists>m s'. net s' = (rest, out @ frame_of (StartUp option)) \<and>
      (\<forall>n \<ge> m. blocking_call md5 io n (FSM_connectSSL option 0) (tls_db option (FSM_init h) c) s
        = Some (Inr (ec_ok, (tls_db option (FSM_init h) c)\<lparr>m_fsm := Some ?f\<rparr>, s')))"
    by (rule blocking_call_runs [where call = "FSM_connectSSL option 0" and h = 0, OF _ _ call r])
      (simp_all add: tls_db_def finished_call_def)
  then show ?thesis by (simp add: Db_connectSSL_def tls_db_def Let_def)
qed

section \<open>Properties\<close>

text \<open>
  C24. A blocking \<open>connect\<close> with TLS completes. When the server answers the request for TLS with \<open>S\<close>, the TLS
  handshake succeeds and the server then accepts the login without a password, the call returns the
  success code with an idle machine. In plain text exactly the request for TLS has been sent; the
  startup message, with the user's options, went through TLS.
\<close>

theorem tls_connect_completes:
  assumes io: "reliable io net" "tls_channel io net raw" "tls_agrees io net raw"
    and opt: "sendable (StartUp option)" and ps: "list_all valid_param ps"
    and s: "net s = (startup_reply ps pid key st @ rest, out)" and raw: "raw s = (CHR ''S'' # rx, tx)"
  shows "\<exists>m s' f. net s' = (rest, out @ frame_of (StartUp option)) \<and> snd (raw s') = tx @ frame_of SSLRequest \<and>
    m_state f = S_IDLE \<and> pending f = [] \<and> heap f = h \<and>
    (\<forall>n \<ge> m. Db_connectSSL md5 io n option h c s = Some (Inr (ec_ok, tls_db option f c, s')))"
proof -
  let ?f = "finished_call 0 (ssl_started h)"
  obtain s3 where s3: "runs_to md5 io Tls ((ssl_started h)\<lparr>pending := [Op_connect (K_ssl_connect (StartUp option) moved_from)]\<rparr>, s)
      (writing (StartUp option) (K_local_receive moved_from) (ssl_started h), s3)" "net s3 = net s" "raw s3 = (rx, tx @ frame_of SSLRequest)"
    using connectSSL_to_startup [OF io(2,3) opt raw] by blast
  have n3: "net s3 = (startup_reply ps pid key st @ rest, out)"
      "all_sent net raw s3 = (startup_reply ps pid key st @ rest, tx @ frame_of SSLRequest @ out)"
    using s s3(2,3) by (simp_all add: all_sent_def)
  obtain m1 s1 where 1: "net s1 = (rest, out @ frame_of (StartUp option))"
      "\<forall>n \<ge> m1. Db_connectSSL md5 io n option h c s = Some (Inr (ec_ok, tls_db option ?f c, s1))"
    using connectSSL_finishes [OF io(1) ps s3(1) n3(1)] by blast
  obtain m2 s2 where 2: "all_sent net raw s2 = (rest, (tx @ frame_of SSLRequest @ out) @ frame_of (StartUp option))"
      "\<forall>n \<ge> m2. Db_connectSSL md5 io n option h c s = Some (Inr (ec_ok, tls_db option ?f c, s2))"
    using connectSSL_finishes [OF all_sent_reliable [OF io(1,2)] ps s3(1) n3(2)] by blast
  have "s2 = s1" using 1(2) [rule_format, of "max m1 m2"] 2(2) [rule_format, of "max m1 m2"] by simp
  then have "snd (raw s1) = tx @ frame_of SSLRequest" using 1(1) 2(1) by (simp add: all_sent_def)
  moreover have "m_state ?f = S_IDLE" "pending ?f = []" "heap ?f = h" by (simp_all add: finished_call_def FSM_init_def)
  ultimately show ?thesis using 1 by (intro exI [of _ m1] exI [of _ s1] exI [of _ ?f]) simp
qed

theorem tls_connect_completes_witness:
  "\<exists>m s' f. fst s' = ([], [] @ frame_of (StartUp [(''user'', ''joe'')])) \<and> snd (snd s') = [] @ frame_of SSLRequest \<and>
    m_state f = S_IDLE \<and> pending f = [] \<and> heap f = demo_heap \<and>
    (\<forall>n \<ge> m. Db_connectSSL (\<lambda>_. []) both_io n [(''user'', ''joe'')] demo_heap DbConn_init
       ((startup_reply [(''TimeZone'', ''UTC'')] 7 9 (CHR ''I'') @ [], []), ''S'', [])
      = Some (Inr (ec_ok, tls_db [(''user'', ''joe'')] f DbConn_init, s')))"
  by (rule tls_connect_completes [where raw = snd, OF both_channels, of "[(''user'', ''joe'')]" "[(''TimeZone'', ''UTC'')]" _ 7 9])
    (simp_all add: sendable_def valid_param_def param_body_def)

text \<open>
  C25. A server that refuses TLS. On any other answer than \<open>S\<close> no startup message is sent, in plain text or
  otherwise; but the code never reaches the caller: the handler the lambda of \<open>connectSSL\<close> holds was moved away
  before, so the blocking call ends with the exception \<open>std::bad_function_call\<close> for every fuel of at least two.
\<close>

theorem tls_refusal_throws:
  assumes io: "tls_channel io net raw" and a: "a \<noteq> CHR ''S''" and raw: "raw s = (a # rx, tx)"
  shows "Db_connectSSL md5 io (Suc (Suc n)) option h c s = Some (Inl (Throw Bad_Function_Call)) \<and>
    (\<exists>s0 s1. aio_connect io s = (ec_ok, s0) \<and> SSLConnection_handshake io s0 = Inr (Done EMSGSIZE, s1) \<and>
       net s1 = net s \<and> raw s1 = (rx, tx @ frame_of SSLRequest))"
proof -
  let ?f1 = "(ssl_started h)\<lparr>pending := [Op_connect (K_ssl_connect (StartUp option) moved_from)]\<rparr>"
  obtain s0 where s0: "aio_connect io s = (ec_ok, s0)" "net s0 = net s" "raw s0 = (a # rx, tx)"
    using tls_channelD(1) [OF io, of s] raw by auto
  obtain s1 where s1: "SSLConnection_handshake io s0 = Inr (Done EMSGSIZE, s1)" "net s1 = net s0" "raw s1 = (rx, tx @ frame_of SSLRequest)"
    using handshake_answered [OF io s0(3)] a by auto
  have "FSM_connectSSL option 0 (FSM_init h) = Inr ?f1"
    by (simp add: FSM_connectSSL_def issue_def FSM_init_def)
  moreover have "sync_run md5 io Tls (Suc (Suc n)) (?f1, s) = Some (Inl (Throw Bad_Function_Call))"
    using s0(1) s1(1)
    by (simp add: sync_step_def SSLConnection_connect_def issue_def call_handler_def EMSGSIZE_def ec_bool_def
        sync_run.simps)
  ultimately show ?thesis
    using s0 s1 by (simp add: Db_connectSSL_def blocking_call_def Let_def)
qed

theorem tls_refusal_throws_witness:
  "Db_connectSSL (\<lambda>_. []) both_io (Suc (Suc 0)) [(''user'', ''joe'')] demo_heap DbConn_init (([], []), ''N'', []) = Some (Inl (Throw Bad_Function_Call)) \<and>
    (\<exists>s0 s1. aio_connect both_io (([], []), ''N'', []) = (ec_ok, s0) \<and> SSLConnection_handshake both_io s0 = Inr (Done EMSGSIZE, s1) \<and>
       fst s1 = fst (([], []), ''N'', [] :: buffer) \<and> snd s1 = ([], [] @ frame_of SSLRequest))"
  by (rule tls_refusal_throws [OF both_channels(2)]) simp_all

end
