(* ===== verification/AsioOpQueue.thy ===== *)
theory AsioOpQueue
  imports Lapq_Prelude
begin

text \<open>
  The intrusive queue of operations of asio (\<^verbatim>\<open>detail/op_queue.hpp\<close>). Operations are addresses; the member \<open>next_\<close> of all of
  them is a map of the heap, shared by all queues, as in the code. A queue holds the pointers to its first and last
  operation. The locale \<open>fifo\<close> is what the scheduler and the reactor rely on.
\<close>

section \<open>Operations\<close>

type_synonym addr = nat
type_synonym next_heap = "addr \<Rightarrow> addr option"

record op_queue =
  q_front :: "addr option"
  q_back :: "addr option"

definition queue_init :: op_queue where
  "queue_init = \<lparr>q_front = None, q_back = None\<rparr>"

definition queue_front :: "op_queue \<Rightarrow> addr option" where
  "queue_front q = q_front q"

definition queue_pop :: "next_heap \<Rightarrow> op_queue \<Rightarrow> next_heap \<times> op_queue" where
  "queue_pop nx q =
     (case q_front q of
        None \<Rightarrow> (nx, q)
      | Some tmp \<Rightarrow>
          (let q1 = q\<lparr>q_front := nx tmp\<rparr>;
               q2 = (if q_front q1 = None then q1\<lparr>q_back := None\<rparr> else q1)
           in (nx(tmp := None), q2)))"

definition queue_push :: "addr \<Rightarrow> next_heap \<Rightarrow> op_queue \<Rightarrow> next_heap \<times> op_queue" where
  "queue_push h nx q =
     (let nx1 = nx(h := None)
      in case q_back q of
           Some b \<Rightarrow> (nx1(b := Some h), q\<lparr>q_back := Some h\<rparr>)
         | None \<Rightarrow> (nx1, q\<lparr>q_front := Some h, q_back := Some h\<rparr>))"

text \<open>All operations of another queue, which is empty afterwards.\<close>

definition queue_push_all :: "next_heap \<Rightarrow> op_queue \<Rightarrow> op_queue \<Rightarrow> next_heap \<times> op_queue \<times> op_queue" where
  "queue_push_all nx q other =
     (case q_front other of
        None \<Rightarrow> (nx, q, other)
      | Some other_front \<Rightarrow>
          (let (nx1, q1) = (case q_back q of
                 Some b \<Rightarrow> (nx(b := Some other_front), q)
               | None \<Rightarrow> (nx, q\<lparr>q_front := Some other_front\<rparr>))
           in (nx1, q1\<lparr>q_back := q_back other\<rparr>, other\<lparr>q_front := None, q_back := None\<rparr>)))"

definition queue_empty :: "op_queue \<Rightarrow> bool" where
  "queue_empty q \<longleftrightarrow> q_front q = None"

definition is_enqueued :: "next_heap \<Rightarrow> op_queue \<Rightarrow> addr \<Rightarrow> bool" where
  "is_enqueued nx q op \<longleftrightarrow> nx op \<noteq> None \<or> q_back q = Some op"

text \<open>The destructor: the operations it destroys, in their order. It does not end on a cyclic list.\<close>

partial_function (option) queue_destroy :: "next_heap \<Rightarrow> op_queue \<Rightarrow> addr list option" where
  "queue_destroy nx q =
     (case q_front q of
        None \<Rightarrow> Some []
      | Some op \<Rightarrow> (case queue_pop nx q of (nx1, q1) \<Rightarrow>
          Option.bind (queue_destroy nx1 q1) (\<lambda>ops. Some (op # ops))))"

section \<open>The list a queue stands for\<close>

fun chain :: "next_heap \<Rightarrow> addr option \<Rightarrow> addr list \<Rightarrow> bool" where
  "chain nx p [] \<longleftrightarrow> p = None"
| "chain nx p (a # as) \<longleftrightarrow> p = Some a \<and> chain nx (nx a) as"

definition holds :: "next_heap \<Rightarrow> op_queue \<Rightarrow> addr list \<Rightarrow> bool" where
  "holds nx q xs \<longleftrightarrow> chain nx (q_front q) xs \<and> distinct xs \<and> q_back q = (if xs = [] then None else Some (last xs))"

lemma chain_frame: "a \<notin> set xs \<Longrightarrow> chain (nx(a := y)) p xs = chain nx p xs"
  by (induction xs arbitrary: p) auto

lemma chain_append:
  "chain nx p xs \<Longrightarrow> distinct xs \<Longrightarrow> xs \<noteq> [] \<Longrightarrow> chain nx q ys \<Longrightarrow> set xs \<inter> set ys = {} \<Longrightarrow>
   chain (nx(last xs := q)) p (xs @ ys)"
proof (induction xs arbitrary: p)
  case (Cons a xs)
  show ?case
  proof (cases "xs = []")
    case True
    then show ?thesis using Cons.prems chain_frame [of a ys nx q q] by (simp add: fun_upd_def)
  next
    case False
    then have "last xs \<noteq> a" using Cons.prems(2) last_in_set by fastforce
    then show ?thesis using Cons False by simp
  qed
qed simp

lemma chain_last: "chain nx p xs \<Longrightarrow> xs \<noteq> [] \<Longrightarrow> nx (last xs) = None"
proof (induction xs arbitrary: p)
  case (Cons a xs)
  then show ?case by (cases xs) auto
qed simp

lemma holds_frame: "holds nx q xs \<Longrightarrow> a \<notin> set xs \<Longrightarrow> holds (nx(a := y)) q xs"
  by (simp add: holds_def chain_frame)

lemma holds_unique: "holds nx q xs \<Longrightarrow> holds nx q ys \<Longrightarrow> xs = ys"
proof -
  have "chain nx p xs \<Longrightarrow> chain nx p ys \<Longrightarrow> xs = ys" for p
  proof (induction xs arbitrary: p ys)
    case (Cons a xs)
    then show ?case by (cases ys) auto
  qed (metis chain.elims(2) chain.simps(1) option.distinct(1))
  then show "holds nx q xs \<Longrightarrow> holds nx q ys \<Longrightarrow> xs = ys" by (auto simp: holds_def)
qed

lemma holds_init: "holds nx queue_init []"
  by (simp add: holds_def queue_init_def)

lemma holds_empty: "holds nx q xs \<Longrightarrow> queue_empty q \<longleftrightarrow> xs = []"
  by (cases xs) (auto simp: holds_def queue_empty_def)

lemma holds_front: "holds nx q xs \<Longrightarrow> queue_front q = (case xs of [] \<Rightarrow> None | a # _ \<Rightarrow> Some a)"
  by (cases xs) (auto simp: holds_def queue_front_def)

lemma pop_holds:
  assumes "holds nx q xs" and "queue_pop nx q = (nx1, q1)"
  shows "holds nx1 q1 (tl xs)"
proof (cases xs)
  case Nil
  then show ?thesis using assms by (auto simp: holds_def queue_pop_def)
next
  case (Cons a ys)
  then show ?thesis using assms by (cases ys) (auto simp: holds_def queue_pop_def Let_def chain_frame)
qed

lemma push_holds:
  assumes "holds nx q xs" and "h \<notin> set xs" and "queue_push h nx q = (nx1, q1)"
  shows "holds nx1 q1 (xs @ [h])"
proof (cases "xs = []")
  case True
  then show ?thesis using assms by (auto simp: holds_def queue_push_def)
next
  case False
  have "chain (nx(h := None)) (q_front q) xs" using assms(1,2) by (simp add: holds_def chain_frame)
  moreover have "chain (nx(h := None)) (Some h) [h]" by simp
  ultimately have "chain ((nx(h := None))(last xs := Some h)) (q_front q) (xs @ [h])"
    using assms(1,2) False by (intro chain_append) (auto simp: holds_def)
  then show ?thesis using assms False by (auto simp: holds_def queue_push_def)
qed

lemma push_all_holds:
  assumes "holds nx q xs" and "holds nx other ys" and "set xs \<inter> set ys = {}" and "queue_push_all nx q other = (nx1, q1, other1)"
  shows "holds nx1 q1 (xs @ ys) \<and> holds nx1 other1 []"
proof (cases "ys = []")
  case True
  then show ?thesis using assms by (auto simp: holds_def queue_push_all_def)
next
  case False
  then obtain b bs where ys: "ys = b # bs" by (cases ys) auto
  show ?thesis
  proof (cases "xs = []")
    case True
    then show ?thesis using assms ys by (auto simp: holds_def queue_push_all_def)
  next
    case xs: False
    have "chain (nx(last xs := Some b)) (q_front q) (xs @ ys)"
      using assms(1-3) xs ys by (intro chain_append) (auto simp: holds_def)
    then show ?thesis using assms xs ys by (auto simp: holds_def queue_push_all_def)
  qed
qed

text \<open>The frame of the three operations: queues that share no operation with the arguments are not touched.\<close>

lemma queue_frames:
  assumes "holds nx r zs"
  shows "holds nx q xs \<Longrightarrow> set xs \<inter> set zs = {} \<Longrightarrow> queue_pop nx q = (nx1, q1) \<Longrightarrow> holds nx1 r zs"
    "holds nx q xs \<Longrightarrow> set (h # xs) \<inter> set zs = {} \<Longrightarrow> queue_push h nx q = (nx1, q1) \<Longrightarrow> holds nx1 r zs"
    "holds nx q xs \<Longrightarrow> set xs \<inter> set zs = {} \<Longrightarrow> queue_push_all nx q other = (nx1, q1, other1) \<Longrightarrow> holds nx1 r zs"
proof -
  have l: "holds nx q xs \<Longrightarrow> q_back q = Some b \<Longrightarrow> b \<in> set xs" "holds nx q xs \<Longrightarrow> q_front q = Some b \<Longrightarrow> b \<in> set xs" for b
    by (auto simp: holds_def split: if_splits) (metis chain.simps list.exhaust list.set_intros(1) option.distinct(1) option.inject)
  show "holds nx q xs \<Longrightarrow> set xs \<inter> set zs = {} \<Longrightarrow> queue_pop nx q = (nx1, q1) \<Longrightarrow> holds nx1 r zs"
    using assms l(2) by (auto simp: queue_pop_def Let_def intro!: holds_frame split: option.splits if_splits)
  show "holds nx q xs \<Longrightarrow> set (h # xs) \<inter> set zs = {} \<Longrightarrow> queue_push h nx q = (nx1, q1) \<Longrightarrow> holds nx1 r zs"
    using assms l(1) by (auto simp: queue_push_def Let_def intro!: holds_frame split: option.splits)
  show "holds nx q xs \<Longrightarrow> set xs \<inter> set zs = {} \<Longrightarrow> queue_push_all nx q other = (nx1, q1, other1) \<Longrightarrow> holds nx1 r zs"
    using assms l(1) by (auto simp: queue_push_all_def Let_def intro!: holds_frame split: option.splits)
qed

lemma destroy_holds: "holds nx q xs \<Longrightarrow> queue_destroy nx q = Some xs"
proof (induction xs arbitrary: nx q)
  case Nil
  then show ?case by (subst queue_destroy.simps) (simp add: holds_def)
next
  case (Cons a xs)
  obtain nx1 q1 where p: "queue_pop nx q = (nx1, q1)" by force
  then have "queue_destroy nx1 q1 = Some xs" using Cons.IH pop_holds [OF Cons.prems] by fastforce
  then show ?case using Cons.prems p by (subst queue_destroy.simps) (simp add: holds_def)
qed

section \<open>Queues that share their operations' links\<close>

text \<open>
  The laws a client of one queue relies on: what the list of a queue is after each operation. The client's lemmas are that
  whatever is pushed comes out in the order it was pushed, and that a queue is drained by as many pops as it holds.
\<close>

locale fifo =
  fixes rep :: "'s \<Rightarrow> 'a list \<Rightarrow> bool"
    and new :: 's
    and push :: "'a \<Rightarrow> 's \<Rightarrow> 's"
    and pop :: "'s \<Rightarrow> 's"
    and front :: "'s \<Rightarrow> 'a option"
  assumes new_rep: "rep new []"
    and push_rep: "rep s xs \<Longrightarrow> a \<notin> set xs \<Longrightarrow> rep (push a s) (xs @ [a])"
    and pop_rep: "rep s xs \<Longrightarrow> rep (pop s) (tl xs)"
    and front_rep: "rep s xs \<Longrightarrow> front s = (case xs of [] \<Rightarrow> None | a # _ \<Rightarrow> Some a)"
begin

lemma push_list: "rep s xs \<Longrightarrow> distinct ys \<Longrightarrow> set xs \<inter> set ys = {} \<Longrightarrow> rep (fold push ys s) (xs @ ys)"
proof (induction ys arbitrary: s xs)
  case (Cons y ys)
  then have "rep (push y s) (xs @ [y])" by (intro push_rep) auto
  then show ?case using Cons.IH [of "push y s" "xs @ [y]"] Cons.prems by simp
qed simp

lemma pop_list: "rep s xs \<Longrightarrow> rep ((pop ^^ n) s) (drop n xs)"
  by (induction n) (auto simp: drop_Suc tl_drop dest: pop_rep)

lemma nth_out: "distinct xs \<Longrightarrow> n < length xs \<Longrightarrow> front ((pop ^^ n) (fold push xs new)) = Some (xs ! n)"
  using front_rep [OF pop_list [OF push_list [OF new_rep]]] by (simp add: Cons_nth_drop_Suc [symmetric])

lemma drained: "distinct xs \<Longrightarrow> front ((pop ^^ length xs) (fold push xs new)) = None"
  using front_rep [OF pop_list [OF push_list [OF new_rep]], of xs "length xs"] by simp

end

interpretation opq: fifo "\<lambda>s. holds (fst s) (snd s)" "(\<lambda>_. None, queue_init)" "\<lambda>a s. queue_push a (fst s) (snd s)"
  "\<lambda>s. queue_pop (fst s) (snd s)" "\<lambda>s. queue_front (snd s)"
proof unfold_locales
  show "holds (fst s) (snd s) xs \<Longrightarrow> a \<notin> set xs \<Longrightarrow>
      holds (fst (queue_push a (fst s) (snd s))) (snd (queue_push a (fst s) (snd s))) (xs @ [a])" for s xs a
    by (rule push_holds) auto
  show "holds (fst s) (snd s) xs \<Longrightarrow> holds (fst (queue_pop (fst s) (snd s))) (snd (queue_pop (fst s) (snd s))) (tl xs)" for s xs
    by (rule pop_holds) auto
qed (auto simp: holds_init holds_front)

text \<open>
  The scheduler has one queue and every thread another; operations move between them. The commands below are the calls on
  numbered queues over one heap, \<open>spec_cmd\<close> is what they do to lists.
\<close>

datatype queue_cmd = Push nat addr | Pop nat | Splice nat nat

fun exec_cmd :: "queue_cmd \<Rightarrow> next_heap \<times> (nat \<Rightarrow> op_queue) \<Rightarrow> next_heap \<times> (nat \<Rightarrow> op_queue)" where
  "exec_cmd (Push i a) (nx, qs) = (case queue_push a nx (qs i) of (nx1, q) \<Rightarrow> (nx1, qs(i := q)))"
| "exec_cmd (Pop i) (nx, qs) = (case queue_pop nx (qs i) of (nx1, q) \<Rightarrow> (nx1, qs(i := q)))"
| "exec_cmd (Splice i j) (nx, qs) = (case queue_push_all nx (qs i) (qs j) of (nx1, q, r) \<Rightarrow> (nx1, qs(i := q, j := r)))"

fun spec_cmd :: "queue_cmd \<Rightarrow> (nat \<Rightarrow> addr list) \<Rightarrow> nat \<Rightarrow> addr list" where
  "spec_cmd (Push i a) ls = ls(i := ls i @ [a])"
| "spec_cmd (Pop i) ls = ls(i := tl (ls i))"
| "spec_cmd (Splice i j) ls = ls(i := ls i @ ls j, j := [])"

text \<open>What the callers keep to: an operation that is pushed is in no queue, and no queue is pushed onto itself.\<close>

fun legal_cmd :: "queue_cmd \<Rightarrow> (nat \<Rightarrow> addr list) \<Rightarrow> bool" where
  "legal_cmd (Push i a) ls \<longleftrightarrow> (\<forall>j. a \<notin> set (ls j))"
| "legal_cmd (Pop i) ls \<longleftrightarrow> True"
| "legal_cmd (Splice i j) ls \<longleftrightarrow> i \<noteq> j"

fun legal_run :: "queue_cmd list \<Rightarrow> (nat \<Rightarrow> addr list) \<Rightarrow> bool" where
  "legal_run [] ls \<longleftrightarrow> True"
| "legal_run (c # cs) ls \<longleftrightarrow> legal_cmd c ls \<and> legal_run cs (spec_cmd c ls)"

definition shared :: "next_heap \<times> (nat \<Rightarrow> op_queue) \<Rightarrow> (nat \<Rightarrow> addr list) \<Rightarrow> bool" where
  "shared s ls \<longleftrightarrow>
     (\<forall>i. holds (fst s) (snd s i) (ls i)) \<and> (\<forall>i j. i \<noteq> j \<longrightarrow> set (ls i) \<inter> set (ls j) = {}) \<and>
     (\<forall>a. (\<forall>i. a \<notin> set (ls i)) \<longrightarrow> fst s a = None)"

lemma holds_ends:
  assumes "holds nx q xs"
  shows "q_front q = Some a \<Longrightarrow> \<exists>ys. xs = a # ys" and "q_back q = Some a \<Longrightarrow> a \<in> set xs"
  using assms by (cases xs; auto simp: holds_def split: if_splits)+

lemma links_kept:
  assumes h: "holds nx q xs"
  shows "queue_pop nx q = (nx1, q1) \<Longrightarrow> nx1 a \<noteq> None \<Longrightarrow> nx a \<noteq> None \<and> (xs = [] \<or> a \<noteq> hd xs)"
    and "queue_push h nx q = (nx1, q1) \<Longrightarrow> nx1 a \<noteq> None \<Longrightarrow> nx a \<noteq> None \<or> a \<in> set xs"
    and "queue_push_all nx q r = (nx1, q1, r1) \<Longrightarrow> nx1 a \<noteq> None \<Longrightarrow> nx a \<noteq> None \<or> a \<in> set xs"
proof -
  show "queue_pop nx q = (nx1, q1) \<Longrightarrow> nx1 a \<noteq> None \<Longrightarrow> nx a \<noteq> None \<and> (xs = [] \<or> a \<noteq> hd xs)"
    using h by (cases xs) (auto simp: queue_pop_def holds_def Let_def split: if_splits)
  show "queue_push h nx q = (nx1, q1) \<Longrightarrow> nx1 a \<noteq> None \<Longrightarrow> nx a \<noteq> None \<or> a \<in> set xs"
    using holds_ends(2) [OF h] by (auto simp: queue_push_def Let_def split: option.splits if_splits)
  show "queue_push_all nx q r = (nx1, q1, r1) \<Longrightarrow> nx1 a \<noteq> None \<Longrightarrow> nx a \<noteq> None \<or> a \<in> set xs"
    using holds_ends(2) [OF h] by (auto simp: queue_push_all_def Let_def split: option.splits if_splits)
qed

lemma shared_push:
  assumes "shared (nx, qs) ls" and "\<forall>j. a \<notin> set (ls j)"
  shows "shared (exec_cmd (Push i a) (nx, qs)) (spec_cmd (Push i a) ls)"
proof -
  obtain nx1 q where p: "queue_push a nx (qs i) = (nx1, q)" by force
  have h: "holds nx (qs j) (ls j)" for j using assms by (simp add: shared_def)
  have d: "set (ls i) \<inter> set (ls j) = {}" if "i \<noteq> j" for i j using assms that by (simp add: shared_def)
  have e: "x \<in> set (ls k) \<Longrightarrow> x \<in> set (ls l) \<Longrightarrow> k = l" for x k l using d by blast
  have "holds nx1 q (ls i @ [a])" using push_holds [OF h _ p] assms(2) by blast
  moreover have "holds nx1 (qs j) (ls j)" if "j \<noteq> i" for j
    using queue_frames(2) [OF h h _ p] d [of i j] assms(2) that by auto
  moreover have "nx1 b = None" if "\<forall>j. b \<notin> set ((ls(i := ls i @ [a])) j)" for b
  proof -
    have "b \<notin> set (ls j)" for j using that by (auto split: if_splits)
    then show ?thesis using assms(1) links_kept(2) [OF h p, of b] by (cases "nx1 b") (auto simp: shared_def)
  qed
  ultimately show ?thesis using p assms(2) by (auto simp: shared_def dest: e)
qed

lemma in_tl: "x \<in> set (tl xs) \<Longrightarrow> x \<in> set xs"
  by (cases xs) auto

lemma shared_pop:
  assumes "shared (nx, qs) ls"
  shows "shared (exec_cmd (Pop i) (nx, qs)) (spec_cmd (Pop i) ls)"
proof -
  obtain nx1 q where p: "queue_pop nx (qs i) = (nx1, q)" by force
  have h: "holds nx (qs j) (ls j)" for j using assms by (simp add: shared_def)
  have d: "set (ls i) \<inter> set (ls j) = {}" if "i \<noteq> j" for i j using assms that by (simp add: shared_def)
  have e: "x \<in> set (ls k) \<Longrightarrow> x \<in> set (ls l) \<Longrightarrow> k = l" for x k l using d by blast
  have "holds nx1 q (tl (ls i))" using pop_holds [OF h p] .
  moreover have "holds nx1 (qs j) (ls j)" if "j \<noteq> i" for j
    using queue_frames(1) [OF h h _ p] d [of i j] that by auto
  moreover have "nx1 b = None" if "\<forall>j. b \<notin> set ((ls(i := tl (ls i))) j)" for b
  proof (cases "\<forall>j. b \<notin> set (ls j)")
    case True
    then show ?thesis using assms links_kept(1) [OF h p, of b] by (cases "nx1 b") (auto simp: shared_def)
  next
    case False
    then have "b \<in> set (ls i)" "b \<notin> set (tl (ls i))" using that by (auto split: if_splits)
    then have "ls i \<noteq> []" "b = hd (ls i)" by (cases "ls i"; auto)+
    then show ?thesis using links_kept(1) [OF h p, of b] by (cases "nx1 b") auto
  qed
  ultimately show ?thesis using p by (auto simp: shared_def dest!: in_tl dest: e)
qed

lemma shared_splice:
  assumes "shared (nx, qs) ls" and "i \<noteq> j"
  shows "shared (exec_cmd (Splice i j) (nx, qs)) (spec_cmd (Splice i j) ls)"
proof -
  obtain nx1 q r where p: "queue_push_all nx (qs i) (qs j) = (nx1, q, r)" by (metis prod_cases3)
  have h: "holds nx (qs k) (ls k)" for k using assms by (simp add: shared_def)
  have d: "set (ls k) \<inter> set (ls l) = {}" if "k \<noteq> l" for k l using assms that by (simp add: shared_def)
  have e: "x \<in> set (ls k) \<Longrightarrow> x \<in> set (ls l) \<Longrightarrow> k = l" for x k l using d by blast
  have "holds nx1 q (ls i @ ls j) \<and> holds nx1 r []" using push_all_holds [OF h h _ p] d assms(2) by blast
  moreover have "holds nx1 (qs k) (ls k)" if "k \<noteq> i" for k
    using queue_frames(3) [OF h h _ p] d [of i k] that by auto
  moreover have "nx1 b = None" if b: "\<forall>k. b \<notin> set ((ls(i := ls i @ ls j, j := [])) k)" for b
  proof -
    have "b \<notin> set (ls i)" "b \<notin> set (ls j)" using b [rule_format, of i] assms(2) by auto
    then have "b \<notin> set (ls k)" for k using b [rule_format, of k] by (auto split: if_splits)
    then show ?thesis using assms(1) links_kept(3) [OF h p, of b] by (cases "nx1 b") (auto simp: shared_def)
  qed
  ultimately show ?thesis using p assms(2) by (auto simp: shared_def dest: e)
qed

lemma shared_cmd: "shared s ls \<Longrightarrow> legal_cmd c ls \<Longrightarrow> shared (exec_cmd c s) (spec_cmd c ls)"
  by (cases s; cases c) (auto simp del: exec_cmd.simps spec_cmd.simps intro!: shared_push shared_pop shared_splice)

lemma shared_run: "shared s ls \<Longrightarrow> legal_run cs ls \<Longrightarrow> shared (fold exec_cmd cs s) (fold spec_cmd cs ls)"
  by (induction cs arbitrary: s ls) (auto simp: shared_cmd)

text \<open>What the callers see of queues that stand for lists.\<close>

lemma shared_views:
  assumes "shared (nx, qs) ls"
  shows "queue_empty (qs i) \<longleftrightarrow> ls i = []" "queue_front (qs i) = (case ls i of [] \<Rightarrow> None | a # _ \<Rightarrow> Some a)"
    "queue_destroy nx (qs i) = Some (ls i)"
    "(\<forall>j. j \<noteq> i \<longrightarrow> a \<notin> set (ls j)) \<Longrightarrow> is_enqueued nx (qs i) a \<longleftrightarrow> a \<in> set (ls i)"
proof -
  have h: "holds nx (qs i) (ls i)" using assms by (simp add: shared_def)
  show "queue_empty (qs i) \<longleftrightarrow> ls i = []" "queue_front (qs i) = (case ls i of [] \<Rightarrow> None | a # _ \<Rightarrow> Some a)"
    "queue_destroy nx (qs i) = Some (ls i)" using h by (simp_all add: holds_empty holds_front destroy_holds)
  assume a: "\<forall>j. j \<noteq> i \<longrightarrow> a \<notin> set (ls j)"
  have "chain nx p xs \<Longrightarrow> a \<in> set xs \<Longrightarrow> nx a = None \<Longrightarrow> last xs = a" for p xs
    by (induction xs arbitrary: p) (auto split: if_splits elim: chain.elims)
  then have "a \<in> set (ls i) \<Longrightarrow> is_enqueued nx (qs i) a" using h by (force simp: is_enqueued_def holds_def)
  moreover have "a \<notin> set (ls i) \<Longrightarrow> \<not> is_enqueued nx (qs i) a"
    using assms a holds_ends(2) [OF h] by (auto simp: is_enqueued_def shared_def) metis
  ultimately show "is_enqueued nx (qs i) a \<longleftrightarrow> a \<in> set (ls i)" by blast
qed

text \<open>
  C15. The queues of operations are lists: over one heap of links shared by all queues, any run of pushes, pops and moves of a
  whole queue onto another, in which an operation is pushed only while it is in no queue, leaves every queue standing for
  the list the same run gives. So front and empty answer as on that list, the destructor ends and destroys exactly the
  operations of the list in their order, and \<open>is_enqueued\<close> is right about every operation that is in no other queue.
\<close>

theorem op_queue_refines_lists:
  assumes "shared s ls" and "legal_run cs ls"
  shows "let (nx, qs) = fold exec_cmd cs s; ls1 = fold spec_cmd cs ls
    in shared (nx, qs) ls1 \<and>
       (\<forall>i. queue_empty (qs i) = (ls1 i = []) \<and> queue_front (qs i) = (case ls1 i of [] \<Rightarrow> None | a # _ \<Rightarrow> Some a) \<and>
          queue_destroy nx (qs i) = Some (ls1 i)) \<and>
       (\<forall>i a. (\<forall>j. j \<noteq> i \<longrightarrow> a \<notin> set (ls1 j)) \<longrightarrow> is_enqueued nx (qs i) a = (a \<in> set (ls1 i)))"
proof -
  obtain nx qs where e: "fold exec_cmd cs s = (nx, qs)" by force
  then have "shared (nx, qs) (fold spec_cmd cs ls)" using shared_run [OF assms] by simp
  then show ?thesis using e by (simp add: shared_views)
qed

definition four_cmds :: "queue_cmd list" where
  "four_cmds = [Push 0 7, Push 1 5, Splice 0 1, Pop 0]"

theorem op_queue_refines_lists_witness:
  "queue_destroy (fst (fold exec_cmd four_cmds (\<lambda>_. None, \<lambda>_. queue_init))) (snd (fold exec_cmd four_cmds (\<lambda>_. None, \<lambda>_. queue_init)) 0)
     = Some [5]"
proof -
  have "shared (\<lambda>_. None, \<lambda>_. queue_init) (\<lambda>_. [])" by (simp add: shared_def holds_init)
  moreover have "legal_run four_cmds (\<lambda>_. [])" by (simp add: four_cmds_def)
  moreover have "fold spec_cmd four_cmds (\<lambda>_. []) 0 = [5]" by (simp add: four_cmds_def)
  ultimately show ?thesis
    using op_queue_refines_lists [of "(\<lambda>_. None, \<lambda>_. queue_init)" "\<lambda>_. []" four_cmds] by (simp add: Let_def case_prod_beta)
qed

end
