(* ===== verification/AsioScheduler.thy ===== *)
theory AsioScheduler
  imports AsioOpQueue "HOL-Library.Multiset_Order"
begin

text \<open>
  The scheduler of asio that runs the completion handlers (\<^verbatim>\<open>detail/scheduler.hpp\<close>, \<^verbatim>\<open>detail/impl/scheduler.ipp\<close>) with the event it sleeps
  on (\<^verbatim>\<open>detail/posix_event.hpp\<close>, \<^verbatim>\<open>detail/conditionally_enabled_event.hpp\<close>). A queue is the list it stands for (theory \<open>AsioOpQueue\<close>); the
  reactor is known by the flag that there is one, its \<open>run\<close> and the handlers are parameters. This theory has the
  operations one by one, and what one thread that calls \<open>run\<close> does; the interleavings of threads are in \<open>AsioThreads\<close>.
\<close>

section \<open>State\<close>

datatype 'o item = Task_operation | Operation 'o

text \<open>
  \<open>woken\<close> counts the sleepers a signal of the condition variable has reached and that have not yet run; \<open>interrupts\<close> counts
  the calls of \<open>interrupt\<close> on the task. The work counter is a long; it counts live operations and cannot wrap.
\<close>

record 'o scheduler =
  one_thread :: bool
  locking :: bool
  task :: bool
  task_interrupted :: bool
  outstanding_work :: int
  sched_queue :: "'o item list"
  stopped :: bool
  shut :: bool
  event_state :: nat
  woken :: nat
  interrupts :: nat

record 'o thread_info =
  private_op_queue :: "'o list"
  private_outstanding_work :: int

definition sched_new :: "bool \<Rightarrow> bool \<Rightarrow> 'o scheduler" where
  "sched_new one lck = \<lparr>one_thread = one, locking = lck, task = False, task_interrupted = True, outstanding_work = 0,
     sched_queue = [], stopped = False, shut = False, event_state = 0, woken = 0, interrupts = 0\<rparr>"

definition thread_new :: "'o thread_info" where
  "thread_new = \<lparr>private_op_queue = [], private_outstanding_work = 0\<rparr>"

section \<open>The event\<close>

definition cond_signal :: "'o scheduler \<Rightarrow> 'o scheduler" where
  "cond_signal s = s\<lparr>woken := min (event_state s div 2) (Suc (woken s))\<rparr>"

definition cond_broadcast :: "'o scheduler \<Rightarrow> 'o scheduler" where
  "cond_broadcast s = s\<lparr>woken := event_state s div 2\<rparr>"

definition signal_all :: "'o scheduler \<Rightarrow> 'o scheduler" where
  "signal_all s = (if locking s then cond_broadcast (s\<lparr>event_state := set_bit 0 (event_state s)\<rparr>) else s)"

definition unlock_and_signal_one :: "'o scheduler \<Rightarrow> 'o scheduler" where
  "unlock_and_signal_one s =
     (if locking s then
        (let s1 = s\<lparr>event_state := set_bit 0 (event_state s)\<rparr>; have_waiters = event_state s1 > 1
         in if have_waiters then cond_signal s1 else s1)
      else s)"

definition maybe_unlock_and_signal_one :: "'o scheduler \<Rightarrow> 'o scheduler \<times> bool" where
  "maybe_unlock_and_signal_one s =
     (if locking s then
        (let s1 = s\<lparr>event_state := set_bit 0 (event_state s)\<rparr>
         in if event_state s1 > 1 then (cond_signal s1, True) else (s1, False))
      else (s, False))"

definition event_clear :: "'o scheduler \<Rightarrow> 'o scheduler" where
  "event_clear s = (if locking s then s\<lparr>event_state := unset_bit 0 (event_state s)\<rparr> else s)"

text \<open>The test of the loop of \<open>wait\<close>: None is the end of the wait, otherwise the thread is counted and sleeps; on waking it
  is no longer counted and the test is made again. Without locking the null event sleeps for ever.\<close>

definition event_wait :: "'o scheduler \<Rightarrow> 'o scheduler option" where
  "event_wait s = (if \<not> locking s then Some s else if even (event_state s) then Some (s\<lparr>event_state := event_state s + 2\<rparr>) else None)"

definition event_awake :: "'o scheduler \<Rightarrow> 'o scheduler" where
  "event_awake s = (if locking s then s\<lparr>event_state := event_state s - 2\<rparr> else s)"

section \<open>Operations\<close>

definition interrupt_task :: "'o scheduler \<Rightarrow> 'o scheduler" where
  "interrupt_task s =
     (if \<not> task_interrupted s \<and> task s then s\<lparr>task_interrupted := True, interrupts := Suc (interrupts s)\<rparr> else s)"

definition wake_one_thread_and_unlock :: "'o scheduler \<Rightarrow> 'o scheduler" where
  "wake_one_thread_and_unlock s = (case maybe_unlock_and_signal_one s of (s1, signalled) \<Rightarrow> if signalled then s1 else interrupt_task s1)"

definition stop_all_threads :: "'o scheduler \<Rightarrow> 'o scheduler" where
  "stop_all_threads s = interrupt_task (signal_all (s\<lparr>stopped := True\<rparr>))"

definition sched_stop :: "'o scheduler \<Rightarrow> 'o scheduler" where
  "sched_stop s = stop_all_threads s"

definition sched_restart :: "'o scheduler \<Rightarrow> 'o scheduler" where
  "sched_restart s = s\<lparr>stopped := False\<rparr>"

definition work_started :: "'o scheduler \<Rightarrow> 'o scheduler" where
  "work_started s = s\<lparr>outstanding_work := outstanding_work s + 1\<rparr>"

text \<open>The decrement and its test, and the call of \<open>stop\<close> that follows when the count has become zero.\<close>

definition work_decrement :: "'o scheduler \<Rightarrow> 'o scheduler \<times> bool" where
  "work_decrement s = (let s1 = s\<lparr>outstanding_work := outstanding_work s - 1\<rparr> in (s1, outstanding_work s1 = 0))"

definition work_finished :: "'o scheduler \<Rightarrow> 'o scheduler" where
  "work_finished s = (case work_decrement s of (s1, zero) \<Rightarrow> if zero then sched_stop s1 else s1)"

definition compensating_work_started :: "'o thread_info \<Rightarrow> 'o thread_info" where
  "compensating_work_started t = t\<lparr>private_outstanding_work := private_outstanding_work t + 1\<rparr>"

definition push_ops :: "'o item list \<Rightarrow> 'o scheduler \<Rightarrow> 'o scheduler" where
  "push_ops ops s = s\<lparr>sched_queue := sched_queue s @ ops\<rparr>"

definition init_task :: "'o scheduler \<Rightarrow> 'o scheduler" where
  "init_task s =
     (if \<not> shut s \<and> \<not> task s then wake_one_thread_and_unlock (push_ops [Task_operation] (s\<lparr>task := True\<rparr>)) else s)"

text \<open>
  The calls that enqueue operations. The second argument is the entry of the calling thread on the call stack of threads
  inside the scheduler, None when it is not inside.
\<close>

definition post_immediate_completion :: "'o \<Rightarrow> bool \<Rightarrow> 'o thread_info option \<Rightarrow> 'o scheduler \<Rightarrow> 'o scheduler \<times> 'o thread_info option" where
  "post_immediate_completion op is_continuation this_thread s =
     (let public = (wake_one_thread_and_unlock (push_ops [Operation op] (work_started s)), this_thread)
      in if one_thread s \<or> is_continuation
         then (case this_thread of
                 Some t \<Rightarrow> (s, Some (t\<lparr>private_outstanding_work := private_outstanding_work t + 1,
                                      private_op_queue := private_op_queue t @ [op]\<rparr>))
               | None \<Rightarrow> public)
         else public)"

definition post_immediate_completions :: "nat \<Rightarrow> 'o list \<Rightarrow> bool \<Rightarrow> 'o thread_info option \<Rightarrow> 'o scheduler \<Rightarrow>
    'o scheduler \<times> 'o thread_info option" where
  "post_immediate_completions n ops is_continuation this_thread s =
     (let public = (wake_one_thread_and_unlock
             (push_ops (map Operation ops) (s\<lparr>outstanding_work := outstanding_work s + int n\<rparr>)), this_thread)
      in if one_thread s \<or> is_continuation
         then (case this_thread of
                 Some t \<Rightarrow> (s, Some (t\<lparr>private_outstanding_work := private_outstanding_work t + int n,
                                      private_op_queue := private_op_queue t @ ops\<rparr>))
               | None \<Rightarrow> public)
         else public)"

definition post_deferred_completion :: "'o \<Rightarrow> 'o thread_info option \<Rightarrow> 'o scheduler \<Rightarrow> 'o scheduler \<times> 'o thread_info option" where
  "post_deferred_completion op this_thread s =
     (let public = (wake_one_thread_and_unlock (push_ops [Operation op] s), this_thread)
      in if one_thread s
         then (case this_thread of
                 Some t \<Rightarrow> (s, Some (t\<lparr>private_op_queue := private_op_queue t @ [op]\<rparr>))
               | None \<Rightarrow> public)
         else public)"

definition post_deferred_completions :: "'o list \<Rightarrow> 'o thread_info option \<Rightarrow> 'o scheduler \<Rightarrow> 'o scheduler \<times> 'o thread_info option" where
  "post_deferred_completions ops this_thread s =
     (if ops \<noteq> [] then
        (let public = (wake_one_thread_and_unlock (push_ops (map Operation ops) s), this_thread)
         in if one_thread s
            then (case this_thread of
                    Some t \<Rightarrow> (s, Some (t\<lparr>private_op_queue := private_op_queue t @ ops\<rparr>))
                  | None \<Rightarrow> public)
            else public)
      else (s, this_thread))"

definition do_dispatch :: "'o \<Rightarrow> 'o scheduler \<Rightarrow> 'o scheduler" where
  "do_dispatch op s = wake_one_thread_and_unlock (push_ops [Operation op] (work_started s))"

text \<open>Shutdown without a thread of the scheduler's own: the operations that are destroyed, in their order.\<close>

fun queued_ops :: "'o item list \<Rightarrow> 'o list" where
  "queued_ops [] = []"
| "queued_ops (Task_operation # q) = queued_ops q"
| "queued_ops (Operation o1 # q) = o1 # queued_ops q"

definition sched_shutdown :: "'o scheduler \<Rightarrow> 'o scheduler \<times> 'o list" where
  "sched_shutdown s = (s\<lparr>shut := True, sched_queue := [], task := False\<rparr>, queued_ops (sched_queue s))"

section \<open>The event loop\<close>

text \<open>\<open>task_cleanup\<close> and \<open>work_cleanup\<close>: the part on the counter, made without the mutex, and the part with the mutex held.\<close>

definition task_cleanup_count :: "'o scheduler \<Rightarrow> 'o thread_info \<Rightarrow> 'o scheduler \<times> 'o thread_info" where
  "task_cleanup_count s t =
     (if private_outstanding_work t > 0 then s\<lparr>outstanding_work := outstanding_work s + private_outstanding_work t\<rparr> else s,
      t\<lparr>private_outstanding_work := 0\<rparr>)"

definition task_cleanup_push :: "'o scheduler \<Rightarrow> 'o thread_info \<Rightarrow> 'o scheduler \<times> 'o thread_info" where
  "task_cleanup_push s t =
     (push_ops [Task_operation] (push_ops (map Operation (private_op_queue t)) (s\<lparr>task_interrupted := True\<rparr>)),
      t\<lparr>private_op_queue := []\<rparr>)"

definition task_cleanup :: "'o scheduler \<Rightarrow> 'o thread_info \<Rightarrow> 'o scheduler \<times> 'o thread_info" where
  "task_cleanup s t = (case task_cleanup_count s t of (s1, t1) \<Rightarrow> task_cleanup_push s1 t1)"

definition work_cleanup_count :: "'o scheduler \<Rightarrow> 'o thread_info \<Rightarrow> ('o scheduler \<times> bool) \<times> 'o thread_info" where
  "work_cleanup_count s t =
     (if private_outstanding_work t > 1
      then (s\<lparr>outstanding_work := outstanding_work s + (private_outstanding_work t - 1)\<rparr>, False)
      else if private_outstanding_work t < 1 then work_decrement s
      else (s, False),
      t\<lparr>private_outstanding_work := 0\<rparr>)"

definition work_cleanup_push :: "'o scheduler \<Rightarrow> 'o thread_info \<Rightarrow> 'o scheduler \<times> 'o thread_info" where
  "work_cleanup_push s t =
     (if private_op_queue t \<noteq> []
      then (push_ops (map Operation (private_op_queue t)) s, t\<lparr>private_op_queue := []\<rparr>)
      else (s, t))"

definition work_cleanup :: "'o scheduler \<Rightarrow> 'o thread_info \<Rightarrow> 'o scheduler \<times> 'o thread_info" where
  "work_cleanup s t =
     (case work_cleanup_count s t of ((s1, zero), t1) \<Rightarrow> work_cleanup_push (if zero then sched_stop s1 else s1) t1)"

text \<open>One turn of the loop of \<open>do_run_one\<close> up to the release of the mutex, and what the thread does next.\<close>

datatype 'o taken = Stop_run | Sleep | Run_task bool | Complete 'o

definition run_one_take :: "'o scheduler \<Rightarrow> 'o scheduler \<times> 'o taken" where
  "run_one_take s =
     (if stopped s then (s, Stop_run)
      else case sched_queue s of
        [] \<Rightarrow> (event_clear s, Sleep)
      | i # rest \<Rightarrow>
          (let more_handlers = rest \<noteq> []; s1 = s\<lparr>sched_queue := rest\<rparr>
           in case i of
                Task_operation \<Rightarrow>
                  (let s2 = s1\<lparr>task_interrupted := more_handlers\<rparr>
                   in (if more_handlers \<and> \<not> one_thread s2 then unlock_and_signal_one s2 else s2, Run_task (\<not> more_handlers)))
              | Operation o1 \<Rightarrow>
                  (if more_handlers \<and> \<not> one_thread s1 then wake_one_thread_and_unlock s1 else s1, Complete o1)))"

text \<open>
  The loop of one thread with no other beside it. Handlers and the task are parameters on the scheduler, the thread's entry
  and a state of their own; they may throw. A thread that goes to sleep is never woken: the value None.
\<close>

type_synonym ('o, 'c) world = "'o scheduler \<times> 'o thread_info \<times> 'c"
type_synonym ('o, 'c, 'e) action = "('o, 'c) world \<Rightarrow> ('o, 'c) world \<times> 'e option"

definition complete_op :: "('o \<Rightarrow> ('o, 'c, 'e) action) \<Rightarrow> 'o \<Rightarrow> ('o, 'c) world \<Rightarrow> ('o, 'c) world \<times> ('e + nat)" where
  "complete_op complete o1 w =
     (case complete o1 w of ((s, t, c), e) \<Rightarrow>
        (case work_cleanup s t of (s1, t1) \<Rightarrow> ((s1, t1, c), case e of None \<Rightarrow> Inr 1 | Some x \<Rightarrow> Inl x)))"

definition task_op :: "(int \<Rightarrow> ('o, 'c, 'e) action) \<Rightarrow> int \<Rightarrow> ('o, 'c) world \<Rightarrow> ('o, 'c) world \<times> 'e option" where
  "task_op task_run usec w =
     (case task_run usec w of ((s, t, c), e) \<Rightarrow> (case task_cleanup s t of (s1, t1) \<Rightarrow> ((s1, t1, c), e)))"

partial_function (option) do_run_one :: "(int \<Rightarrow> ('o, 'c, 'e) action) \<Rightarrow> ('o \<Rightarrow> ('o, 'c, 'e) action) \<Rightarrow> ('o, 'c) world \<Rightarrow>
    (('o, 'c) world \<times> ('e + nat)) option" where
  "do_run_one task_run complete w =
     (case w of (s, t, c) \<Rightarrow>
       (case run_one_take s of (s1, a) \<Rightarrow>
         (case a of
            Stop_run \<Rightarrow> Some ((s1, t, c), Inr 0)
          | Sleep \<Rightarrow> None
          | Run_task block \<Rightarrow>
              (case task_op task_run (if block then - 1 else 0) (s1, t, c) of (w1, e) \<Rightarrow>
                (case e of
                   Some x \<Rightarrow> Some (w1, Inl x)
                 | None \<Rightarrow> do_run_one task_run complete w1))
          | Complete o1 \<Rightarrow> Some (complete_op complete o1 (s1, t, c)))))"

text \<open>The end that \<open>do_wait_one\<close> and \<open>do_poll_one\<close> have in common: the first operation is taken and completed.\<close>

definition complete_front :: "('o \<Rightarrow> ('o, 'c, 'e) action) \<Rightarrow> ('o, 'c) world \<Rightarrow> ('o, 'c) world \<times> ('e + nat)" where
  "complete_front complete w =
     (case w of (s, t, c) \<Rightarrow>
       (case sched_queue s of
          Operation o1 # rest \<Rightarrow>
            (let more_handlers = rest \<noteq> []; s1 = s\<lparr>sched_queue := rest\<rparr>;
                 s2 = (if more_handlers \<and> \<not> one_thread s1 then wake_one_thread_and_unlock s1 else s1)
             in complete_op complete o1 (s2, t, c))
        | _ \<Rightarrow> (w, Inr 0)))"

definition task_in_front :: "'o scheduler \<Rightarrow> bool" where
  "task_in_front s = (case sched_queue s of Task_operation # _ \<Rightarrow> True | _ \<Rightarrow> False)"

definition do_wait_one :: "(int \<Rightarrow> ('o, 'c, 'e) action) \<Rightarrow> ('o \<Rightarrow> ('o, 'c, 'e) action) \<Rightarrow> int \<Rightarrow> ('o, 'c) world \<Rightarrow>
    ('o, 'c) world \<times> ('e + nat)" where
  "do_wait_one task_run complete usec w =
     (case w of (s, t, c) \<Rightarrow>
        if stopped s then (w, Inr 0)
        else if sched_queue s = [] then ((event_clear s, t, c), Inr 0)
        else if task_in_front s then
          (let rest = tl (sched_queue s); more_handlers = rest \<noteq> [];
               s1 = s\<lparr>sched_queue := rest, task_interrupted := more_handlers\<rparr>;
               s2 = (if more_handlers \<and> \<not> one_thread s1 then unlock_and_signal_one s1 else s1)
           in case task_op task_run (if more_handlers then 0 else usec) (s2, t, c) of ((s3, t3, c3), e) \<Rightarrow>
                (case e of
                   Some x \<Rightarrow> ((s3, t3, c3), Inl x)
                 | None \<Rightarrow>
                     if task_in_front s3
                     then ((if \<not> one_thread s3 then fst (maybe_unlock_and_signal_one s3) else s3, t3, c3), Inr 0)
                     else complete_front complete (s3, t3, c3)))
        else complete_front complete w)"

definition do_poll_one :: "(int \<Rightarrow> ('o, 'c, 'e) action) \<Rightarrow> ('o \<Rightarrow> ('o, 'c, 'e) action) \<Rightarrow> ('o, 'c) world \<Rightarrow>
    ('o, 'c) world \<times> ('e + nat)" where
  "do_poll_one task_run complete w =
     (case w of (s, t, c) \<Rightarrow>
        if stopped s then (w, Inr 0)
        else if task_in_front s then
          (case task_op task_run 0 (s\<lparr>sched_queue := tl (sched_queue s)\<rparr>, t, c) of ((s3, t3, c3), e) \<Rightarrow>
             (case e of
                Some x \<Rightarrow> ((s3, t3, c3), Inl x)
              | None \<Rightarrow>
                  if task_in_front s3 then ((fst (maybe_unlock_and_signal_one s3), t3, c3), Inr 0)
                  else complete_front complete (s3, t3, c3)))
        else complete_front complete w)"

text \<open>The loops of \<open>run\<close> and \<open>poll\<close> over one of the functions above; the count stays at the largest value of its type.\<close>

definition size_max :: nat where
  "size_max = 2 ^ 64 - 1"

partial_function (option) count_loop :: "(('o, 'c) world \<Rightarrow> (('o, 'c) world \<times> ('e + nat)) option) \<Rightarrow> nat \<Rightarrow> ('o, 'c) world \<Rightarrow>
    (('o, 'c) world \<times> ('e + nat)) option" where
  "count_loop one n w =
     Option.bind (one w) (\<lambda>(w1, r).
       case r of
         Inl x \<Rightarrow> Some (w1, Inl x)
       | Inr k \<Rightarrow> if k = 0 then Some (w1, Inr n) else count_loop one (if n \<noteq> size_max then n + 1 else n) w1)"

definition sched_run :: "(int \<Rightarrow> ('o, 'c, 'e) action) \<Rightarrow> ('o \<Rightarrow> ('o, 'c, 'e) action) \<Rightarrow> 'o scheduler \<Rightarrow> 'c \<Rightarrow>
    (('o, 'c) world \<times> ('e + nat)) option" where
  "sched_run task_run complete s c =
     (if outstanding_work s = 0 then Some ((sched_stop s, thread_new, c), Inr 0)
      else count_loop (do_run_one task_run complete) 0 (s, thread_new, c))"

definition sched_run_one :: "(int \<Rightarrow> ('o, 'c, 'e) action) \<Rightarrow> ('o \<Rightarrow> ('o, 'c, 'e) action) \<Rightarrow> 'o scheduler \<Rightarrow> 'c \<Rightarrow>
    (('o, 'c) world \<times> ('e + nat)) option" where
  "sched_run_one task_run complete s c =
     (if outstanding_work s = 0 then Some ((sched_stop s, thread_new, c), Inr 0)
      else do_run_one task_run complete (s, thread_new, c))"

definition sched_wait_one :: "(int \<Rightarrow> ('o, 'c, 'e) action) \<Rightarrow> ('o \<Rightarrow> ('o, 'c, 'e) action) \<Rightarrow> int \<Rightarrow> 'o scheduler \<Rightarrow> 'c \<Rightarrow>
    ('o, 'c) world \<times> ('e + nat)" where
  "sched_wait_one task_run complete usec s c =
     (if outstanding_work s = 0 then ((sched_stop s, thread_new, c), Inr 0)
      else do_wait_one task_run complete usec (s, thread_new, c))"

text \<open>In a nested call the operations the outer call keeps privately come to the common queue first.\<close>

definition pull_outer :: "'o thread_info option \<Rightarrow> 'o scheduler \<Rightarrow> 'o scheduler \<times> 'o thread_info option" where
  "pull_outer outer_info s =
     (case outer_info of
        Some t \<Rightarrow>
          if one_thread s then (push_ops (map Operation (private_op_queue t)) s, Some (t\<lparr>private_op_queue := []\<rparr>)) else (s, outer_info)
      | None \<Rightarrow> (s, None))"

definition sched_poll :: "(int \<Rightarrow> ('o, 'c, 'e) action) \<Rightarrow> ('o \<Rightarrow> ('o, 'c, 'e) action) \<Rightarrow> 'o thread_info option \<Rightarrow> 'o scheduler \<Rightarrow> 'c \<Rightarrow>
    ((('o, 'c) world \<times> ('e + nat)) \<times> 'o thread_info option) option" where
  "sched_poll task_run complete outer s c =
     (if outstanding_work s = 0 then Some (((sched_stop s, thread_new, c), Inr 0), outer)
      else case pull_outer outer s of (s1, outer1) \<Rightarrow>
        map_option (\<lambda>r. (r, outer1)) (count_loop (\<lambda>w. Some (do_poll_one task_run complete w)) 0 (s1, thread_new, c)))"

definition sched_poll_one :: "(int \<Rightarrow> ('o, 'c, 'e) action) \<Rightarrow> ('o \<Rightarrow> ('o, 'c, 'e) action) \<Rightarrow> 'o thread_info option \<Rightarrow> 'o scheduler \<Rightarrow> 'c \<Rightarrow>
    (('o, 'c) world \<times> ('e + nat)) \<times> 'o thread_info option" where
  "sched_poll_one task_run complete outer s c =
     (if outstanding_work s = 0 then (((sched_stop s, thread_new, c), Inr 0), outer)
      else case pull_outer outer s of (s1, outer1) \<Rightarrow> (do_poll_one task_run complete (s1, thread_new, c), outer1))"

section \<open>What signals leave alone\<close>

lemma queued_ops_append [simp]: "queued_ops (p @ q) = queued_ops p @ queued_ops q"
  by (induction p rule: queued_ops.induct) auto

lemma queued_ops_map [simp]: "queued_ops (map Operation os) = os"
  by (induction os) auto

lemma queued_ops_map2 [simp]: "queued_ops (map (Operation \<circ> f) os) = map f os" "queued_ops (map (\<lambda>x. Operation (f x)) os) = map f os"
  by (induction os) auto

definition core :: "'o scheduler \<Rightarrow> bool \<times> bool \<times> bool \<times> int \<times> 'o item list \<times> bool \<times> bool" where
  "core s = (one_thread s, locking s, task s, outstanding_work s, sched_queue s, stopped s, shut s)"

lemmas event_defs = cond_signal_def cond_broadcast_def signal_all_def unlock_and_signal_one_def maybe_unlock_and_signal_one_def
  event_clear_def interrupt_task_def wake_one_thread_and_unlock_def

lemma core_quiet:
  "core (unlock_and_signal_one s) = core s" "core (fst (maybe_unlock_and_signal_one s)) = core s" "core (event_clear s) = core s"
  "core (wake_one_thread_and_unlock s) = core s" "core (event_awake s) = core s" "core (stop_all_threads s) = core (s\<lparr>stopped := True\<rparr>)"
  by (auto simp: core_def event_defs event_awake_def stop_all_threads_def Let_def)

lemma core_fields:
  assumes "core s = core r"
  shows "one_thread s = one_thread r" "locking s = locking r" "task s = task r" "outstanding_work s = outstanding_work r"
    "sched_queue s = sched_queue r" "stopped s = stopped r" "shut s = shut r"
  using assms by (simp_all add: core_def)

lemmas quiet [simp] = core_quiet [THEN core_fields(1)] core_quiet [THEN core_fields(2)] core_quiet [THEN core_fields(3)]
  core_quiet [THEN core_fields(4)] core_quiet [THEN core_fields(5)] core_quiet [THEN core_fields(6)] core_quiet [THEN core_fields(7)]

section \<open>One thread runs everything, in the order of posting\<close>

text \<open>Handlers that note that they ran and post further operations from inside.\<close>

fun post_list :: "bool \<Rightarrow> 'o list \<Rightarrow> 'o scheduler \<times> 'o thread_info \<Rightarrow> 'o scheduler \<times> 'o thread_info" where
  "post_list cont [] w = w"
| "post_list cont (p # ps) (s, t) =
     (case post_immediate_completion p cont (Some t) s of (s1, t1) \<Rightarrow> post_list cont ps (s1, the t1))"

definition posting :: "('o \<Rightarrow> 'o list) \<Rightarrow> ('o \<Rightarrow> bool) \<Rightarrow> 'o \<Rightarrow> ('o, 'o list, 'e) action" where
  "posting posts cont o1 w =
     (case w of (s, t, c) \<Rightarrow> (case post_list (cont o1) (posts o1) (s, t) of (s1, t1) \<Rightarrow> ((s1, t1, c @ [o1]), None)))"

text \<open>The order the specification asks for: first come, first served.\<close>

partial_function (option) in_order :: "('o \<Rightarrow> 'o list) \<Rightarrow> 'o list \<Rightarrow> 'o list option" where
  "in_order posts q =
     (case q of
        [] \<Rightarrow> Some []
      | o1 # rest \<Rightarrow> Option.bind (in_order posts (rest @ posts o1)) (\<lambda>os. Some (o1 # os)))"

text \<open>Both ways of posting, after the clean-up at the end of the handler: the operations are at the end of the queue and counted.\<close>

lemma post_list_public:
  assumes "\<not> one_thread s" and "\<not> cont"
  shows "\<exists>s1. post_list cont ps (s, t) = (s1, t) \<and>
    core s1 = core (s\<lparr>outstanding_work := outstanding_work s + int (length ps), sched_queue := sched_queue s @ map Operation ps\<rparr>)"
  using assms
proof (induction ps arbitrary: s)
  case (Cons p ps)
  let ?r = "wake_one_thread_and_unlock (push_ops [Operation p] (work_started s))"
  have c: "one_thread ?r = one_thread s" "outstanding_work ?r = outstanding_work s + 1"
    "sched_queue ?r = sched_queue s @ [Operation p]" "locking ?r = locking s" "task ?r = task s" "stopped ?r = stopped s" "shut ?r = shut s"
    by (simp_all add: push_ops_def work_started_def)
  then show ?case using Cons.IH [of ?r] Cons.prems by (auto simp: post_immediate_completion_def Let_def core_def)
qed simp

lemma post_list_private:
  assumes "one_thread s \<or> cont"
  shows "post_list cont ps (s, t) =
    (s, t\<lparr>private_outstanding_work := private_outstanding_work t + int (length ps), private_op_queue := private_op_queue t @ ps\<rparr>)"
  using assms by (induction ps arbitrary: t) (auto simp: post_immediate_completion_def Let_def)

lemma work_cleanup_core:
  assumes "outstanding_work s + private_outstanding_work t = int n + 1" and "0 \<le> private_outstanding_work t"
  shows "core (fst (work_cleanup s t)) = core (s\<lparr>outstanding_work := int n,
      sched_queue := sched_queue s @ map Operation (private_op_queue t), stopped := stopped s \<or> private_outstanding_work t = 0 \<and> n = 0\<rparr>)"
    and "snd (work_cleanup s t) = t\<lparr>private_outstanding_work := 0, private_op_queue := []\<rparr>"
  using assms
  by (auto simp: work_cleanup_def work_cleanup_count_def work_cleanup_push_def work_decrement_def push_ops_def sched_stop_def core_def
      Let_def split: prod.splits)

lemma posting_turn:
  assumes "sched_queue s = map Operation q" and "outstanding_work s = int (length q) + 1" and "\<not> stopped s"
  shows "\<exists>s1. complete_op (posting posts cont) o1 (s, thread_new, c) = ((s1, thread_new, c @ [o1]), Inr 1) \<and>
    core s1 = core (s\<lparr>outstanding_work := int (length (q @ posts o1)), sched_queue := map Operation (q @ posts o1),
      stopped := (q @ posts o1 = [])\<rparr>)"
proof -
  obtain s2 t2 where p: "post_list (cont o1) (posts o1) (s, thread_new) = (s2, t2)" by force
  have "outstanding_work s2 + private_outstanding_work t2 = int (length (q @ posts o1)) + 1 \<and> 0 \<le> private_outstanding_work t2 \<and>
    core (s2\<lparr>outstanding_work := 0, sched_queue := sched_queue s2 @ map Operation (private_op_queue t2)\<rparr>) =
      core (s\<lparr>outstanding_work := 0, sched_queue := map Operation (q @ posts o1)\<rparr>) \<and>
    (private_outstanding_work t2 = 0 \<or> posts o1 \<noteq> [])"
  proof (cases "one_thread s \<or> cont o1")
    case True
    then show ?thesis using p assms post_list_private [OF True, of "posts o1" thread_new] by (auto simp: thread_new_def core_def)
  next
    case False
    then show ?thesis using p assms post_list_public [of s "cont o1" "posts o1" thread_new] by (auto simp: thread_new_def core_def)
  qed
  moreover obtain s3 t3 where w: "work_cleanup s2 t2 = (s3, t3)" by force
  ultimately have "core s3 = core (s\<lparr>outstanding_work := int (length (q @ posts o1)), sched_queue := map Operation (q @ posts o1),
      stopped := (q @ posts o1 = [])\<rparr>)" and "t3 = thread_new"
    using work_cleanup_core [of s2 t2 "length (q @ posts o1)"] assms
    by (auto simp: core_def thread_new_def)
  then show ?thesis using p w by (simp add: complete_op_def posting_def)
qed

lemma run_turn:
  fixes task_run :: "int \<Rightarrow> ('o, 'o list, 'e) action"
  assumes "sched_queue s = map Operation (o1 # q)" and "outstanding_work s = int (length (o1 # q))" and "\<not> stopped s"
  shows "\<exists>s1. do_run_one task_run (posting posts cont) (s, thread_new, c) = Some ((s1, thread_new, c @ [o1]), Inr 1) \<and>
    core s1 = core (s\<lparr>outstanding_work := int (length (q @ posts o1)), sched_queue := map Operation (q @ posts o1),
      stopped := (q @ posts o1 = [])\<rparr>)"
proof -
  obtain s0 where t: "run_one_take s = (s0, Complete o1)" and c: "core s0 = core (s\<lparr>sched_queue := map Operation q\<rparr>)"
    using assms by (auto simp: run_one_take_def Let_def core_def)
  have "sched_queue s0 = map Operation q" "outstanding_work s0 = int (length q) + 1" "\<not> stopped s0"
    using core_fields [OF c] assms by auto
  from posting_turn [OF this, of posts cont o1 c] obtain s1 where
    "complete_op (posting posts cont :: 'o \<Rightarrow> ('o, 'o list, 'e) action) o1 (s0, thread_new, c) = ((s1, thread_new, c @ [o1]), Inr 1)"
    and "core s1 = core (s0\<lparr>outstanding_work := int (length (q @ posts o1)), sched_queue := map Operation (q @ posts o1),
      stopped := (q @ posts o1 = [])\<rparr>)" by blast
  moreover from this(2) have "core s1 = core (s\<lparr>outstanding_work := int (length (q @ posts o1)),
      sched_queue := map Operation (q @ posts o1), stopped := (q @ posts o1 = [])\<rparr>)" using c by (simp add: core_def)
  ultimately have "do_run_one task_run (posting posts cont) (s, thread_new, c) = Some ((s1, thread_new, c @ [o1]), Inr 1) \<and>
    core s1 = core (s\<lparr>outstanding_work := int (length (q @ posts o1)), sched_queue := map Operation (q @ posts o1),
      stopped := (q @ posts o1 = [])\<rparr>)" using t by (subst do_run_one.simps) simp
  then show ?thesis by blast
qed

lemma smaller_queue:
  fixes rank :: "'o \<Rightarrow> nat"
  assumes "\<And>p. p \<in> set (posts o1) \<Longrightarrow> rank p < rank o1"
  shows "mset (map rank (q @ posts o1)) < mset (map rank (o1 # q))"
proof -
  have "mset (map rank q) + mset (map rank (posts o1)) < mset (map rank q) + {#rank o1#}"
    using assms by (intro add_strict_left_mono ex_gt_imp_less_multiset) auto
  then show ?thesis by (simp add: union_commute)
qed

lemma run_all:
  fixes rank :: "'o \<Rightarrow> nat"
  assumes dec: "\<And>o1 p. p \<in> set (posts o1) \<Longrightarrow> rank p < rank o1"
  shows "sched_queue s = map Operation q \<Longrightarrow> outstanding_work s = int (length q) \<Longrightarrow> stopped s = (q = []) \<Longrightarrow> n \<le> size_max \<Longrightarrow>
    \<exists>os s1. in_order posts q = Some os \<and>
      count_loop (do_run_one task_run (posting posts cont)) n (s, thread_new, c) =
        Some ((s1, thread_new, c @ os), Inr (min size_max (n + length os))) \<and>
      core s1 = core (s\<lparr>outstanding_work := 0, sched_queue := [], stopped := True\<rparr>)"
proof (induction "mset (map rank q)" arbitrary: q s n c rule: less_induct)
  case less
  show ?case
  proof (cases q)
    case Nil
    then have "do_run_one task_run (posting posts cont) (s, thread_new, c) = Some ((s, thread_new, c), Inr 0)"
      using less.prems by (subst do_run_one.simps) (simp add: run_one_take_def)
    then show ?thesis using less.prems Nil by (subst count_loop.simps, subst in_order.simps) (auto simp: core_def)
  next
    case (Cons o1 r)
    from run_turn [of s o1 r task_run posts cont c] obtain s1 where
      d: "do_run_one task_run (posting posts cont) (s, thread_new, c) = Some ((s1, thread_new, c @ [o1]), Inr 1)" and
      c1: "core s1 = core (s\<lparr>outstanding_work := int (length (r @ posts o1)), sched_queue := map Operation (r @ posts o1),
        stopped := (r @ posts o1 = [])\<rparr>)" using less.prems Cons by auto
    let ?n = "if n \<noteq> size_max then n + 1 else n"
    have "mset (map rank (r @ posts o1)) < mset (map rank q)" using smaller_queue [of posts o1 rank r] dec Cons by simp
    moreover have "sched_queue s1 = map Operation (r @ posts o1)" "outstanding_work s1 = int (length (r @ posts o1))"
      "stopped s1 = (r @ posts o1 = [])" "?n \<le> size_max" using c1 less.prems(4) by (auto simp: core_def)
    ultimately obtain os s2 where
      o: "in_order posts (r @ posts o1) = Some os" and
      l: "count_loop (do_run_one task_run (posting posts cont)) ?n (s1, thread_new, c @ [o1]) =
        Some ((s2, thread_new, (c @ [o1]) @ os), Inr (min size_max (?n + length os)))" and
      c2: "core s2 = core (s1\<lparr>outstanding_work := 0, sched_queue := [], stopped := True\<rparr>)"
      using less.hyps [of "r @ posts o1" s1 ?n "c @ [o1]"] by blast
    have "count_loop (do_run_one task_run (posting posts cont)) n (s, thread_new, c) =
        Some ((s2, thread_new, c @ o1 # os), Inr (min size_max (n + length (o1 # os))))"
      using d l by (subst count_loop.simps) auto
    moreover have "in_order posts q = Some (o1 # os)" using o Cons by (subst in_order.simps) simp
    moreover have "core s2 = core (s\<lparr>outstanding_work := 0, sched_queue := [], stopped := True\<rparr>)"
      using c1 c2 by (simp add: core_def)
    ultimately show ?thesis by blast
  qed
qed

text \<open>
  C14. One thread that calls run completes everything and comes back: whatever operations are queued and whatever the handlers
  post from inside, as long as the posting ends (a rank that falls), \<open>run\<close> returns, every operation has been completed exactly
  in the order first come, first served, the result is their number, the work count is zero and the scheduler is stopped.
  The order and the result are the same whether operations posted from inside take the private queue of the thread (one
  thread only, or a continuation) or the common queue.
\<close>

theorem run_completes_in_order:
  fixes rank :: "'o \<Rightarrow> nat"
  assumes "\<forall>o1. \<forall>p\<in>set (posts o1). rank p < rank o1"
    and "sched_queue s = map Operation q" and "outstanding_work s = int (length q)" and "q \<noteq> []" and "\<not> stopped s"
  shows "\<exists>os s1. in_order posts q = Some os \<and>
      sched_run task_run (posting posts cont) s [] = Some ((s1, thread_new, os), Inr (min size_max (length os))) \<and>
      outstanding_work s1 = 0 \<and> sched_queue s1 = [] \<and> stopped s1"
proof -
  from run_all [of posts rank s q 0 task_run cont "[]"] assms obtain os s1 where
    "in_order posts q = Some os" and "count_loop (do_run_one task_run (posting posts cont)) 0 (s, thread_new, []) =
        Some ((s1, thread_new, [] @ os), Inr (min size_max (0 + length os)))" and
    "core s1 = core (s\<lparr>outstanding_work := 0, sched_queue := [], stopped := True\<rparr>)" by auto
  moreover from this(3) have "outstanding_work s1 = 0 \<and> sched_queue s1 = [] \<and> stopped s1" by (simp add: core_def)
  ultimately show ?thesis using assms by (simp add: sched_run_def)
qed

theorem run_completes_in_order_witness:
  "\<exists>s1. sched_run (\<lambda>_ w. (w, None :: unit option)) (posting (\<lambda>n. if n = 2 then [1, 0] else []) (\<lambda>n. n = 2))
      ((sched_new False True)\<lparr>sched_queue := [Operation 2, Operation (5::nat)], outstanding_work := 2\<rparr>) [] =
     Some ((s1, thread_new, [2, 5, 1, 0]), Inr 4)"
proof -
  have "in_order (\<lambda>n. if n = 2 then [1, 0] else []) [2, 5::nat] = Some [2, 5, 1, 0]"
    by (subst in_order.simps, simp)+
  then show ?thesis
    using run_completes_in_order [of "\<lambda>n. if n = 2 then [1, 0] else []" id
      "(sched_new False True)\<lparr>sched_queue := [Operation 2, Operation (5::nat)], outstanding_work := 2\<rparr>" "[2, 5]"
      "\<lambda>_ w. (w, None :: unit option)" "\<lambda>n. n = 2"]
    by (auto simp: sched_new_def size_max_def)
qed

end
