(* ===== verification/AsioThreads.thy ===== *)
theory AsioThreads
  imports AsioScheduler
begin

text \<open>
  Any number of threads inside the scheduler of theory \<open>AsioScheduler\<close>, and others that post to it from outside. A step is a stretch of
  code between two points where another thread can come in: a section under the mutex, or one access to the atomic work
  counter. A thread that keeps the mutex from one section to the next may lose it here in between, so of the steps below there are
  more interleavings than in the code.

  Three things of the code are no steps of their own. A signal that the code sends after releasing the mutex
  (\<^verbatim>\<open>posix_event::unlock_and_signal_one\<close>, \<^verbatim>\<open>maybe_unlock_and_signal_one\<close>) belongs to the section that decides to send it: no other
  thread comes in between the release and the signal. Several operations handed over at once
  (\<^verbatim>\<open>post_deferred_completions\<close>, with one wake-up) appear only in the private queue of a thread, one after the other. And a thread
  in \<^verbatim>\<open>poll_one\<close> or \<^verbatim>\<open>wait_one\<close> is not modelled: threads are in \<^verbatim>\<open>run\<close>, or in \<^verbatim>\<open>run_one\<close> where \<open>leave\<close> is set.
\<close>

section \<open>Threads and their steps\<close>

text \<open>
  The unit of work the end of a handler gives back: an operation that was counted brings its own; the operation of a
  descriptor, which the reactor queues uncounted, must take over that of a user operation it completes, or compensate.
\<close>

datatype work_unit = No_unit | Own_unit | Compensated

text \<open>\<open>In_task b n\<close>: in the \<open>run\<close> of the task, blocking if \<open>b\<close>, entered when \<open>n\<close> interrupts had been sent.\<close>

datatype 'o pc = Idle | At_loop | Waiting | In_task bool nat | Task_done | Completing 'o work_unit | Work_done bool

record 'o tstate =
  pc :: "'o pc"
  info :: "'o thread_info"

text \<open>
  \<open>external\<close>: units of work that were started and belong to no queued operation (work guards, operations waiting in the
  reactor, the moment between counting an operation and queueing it). \<open>due\<close>: threads outside a clean-up that have seen the
  count become zero and are about to call \<open>stop\<close>. The multisets record what was posted, completed and destroyed.
\<close>

record 'o config =
  sched :: "'o scheduler"
  threads :: "'o tstate list"
  external :: nat
  due :: nat
  posted :: "'o multiset"
  completed :: "'o multiset"
  destroyed :: "'o multiset"

definition set_thread :: "nat \<Rightarrow> 'o pc \<Rightarrow> 'o thread_info \<Rightarrow> 'o config \<Rightarrow> 'o config" where
  "set_thread i p t c = c\<lparr>threads := (threads c)[i := \<lparr>pc = p, info = t\<rparr>]\<rparr>"

definition at_pc :: "'o config \<Rightarrow> nat \<Rightarrow> 'o pc \<Rightarrow> 'o thread_info \<Rightarrow> bool" where
  "at_pc c i p t \<longleftrightarrow> i < length (threads c) \<and> threads c ! i = \<lparr>pc = p, info = t\<rparr>"

definition config_new :: "bool \<Rightarrow> nat \<Rightarrow> 'o config" where
  "config_new one n = \<lparr>sched = sched_new one True, threads = replicate n \<lparr>pc = Idle, info = thread_new\<rparr>,
     external = 0, due = 0, posted = {#}, completed = {#}, destroyed = {#}\<rparr>"

text \<open>After a turn of the loop: a thread that finds nothing enters the wait.\<close>

definition after_take :: "nat \<Rightarrow> 'o taken \<Rightarrow> bool \<Rightarrow> 'o pc" where
  "after_take n a cnt =
     (case a of
        Stop_run \<Rightarrow> Idle
      | Sleep \<Rightarrow> Waiting
      | Run_task b \<Rightarrow> In_task b n
      | Complete o1 \<Rightarrow> Completing o1 (if cnt then Own_unit else No_unit))"

definition take_sched :: "'o scheduler \<Rightarrow> 'o scheduler" where
  "take_sched s = (case run_one_take s of (s1, a) \<Rightarrow> (if a = Sleep then the (event_wait s1) else s1))"

definition all_idle :: "'o config \<Rightarrow> bool" where
  "all_idle c = (\<forall>x\<in>set (threads c). pc x = Idle)"

text \<open>A sleeper wakes because a signal has reached it, or for no reason, which POSIX allows.\<close>

definition can_wake :: "bool \<Rightarrow> 'o scheduler \<Rightarrow> bool" where
  "can_wake spurious s = (if spurious then woken s < event_state s div 2 else woken s > 0)"

definition woken_up :: "bool \<Rightarrow> 'o scheduler \<Rightarrow> 'o scheduler" where
  "woken_up spurious s = event_awake (if spurious then s else s\<lparr>woken := woken s - 1\<rparr>)"

text \<open>
  \<open>cnt\<close> says which operations are counted when they are queued. With \<open>leave\<close> a thread may also leave after one operation
  (\<open>run_one\<close>, or an exception out of a handler). A scheduler made for one thread has at most one inside.
\<close>

inductive thread_step :: "('o \<Rightarrow> bool) \<Rightarrow> bool \<Rightarrow> 'o config \<Rightarrow> 'o config \<Rightarrow> bool" for cnt leave where
  start_work: "thread_step cnt leave c (c\<lparr>sched := work_started (sched c), external := external c + 1\<rparr>)"
| finish_work: "external c > 0 \<Longrightarrow> work_decrement (sched c) = (s, zero) \<Longrightarrow>
    thread_step cnt leave c (c\<lparr>sched := s, external := external c - 1, due := (if zero then due c + 1 else due c)\<rparr>)"
| stop_due: "due c > 0 \<Longrightarrow> thread_step cnt leave c (c\<lparr>sched := sched_stop (sched c), due := due c - 1\<rparr>)"
| stop_call: "thread_step cnt leave c (c\<lparr>sched := sched_stop (sched c)\<rparr>)"
| restart_call: "thread_step cnt leave c (c\<lparr>sched := sched_restart (sched c)\<rparr>)"
| init_call: "thread_step cnt leave c (c\<lparr>sched := init_task (sched c)\<rparr>)"
| shutdown_call: "all_idle c \<Longrightarrow> sched_shutdown (sched c) = (s, os) \<Longrightarrow>
    thread_step cnt leave c (c\<lparr>sched := s, destroyed := destroyed c + mset os,
      external := external c + length (filter cnt os)\<rparr>)"
| post_public: "cnt op \<Longrightarrow> external c > 0 \<Longrightarrow>
    thread_step cnt leave c (c\<lparr>sched := fst (post_deferred_completion op None (sched c)), external := external c - 1,
      posted := posted c + {#op#}\<rparr>)"
| post_private: "at_pc c i (Completing o1 Own_unit) t \<Longrightarrow> cnt op \<Longrightarrow> one_thread (sched c) \<or> cont \<Longrightarrow>
    post_immediate_completion op cont (Some t) (sched c) = (s, Some t1) \<Longrightarrow>
    thread_step cnt leave c (set_thread i (Completing o1 Own_unit) t1 (c\<lparr>sched := s, posted := posted c + {#op#}\<rparr>))"
| defer_private: "at_pc c i (Completing o1 u) t \<Longrightarrow> cnt op \<Longrightarrow> external c > 0 \<Longrightarrow> one_thread (sched c) \<Longrightarrow>
    post_deferred_completion op (Some t) (sched c) = (s, Some t1) \<Longrightarrow>
    thread_step cnt leave c (set_thread i (Completing o1 u) t1 (c\<lparr>sched := s, external := external c - 1, posted := posted c + {#op#}\<rparr>))"
| task_event: "at_pc c i (In_task b n) t \<Longrightarrow> cnt op \<longrightarrow> external c > 0 \<Longrightarrow>
    thread_step cnt leave c (set_thread i (In_task b n) (t\<lparr>private_op_queue := private_op_queue t @ [op]\<rparr>)
      (c\<lparr>external := external c - of_bool (cnt op), posted := posted c + {#op#}\<rparr>))"
| adopt: "at_pc c i (Completing o1 No_unit) t \<Longrightarrow> external c > 0 \<Longrightarrow>
    thread_step cnt leave c (set_thread i (Completing o1 Own_unit) t (c\<lparr>external := external c - 1\<rparr>))"
| compensate: "at_pc c i (Completing o1 No_unit) t \<Longrightarrow>
    thread_step cnt leave c (set_thread i (Completing o1 Compensated) (compensating_work_started t) c)"
| enter: "at_pc c i Idle t \<Longrightarrow> outstanding_work (sched c) \<noteq> 0 \<Longrightarrow> one_thread (sched c) \<longrightarrow> all_idle c \<Longrightarrow>
    thread_step cnt leave c (set_thread i At_loop thread_new c)"
| enter_none: "outstanding_work (sched c) = 0 \<Longrightarrow> thread_step cnt leave c (c\<lparr>due := due c + 1\<rparr>)"
| take_one: "at_pc c i At_loop t \<Longrightarrow> run_one_take (sched c) = (s, a) \<Longrightarrow>
    thread_step cnt leave c (set_thread i (after_take (interrupts s) a (case a of Complete o1 \<Rightarrow> cnt o1 | _ \<Rightarrow> False)) t
      (c\<lparr>sched := take_sched (sched c)\<rparr>))"
| wake_up: "at_pc c i Waiting t \<Longrightarrow> can_wake spurious (sched c) \<Longrightarrow> event_wait (woken_up spurious (sched c)) = None \<Longrightarrow>
    thread_step cnt leave c (set_thread i At_loop t (c\<lparr>sched := woken_up spurious (sched c)\<rparr>))"
| wake_again: "at_pc c i Waiting t \<Longrightarrow> can_wake spurious (sched c) \<Longrightarrow> event_wait (woken_up spurious (sched c)) = Some s \<Longrightarrow>
    thread_step cnt leave c (c\<lparr>sched := s\<rparr>)"
| task_return: "at_pc c i (In_task b n) t \<Longrightarrow> task_cleanup_count (sched c) t = (s, t1) \<Longrightarrow>
    thread_step cnt leave c (set_thread i Task_done t1 (c\<lparr>sched := s\<rparr>))"
| task_requeue: "at_pc c i Task_done t \<Longrightarrow> task_cleanup_push (sched c) t = (s, t1) \<Longrightarrow>
    thread_step cnt leave c (set_thread i At_loop t1 (c\<lparr>sched := s\<rparr>))"
| op_return: "at_pc c i (Completing o1 u) t \<Longrightarrow> u \<noteq> No_unit \<Longrightarrow> work_cleanup_count (sched c) t = ((s, zero), t1) \<Longrightarrow>
    thread_step cnt leave c (set_thread i (Work_done zero) t1 (c\<lparr>sched := s, completed := completed c + {#o1#}\<rparr>))"
| op_stop: "at_pc c i (Work_done True) t \<Longrightarrow>
    thread_step cnt leave c (set_thread i (Work_done False) t (c\<lparr>sched := sched_stop (sched c)\<rparr>))"
| op_requeue: "at_pc c i (Work_done False) t \<Longrightarrow> work_cleanup_push (sched c) t = (s, t1) \<Longrightarrow>
    thread_step cnt leave c (set_thread i At_loop t1 (c\<lparr>sched := s\<rparr>))"
| op_leave: "leave \<Longrightarrow> at_pc c i (Work_done False) t \<Longrightarrow> work_cleanup_push (sched c) t = (s, t1) \<Longrightarrow>
    thread_step cnt leave c (set_thread i Idle t1 (c\<lparr>sched := s\<rparr>))"

inductive reaches :: "('o \<Rightarrow> bool) \<Rightarrow> bool \<Rightarrow> bool \<Rightarrow> nat \<Rightarrow> 'o config \<Rightarrow> bool" for cnt leave one n where
  new: "reaches cnt leave one n (config_new one n)"
| step: "reaches cnt leave one n c \<Longrightarrow> thread_step cnt leave c d \<Longrightarrow> reaches cnt leave one n d"

lemma core_woken [simp]: "core (woken_up spurious s) = core s"
  by (simp add: woken_up_def event_awake_def core_def)

lemmas woken_quiet [simp] = core_woken [THEN core_fields(1)] core_woken [THEN core_fields(2)] core_woken [THEN core_fields(3)]
  core_woken [THEN core_fields(4)] core_woken [THEN core_fields(5)] core_woken [THEN core_fields(6)] core_woken [THEN core_fields(7)]

section \<open>Sums over the threads\<close>

definition tsum :: "('o tstate \<Rightarrow> 'b::comm_monoid_add) \<Rightarrow> 'o config \<Rightarrow> 'b" where
  "tsum f c = sum_list (map f (threads c))"

lemma sum_list_replaced: "i < length xs \<Longrightarrow> sum_list (map f (xs[i := y])) + f (xs ! i) = sum_list (map f xs) + (f y :: 'b::comm_monoid_add)"
proof (induction xs arbitrary: i)
  case (Cons x xs)
  then show ?case by (cases i) (auto simp: algebra_simps)
qed simp

lemma tsum_moved: "at_pc c i p t \<Longrightarrow> threads d = threads c \<Longrightarrow>
    tsum f (set_thread i q u d) + f \<lparr>pc = p, info = t\<rparr> = tsum f c + f \<lparr>pc = q, info = u\<rparr>"
  using sum_list_replaced [of i "threads c" f "\<lparr>pc = q, info = u\<rparr>"] by (auto simp: tsum_def set_thread_def at_pc_def)

lemma tsum_same: "threads d = threads c \<Longrightarrow> tsum f d = tsum f c"
  by (simp add: tsum_def)

lemma set_thread_fields [simp]:
  "sched (set_thread i p t c) = sched c" "external (set_thread i p t c) = external c" "due (set_thread i p t c) = due c"
  "posted (set_thread i p t c) = posted c" "completed (set_thread i p t c) = completed c" "destroyed (set_thread i p t c) = destroyed c"
  "length (threads (set_thread i p t c)) = length (threads c)"
  by (simp_all add: set_thread_def)

lemma each_thread:
  assumes "\<forall>x\<in>set (threads c). P x" and "threads d = threads c" and "P \<lparr>pc = q, info = u\<rparr>"
  shows "\<forall>x\<in>set (threads (set_thread i q u d)). P x"
  using assms by (auto simp: set_thread_def dest: set_update_subset_insert [THEN subsetD])

lemma at_pcD: "at_pc c i p t \<Longrightarrow> \<lparr>pc = p, info = t\<rparr> \<in> set (threads c)"
  by (auto simp: at_pc_def) (metis nth_mem)

section \<open>What a thread keeps for itself\<close>

fun thread_ok :: "('o \<Rightarrow> bool) \<Rightarrow> 'o tstate \<Rightarrow> bool" where
  "thread_ok cnt x \<longleftrightarrow>
     (let w = private_outstanding_work (info x); q = private_op_queue (info x)
      in case pc x of
           Completing _ u \<Rightarrow>
             (case u of No_unit \<Rightarrow> w = 0 | Own_unit \<Rightarrow> 0 \<le> w \<and> w \<le> int (length (filter cnt q)) | Compensated \<Rightarrow> w = 1)
         | In_task _ _ \<Rightarrow> w = 0
         | Task_done \<Rightarrow> w = 0
         | Work_done _ \<Rightarrow> w = 0
         | _ \<Rightarrow> w = 0 \<and> q = [])"

definition threads_ok :: "('o \<Rightarrow> bool) \<Rightarrow> 'o config \<Rightarrow> bool" where
  "threads_ok cnt c \<longleftrightarrow> (\<forall>x\<in>set (threads c). thread_ok cnt x)"

lemma threads_ok_moved: "threads_ok cnt c \<Longrightarrow> threads d = threads c \<Longrightarrow> thread_ok cnt \<lparr>pc = q, info = u\<rparr> \<Longrightarrow> threads_ok cnt (set_thread i q u d)"
  unfolding threads_ok_def by (rule each_thread)

lemma threads_okD: "threads_ok cnt c \<Longrightarrow> at_pc c i p t \<Longrightarrow> thread_ok cnt \<lparr>pc = p, info = t\<rparr>"
  unfolding threads_ok_def by (blast dest: at_pcD)

lemmas sched_defs = work_started_def work_decrement_def sched_stop_def sched_restart_def init_task_def sched_shutdown_def
  post_deferred_completion_def post_immediate_completion_def push_ops_def task_cleanup_count_def task_cleanup_push_def
  work_cleanup_count_def work_cleanup_push_def compensating_work_started_def

lemma threads_ok_step: "thread_step cnt leave c d \<Longrightarrow> threads_ok cnt c \<Longrightarrow> threads_ok cnt d"
proof (induction rule: thread_step.induct)
  case wake_up
  then show ?case using threads_okD [OF wake_up.prems wake_up.hyps(1)]
    by (intro threads_ok_moved [OF wake_up.prems]) (auto simp: Let_def)
next
  case post_private
  then show ?case using threads_okD [OF post_private.prems post_private.hyps(1)]
    by (intro threads_ok_moved [OF post_private.prems]) (auto simp: sched_defs Let_def split: if_splits)
next
  case defer_private
  then show ?case using threads_okD [OF defer_private.prems defer_private.hyps(1)]
    by (intro threads_ok_moved [OF defer_private.prems]) (auto simp: sched_defs Let_def split: if_splits work_unit.splits)
next
  case task_event
  then show ?case using threads_okD [OF task_event.prems task_event.hyps(1)]
    by (intro threads_ok_moved [OF task_event.prems]) (auto simp: sched_defs Let_def split: if_splits)
next
  case adopt
  then show ?case using threads_okD [OF adopt.prems adopt.hyps(1)]
    by (intro threads_ok_moved [OF adopt.prems]) (auto simp: sched_defs Let_def split: if_splits)
next
  case compensate
  then show ?case using threads_okD [OF compensate.prems compensate.hyps(1)]
    by (intro threads_ok_moved [OF compensate.prems]) (auto simp: sched_defs Let_def split: if_splits)
next
  case enter
  then show ?case using threads_okD [OF enter.prems enter.hyps(1)]
    by (intro threads_ok_moved [OF enter.prems]) (auto simp: sched_defs Let_def after_take_def thread_new_def split: if_splits)
next
  case take_one
  then show ?case using threads_okD [OF take_one.prems take_one.hyps(1)]
    by (intro threads_ok_moved [OF take_one.prems]) (auto simp: sched_defs Let_def after_take_def thread_new_def split: if_splits taken.splits)
next
  case task_return
  then show ?case using threads_okD [OF task_return.prems task_return.hyps(1)]
    by (intro threads_ok_moved [OF task_return.prems]) (auto simp: sched_defs Let_def split: if_splits)
next
  case task_requeue
  then show ?case using threads_okD [OF task_requeue.prems task_requeue.hyps(1)]
    by (intro threads_ok_moved [OF task_requeue.prems]) (auto simp: sched_defs Let_def split: if_splits)
next
  case op_return
  then show ?case using threads_okD [OF op_return.prems op_return.hyps(1)]
    by (intro threads_ok_moved [OF op_return.prems]) (auto simp: sched_defs Let_def split: if_splits)
next
  case op_stop
  then show ?case using threads_okD [OF op_stop.prems op_stop.hyps(1)]
    by (intro threads_ok_moved [OF op_stop.prems]) (auto simp: sched_defs Let_def split: if_splits)
next
  case op_requeue
  then show ?case using threads_okD [OF op_requeue.prems op_requeue.hyps(1)]
    by (intro threads_ok_moved [OF op_requeue.prems]) (auto simp: sched_defs Let_def split: if_splits)
next
  case op_leave
  then show ?case using threads_okD [OF op_leave.prems op_leave.hyps(2)]
    by (intro threads_ok_moved [OF op_leave.prems]) (auto simp: sched_defs Let_def split: if_splits)
qed (simp_all add: threads_ok_def)

section \<open>No operation is lost or completed twice\<close>

fun held :: "'o tstate \<Rightarrow> 'o multiset" where
  "held x = mset (private_op_queue (info x)) + (case pc x of Completing o1 _ \<Rightarrow> {#o1#} | _ \<Rightarrow> {#})"

definition conserved :: "'o config \<Rightarrow> bool" where
  "conserved c \<longleftrightarrow> posted c = completed c + destroyed c + mset (queued_ops (sched_queue (sched c))) + tsum held c"

lemma take_queue:
  "run_one_take s = (s1, a) \<Longrightarrow> take_sched s = (if a = Sleep then the (event_wait (event_clear s)) else s1)"
  "run_one_take s = (s1, a) \<Longrightarrow> sched_queue (take_sched s) = (case a of Stop_run \<Rightarrow> sched_queue s | Sleep \<Rightarrow> [] | _ \<Rightarrow> tl (sched_queue s))"
  "run_one_take s = (s1, Complete o1) \<Longrightarrow> sched_queue s \<noteq> [] \<and> hd (sched_queue s) = Operation o1"
  "run_one_take s = (s1, Run_task b) \<Longrightarrow> sched_queue s \<noteq> [] \<and> hd (sched_queue s) = Task_operation"
  "run_one_take s = (s1, Sleep) \<Longrightarrow> sched_queue s = []"
  by (auto simp: run_one_take_def take_sched_def event_wait_def event_clear_def unset_bit_0 Let_def split: if_splits list.splits item.splits)

lemma take_core [simp]:
  "task (take_sched s) = task s" "outstanding_work (take_sched s) = outstanding_work s" "one_thread (take_sched s) = one_thread s"
  "locking (take_sched s) = locking s" "stopped (take_sched s) = stopped s"
  by (auto simp: run_one_take_def take_sched_def event_wait_def event_clear_def unset_bit_0 Let_def split: list.splits item.splits)

lemma count_tsum: "count (tsum f c) a = tsum (\<lambda>x. count (f x) a) c"
proof -
  have "count (sum_list (map f xs)) a = sum_list (map (\<lambda>x. count (f x) a) xs)" for xs
    by (induction xs) auto
  then show ?thesis by (simp add: tsum_def)
qed

lemma conserved_iff:
  "conserved c \<longleftrightarrow> (\<forall>a. count (posted c) a = count (completed c) a + count (destroyed c) a +
     count (mset (queued_ops (sched_queue (sched c)))) a + tsum (\<lambda>x. count (held x) a) c)"
  by (simp add: conserved_def multiset_eq_iff count_tsum)

text \<open>A step of one thread: what holds of the sum follows from what the thread gives up and what it takes.\<close>

lemma conserved_moved:
  assumes "conserved c" and "at_pc c i p t" and "threads d = threads c"
    and "\<And>a. count (posted d) a + count (completed c) a + count (destroyed c) a +
       count (mset (queued_ops (sched_queue (sched c)))) a + count (held \<lparr>pc = p, info = t\<rparr>) a =
      count (posted c) a + count (completed d) a + count (destroyed d) a +
       count (mset (queued_ops (sched_queue (sched d)))) a + count (held \<lparr>pc = q, info = u\<rparr>) a"
  shows "conserved (set_thread i q u d)"
  unfolding conserved_iff
proof
  fix a
  show "count (posted (set_thread i q u d)) a = count (completed (set_thread i q u d)) a + count (destroyed (set_thread i q u d)) a +
     count (mset (queued_ops (sched_queue (sched (set_thread i q u d))))) a + tsum (\<lambda>x. count (held x) a) (set_thread i q u d)"
    using tsum_moved [OF assms(2,3), of "\<lambda>x. count (held x) a" q u] assms(1) assms(4) [of a]
    unfolding conserved_iff set_thread_fields by (auto simp del: held.simps)
qed

lemma conserved_kept:
  assumes "conserved c" and "threads d = threads c"
    and "posted d + completed c + destroyed c + mset (queued_ops (sched_queue (sched c))) =
      posted c + completed d + destroyed d + mset (queued_ops (sched_queue (sched d)))"
  shows "conserved d"
  using assms tsum_same [OF assms(2), of held] by (simp add: conserved_def)

lemma conserved_step: "thread_step cnt leave c d \<Longrightarrow> threads_ok cnt c \<Longrightarrow> conserved c \<Longrightarrow> conserved d"
proof (induction rule: thread_step.induct)
  case (take_one c i t s a)
  then show ?case
    using take_queue(2-5) [of "sched c" s]
    by (cases "sched_queue (sched c)"; intro conserved_moved [OF _ take_one(1)])
      (auto simp: after_take_def split: taken.splits)
next
  case wake_up
  then show ?case by (intro conserved_moved [OF wake_up.prems(2) wake_up.hyps(1)]) auto
next
  case wake_again
  then show ?case by (intro conserved_kept [OF wake_again.prems(2)]) (auto simp: event_wait_def split: if_splits)
next
  case start_work
  then show ?case by (intro conserved_kept [OF start_work.prems(2)]) (auto simp: sched_defs Let_def split: if_splits)
next
  case finish_work
  then show ?case by (intro conserved_kept [OF finish_work.prems(2)]) (auto simp: sched_defs Let_def split: if_splits)
next
  case stop_due
  then show ?case by (intro conserved_kept [OF stop_due.prems(2)]) (auto simp: sched_defs Let_def split: if_splits)
next
  case stop_call
  then show ?case by (intro conserved_kept [OF stop_call.prems(2)]) (auto simp: sched_defs Let_def split: if_splits)
next
  case restart_call
  then show ?case by (intro conserved_kept [OF restart_call.prems(2)]) (auto simp: sched_defs Let_def split: if_splits)
next
  case init_call
  then show ?case by (intro conserved_kept [OF init_call.prems(2)]) (auto simp: sched_defs Let_def split: if_splits)
next
  case shutdown_call
  then show ?case by (intro conserved_kept [OF shutdown_call.prems(2)]) (auto simp: sched_defs Let_def split: if_splits)
next
  case post_public
  then show ?case by (intro conserved_kept [OF post_public.prems(2)]) (auto simp: sched_defs Let_def split: if_splits)
next
  case enter_none
  then show ?case by (intro conserved_kept [OF enter_none.prems(2)]) (auto simp: sched_defs Let_def split: if_splits)
next
  case post_private
  then show ?case by (intro conserved_moved [OF post_private.prems(2) post_private.hyps(1)]) (auto simp: sched_defs Let_def split: if_splits)
next
  case defer_private
  then show ?case by (intro conserved_moved [OF defer_private.prems(2) defer_private.hyps(1)]) (auto simp: sched_defs Let_def split: if_splits)
next
  case task_event
  then show ?case by (intro conserved_moved [OF task_event.prems(2) task_event.hyps(1)]) (auto simp: sched_defs Let_def split: if_splits)
next
  case adopt
  then show ?case by (intro conserved_moved [OF adopt.prems(2) adopt.hyps(1)]) (auto simp: sched_defs Let_def split: if_splits)
next
  case compensate
  then show ?case by (intro conserved_moved [OF compensate.prems(2) compensate.hyps(1)]) (auto simp: sched_defs Let_def split: if_splits)
next
  case enter
  then show ?case using threads_okD [OF enter.prems(1) enter.hyps(1)]
    by (intro conserved_moved [OF enter.prems(2) enter.hyps(1)]) (auto simp: thread_new_def Let_def)
next
  case task_return
  then show ?case by (intro conserved_moved [OF task_return.prems(2) task_return.hyps(1)]) (auto simp: sched_defs Let_def split: if_splits)
next
  case task_requeue
  then show ?case by (intro conserved_moved [OF task_requeue.prems(2) task_requeue.hyps(1)]) (auto simp: sched_defs Let_def split: if_splits)
next
  case op_return
  then show ?case by (intro conserved_moved [OF op_return.prems(2) op_return.hyps(1)]) (auto simp: sched_defs Let_def split: if_splits)
next
  case op_stop
  then show ?case by (intro conserved_moved [OF op_stop.prems(2) op_stop.hyps(1)]) (auto simp: sched_defs Let_def split: if_splits)
next
  case op_requeue
  then show ?case by (intro conserved_moved [OF op_requeue.prems(2) op_requeue.hyps(1)]) (auto simp: sched_defs Let_def split: if_splits)
next
  case op_leave
  then show ?case by (intro conserved_moved [OF op_leave.prems(2) op_leave.hyps(2)]) (auto simp: sched_defs Let_def split: if_splits)
qed

section \<open>At most one thread is in the task\<close>

fun tasking :: "'o tstate \<Rightarrow> nat" where
  "tasking x = (case pc x of In_task _ _ \<Rightarrow> 1 | Task_done \<Rightarrow> 1 | _ \<Rightarrow> 0)"

definition one_task :: "'o config \<Rightarrow> bool" where
  "one_task c \<longleftrightarrow> count_list (sched_queue (sched c)) Task_operation + tsum tasking c = of_bool (task (sched c))"

lemma one_task_moved:
  assumes "one_task c" and "at_pc c i p t" and "threads d = threads c" and "task (sched d) = task (sched c)"
    and "count_list (sched_queue (sched d)) Task_operation + tasking \<lparr>pc = q, info = u\<rparr> =
      count_list (sched_queue (sched c)) Task_operation + tasking \<lparr>pc = p, info = t\<rparr>"
  shows "one_task (set_thread i q u d)"
  using tsum_moved [OF assms(2,3), of tasking q u] assms(1,4,5) by (simp add: one_task_def del: tasking.simps)

lemma one_task_kept:
  assumes "one_task c" and "threads d = threads c"
    and "count_list (sched_queue (sched d)) Task_operation + of_bool (task (sched c)) =
      count_list (sched_queue (sched c)) Task_operation + of_bool (task (sched d))"
  shows "one_task d"
  using tsum_same [OF assms(2), of tasking] assms(1,3) by (simp add: one_task_def)

lemma idle_sums: "all_idle c \<Longrightarrow> tsum tasking c = 0"
  by (auto simp: all_idle_def tsum_def sum_list_eq_0_iff)

lemma no_task_in_map [simp]: "count_list (map Operation os) Task_operation = 0"
  by (induction os) auto

lemma one_task_step: "thread_step cnt leave c d \<Longrightarrow> one_task c \<Longrightarrow> one_task d"
proof (induction rule: thread_step.induct)
  case (take_one c i t s a)
  then show ?case
    using take_queue(2-5) [of "sched c" s]
    by (cases "sched_queue (sched c)"; intro one_task_moved [OF _ take_one(1)])
      (auto simp: after_take_def split: taken.splits)
next
  case post_private
  then show ?case by (intro one_task_moved [OF post_private.prems post_private.hyps(1)]) (auto simp: sched_defs Let_def split: if_splits)
next
  case defer_private
  then show ?case by (intro one_task_moved [OF defer_private.prems defer_private.hyps(1)]) (auto simp: sched_defs Let_def split: if_splits)
next
  case task_event
  then show ?case by (intro one_task_moved [OF task_event.prems task_event.hyps(1)]) (auto simp: sched_defs Let_def split: if_splits)
next
  case adopt
  then show ?case by (intro one_task_moved [OF adopt.prems adopt.hyps(1)]) (auto simp: sched_defs Let_def split: if_splits)
next
  case compensate
  then show ?case by (intro one_task_moved [OF compensate.prems compensate.hyps(1)]) (auto simp: sched_defs Let_def split: if_splits)
next
  case enter
  then show ?case by (intro one_task_moved [OF enter.prems enter.hyps(1)]) (auto simp: sched_defs Let_def split: if_splits)
next
  case wake_up
  then show ?case by (intro one_task_moved [OF wake_up.prems wake_up.hyps(1)]) (auto simp: sched_defs Let_def split: if_splits)
next
  case task_return
  then show ?case by (intro one_task_moved [OF task_return.prems task_return.hyps(1)]) (auto simp: sched_defs Let_def split: if_splits)
next
  case task_requeue
  then show ?case by (intro one_task_moved [OF task_requeue.prems task_requeue.hyps(1)]) (auto simp: sched_defs Let_def split: if_splits)
next
  case op_return
  then show ?case by (intro one_task_moved [OF op_return.prems op_return.hyps(1)]) (auto simp: sched_defs Let_def split: if_splits)
next
  case op_stop
  then show ?case by (intro one_task_moved [OF op_stop.prems op_stop.hyps(1)]) (auto simp: sched_defs Let_def split: if_splits)
next
  case op_requeue
  then show ?case by (intro one_task_moved [OF op_requeue.prems op_requeue.hyps(1)]) (auto simp: sched_defs Let_def split: if_splits)
next
  case op_leave
  then show ?case by (intro one_task_moved [OF op_leave.prems op_leave.hyps(2)]) (auto simp: sched_defs Let_def split: if_splits)
next
  case start_work
  then show ?case by (intro one_task_kept [OF start_work.prems]) (auto simp: sched_defs event_wait_def Let_def split: if_splits)
next
  case finish_work
  then show ?case by (intro one_task_kept [OF finish_work.prems]) (auto simp: sched_defs event_wait_def Let_def split: if_splits)
next
  case stop_due
  then show ?case by (intro one_task_kept [OF stop_due.prems]) (auto simp: sched_defs event_wait_def Let_def split: if_splits)
next
  case stop_call
  then show ?case by (intro one_task_kept [OF stop_call.prems]) (auto simp: sched_defs event_wait_def Let_def split: if_splits)
next
  case restart_call
  then show ?case by (intro one_task_kept [OF restart_call.prems]) (auto simp: sched_defs event_wait_def Let_def split: if_splits)
next
  case init_call
  then show ?case by (intro one_task_kept [OF init_call.prems]) (auto simp: sched_defs event_wait_def Let_def split: if_splits)
next
  case post_public
  then show ?case by (intro one_task_kept [OF post_public.prems]) (auto simp: sched_defs event_wait_def Let_def split: if_splits)
next
  case enter_none
  then show ?case by (intro one_task_kept [OF enter_none.prems]) (auto simp: sched_defs event_wait_def Let_def split: if_splits)
next
  case wake_again
  then show ?case by (intro one_task_kept [OF wake_again.prems]) (auto simp: sched_defs event_wait_def Let_def split: if_splits)
next
  case shutdown_call
  then show ?case using idle_sums [OF shutdown_call.hyps(1)] by (auto simp: one_task_def sched_shutdown_def tsum_def)
qed

section \<open>The work count\<close>

text \<open>What a thread adds to the count: the counted operations it keeps and the unit it will give back, less what it has not yet
  brought to the common counter.\<close>

fun unit_of :: "'o pc \<Rightarrow> int" where
  "unit_of (Completing _ u) = of_bool (u \<noteq> No_unit)"
| "unit_of _ = 0"

definition weight :: "('o \<Rightarrow> bool) \<Rightarrow> 'o tstate \<Rightarrow> int" where
  "weight cnt x = int (length (filter cnt (private_op_queue (info x)))) + unit_of (pc x) - private_outstanding_work (info x)"

definition counted :: "('o \<Rightarrow> bool) \<Rightarrow> 'o config \<Rightarrow> bool" where
  "counted cnt c \<longleftrightarrow>
     outstanding_work (sched c) = int (length (filter cnt (queued_ops (sched_queue (sched c))))) + tsum (weight cnt) c + int (external c)"

lemma counted_moved:
  assumes "counted cnt c" and "at_pc c i p t" and "threads d = threads c"
    and "outstanding_work (sched d) - int (length (filter cnt (queued_ops (sched_queue (sched d))))) - int (external d) - weight cnt \<lparr>pc = q, info = u\<rparr> =
      outstanding_work (sched c) - int (length (filter cnt (queued_ops (sched_queue (sched c))))) - int (external c) - weight cnt \<lparr>pc = p, info = t\<rparr>"
  shows "counted cnt (set_thread i q u d)"
  using tsum_moved [OF assms(2,3), of "weight cnt" q u] assms(1,4) by (simp add: counted_def)

lemma counted_kept:
  assumes "counted cnt c" and "threads d = threads c"
    and "outstanding_work (sched d) - int (length (filter cnt (queued_ops (sched_queue (sched d))))) - int (external d) =
      outstanding_work (sched c) - int (length (filter cnt (queued_ops (sched_queue (sched c))))) - int (external c)"
  shows "counted cnt d"
  using tsum_same [OF assms(2), of "weight cnt"] assms(1,3) by (simp add: counted_def)

lemma counted_step: "thread_step cnt leave c d \<Longrightarrow> threads_ok cnt c \<Longrightarrow> counted cnt c \<Longrightarrow> counted cnt d"
proof (induction rule: thread_step.induct)
  case (take_one c i t s a)
  then show ?case
    using take_queue(2-5) [of "sched c" s]
    by (cases "sched_queue (sched c)"; intro counted_moved [OF _ take_one(1)])
      (auto simp: after_take_def weight_def split: taken.splits)
next
  case post_private
  then show ?case by (intro counted_moved [OF post_private.prems(2) post_private.hyps(1)]) (auto simp: sched_defs weight_def Let_def split: if_splits)
next
  case defer_private
  then show ?case by (intro counted_moved [OF defer_private.prems(2) defer_private.hyps(1)]) (auto simp: sched_defs weight_def Let_def split: if_splits)
next
  case task_event
  then show ?case by (intro counted_moved [OF task_event.prems(2) task_event.hyps(1)]) (auto simp: sched_defs weight_def Let_def split: if_splits)
next
  case adopt
  then show ?case by (intro counted_moved [OF adopt.prems(2) adopt.hyps(1)]) (auto simp: sched_defs weight_def Let_def split: if_splits)
next
  case compensate
  then show ?case by (intro counted_moved [OF compensate.prems(2) compensate.hyps(1)]) (auto simp: sched_defs weight_def Let_def split: if_splits)
next
  case enter
  then show ?case using threads_okD [OF enter.prems(1) enter.hyps(1)]
    by (intro counted_moved [OF enter.prems(2) enter.hyps(1)]) (auto simp: sched_defs weight_def thread_new_def Let_def split: if_splits)
next
  case wake_up
  then show ?case by (intro counted_moved [OF wake_up.prems(2) wake_up.hyps(1)]) (auto simp: sched_defs weight_def Let_def split: if_splits)
next
  case task_return
  then show ?case using threads_okD [OF task_return.prems(1) task_return.hyps(1)]
    by (intro counted_moved [OF task_return.prems(2) task_return.hyps(1)]) (auto simp: sched_defs weight_def Let_def split: if_splits)
next
  case task_requeue
  then show ?case by (intro counted_moved [OF task_requeue.prems(2) task_requeue.hyps(1)]) (auto simp: sched_defs weight_def Let_def split: if_splits)
next
  case op_return
  then show ?case using threads_okD [OF op_return.prems(1) op_return.hyps(1)]
    by (intro counted_moved [OF op_return.prems(2) op_return.hyps(1)]) (auto simp: sched_defs weight_def Let_def split: if_splits work_unit.splits)
next
  case op_stop
  then show ?case by (intro counted_moved [OF op_stop.prems(2) op_stop.hyps(1)]) (auto simp: sched_defs weight_def Let_def split: if_splits)
next
  case op_requeue
  then show ?case by (intro counted_moved [OF op_requeue.prems(2) op_requeue.hyps(1)]) (auto simp: sched_defs weight_def Let_def split: if_splits)
next
  case op_leave
  then show ?case by (intro counted_moved [OF op_leave.prems(2) op_leave.hyps(2)]) (auto simp: sched_defs weight_def Let_def split: if_splits)
next
  case start_work
  then show ?case by (intro counted_kept [OF start_work.prems(2)]) (auto simp: sched_defs event_wait_def Let_def split: if_splits)
next
  case finish_work
  then show ?case by (intro counted_kept [OF finish_work.prems(2)]) (auto simp: sched_defs event_wait_def Let_def split: if_splits)
next
  case stop_due
  then show ?case by (intro counted_kept [OF stop_due.prems(2)]) (auto simp: sched_defs event_wait_def Let_def split: if_splits)
next
  case stop_call
  then show ?case by (intro counted_kept [OF stop_call.prems(2)]) (auto simp: sched_defs event_wait_def Let_def split: if_splits)
next
  case restart_call
  then show ?case by (intro counted_kept [OF restart_call.prems(2)]) (auto simp: sched_defs event_wait_def Let_def split: if_splits)
next
  case init_call
  then show ?case by (intro counted_kept [OF init_call.prems(2)]) (auto simp: sched_defs event_wait_def Let_def split: if_splits)
next
  case post_public
  then show ?case by (intro counted_kept [OF post_public.prems(2)]) (auto simp: sched_defs event_wait_def Let_def split: if_splits)
next
  case enter_none
  then show ?case by (intro counted_kept [OF enter_none.prems(2)]) (auto simp: sched_defs event_wait_def Let_def split: if_splits)
next
  case wake_again
  then show ?case by (intro counted_kept [OF wake_again.prems(2)]) (auto simp: sched_defs event_wait_def Let_def split: if_splits)
next
  case shutdown_call
  then show ?case by (intro counted_kept [OF shutdown_call.prems(2)]) (auto simp: sched_defs event_wait_def Let_def split: if_splits)
qed

section \<open>Reachable states\<close>

lemma tsum_new: "f \<lparr>pc = Idle, info = thread_new\<rparr> = 0 \<Longrightarrow> tsum f (config_new one n) = 0"
  by (induction n) (auto simp: tsum_def config_new_def)

lemma reaches_ok: "reaches cnt leave one n c \<Longrightarrow> threads_ok cnt c"
proof (induction rule: reaches.induct)
  case new
  show ?case by (auto simp: threads_ok_def config_new_def thread_new_def)
qed (rule threads_ok_step)

lemma reaches_conserved: "reaches cnt leave one n c \<Longrightarrow> conserved c"
proof (induction rule: reaches.induct)
  case new
  have "tsum held (config_new one n) = {#}" by (rule tsum_new) (simp add: thread_new_def)
  then show ?case by (simp add: conserved_def) (simp add: config_new_def sched_new_def)
qed (blast intro: conserved_step reaches_ok)

lemma reaches_one_task: "reaches cnt leave one n c \<Longrightarrow> one_task c"
proof (induction rule: reaches.induct)
  case new
  have "tsum tasking (config_new one n) = 0" by (rule tsum_new) simp
  then show ?case by (simp add: one_task_def) (simp add: config_new_def sched_new_def)
qed (blast intro: one_task_step)

lemma reaches_counted: "reaches cnt leave one n c \<Longrightarrow> counted cnt c"
proof (induction rule: reaches.induct)
  case new
  have "tsum (weight cnt) (config_new one n) = 0" by (rule tsum_new) (simp add: weight_def thread_new_def)
  then show ?case by (simp add: counted_def) (simp add: config_new_def sched_new_def)
qed (blast intro: counted_step reaches_ok)

lemma tsum_member: "x \<in> set (threads c) \<Longrightarrow> (f x :: nat) \<le> tsum f c"
  unfolding tsum_def by (rule member_le_sum_list) simp_all

lemma tsum_two:
  assumes "i < length (threads c)" and "j < length (threads c)" and "i \<noteq> j"
  shows "(f (threads c ! i) :: nat) + f (threads c ! j) \<le> tsum f c"
proof -
  have "f (xs ! i) + f (xs ! j) \<le> sum_list (map f xs)" if "i < length xs" "j < length xs" "i \<noteq> j" for xs
    using that
  proof (induction xs arbitrary: i j)
    case (Cons x xs)
    then show ?case
      by (cases i; cases j) (auto intro: le_trans [OF _ le_add2] member_le_sum_list [of "f (xs ! _)" "map f xs"])
  qed simp
  then show ?thesis using assms by (simp add: tsum_def)
qed

text \<open>
  C10. No operation is lost and none is completed twice, under every interleaving of threads and of their clean-ups, of stops
  and restarts: at any time every operation posted so far has been completed, or destroyed by a shutdown, or is queued, or
  is kept by exactly one thread, each as often as it was posted. When no thread is inside, everything that was posted and
  is not queued has been completed or destroyed.
\<close>

theorem each_operation_once:
  assumes "reaches cnt leave one n c"
  shows "posted c = completed c + destroyed c + mset (queued_ops (sched_queue (sched c))) + tsum held c \<and>
    (all_idle c \<longrightarrow> tsum held c = {#})"
proof
  show "posted c = completed c + destroyed c + mset (queued_ops (sched_queue (sched c))) + tsum held c"
    using reaches_conserved [OF assms] by (simp add: conserved_def)
  have "tsum held c = {#}" if "all_idle c"
  proof -
    have "\<forall>x\<in>set (threads c). held x = {#}"
      using that reaches_ok [OF assms] by (auto simp: all_idle_def threads_ok_def Let_def)
    then show ?thesis by (simp add: tsum_def sum_list_0 cong: map_cong)
  qed
  then show "all_idle c \<longrightarrow> tsum held c = {#}" by blast
qed

text \<open>
  C13. The reactor is never run by two threads: in every reachable state at most one thread is inside the task, and then the
  marker of the task is not in the queue, so no other thread can enter it; when no thread is inside and there is a task,
  the marker is in the queue exactly once.
\<close>

theorem task_exclusion:
  assumes "reaches cnt leave one n c"
  shows "(at_pc c i (In_task b k) t \<longrightarrow>
        Task_operation \<notin> set (sched_queue (sched c)) \<and> (\<forall>j b1 k1 t1. at_pc c j (In_task b1 k1) t1 \<longrightarrow> i = j)) \<and>
    (all_idle c \<longrightarrow> count_list (sched_queue (sched c)) Task_operation = of_bool (task (sched c)))"
proof -
  have o: "count_list (sched_queue (sched c)) Task_operation + tsum tasking c = of_bool (task (sched c))"
    using reaches_one_task [OF assms] by (simp add: one_task_def)
  have "i = j" if "at_pc c i (In_task b k) t" "at_pc c j (In_task b1 k1) t1" for j b1 k1 t1
    using that tsum_two [of i c j tasking] o by (fastforce simp: at_pc_def of_bool_def split: if_splits)
  moreover have "Task_operation \<notin> set (sched_queue (sched c))" if "at_pc c i (In_task b k) t"
    using tsum_member [OF at_pcD, OF that, of tasking] o count_list_0_iff [of "sched_queue (sched c)" Task_operation]
    by (simp add: of_bool_def split: if_splits)
  ultimately show ?thesis using idle_sums [of c] o by auto
qed

lemma weight_nonneg: "thread_ok cnt x \<Longrightarrow> 0 \<le> weight cnt x"
  by (cases "pc x") (auto simp: weight_def Let_def split: work_unit.splits)

lemma weight_zero: "thread_ok cnt x \<Longrightarrow> weight cnt x = 0 \<Longrightarrow> filter cnt (private_op_queue (info x)) = [] \<and> (\<forall>o1. pc x \<noteq> Completing o1 Own_unit)"
  by (cases "pc x") (auto simp: weight_def Let_def split: work_unit.splits)

text \<open>
  C12. The work count is never too low: in every reachable state it is at least the number of counted operations that are
  queued plus the units of work held outside, never negative, and it is zero only when no counted operation is queued,
  kept privately by a thread or being completed, and no work is held outside. So the stop that a count of zero causes
  never leaves an operation behind that was there when the count was made.
\<close>

theorem zero_count_means_done:
  assumes "reaches cnt leave one n c"
  shows "outstanding_work (sched c) \<ge> int (length (filter cnt (queued_ops (sched_queue (sched c))))) + int (external c) \<and>
    (outstanding_work (sched c) = 0 \<longrightarrow>
      filter cnt (queued_ops (sched_queue (sched c))) = [] \<and> external c = 0 \<and>
      (\<forall>x\<in>set (threads c). filter cnt (private_op_queue (info x)) = [] \<and> (\<forall>o1. pc x \<noteq> Completing o1 Own_unit)))"
proof -
  have w: "\<forall>x\<in>set (threads c). 0 \<le> weight cnt x"
    using reaches_ok [OF assms] weight_nonneg unfolding threads_ok_def by blast
  have c: "outstanding_work (sched c) = int (length (filter cnt (queued_ops (sched_queue (sched c))))) + tsum (weight cnt) c + int (external c)"
    using reaches_counted [OF assms] by (simp add: counted_def)
  moreover have t: "0 \<le> tsum (weight cnt) c" unfolding tsum_def by (rule sum_list_nonneg) (use w in auto)
  ultimately have a: "outstanding_work (sched c) \<ge> int (length (filter cnt (queued_ops (sched_queue (sched c))))) + int (external c)"
    by simp
  have "filter cnt (queued_ops (sched_queue (sched c))) = [] \<and> external c = 0 \<and>
      (\<forall>x\<in>set (threads c). filter cnt (private_op_queue (info x)) = [] \<and> (\<forall>o1. pc x \<noteq> Completing o1 Own_unit))"
    if z: "outstanding_work (sched c) = 0"
  proof -
    have s: "tsum (weight cnt) c = 0" "external c = 0" "length (filter cnt (queued_ops (sched_queue (sched c)))) = 0"
      using z c t by linarith+
    have "\<forall>x\<in>set (threads c). weight cnt x = 0"
      using s(1) w sum_list_nonneg_eq_0_iff [of "map (weight cnt) (threads c)"] by (auto simp: tsum_def)
    then show ?thesis using s weight_zero reaches_ok [OF assms] unfolding threads_ok_def by (metis length_0_conv)
  qed
  then show ?thesis using a by blast
qed

section \<open>Three short runs\<close>

text \<open>One thread: work is started, an operation posted, taken and completed, and the count has just become zero.\<close>

definition one_thread_config :: "nat scheduler \<Rightarrow> nat pc \<Rightarrow> nat \<Rightarrow> nat list \<Rightarrow> nat list \<Rightarrow> nat config" where
  "one_thread_config s p ext pst cmp = \<lparr>sched = s, threads = [\<lparr>pc = p, info = thread_new\<rparr>], external = ext, due = 0,
     posted = mset pst, completed = mset cmp, destroyed = {#}\<rparr>"

lemmas one_defs = one_thread_config_def sched_new_def set_thread_def at_pc_def

lemma reaches_take:
  assumes "reaches cnt leave one n c" and "at_pc c i At_loop t"
  shows "let (s, a) = run_one_take (sched c)
    in reaches cnt leave one n (set_thread i (after_take (interrupts s) a (case a of Complete o1 \<Rightarrow> cnt o1 | _ \<Rightarrow> False)) t
      (c\<lparr>sched := take_sched (sched c)\<rparr>))"
  using reaches.step [OF assms(1) thread_step.take_one [OF assms(2)]] by (auto simp: Let_def split: prod.splits)

lemma reaches_return:
  assumes "reaches cnt leave one n c" and "at_pc c i (Completing o1 Own_unit) t"
  shows "let ((s, zero), t1) = work_cleanup_count (sched c) t
    in reaches cnt leave one n (set_thread i (Work_done zero) t1 (c\<lparr>sched := s, completed := completed c + {#o1#}\<rparr>))"
  using reaches.step [OF assms(1) thread_step.op_return [OF assms(2)]] by (auto simp: Let_def split: prod.splits)

lemma started_run: "reaches (\<lambda>_. True) False False 1 (one_thread_config ((sched_new False True)\<lparr>outstanding_work := 1\<rparr>) Idle 1 [] [])"
proof -
  have "reaches (\<lambda>_. True) False False 1 (config_new False 1 :: nat config)" by (rule reaches.new)
  from reaches.step [OF this thread_step.start_work] show ?thesis
    by (simp add: config_new_def one_defs work_started_def)
qed

lemma posted_run:
  "reaches (\<lambda>_. True) False False 1 (one_thread_config ((sched_new False True)\<lparr>outstanding_work := 1, sched_queue := [Operation 7], event_state := 1\<rparr>) Idle 0 [7] [])"
proof -
  from reaches.step [OF started_run thread_step.post_public [of _ 7]] show ?thesis
    by (simp add: one_defs post_deferred_completion_def push_ops_def event_defs Let_def set_bit_0)
qed

lemma taken_run:
  "reaches (\<lambda>_. True) False False 1 (one_thread_config ((sched_new False True)\<lparr>outstanding_work := 1, event_state := 1\<rparr>) (Completing 7 Own_unit) 0 [7] [])"
proof -
  from reaches.step [OF posted_run thread_step.enter [of _ 0]]
  have "reaches (\<lambda>_. True) False False 1 (one_thread_config ((sched_new False True)\<lparr>outstanding_work := 1, sched_queue := [Operation 7], event_state := 1\<rparr>) At_loop 0 [7] [])"
    by (simp add: one_defs)
  from reaches_take [OF this, of 0 thread_new] show ?thesis
    by (simp add: one_defs run_one_take_def take_sched_def after_take_def)
qed

lemma done_run:
  "reaches (\<lambda>_. True) False False 1 (one_thread_config ((sched_new False True)\<lparr>event_state := 1\<rparr>) (Work_done True) 0 [7] [7])"
proof -
  from reaches_return [OF taken_run, of 0 7 thread_new] show ?thesis
    by (simp add: one_defs work_cleanup_count_def work_decrement_def thread_new_def)
qed

lemma in_task_run:
  "reaches (\<lambda>_. True) False False 1 (one_thread_config ((sched_new False True)\<lparr>outstanding_work := 1, task := True, task_interrupted := False, event_state := 1\<rparr>)
     (In_task True 0) 1 [] [])"
proof -
  from reaches.step [OF started_run thread_step.init_call]
  have "reaches (\<lambda>_. True) False False 1 (one_thread_config ((sched_new False True)\<lparr>outstanding_work := 1, task := True,
      sched_queue := [Task_operation], event_state := 1\<rparr>) Idle 1 [] [])"
    by (simp add: one_defs init_task_def push_ops_def event_defs Let_def set_bit_0)
  from reaches.step [OF this thread_step.enter [of _ 0]]
  have "reaches (\<lambda>_. True) False False 1 (one_thread_config ((sched_new False True)\<lparr>outstanding_work := 1, task := True,
      sched_queue := [Task_operation], event_state := 1\<rparr>) At_loop 1 [] [])"
    by (simp add: one_defs)
  from reaches_take [OF this, of 0 thread_new] show ?thesis
    by (simp add: one_defs run_one_take_def take_sched_def after_take_def)
qed

lemma asleep_run:
  "reaches (\<lambda>_. True) False False 1 (one_thread_config ((sched_new False True)\<lparr>outstanding_work := 1, sched_queue := [Operation 7],
     event_state := 3, woken := 1\<rparr>) Waiting 0 [7] [])"
proof -
  from reaches.step [OF started_run thread_step.enter [of _ 0]]
  have "reaches (\<lambda>_. True) False False 1 (one_thread_config ((sched_new False True)\<lparr>outstanding_work := 1\<rparr>) At_loop 1 [] [])"
    by (simp add: one_defs)
  from reaches_take [OF this, of 0 thread_new]
  have "reaches (\<lambda>_. True) False False 1 (one_thread_config ((sched_new False True)\<lparr>outstanding_work := 1, event_state := 2\<rparr>) Waiting 1 [] [])"
    by (simp add: one_defs run_one_take_def take_sched_def after_take_def event_clear_def event_wait_def unset_bit_0 numeral_2_eq_2)
  from reaches.step [OF this thread_step.post_public [of _ 7]] show ?thesis
    by (simp add: one_defs post_deferred_completion_def push_ops_def event_defs Let_def set_bit_0 numeral_3_eq_3)
qed

definition posted_config :: "nat config" where
  "posted_config = one_thread_config ((sched_new False True)\<lparr>outstanding_work := 1, sched_queue := [Operation 7], event_state := 1\<rparr>) Idle 0 [7] []"

definition done_config :: "nat config" where
  "done_config = one_thread_config ((sched_new False True)\<lparr>event_state := 1\<rparr>) (Work_done True) 0 [7] [7]"

definition in_task_config :: "nat config" where
  "in_task_config = one_thread_config ((sched_new False True)\<lparr>outstanding_work := 1, task := True, task_interrupted := False, event_state := 1\<rparr>)
     (In_task True 0) 1 [] []"

theorem each_operation_once_witness:
  "posted posted_config = completed posted_config + destroyed posted_config + mset (queued_ops (sched_queue (sched posted_config))) \<and>
   queued_ops (sched_queue (sched posted_config)) = [7]"
  using each_operation_once [OF posted_run] by (simp add: posted_config_def one_defs all_idle_def)

theorem task_exclusion_witness:
  "at_pc in_task_config 0 (In_task True 0) thread_new \<and> Task_operation \<notin> set (sched_queue (sched in_task_config)) \<and> task (sched in_task_config)"
  using task_exclusion [OF in_task_run, of 0 True 0 thread_new] by (simp add: in_task_config_def one_thread_config_def at_pc_def)

theorem zero_count_means_done_witness:
  "outstanding_work (sched done_config) = 0 \<and> external done_config = 0 \<and> completed done_config = {#7#} \<and>
   (\<forall>o1. pc (threads done_config ! 0) \<noteq> Completing o1 Own_unit)"
  using zero_count_means_done [OF done_run] by (simp add: done_config_def one_defs)

end
