(* ===== verification/AsioWakeups.thy ===== *)
theory AsioWakeups
  imports AsioThreads
begin

text \<open>
  No wake-up is lost among threads in \<open>run\<close>: in the interleavings of theory \<open>AsioThreads\<close> an operation in the queue and a stop always
  find somebody awake or on the way to be. With a thread that leaves after one operation this fails, by an example.
\<close>

section \<open>Numbers of threads\<close>

definition waiting :: "'o tstate \<Rightarrow> nat" where
  "waiting x = of_bool (pc x = Waiting)"

definition blocking :: "'o tstate \<Rightarrow> nat" where
  "blocking x = (case pc x of In_task b _ \<Rightarrow> of_bool b | _ \<Rightarrow> 0)"

text \<open>Threads that will look at the queue without being woken and without waiting for a handler.\<close>

definition active :: "'o tstate \<Rightarrow> nat" where
  "active x = (case pc x of At_loop \<Rightarrow> 1 | Task_done \<Rightarrow> 1 | Work_done _ \<Rightarrow> 1 | In_task b _ \<Rightarrow> of_bool (\<not> b) | _ \<Rightarrow> 0)"

definition inside :: "'o tstate \<Rightarrow> nat" where
  "inside x = of_bool (pc x \<noteq> Idle)"

lemmas number_defs = waiting_def blocking_def active_def inside_def

text \<open>The invariant, on the scheduler and the four numbers; \<open>steady\<close> is all of it but what concerns the queue.\<close>

definition steady :: "'o scheduler \<Rightarrow> nat \<Rightarrow> nat \<Rightarrow> nat \<Rightarrow> nat \<Rightarrow> bool" where
  "steady s w b a m \<longleftrightarrow>
     locking s \<and> event_state s div 2 = w \<and> woken s \<le> w \<and> (b > 0 \<longrightarrow> task s) \<and> (one_thread s \<longrightarrow> m \<le> 1) \<and>
     (stopped s \<longrightarrow> (w = 0 \<or> woken s = w \<and> odd (event_state s)) \<and> (b > 0 \<longrightarrow> task_interrupted s))"

definition answered :: "'o scheduler \<Rightarrow> nat \<Rightarrow> nat \<Rightarrow> nat \<Rightarrow> bool" where
  "answered s w b a \<longleftrightarrow>
     (sched_queue s \<noteq> [] \<and> w + b > 0 \<longrightarrow> a > 0 \<or> woken s > 0 \<and> odd (event_state s) \<or> b > 0 \<and> task_interrupted s)"

definition alert :: "'o scheduler \<Rightarrow> nat \<Rightarrow> nat \<Rightarrow> nat \<Rightarrow> nat \<Rightarrow> bool" where
  "alert s w b a m \<longleftrightarrow> steady s w b a m \<and> answered s w b a"

lemmas alert_defs = alert_def steady_def answered_def

lemma set_bit_more: "set_bit 0 (k::nat) = 2 * (k div 2) + 1" "unset_bit 0 (k::nat) = 2 * (k div 2)"
  by (simp_all add: set_bit_0 unset_bit_0)

lemma woken_by_wake: "steady s w b a m \<Longrightarrow> alert (wake_one_thread_and_unlock s) w b a m"
  by (auto simp: alert_defs event_defs set_bit_more Let_def)

lemma woken_by_signal: "steady s w b a m \<Longrightarrow> steady (unlock_and_signal_one s) w b a m"
  by (auto simp: steady_def event_defs set_bit_more Let_def)

lemma woken_by_stop: "steady s w b a m \<Longrightarrow> alert (sched_stop s) w b a m"
  by (auto simp: alert_defs event_defs set_bit_more sched_stop_def stop_all_threads_def)

lemma stopped_answered: "steady s w b a m \<Longrightarrow> stopped s \<Longrightarrow> answered s w b a"
  by (auto simp: alert_defs)

lemma active_answered: "a > 0 \<Longrightarrow> answered s w b a"
  by (simp add: answered_def)

lemma alert_take:
  assumes al: "alert s w b (Suc a) m" and le: "w + b + Suc a \<le> m" and tk: "run_one_take s = (s1, k)" and qt: "Task_operation \<in> set (sched_queue s) \<Longrightarrow> task s"
  shows "k = Stop_run \<Longrightarrow> m = Suc n \<Longrightarrow> alert (take_sched s) w b a n" "k = Sleep \<Longrightarrow> alert (take_sched s) (Suc w) b a m"
    "k = Run_task True \<Longrightarrow> alert (take_sched s) w (Suc b) a m" "k = Run_task False \<Longrightarrow> alert (take_sched s) w b (Suc a) m"
    "k = Complete o1 \<Longrightarrow> alert (take_sched s) w b a m"
proof -
  have st: "steady s w b (Suc a) m" using al by (simp add: alert_def)
  have ts: "take_sched s = (if k = Sleep then the (event_wait s1) else s1)" using tk by (simp add: take_sched_def)
  show "k = Stop_run \<Longrightarrow> m = Suc n \<Longrightarrow> alert (take_sched s) w b a n"
    using al tk ts by (auto simp: alert_defs run_one_take_def Let_def split: if_splits list.splits item.splits)
  show "k = Sleep \<Longrightarrow> alert (take_sched s) (Suc w) b a m"
    using al tk ts by (auto simp: alert_defs run_one_take_def event_clear_def event_wait_def set_bit_more Let_def
        split: if_splits list.splits item.splits)
  show "k = Run_task True \<Longrightarrow> alert (take_sched s) w (Suc b) a m"
  proof -
    assume k: "k = Run_task True"
    then have "sched_queue s = [Task_operation]" "\<not> stopped s" "s1 = s\<lparr>sched_queue := [], task_interrupted := False\<rparr>"
      using tk by (auto simp: run_one_take_def Let_def split: if_splits list.splits item.splits)
    then show ?thesis using st ts k qt by (auto simp: alert_defs)
  qed
  show "k = Run_task False \<Longrightarrow> alert (take_sched s) w b (Suc a) m"
  proof -
    assume k: "k = Run_task False"
    then obtain r where q: "sched_queue s = Task_operation # r" "r \<noteq> []" "\<not> stopped s" and
      s1: "s1 = (if one_thread s then s\<lparr>sched_queue := r, task_interrupted := True\<rparr>
        else unlock_and_signal_one (s\<lparr>sched_queue := r, task_interrupted := True\<rparr>))"
      using tk by (auto simp: run_one_take_def Let_def split: if_splits list.splits item.splits)
    have "steady (s\<lparr>sched_queue := r, task_interrupted := True\<rparr>) w b (Suc a) m" using st by (auto simp: steady_def)
    then show ?thesis using s1 ts k woken_by_signal by (auto simp: alert_def active_answered)
  qed
  show "k = Complete o1 \<Longrightarrow> alert (take_sched s) w b a m"
  proof -
    assume k: "k = Complete o1"
    then obtain r where q: "sched_queue s = Operation o1 # r" "\<not> stopped s" and
      s1: "s1 = (if r \<noteq> [] \<and> \<not> one_thread s then wake_one_thread_and_unlock (s\<lparr>sched_queue := r\<rparr>) else s\<lparr>sched_queue := r\<rparr>)"
      using tk by (auto simp: run_one_take_def Let_def split: if_splits list.splits item.splits)
    have "steady (s\<lparr>sched_queue := r\<rparr>) w b a m" using st by (auto simp: steady_def)
    then show ?thesis using s1 ts k woken_by_wake [of "s\<lparr>sched_queue := r\<rparr>" w b a m] st le
      by (auto simp: alert_def answered_def steady_def)
  qed
qed

section \<open>Every step keeps the invariant\<close>

definition alert_config :: "'o config \<Rightarrow> bool" where
  "alert_config c \<longleftrightarrow> alert (sched c) (tsum waiting c) (tsum blocking c) (tsum active c) (tsum inside c)"

lemma tsum_others:
  assumes "at_pc c i p t"
  shows "\<exists>r::nat. tsum f c = r + f \<lparr>pc = p, info = t\<rparr> \<and>
    (\<forall>q u d. threads d = threads c \<longrightarrow> tsum f (set_thread i q u d) = r + f \<lparr>pc = q, info = u\<rparr>)"
proof -
  have "f \<lparr>pc = p, info = t\<rparr> \<le> tsum f c" using assms by (intro tsum_member at_pcD)
  then obtain r where r: "tsum f c = r + f \<lparr>pc = p, info = t\<rparr>" by (metis le_add_diff_inverse2)
  moreover have "tsum f (set_thread i q u d) = r + f \<lparr>pc = q, info = u\<rparr>" if "threads d = threads c" for q u d
    using tsum_moved [OF assms that, of f q u] r by linarith
  ultimately show ?thesis by blast
qed

lemma numbers_inside: "tsum waiting c + tsum blocking c + tsum active c \<le> tsum inside c"
proof -
  have "waiting x + blocking x + active x \<le> inside x" for x :: "'a tstate" by (cases "pc x") (auto simp: number_defs)
  then have "sum_list (map waiting xs) + sum_list (map blocking xs) + sum_list (map active xs) \<le> sum_list (map inside xs)"
    for xs :: "'a tstate list"
    by (induction xs) (auto intro: add_mono simp: algebra_simps, smt (verit, ccfv_SIG) add.commute add.left_commute add_mono)
  then show ?thesis by (simp add: tsum_def)
qed

lemma alert_moved:
  assumes "alert_config c" and "at_pc c i p t" and "threads d = threads c"
    and step: "\<And>w b a m. alert (sched c) (w + waiting \<lparr>pc = p, info = t\<rparr>) (b + blocking \<lparr>pc = p, info = t\<rparr>)
        (a + active \<lparr>pc = p, info = t\<rparr>) (m + inside \<lparr>pc = p, info = t\<rparr>) \<Longrightarrow>
      w + waiting \<lparr>pc = p, info = t\<rparr> + (b + blocking \<lparr>pc = p, info = t\<rparr>) + (a + active \<lparr>pc = p, info = t\<rparr>)
        \<le> m + inside \<lparr>pc = p, info = t\<rparr> \<Longrightarrow>
      tsum inside c = m + inside \<lparr>pc = p, info = t\<rparr> \<Longrightarrow>
      alert (sched d) (w + waiting \<lparr>pc = q, info = u\<rparr>) (b + blocking \<lparr>pc = q, info = u\<rparr>)
        (a + active \<lparr>pc = q, info = u\<rparr>) (m + inside \<lparr>pc = q, info = u\<rparr>)"
  shows "alert_config (set_thread i q u d)"
proof -
  obtain w b a m where r: "tsum waiting c = w + waiting \<lparr>pc = p, info = t\<rparr>" "tsum blocking c = b + blocking \<lparr>pc = p, info = t\<rparr>"
      "tsum active c = a + active \<lparr>pc = p, info = t\<rparr>" "tsum inside c = m + inside \<lparr>pc = p, info = t\<rparr>"
    and n: "tsum waiting (set_thread i q u d) = w + waiting \<lparr>pc = q, info = u\<rparr>"
      "tsum blocking (set_thread i q u d) = b + blocking \<lparr>pc = q, info = u\<rparr>"
      "tsum active (set_thread i q u d) = a + active \<lparr>pc = q, info = u\<rparr>"
      "tsum inside (set_thread i q u d) = m + inside \<lparr>pc = q, info = u\<rparr>"
    using tsum_others [OF assms(2), of waiting] tsum_others [OF assms(2), of blocking] tsum_others [OF assms(2), of active]
      tsum_others [OF assms(2), of inside] assms(3) by metis
  show ?thesis using step [OF _ _ r(4)] assms(1) numbers_inside [of c] unfolding alert_config_def r n set_thread_fields by simp
qed

lemma alert_kept:
  assumes "alert_config c" and "threads d = threads c"
    and "\<And>w b a m. alert (sched c) w b a m \<Longrightarrow> alert (sched d) w b a m"
  shows "alert_config d"
  using assms tsum_same [OF assms(2)] unfolding alert_config_def by metis

lemma steady_kept: "steady s w b a m \<Longrightarrow> steady (s\<lparr>sched_queue := q\<rparr>) w b a m" "steady s w b a m \<Longrightarrow> steady (s\<lparr>outstanding_work := k\<rparr>) w b a m"
  "steady s w b a m \<Longrightarrow> steady (s\<lparr>task := True\<rparr>) w b a m"
  by (auto simp: steady_def)

lemma alert_uncounted: "alert s w b a m \<Longrightarrow> alert (s\<lparr>outstanding_work := k\<rparr>) w b a m"
  by (auto simp: alert_defs)

lemma idle_numbers: "all_idle c \<Longrightarrow> tsum waiting c = 0 \<and> tsum blocking c = 0 \<and> tsum active c = 0 \<and> tsum inside c = 0"
  by (auto simp: all_idle_def tsum_def sum_list_eq_0_iff number_defs)

lemma task_known: "one_task c \<Longrightarrow> Task_operation \<in> set (sched_queue (sched c)) \<Longrightarrow> task (sched c)"
  using count_list_0_iff [of "sched_queue (sched c)" Task_operation] by (auto simp: one_task_def of_bool_def split: if_splits)

lemma alert_pushed: "steady s w b a m \<Longrightarrow> alert (wake_one_thread_and_unlock (push_ops os s)) w b a m"
  by (auto simp: push_ops_def intro!: woken_by_wake steady_kept)

lemma alert_woken_up:
  assumes "alert s (Suc w) b a m" and "can_wake spurious s" and "event_wait (woken_up spurious s) = None"
  shows "alert (woken_up spurious s) w b (Suc a) m"
  using assms by (auto simp: alert_defs can_wake_def woken_up_def event_awake_def event_wait_def split: if_splits)

lemma alert_woken_again:
  assumes "alert s w b a m" and "can_wake spurious s" and "event_wait (woken_up spurious s) = Some s1"
  shows "alert s1 w b a m"
proof -
  have l: "locking s" "0 < w" "event_state s div 2 = w" "woken s \<le> w"
    using assms(1,2) by (auto simp: alert_defs can_wake_def split: if_splits)
  then have e: "2 \<le> event_state s" by linarith
  then have ev: "even (event_state s)" using assms(3) l(1)
    by (cases spurious) (auto simp: woken_up_def event_awake_def event_wait_def split: if_splits)
  have "s1 = (if spurious then s else s\<lparr>woken := woken s - 1\<rparr>)"
    using assms(3) l(1) e by (cases spurious) (auto simp: woken_up_def event_awake_def event_wait_def split: if_splits)
  then show ?thesis using assms(1) ev l by (auto simp: alert_defs)
qed

lemma alert_returned: "alert s w (Suc b) a m \<Longrightarrow> alert s w b (Suc a) m"
  by (auto simp: alert_defs)

lemma alert_up: "alert s w b a m \<Longrightarrow> alert (s\<lparr>outstanding_work := k\<rparr>) w b (Suc a) m" "alert s w b a m \<Longrightarrow> alert s w b (Suc a) m"
  by (auto simp: alert_defs)

lemma alert_entered: "alert s w b a m \<Longrightarrow> (one_thread s \<Longrightarrow> m = 0) \<Longrightarrow> alert s w b (Suc a) (Suc m)"
  by (auto simp: alert_defs)

lemma alert_step: "thread_step cnt False c d \<Longrightarrow> one_task c \<Longrightarrow> alert_config c \<Longrightarrow> alert_config d"
proof (induction rule: thread_step.induct)
  case start_work
  then show ?case by (intro alert_kept [OF start_work.prems(2)]) (auto simp: work_started_def intro: alert_uncounted)
next
  case finish_work
  then show ?case by (intro alert_kept [OF finish_work.prems(2)]) (auto simp: work_decrement_def Let_def intro: alert_uncounted)
next
  case stop_due
  then show ?case by (intro alert_kept [OF stop_due.prems(2)]) (auto simp: alert_def intro!: woken_by_stop [unfolded alert_def])
next
  case stop_call
  then show ?case by (intro alert_kept [OF stop_call.prems(2)]) (auto simp: alert_def intro!: woken_by_stop [unfolded alert_def])
next
  case restart_call
  then show ?case by (intro alert_kept [OF restart_call.prems(2)]) (auto simp: alert_defs sched_restart_def)
next
  case init_call
  then show ?case by (intro alert_kept [OF init_call.prems(2)]) (auto simp: init_task_def alert_def intro!: alert_pushed [unfolded alert_def] steady_kept)
next
  case post_public
  then show ?case by (intro alert_kept [OF post_public.prems(2)]) (auto simp: post_deferred_completion_def Let_def alert_def intro!: alert_pushed [unfolded alert_def])
next
  case enter_none
  then show ?case by (intro alert_kept [OF enter_none.prems(2)]) auto
next
  case wake_again
  then show ?case by (intro alert_kept [OF wake_again.prems(2)]) (auto intro: alert_woken_again)
next
  case post_private
  then show ?case by (intro alert_moved [OF post_private.prems(2) post_private.hyps(1)]) (auto simp: number_defs post_immediate_completion_def Let_def split: if_splits)
next
  case defer_private
  then show ?case by (intro alert_moved [OF defer_private.prems(2) defer_private.hyps(1)]) (auto simp: number_defs post_deferred_completion_def Let_def split: if_splits)
next
  case task_event
  then show ?case by (intro alert_moved [OF task_event.prems(2) task_event.hyps(1)]) (auto simp: number_defs)
next
  case adopt
  then show ?case by (intro alert_moved [OF adopt.prems(2) adopt.hyps(1)]) (auto simp: number_defs)
next
  case compensate
  then show ?case by (intro alert_moved [OF compensate.prems(2) compensate.hyps(1)]) (auto simp: number_defs)
next
  case wake_up
  then show ?case by (intro alert_moved [OF wake_up.prems(2) wake_up.hyps(1)]) (auto simp: number_defs intro: alert_woken_up)
next
  case (task_return c i b n t s t1)
  then show ?case
    by (cases b; intro alert_moved [OF task_return.prems(2) task_return.hyps(1)])
      (auto simp: number_defs task_cleanup_count_def dest!: alert_returned intro: alert_uncounted split: if_splits)
next
  case task_requeue
  then show ?case by (intro alert_moved [OF task_requeue.prems(2) task_requeue.hyps(1)]) (auto simp: number_defs task_cleanup_push_def push_ops_def alert_defs)
next
  case op_return
  then show ?case by (intro alert_moved [OF op_return.prems(2) op_return.hyps(1)]) (auto simp: number_defs work_cleanup_count_def work_decrement_def Let_def intro: alert_up split: if_splits)
next
  case op_stop
  then show ?case by (intro alert_moved [OF op_stop.prems(2) op_stop.hyps(1)]) (auto simp: number_defs alert_def intro!: woken_by_stop [unfolded alert_def])
next
  case op_requeue
  then show ?case by (intro alert_moved [OF op_requeue.prems(2) op_requeue.hyps(1)]) (auto simp: number_defs work_cleanup_push_def push_ops_def alert_defs split: if_splits)
next
  case (enter c i t)
  then have "one_thread (sched c) \<Longrightarrow> tsum inside c = 0" using idle_numbers by blast
  then show ?case
    by (intro alert_moved [OF enter.prems(2) enter.hyps(1)]) (simp_all add: number_defs alert_entered)
next
  case (shutdown_call c s os)
  then have "alert (sched c) 0 0 0 0" using idle_numbers [of c] by (simp add: alert_config_def)
  then have "alert s 0 0 0 0" using shutdown_call.hyps(2) by (auto simp: sched_shutdown_def alert_defs)
  moreover have "tsum f (c\<lparr>sched := s, destroyed := destroyed c + mset os, external := external c + length (filter cnt os)\<rparr>) =
      tsum f c" for f :: "'a tstate \<Rightarrow> nat" by (simp add: tsum_def)
  ultimately show ?case using idle_numbers [OF shutdown_call.hyps(1)] by (simp add: alert_config_def)
next
  case (take_one c i t s a)
  then show ?case
    using alert_take [OF _ _ take_one.hyps(2) task_known [OF take_one.prems(1)]]
    by (intro alert_moved [OF take_one.prems(2) take_one.hyps(1)]) (auto simp: number_defs after_take_def split: taken.splits)
qed simp

section \<open>Interrupts reach the task\<close>

definition interrupted_ok :: "'o scheduler \<Rightarrow> 'o tstate \<Rightarrow> bool" where
  "interrupted_ok s x = (case pc x of In_task b n \<Rightarrow> n \<le> interrupts s \<and> (b \<and> task_interrupted s \<longrightarrow> n < interrupts s) | _ \<Rightarrow> True)"

definition interrupts_ok :: "'o config \<Rightarrow> bool" where
  "interrupts_ok c \<longleftrightarrow> (\<forall>x\<in>set (threads c). interrupted_ok (sched c) x)"

text \<open>The flag is only set together with an interrupt, except by the thread that is in the task itself.\<close>

definition flagged :: "'o scheduler \<Rightarrow> 'o scheduler \<Rightarrow> bool" where
  "flagged s r \<longleftrightarrow> interrupts s \<le> interrupts r \<and> (task_interrupted r \<longrightarrow> task_interrupted s \<or> interrupts s < interrupts r)"

lemma flagged_kept: "interrupted_ok s x \<Longrightarrow> flagged s r \<Longrightarrow> interrupted_ok r x"
  by (auto simp: interrupted_ok_def flagged_def split: pc.splits)

lemma flagged_refl: "interrupts r = interrupts s \<Longrightarrow> task_interrupted r = task_interrupted s \<Longrightarrow> flagged s r"
  by (simp add: flagged_def)

lemma flagged_ops: "flagged s (wake_one_thread_and_unlock s)" "flagged s (sched_stop s)" "flagged s (init_task s)"
  "flagged s (fst (post_deferred_completion op None s))"
  by (auto simp: flagged_def event_defs sched_stop_def stop_all_threads_def init_task_def post_deferred_completion_def push_ops_def Let_def)

lemma interrupts_moved:
  assumes "interrupts_ok c" and "threads d = threads c" and "flagged (sched c) (sched d)" and "interrupted_ok (sched d) \<lparr>pc = q, info = u\<rparr>"
  shows "interrupts_ok (set_thread i q u d)"
  using assms flagged_kept each_thread [of d "interrupted_ok (sched d)" d q u i] unfolding interrupts_ok_def by auto

lemma interrupts_kept:
  assumes "interrupts_ok c" and "threads d = threads c" and "flagged (sched c) (sched d)"
  shows "interrupts_ok d"
  using assms flagged_kept unfolding interrupts_ok_def by auto

text \<open>While the marker of the task is queued, or another thread has it, no thread is in the task.\<close>

lemma not_in_task:
  assumes "one_task c"
  shows "Task_operation \<in> set (sched_queue (sched c)) \<Longrightarrow> \<forall>x\<in>set (threads c). tasking x = 0"
    and "at_pc c i p t \<Longrightarrow> tasking \<lparr>pc = p, info = t\<rparr> = 1 \<Longrightarrow> \<forall>j<length (threads c). j \<noteq> i \<longrightarrow> tasking (threads c ! j) = 0"
proof -
  have o: "count_list (sched_queue (sched c)) Task_operation + tsum tasking c = of_bool (task (sched c))"
    using assms by (simp add: one_task_def)
  show "Task_operation \<in> set (sched_queue (sched c)) \<Longrightarrow> \<forall>x\<in>set (threads c). tasking x = 0"
    using o count_list_0_iff [of "sched_queue (sched c)" Task_operation] tsum_member [of _ c tasking]
    by (fastforce simp: of_bool_def split: if_splits)
  show "at_pc c i p t \<Longrightarrow> tasking \<lparr>pc = p, info = t\<rparr> = 1 \<Longrightarrow> \<forall>j<length (threads c). j \<noteq> i \<longrightarrow> tasking (threads c ! j) = 0"
    using o tsum_two [of i c _ tasking] by (fastforce simp: at_pc_def of_bool_def simp del: tasking.simps split: if_splits)
qed

lemma not_tasking_ok: "tasking x = 0 \<Longrightarrow> interrupted_ok s x"
  by (auto simp: interrupted_ok_def split: pc.splits)

lemma interrupts_fresh:
  assumes "\<forall>j<length (threads c). j \<noteq> i \<longrightarrow> tasking (threads c ! j) = 0" and "threads d = threads c"
    and "interrupted_ok (sched d) \<lparr>pc = q, info = u\<rparr>"
  shows "interrupts_ok (set_thread i q u d)"
  unfolding interrupts_ok_def
proof
  fix x assume "x \<in> set (threads (set_thread i q u d))"
  then obtain j where "j < length (threads c)" "x = (if j = i then \<lparr>pc = q, info = u\<rparr> else threads c ! j)"
    using assms(2) by (auto simp: set_thread_def in_set_conv_nth nth_list_update split: if_splits)
  then show "interrupted_ok (sched (set_thread i q u d)) x" using assms not_tasking_ok by auto
qed

lemma take_flags:
  assumes "run_one_take s = (s1, k)"
  shows "\<forall>b. k \<noteq> Run_task b \<Longrightarrow> flagged s (take_sched s)"
    and "k = Run_task b \<Longrightarrow> task_interrupted (take_sched s) = (\<not> b) \<and> interrupts (take_sched s) = interrupts s1"
proof -
  show "\<forall>b. k \<noteq> Run_task b \<Longrightarrow> flagged s (take_sched s)"
    using assms by (auto simp: run_one_take_def take_sched_def flagged_def event_wait_def event_defs unset_bit_0 Let_def
      split: if_splits list.splits item.splits)
  show "k = Run_task b \<Longrightarrow> task_interrupted (take_sched s) = (\<not> b) \<and> interrupts (take_sched s) = interrupts s1"
    using assms by (auto simp: run_one_take_def take_sched_def unlock_and_signal_one_def cond_signal_def Let_def
      split: if_splits list.splits item.splits)
qed

lemma interrupts_step: "thread_step cnt leave c d \<Longrightarrow> one_task c \<Longrightarrow> interrupts_ok c \<Longrightarrow> interrupts_ok d"
proof (induction rule: thread_step.induct)
  case start_work
  then show ?case by (intro interrupts_kept [OF start_work.prems(2)]) (auto simp: sched_defs event_wait_def woken_up_def event_awake_def Let_def intro!: flagged_refl split: if_splits)
next
  case finish_work
  then show ?case by (intro interrupts_kept [OF finish_work.prems(2)]) (auto simp: sched_defs event_wait_def woken_up_def event_awake_def Let_def intro!: flagged_refl split: if_splits)
next
  case stop_due
  then show ?case by (intro interrupts_kept [OF stop_due.prems(2)]) (simp_all add: flagged_ops)
next
  case stop_call
  then show ?case by (intro interrupts_kept [OF stop_call.prems(2)]) (simp_all add: flagged_ops)
next
  case restart_call
  then show ?case by (intro interrupts_kept [OF restart_call.prems(2)]) (auto simp: sched_defs event_wait_def woken_up_def event_awake_def Let_def intro!: flagged_refl split: if_splits)
next
  case init_call
  then show ?case by (intro interrupts_kept [OF init_call.prems(2)]) (simp_all add: flagged_ops)
next
  case shutdown_call
  then show ?case by (intro interrupts_kept [OF shutdown_call.prems(2)]) (auto simp: sched_defs event_wait_def woken_up_def event_awake_def Let_def intro!: flagged_refl split: if_splits)
next
  case post_public
  then show ?case by (intro interrupts_kept [OF post_public.prems(2)]) (simp_all add: flagged_ops)
next
  case enter_none
  then show ?case by (intro interrupts_kept [OF enter_none.prems(2)]) (auto simp: sched_defs event_wait_def woken_up_def event_awake_def Let_def intro!: flagged_refl split: if_splits)
next
  case wake_again
  then show ?case by (intro interrupts_kept [OF wake_again.prems(2)]) (auto simp: sched_defs event_wait_def woken_up_def event_awake_def Let_def intro!: flagged_refl split: if_splits)
next
  case post_private
  then show ?case by (intro interrupts_moved [OF post_private.prems(2)]) (auto simp: sched_defs interrupted_ok_def woken_up_def event_awake_def Let_def intro!: flagged_refl split: if_splits)
next
  case defer_private
  then show ?case by (intro interrupts_moved [OF defer_private.prems(2)]) (auto simp: sched_defs interrupted_ok_def woken_up_def event_awake_def Let_def intro!: flagged_refl split: if_splits)
next
  case (task_event c i b n t op)
  then have "interrupted_ok (sched c) \<lparr>pc = In_task b n, info = t\<rparr>" using at_pcD unfolding interrupts_ok_def by blast
  then show ?case by (intro interrupts_moved [OF task_event.prems(2)]) (auto simp: interrupted_ok_def flagged_refl)
next
  case adopt
  then show ?case by (intro interrupts_moved [OF adopt.prems(2)]) (auto simp: sched_defs interrupted_ok_def woken_up_def event_awake_def Let_def intro!: flagged_refl split: if_splits)
next
  case compensate
  then show ?case by (intro interrupts_moved [OF compensate.prems(2)]) (auto simp: sched_defs interrupted_ok_def woken_up_def event_awake_def Let_def intro!: flagged_refl split: if_splits)
next
  case enter
  then show ?case by (intro interrupts_moved [OF enter.prems(2)]) (auto simp: sched_defs interrupted_ok_def woken_up_def event_awake_def Let_def intro!: flagged_refl split: if_splits)
next
  case wake_up
  then show ?case by (intro interrupts_moved [OF wake_up.prems(2)]) (auto simp: sched_defs interrupted_ok_def woken_up_def event_awake_def Let_def intro!: flagged_refl split: if_splits)
next
  case task_return
  then show ?case by (intro interrupts_moved [OF task_return.prems(2)]) (auto simp: sched_defs interrupted_ok_def woken_up_def event_awake_def Let_def intro!: flagged_refl split: if_splits)
next
  case op_return
  then show ?case by (intro interrupts_moved [OF op_return.prems(2)]) (auto simp: sched_defs interrupted_ok_def woken_up_def event_awake_def Let_def intro!: flagged_refl split: if_splits)
next
  case op_stop
  then show ?case by (intro interrupts_moved [OF op_stop.prems(2)]) (auto simp: flagged_ops interrupted_ok_def)
next
  case op_requeue
  then show ?case by (intro interrupts_moved [OF op_requeue.prems(2)]) (auto simp: sched_defs interrupted_ok_def woken_up_def event_awake_def Let_def intro!: flagged_refl split: if_splits)
next
  case op_leave
  then show ?case by (intro interrupts_moved [OF op_leave.prems(2)]) (auto simp: sched_defs interrupted_ok_def woken_up_def event_awake_def Let_def intro!: flagged_refl split: if_splits)
next
  case (task_requeue c i t s t1)
  then have "\<forall>j<length (threads c). j \<noteq> i \<longrightarrow> tasking (threads c ! j) = 0" using not_in_task(2) [OF task_requeue.prems(1)] by simp
  then show ?case by (rule interrupts_fresh) (simp_all add: interrupted_ok_def)
next
  case (take_one c i t s a)
  show ?case
  proof (cases "\<exists>b. a = Run_task b")
    case True
    then have "Task_operation \<in> set (sched_queue (sched c))" using take_queue(4) take_one.hyps(2) by (metis list.set_sel(1))
    then have "\<forall>j<length (threads c). j \<noteq> i \<longrightarrow> tasking (threads c ! j) = 0"
      using not_in_task(1) [OF take_one.prems(1)] nth_mem by blast
    then show ?thesis using True take_flags(2) [OF take_one.hyps(2)] by (intro interrupts_fresh) (auto simp: interrupted_ok_def after_take_def)
  next
    case False
    then show ?thesis using take_flags(1) [OF take_one.hyps(2)]
      by (intro interrupts_moved [OF take_one.prems(2)]) (auto simp: interrupted_ok_def after_take_def split: taken.splits)
  qed
qed

section \<open>No wake-up is lost\<close>

lemma reaches_alert: "reaches cnt False one n c \<Longrightarrow> alert_config c"
proof (induction rule: reaches.induct)
  case new
  have "tsum waiting (config_new one n :: 'a config) = 0 \<and> tsum blocking (config_new one n :: 'a config) = 0 \<and> tsum active (config_new one n :: 'a config) = 0 \<and>
      tsum inside (config_new one n :: 'a config) = 0" by (intro conjI tsum_new) (simp_all add: number_defs)
  moreover have "alert (sched (config_new one n :: 'a config)) 0 0 0 0" by (simp add: config_new_def sched_new_def alert_defs)
  ultimately show ?case by (simp add: alert_config_def)
qed (blast intro: alert_step reaches_one_task)

lemma reaches_interrupts: "reaches cnt leave one n c \<Longrightarrow> interrupts_ok c"
proof (induction rule: reaches.induct)
  case new
  show ?case by (auto simp: interrupts_ok_def config_new_def interrupted_ok_def)
qed (blast intro: interrupts_step reaches_one_task)

lemma positive_member: "0 < tsum f c \<Longrightarrow> \<exists>x\<in>set (threads c). 0 < (f x :: nat)"
proof -
  have "0 < sum_list (map f xs) \<Longrightarrow> \<exists>x\<in>set xs. 0 < f x" for xs by (induction xs) auto
  then show "0 < tsum f c \<Longrightarrow> \<exists>x\<in>set (threads c). 0 < f x" by (simp add: tsum_def)
qed

lemma blocked_interrupted:
  assumes "interrupts_ok c" and "task_interrupted (sched c)" and "y \<in> set (threads c)" and "pc y = In_task True k"
  shows "k < interrupts (sched c)"
  using assms by (fastforce simp: interrupts_ok_def interrupted_ok_def)

text \<open>
  C11. No wake-up is lost among threads that are in \<open>run\<close> and leave it only when the scheduler is stopped or finds no work, with no
  exception out of a handler, whatever the interleaving of the steps of theory \<open>AsioThreads\<close>: takes, posts, stops and spurious
  wake-ups. If anything is in the queue while a thread sleeps on the event or is blocked in the reactor, then some thread is about to look at the queue
  without waiting for a handler, or a signal has reached a sleeper and the event is set, so that it leaves its wait, or the
  reactor has been interrupted since the thread blocked in it. And when the scheduler is stopped, every sleeper has been
  reached by a signal, with the event set, and every thread blocked in the reactor has been interrupted.

  The restriction is needed: see \<open>leaving_loses_wakeup\<close> below for a thread that leaves after one operation.
\<close>

theorem no_lost_wakeup:
  assumes "reaches cnt False one n c" and x: "x \<in> set (threads c)"
  shows "(sched_queue (sched c) \<noteq> [] \<and> (pc x = Waiting \<or> pc x = In_task True k) \<longrightarrow>
      (\<exists>y\<in>set (threads c). pc y = At_loop \<or> pc y = Task_done \<or> (\<exists>z. pc y = Work_done z) \<or> (\<exists>j. pc y = In_task False j)) \<or>
      woken (sched c) > 0 \<and> odd (event_state (sched c)) \<and> (\<exists>y\<in>set (threads c). pc y = Waiting) \<or>
      (\<exists>y\<in>set (threads c). \<exists>j. pc y = In_task True j \<and> j < interrupts (sched c))) \<and>
    (stopped (sched c) \<longrightarrow>
      (pc x = Waiting \<longrightarrow> woken (sched c) = tsum waiting c \<and> odd (event_state (sched c))) \<and>
      (pc x = In_task True k \<longrightarrow> k < interrupts (sched c)))" (is "(?q \<longrightarrow> ?a) \<and> ?b")
proof -
  have al: "alert (sched c) (tsum waiting c) (tsum blocking c) (tsum active c) (tsum inside c)"
    using reaches_alert [OF assms(1)] by (simp add: alert_config_def)
  have ii: "interrupts_ok c" using reaches_interrupts [OF assms(1)] .
  have w: "pc x = Waiting \<Longrightarrow> x \<in> set (threads c) \<Longrightarrow> 0 < tsum waiting c" for x
    using tsum_member [of x c waiting] by (simp add: waiting_def)
  have b: "pc x = In_task True k \<Longrightarrow> x \<in> set (threads c) \<Longrightarrow> 0 < tsum blocking c" for x k
    using tsum_member [of x c blocking] by (simp add: blocking_def)
  have ?a if q: ?q
  proof -
    have "0 < tsum waiting c + tsum blocking c" using q x w b by fastforce
    then consider "0 < tsum active c" | "0 < woken (sched c)" "odd (event_state (sched c))"
      | "0 < tsum blocking c" "task_interrupted (sched c)"
      using al q unfolding alert_def answered_def by satx
    then show ?thesis
    proof cases
      case 1
      from positive_member [OF this] obtain y where y: "y \<in> set (threads c)" "0 < active y" by blast
      then have "pc y = At_loop \<or> pc y = Task_done \<or> (\<exists>z. pc y = Work_done z) \<or> (\<exists>j. pc y = In_task False j)"
        by (cases "pc y") (auto simp: active_def)
      then show ?thesis using y(1) by blast
    next
      case 2
      then have "0 < tsum waiting c" using al by (auto simp: alert_def steady_def)
      from positive_member [OF this] show ?thesis using 2 by (auto simp: waiting_def)
    next
      case 3
      from positive_member [OF 3(1)] obtain y where y: "y \<in> set (threads c)" "0 < blocking y" by blast
      moreover from y(2) obtain j where "pc y = In_task True j" by (cases "pc y") (auto simp: blocking_def)
      ultimately have "y \<in> set (threads c)" "pc y = In_task True j" by blast+
      then show ?thesis using blocked_interrupted [OF ii 3(2)] by blast
    qed
  qed
  moreover have ?b
    using al x w [of x] b [of x k] blocked_interrupted [OF ii, of x k] unfolding alert_def steady_def by auto
  ultimately show ?thesis by blast
qed

theorem no_lost_wakeup_witness:
  "woken (sched (one_thread_config ((sched_new False True)\<lparr>outstanding_work := 1, sched_queue := [Operation 7],
     event_state := 3, woken := 1\<rparr>) Waiting 0 [7] [])) > 0"
  using no_lost_wakeup [OF asleep_run, of "\<lparr>pc = Waiting, info = thread_new\<rparr>" 0] by (simp add: one_defs)

section \<open>A thread that leaves after one operation\<close>

text \<open>
  A thread in \<^verbatim>\<open>run_one\<close> (or one whose handler throws) gives back its private queue without a signal. Two threads: the first takes an
  operation, the second finds nothing and sleeps, the first posts a continuation to its private queue and leaves. The operation is
  in the queue, the second thread sleeps, no signal is under way, and nobody is inside to look at the queue.
\<close>

definition two_threads :: "nat scheduler \<Rightarrow> nat pc \<Rightarrow> nat thread_info \<Rightarrow> nat pc \<Rightarrow> nat \<Rightarrow> nat list \<Rightarrow> nat list \<Rightarrow> nat config" where
  "two_threads s p t q ext pst cmp = \<lparr>sched = s, threads = [\<lparr>pc = p, info = t\<rparr>, \<lparr>pc = q, info = thread_new\<rparr>], external = ext, due = 0,
     posted = mset pst, completed = mset cmp, destroyed = {#}\<rparr>"

lemmas two_defs = two_threads_def sched_new_def set_thread_def at_pc_def

abbreviation two_sched :: "nat item list \<Rightarrow> nat \<Rightarrow> nat scheduler" where
  "two_sched q e \<equiv> (sched_new False True)\<lparr>outstanding_work := 1, sched_queue := q, event_state := e\<rparr>"

lemma two_entered: "reaches (\<lambda>_. True) True False 2 (two_threads (two_sched [Operation 7] 1) At_loop thread_new At_loop 0 [7] [])"
proof -
  have "reaches (\<lambda>_. True) True False 2 (config_new False 2 :: nat config)" by (rule reaches.new)
  from reaches.step [OF this thread_step.start_work]
  have "reaches (\<lambda>_. True) True False 2 (two_threads ((sched_new False True)\<lparr>outstanding_work := 1\<rparr>) Idle thread_new Idle 1 [] [])"
    by (simp add: config_new_def two_defs work_started_def numeral_2_eq_2)
  from reaches.step [OF this thread_step.post_public [of _ 7]]
  have "reaches (\<lambda>_. True) True False 2 (two_threads (two_sched [Operation 7] 1) Idle thread_new Idle 0 [7] [])"
    by (simp add: two_defs post_deferred_completion_def push_ops_def event_defs Let_def set_bit_0)
  from reaches.step [OF this thread_step.enter [of _ 0]]
  have "reaches (\<lambda>_. True) True False 2 (two_threads (two_sched [Operation 7] 1) At_loop thread_new Idle 0 [7] [])"
    by (simp add: two_defs)
  from reaches.step [OF this thread_step.enter [of _ 1]] show ?thesis by (simp add: two_defs)
qed

lemma two_asleep: "reaches (\<lambda>_. True) True False 2 (two_threads (two_sched [] 2) (Completing 7 Own_unit) thread_new Waiting 0 [7] [])"
proof -
  from reaches_take [OF two_entered, of 0 thread_new]
  have "reaches (\<lambda>_. True) True False 2 (two_threads (two_sched [] 1) (Completing 7 Own_unit) thread_new At_loop 0 [7] [])"
    by (simp add: two_defs run_one_take_def take_sched_def after_take_def)
  from reaches_take [OF this, of 1 thread_new] show ?thesis
    by (simp add: two_defs run_one_take_def take_sched_def after_take_def event_clear_def event_wait_def unset_bit_0 numeral_2_eq_2)
qed

theorem leaving_loses_wakeup:
  "\<exists>c :: nat config. reaches (\<lambda>_. True) True False 2 c \<and> sched_queue (sched c) = [Operation 8] \<and> woken (sched c) = 0 \<and> \<not> stopped (sched c) \<and>
     (\<forall>x\<in>set (threads c). pc x = Idle \<or> pc x = Waiting) \<and> (\<exists>x\<in>set (threads c). pc x = Waiting)"
proof (intro exI conjI)
  let ?t = "thread_new\<lparr>private_outstanding_work := 1, private_op_queue := [8 :: nat]\<rparr>"
  let ?u = "thread_new\<lparr>private_op_queue := [8 :: nat]\<rparr>"
  let ?c = "two_threads (two_sched [Operation 8] 2) Idle thread_new Waiting 0 [7, 8] [7]"
  from reaches.step [OF two_asleep thread_step.post_private [of _ 0 7 thread_new _ 8 True "two_sched [] 2" ?t]]
  have "reaches (\<lambda>_. True) True False 2 (two_threads (two_sched [] 2) (Completing 7 Own_unit) ?t Waiting 0 [7, 8] [])"
    by (simp add: two_defs post_immediate_completion_def thread_new_def add_mset_commute)
  from reaches_return [OF this, of 0 7 ?t]
  have "reaches (\<lambda>_. True) True False 2 (two_threads (two_sched [] 2) (Work_done False) ?u Waiting 0 [7, 8] [7])"
    by (simp add: two_defs work_cleanup_count_def thread_new_def)
  from reaches.step [OF this thread_step.op_leave [of _ _ 0 ?u "two_sched [Operation 8] 2" thread_new]]
  show "reaches (\<lambda>_. True) True False 2 ?c"
    by (simp add: two_defs work_cleanup_push_def push_ops_def thread_new_def)
qed (auto simp: two_defs)

end
