(* ===== verification/AsioReactor.thy ===== *)
theory AsioReactor
  imports AsioScheduler AsioSocket "HOL-Library.Sublist"
begin

unbundle bit_operations_syntax

text \<open>
  The reactor of asio on Linux (\<^verbatim>\<open>detail/epoll_reactor.hpp\<close>, \<^verbatim>\<open>detail/impl/epoll_reactor.ipp\<close>): the descriptors registered with epoll and the operations
  that wait on them. It hands completed operations to the scheduler of theory \<open>AsioScheduler\<close>. The
  function that tries an operation (\<open>perform\<close>) and the system calls \<^verbatim>\<open>epoll_ctl\<close> and \<^verbatim>\<open>epoll_wait\<close> are parameters over a
  state \<open>'w\<close> of the operating system; timers enter as the list of those that are ready.
\<close>

section \<open>State\<close>

datatype status = Not_done | Done | Done_and_exhausted

record 'x reactor_op =
  op_id :: nat
  op_ec :: error_code
  op_key :: nat
  op_bytes :: nat
  op_body :: 'x

text \<open>The kinds of operations are 0, 1 and 2, as in the code: read, write (or connect), except.\<close>

definition read_op :: nat where "read_op = 0"
definition write_op :: nat where "write_op = 1"
definition connect_op :: nat where "connect_op = 1"
definition except_op :: nat where "except_op = 2"
definition max_ops :: nat where "max_ops = 3"

lemmas op_type_defs = read_op_def write_op_def connect_op_def except_op_def max_ops_def

type_synonym events = "32 word"

definition EPOLLIN :: events where "EPOLLIN = 1"
definition EPOLLPRI :: events where "EPOLLPRI = 2"
definition EPOLLOUT :: events where "EPOLLOUT = 4"
definition EPOLLERR :: events where "EPOLLERR = 8"
definition EPOLLHUP :: events where "EPOLLHUP = 16"
definition EPOLLET :: events where "EPOLLET = 2147483648"

lemmas epoll_defs = EPOLLIN_def EPOLLPRI_def EPOLLOUT_def EPOLLERR_def EPOLLHUP_def EPOLLET_def

record 'x descriptor_state =
  descriptor :: int
  registered_events :: events
  ds_queue :: "nat \<Rightarrow> 'x reactor_op list"
  try_speculative :: "nat \<Rightarrow> bool"
  ds_shutdown :: bool
  ready_events :: events

text \<open>An operation of the scheduler is a completed operation or a descriptor with events to deal with.\<close>

datatype 'x sop = Rop "'x reactor_op" | Descriptor nat

record ('x, 'w) reactor =
  descs :: "nat \<Rightarrow> 'x descriptor_state option"
  sch :: "'x sop scheduler"
  thr :: "'x sop thread_info option"
  world :: 'w

datatype ctl_op = CTL_ADD | CTL_MOD | CTL_DEL

text \<open>The arguments of \<^verbatim>\<open>epoll_ctl\<close>: the operation, the descriptor's number, and the pointer and the events of \<^verbatim>\<open>ev\<close>.\<close>

type_synonym 'w ctl = "ctl_op \<Rightarrow> int \<Rightarrow> nat option \<Rightarrow> events \<Rightarrow> 'w \<Rightarrow> int \<times> 'w"
type_synonym ('x, 'w) perform = "'x reactor_op \<Rightarrow> 'w \<Rightarrow> status \<times> 'x reactor_op \<times> 'w"

definition asio_operation_aborted :: error_code where "asio_operation_aborted = sys_ec 125"
definition asio_operation_not_supported :: error_code where "asio_operation_not_supported = sys_ec 95"

definition EPERM :: int where "EPERM = 1"

section \<open>Handing over to the scheduler\<close>

definition post_now :: "'x reactor_op \<Rightarrow> bool \<Rightarrow> ('x, 'w) reactor \<Rightarrow> ('x, 'w) reactor" where
  "post_now op is_continuation r =
     (case post_immediate_completion (Rop op) is_continuation (thr r) (sch r) of (s, t) \<Rightarrow> r\<lparr>sch := s, thr := t\<rparr>)"

definition post_later :: "'x reactor_op list \<Rightarrow> ('x, 'w) reactor \<Rightarrow> ('x, 'w) reactor" where
  "post_later ops r = (case post_deferred_completions (map Rop ops) (thr r) (sch r) of (s, t) \<Rightarrow> r\<lparr>sch := s, thr := t\<rparr>)"

definition set_desc :: "nat \<Rightarrow> 'x descriptor_state \<Rightarrow> ('x, 'w) reactor \<Rightarrow> ('x, 'w) reactor" where
  "set_desc d ds r = r\<lparr>descs := (descs r)(d \<mapsto> ds)\<rparr>"

definition enqueue :: "nat \<Rightarrow> 'x reactor_op \<Rightarrow> 'x descriptor_state \<Rightarrow> 'x descriptor_state" where
  "enqueue j op ds = ds\<lparr>ds_queue := (ds_queue ds)(j := ds_queue ds j @ [op])\<rparr>"

section \<open>Registration\<close>

definition all_events :: events where
  "all_events = EPOLLIN OR EPOLLERR OR EPOLLHUP OR EPOLLPRI OR EPOLLET"

definition fresh_state :: "int \<Rightarrow> 'x descriptor_state" where
  "fresh_state fd = \<lparr>descriptor = fd, registered_events = all_events, ds_queue = (\<lambda>_. []), try_speculative = (\<lambda>_. True),
     ds_shutdown = False, ready_events = 0\<rparr>"

text \<open>\<open>d\<close> is the object the pool gives out. The result is zero or the error number.\<close>

definition register_descriptor :: "'w ctl \<Rightarrow> nat \<Rightarrow> int \<Rightarrow> ('x, 'w) reactor \<Rightarrow> int \<times> ('x, 'w) reactor" where
  "register_descriptor ctl d fd r =
     (let ds = fresh_state fd
      in case ctl CTL_ADD fd (Some d) all_events (world r) of (res, w) \<Rightarrow>
           let r1 = r\<lparr>world := w\<rparr>
           in if res \<noteq> 0
              then (if res = EPERM then (0, set_desc d (ds\<lparr>registered_events := 0\<rparr>) r1) else (res, set_desc d ds r1))
              else (0, set_desc d ds r1))"

definition register_internal_descriptor :: "'w ctl \<Rightarrow> nat \<Rightarrow> nat \<Rightarrow> int \<Rightarrow> 'x reactor_op \<Rightarrow> ('x, 'w) reactor \<Rightarrow> int \<times> ('x, 'w) reactor" where
  "register_internal_descriptor ctl op_type d fd op r =
     (case ctl CTL_ADD fd (Some d) all_events (world r) of (res, w) \<Rightarrow>
        (res, set_desc d (enqueue op_type op (fresh_state fd)) (r\<lparr>world := w\<rparr>)))"

section \<open>Starting an operation\<close>

text \<open>
  \<open>start_op\<close>, in the parts of the code: the attempt at once, and what it takes for the operation to be queued. An attempt
  ends with the operation handed over (\<open>Inl\<close>), or goes on with the descriptor and the operation (\<open>Inr\<close>).
\<close>

definition queue_op :: "nat \<Rightarrow> nat \<Rightarrow> 'x reactor_op \<Rightarrow> 'x descriptor_state \<Rightarrow> ('x, 'w) reactor \<Rightarrow> ('x, 'w) reactor" where
  "queue_op op_type d op ds r = (let r1 = set_desc d (enqueue op_type op ds) r in r1\<lparr>sch := work_started (sch r1)\<rparr>)"

definition try_now :: "('x, 'w) perform \<Rightarrow> nat \<Rightarrow> nat \<Rightarrow> 'x reactor_op \<Rightarrow> bool \<Rightarrow> 'x descriptor_state \<Rightarrow> ('x, 'w) reactor \<Rightarrow>
    ('x, 'w) reactor + 'x reactor_op \<times> ('x, 'w) reactor" where
  "try_now perform op_type d op is_continuation ds r =
     (if try_speculative ds op_type then
        (case perform op (world r) of (status, op1, w) \<Rightarrow>
           let r1 = r\<lparr>world := w\<rparr>
           in case status of
                Not_done \<Rightarrow> Inr (op1, r1)
              | Done \<Rightarrow> Inl (post_now op1 is_continuation r1)
              | Done_and_exhausted \<Rightarrow>
                  Inl (post_now op1 is_continuation
                    (if registered_events ds \<noteq> 0 then set_desc d (ds\<lparr>try_speculative := (try_speculative ds)(op_type := False)\<rparr>) r1 else r1)))
      else Inr (op, r))"

definition start_op :: "('x, 'w) perform \<Rightarrow> 'w ctl \<Rightarrow> nat \<Rightarrow> int \<Rightarrow> nat option \<Rightarrow> 'x reactor_op \<Rightarrow> bool \<Rightarrow> bool \<Rightarrow>
    ('x, 'w) reactor \<Rightarrow> ('x, 'w) reactor" where
  "start_op perform ctl op_type fd descriptor_data op is_continuation allow_speculative r =
     (case descriptor_data of
        None \<Rightarrow> post_now (op\<lparr>op_ec := asio_bad_descriptor\<rparr>) is_continuation r
      | Some d \<Rightarrow>
          (case descs r d of
             None \<Rightarrow> r
           | Some ds \<Rightarrow>
               if ds_shutdown ds then post_now op is_continuation r
               else if ds_queue ds op_type = [] then
                 (if allow_speculative \<and> (op_type \<noteq> read_op \<or> ds_queue ds except_op = []) then
                    (case try_now perform op_type d op is_continuation ds r of
                       Inl r1 \<Rightarrow> r1
                     | Inr (op1, r1) \<Rightarrow>
                         if registered_events ds = 0
                         then post_now (op1\<lparr>op_ec := asio_operation_not_supported\<rparr>) is_continuation r1
                         else if op_type = write_op \<and> registered_events ds AND EPOLLOUT = 0 then
                           (case ctl CTL_MOD fd (Some d) (registered_events ds OR EPOLLOUT) (world r1) of (res, w) \<Rightarrow>
                              let r2 = r1\<lparr>world := w\<rparr>
                              in if res = 0
                                 then queue_op op_type d op1
                                        (ds\<lparr>registered_events := registered_events ds OR (registered_events ds OR EPOLLOUT)\<rparr>) r2
                                 else post_now (op1\<lparr>op_ec := sys_ec res\<rparr>) is_continuation r2)
                         else queue_op op_type d op1 ds r1)
                  else if registered_events ds = 0
                  then post_now (op\<lparr>op_ec := asio_operation_not_supported\<rparr>) is_continuation r
                  else
                    (let ds1 = (if op_type = write_op then ds\<lparr>registered_events := registered_events ds OR EPOLLOUT\<rparr> else ds)
                     in case ctl CTL_MOD fd (Some d) (registered_events ds1) (world r) of (_, w) \<Rightarrow>
                          queue_op op_type d op ds1 (r\<lparr>world := w\<rparr>)))
               else queue_op op_type d op ds r))"

section \<open>Cancelling and closing\<close>

definition abort_op :: "'x reactor_op \<Rightarrow> 'x reactor_op" where
  "abort_op op = op\<lparr>op_ec := asio_operation_aborted\<rparr>"

definition waiting_ops :: "'x descriptor_state \<Rightarrow> 'x reactor_op list" where
  "waiting_ops ds = concat (map (ds_queue ds) [0..<max_ops])"

definition no_ops :: "'x descriptor_state \<Rightarrow> 'x descriptor_state" where
  "no_ops ds = ds\<lparr>ds_queue := (\<lambda>j. if j < max_ops then [] else ds_queue ds j)\<rparr>"

definition cancel_ops :: "nat option \<Rightarrow> ('x, 'w) reactor \<Rightarrow> ('x, 'w) reactor" where
  "cancel_ops descriptor_data r =
     (case descriptor_data of
        None \<Rightarrow> r
      | Some d \<Rightarrow>
          (case descs r d of
             None \<Rightarrow> r
           | Some ds \<Rightarrow> post_later (map abort_op (waiting_ops ds)) (set_desc d (no_ops ds) r)))"

definition cancel_ops_by_key :: "nat option \<Rightarrow> nat \<Rightarrow> nat \<Rightarrow> ('x, 'w) reactor \<Rightarrow> ('x, 'w) reactor" where
  "cancel_ops_by_key descriptor_data op_type cancellation_key r =
     (case descriptor_data of
        None \<Rightarrow> r
      | Some d \<Rightarrow>
          (case descs r d of
             None \<Rightarrow> r
           | Some ds \<Rightarrow>
               (let (ops, other_ops) = partition (\<lambda>op. op_key op = cancellation_key) (ds_queue ds op_type)
                in post_later (map abort_op ops) (set_desc d (ds\<lparr>ds_queue := (ds_queue ds)(op_type := other_ops)\<rparr>) r))))"

text \<open>The result is the pointer to the descriptor's data as the caller has it afterwards.\<close>

definition deregister_descriptor :: "'w ctl \<Rightarrow> int \<Rightarrow> nat option \<Rightarrow> bool \<Rightarrow> ('x, 'w) reactor \<Rightarrow> nat option \<times> ('x, 'w) reactor" where
  "deregister_descriptor ctl fd descriptor_data closing r =
     (case descriptor_data of
        None \<Rightarrow> (None, r)
      | Some d \<Rightarrow>
          (case descs r d of
             None \<Rightarrow> (Some d, r)
           | Some ds \<Rightarrow>
               if \<not> ds_shutdown ds then
                 (let r1 = (if closing \<or> registered_events ds = 0 then r else r\<lparr>world := snd (ctl CTL_DEL fd None 0 (world r))\<rparr>)
                  in (Some d, post_later (map abort_op (waiting_ops ds))
                        (set_desc d ((no_ops ds)\<lparr>descriptor := - 1, ds_shutdown := True\<rparr>) r1)))
               else (None, r)))"

text \<open>An internal descriptor's operations are destroyed; they are the third component.\<close>

definition deregister_internal_descriptor :: "'w ctl \<Rightarrow> int \<Rightarrow> nat option \<Rightarrow> ('x, 'w) reactor \<Rightarrow>
    nat option \<times> ('x, 'w) reactor \<times> 'x reactor_op list" where
  "deregister_internal_descriptor ctl fd descriptor_data r =
     (case descriptor_data of
        None \<Rightarrow> (None, r, [])
      | Some d \<Rightarrow>
          (case descs r d of
             None \<Rightarrow> (Some d, r, [])
           | Some ds \<Rightarrow>
               if \<not> ds_shutdown ds then
                 (Some d, set_desc d ((no_ops ds)\<lparr>descriptor := - 1, ds_shutdown := True\<rparr>) (r\<lparr>world := snd (ctl CTL_DEL fd None 0 (world r))\<rparr>),
                  waiting_ops ds)
               else (None, r, [])))"

definition cleanup_descriptor_data :: "nat option \<Rightarrow> ('x, 'w) reactor \<Rightarrow> nat option \<times> ('x, 'w) reactor" where
  "cleanup_descriptor_data descriptor_data r =
     (case descriptor_data of None \<Rightarrow> (None, r) | Some d \<Rightarrow> (None, r\<lparr>descs := (descs r)(d := None)\<rparr>))"

section \<open>Events\<close>

text \<open>The loop over the operations of one kind: those completed, those left, and whether the last attempt used up the descriptor.\<close>

fun perform_queue :: "('x, 'w) perform \<Rightarrow> 'x reactor_op list \<Rightarrow> 'w \<Rightarrow> 'x reactor_op list \<times> 'x reactor_op list \<times> bool \<times> 'w" where
  "perform_queue perform [] w = ([], [], False, w)"
| "perform_queue perform (op # ops) w =
     (case perform op w of (status, op1, w1) \<Rightarrow>
        (case status of
           Not_done \<Rightarrow> ([], op1 # ops, False, w1)
         | Done \<Rightarrow> (case perform_queue perform ops w1 of (cs, rest, ex, w2) \<Rightarrow> (op1 # cs, rest, ex, w2))
         | Done_and_exhausted \<Rightarrow> ([op1], ops, True, w1)))"

definition flag :: "nat \<Rightarrow> events" where
  "flag j = (if j = 0 then EPOLLIN else if j = 1 then EPOLLOUT else EPOLLPRI)"

definition perform_type :: "('x, 'w) perform \<Rightarrow> events \<Rightarrow> nat \<Rightarrow> 'x descriptor_state \<times> 'x reactor_op list \<times> 'w \<Rightarrow>
    'x descriptor_state \<times> 'x reactor_op list \<times> 'w" where
  "perform_type perform evs j st =
     (case st of (ds, ops, w) \<Rightarrow>
        if evs AND (flag j OR EPOLLERR OR EPOLLHUP) \<noteq> 0 then
          (case perform_queue perform (ds_queue ds j) w of (cs, rest, exhausted, w1) \<Rightarrow>
             (ds\<lparr>ds_queue := (ds_queue ds)(j := rest), try_speculative := (try_speculative ds)(j := \<not> exhausted)\<rparr>, ops @ cs, w1))
        else (ds, ops, w))"

text \<open>
  \<open>perform_io\<close>: exception operations first, then writes, then reads. The first completed operation is the result, to be
  completed at once by the caller; the others are posted. Without one the thread compensates.
\<close>

definition perform_io :: "('x, 'w) perform \<Rightarrow> nat \<Rightarrow> events \<Rightarrow> ('x, 'w) reactor \<Rightarrow> 'x reactor_op option \<times> ('x, 'w) reactor" where
  "perform_io perform d evs r =
     (case descs r d of
        None \<Rightarrow> (None, r)
      | Some ds \<Rightarrow>
          (case fold (perform_type perform evs) (rev [0..<max_ops]) (ds, [], world r) of (ds1, ops, w) \<Rightarrow>
             let r1 = set_desc d ds1 (r\<lparr>world := w\<rparr>)
             in case ops of
                  [] \<Rightarrow> (None, r1\<lparr>thr := map_option compensating_work_started (thr r1)\<rparr>)
                | op # rest \<Rightarrow> (Some op, if rest \<noteq> [] then post_later rest r1 else r1)))"

definition do_complete :: "('x, 'w) perform \<Rightarrow> nat \<Rightarrow> ('x, 'w) reactor \<Rightarrow> 'x reactor_op option \<times> ('x, 'w) reactor" where
  "do_complete perform d r =
     perform_io perform d (case descs r d of None \<Rightarrow> 0 | Some ds \<Rightarrow> ready_events ds) r"

text \<open>\<open>run\<close>: the time to wait, an \<^verbatim>\<open>int\<close> to which the microseconds are converted, and what becomes of the events that epoll reports.\<close>

datatype epoll_ptr = Interrupter | Timer_fd | Desc nat

definition wait_timeout :: "bool \<Rightarrow> (int \<Rightarrow> int) \<Rightarrow> int \<Rightarrow> int" where
  "wait_timeout timer_fd wait_duration usec =
     (if usec = 0 then 0
      else let timeout = (if usec < 0 then - 1 else sint (word_of_int ((usec - 1) div 1000 + 1) :: 32 word))
           in if timer_fd then timeout
              else let max_msec = 5 * 60 * 1000
                   in wait_duration (if timeout < 0 \<or> max_msec < timeout then max_msec else timeout))"

definition dispatch_event :: "epoll_ptr \<times> events \<Rightarrow> 'x sop list \<times> (nat \<Rightarrow> 'x descriptor_state option) \<Rightarrow>
    'x sop list \<times> (nat \<Rightarrow> 'x descriptor_state option)" where
  "dispatch_event e st =
     (case (e, st) of ((p, evs), (ops, ds)) \<Rightarrow>
        (case p of
           Desc d \<Rightarrow>
             (if Descriptor d \<notin> set ops
              then (ops @ [Descriptor d], ds(d := map_option (\<lambda>x. x\<lparr>ready_events := evs\<rparr>) (ds d)))
              else (ops, ds(d := map_option (\<lambda>x. x\<lparr>ready_events := ready_events x OR evs\<rparr>) (ds d))))
         | _ \<Rightarrow> (ops, ds)))"

definition reactor_run :: "bool \<Rightarrow> (int \<Rightarrow> int) \<Rightarrow> (int \<Rightarrow> 'w \<Rightarrow> (epoll_ptr \<times> events) list \<times> 'w) \<Rightarrow> ('w \<Rightarrow> 'x reactor_op list \<times> 'w) \<Rightarrow>
    int \<Rightarrow> 'x sop list \<Rightarrow> ('x, 'w) reactor \<Rightarrow> 'x sop list \<times> ('x, 'w) reactor" where
  "reactor_run timer_fd wait_duration epoll_wait ready_timers usec ops r =
     (case epoll_wait (wait_timeout timer_fd wait_duration usec) (world r) of (evs, w) \<Rightarrow>
        (case fold dispatch_event evs (ops, descs r) of (ops1, ds1) \<Rightarrow>
           let check_timers = (\<not> timer_fd \<or> Timer_fd \<in> set (map fst evs))
           in if check_timers
              then (case ready_timers w of (ts, w1) \<Rightarrow> (ops1 @ map Rop ts, r\<lparr>descs := ds1, world := w1\<rparr>))
              else (ops1, r\<lparr>descs := ds1, world := w\<rparr>)))"

text \<open>Shutdown: the operations of the descriptors of the pool, in its order, are abandoned; they are the second component.\<close>

fun reactor_shutdown :: "nat list \<Rightarrow> ('x, 'w) reactor \<Rightarrow> ('x, 'w) reactor \<times> 'x reactor_op list" where
  "reactor_shutdown [] r = (r, [])"
| "reactor_shutdown (d # pool) r =
     (case descs r d of
        None \<Rightarrow> reactor_shutdown pool r
      | Some ds \<Rightarrow>
          (case reactor_shutdown pool (r\<lparr>descs := (descs r)(d := None)\<rparr>) of (r1, ops) \<Rightarrow> (r1, waiting_ops ds @ ops)))"

section \<open>Where the operations are\<close>

fun rop_ids :: "'x sop list \<Rightarrow> nat list" where
  "rop_ids [] = []"
| "rop_ids (Rop op # q) = op_id op # rop_ids q"
| "rop_ids (Descriptor _ # q) = rop_ids q"

lemma rop_ids_append [simp]: "rop_ids (p @ q) = rop_ids p @ rop_ids q"
  by (induction p rule: rop_ids.induct) auto

lemma rop_ids_map [simp]: "rop_ids (map Rop ops) = map op_id ops"
  by (induction ops) auto

lemma rop_ids_comp [simp]: "rop_ids (map (Rop \<circ> f) ops) = map (op_id \<circ> f) ops"
  by (induction ops) auto

text \<open>Handed to the scheduler; waiting on the descriptors; and the work counted for the calling thread's view.\<close>

definition handed :: "('x, 'w) reactor \<Rightarrow> nat multiset" where
  "handed r = mset (rop_ids (queued_ops (sched_queue (sch r)))) +
     (case thr r of None \<Rightarrow> {#} | Some t \<Rightarrow> mset (rop_ids (private_op_queue t)))"

definition held_by :: "'x descriptor_state option \<Rightarrow> nat multiset" where
  "held_by x = (case x of None \<Rightarrow> {#} | Some ds \<Rightarrow> mset (map op_id (waiting_ops ds)))"

definition pending_ids :: "('x, 'w) reactor \<Rightarrow> nat multiset" where
  "pending_ids r = (\<Sum>d\<in>dom (descs r). held_by (descs r d))"

definition total_work :: "('x, 'w) reactor \<Rightarrow> int" where
  "total_work r = outstanding_work (sch r) + (case thr r of None \<Rightarrow> 0 | Some t \<Rightarrow> private_outstanding_work t)"

lemma post_now_effect [simp]:
  "descs (post_now op c r) = descs r" "world (post_now op c r) = world r"
  "handed (post_now op c r) = handed r + {#op_id op#}" "total_work (post_now op c r) = total_work r + 1"
  by (auto simp: post_now_def post_immediate_completion_def Let_def handed_def total_work_def push_ops_def work_started_def
      split: option.splits)

lemma post_later_effect [simp]:
  "descs (post_later ops r) = descs r" "world (post_later ops r) = world r"
  "handed (post_later ops r) = handed r + mset (map op_id ops)" "total_work (post_later ops r) = total_work r"
  by (auto simp: post_later_def post_deferred_completions_def Let_def handed_def total_work_def push_ops_def
      split: option.splits prod.splits)

lemma set_desc_effect [simp]:
  "descs (set_desc d ds r) = (descs r)(d \<mapsto> ds)" "world (set_desc d ds r) = world r"
  "handed (set_desc d ds r) = handed r" "total_work (set_desc d ds r) = total_work r"
  by (simp_all add: set_desc_def handed_def total_work_def)

lemma world_effect [simp]:
  "handed (r\<lparr>world := w\<rparr>) = handed r" "total_work (r\<lparr>world := w\<rparr>) = total_work r" "pending_ids (r\<lparr>world := w\<rparr>) = pending_ids r"
  "handed (r\<lparr>descs := x\<rparr>) = handed r" "total_work (r\<lparr>descs := x\<rparr>) = total_work r"
  by (simp_all add: handed_def total_work_def pending_ids_def)

lemma pending_same: "descs r1 = descs r \<Longrightarrow> pending_ids r1 = pending_ids r"
  by (simp add: pending_ids_def)

lemma pending_post [simp]: "pending_ids (post_now op c r) = pending_ids r" "pending_ids (post_later ops r) = pending_ids r"
  by (rule pending_same, simp)+

lemma pending_set:
  assumes "finite (dom (descs r))"
  shows "pending_ids (set_desc d ds r) + held_by (descs r d) = pending_ids r + held_by (Some ds)"
proof -
  have d: "(\<Sum>x\<in>dom (descs r) - {d}. held_by (((descs r)(d \<mapsto> ds)) x)) = (\<Sum>x\<in>dom (descs r) - {d}. held_by (descs r x))"
    by (intro sum.cong) auto
  have "pending_ids (set_desc d ds r) = held_by (Some ds) + (\<Sum>x\<in>dom (descs r) - {d}. held_by (descs r x))"
    using assms d by (simp add: pending_ids_def sum.insert_remove)
  moreover have "pending_ids r = held_by (descs r d) + (\<Sum>x\<in>dom (descs r) - {d}. held_by (descs r x))"
  proof (cases "d \<in> dom (descs r)")
    case True
    then show ?thesis using assms by (simp add: pending_ids_def sum.remove)
  next
    case False
    then show ?thesis by (auto simp: pending_ids_def held_by_def domIff)
  qed
  ultimately show ?thesis by (simp add: ac_simps)
qed

lemma waiting_three: "waiting_ops ds = ds_queue ds 0 @ ds_queue ds 1 @ ds_queue ds 2"
  by (simp add: waiting_ops_def max_ops_def numeral_3_eq_3 numeral_2_eq_2)

lemma held_enqueue: "j < max_ops \<Longrightarrow> held_by (Some (enqueue j op ds)) = held_by (Some ds) + {#op_id op#}"
  by (auto simp: held_by_def waiting_three enqueue_def max_ops_def numeral_3_eq_3 less_Suc_eq numeral_2_eq_2)

lemma held_fields [simp]:
  "held_by (Some (ds\<lparr>registered_events := e\<rparr>)) = held_by (Some ds)" "held_by (Some (ds\<lparr>try_speculative := f\<rparr>)) = held_by (Some ds)"
  "held_by (Some (ds\<lparr>ready_events := e\<rparr>)) = held_by (Some ds)" "held_by (Some (fresh_state fd)) = {#}"
  "held_by (Some (no_ops ds)) = {#}" "held_by (Some ((no_ops ds)\<lparr>descriptor := k, ds_shutdown := True\<rparr>)) = {#}"
  by (simp_all add: held_by_def waiting_three fresh_state_def no_ops_def max_ops_def)

lemma held_replaced:
  assumes "j < max_ops"
  shows "held_by (Some (ds\<lparr>ds_queue := (ds_queue ds)(j := q)\<rparr>)) + mset (map op_id (ds_queue ds j)) =
    held_by (Some ds) + mset (map op_id q)"
  using assms by (auto simp: held_by_def waiting_three max_ops_def numeral_3_eq_3 less_Suc_eq numeral_2_eq_2)

definition in_system :: "('x, 'w) reactor \<Rightarrow> nat multiset" where
  "in_system r = pending_ids r + handed r"

text \<open>
  What the reactor relies on of an operation: trying it does not make another operation of it. Every function below keeps
  count of the operations and of the work under this contract only.
\<close>

locale performer =
  fixes perform :: "('x, 'w) perform"
  assumes keeps_id: "perform op w = (st, op1, w1) \<Longrightarrow> op_id op1 = op_id op"
begin

lemma queue_op_balance:
  assumes "finite (dom (descs r))" and "descs r d = Some ds" and "j < max_ops" and "held_by (Some ds1) = held_by (Some ds)"
  shows "in_system (queue_op j d op ds1 r) = in_system r + {#op_id op#}" "total_work (queue_op j d op ds1 r) = total_work r + 1"
proof -
  have "pending_ids (set_desc d (enqueue j op ds1) r) + held_by (Some ds) = pending_ids r + (held_by (Some ds) + {#op_id op#})"
    using pending_set [OF assms(1), of d "enqueue j op ds1"] assms(2-4) by (simp add: held_enqueue)
  then have "pending_ids (set_desc d (enqueue j op ds1) r) = pending_ids r + {#op_id op#}" by simp
  then show "in_system (queue_op j d op ds1 r) = in_system r + {#op_id op#}" "total_work (queue_op j d op ds1 r) = total_work r + 1"
    by (simp_all add: queue_op_def Let_def in_system_def handed_def total_work_def work_started_def pending_ids_def set_desc_def)
qed

lemma set_balance:
  assumes "finite (dom (descs r))" and "descs r d = Some ds" and "held_by (Some ds1) = held_by (Some ds)"
  shows "in_system (set_desc d ds1 r) = in_system r"
  using pending_set [OF assms(1), of d ds1] assms(2,3) by (simp add: in_system_def)

lemma post_balance [simp]: "in_system (post_now op c r) = in_system r + {#op_id op#}" "in_system (r\<lparr>world := w\<rparr>) = in_system r"
  by (simp_all add: in_system_def)

lemma try_balance:
  assumes "finite (dom (descs r))" and "descs r d = Some ds"
  shows "try_now perform j d op c ds r = Inl r1 \<Longrightarrow> in_system r1 = in_system r + {#op_id op#} \<and> total_work r1 = total_work r + 1"
    and "try_now perform j d op c ds r = Inr (op1, r1) \<Longrightarrow>
      op_id op1 = op_id op \<and> in_system r1 = in_system r \<and> total_work r1 = total_work r \<and> descs r1 = descs r"
  using assms
  by (auto simp: try_now_def Let_def set_balance keeps_id split: if_splits prod.splits status.splits)

theorem start_balance:
  assumes "finite (dom (descs r))" and "\<And>d. p = Some d \<Longrightarrow> descs r d \<noteq> None" and "j < max_ops"
  shows "in_system (start_op perform ctl j fd p op c spec r) = in_system r + {#op_id op#} \<and>
    total_work (start_op perform ctl j fd p op c spec r) = total_work r + 1"
proof (cases p)
  case None
  then show ?thesis by (simp add: start_op_def)
next
  case (Some d)
  then obtain ds where ds: "descs r d = Some ds" using assms(2) by blast
  let ?r = "start_op perform ctl j fd p op c spec r"
  have q: "in_system (queue_op j d op1 ds1 r1) = in_system r1 + {#op_id op1#} \<and> total_work (queue_op j d op1 ds1 r1) = total_work r1 + 1"
    if "descs r1 = descs r" "held_by (Some ds1) = held_by (Some ds)" for op1 ds1 r1
    using queue_op_balance [of r1 d ds j ds1 op1] assms(1,3) ds that by simp
  consider "ds_shutdown ds \<or> ds_queue ds j \<noteq> []" | "\<not> ds_shutdown ds" "ds_queue ds j = []" "spec \<and> (j \<noteq> read_op \<or> ds_queue ds except_op = [])"
    | "\<not> ds_shutdown ds" "ds_queue ds j = []" "\<not> (spec \<and> (j \<noteq> read_op \<or> ds_queue ds except_op = []))" by blast
  then show ?thesis
  proof cases
    case 1
    then show ?thesis using Some ds q [of r ds op] by (auto simp: start_op_def)
  next
    case 2
    show ?thesis
    proof (cases "try_now perform j d op c ds r")
      case (Inl r1)
      then show ?thesis using Some ds 2 try_balance(1) [OF assms(1) ds Inl] by (simp add: start_op_def)
    next
      case (Inr z)
      obtain op1 r1 where z: "z = (op1, r1)" by force
      note t = try_balance(2) [OF assms(1) ds Inr [unfolded z]]
      obtain res w where c: "ctl CTL_MOD fd (Some d) (registered_events ds OR EPOLLOUT) (world r1) = (res, w)" by force
      show ?thesis
        using Some ds 2 Inr z t c q [of r1 ds op1]
          q [of "r1\<lparr>world := w\<rparr>" "ds\<lparr>registered_events := registered_events ds OR (registered_events ds OR EPOLLOUT)\<rparr>" op1]
        by (auto simp: start_op_def Let_def)
    qed
  next
    case 3
    let ?ds = "if j = write_op then ds\<lparr>registered_events := registered_events ds OR EPOLLOUT\<rparr> else ds"
    obtain res w where c: "ctl CTL_MOD fd (Some d) (registered_events ?ds) (world r) = (res, w)" by force
    show ?thesis using Some ds 3 c q [of "r\<lparr>world := w\<rparr>" ?ds op] by (auto simp: start_op_def Let_def)
  qed
qed

lemma perform_queue_ids: "perform_queue perform ops w = (cs, rest, ex, w1) \<Longrightarrow> map op_id cs @ map op_id rest = map op_id ops"
proof (induction ops arbitrary: w cs rest ex w1)
  case (Cons op ops)
  then show ?case using keeps_id by (fastforce split: prod.splits status.splits)
qed simp

lemma perform_type_ids:
  assumes "j < max_ops" and "perform_type perform evs j (ds, ops, w) = (ds1, ops1, w1)"
  shows "mset (map op_id ops1) + held_by (Some ds1) = mset (map op_id ops) + held_by (Some ds)"
proof (cases "evs AND (flag j OR EPOLLERR OR EPOLLHUP) = 0")
  case True
  then show ?thesis using assms by (simp add: perform_type_def)
next
  case False
  obtain cs rest ex w2 where q: "perform_queue perform (ds_queue ds j) w = (cs, rest, ex, w2)" by (metis prod_cases4)
  have "mset (map op_id cs) + mset (map op_id rest) = mset (map op_id (ds_queue ds j))"
    using perform_queue_ids [OF q] by (metis mset_append)
  then have "held_by (Some (ds\<lparr>ds_queue := (ds_queue ds)(j := rest)\<rparr>)) + mset (map op_id cs) + mset (map op_id rest) =
      held_by (Some ds) + mset (map op_id rest)" using held_replaced [OF assms(1), of ds rest] by (simp only: add.assoc)
  then have "held_by (Some (ds\<lparr>ds_queue := (ds_queue ds)(j := rest)\<rparr>)) + mset (map op_id cs) = held_by (Some ds)"
    by (rule add_right_imp_eq)
  moreover have "ds1 = ds\<lparr>ds_queue := (ds_queue ds)(j := rest), try_speculative := (try_speculative ds)(j := \<not> ex)\<rparr>" "ops1 = ops @ cs"
    using False q assms(2) by (simp_all add: perform_type_def)
  moreover have "held_by (Some (ds\<lparr>ds_queue := (ds_queue ds)(j := rest), try_speculative := (try_speculative ds)(j := \<not> ex)\<rparr>)) =
      held_by (Some (ds\<lparr>ds_queue := (ds_queue ds)(j := rest)\<rparr>))" by (simp add: held_by_def waiting_three)
  ultimately show ?thesis by (simp add: ac_simps)
qed

lemma types_down: "rev [0..<max_ops] = [2, 1, 0]"
  by (simp add: max_ops_def numeral_3_eq_3 numeral_2_eq_2)

lemma perform_all_ids:
  assumes "fold (perform_type perform evs) (rev [0..<max_ops]) (ds, [], w) = (ds1, ops, w1)"
  shows "mset (map op_id ops) + held_by (Some ds1) = held_by (Some ds)"
proof -
  have "mset (map op_id ops) + held_by (Some ds1) = mset (map op_id ops0) + held_by (Some ds)"
    if "fold (perform_type perform evs) js (ds, ops0, w) = (ds1, ops, w1)" "\<forall>j\<in>set js. j < max_ops" for js ops0
    using that
  proof (induction js arbitrary: ds ops0 w)
    case (Cons j js)
    obtain ds2 ops2 w2 where t: "perform_type perform evs j (ds, ops0, w) = (ds2, ops2, w2)" by (metis prod_cases3)
    then show ?case using Cons perform_type_ids [OF _ t] by simp
  qed simp
  from this [OF assms] show ?thesis by simp
qed

theorem perform_io_balance:
  assumes "finite (dom (descs r))" and "descs r d = Some ds" and "perform_io perform d evs r = (res, r1)"
  shows "in_system r1 + (case res of None \<Rightarrow> {#} | Some op \<Rightarrow> {#op_id op#}) = in_system r"
    and "total_work r1 = total_work r + (if res = None \<and> thr r \<noteq> None then 1 else 0)"
proof -
  obtain ds1 ops w where f: "fold (perform_type perform evs) (rev [0..<max_ops]) (ds, [], world r) = (ds1, ops, w)" by (metis prod_cases3)
  let ?r = "set_desc d ds1 (r\<lparr>world := w\<rparr>)"
  have "pending_ids ?r + (mset (map op_id ops) + held_by (Some ds1)) = pending_ids r + held_by (Some ds1)"
    using pending_set [of "r\<lparr>world := w\<rparr>" d ds1] assms(1,2) unfolding perform_all_ids [OF f] by simp
  then have p: "pending_ids ?r + mset (map op_id ops) = pending_ids r" by (simp only: add.assoc [symmetric] add_right_cancel)
  show "in_system r1 + (case res of None \<Rightarrow> {#} | Some op \<Rightarrow> {#op_id op#}) = in_system r"
  proof (cases ops)
    case Nil
    have "in_system (?r\<lparr>thr := map_option compensating_work_started (thr ?r)\<rparr>) = in_system ?r"
      by (auto simp: in_system_def handed_def pending_ids_def compensating_work_started_def split: option.splits)
    then show ?thesis using assms(2,3) f Nil p by (auto simp: perform_io_def Let_def in_system_def)
  next
    case (Cons op rest)
    then show ?thesis using assms(2,3) f p by (auto simp: perform_io_def Let_def in_system_def)
  qed
  show "total_work r1 = total_work r + (if res = None \<and> thr r \<noteq> None then 1 else 0)"
    using assms(2,3) f by (cases ops; cases "thr r")
      (auto simp: perform_io_def Let_def total_work_def set_desc_def compensating_work_started_def post_later_def
        post_deferred_completions_def push_ops_def split: if_splits)
qed

end

text \<open>Cancelling and closing do not try operations.\<close>

lemma cancel_balance:
  assumes "finite (dom (descs r))"
  shows "in_system (cancel_ops p r) = in_system r" "total_work (cancel_ops p r) = total_work r"
proof -
  have "pending_ids (set_desc d (no_ops ds) r) + mset (map op_id (waiting_ops ds)) = pending_ids r" if "descs r d = Some ds" for d ds
    using pending_set [OF assms, of d "no_ops ds"] that by (simp add: held_by_def no_ops_def waiting_three max_ops_def)
  then show "in_system (cancel_ops p r) = in_system r" "total_work (cancel_ops p r) = total_work r"
    by (auto simp: cancel_ops_def in_system_def abort_op_def comp_def ac_simps image_mset.compositionality split: option.splits)
qed

lemma key_balance:
  assumes "finite (dom (descs r))" and "j < max_ops"
  shows "in_system (cancel_ops_by_key p j k r) = in_system r" "total_work (cancel_ops_by_key p j k r) = total_work r"
proof -
  have "pending_ids (set_desc d (ds\<lparr>ds_queue := (ds_queue ds)(j := filter (\<lambda>op. op_key op \<noteq> k) (ds_queue ds j))\<rparr>) r) +
      mset (map op_id (filter (\<lambda>op. op_key op = k) (ds_queue ds j))) = pending_ids r" (is "?p + ?a = _") if ds: "descs r d = Some ds" for d ds
  proof -
    let ?b = "mset (map op_id (filter (\<lambda>op. op_key op \<noteq> k) (ds_queue ds j)))"
    let ?h = "held_by (Some (ds\<lparr>ds_queue := (ds_queue ds)(j := filter (\<lambda>op. op_key op \<noteq> k) (ds_queue ds j))\<rparr>))"
    have "mset (map op_id (ds_queue ds j)) = ?a + ?b"
      by (simp add: image_mset_union [symmetric] multiset_partition [symmetric])
    then have "?h + ?a + ?b = held_by (Some ds) + ?b"
      using held_replaced [OF assms(2), of ds "filter (\<lambda>op. op_key op \<noteq> k) (ds_queue ds j)"] by (simp only: add.assoc)
    then have h: "held_by (Some ds) = ?h + ?a" by (simp only: add_right_cancel)
    have "?p + held_by (Some ds) = pending_ids r + ?h" using pending_set [OF assms(1), of d] ds by simp
    then have "?p + ?a + ?h = pending_ids r + ?h" unfolding h by (simp add: ac_simps)
    then show ?thesis by (simp only: add_right_cancel)
  qed
  then show "in_system (cancel_ops_by_key p j k r) = in_system r" "total_work (cancel_ops_by_key p j k r) = total_work r"
    by (auto simp: cancel_ops_by_key_def in_system_def abort_op_def comp_def ac_simps split: option.splits)
qed

lemma deregister_balance:
  assumes "finite (dom (descs r))"
  shows "in_system (snd (deregister_descriptor ctl fd p closing r)) = in_system r"
    "total_work (snd (deregister_descriptor ctl fd p closing r)) = total_work r"
proof -
  have "pending_ids (set_desc d ((no_ops ds)\<lparr>descriptor := - 1, ds_shutdown := True\<rparr>) r1) + mset (map op_id (waiting_ops ds)) = pending_ids r"
    if "descs r d = Some ds" "descs r1 = descs r" for d ds r1
    using pending_set [of r1 d "(no_ops ds)\<lparr>descriptor := - 1, ds_shutdown := True\<rparr>"] that assms pending_same [of r1 r]
    by (simp add: held_by_def no_ops_def waiting_three max_ops_def)
  then show "in_system (snd (deregister_descriptor ctl fd p closing r)) = in_system r"
    "total_work (snd (deregister_descriptor ctl fd p closing r)) = total_work r"
    by (auto simp: deregister_descriptor_def in_system_def abort_op_def comp_def ac_simps Let_def split: option.splits)
qed

section \<open>No operation waits for an event that is not asked for\<close>

text \<open>A descriptor on which an operation waits is open and registered for the event of that operation.\<close>

definition ds_ok :: "'x descriptor_state \<Rightarrow> bool" where
  "ds_ok ds \<longleftrightarrow>
     (\<forall>j<max_ops. ds_queue ds j \<noteq> [] \<longrightarrow> registered_events ds AND flag j \<noteq> 0 \<and> \<not> ds_shutdown ds) \<and>
     (registered_events ds \<noteq> 0 \<longrightarrow> registered_events ds AND EPOLLIN \<noteq> 0 \<and> registered_events ds AND EPOLLPRI \<noteq> 0)"

lemma event_bits:
  "(x :: events) AND EPOLLIN = 0 \<longleftrightarrow> \<not> bit x 0" "x AND EPOLLPRI = 0 \<longleftrightarrow> \<not> bit x 1" "x AND EPOLLOUT = 0 \<longleftrightarrow> \<not> bit x 2"
  using and_exp_eq_0_iff_not_bit [of x 0] and_exp_eq_0_iff_not_bit [of x 1] and_exp_eq_0_iff_not_bit [of x 2]
  by (simp_all add: epoll_defs)

lemma out_bits [simp]: "bit (EPOLLOUT :: events) 0 = False" "bit (EPOLLOUT :: events) 1 = False" "bit (EPOLLOUT :: events) 2 = True"
  "bit (EPOLLOUT :: events) (Suc 0) = False"
  by (simp_all add: EPOLLOUT_def bit_numeral_rec flip: numeral_2_eq_2)

lemma all_bits [simp]: "bit all_events 0" "bit all_events 1" "bit all_events (Suc 0)"
  by (simp_all add: all_events_def epoll_defs bit_simps)

lemma ds_ok_iff:
  "ds_ok ds \<longleftrightarrow>
     (ds_queue ds 0 \<noteq> [] \<longrightarrow> bit (registered_events ds) 0 \<and> \<not> ds_shutdown ds) \<and>
     (ds_queue ds 1 \<noteq> [] \<longrightarrow> bit (registered_events ds) 2 \<and> \<not> ds_shutdown ds) \<and>
     (ds_queue ds 2 \<noteq> [] \<longrightarrow> bit (registered_events ds) 1 \<and> \<not> ds_shutdown ds) \<and>
     (registered_events ds \<noteq> 0 \<longrightarrow> bit (registered_events ds) 0 \<and> bit (registered_events ds) 1)"
  by (auto simp: ds_ok_def max_ops_def numeral_3_eq_3 less_Suc_eq flag_def event_bits numeral_2_eq_2)

lemma ds_ok_fields [simp]: "ds_ok (ds\<lparr>try_speculative := f\<rparr>) = ds_ok ds" "ds_ok (ds\<lparr>ready_events := e\<rparr>) = ds_ok ds"
  by (simp_all add: ds_ok_def)

lemma ds_ok_shrunk: "ds_ok ds \<Longrightarrow> (q \<noteq> [] \<Longrightarrow> ds_queue ds j \<noteq> []) \<Longrightarrow> ds_ok (ds\<lparr>ds_queue := (ds_queue ds)(j := q)\<rparr>)"
  unfolding ds_ok_def by auto

definition registered_ok :: "('x, 'w) reactor \<Rightarrow> bool" where
  "registered_ok r \<longleftrightarrow> (\<forall>d ds. descs r d = Some ds \<longrightarrow> ds_ok ds)"

section \<open>Operations are tried in the order they were started\<close>

text \<open>
  A log of the operations that were tried with success, as part of the operating system's state. The order is stated on it:
  \<open>kind\<close> says on which descriptor and in which queue an operation is started.
\<close>

definition logging :: "('x, 'w) perform \<Rightarrow> ('x, 'w \<times> nat list) perform" where
  "logging perform op wl =
     (case wl of (w, log) \<Rightarrow>
        (case perform op w of (st, op1, w1) \<Rightarrow> (st, op1, (w1, if st = Not_done then log else log @ [op_id op]))))"

definition lift_ctl :: "'w ctl \<Rightarrow> ('w \<times> nat list) ctl" where
  "lift_ctl ctl a fd p e wl = (case wl of (w, log) \<Rightarrow> (case ctl a fd p e w of (res, w1) \<Rightarrow> (res, (w1, log))))"

definition queue_ids :: "('x, 'w) reactor \<Rightarrow> nat \<Rightarrow> nat \<Rightarrow> nat list" where
  "queue_ids r d j = (case descs r d of None \<Rightarrow> [] | Some ds \<Rightarrow> map op_id (ds_queue ds j))"

locale logged_performer = performer perform for perform :: "('x, 'w) perform" +
  fixes ctl :: "'w ctl" and seen :: "'w \<Rightarrow> nat list"
  assumes perform_seen: "perform op w = (st, op1, w1) \<Longrightarrow> seen w1 = (if st = Not_done then seen w else seen w @ [op_id op])"
    and ctl_seen: "ctl a fd p e w = (res, w1) \<Longrightarrow> seen w1 = seen w"
begin

text \<open>How a start ends: queued behind the others of its kind, with its event registered; or tried, at the front; or refused.\<close>

definition queued_as :: "nat \<Rightarrow> nat \<Rightarrow> 'x reactor_op \<Rightarrow> 'x descriptor_state \<Rightarrow> ('x, 'w) reactor \<Rightarrow> ('x, 'w) reactor \<Rightarrow> bool" where
  "queued_as j d op ds r r1 \<longleftrightarrow>
     (\<exists>op1 e. op_id op1 = op_id op \<and> descs r1 = (descs r)(d \<mapsto> enqueue j op1 (ds\<lparr>registered_events := e\<rparr>)) \<and>
        (e = registered_events ds \<or> e = registered_events ds OR EPOLLOUT) \<and> \<not> ds_shutdown ds \<and>
        (ds_queue ds j = [] \<longrightarrow> registered_events ds \<noteq> 0 \<and> (j = write_op \<longrightarrow> bit e 2))) \<and>
     seen (world r1) = seen (world r)"

definition tried_as :: "nat \<Rightarrow> nat \<Rightarrow> 'x reactor_op \<Rightarrow> 'x descriptor_state \<Rightarrow> ('x, 'w) reactor \<Rightarrow> ('x, 'w) reactor \<Rightarrow> bool" where
  "tried_as j d op ds r r1 \<longleftrightarrow>
     (\<exists>f. descs r1 = descs r \<or> descs r1 = (descs r)(d \<mapsto> ds\<lparr>try_speculative := f\<rparr>)) \<and>
     (seen (world r1) = seen (world r) \<or> ds_queue ds j = [] \<and> seen (world r1) = seen (world r) @ [op_id op])"

lemma try_shape:
  "try_now perform j d op c ds r = Inl r1 \<Longrightarrow> ds_queue ds j = [] \<Longrightarrow> tried_as j d op ds r r1"
  "try_now perform j d op c ds r = Inr (op1, r1) \<Longrightarrow>
     op_id op1 = op_id op \<and> descs r1 = descs r \<and> seen (world r1) = seen (world r)"
  by (auto simp: try_now_def tried_as_def Let_def keeps_id perform_seen split: if_splits prod.splits status.splits)

lemma queue_shape:
  assumes "op_id op1 = op_id op" and "descs r1 = descs r" and "seen (world r1) = seen (world r)" and "\<not> ds_shutdown ds"
    and "e = registered_events ds \<or> e = registered_events ds OR EPOLLOUT"
    and "ds_queue ds j = [] \<longrightarrow> registered_events ds \<noteq> 0 \<and> (j = write_op \<longrightarrow> bit e 2)"
  shows "queued_as j d op ds r (queue_op j d op1 (ds\<lparr>registered_events := e\<rparr>) r1)"
  using assms by (auto simp: queued_as_def queue_op_def Let_def set_desc_def)

lemma start_shape:
  assumes ds: "descs r d = Some ds"
  shows "queued_as j d op ds r (start_op perform ctl j fd (Some d) op c spec r) \<or>
    tried_as j d op ds r (start_op perform ctl j fd (Some d) op c spec r)"
proof -
  have same: "ds\<lparr>registered_events := registered_events ds\<rparr> = ds" by simp
  consider "ds_shutdown ds" | "\<not> ds_shutdown ds" "ds_queue ds j \<noteq> []"
    | "\<not> ds_shutdown ds" "ds_queue ds j = []" "spec \<and> (j \<noteq> read_op \<or> ds_queue ds except_op = [])"
    | "\<not> ds_shutdown ds" "ds_queue ds j = []" "\<not> (spec \<and> (j \<noteq> read_op \<or> ds_queue ds except_op = []))" by blast
  then show ?thesis
  proof cases
    case 1
    then show ?thesis using ds by (auto simp: start_op_def tried_as_def)
  next
    case 2
    then show ?thesis using ds queue_shape [of op op r r ds "registered_events ds" j d] by (simp add: start_op_def)
  next
    case 3
    show ?thesis
    proof (cases "try_now perform j d op c ds r")
      case (Inl r1)
      then show ?thesis using ds 3 try_shape(1) [OF Inl] by (simp add: start_op_def)
    next
      case (Inr z)
      obtain op1 r1 where z: "z = (op1, r1)" by force
      note t = try_shape(2) [OF Inr [unfolded z]]
      obtain res w where c: "ctl CTL_MOD fd (Some d) (registered_events ds OR EPOLLOUT) (world r1) = (res, w)" by force
      have w: "seen w = seen (world r1)" using ctl_seen [OF c] .
      have "registered_events ds OR (registered_events ds OR EPOLLOUT) = registered_events ds OR EPOLLOUT" by simp
      then show ?thesis
        using ds 3 Inr z t c w queue_shape [of op1 op r1 r ds "registered_events ds" j d]
          queue_shape [of op1 op "r1\<lparr>world := w\<rparr>" r ds "registered_events ds OR EPOLLOUT" j d]
        by (auto simp: start_op_def Let_def tried_as_def event_bits bit_or_iff)
    qed
  next
    case 4
    let ?e = "if j = write_op then registered_events ds OR EPOLLOUT else registered_events ds"
    obtain res w where c: "ctl CTL_MOD fd (Some d) ?e (world r) = (res, w)" by force
    have w: "seen w = seen (world r)" using ctl_seen [OF c] .
    show ?thesis
      using ds 4 c w queue_shape [of op op "r\<lparr>world := w\<rparr>" r ds ?e j d]
      by (auto simp: start_op_def Let_def tried_as_def bit_or_iff split: if_splits)
  qed
qed

end

definition of_kind :: "(nat \<Rightarrow> nat \<times> nat) \<Rightarrow> nat \<Rightarrow> nat \<Rightarrow> nat list \<Rightarrow> nat list" where
  "of_kind kind d j xs = filter (\<lambda>i. kind i = (d, j)) xs"

lemma of_kind_append [simp]: "of_kind kind d j (xs @ ys) = of_kind kind d j xs @ of_kind kind d j ys"
  by (simp add: of_kind_def)

lemma of_kind_all: "\<forall>i\<in>set xs. kind i = (d, j) \<Longrightarrow> of_kind kind e k xs = (if (e, k) = (d, j) then xs else [])"
  by (induction xs) (auto simp: of_kind_def)

text \<open>What was tried with success, followed by what waits, is part of what was started, in the same order.\<close>

definition in_order_of :: "(nat \<Rightarrow> nat \<times> nat) \<Rightarrow> nat list \<Rightarrow> nat list \<Rightarrow> (nat \<Rightarrow> nat \<Rightarrow> nat list) \<Rightarrow> bool" where
  "in_order_of kind st log q \<longleftrightarrow>
     (\<forall>d j. subseq (of_kind kind d j log @ q d j) (of_kind kind d j st) \<and> (\<forall>i\<in>set (q d j). kind i = (d, j)))"

lemma in_order_started:
  assumes "in_order_of kind st log q" and "kind a = (d, j)"
  shows "\<forall>e k. q1 e k = q e k \<Longrightarrow> in_order_of kind (st @ [a]) log q1"
    and "\<forall>e k. q1 e k = (if (e, k) = (d, j) then q d j @ [a] else q e k) \<Longrightarrow> in_order_of kind (st @ [a]) log q1"
    and "\<forall>e k. q1 e k = q e k \<Longrightarrow> q d j = [] \<Longrightarrow> in_order_of kind (st @ [a]) (log @ [a]) q1"
proof -
  have o: "of_kind kind e k [a] = (if (e, k) = (d, j) then [a] else [])" for e k
    using assms(2) by (auto simp: of_kind_def)
  have s: "subseq (of_kind kind e k log @ q e k) (of_kind kind e k st)" for e k using assms(1) by (simp add: in_order_of_def)
  have m: "\<forall>i\<in>set (q e k). kind i = (e, k)" for e k using assms(1) by (simp add: in_order_of_def)
  show "\<forall>e k. q1 e k = q e k \<Longrightarrow> in_order_of kind (st @ [a]) log q1"
    using s m by (auto simp: in_order_of_def intro: subseq_order.order_trans [OF s])
  show "\<forall>e k. q1 e k = (if (e, k) = (d, j) then q d j @ [a] else q e k) \<Longrightarrow> in_order_of kind (st @ [a]) log q1"
    using s m assms(2) o by (auto simp: in_order_of_def subseq_append simp flip: append_assoc)
  show "\<forall>e k. q1 e k = q e k \<Longrightarrow> q d j = [] \<Longrightarrow> in_order_of kind (st @ [a]) (log @ [a]) q1"
    using s [of d j] s m o by (auto simp: in_order_of_def subseq_append)
qed

lemma in_order_performed:
  assumes "in_order_of kind st log q" and "q d j = cs @ rest" and "\<forall>e k. q1 e k = (if (e, k) = (d, j) then rest else q e k)"
  shows "in_order_of kind st (log @ cs) q1"
proof -
  have "\<forall>i\<in>set cs. kind i = (d, j)" using assms(1,2) unfolding in_order_of_def by (metis UnCI set_append)
  then have "of_kind kind e k cs = (if (e, k) = (d, j) then cs else [])" for e k by (rule of_kind_all)
  then show ?thesis using assms unfolding in_order_of_def by (auto split: if_splits) (metis UnCI set_append)+
qed

lemma in_order_dropped:
  assumes "in_order_of kind st log q" and "\<forall>e k. subseq (q1 e k) (q e k)"
  shows "in_order_of kind st log q1"
proof -
  have "subseq (of_kind kind e k log @ q1 e k) (of_kind kind e k log @ q e k)" for e k
    using assms(2) by (intro list_emb_append_mono) auto
  moreover have "\<forall>i\<in>set (q1 e k). i \<in> set (q e k)" for e k
    using assms(2) by (auto elim!: list_emb_set [where P = "(=)"])
  ultimately show ?thesis using assms(1) subseq_order.order_trans unfolding in_order_of_def by blast
qed

context logged_performer
begin

lemma perform_queue_seen: "perform_queue perform ops w = (cs, rest, ex, w1) \<Longrightarrow> seen w1 = seen w @ map op_id cs"
proof (induction ops arbitrary: w cs rest ex w1)
  case (Cons op ops)
  then show ?case using perform_seen keeps_id by (fastforce split: prod.splits status.splits)
qed simp

text \<open>One pass over the operations of one kind of one descriptor: the invariants of that descriptor and the order are kept.\<close>

definition io_inv :: "(nat \<Rightarrow> nat \<times> nat) \<Rightarrow> nat list \<Rightarrow> nat \<Rightarrow> (nat \<Rightarrow> nat \<Rightarrow> nat list) \<Rightarrow> 'x descriptor_state \<times> 'x reactor_op list \<times> 'w \<Rightarrow> bool" where
  "io_inv kind st d q x =
     (case x of (ds, ops, w) \<Rightarrow> ds_ok ds \<and> in_order_of kind st (seen w) (q(d := \<lambda>j. map op_id (ds_queue ds j))))"

lemma perform_type_inv:
  assumes "io_inv kind st d q x" and "j < max_ops"
  shows "io_inv kind st d q (perform_type perform evs j x)"
proof -
  obtain ds ops w where x: "x = (ds, ops, w)" by (metis prod_cases3)
  show ?thesis
  proof (cases "evs AND (flag j OR EPOLLERR OR EPOLLHUP) = 0")
    case True
    then show ?thesis using assms x by (simp add: perform_type_def)
  next
    case False
    obtain cs rest ex w1 where p: "perform_queue perform (ds_queue ds j) w = (cs, rest, ex, w1)" by (metis prod_cases4)
    have ids: "map op_id (ds_queue ds j) = map op_id cs @ map op_id rest" using perform_queue_ids [OF p] by simp
    let ?ds = "ds\<lparr>ds_queue := (ds_queue ds)(j := rest), try_speculative := (try_speculative ds)(j := \<not> ex)\<rparr>"
    have e: "rest \<noteq> [] \<Longrightarrow> ds_queue ds j \<noteq> []" using ids by auto
    have "ds_ok ds" using assms(1) x by (simp add: io_inv_def)
    then have "ds_ok ?ds" using e unfolding ds_ok_def by auto
    moreover have "in_order_of kind st (seen w @ map op_id cs) (q(d := \<lambda>k. map op_id (ds_queue ?ds k)))"
      using assms(1) ids x
      by (intro in_order_performed [of kind st "seen w" "q(d := \<lambda>k. map op_id (ds_queue ds k))" d j "map op_id cs" "map op_id rest"])
        (auto simp: io_inv_def)
    ultimately show ?thesis using False p x perform_queue_seen [OF p] by (simp add: perform_type_def io_inv_def)
  qed
qed

lemma perform_all_inv:
  assumes "io_inv kind st d q x"
  shows "io_inv kind st d q (fold (perform_type perform evs) (rev [0..<max_ops]) x)"
proof -
  have "io_inv kind st d q (fold (perform_type perform evs) js x)" if "\<forall>j\<in>set js. j < max_ops" "io_inv kind st d q x" for js x
    using that by (induction js arbitrary: x) (auto simp: perform_type_inv)
  then show ?thesis using assms by simp
qed

definition reactor_inv :: "(nat \<Rightarrow> nat \<times> nat) \<Rightarrow> nat list \<Rightarrow> ('x, 'w) reactor \<Rightarrow> bool" where
  "reactor_inv kind st r \<longleftrightarrow> registered_ok r \<and> in_order_of kind st (seen (world r)) (queue_ids r)"

lemma queue_ids_set: "descs r1 = (descs r)(d \<mapsto> ds) \<Longrightarrow> queue_ids r1 = (queue_ids r)(d := \<lambda>j. map op_id (ds_queue ds j))"
  by (auto simp: queue_ids_def fun_eq_iff)

lemma perform_io_inv:
  assumes "reactor_inv kind st r" and "descs r d = Some ds" and "perform_io perform d evs r = (res, r1)"
  shows "reactor_inv kind st r1"
proof -
  obtain ds1 ops w where f: "fold (perform_type perform evs) (rev [0..<max_ops]) (ds, [], world r) = (ds1, ops, w)" by (metis prod_cases3)
  have "queue_ids r = (queue_ids r)(d := \<lambda>j. map op_id (ds_queue ds j))" using assms(2) by (auto simp: queue_ids_def fun_eq_iff)
  then have "io_inv kind st d (queue_ids r) (ds, [], world r)"
    using assms(1,2) by (simp add: io_inv_def reactor_inv_def registered_ok_def)
  from perform_all_inv [OF this, of evs] have i: "io_inv kind st d (queue_ids r) (ds1, ops, w)" by (simp add: f)
  have r1: "descs r1 = (descs r)(d \<mapsto> ds1)" "world r1 = w"
    using assms(2,3) f by (cases ops; auto simp: perform_io_def Let_def split: if_splits)+
  then show ?thesis using i assms(1) queue_ids_set [OF r1(1)] by (auto simp: reactor_inv_def io_inv_def registered_ok_def split: if_splits)
qed

end

context logged_performer
begin

lemma queue_ids_same: "descs r1 = descs r \<Longrightarrow> queue_ids r1 = queue_ids r"
  by (auto simp: queue_ids_def fun_eq_iff)

lemma reactor_inv_cong: "descs r1 = descs r \<Longrightarrow> world r1 = world r \<Longrightarrow> reactor_inv kind st r1 = reactor_inv kind st r"
  by (simp add: reactor_inv_def registered_ok_def queue_ids_same [of r1 r])

lemma immediate_inv: "reactor_inv kind st r \<Longrightarrow> reactor_inv kind (st @ [op_id op]) (post_now op c r)"
  using in_order_started(1) [of kind st "seen (world r)" "queue_ids r" "op_id op" "fst (kind (op_id op))" "snd (kind (op_id op))" "queue_ids r"]
    queue_ids_same [of "post_now op c r" r]
  by (simp add: reactor_inv_def registered_ok_def)

lemma start_none_inv: "reactor_inv kind st r \<Longrightarrow> reactor_inv kind (st @ [op_id op]) (start_op perform ctl j fd None op c spec r)"
  using immediate_inv [of kind st r "op\<lparr>op_ec := asio_bad_descriptor\<rparr>" c] by (simp add: start_op_def)

lemma outside_inv: "seen w = seen (world r) \<Longrightarrow> reactor_inv kind st r \<Longrightarrow> reactor_inv kind st (r\<lparr>world := w\<rparr>)"
  using queue_ids_same [of "r\<lparr>world := w\<rparr>" r] by (simp add: reactor_inv_def registered_ok_def)

lemma retried:
  assumes "descs r1 = descs r \<or> descs r1 = (descs r)(d \<mapsto> ds\<lparr>try_speculative := f\<rparr>)" and ds: "descs r d = Some ds"
  shows "queue_ids r1 = queue_ids r" and "registered_ok r \<Longrightarrow> registered_ok r1"
proof -
  have q: "(queue_ids r)(d := \<lambda>j. map op_id (ds_queue (ds\<lparr>try_speculative := f\<rparr>) j)) = queue_ids r"
    using ds by (auto simp: queue_ids_def fun_eq_iff)
  show "queue_ids r1 = queue_ids r" using assms(1)
  proof
    assume "descs r1 = descs r"
    then show ?thesis by (rule queue_ids_same)
  next
    assume "descs r1 = (descs r)(d \<mapsto> ds\<lparr>try_speculative := f\<rparr>)"
    then show ?thesis using queue_ids_set q by metis
  qed
  assume "registered_ok r"
  then have "ds_ok (ds\<lparr>try_speculative := f\<rparr>)" using ds by (auto simp: registered_ok_def)
  then show "registered_ok r1" using assms(1) \<open>registered_ok r\<close> by (elim disjE) (auto simp: registered_ok_def)
qed

theorem start_inv:
  assumes inv: "reactor_inv kind st r" and ds: "descs r d = Some ds" and k: "kind (op_id op) = (d, j)" and j: "j < max_ops"
  shows "reactor_inv kind (st @ [op_id op]) (start_op perform ctl j fd (Some d) op c spec r)" (is "reactor_inv _ _ ?r")
proof -
  have ord: "in_order_of kind st (seen (world r)) (queue_ids r)" and ok: "ds_ok ds" and reg: "registered_ok r"
    using inv ds by (auto simp: reactor_inv_def registered_ok_def)
  consider "queued_as j d op ds r ?r" | "tried_as j d op ds r ?r" using start_shape [OF ds] by blast
  then show ?thesis
  proof cases
    case 1
    then obtain op1 e where q: "op_id op1 = op_id op" "descs ?r = (descs r)(d \<mapsto> enqueue j op1 (ds\<lparr>registered_events := e\<rparr>))"
      "e = registered_events ds \<or> e = registered_events ds OR EPOLLOUT" "\<not> ds_shutdown ds"
      "ds_queue ds j = [] \<longrightarrow> registered_events ds \<noteq> 0 \<and> (j = write_op \<longrightarrow> bit e 2)" "seen (world ?r) = seen (world r)"
      unfolding queued_as_def by blast
    have e0: "bit e 0 = bit (registered_events ds) 0" "bit e 1 = bit (registered_events ds) 1"
      "bit (registered_events ds) 2 \<Longrightarrow> bit e 2" using q(3) by (auto simp: bit_or_iff)
    have "ds_queue ds j \<noteq> [] \<Longrightarrow> registered_events ds \<noteq> 0" using ok j
      by (auto simp: ds_ok_iff max_ops_def numeral_3_eq_3 less_Suc_eq numeral_2_eq_2)
    then have "ds_ok (enqueue j op1 (ds\<lparr>registered_events := e\<rparr>))"
      using ok q(4,5) e0 j
      by (auto simp: ds_ok_iff enqueue_def max_ops_def numeral_3_eq_3 less_Suc_eq write_op_def numeral_2_eq_2)
    then have "registered_ok ?r" using reg q(2) by (auto simp: registered_ok_def)
    moreover have "in_order_of kind (st @ [op_id op]) (seen (world r)) (queue_ids ?r)"
      using in_order_started(2) [OF ord k] ds q(1,2) by (auto simp: queue_ids_def enqueue_def)
    ultimately show ?thesis using q(6) by (simp add: reactor_inv_def)
  next
    case 2
    then obtain f where "descs ?r = descs r \<or> descs ?r = (descs r)(d \<mapsto> ds\<lparr>try_speculative := f\<rparr>)" unfolding tried_as_def by blast
    then have q: "queue_ids ?r = queue_ids r" and s: "registered_ok ?r"
      using retried [OF _ ds] reg by blast+
    have "ds_queue ds j = [] \<Longrightarrow> queue_ids r d j = []" using ds by (simp add: queue_ids_def)
    then have "in_order_of kind (st @ [op_id op]) (seen (world ?r)) (queue_ids ?r)"
      using 2 q in_order_started(1,3) [OF ord k, of "queue_ids ?r"] by (auto simp: tried_as_def)
    then show ?thesis using s by (simp add: reactor_inv_def)
  qed
qed

lemma dropped_inv:
  assumes "reactor_inv kind st r" and "\<forall>d j. subseq (queue_ids r1 d j) (queue_ids r d j)" and "seen (world r1) = seen (world r)"
    and "registered_ok r1"
  shows "reactor_inv kind st r1"
  using assms in_order_dropped unfolding reactor_inv_def by metis

lemma subseq_filter_map: "subseq (map f (filter P xs)) (map f xs)"
  by (induction xs) auto

lemma cancel_inv:
  assumes "reactor_inv kind st r"
  shows "reactor_inv kind st (cancel_ops p r)"
  using assms by (intro dropped_inv [OF assms])
    (auto simp: cancel_ops_def queue_ids_def no_ops_def reactor_inv_def registered_ok_def ds_ok_def split: option.splits if_splits)

lemma key_inv:
  assumes "reactor_inv kind st r"
  shows "reactor_inv kind st (cancel_ops_by_key p j k r)"
proof -
  have "ds_ok (ds\<lparr>ds_queue := (ds_queue ds)(j := filter P (ds_queue ds j))\<rparr>)" if "descs r d = Some ds" for d ds P
    using assms that by (intro ds_ok_shrunk) (auto simp: reactor_inv_def registered_ok_def)
  then show ?thesis
    using assms by (intro dropped_inv [OF assms])
      (auto simp: cancel_ops_by_key_def queue_ids_def reactor_inv_def registered_ok_def comp_def subseq_filter_map
        split: option.splits if_splits)
qed

lemma deregister_inv:
  assumes "reactor_inv kind st r"
  shows "reactor_inv kind st (snd (deregister_descriptor ctl fd p closing r))"
  using assms by (intro dropped_inv [OF assms])
    (auto simp: deregister_descriptor_def Let_def queue_ids_def no_ops_def reactor_inv_def registered_ok_def ds_ok_def
      ctl_seen [OF prod.collapse [symmetric]] split: option.splits if_splits)

lemma cleanup_inv:
  assumes "reactor_inv kind st r"
  shows "reactor_inv kind st (snd (cleanup_descriptor_data p r))"
  using assms by (intro dropped_inv [OF assms])
    (auto simp: cleanup_descriptor_data_def queue_ids_def reactor_inv_def registered_ok_def split: option.splits if_splits)

lemma register_inv:
  assumes "reactor_inv kind st r"
  shows "reactor_inv kind st (snd (register_descriptor ctl d fd r))"
proof -
  obtain res w where c: "ctl CTL_ADD fd (Some d) all_events (world r) = (res, w)" by force
  have f: "ds_ok (fresh_state fd)" "ds_ok ((fresh_state fd)\<lparr>registered_events := 0\<rparr>)"
    by (simp_all add: ds_ok_iff fresh_state_def)
  show ?thesis
    using assms c ctl_seen [OF c] f
    by (intro dropped_inv [OF assms])
      (auto simp: register_descriptor_def Let_def queue_ids_def fresh_state_def reactor_inv_def registered_ok_def split: if_splits option.splits)
qed

end

end
