(* ===== verification/AsioReactorRuns.thy ===== *)
theory AsioReactorRuns
  imports AsioReactor
begin

text \<open>
  Runs of the reactor of theory \<open>AsioReactor\<close> with the scheduler under it: operations are started, cancelled and tried in any order, sockets
  are registered and closed, epoll reports any events, and the scheduler takes from its queue. The operating system's state
  carries the log of the operations tried with success. The invariants are proved by induction on the run.
\<close>

section \<open>Runs\<close>

text \<open>\<open>begun\<close>: the operations started, in order; \<open>ended\<close>: those whose handler has been entered; \<open>owed\<close>: units of work to be given back.\<close>

record ('x, 'w) run_state =
  rx :: "('x, 'w \<times> nat list) reactor"
  begun :: "nat list"
  ended :: "nat multiset"
  owed :: nat

definition run_new :: "'w \<Rightarrow> bool \<Rightarrow> ('x, 'w) run_state" where
  "run_new w one = \<lparr>rx = \<lparr>descs = (\<lambda>_. None), sch = sched_new one True, thr = None, world = (w, [])\<rparr>, begun = [], ended = {#}, owed = 0\<rparr>"

text \<open>
  A step is labelled with what its environment chooses, as far as a claim depends on it: the number that a caller passes with a
  descriptor's data, and what else happens in the operating system.
\<close>

datatype 'w action = Start nat int | Register nat int | Deregister "nat option" int | Outside 'w | Other

inductive reactor_step :: "('x, 'w) perform \<Rightarrow> 'w ctl \<Rightarrow> (nat \<Rightarrow> nat \<times> nat) \<Rightarrow> 'w action \<Rightarrow>
    ('x, 'w) run_state \<Rightarrow> ('x, 'w) run_state \<Rightarrow> bool"
  for perform ctl kind where
  start_closed: "j < max_ops \<Longrightarrow> reactor_step perform ctl kind Other c
     (c\<lparr>rx := start_op (logging perform) (lift_ctl ctl) j fd None op cont spec (rx c), begun := begun c @ [op_id op]\<rparr>)"
| start: "descs (rx c) d = Some ds \<Longrightarrow> j < max_ops \<Longrightarrow> kind (op_id op) = (d, j) \<Longrightarrow> reactor_step perform ctl kind (Start d fd) c
     (c\<lparr>rx := start_op (logging perform) (lift_ctl ctl) j fd (Some d) op cont spec (rx c), begun := begun c @ [op_id op]\<rparr>)"
| register: "descs (rx c) d = None \<Longrightarrow> reactor_step perform ctl kind (Register d fd) c (c\<lparr>rx := snd (register_descriptor (lift_ctl ctl) d fd (rx c))\<rparr>)"
| cancel: "reactor_step perform ctl kind Other c (c\<lparr>rx := cancel_ops p (rx c)\<rparr>)"
| cancel_key: "j < max_ops \<Longrightarrow> reactor_step perform ctl kind Other c (c\<lparr>rx := cancel_ops_by_key p j k (rx c)\<rparr>)"
| deregister: "reactor_step perform ctl kind (Deregister p fd) c (c\<lparr>rx := snd (deregister_descriptor (lift_ctl ctl) fd p closing (rx c))\<rparr>)"
| cleanup: "descs (rx c) d = Some ds \<Longrightarrow> ds_shutdown ds \<Longrightarrow>
    reactor_step perform ctl kind Other c (c\<lparr>rx := snd (cleanup_descriptor_data (Some d) (rx c))\<rparr>)"
| events: "thr (rx c) = Some t \<Longrightarrow>
    reactor_run tfd dur (\<lambda>_ w. (evs, w)) (\<lambda>w. ([], w)) usec (private_op_queue t) (rx c) = (ops, r) \<Longrightarrow>
    reactor_step perform ctl kind Other c (c\<lparr>rx := r\<lparr>thr := Some (t\<lparr>private_op_queue := ops\<rparr>)\<rparr>\<rparr>)"
| io: "descs (rx c) d = Some ds \<Longrightarrow> thr (rx c) \<noteq> None \<Longrightarrow> do_complete (logging perform) d (rx c) = (res, r) \<Longrightarrow>
    reactor_step perform ctl kind Other c
      (c\<lparr>rx := r, ended := ended c + (case res of None \<Rightarrow> {#} | Some op \<Rightarrow> {#op_id op#}), owed := owed c + 1\<rparr>)"
| take_op: "run_one_take (sch (rx c)) = (s, Complete (Rop op)) \<Longrightarrow>
    reactor_step perform ctl kind Other c (c\<lparr>rx := (rx c)\<lparr>sch := s\<rparr>, ended := ended c + {#op_id op#}, owed := owed c + 1\<rparr>)"
| take_other: "run_one_take (sch (rx c)) = (s, a) \<Longrightarrow> \<forall>op. a \<noteq> Complete (Rop op) \<Longrightarrow>
    reactor_step perform ctl kind Other c (c\<lparr>rx := (rx c)\<lparr>sch := s\<rparr>\<rparr>)"
| give_back: "thr (rx c) = Some t \<Longrightarrow> owed c > 0 \<Longrightarrow> work_cleanup_count (sch (rx c)) t = ((s, zero), t1) \<Longrightarrow>
    reactor_step perform ctl kind Other c (c\<lparr>rx := (rx c)\<lparr>sch := if zero then sched_stop s else s, thr := Some t1\<rparr>, owed := owed c - 1\<rparr>)"
| requeue: "thr (rx c) = Some t \<Longrightarrow> work_cleanup_push (sch (rx c)) t = (s, t1) \<Longrightarrow>
    reactor_step perform ctl kind Other c (c\<lparr>rx := (rx c)\<lparr>sch := s, thr := Some t1\<rparr>\<rparr>)"
| task_done: "thr (rx c) = Some t \<Longrightarrow> task_cleanup (sch (rx c)) t = (s, t1) \<Longrightarrow>
    reactor_step perform ctl kind Other c (c\<lparr>rx := (rx c)\<lparr>sch := s, thr := Some t1\<rparr>\<rparr>)"
| outside: "reactor_step perform ctl kind (Outside w) c (c\<lparr>rx := (rx c)\<lparr>world := (w, snd (world (rx c)))\<rparr>\<rparr>)"
| immediate: "reactor_step perform ctl kind Other c (c\<lparr>rx := post_now op cont (rx c), begun := begun c @ [op_id op]\<rparr>)"
| enter: "thr (rx c) = None \<Longrightarrow> reactor_step perform ctl kind Other c (c\<lparr>rx := (rx c)\<lparr>thr := Some thread_new\<rparr>\<rparr>)"
| leave: "thr (rx c) = Some thread_new \<Longrightarrow> reactor_step perform ctl kind Other c (c\<lparr>rx := (rx c)\<lparr>thr := None\<rparr>\<rparr>)"

inductive reactor_reaches :: "('x, 'w) perform \<Rightarrow> 'w ctl \<Rightarrow> (nat \<Rightarrow> nat \<times> nat) \<Rightarrow> ('x, 'w) run_state \<Rightarrow> bool"
  for perform ctl kind where
  new: "reactor_reaches perform ctl kind (run_new w one)"
| step: "reactor_reaches perform ctl kind c \<Longrightarrow> reactor_step perform ctl kind a c d \<Longrightarrow> reactor_reaches perform ctl kind d"

text \<open>What the theorems assume of the operations: trying one yields the same one.\<close>

definition keeps_ids :: "('x, 'w) perform \<Rightarrow> bool" where
  "keeps_ids perform \<longleftrightarrow> (\<forall>op w. op_id (fst (snd (perform op w))) = op_id op)"

lemma logged:
  assumes "keeps_ids perform"
  shows "logged_performer (logging perform) (lift_ctl ctl) snd"
proof unfold_locales
  show "logging perform op w = (st, op1, w1) \<Longrightarrow> op_id op1 = op_id op" for op w st op1 w1
    using assms by (cases w) (auto simp: logging_def keeps_ids_def split: prod.splits, metis fst_conv snd_conv)
qed (auto simp: logging_def lift_ctl_def split: prod.splits if_splits)

lemma logged_perf: "keeps_ids perform \<Longrightarrow> performer (logging perform)"
  using logged logged_performer_def by blast

section \<open>Every operation and every unit of work is accounted for\<close>

definition thr_ok :: "('x, 'w) reactor \<Rightarrow> bool" where
  "thr_ok r \<longleftrightarrow> (\<forall>t. thr r = Some t \<longrightarrow> 0 \<le> private_outstanding_work t)"

lemma thr_ok_same: "thr r1 = thr r \<Longrightarrow> thr_ok r1 = thr_ok r"
  by (simp add: thr_ok_def)

lemma thr_ok_simps [simp]:
  "thr_ok (r\<lparr>world := w\<rparr>) = thr_ok r" "thr_ok (r\<lparr>descs := x\<rparr>) = thr_ok r" "thr_ok (r\<lparr>sch := s\<rparr>) = thr_ok r"
  "thr_ok (set_desc d ds r) = thr_ok r" "thr_ok (queue_op j d op ds r) = thr_ok r"
  by (simp_all add: thr_ok_def set_desc_def queue_op_def)

lemma thr_ok_post: "thr_ok r \<Longrightarrow> thr_ok (post_now op c r)" "thr_ok r \<Longrightarrow> thr_ok (post_later ops r)"
  by (auto simp: thr_ok_def post_now_def post_later_def post_immediate_completion_def post_deferred_completions_def Let_def
      split: option.splits if_splits)

lemma thr_ok_try: "thr_ok r \<Longrightarrow> try_now perform j d op c ds r = Inl r1 \<Longrightarrow> thr_ok r1"
  "thr_ok r \<Longrightarrow> try_now perform j d op c ds r = Inr (op1, r1) \<Longrightarrow> thr_ok r1"
  by (auto simp: try_now_def Let_def thr_ok_post split: if_splits prod.splits status.splits)

lemma thr_ok_start: "thr_ok r \<Longrightarrow> thr_ok (start_op perform ctl j fd p op c spec r)"
proof -
  assume r: "thr_ok r"
  have i: "thr_ok (case ctl CTL_MOD fd p1 e (world r1) of (res, w) \<Rightarrow>
      let r2 = r1\<lparr>world := w\<rparr> in if res = 0 then queue_op k d op1 ds1 r2 else post_now (op2 res) c r2)"
    if "thr_ok r1" for e p1 d k r1 op1 op2 ds1 using that by (auto simp: Let_def thr_ok_post split: prod.splits)
  have o: "thr_ok (case ctl CTL_MOD fd p1 e (world r) of (_, w) \<Rightarrow> queue_op j d op1 ds1 (r\<lparr>world := w\<rparr>))" for e p1 d op1 ds1
    using r by (simp split: prod.splits)
  have t: "thr_ok (case try_now perform j d op c ds r of Inl r1 \<Rightarrow> r1 | Inr (op1, r1) \<Rightarrow> f op1 r1)"
    if "\<And>op1 r1. thr_ok r1 \<Longrightarrow> thr_ok (f op1 r1)" for d ds f
    using that r thr_ok_try [OF r] by (cases "try_now perform j d op c ds r") auto
  show ?thesis unfolding start_op_def
    by (cases p; cases "descs r (the p)") (auto simp: thr_ok_post r o Let_def [of "if j = write_op then _ else _"] intro!: t i)
qed

lemma thr_ok_closing: "thr_ok r \<Longrightarrow> thr_ok (cancel_ops p r)" "thr_ok r \<Longrightarrow> thr_ok (cancel_ops_by_key p j k r)"
  "thr_ok r \<Longrightarrow> thr_ok (snd (deregister_descriptor ctl fd p closing r))" "thr_ok r \<Longrightarrow> thr_ok (snd (register_descriptor ctl d fd r))"
  "thr_ok r \<Longrightarrow> thr_ok (snd (cleanup_descriptor_data p r))"
  by (auto simp: cancel_ops_def cancel_ops_by_key_def deregister_descriptor_def register_descriptor_def cleanup_descriptor_data_def Let_def
      thr_ok_post split: option.splits prod.splits)

lemma thr_ok_io: "thr_ok r \<Longrightarrow> perform_io perform d evs r = (res, r1) \<Longrightarrow> thr_ok r1"
proof -
  assume r: "thr_ok r" and p: "perform_io perform d evs r = (res, r1)"
  have c: "thr_ok (r2\<lparr>thr := map_option compensating_work_started (thr r2)\<rparr>)" if "thr_ok r2" for r2 :: "('a, 'b) reactor"
    using that by (auto simp: thr_ok_def compensating_work_started_def)
  show "thr_ok r1" using r p by (auto simp: perform_io_def Let_def c thr_ok_post split: option.splits prod.splits list.splits if_splits)
qed

lemma take_handed:
  assumes "run_one_take (sch r) = (s, a)"
  shows "handed (r\<lparr>sch := s\<rparr>) + (case a of Complete (Rop op) \<Rightarrow> {#op_id op#} | _ \<Rightarrow> {#}) = handed r" "outstanding_work s = outstanding_work (sch r)"
  using assms by (auto simp: run_one_take_def handed_def Let_def split: if_splits list.splits item.splits sop.splits)

lemma dom_start:
  assumes "logged_performer perform ctl seen" and "descs r d = Some ds"
  shows "dom (descs (start_op perform ctl j fd (Some d) op c spec r)) = dom (descs r)"
proof -
  have "\<exists>x. descs (start_op perform ctl j fd (Some d) op c spec r) = descs r \<or>
      descs (start_op perform ctl j fd (Some d) op c spec r) = (descs r)(d \<mapsto> x)"
    using logged_performer.start_shape [OF assms, of j op fd c spec]
    unfolding logged_performer.queued_as_def [OF assms(1)] logged_performer.tried_as_def [OF assms(1)] by blast
  moreover have "dom ((descs r)(d \<mapsto> x)) = dom (descs r)" for x using assms(2) by (simp add: insert_absorb domI)
  ultimately show ?thesis by fastforce
qed

lemma dom_io: "descs r d = Some ds \<Longrightarrow> perform_io perform d evs r = (res, r1) \<Longrightarrow> dom (descs r1) = dom (descs r)"
  by (auto simp: perform_io_def Let_def split: prod.splits list.splits if_splits)

lemma dom_closing: "dom (descs (cancel_ops p r)) = dom (descs r)" "dom (descs (cancel_ops_by_key p j k r)) = dom (descs r)"
  "dom (descs (snd (deregister_descriptor ctl fd p closing r))) = dom (descs r)"
  "finite (dom (descs r)) \<Longrightarrow> finite (dom (descs (snd (register_descriptor ctl d fd r))))"
  "finite (dom (descs r)) \<Longrightarrow> finite (dom (descs (snd (cleanup_descriptor_data p r))))"
  by (auto simp: cancel_ops_def cancel_ops_by_key_def deregister_descriptor_def register_descriptor_def cleanup_descriptor_data_def Let_def
      split: option.splits prod.splits)

text \<open>Events change no queue: only what the descriptors are ready for, and the descriptors in the private queue.\<close>

definition same_but_ready :: "(nat \<Rightarrow> 'x descriptor_state option) \<Rightarrow> (nat \<Rightarrow> 'x descriptor_state option) \<Rightarrow> bool" where
  "same_but_ready ds ds1 \<longleftrightarrow> (\<forall>d. map_option (\<lambda>x. x\<lparr>ready_events := 0\<rparr>) (ds1 d) = map_option (\<lambda>x. x\<lparr>ready_events := 0\<rparr>) (ds d))"

lemma dispatch_ready:
  assumes "fold dispatch_event evs (ops, ds) = (ops1, ds1)"
  shows "rop_ids ops1 = rop_ids ops \<and> same_but_ready ds ds1"
  using assms
proof (induction evs arbitrary: ops ds)
  case (Cons e evs)
  obtain p f where e: "e = (p, f)" by force
  obtain ops2 ds2 where d: "dispatch_event e (ops, ds) = (ops2, ds2)" by force
  then have "rop_ids ops2 = rop_ids ops \<and> same_but_ready ds ds2"
    using e by (cases p) (auto simp: dispatch_event_def same_but_ready_def option.map_comp comp_def split: if_splits)
  moreover have "rop_ids ops1 = rop_ids ops2 \<and> same_but_ready ds2 ds1" using Cons d by simp
  ultimately show ?case by (simp add: same_but_ready_def)
qed (simp add: same_but_ready_def)

lemma same_held: "same_but_ready ds ds1 \<Longrightarrow> held_by (ds1 d) = held_by (ds d)" "same_but_ready ds ds1 \<Longrightarrow> dom ds1 = dom ds"
proof -
  assume s: "same_but_ready ds ds1"
  have h: "held_by (map_option (\<lambda>x. x\<lparr>ready_events := 0\<rparr>) y) = held_by y" for y :: "'a descriptor_state option"
    by (cases y) auto
  show "held_by (ds1 d) = held_by (ds d)" using s h unfolding same_but_ready_def by metis
  show "dom ds1 = dom ds" using s unfolding same_but_ready_def by (auto simp: dom_def) (metis option.map_disc_iff option.exhaust)+
qed

lemma same_point:
  assumes "same_but_ready ds ds1"
  shows "ds d = None \<and> ds1 d = None \<or> (\<exists>x y. ds d = Some x \<and> ds1 d = Some y \<and> ds_queue y = ds_queue x \<and> ds_ok y = ds_ok x)"
proof (cases "ds d")
  case None
  then show ?thesis using assms unfolding same_but_ready_def by (metis option.map_disc_iff)
next
  case (Some x)
  then obtain y where y: "ds1 d = Some y" "y\<lparr>ready_events := 0\<rparr> = x\<lparr>ready_events := 0\<rparr>"
    using assms unfolding same_but_ready_def by (metis (no_types, lifting) map_option_eq_Some option.simps(9))
  show ?thesis using Some y(1) arg_cong [OF y(2), of ds_queue] arg_cong [OF y(2), of ds_ok] by simp
qed

lemma run_effect:
  assumes "reactor_run tfd dur (\<lambda>_ w. (evs, w)) (\<lambda>w. ([], w)) usec ops r = (ops1, r1)"
  shows "rop_ids ops1 = rop_ids ops" "same_but_ready (descs r) (descs r1)" "sch r1 = sch r" "thr r1 = thr r" "world r1 = world r"
  using assms dispatch_ready by (fastforce simp: reactor_run_def Let_def split: prod.splits if_splits)+

lemma run_pending: "same_but_ready (descs r) (descs r1) \<Longrightarrow> pending_ids r1 = pending_ids r"
  by (simp add: pending_ids_def same_held)

text \<open>The invariant.\<close>

definition accounted :: "('x, 'w) run_state \<Rightarrow> bool" where
  "accounted c \<longleftrightarrow>
     finite (dom (descs (rx c))) \<and> thr_ok (rx c) \<and> mset (begun c) = ended c + in_system (rx c) \<and>
     total_work (rx c) = int (size (in_system (rx c))) + int (owed c)"

lemma accounted_kept:
  assumes "accounted c" and "finite (dom (descs r))" and "thr_ok r" and "in_system r = in_system (rx c)" and "total_work r = total_work (rx c)"
  shows "accounted (c\<lparr>rx := r\<rparr>)"
  using assms by (simp add: accounted_def)

lemma held_none [simp]: "held_by None = {#}"
  by (simp add: held_by_def)

lemma register_balance:
  assumes "finite (dom (descs r))" and "descs r d = None"
  shows "in_system (snd (register_descriptor ctl d fd r)) = in_system r" "total_work (snd (register_descriptor ctl d fd r)) = total_work r"
proof -
  have h: "held_by (Some (fresh_state fd)) = {#}" "held_by (Some ((fresh_state fd)\<lparr>registered_events := 0\<rparr>)) = {#}"
    by (simp_all add: held_by_def waiting_three fresh_state_def)
  have "pending_ids (set_desc d ds (r\<lparr>world := w\<rparr>)) = pending_ids r" if "held_by (Some ds) = {#}" for ds w
    using pending_set [of "r\<lparr>world := w\<rparr>" d ds] assms that by simp
  then show "in_system (snd (register_descriptor ctl d fd r)) = in_system r" "total_work (snd (register_descriptor ctl d fd r)) = total_work r"
    using h by (auto simp: register_descriptor_def Let_def in_system_def split: prod.splits)
qed

lemma cleanup_balance:
  assumes "finite (dom (descs r))" and "descs r d = Some ds" and "waiting_ops ds = []"
  shows "in_system (snd (cleanup_descriptor_data (Some d) r)) = in_system r"
proof -
  have "pending_ids r = held_by (Some ds) + (\<Sum>x\<in>dom (descs r) - {d}. held_by (descs r x))"
    using assms(1,2) by (auto simp: pending_ids_def domI sum.remove [of "dom (descs r)" d])
  moreover have "(\<Sum>x\<in>dom (descs r) - {d}. held_by (((descs r)(d := None)) x)) = (\<Sum>x\<in>dom (descs r) - {d}. held_by (descs r x))"
    by (intro sum.cong) auto
  ultimately show ?thesis using assms(3)
    by (simp add: cleanup_descriptor_data_def in_system_def handed_def pending_ids_def held_by_def)
qed

lemma shutdown_idle: "ds_ok ds \<Longrightarrow> ds_shutdown ds \<Longrightarrow> waiting_ops ds = []"
  by (auto simp: ds_ok_iff waiting_three)

lemma handed_sch: "handed (r\<lparr>sch := s, thr := Some t1\<rparr>) = mset (rop_ids (queued_ops (sched_queue s))) + mset (rop_ids (private_op_queue t1))"
  "total_work (r\<lparr>sch := s, thr := Some t1\<rparr>) = outstanding_work s + private_outstanding_work t1"
  "pending_ids (r\<lparr>sch := s, thr := t\<rparr>) = pending_ids r" "pending_ids (r\<lparr>sch := s\<rparr>) = pending_ids r" "pending_ids (r\<lparr>thr := t\<rparr>) = pending_ids r"
  by (simp_all add: handed_def total_work_def pending_ids_def)

lemma accounted_step:
  assumes k: "keeps_ids perform" and "reactor_step perform ctl kind a c d" and "accounted c" and ok: "registered_ok (rx c)"
  shows "accounted d"
  using assms(2-4)
proof (induction rule: reactor_step.induct)
  case (start_closed j c op fd cont spec)
  then show ?case using performer.start_balance [OF logged_perf [OF k], of "rx c" None j "lift_ctl ctl" fd op cont spec]
    by (simp add: accounted_def thr_ok_start) (simp add: start_op_def)
next
  case (start c d ds j op fd cont spec)
  then show ?case using performer.start_balance [OF logged_perf [OF k], of "rx c" "Some d" j "lift_ctl ctl" fd op cont spec]
      dom_start [OF logged [OF k, of ctl] start.hyps(1)]
    by (simp add: accounted_def thr_ok_start)
next
  case (register c d fd)
  then show ?case by (intro accounted_kept) (auto simp: accounted_def thr_ok_closing dom_closing register_balance)
next
  case (cancel c p)
  then show ?case by (intro accounted_kept) (auto simp: accounted_def thr_ok_closing dom_closing cancel_balance)
next
  case (cancel_key j c p k)
  then show ?case by (intro accounted_kept) (auto simp: accounted_def thr_ok_closing dom_closing key_balance)
next
  case (deregister c fd p closing)
  then show ?case by (intro accounted_kept) (auto simp: accounted_def thr_ok_closing dom_closing deregister_balance)
next
  case (cleanup c d ds)
  then have "waiting_ops ds = []" by (auto simp: registered_ok_def intro: shutdown_idle)
  then show ?case using cleanup cleanup_balance [of "rx c" d ds]
    by (intro accounted_kept) (auto simp: accounted_def thr_ok_closing dom_closing cleanup_descriptor_data_def total_work_def)
next
  case (events c t tfd dur evs usec ops r)
  note e = run_effect [OF events.hyps(2)]
  then show ?case using events.prems events.hyps(1) run_pending [OF e(2)] same_held(2) [OF e(2)]
    by (intro accounted_kept) (auto simp: accounted_def thr_ok_def in_system_def handed_def total_work_def handed_sch)
next
  case (io c d ds res r)
  then have p: "perform_io (logging perform) d (ready_events ds) (rx c) = (res, r)" by (simp add: do_complete_def)
  have f: "finite (dom (descs (rx c)))" using io.prems by (simp add: accounted_def)
  note b = performer.perform_io_balance [OF logged_perf [OF k] f io.hyps(1) p]
  have "size (in_system (rx c)) = size (in_system r) + (case res of None \<Rightarrow> 0 | Some op \<Rightarrow> 1)"
    using b(1) by (metis (no_types, lifting) option.case_eq_if size_empty size_single size_union)
  then show ?case using io b dom_io [OF io.hyps(1) p] thr_ok_io [OF _ p]
    by (auto simp: accounted_def ac_simps split: option.splits)
next
  case (take_op c s op)
  have "in_system ((rx c)\<lparr>sch := s\<rparr>) + {#op_id op#} = in_system (rx c)"
    using take_handed(1) [OF take_op.hyps] by (simp add: in_system_def handed_sch ac_simps)
  then have "size (in_system (rx c)) = size (in_system ((rx c)\<lparr>sch := s\<rparr>)) + 1" "in_system (rx c) = in_system ((rx c)\<lparr>sch := s\<rparr>) + {#op_id op#}"
    by (metis size_single size_union, simp)
  then show ?case using take_op take_handed(2) [OF take_op.hyps] by (simp add: accounted_def total_work_def)
next
  case (take_other c s a)
  have "handed ((rx c)\<lparr>sch := s\<rparr>) = handed (rx c)"
    using take_handed(1) [OF take_other.hyps(1)] take_other.hyps(2) by (auto split: taken.splits sop.splits)
  then show ?case using take_other take_handed(2) [OF take_other.hyps(1)]
    by (intro accounted_kept) (auto simp: accounted_def in_system_def handed_sch total_work_def)
next
  case (give_back c t s zero t1)
  have "0 \<le> private_outstanding_work t" using give_back by (simp add: accounted_def thr_ok_def)
  then have w: "outstanding_work s + private_outstanding_work t1 = outstanding_work (sch (rx c)) + private_outstanding_work t - 1"
    "sched_queue s = sched_queue (sch (rx c))" "private_op_queue t1 = private_op_queue t" "private_outstanding_work t1 = 0"
    using give_back.hyps(3) by (auto simp: work_cleanup_count_def work_decrement_def Let_def split: if_splits)
  then show ?case using give_back.prems give_back.hyps(1,2)
    by (auto simp: accounted_def thr_ok_def in_system_def handed_sch sched_stop_def) (auto simp: handed_def total_work_def)
next
  case (requeue c t s t1)
  then show ?case
    by (intro accounted_kept) (auto simp: accounted_def thr_ok_def in_system_def handed_sch work_cleanup_push_def push_ops_def split: if_splits,
      auto simp: handed_def total_work_def)
next
  case (task_done c t s t1)
  have "0 \<le> private_outstanding_work t" using task_done by (simp add: accounted_def thr_ok_def)
  then show ?case using task_done
    by (intro accounted_kept) (auto simp: accounted_def thr_ok_def in_system_def handed_sch task_cleanup_def task_cleanup_count_def
        task_cleanup_push_def push_ops_def, auto simp: handed_def total_work_def)
next
  case (outside c w)
  then show ?case by (intro accounted_kept) (auto simp: accounted_def in_system_def)
next
  case (immediate c op cont)
  then show ?case by (simp add: accounted_def thr_ok_post in_system_def)
next
  case (enter c)
  then show ?case by (intro accounted_kept) (auto simp: accounted_def thr_ok_def in_system_def handed_def total_work_def handed_sch thread_new_def)
next
  case (leave c)
  then show ?case by (intro accounted_kept) (auto simp: accounted_def thr_ok_def in_system_def handed_def total_work_def handed_sch thread_new_def)
qed

lemma keeps_reactor_inv:
  assumes k: "keeps_ids perform" and "reactor_step perform ctl kind a c d" and "logged_performer.reactor_inv snd kind (begun c) (rx c)"
  shows "logged_performer.reactor_inv snd kind (begun d) (rx d)"
proof -
  have same: "logged_performer.reactor_inv snd kind st r1"
    if "logged_performer.reactor_inv snd kind st r" "descs r1 = descs r" "world r1 = world r" for st and r r1 :: "('a, 'b \<times> nat list) reactor"
    using logged_performer.reactor_inv_cong [OF logged [OF k], of r1 r kind st] that by blast
  show ?thesis using assms(2,3)
proof (induction rule: reactor_step.induct)
  case start_closed
  then show ?case using logged_performer.start_none_inv [OF logged [OF k]] by simp
next
  case start
  then show ?case using logged_performer.start_inv [OF logged [OF k]] by simp
next
  case register
  then show ?case using logged_performer.register_inv [OF logged [OF k]] by simp
next
  case cancel
  then show ?case using logged_performer.cancel_inv [OF logged [OF k]] by simp
next
  case cancel_key
  then show ?case using logged_performer.key_inv [OF logged [OF k]] by simp
next
  case deregister
  then show ?case using logged_performer.deregister_inv [OF logged [OF k]] by simp
next
  case cleanup
  then show ?case using logged_performer.cleanup_inv [OF logged [OF k]] by simp
next
  case (events c t tfd dur evs usec ops r)
  note e = run_effect [OF events.hyps(2)]
  have q: "queue_ids (r\<lparr>thr := u\<rparr>) = queue_ids (rx c)" for u
  proof (intro ext)
    fix d j
    show "queue_ids (r\<lparr>thr := u\<rparr>) d j = queue_ids (rx c) d j" using same_point [OF e(2), of d] by (auto simp: queue_ids_def)
  qed
  have "registered_ok (rx c) \<Longrightarrow> registered_ok (r\<lparr>thr := u\<rparr>)" for u
  proof -
    assume ok: "registered_ok (rx c)"
    have "ds_ok ds" if "descs r d = Some ds" for d ds
      using same_point [OF e(2), of d] that ok by (auto simp: registered_ok_def)
    then show ?thesis by (simp add: registered_ok_def)
  qed
  then show ?case using events.prems q e(5) by (simp add: logged_performer.reactor_inv_def [OF logged [OF k]])
next
  case (io c d ds res r)
  then show ?case using logged_performer.perform_io_inv [OF logged [OF k], of kind "begun c" "rx c" d ds "ready_events ds" res r]
    by (simp add: do_complete_def)
next
  case take_op
  then show ?case by (auto intro: same)
next
  case take_other
  then show ?case by (auto intro: same)
next
  case give_back
  then show ?case by (auto intro: same)
next
  case requeue
  then show ?case by (auto intro: same)
next
  case task_done
  then show ?case by (auto intro: same)
next
  case (outside c w)
  then show ?case using logged_performer.outside_inv [OF logged [OF k]] by simp
next
  case (immediate c op cont)
  then show ?case using logged_performer.immediate_inv [OF logged [OF k]] by simp
next
  case enter
  then show ?case by (auto intro: same)
next
  case leave
  then show ?case by (auto intro: same)
qed
qed

lemma distinct_part: "subseq xs ys \<Longrightarrow> distinct ys \<Longrightarrow> distinct xs"
  by (induction rule: list_emb.induct) (auto dest: list_emb_set)

lemma reaches_reactor_inv:
  assumes "keeps_ids perform" and "reactor_reaches perform ctl kind c"
  shows "logged_performer.reactor_inv snd kind (begun c) (rx c)"
  using assms(2)
proof (induction rule: reactor_reaches.induct)
  case (new w one)
  then show ?case
    by (simp add: logged_performer.reactor_inv_def [OF logged [OF assms(1)]] run_new_def registered_ok_def in_order_of_def of_kind_def queue_ids_def)
next
  case (step c a d)
  then show ?case using keeps_reactor_inv [OF assms(1)] by blast
qed

lemma reaches_registered: "keeps_ids perform \<Longrightarrow> reactor_reaches perform ctl kind c \<Longrightarrow> registered_ok (rx c)"
  using reaches_reactor_inv logged_performer.reactor_inv_def [OF logged] by metis

lemma reaches_accounted:
  assumes "keeps_ids perform" and "reactor_reaches perform ctl kind c"
  shows "accounted c"
  using assms(2)
proof (induction rule: reactor_reaches.induct)
  case (new w one)
  then show ?case
    by (simp add: accounted_def run_new_def thr_ok_def in_system_def pending_ids_def handed_def total_work_def sched_new_def)
next
  case (step c a d)
  then show ?case using accounted_step [OF assms(1)] reaches_registered [OF assms(1)] by blast
qed

text \<open>
  C16. Every operation started on a socket is accounted for, whatever is started, cancelled, closed, reported by epoll and run in
  between, and whatever the attempts return: it has been given to its handler, or waits on its descriptor, or has been
  handed to the scheduler, exactly once each. And the scheduler's work count is the number of operations in the last two
  places plus the units the handlers being run will give back, so that run neither stops while an operation waits nor
  runs on without one.
\<close>

theorem reactor_accounts:
  assumes "keeps_ids perform" and "reactor_reaches perform ctl kind c"
  shows "mset (begun c) = ended c + (pending_ids (rx c) + handed (rx c)) \<and>
    total_work (rx c) = int (size (pending_ids (rx c) + handed (rx c))) + int (owed c)"
  using reaches_accounted [OF assms] by (simp add: accounted_def in_system_def)

text \<open>
  C17. Operations of one kind on one descriptor are carried out in the order in which they were started: those that were
  tried with success, followed by those that wait, are always a part of those that were started, in the same order
  (what is missing was cancelled or refused). In particular, of operations with different numbers none is carried out
  twice.
\<close>

theorem reactor_keeps_order:
  assumes "keeps_ids perform" and "reactor_reaches perform ctl kind c"
  shows "subseq (of_kind kind d j (snd (world (rx c))) @ queue_ids (rx c) d j) (of_kind kind d j (begun c)) \<and>
    (distinct (begun c) \<longrightarrow> distinct (of_kind kind d j (snd (world (rx c))) @ queue_ids (rx c) d j))"
proof -
  have "subseq (of_kind kind d j (snd (world (rx c))) @ queue_ids (rx c) d j) (of_kind kind d j (begun c))"
    using reaches_reactor_inv [OF assms] by (simp add: logged_performer.reactor_inv_def [OF logged [OF assms(1)]] in_order_of_def)
  moreover from this have "distinct (begun c) \<Longrightarrow> distinct (of_kind kind d j (snd (world (rx c))) @ queue_ids (rx c) d j)"
    by (elim distinct_part) (simp add: of_kind_def)
  ultimately show ?thesis by blast
qed

section \<open>What epoll is asked to report\<close>

text \<open>
  The calls of \<^verbatim>\<open>epoll_ctl\<close> with their results, recorded beside the state of the operating system; attempts at operations make
  none. \<open>epoll_set\<close> is the set of descriptors epoll watches as its manual describes it: an accepted \<^verbatim>\<open>ADD\<close> or \<^verbatim>\<open>MOD\<close> sets the
  events and the pointer of a descriptor, an accepted \<^verbatim>\<open>DEL\<close> removes it, a refused call changes nothing.
\<close>

record request =
  req_op :: ctl_op
  req_fd :: int
  req_ptr :: "nat option"
  req_events :: events
  req_result :: int

definition recorded :: "'w ctl \<Rightarrow> ('w \<times> request list) ctl" where
  "recorded ctl a fd p e wl =
     (case wl of (w, log) \<Rightarrow>
        (case ctl a fd p e w of (res, w1) \<Rightarrow>
           (res, (w1, log @ [\<lparr>req_op = a, req_fd = fd, req_ptr = p, req_events = e, req_result = res\<rparr>]))))"

definition quiet :: "('x, 'w) perform \<Rightarrow> ('x, 'w \<times> request list) perform" where
  "quiet perform op wl = (case wl of (w, log) \<Rightarrow> (case perform op w of (st, op1, w1) \<Rightarrow> (st, op1, (w1, log))))"

fun epoll_apply :: "request \<Rightarrow> (int \<Rightarrow> (nat option \<times> events) option) \<Rightarrow> int \<Rightarrow> (nat option \<times> events) option" where
  "epoll_apply q m =
     (if req_result q \<noteq> 0 then m
      else m(req_fd q := if req_op q = CTL_DEL then None else Some (req_ptr q, req_events q)))"

definition epoll_set :: "request list \<Rightarrow> int \<Rightarrow> (nat option \<times> events) option" where
  "epoll_set log = fold epoll_apply log (\<lambda>_. None)"

definition requests :: "('x, ('w \<times> request list) \<times> nat list) reactor \<Rightarrow> request list" where
  "requests r = snd (fst (world r))"

definition last_request :: "request list \<Rightarrow> int \<Rightarrow> request option" where
  "last_request log fd = find (\<lambda>q. req_fd q = fd) (rev log)"

lemma last_request_simps [simp]:
  "last_request [] fd = None" "last_request (log @ [q]) fd = (if req_fd q = fd then Some q else last_request log fd)"
  by (simp_all add: last_request_def)

lemma epoll_set_last:
  "last_request log fd = Some q \<Longrightarrow> req_result q = 0 \<Longrightarrow> req_op q \<noteq> CTL_DEL \<Longrightarrow> epoll_set log fd = Some (req_ptr q, req_events q)"
  by (induction log rule: rev_induct) (auto simp: epoll_set_def split: if_splits)

text \<open>
  How the sockets use the reactor: a call that names a descriptor's data passes the number the data were registered with, and
  no other socket has been registered under it since; the operating system does not give out the number of a descriptor on which
  an operation waits; and nobody else calls \<^verbatim>\<open>epoll_ctl\<close>.
\<close>

definition current :: "('x, ('w \<times> request list) \<times> nat list) reactor \<Rightarrow> nat \<Rightarrow> int \<Rightarrow> bool" where
  "current r d fd \<longleftrightarrow>
     (\<forall>ds. descs r d = Some ds \<and> \<not> ds_shutdown ds \<longrightarrow>
        descriptor ds = fd \<and> (\<exists>q. last_request (requests r) fd = Some q \<and> req_ptr q = Some d))"

fun proper :: "('x, ('w \<times> request list) \<times> nat list) reactor \<Rightarrow> ('w \<times> request list) action \<Rightarrow> bool" where
  "proper r (Start d fd) = current r d fd"
| "proper r (Register d fd) = (\<forall>e ds. descs r e = Some ds \<and> \<not> ds_shutdown ds \<and> descriptor ds = fd \<longrightarrow> waiting_ops ds = [])"
| "proper r (Deregister p fd) = (\<forall>d. p = Some d \<longrightarrow> current r d fd)"
| "proper r (Outside w) = (snd w = requests r)"
| "proper r Other = True"

inductive proper_reaches :: "('x, 'w) perform \<Rightarrow> 'w ctl \<Rightarrow> (nat \<Rightarrow> nat \<times> nat) \<Rightarrow> ('x, 'w \<times> request list) run_state \<Rightarrow> bool"
  for perform ctl kind where
  new: "proper_reaches perform ctl kind (run_new (w, []) one)"
| step: "proper_reaches perform ctl kind c \<Longrightarrow> reactor_step (quiet perform) (recorded ctl) kind a c d \<Longrightarrow> proper (rx c) a \<Longrightarrow>
    proper_reaches perform ctl kind d"

lemma proper_runs: "proper_reaches perform ctl kind c \<Longrightarrow> reactor_reaches (quiet perform) (recorded ctl) kind c"
  by (induction rule: proper_reaches.induct) (auto intro: reactor_reaches.intros)

lemma quiet_keeps: "keeps_ids perform \<Longrightarrow> keeps_ids (quiet perform)"
  by (auto simp: keeps_ids_def quiet_def split: prod.splits) (metis fst_conv snd_conv)

text \<open>
  The invariant: as long as the last request for a descriptor's number is that descriptor's, it asked for all events that are recorded,
  and for just these if it was accepted; and it is that descriptor's while an operation waits there.
\<close>

definition ds_asked :: "request list \<Rightarrow> nat \<Rightarrow> 'x descriptor_state \<Rightarrow> bool" where
  "ds_asked log d ds \<longleftrightarrow>
     (\<forall>q. last_request log (descriptor ds) = Some q \<and> req_ptr q = Some d \<longrightarrow>
        req_op q \<noteq> CTL_DEL \<and> req_events q OR registered_events ds = req_events q \<and> (req_result q = 0 \<longrightarrow> req_events q = registered_events ds)) \<and>
     (waiting_ops ds \<noteq> [] \<longrightarrow> (\<exists>q. last_request log (descriptor ds) = Some q \<and> req_ptr q = Some d))"

definition asked :: "('x, ('w \<times> request list) \<times> nat list) reactor \<Rightarrow> bool" where
  "asked r \<longleftrightarrow> (\<forall>d ds. descs r d = Some ds \<and> \<not> ds_shutdown ds \<longrightarrow> ds_asked (requests r) d ds)"

definition shrunk :: "'x descriptor_state \<Rightarrow> 'x descriptor_state \<Rightarrow> bool" where
  "shrunk ds ds1 \<longleftrightarrow> descriptor ds1 = descriptor ds \<and> registered_events ds1 = registered_events ds \<and> ds_shutdown ds1 = ds_shutdown ds \<and>
     (waiting_ops ds1 \<noteq> [] \<longrightarrow> waiting_ops ds \<noteq> [])"

lemma asked_shrunk:
  assumes "asked r" and "requests r1 = requests r"
    and "\<And>d ds1. descs r1 d = Some ds1 \<Longrightarrow> \<not> ds_shutdown ds1 \<Longrightarrow> \<exists>ds. descs r d = Some ds \<and> shrunk ds ds1"
  shows "asked r1"
  unfolding asked_def
proof (intro allI impI)
  fix d ds1
  assume d: "descs r1 d = Some ds1 \<and> \<not> ds_shutdown ds1"
  then obtain ds where "descs r d = Some ds" "shrunk ds ds1" using assms(3) by blast
  moreover have "ds_asked (requests r) d ds" using calculation d assms(1) by (auto simp: asked_def shrunk_def)
  ultimately show "ds_asked (requests r1) d ds1" using assms(2) by (auto simp: ds_asked_def shrunk_def)
qed

lemma asked_same: "asked r \<Longrightarrow> world r1 = world r \<Longrightarrow> descs r1 = descs r \<Longrightarrow> asked r1"
  by (simp add: asked_def requests_def)

lemma shrunk_refl [simp]: "shrunk ds ds" "shrunk ds (ds\<lparr>try_speculative := f\<rparr>)" "shrunk ds (ds\<lparr>ready_events := e\<rparr>)" "shrunk ds (no_ops ds)"
  by (simp_all add: shrunk_def waiting_three no_ops_def max_ops_def)

lemma shrunk_queue: "(q \<noteq> [] \<Longrightarrow> ds_queue ds j \<noteq> []) \<Longrightarrow> j < max_ops \<Longrightarrow> shrunk ds (ds\<lparr>ds_queue := (ds_queue ds)(j := q)\<rparr>)"
  by (auto simp: shrunk_def waiting_three max_ops_def numeral_3_eq_3 numeral_2_eq_2 less_Suc_eq)

lemma shrunk_trans: "shrunk a b \<Longrightarrow> shrunk b c \<Longrightarrow> shrunk a c"
  by (auto simp: shrunk_def)

text \<open>A request that a descriptor makes for its number.\<close>

lemma asked_request:
  assumes "asked r" and "requests r1 = requests r @ [q]" and "descs r1 = (descs r)(d \<mapsto> ds1)"
    and "req_ptr q = Some d" "req_op q \<noteq> CTL_DEL" "req_fd q = descriptor ds1"
    and "req_events q OR registered_events ds1 = req_events q" "req_result q = 0 \<Longrightarrow> req_events q = registered_events ds1"
    and "\<And>e ds. e \<noteq> d \<Longrightarrow> descs r e = Some ds \<Longrightarrow> \<not> ds_shutdown ds \<Longrightarrow> descriptor ds = req_fd q \<Longrightarrow> waiting_ops ds = []"
  shows "asked r1"
  unfolding asked_def
proof (intro allI impI)
  fix e ds
  assume e: "descs r1 e = Some ds \<and> \<not> ds_shutdown ds"
  show "ds_asked (requests r1) e ds"
  proof (cases "e = d")
    case True
    then have "ds = ds1" using e assms(3) by simp
    then show ?thesis using True assms(2,4-8) by (simp add: ds_asked_def)
  next
    case False
    then have o: "descs r e = Some ds" "ds_asked (requests r) e ds" using e assms(1,3) by (simp_all add: asked_def)
    then show ?thesis using False assms(2,4) assms(9) [of e ds] e by (auto simp: ds_asked_def)
  qed
qed

lemma recorded_world:
  "lift_ctl (recorded ctl) a fd p e w = (res, w1) \<Longrightarrow>
     snd (fst w1) = snd (fst w) @ [\<lparr>req_op = a, req_fd = fd, req_ptr = p, req_events = e, req_result = res\<rparr>]"
  by (auto simp: lift_ctl_def recorded_def split: prod.splits)

lemma quiet_world: "logging (quiet perform) op w = (st, op1, w1) \<Longrightarrow> snd (fst w1) = snd (fst w)"
  by (auto simp: logging_def quiet_def split: prod.splits)

lemma requests_simps [simp]:
  "requests (post_now op c r) = requests r" "requests (post_later ops r) = requests r" "requests (set_desc d ds r) = requests r"
  "requests (r\<lparr>world := w\<rparr>) = snd (fst w)" "requests (queue_op j d op ds r) = requests r"
  by (simp_all add: requests_def queue_op_def Let_def)

lemma queue_op_descs [simp]: "descs (queue_op j d op ds r) = (descs r)(d \<mapsto> enqueue j op ds)"
  by (simp add: queue_op_def Let_def)

lemma enqueue_fields [simp]:
  "descriptor (enqueue j op ds) = descriptor ds" "registered_events (enqueue j op ds) = registered_events ds"
  "ds_shutdown (enqueue j op ds) = ds_shutdown ds"
  by (simp_all add: enqueue_def)

lemma try_requests:
  assumes "descs r d = Some ds"
  shows "try_now (logging (quiet perform)) j d op c ds r = Inl r1 \<Longrightarrow>
      requests r1 = requests r \<and> (\<exists>f. descs r1 = descs r \<or> descs r1 = (descs r)(d \<mapsto> ds\<lparr>try_speculative := f\<rparr>))"
    and "try_now (logging (quiet perform)) j d op c ds r = Inr (op1, r1) \<Longrightarrow> requests r1 = requests r \<and> descs r1 = descs r"
  by (auto simp: try_now_def Let_def requests_def dest!: quiet_world split: if_splits prod.splits status.splits)

lemma asked_enqueue:
  assumes "asked r" and "requests r1 = requests r" and "descs r1 = (descs r)(d \<mapsto> enqueue j op ds)" and "descs r d = Some ds" "\<not> ds_shutdown ds"
    and "last_request (requests r) (descriptor ds) = Some q" "req_ptr q = Some d"
  shows "asked r1"
  using assms by (auto simp: asked_def ds_asked_def)

lemma start_asked:
  assumes a: "asked r" and ds: "descs r d = Some ds" and c: "current r d fd"
  shows "asked (start_op (logging (quiet perform)) (lift_ctl (recorded ctl)) j fd (Some d) op cont spec r)" (is "asked (?start r)")
proof (cases "ds_shutdown ds")
  case True
  then show ?thesis using a ds by (auto simp: start_op_def intro: asked_same)
next
  case False
  then obtain q where fd: "descriptor ds = fd" "last_request (requests r) (descriptor ds) = Some q" "req_ptr q = Some d"
    using c ds by (auto simp: current_def)
  have free: "waiting_ops es = []" if "e \<noteq> d" "descs r e = Some es" "\<not> ds_shutdown es" "descriptor es = fd" for e es
    using a that fd by (force simp: asked_def ds_asked_def)
  have enq: "asked r1" if "requests r1 = requests r" "descs r1 = (descs r)(d \<mapsto> enqueue j op1 ds)" for r1 op1
    by (rule asked_enqueue [OF a that ds False fd(2,3)])
  have mod: "asked r1" if "requests r1 = requests r @ [\<lparr>req_op = CTL_MOD, req_fd = fd, req_ptr = Some d, req_events = e, req_result = res\<rparr>]"
      "descs r1 = (descs r)(d \<mapsto> ds1)" "descriptor ds1 = fd" "e OR registered_events ds1 = e" "res = 0 \<Longrightarrow> e = registered_events ds1"
    for r1 e res ds1
    using that free by (intro asked_request [OF a that(1,2)]) auto
  have tr: "asked r1" if "requests r1 = requests r" "descs r1 = descs r \<or> descs r1 = (descs r)(d \<mapsto> ds\<lparr>try_speculative := f\<rparr>)" for r1 f
    using that ds by (intro asked_shrunk [OF a that(1)]) (auto split: if_splits)
  have self: "(descs r)(d \<mapsto> ds) = descs r" using ds by auto
  consider "ds_queue ds j \<noteq> []" | "ds_queue ds j = []" "spec \<and> (j \<noteq> read_op \<or> ds_queue ds except_op = [])"
    | "ds_queue ds j = []" "\<not> (spec \<and> (j \<noteq> read_op \<or> ds_queue ds except_op = []))" by blast
  then show ?thesis
  proof cases
    case 1
    then show ?thesis using ds False by (auto simp: start_op_def intro!: enq)
  next
    case 2
    show ?thesis
    proof (cases "try_now (logging (quiet perform)) j d op cont ds r")
      case (Inl r1)
      then show ?thesis using ds 2 False tr try_requests(1) [OF ds Inl] by (auto simp: start_op_def)
    next
      case (Inr z)
      obtain op1 r1 where z: "z = (op1, r1)" by force
      note t = try_requests(2) [OF ds Inr [unfolded z]]
      obtain res w where k: "lift_ctl (recorded ctl) CTL_MOD fd (Some d) (registered_events ds OR EPOLLOUT) (world r1) = (res, w)" by (metis surj_pair)
      have l: "snd (fst w) = requests r @ [\<lparr>req_op = CTL_MOD, req_fd = fd, req_ptr = Some d, req_events = registered_events ds OR EPOLLOUT, req_result = res\<rparr>]"
        using recorded_world [OF k] t by (simp add: requests_def)
      show ?thesis
      proof (cases "j = write_op \<and> registered_events ds AND EPOLLOUT = 0 \<and> registered_events ds \<noteq> 0")
        case True
        have "asked (queue_op j d op1 (ds\<lparr>registered_events := registered_events ds OR (registered_events ds OR EPOLLOUT)\<rparr>) (r1\<lparr>world := w\<rparr>))"
          by (rule mod) (auto simp: l t fd or.left_idem or.assoc)
        moreover have "asked (post_now op2 cont (r1\<lparr>world := w\<rparr>))" if "res \<noteq> 0" for op2
          by (rule mod [of _ "registered_events ds OR EPOLLOUT" res ds]) (use that in \<open>auto simp: l t fd self or.commute or.left_commute or.left_idem\<close>)
        ultimately show ?thesis using ds 2 False Inr z k True by (auto simp: start_op_def Let_def)
      next
        case no: False
        have "asked (queue_op j d op1 ds r1)" "asked (post_now op2 cont r1)" for op2
          using enq [of "queue_op j d op1 ds r1" op1] t tr [of "post_now op2 cont r1"] by simp_all
        then show ?thesis using ds 2 False Inr z no by (auto simp: start_op_def Let_def)
      qed
    qed
  next
    case 3
    let ?ds = "if j = write_op then ds\<lparr>registered_events := registered_events ds OR EPOLLOUT\<rparr> else ds"
    obtain res w where k: "lift_ctl (recorded ctl) CTL_MOD fd (Some d) (registered_events ?ds) (world r) = (res, w)" by (metis surj_pair)
    have l: "snd (fst w) = requests r @ [\<lparr>req_op = CTL_MOD, req_fd = fd, req_ptr = Some d, req_events = registered_events ?ds, req_result = res\<rparr>]"
      using recorded_world [OF k] by (simp add: requests_def)
    have "asked (queue_op j d op ?ds (r\<lparr>world := w\<rparr>))" by (rule mod) (auto simp: l fd)
    moreover have "asked (post_now op2 cont r)" for op2 by (rule asked_same [OF a]) simp_all
    ultimately show ?thesis using ds 3 False k by (auto simp: start_op_def Let_def)
  qed
qed

lemma register_asked:
  assumes a: "asked r" and d: "descs r d = None" and pr: "proper r (Register d fd)"
  shows "asked (snd (register_descriptor (lift_ctl (recorded ctl)) d fd r))"
proof -
  obtain res w where k: "lift_ctl (recorded ctl) CTL_ADD fd (Some d) all_events (world r) = (res, w)" by (metis surj_pair)
  have "asked (set_desc d ((fresh_state fd)\<lparr>registered_events := e\<rparr>) (r\<lparr>world := w\<rparr>))" if "e = all_events \<or> e = 0 \<and> res \<noteq> 0" for e
    using recorded_world [OF k] pr that by (intro asked_request [OF a]) (auto simp: requests_def fresh_state_def)
  from this [of all_events] this [of 0] show ?thesis using k
    by (auto simp: register_descriptor_def Let_def fresh_state_def EPERM_def)
qed

lemma deregister_asked:
  assumes a: "asked r" and pr: "proper r (Deregister p fd)"
  shows "asked (snd (deregister_descriptor (lift_ctl (recorded ctl)) fd p closing r))"
proof (cases "\<exists>d ds. p = Some d \<and> descs r d = Some ds \<and> \<not> ds_shutdown ds \<and> \<not> closing \<and> registered_events ds \<noteq> 0")
  case True
  then obtain d ds where d: "p = Some d" "descs r d = Some ds" "\<not> ds_shutdown ds" "\<not> closing" "registered_events ds \<noteq> 0" by blast
  then obtain q where q: "descriptor ds = fd" "last_request (requests r) fd = Some q" "req_ptr q = Some d" using pr by (auto simp: current_def)
  obtain res w where k: "lift_ctl (recorded ctl) CTL_DEL fd None 0 (world r) = (res, w)" by (metis surj_pair)
  let ?log = "requests r @ [\<lparr>req_op = CTL_DEL, req_fd = fd, req_ptr = None, req_events = 0, req_result = res\<rparr>]"
  have "ds_asked ?log e es" if "e \<noteq> d" "descs r e = Some es" "\<not> ds_shutdown es" for e es
    using a that q by (force simp: asked_def ds_asked_def)
  moreover have "snd (fst w) = ?log" using recorded_world [OF k] by (simp add: requests_def)
  ultimately show ?thesis using d k by (auto simp: deregister_descriptor_def Let_def asked_def split: if_splits)
next
  case False
  show ?thesis
  proof (rule asked_shrunk [OF a])
    show "requests (snd (deregister_descriptor (lift_ctl (recorded ctl)) fd p closing r)) = requests r"
      using False by (auto simp: deregister_descriptor_def Let_def split: option.split)
    fix d ds1
    assume "descs (snd (deregister_descriptor (lift_ctl (recorded ctl)) fd p closing r)) d = Some ds1" "\<not> ds_shutdown ds1"
    then show "\<exists>ds. descs r d = Some ds \<and> shrunk ds ds1"
      by (auto simp: deregister_descriptor_def Let_def split: option.splits if_splits)
  qed
qed

lemma perform_queue_quiet:
  "perform_queue (logging (quiet perform)) ops w = (cs, rest, ex, w1) \<Longrightarrow> snd (fst w1) = snd (fst w) \<and> (rest \<noteq> [] \<longrightarrow> ops \<noteq> [])"
proof (induction ops arbitrary: w cs rest ex w1)
  case (Cons op ops)
  obtain st op1 w2 where p: "logging (quiet perform) op w = (st, op1, w2)" by (metis prod_cases3)
  show ?case using Cons quiet_world [OF p] p by (auto split: status.splits prod.splits)
qed simp

lemma perform_types_quiet:
  assumes "fold (perform_type (logging (quiet perform)) evs) js (ds, ops, w) = (ds1, ops1, w1)" and "\<forall>j\<in>set js. j < max_ops"
  shows "shrunk ds ds1 \<and> snd (fst w1) = snd (fst w)"
  using assms
proof (induction js arbitrary: ds ops w)
  case (Cons j js)
  obtain ds2 ops2 w2 where t: "perform_type (logging (quiet perform)) evs j (ds, ops, w) = (ds2, ops2, w2)" by (metis prod_cases3)
  obtain cs rest ex w3 where q: "perform_queue (logging (quiet perform)) (ds_queue ds j) w = (cs, rest, ex, w3)" by (metis prod_cases4)
  note qq = perform_queue_quiet [OF q]
  have "shrunk ds (ds\<lparr>ds_queue := (ds_queue ds)(j := rest)\<rparr>)" using qq Cons.prems(2) by (intro shrunk_queue) auto
  then have "shrunk ds ds2 \<and> snd (fst w2) = snd (fst w)"
    using t q qq shrunk_trans [OF _ shrunk_refl(2)] by (auto simp: perform_type_def split: if_splits)
  moreover have "shrunk ds2 ds1 \<and> snd (fst w1) = snd (fst w2)" using Cons t by simp
  ultimately show ?case using shrunk_trans by auto
qed simp

lemma io_asked:
  assumes a: "asked r" and d: "descs r d = Some ds" and p: "perform_io (logging (quiet perform)) d evs r = (res, r1)"
  shows "asked r1"
proof -
  obtain ds1 ops w where f: "fold (perform_type (logging (quiet perform)) evs) (rev [0..<max_ops]) (ds, [], world r) = (ds1, ops, w)" by (metis prod_cases3)
  have s: "shrunk ds ds1" "snd (fst w) = requests r" using perform_types_quiet [OF f] by (simp_all add: requests_def)
  have "asked (set_desc d ds1 (r\<lparr>world := w\<rparr>))" using s d by (intro asked_shrunk [OF a]) (auto split: if_splits)
  then show ?thesis using p d f
    by (auto simp: perform_io_def Let_def split: list.splits if_splits elim!: asked_same)
qed

lemma same_shrunk:
  assumes "same_but_ready m m1" and "m1 d = Some y"
  shows "\<exists>x. m d = Some x \<and> shrunk x y"
proof -
  obtain x where x: "m d = Some x" "y\<lparr>ready_events := 0\<rparr> = x\<lparr>ready_events := 0\<rparr>"
    using assms unfolding same_but_ready_def by (metis (no_types, lifting) map_option_eq_Some option.simps(9))
  have "shrunk x (x\<lparr>ready_events := 0\<rparr>)" "shrunk (y\<lparr>ready_events := 0\<rparr>) y"
    by (simp_all add: shrunk_def waiting_three)
  then show ?thesis using x shrunk_trans by metis
qed

lemma asked_step:
  assumes "reactor_step (quiet perform) (recorded ctl) kind a c d" and "proper (rx c) a" and "asked (rx c)"
  shows "asked (rx d)"
  using assms
proof (induction rule: reactor_step.induct)
  case start_closed
  then show ?case by (auto simp: start_op_def intro: asked_same)
next
  case start
  then show ?case by (simp add: start_asked)
next
  case register
  then show ?case by (simp add: register_asked del: proper.simps)
next
  case (cancel c p)
  have "asked (post_later ops (set_desc e (no_ops ds) (rx c)))" if "descs (rx c) e = Some ds" for ops e ds
    using that by (intro asked_shrunk [OF cancel.prems(2)]) (auto split: if_splits)
  then show ?case using cancel.prems by (auto simp: cancel_ops_def split: option.split)
next
  case (cancel_key j c p k)
  have "asked (post_later ops (set_desc e (ds\<lparr>ds_queue := (ds_queue ds)(j := filter P (ds_queue ds j))\<rparr>) (rx c)))"
    if "descs (rx c) e = Some ds" for ops e ds P
    using that cancel_key.hyps by (intro asked_shrunk [OF cancel_key.prems(2)]) (auto intro!: shrunk_queue split: if_splits)
  then show ?case using cancel_key.prems by (auto simp: cancel_ops_by_key_def split: option.split)
next
  case deregister
  then show ?case by (simp add: deregister_asked del: proper.simps)
next
  case cleanup
  then show ?case by (auto simp: cleanup_descriptor_data_def requests_def intro: asked_shrunk split: if_splits)
next
  case (events c t tfd dur evs usec ops r)
  note e = run_effect [OF events.hyps(2)]
  show ?case using e same_shrunk [OF e(2)] by (intro asked_shrunk [OF events.prems(2)]) (auto simp: requests_def)
next
  case (io c d ds res r)
  then show ?case using io_asked by (auto simp: do_complete_def)
qed (auto simp: requests_def intro: asked_same asked_shrunk)

lemma proper_asked: "proper_reaches perform ctl kind c \<Longrightarrow> asked (rx c)"
proof (induction rule: proper_reaches.induct)
  case (new w one)
  then show ?case by (simp add: asked_def run_new_def)
qed (auto intro: asked_step)

text \<open>
  C18. No operation waits for an event that epoll was not asked to report. In every run in which the sockets use the reactor as they
  do, a descriptor on which an operation waits is open, the events recorded for it contain that of the operation, and the last call of
  \<^verbatim>\<open>epoll_ctl\<close> for its number was an \<^verbatim>\<open>ADD\<close> or a \<^verbatim>\<open>MOD\<close> that passed a pointer to this descriptor and asked for that event. If epoll
  accepted the call, then epoll's set holds the descriptor with just the recorded events. (It may have been refused: for an operation
  that is not tried at once the code does not look at the result, and the operation waits all the same.)
\<close>

theorem waiting_is_registered:
  assumes "keeps_ids perform" and "proper_reaches perform ctl kind c" and "descs (rx c) d = Some ds" and "j < max_ops" and "ds_queue ds j \<noteq> []"
  shows "\<not> ds_shutdown ds \<and> registered_events ds AND flag j \<noteq> 0 \<and>
    (\<exists>q. last_request (requests (rx c)) (descriptor ds) = Some q \<and> req_op q \<noteq> CTL_DEL \<and> req_ptr q = Some d \<and> req_events q AND flag j \<noteq> 0 \<and>
       (req_result q = 0 \<longrightarrow> epoll_set (requests (rx c)) (descriptor ds) = Some (Some d, registered_events ds)))"
proof -
  have r: "registered_events ds AND flag j \<noteq> 0" "\<not> ds_shutdown ds"
    using reaches_registered [OF quiet_keeps [OF assms(1)] proper_runs [OF assms(2)]] assms(3-5) unfolding registered_ok_def ds_ok_def by blast+
  have "waiting_ops ds \<noteq> []" using assms(4,5) by (auto simp: waiting_ops_def)
  then obtain q where q: "last_request (requests (rx c)) (descriptor ds) = Some q" "req_ptr q = Some d" "req_op q \<noteq> CTL_DEL"
      "req_events q OR registered_events ds = req_events q" "req_result q = 0 \<longrightarrow> req_events q = registered_events ds"
    using proper_asked [OF assms(2)] assms(3) r(2) by (fastforce simp: asked_def ds_asked_def)
  have "req_events q AND flag j \<noteq> 0"
  proof
    assume "req_events q AND flag j = 0"
    then have "(req_events q OR registered_events ds) AND flag j = 0" using q(4) by simp
    then have "registered_events ds AND flag j = 0" by (simp add: bit_eq_iff bit_simps) blast
    with r(1) show False by simp
  qed
  then show ?thesis using r q epoll_set_last [OF q(1)] by auto
qed

end
