(* ===== verification/AsioSocketOps.thy ===== *)
theory AsioSocketOps
  imports AsioReactorRuns
begin

unbundle bit_operations_syntax

text \<open>
  The asynchronous operations on a socket: what the reactor tries (\<^verbatim>\<open>reactive_socket_recv_op.hpp\<close>, \<^verbatim>\<open>reactive_socket_send_op.hpp\<close>,
  \<^verbatim>\<open>reactive_socket_connect_op.hpp\<close>), and how an operation is started and a socket opened, cancelled and closed
  (\<^verbatim>\<open>reactive_socket_service_base\<close>). The operations are shown to fulfil the reactor's contracts, and the starting functions to be
  runs of theory \<open>AsioReactorRuns\<close>.
\<close>

section \<open>What the reactor tries\<close>

text \<open>The arguments of an operation; \<open>Recv\<close> also has the bytes received.\<close>

datatype sock_body = Recv bool nat buffer | Send bool "buffer list" | Connect

text \<open>
  A receive that is not done leaves its error code at what the last attempt returned. A call that is interrupted for ever
  (\<open>None\<close>), from which the code would not return, counts as not done.
\<close>

definition recv_do_perform :: "'s os \<Rightarrow> bool \<Rightarrow> nat \<Rightarrow> (sock_body, 's) perform" where
  "recv_do_perform os stream len op s =
     (case non_blocking_recv1 os len stream s of
        None \<Rightarrow> (Not_done, op, s)
      | Some (None, s1) \<Rightarrow> (Not_done, op\<lparr>op_ec := asio_would_block\<rparr>, s1)
      | Some (Some (ec, data), s1) \<Rightarrow>
          let op1 = op\<lparr>op_ec := ec, op_bytes := (if ec = asio_eof then op_bytes op else length data), op_body := Recv stream len data\<rparr>
          in (if stream \<and> op_bytes op1 = 0 then Done_and_exhausted else Done, op1, s1))"

definition send_do_perform :: "'s os \<Rightarrow> bool \<Rightarrow> buffer list \<Rightarrow> (sock_body, 's) perform" where
  "send_do_perform os stream bufs op s =
     (case non_blocking_send os bufs s of
        None \<Rightarrow> (Not_done, op, s)
      | Some (None, s1) \<Rightarrow> (Not_done, op\<lparr>op_ec := asio_would_block\<rparr>, s1)
      | Some (Some (ec, n), s1) \<Rightarrow>
          (if stream \<and> n < length (concat bufs) then Done_and_exhausted else Done, op\<lparr>op_ec := ec, op_bytes := n\<rparr>, s1))"

text \<open>Whether the attempt to connect has ended, with its error code.\<close>

definition non_blocking_connect :: "'s os \<Rightarrow> 's \<Rightarrow> error_code option \<times> 's" where
  "non_blocking_connect os s =
     (case sys_poll os True 0 s of (ready, s1) \<Rightarrow>
        if ready = Inr 0 then (None, s1)
        else (case sys_so_error os s1 of
                (Inl e, s2) \<Rightarrow> (Some (sys_ec e), s2)
              | (Inr connect_error, s2) \<Rightarrow> (Some (if connect_error \<noteq> 0 then sys_ec connect_error else ec_ok), s2)))"

definition connect_do_perform :: "'s os \<Rightarrow> (sock_body, 's) perform" where
  "connect_do_perform os op s =
     (case non_blocking_connect os s of
        (None, s1) \<Rightarrow> (Not_done, op, s1)
      | (Some ec, s1) \<Rightarrow> (Done, op\<lparr>op_ec := ec\<rparr>, s1))"

definition sock_perform :: "'s os \<Rightarrow> (sock_body, 's) perform" where
  "sock_perform os op =
     (case op_body op of
        Recv stream len _ \<Rightarrow> recv_do_perform os stream len op
      | Send stream bufs \<Rightarrow> send_do_perform os stream bufs op
      | Connect \<Rightarrow> connect_do_perform os op)"

lemma sock_perform_id: "op_id (fst (snd (sock_perform os op s))) = op_id op"
  by (auto simp: sock_perform_def recv_do_perform_def send_do_perform_def connect_do_perform_def Let_def
      split: sock_body.split option.split prod.split)

lemma sock_keeps_ids: "keeps_ids (sock_perform os)"
  by (simp add: keeps_ids_def sock_perform_id)

interpretation sockp: performer "sock_perform os" for os :: "'s os"
  by unfold_locales (metis fst_conv snd_conv sock_perform_id)

interpretation sockl: logged_performer "logging (sock_perform os)" "lift_ctl ctl" snd for os :: "'s os" and ctl :: "'s ctl"
  by (rule logged [OF sock_keeps_ids])

section \<open>The socket\<close>

record async_impl = socket_impl +
  native_socket :: int
  internal_non_blocking :: bool
  possible_dup :: bool
  reactor_data :: "nat option"

definition construct_impl :: "bool \<Rightarrow> async_impl" where
  "construct_impl u = socket_impl.extend (socket_construct u)
     \<lparr>native_socket = - 1, internal_non_blocking = False, possible_dup = False, reactor_data = None\<rparr>"

definition is_non_blocking :: "async_impl \<Rightarrow> bool" where
  "is_non_blocking impl \<longleftrightarrow> user_set_non_blocking impl \<or> internal_non_blocking impl"

text \<open>The system calls that set a descriptor's mode.\<close>

record 'w mode_sys =
  sys_ioctl :: "bool \<Rightarrow> 'w \<Rightarrow> (int + unit) \<times> 'w"
  sys_getfl :: "'w \<Rightarrow> (int + 32 word) \<times> 'w"
  sys_setfl :: "32 word \<Rightarrow> 'w \<Rightarrow> (int + unit) \<times> 'w"

definition O_NONBLOCK :: "32 word" where "O_NONBLOCK = 2048"
definition ENOTTY :: int where "ENOTTY = 25"
definition asio_invalid_argument :: error_code where "asio_invalid_argument = sys_ec 22"

definition set_internal_non_blocking :: "'w mode_sys \<Rightarrow> async_impl \<Rightarrow> bool \<Rightarrow> 'w \<Rightarrow> bool \<times> error_code \<times> async_impl \<times> 'w" where
  "set_internal_non_blocking sys impl value w =
     (if \<not> socket_open impl then (False, asio_bad_descriptor, impl, w)
      else if \<not> value \<and> user_set_non_blocking impl then (False, asio_invalid_argument, impl, w)
      else
        (case (case sys_ioctl sys value w of (res, w1) \<Rightarrow>
                 if res = Inl ENOTTY then
                   (case sys_getfl sys w1 of
                      (Inl e, w2) \<Rightarrow> (Inl e, w2)
                    | (Inr fl, w2) \<Rightarrow> sys_setfl sys (if value then fl OR O_NONBLOCK else fl AND NOT O_NONBLOCK) w2)
                 else (res, w1)) of
           (Inl e, w3) \<Rightarrow> (False, sys_ec e, impl, w3)
         | (Inr _, w3) \<Rightarrow> (True, ec_ok, impl\<lparr>internal_non_blocking := value\<rparr>, w3)))"

section \<open>Starting an operation\<close>

definition do_start_op :: "('x, 'w) perform \<Rightarrow> 'w ctl \<Rightarrow> 'w mode_sys \<Rightarrow> nat \<Rightarrow> 'x reactor_op \<Rightarrow> bool \<Rightarrow> bool \<Rightarrow> bool \<Rightarrow>
    async_impl \<Rightarrow> ('x, 'w) reactor \<Rightarrow> async_impl \<times> ('x, 'w) reactor" where
  "do_start_op perform ctl sys op_type op is_continuation allow_speculative noop impl r =
     (if \<not> noop then
        (if is_non_blocking impl
         then (impl, start_op perform ctl op_type (native_socket impl) (reactor_data impl) op is_continuation allow_speculative r)
         else (case set_internal_non_blocking sys impl True (world r) of (ok, ec, impl1, w) \<Rightarrow>
                 let op1 = op\<lparr>op_ec := ec\<rparr>; r1 = r\<lparr>world := w\<rparr>
                 in if ok
                    then (impl1, start_op perform ctl op_type (native_socket impl1) (reactor_data impl1) op1 is_continuation allow_speculative r1)
                    else (impl1, post_now op1 is_continuation r1)))
      else (impl, post_now op is_continuation r))"

definition do_start_accept_op :: "('x, 'w) perform \<Rightarrow> 'w ctl \<Rightarrow> 'w mode_sys \<Rightarrow> 'x reactor_op \<Rightarrow> bool \<Rightarrow> bool \<Rightarrow>
    async_impl \<Rightarrow> ('x, 'w) reactor \<Rightarrow> async_impl \<times> ('x, 'w) reactor" where
  "do_start_accept_op perform ctl sys op is_continuation peer_is_open impl r =
     (if \<not> peer_is_open then do_start_op perform ctl sys read_op op is_continuation True False impl r
      else (impl, post_now (op\<lparr>op_ec := asio_already_open\<rparr>) is_continuation r))"

text \<open>\<open>connect\<close> is \<open>socket_ops::connect\<close> on the address; its code is that of a failure exactly when the call fails.\<close>

definition do_start_connect_op :: "('x, 'w) perform \<Rightarrow> 'w ctl \<Rightarrow> 'w mode_sys \<Rightarrow> (async_impl \<Rightarrow> 'w \<Rightarrow> error_code \<times> 'w) \<Rightarrow> 'x reactor_op \<Rightarrow> bool \<Rightarrow>
    async_impl \<Rightarrow> ('x, 'w) reactor \<Rightarrow> async_impl \<times> ('x, 'w) reactor" where
  "do_start_connect_op perform ctl sys connect op is_continuation impl r =
     (case (if is_non_blocking impl then (True, op_ec op, impl, world r) else set_internal_non_blocking sys impl True (world r)) of
        (ok, ec, impl1, w) \<Rightarrow>
          if ok then
            (case connect impl1 w of (ec1, w1) \<Rightarrow>
               let r1 = r\<lparr>world := w1\<rparr>
               in if ec1 = asio_in_progress \<or> ec1 = asio_would_block
                  then (impl1, start_op perform ctl connect_op (native_socket impl1) (reactor_data impl1) (op\<lparr>op_ec := ec_ok\<rparr>) is_continuation False r1)
                  else (impl1, post_now (op\<lparr>op_ec := ec1\<rparr>) is_continuation r1))
          else (impl1, post_now (op\<lparr>op_ec := ec\<rparr>) is_continuation (r\<lparr>world := w\<rparr>)))"

definition new_op :: "nat \<Rightarrow> nat \<Rightarrow> sock_body \<Rightarrow> sock_body reactor_op" where
  "new_op i key body = \<lparr>op_id = i, op_ec = ec_ok, op_key = key, op_bytes = 0, op_body = body\<rparr>"

definition async_send :: "(sock_body, 'w) perform \<Rightarrow> 'w ctl \<Rightarrow> 'w mode_sys \<Rightarrow> nat \<Rightarrow> nat \<Rightarrow> bool \<Rightarrow> buffer list \<Rightarrow>
    async_impl \<Rightarrow> (sock_body, 'w) reactor \<Rightarrow> async_impl \<times> (sock_body, 'w) reactor" where
  "async_send perform ctl sys i key is_continuation bufs impl r =
     do_start_op perform ctl sys write_op (new_op i key (Send (stream_oriented impl) bufs)) is_continuation True
       (stream_oriented impl \<and> list_all (\<lambda>b. b = []) bufs) impl r"

definition async_receive :: "(sock_body, 'w) perform \<Rightarrow> 'w ctl \<Rightarrow> 'w mode_sys \<Rightarrow> nat \<Rightarrow> nat \<Rightarrow> bool \<Rightarrow> bool \<Rightarrow> nat \<Rightarrow>
    async_impl \<Rightarrow> (sock_body, 'w) reactor \<Rightarrow> async_impl \<times> (sock_body, 'w) reactor" where
  "async_receive perform ctl sys i key is_continuation out_of_band len impl r =
     do_start_op perform ctl sys (if out_of_band then except_op else read_op) (new_op i key (Recv (stream_oriented impl) len [])) is_continuation
       (\<not> out_of_band) (stream_oriented impl \<and> len = 0) impl r"

definition async_connect :: "(sock_body, 'w) perform \<Rightarrow> 'w ctl \<Rightarrow> 'w mode_sys \<Rightarrow> (async_impl \<Rightarrow> 'w \<Rightarrow> error_code \<times> 'w) \<Rightarrow> nat \<Rightarrow> nat \<Rightarrow> bool \<Rightarrow>
    async_impl \<Rightarrow> (sock_body, 'w) reactor \<Rightarrow> async_impl \<times> (sock_body, 'w) reactor" where
  "async_connect perform ctl sys connect i key is_continuation impl r =
     do_start_connect_op perform ctl sys connect (new_op i key Connect) is_continuation impl r"

section \<open>Opening, cancelling, closing\<close>

text \<open>
  \<open>socket\<close> yields a descriptor or an error number, \<open>close\<close> is \<open>socket_ops::close\<close> of theory \<open>AsioSocket\<close>, \<open>d\<close> is the object the reactor's pool gives out.
  A socket that cannot be registered is closed again; the object stays with the reactor.
\<close>

definition async_open :: "'w ctl \<Rightarrow> ('w \<Rightarrow> (int + int) \<times> 'w) \<Rightarrow> (int \<Rightarrow> 'w \<Rightarrow> error_code \<times> 'w) \<Rightarrow> nat \<Rightarrow> async_impl \<Rightarrow> ('x, 'w) reactor \<Rightarrow>
    error_code \<times> async_impl \<times> ('x, 'w) reactor" where
  "async_open ctl socket close d impl r =
     (if socket_open impl then (asio_already_open, impl, r)
      else (case socket (world r) of
              (Inl e, w) \<Rightarrow> (sys_ec e, impl, r\<lparr>world := w\<rparr>)
            | (Inr fd, w) \<Rightarrow>
                (case register_descriptor ctl d fd (r\<lparr>world := w\<rparr>) of (err, r1) \<Rightarrow>
                   let impl1 = impl\<lparr>reactor_data := Some d\<rparr>
                   in if err \<noteq> 0
                      then (sys_ec err, impl1, r1\<lparr>world := snd (close fd (world r1))\<rparr>)
                      else (ec_ok, impl1\<lparr>socket_open := True, native_socket := fd, stream_oriented := True, user_set_non_blocking := False,
                              internal_non_blocking := False, possible_dup := False\<rparr>, r1))))"

definition async_cancel :: "async_impl \<Rightarrow> ('x, 'w) reactor \<Rightarrow> error_code \<times> ('x, 'w) reactor" where
  "async_cancel impl r = (if \<not> socket_open impl then (asio_bad_descriptor, r) else (ec_ok, cancel_ops (reactor_data impl) r))"

definition async_close :: "'w ctl \<Rightarrow> (int \<Rightarrow> 'w \<Rightarrow> error_code \<times> 'w) \<Rightarrow> async_impl \<Rightarrow> ('x, 'w) reactor \<Rightarrow> error_code \<times> async_impl \<times> ('x, 'w) reactor" where
  "async_close ctl close impl r =
     (if socket_open impl then
        (case deregister_descriptor ctl (native_socket impl) (reactor_data impl) (\<not> possible_dup impl) r of (p, r1) \<Rightarrow>
           (case close (native_socket impl) (world r1) of (ec, w) \<Rightarrow>
              (case cleanup_descriptor_data p (r1\<lparr>world := w\<rparr>) of (_, r2) \<Rightarrow> (ec, construct_impl (addr_unix impl), r2))))
      else (ec_ok, construct_impl (addr_unix impl), r))"

definition async_release :: "'w ctl \<Rightarrow> async_impl \<Rightarrow> ('x, 'w) reactor \<Rightarrow> (error_code + int) \<times> async_impl \<times> ('x, 'w) reactor" where
  "async_release ctl impl r =
     (if \<not> socket_open impl then (Inl asio_bad_descriptor, impl, r)
      else (case deregister_descriptor ctl (native_socket impl) (reactor_data impl) False r of (p, r1) \<Rightarrow>
              (case cleanup_descriptor_data p r1 of (_, r2) \<Rightarrow> (Inr (native_socket impl), construct_impl (addr_unix impl), r2))))"

section \<open>The functions above are runs of the reactor\<close>

text \<open>The system calls on the state of the operating system with the log beside it, which they do not touch.\<close>

definition lifted :: "('w \<Rightarrow> 'a \<times> 'w) \<Rightarrow> 'w \<times> 'l \<Rightarrow> 'a \<times> 'w \<times> 'l" where
  "lifted f wl = (case wl of (w, l) \<Rightarrow> (case f w of (x, w1) \<Rightarrow> (x, w1, l)))"

definition lift_mode :: "'w mode_sys \<Rightarrow> ('w \<times> 'l) mode_sys" where
  "lift_mode sys = \<lparr>sys_ioctl = (\<lambda>v. lifted (sys_ioctl sys v)), sys_getfl = lifted (sys_getfl sys), sys_setfl = (\<lambda>f. lifted (sys_setfl sys f))\<rparr>"

lemma lifted_log: "lifted f w = (x, w1) \<Longrightarrow> snd w1 = snd w"
  by (auto simp: lifted_def split: prod.splits)

lemma set_internal_log:
  assumes "set_internal_non_blocking (lift_mode sys) impl value w = (ok, ec, impl1, w1)"
  shows "snd w1 = snd w" and "reactor_data impl1 = reactor_data impl"
  using assms by (auto simp: set_internal_non_blocking_def lift_mode_def dest!: lifted_log split: if_splits prod.splits sum.splits)

text \<open>The descriptor that an implementation names is in the reactor's pool, and the operation is of its kind.\<close>

definition names_descriptor :: "(nat \<Rightarrow> nat \<times> nat) \<Rightarrow> nat \<Rightarrow> nat \<Rightarrow> async_impl \<Rightarrow> ('x, 'w) reactor \<Rightarrow> bool" where
  "names_descriptor kind i j impl r \<longleftrightarrow> (\<forall>d. reactor_data impl = Some d \<longrightarrow> d \<in> dom (descs r) \<and> kind i = (d, j))"

lemma outside_reaches:
  assumes "reactor_reaches perform ctl kind c" and "snd w = snd (world (rx c))"
  shows "reactor_reaches perform ctl kind (c\<lparr>rx := (rx c)\<lparr>world := w\<rparr>\<rparr>)"
  using reactor_reaches.step [OF assms(1) reactor_step.outside [where c = c and w = "fst w"]] assms(2)
  by (metis prod.collapse)

lemma start_reaches:
  assumes "reactor_reaches perform ctl kind c" and "j < max_ops" and "names_descriptor kind (op_id op) j impl (rx c)"
  shows "reactor_reaches perform ctl kind
    (c\<lparr>rx := start_op (logging perform) (lift_ctl ctl) j fd (reactor_data impl) op cont spec (rx c), begun := begun c @ [op_id op]\<rparr>)"
proof (cases "reactor_data impl")
  case None
  then show ?thesis using reactor_reaches.step [OF assms(1) reactor_step.start_closed [OF assms(2)]] by simp
next
  case (Some d)
  then obtain ds where "descs (rx c) d = Some ds" "kind (op_id op) = (d, j)" using assms(3) by (auto simp: names_descriptor_def)
  then show ?thesis using reactor_reaches.step [OF assms(1) reactor_step.start [OF _ assms(2)]] Some by simp
qed

lemmas immediate_reaches = reactor_reaches.step [OF _ reactor_step.immediate]

text \<open>The same after a change of the operating system's state, the form in which the starting functions need it.\<close>

lemma later_reaches:
  assumes "reactor_reaches perform ctl kind c" and "snd w = snd (world (rx c))" and "op_id op1 = i"
  shows "reactor_reaches perform ctl kind (c\<lparr>rx := post_now op1 cont ((rx c)\<lparr>world := w\<rparr>), begun := begun c @ [i]\<rparr>)"
    and "j < max_ops \<Longrightarrow> names_descriptor kind i j impl (rx c) \<Longrightarrow> reactor_reaches perform ctl kind
      (c\<lparr>rx := start_op (logging perform) (lift_ctl ctl) j fd (reactor_data impl) op1 cont spec ((rx c)\<lparr>world := w\<rparr>), begun := begun c @ [i]\<rparr>)"
proof -
  note o = outside_reaches [OF assms(1,2)]
  show "reactor_reaches perform ctl kind (c\<lparr>rx := post_now op1 cont ((rx c)\<lparr>world := w\<rparr>), begun := begun c @ [i]\<rparr>)"
    using immediate_reaches [OF o, of op1 cont] assms(3) by simp
  show "reactor_reaches perform ctl kind
      (c\<lparr>rx := start_op (logging perform) (lift_ctl ctl) j fd (reactor_data impl) op1 cont spec ((rx c)\<lparr>world := w\<rparr>), begun := begun c @ [i]\<rparr>)"
    if "j < max_ops" "names_descriptor kind i j impl (rx c)"
    using start_reaches [OF o that(1), of op1 impl fd cont spec] that(2) assms(3) by (simp add: names_descriptor_def)
qed

theorem do_start_op_reaches:
  assumes "reactor_reaches perform ctl kind c" and "j < max_ops" and "names_descriptor kind (op_id op) j impl (rx c)"
    and "do_start_op (logging perform) (lift_ctl ctl) (lift_mode sys) j op cont spec noop impl (rx c) = (impl1, r)"
  shows "reactor_reaches perform ctl kind (c\<lparr>rx := r, begun := begun c @ [op_id op]\<rparr>)"
proof -
  consider "noop" | "\<not> noop" "is_non_blocking impl" | "\<not> noop" "\<not> is_non_blocking impl" by blast
  then show ?thesis
  proof cases
    case 1
    then show ?thesis using assms(4) immediate_reaches [OF assms(1), of op cont] by (auto simp: do_start_op_def)
  next
    case 2
    then show ?thesis using assms(4) start_reaches [OF assms(1-3)] by (auto simp: do_start_op_def)
  next
    case 3
    obtain ok ec impl2 w where s: "set_internal_non_blocking (lift_mode sys) impl True (world (rx c)) = (ok, ec, impl2, w)"
      by (metis prod_cases4)
    note l = set_internal_log [OF s]
    have n: "names_descriptor kind (op_id op) j impl2 (rx c)" using assms(3) l(2) by (simp add: names_descriptor_def)
    show ?thesis using assms(4) s 3 later_reaches(1) [OF assms(1) l(1), of "op\<lparr>op_ec := ec\<rparr>" "op_id op" cont]
        later_reaches(2) [OF assms(1) l(1) _ assms(2) n, of "op\<lparr>op_ec := ec\<rparr>" "native_socket impl2" cont spec]
      by (auto simp: do_start_op_def Let_def split: if_splits)
  qed
qed

theorem do_start_connect_op_reaches:
  assumes "reactor_reaches perform ctl kind c" and "names_descriptor kind (op_id op) connect_op impl (rx c)"
    and "\<And>im w ec w1. connect im w = (ec, w1) \<Longrightarrow> snd w1 = snd w"
    and "do_start_connect_op (logging perform) (lift_ctl ctl) (lift_mode sys) connect op cont impl (rx c) = (impl1, r)"
  shows "reactor_reaches perform ctl kind (c\<lparr>rx := r, begun := begun c @ [op_id op]\<rparr>)"
proof -
  let ?s = "if is_non_blocking impl then (True, op_ec op, impl, world (rx c)) else set_internal_non_blocking (lift_mode sys) impl True (world (rx c))"
  obtain ok ec impl2 w where s: "?s = (ok, ec, impl2, w)" by (metis prod_cases4)
  have l: "snd w = snd (world (rx c))" "reactor_data impl2 = reactor_data impl"
    using s set_internal_log [of sys impl True "world (rx c)" ok ec impl2 w] by (auto split: if_splits)
  obtain ec1 w1 where k: "connect impl2 w = (ec1, w1)" by (meson surj_pair)
  have k1: "snd w1 = snd (world (rx c))" using assms(3) [OF k] l(1) by simp
  have n: "names_descriptor kind (op_id op) connect_op impl2 (rx c)" using assms(2) l(2) by (simp add: names_descriptor_def)
  have j: "connect_op < max_ops" by (simp add: op_type_defs)
  show ?thesis using assms(4) s k
      later_reaches(1) [OF assms(1) l(1), of "op\<lparr>op_ec := ec\<rparr>" "op_id op" cont]
      later_reaches(1) [OF assms(1) k1, of "op\<lparr>op_ec := ec1\<rparr>" "op_id op" cont]
      later_reaches(2) [OF assms(1) k1 _ j n, of "op\<lparr>op_ec := ec_ok\<rparr>" "native_socket impl2" cont False]
    by (auto simp: do_start_connect_op_def Let_def split: if_splits)
qed

text \<open>
  They use the reactor as theory \<open>AsioReactorRuns\<close> wants it for what epoll is asked: opening a socket makes its number that of its
  descriptor, and starting an operation passes the number on.
\<close>

lemma proper_outside:
  assumes "proper_reaches perform ctl kind c" and "snd w = snd (world (rx c))" and "snd (fst w) = requests (rx c)"
  shows "proper_reaches perform ctl kind (c\<lparr>rx := (rx c)\<lparr>world := w\<rparr>\<rparr>)"
proof -
  have "reactor_step (quiet perform) (recorded ctl) kind (Outside (fst w)) c (c\<lparr>rx := (rx c)\<lparr>world := (fst w, snd (world (rx c)))\<rparr>\<rparr>)"
    by (rule reactor_step.outside)
  from proper_reaches.step [OF assms(1) this] show ?thesis using assms(2,3) by (metis prod.collapse proper.simps(4))
qed

lemma current_world:
  "snd (fst w) = requests r \<Longrightarrow> current (r\<lparr>world := w\<rparr>) d fd = current r d fd"
  by (simp add: current_def)

lemma proper_start:
  assumes "proper_reaches perform ctl kind c" and "j < max_ops" and "names_descriptor kind (op_id op) j impl (rx c)"
    and "\<And>d. reactor_data impl = Some d \<Longrightarrow> current (rx c) d fd"
  shows "proper_reaches perform ctl kind
    (c\<lparr>rx := start_op (logging (quiet perform)) (lift_ctl (recorded ctl)) j fd (reactor_data impl) op cont spec (rx c), begun := begun c @ [op_id op]\<rparr>)"
proof (cases "reactor_data impl")
  case None
  then show ?thesis using proper_reaches.step [OF assms(1) reactor_step.start_closed [OF assms(2)]] by simp
next
  case (Some d)
  then obtain ds where "descs (rx c) d = Some ds" "kind (op_id op) = (d, j)" using assms(3) by (auto simp: names_descriptor_def)
  then show ?thesis using proper_reaches.step [OF assms(1) reactor_step.start [OF _ assms(2)]] Some assms(4) by simp
qed

lemma set_internal_quiet:
  assumes "set_internal_non_blocking (lift_mode (lift_mode sys)) impl value w = (ok, ec, impl1, w1)"
  shows "snd w1 = snd w" and "snd (fst w1) = snd (fst w)" and "reactor_data impl1 = reactor_data impl" and "native_socket impl1 = native_socket impl"
  using assms by (auto simp: set_internal_non_blocking_def lift_mode_def lifted_def split: if_splits prod.splits sum.splits)

theorem do_start_op_proper:
  assumes "proper_reaches perform ctl kind c" and "j < max_ops" and "names_descriptor kind (op_id op) j impl (rx c)"
    and "\<And>d. reactor_data impl = Some d \<Longrightarrow> current (rx c) d (native_socket impl)"
    and "do_start_op (logging (quiet perform)) (lift_ctl (recorded ctl)) (lift_mode (lift_mode sys)) j op cont spec noop impl (rx c) = (impl1, r)"
  shows "proper_reaches perform ctl kind (c\<lparr>rx := r, begun := begun c @ [op_id op]\<rparr>)"
proof -
  have post: "proper_reaches perform ctl kind (e\<lparr>rx := post_now op1 cont (rx e), begun := begun e @ [op_id op1]\<rparr>)"
    if "proper_reaches perform ctl kind e" for e op1
    using proper_reaches.step [OF that reactor_step.immediate] by simp
  consider "noop" | "\<not> noop" "is_non_blocking impl" | "\<not> noop" "\<not> is_non_blocking impl" by blast
  then show ?thesis
  proof cases
    case 1
    then show ?thesis using assms(5) post [OF assms(1), of op] by (auto simp: do_start_op_def)
  next
    case 2
    then show ?thesis using assms(5) proper_start [OF assms(1-4)] by (auto simp: do_start_op_def)
  next
    case 3
    obtain ok ec impl2 w where s: "set_internal_non_blocking (lift_mode (lift_mode sys)) impl True (world (rx c)) = (ok, ec, impl2, w)"
      by (metis prod_cases4)
    note l = set_internal_quiet [OF s]
    have l2: "snd (fst w) = requests (rx c)" using l(2) by (simp add: requests_def)
    let ?c = "c\<lparr>rx := (rx c)\<lparr>world := w\<rparr>\<rparr>"
    have o: "proper_reaches perform ctl kind ?c" by (rule proper_outside [OF assms(1) l(1) l2])
    have n: "names_descriptor kind (op_id (op\<lparr>op_ec := ec\<rparr>)) j impl2 (rx ?c)" using assms(3) l(3) by (simp add: names_descriptor_def)
    have k: "current (rx ?c) d (native_socket impl2)" if "reactor_data impl2 = Some d" for d
      using assms(4) that l(3,4) current_world [OF l2] by simp
    show ?thesis using assms(5) s 3 post [OF o, of "op\<lparr>op_ec := ec\<rparr>"] proper_start [OF o assms(2) n k, of cont spec]
      by (auto simp: do_start_op_def Let_def split: if_splits)
  qed
qed

lemma register_current:
  assumes "register_descriptor (lift_ctl (recorded ctl)) d fd r = (err, r1)"
  shows "current r1 d fd"
proof -
  obtain res w where k: "lift_ctl (recorded ctl) CTL_ADD fd (Some d) all_events (world r) = (res, w)" by (metis surj_pair)
  show ?thesis using assms k recorded_world [OF k]
    by (auto simp: register_descriptor_def Let_def current_def fresh_state_def split: if_splits)
qed

text \<open>Closing: first the descriptor is taken from the reactor, then the socket is closed, then the object goes back to the pool.\<close>

lemma close_reaches:
  assumes "reactor_reaches perform ctl kind c" and "\<And>fd w ec w1. close fd w = (ec, w1) \<Longrightarrow> snd w1 = snd w"
    and "async_close (lift_ctl ctl) close impl (rx c) = (ec, impl1, r)"
    and "\<And>d. reactor_data impl = Some d \<Longrightarrow> d \<in> dom (descs (rx c))"
  shows "reactor_reaches perform ctl kind (c\<lparr>rx := r\<rparr>)"
proof (cases "socket_open impl")
  case False
  then show ?thesis using assms(1,3) by (auto simp: async_close_def)
next
  case True
  let ?dr = "deregister_descriptor (lift_ctl ctl) (native_socket impl) (reactor_data impl) (\<not> possible_dup impl) (rx c)"
  obtain p r1 where d: "?dr = (p, r1)" by force
  obtain ec1 w1 where k: "close (native_socket impl) (world r1) = (ec1, w1)" by (meson surj_pair)
  have 1: "reactor_reaches perform ctl kind (c\<lparr>rx := r1\<rparr>)"
    using reactor_reaches.step [OF assms(1) reactor_step.deregister] d by (metis snd_conv)
  have 2: "reactor_reaches perform ctl kind (c\<lparr>rx := r1\<lparr>world := w1\<rparr>\<rparr>)"
    using outside_reaches [OF 1, of w1] assms(2) [OF k] by simp
  have r: "r = snd (cleanup_descriptor_data p (r1\<lparr>world := w1\<rparr>))"
    using assms(3) True d k by (auto split: prod.splits simp: async_close_def)
  show ?thesis
  proof (cases p)
    case None
    then show ?thesis using 2 r by (simp add: cleanup_descriptor_data_def)
  next
    case (Some e)
    then obtain ds where "descs r1 e = Some ds" "ds_shutdown ds"
      using d assms(4) by (auto simp: deregister_descriptor_def Let_def split: option.splits if_splits)
    then show ?thesis using reactor_reaches.step [OF 2 reactor_step.cleanup [of _ e ds]] Some r by simp
  qed
qed

text \<open>The operations handed to the scheduler.\<close>

fun rops :: "'x sop list \<Rightarrow> 'x reactor_op list" where
  "rops [] = []"
| "rops (Rop op # q) = op # rops q"
| "rops (Descriptor _ # q) = rops q"

lemma rops_append [simp]: "rops (p @ q) = rops p @ rops q"
  by (induction p rule: rops.induct) auto

lemma rops_map [simp]: "rops (map Rop ops) = ops"
  by (induction ops) auto

definition posted :: "('x, 'w) reactor \<Rightarrow> 'x reactor_op multiset" where
  "posted r = mset (rops (queued_ops (sched_queue (sch r)))) + (case thr r of None \<Rightarrow> {#} | Some t \<Rightarrow> mset (rops (private_op_queue t)))"

lemma posted_later [simp]: "posted (post_later ops r) = posted r + mset ops"
  by (auto simp: post_later_def post_deferred_completions_def Let_def posted_def push_ops_def split: option.splits prod.splits)

lemma posted_now [simp]: "posted (post_now op c r) = posted r + {#op#}"
  by (auto simp: post_now_def post_immediate_completion_def Let_def posted_def push_ops_def work_started_def split: option.splits)

lemma posted_same [simp]:
  "posted (set_desc d ds r) = posted r" "posted (r\<lparr>world := w\<rparr>) = posted r" "posted (r\<lparr>descs := x\<rparr>) = posted r"
  by (simp_all add: posted_def set_desc_def)

section \<open>Closing a socket\<close>

lemma abort_op_eq: "abort_op = (\<lambda>op. op\<lparr>op_ec := asio_operation_aborted\<rparr>)"
  by (simp add: fun_eq_iff abort_op_def)

lemma waiting_kind:
  assumes "keeps_ids perform" and "reactor_reaches perform ctl kind c" and "i \<in># held_by (descs (rx c) e)"
  shows "\<exists>j. kind i = (e, j)"
proof -
  obtain ds j where ds: "descs (rx c) e = Some ds" "i \<in> set (map op_id (ds_queue ds j))"
    using assms(3) by (auto simp: held_by_def waiting_three split: option.splits)
  have "\<forall>i\<in>set (queue_ids (rx c) e j). kind i = (e, j)"
    using reaches_reactor_inv [OF assms(1,2)] by (simp add: logged_performer.reactor_inv_def [OF logged [OF assms(1)]] in_order_of_def)
  then show ?thesis using ds by (auto simp: queue_ids_def)
qed

text \<open>
  C19. Closing a socket completes every operation that waits on it. In every run, whatever the system calls return: the receives,
  the sends and connection attempts, and the out-of-band receives that wait on the socket's descriptor are handed to the scheduler,
  each once and with the error \<open>operation_aborted\<close>, and nothing else is; the descriptor is forgotten by the reactor (those of other
  sockets are untouched) and the socket is as constructed; the count of work does not change, so that run goes on until the handlers
  have been called. So every operation that was ever started on this descriptor has been completed, or is with the scheduler,
  as often as it was started: none is left behind.
\<close>

theorem close_aborts_operations:
  assumes "keeps_ids perform" and "reactor_reaches perform ctl kind c" and "\<And>fd w ec w1. close fd w = (ec, w1) \<Longrightarrow> snd w1 = snd w"
    and "socket_open impl" and "reactor_data impl = Some d" and "descs (rx c) d = Some ds" and "\<not> ds_shutdown ds"
    and "async_close (lift_ctl ctl) close impl (rx c) = (ec, impl1, r1)"
  shows "posted r1 = posted (rx c) +
      mset (map (\<lambda>op. op\<lparr>op_ec := asio_operation_aborted\<rparr>) (ds_queue ds read_op @ ds_queue ds write_op @ ds_queue ds except_op)) \<and>
    descs r1 = (descs (rx c))(d := None) \<and> total_work r1 = total_work (rx c) \<and> impl1 = construct_impl (addr_unix impl) \<and>
    (\<forall>i j. kind i = (d, j) \<longrightarrow> count (mset (begun c)) i = count (ended c) i + count (handed r1) i)"
proof -
  have e: "posted r1 = posted (rx c) + mset (map abort_op (waiting_ops ds))" "descs r1 = (descs (rx c))(d := None)"
    "total_work r1 = total_work (rx c)" "impl1 = construct_impl (addr_unix impl)"
    using assms(4-8)
    by (auto simp: async_close_def deregister_descriptor_def cleanup_descriptor_data_def Let_def split: prod.splits if_splits)
  have r: "reactor_reaches perform ctl kind (c\<lparr>rx := r1\<rparr>)"
    by (rule close_reaches [OF assms(2) _ assms(8)]) (use assms(3,5,6) in auto)
  have "count (mset (begun c)) i = count (ended c) i + count (handed r1) i" if "kind i = (d, j)" for i j
  proof -
    have "i \<notin># held_by (descs r1 f)" for f
    proof
      assume i: "i \<in># held_by (descs r1 f)"
      then have "f = d" using waiting_kind [OF assms(1) r, of i f] that by auto
      then show False using i e(2) by simp
    qed
    then have "count (pending_ids r1) i = 0" by (simp add: pending_ids_def count_sum not_in_iff)
    then show ?thesis using reaches_accounted [OF assms(1) r] by (simp add: accounted_def in_system_def)
  qed
  then show ?thesis using e by (auto simp: waiting_three op_type_defs abort_op_eq)
qed

section \<open>An example run\<close>

text \<open>
  The operating system returns a given list of results to the calls of \<open>recv\<close>. Two receives are started; the first attempt finds
  nothing, so that both wait; epoll reports data, and the first is completed.
\<close>

definition script_os :: "(int + buffer) list os" where
  "script_os = \<lparr>sys_socket = (\<lambda>s. (Inr (), s)), reactor_register = (\<lambda>s. (0, s)), sys_connect = (\<lambda>s. (Inr (), s)),
     sys_poll = (\<lambda>_ _ s. (Inr 1, s)), sys_so_error = (\<lambda>s. (Inr 0, s)),
     sys_recv = (\<lambda>_ s. case s of [] \<Rightarrow> (Inl 11, []) | x # s1 \<Rightarrow> (x, s1)), sys_sendmsg = (\<lambda>b s. (Inr (length b), s)),
     sys_close = (\<lambda>s. (Inr (), s)), sys_ioctl_blocking = (\<lambda>s. (Inr (), s)), sys_fcntl_blocking = (\<lambda>s. s)\<rparr>"

definition script_mode :: "'w mode_sys" where
  "script_mode = \<lparr>sys_ioctl = (\<lambda>_ w. (Inr (), w)), sys_getfl = (\<lambda>w. (Inr 0, w)), sys_setfl = (\<lambda>_ w. (Inr (), w))\<rparr>"

definition script_ctl :: "'w ctl" where
  "script_ctl _ _ _ _ w = (0, w)"

definition demo_impl :: async_impl where
  "demo_impl = (construct_impl False)\<lparr>socket_open := True, stream_oriented := True, native_socket := 5, reactor_data := Some 0\<rparr>"

type_synonym demo_state = "(sock_body, (int + buffer) list) run_state"

definition demo_open :: demo_state where
  "demo_open = (let c = run_new [Inl 11, Inr ''ok''] True in c\<lparr>rx := snd (register_descriptor (lift_ctl script_ctl) 0 5 (rx c))\<rparr>)"

definition demo_start :: "nat \<Rightarrow> demo_state \<Rightarrow> demo_state" where
  "demo_start i c = c\<lparr>rx := snd (async_receive (logging (sock_perform script_os)) (lift_ctl script_ctl) (lift_mode script_mode) i 0 False False 4
      demo_impl (rx c)), begun := begun c @ [i]\<rparr>"

definition demo_events :: "demo_state \<Rightarrow> demo_state" where
  "demo_events c = (let r = (rx c)\<lparr>thr := Some thread_new\<rparr>
     in case reactor_run True (\<lambda>t. t) (\<lambda>_ w. ([(Desc 0, EPOLLIN)], w)) (\<lambda>w. ([], w)) (- 1) [] r of
          (ops, r1) \<Rightarrow> c\<lparr>rx := r1\<lparr>thr := Some (thread_new\<lparr>private_op_queue := ops\<rparr>)\<rparr>\<rparr>)"

definition demo_io :: "demo_state \<Rightarrow> demo_state" where
  "demo_io c = (case do_complete (logging (sock_perform script_os)) 0 (rx c) of
     (res, r) \<Rightarrow> c\<lparr>rx := r, ended := ended c + (case res of None \<Rightarrow> {#} | Some op \<Rightarrow> {#op_id op#}), owed := owed c + 1\<rparr>)"

abbreviation demo_reaches :: "demo_state \<Rightarrow> bool" where
  "demo_reaches \<equiv> reactor_reaches (sock_perform script_os) script_ctl (\<lambda>_. (0, 0))"

lemma demo_open_reaches: "demo_reaches demo_open"
  unfolding demo_open_def Let_def
  by (intro reactor_reaches.step [OF reactor_reaches.new reactor_step.register]) (simp add: run_new_def)

lemma demo_start_reaches:
  assumes "demo_reaches c" and "0 \<in> dom (descs (rx c))"
  shows "demo_reaches (demo_start i c)"
  using do_start_op_reaches [OF assms(1), of read_op "new_op i 0 (Recv True 4 [])" demo_impl script_mode False True False
      "fst (async_receive (logging (sock_perform script_os)) (lift_ctl script_ctl) (lift_mode script_mode) i 0 False False 4 demo_impl (rx c))"
      "snd (async_receive (logging (sock_perform script_os)) (lift_ctl script_ctl) (lift_mode script_mode) i 0 False False 4 demo_impl (rx c))"] assms(2)
  by (simp add: demo_start_def async_receive_def demo_impl_def new_op_def names_descriptor_def op_type_defs)

lemma demo_events_reaches:
  assumes "demo_reaches c" and "thr (rx c) = None"
  shows "demo_reaches (demo_events c)"
proof -
  let ?c = "c\<lparr>rx := (rx c)\<lparr>thr := Some thread_new\<rparr>\<rparr>"
  have 1: "demo_reaches ?c" by (rule reactor_reaches.step [OF assms(1) reactor_step.enter [OF assms(2)]])
  obtain ops r where r: "reactor_run True (\<lambda>t. t) (\<lambda>_ w. ([(Desc 0, EPOLLIN)], w)) (\<lambda>w. ([], w)) (- 1) (private_op_queue thread_new) (rx ?c) = (ops, r)"
    by force
  show ?thesis using reactor_reaches.step [OF 1 reactor_step.events [OF _ r]] r by (simp add: demo_events_def Let_def thread_new_def)
qed

lemma demo_io_reaches:
  assumes "demo_reaches c" and "0 \<in> dom (descs (rx c))" and "thr (rx c) \<noteq> None"
  shows "demo_reaches (demo_io c)"
proof -
  obtain res r where r: "do_complete (logging (sock_perform script_os)) 0 (rx c) = (res, r)" by force
  obtain ds where "descs (rx c) 0 = Some ds" using assms(2) by blast
  from reactor_reaches.step [OF assms(1) reactor_step.io [OF this assms(3) r]] show ?thesis by (simp add: demo_io_def r)
qed

lemma script_recv [simp]:
  "non_blocking_recv1 script_os n b (Inl 11 # s) = Some (None, s)" "non_blocking_recv1 script_os n b [] = Some (None, [])"
  "x \<noteq> [] \<Longrightarrow> non_blocking_recv1 script_os n b (Inr x # s) = Some (Some (ec_ok, x), s)"
  by (subst non_blocking_recv1.simps; simp add: recv1_def script_os_def get_last_error_def asio_ec_defs)+

lemma demo_impl_fields [simp]:
  "is_non_blocking demo_impl = False" "stream_oriented demo_impl" "socket_open demo_impl" "reactor_data demo_impl = Some 0"
  by (simp_all add: is_non_blocking_def demo_impl_def construct_impl_def socket_construct_def socket_impl.defs)

lemma demo_mode [simp]:
  "set_internal_non_blocking (lift_mode script_mode) demo_impl True w = (True, ec_ok, demo_impl\<lparr>internal_non_blocking := True\<rparr>, w)"
  by (cases w) (simp add: set_internal_non_blocking_def lift_mode_def script_mode_def lifted_def)

lemmas demo_defs = demo_open_def demo_start_def run_new_def register_descriptor_def lift_ctl_def script_ctl_def Let_def async_receive_def
  do_start_op_def start_op_def try_now_def logging_def sock_perform_def recv_do_perform_def new_op_def set_desc_def fresh_state_def
  queue_op_def enqueue_def op_type_defs sched_new_def all_events_def epoll_defs

lemma demo_started:
  "demo_start 1 (demo_start 0 demo_open) =
     \<lparr>rx = \<lparr>descs = [0 \<mapsto> (fresh_state 5)\<lparr>ds_queue := (\<lambda>_. [])(0 := [(new_op 0 0 (Recv True 4 []))\<lparr>op_ec := asio_would_block\<rparr>, new_op 1 0 (Recv True 4 [])])\<rparr>],
        sch = work_started (work_started (sched_new True True)), thr = None, world = ([Inr ''ok''], [])\<rparr>,
      begun = [0, 1], ended = {#}, owed = 0\<rparr>"
  by (simp add: demo_defs)

definition demo :: demo_state where
  "demo = demo_io (demo_events (demo_start 1 (demo_start 0 demo_open)))"

lemma demo_value:
  "demo =
     \<lparr>rx = \<lparr>descs = [0 \<mapsto> (fresh_state 5)\<lparr>ds_queue := (\<lambda>_. [])(0 := [(new_op 1 0 (Recv True 4 []))\<lparr>op_ec := asio_would_block\<rparr>]), ready_events := EPOLLIN\<rparr>],
        sch = work_started (work_started (sched_new True True)), thr = Some (thread_new\<lparr>private_op_queue := [Descriptor 0]\<rparr>), world = ([], [0])\<rparr>,
      begun = [0, 1], ended = {#0#}, owed = 1\<rparr>"
proof -
  have k: "ec_ok \<noteq> asio_eof" by (simp add: asio_ec_defs ec_ok_def)
  have r: "rev [0..<max_ops] = [2, 1, 0]" by (simp add: max_ops_def numeral_3_eq_3 numeral_2_eq_2)
  show ?thesis
    unfolding demo_def demo_started
    by (simp add: demo_events_def demo_io_def reactor_run_def do_complete_def perform_io_def r perform_type_def flag_def dispatch_event_def
        logging_def sock_perform_def recv_do_perform_def new_op_def set_desc_def fresh_state_def Let_def epoll_defs fun_eq_iff k)
qed

lemma demo_demo_reaches: "demo_reaches demo"
proof -
  have 0: "0 \<in> dom (descs (rx demo_open))" "0 \<in> dom (descs (rx (demo_start 0 demo_open)))"
    by (simp_all add: demo_defs)
  have 1: "demo_reaches (demo_start 1 (demo_start 0 demo_open))"
    by (intro demo_start_reaches demo_open_reaches 0)
  have e: "demo_reaches (demo_events (demo_start 1 (demo_start 0 demo_open)))"
    by (rule demo_events_reaches [OF 1]) (simp only: demo_started run_state.simps reactor.simps)
  show ?thesis unfolding demo_def
    by (rule demo_io_reaches [OF e]) (simp_all only: demo_started, simp_all add: demo_events_def reactor_run_def dispatch_event_def Let_def)
qed

lemma demo_fields [simp]:
  "begun demo = [0, 1]" "ended demo = {#0#}" "owed demo = 1" "pending_ids (rx demo) = {#1#}" "snd (world (rx demo)) = [0]"
  "descs (rx demo) 0 = Some ((fresh_state 5)\<lparr>ds_queue := (\<lambda>_. [])(0 := [(new_op 1 0 (Recv True 4 []))\<lparr>op_ec := asio_would_block\<rparr>]), ready_events := EPOLLIN\<rparr>)"
  by (simp_all add: demo_value pending_ids_def held_by_def waiting_three new_op_def)

lemma demo_handed: "handed (rx demo) = {#}"
  by (simp add: demo_value handed_def work_started_def sched_new_def)

theorem reactor_accounts_witness: "total_work (rx demo) = 2 \<and> mset [0, 1] = ended demo + (pending_ids (rx demo) + {#})"
  using reactor_accounts [OF sock_keeps_ids demo_demo_reaches] by (simp add: demo_handed)

theorem reactor_keeps_order_witness: "subseq ([0] @ [1]) [0, 1 :: nat] \<and> begun demo = [0, 1] \<and> distinct ([0] @ queue_ids (rx demo) 0 0)"
  using reactor_keeps_order [OF sock_keeps_ids demo_demo_reaches, of 0 0]
  by (simp add: of_kind_def)

text \<open>A connection attempt that waits, with the calls of \<^verbatim>\<open>epoll_ctl\<close> recorded.\<close>

definition asked_open :: "(sock_body, (int + buffer) list \<times> request list) run_state" where
  "asked_open = (let c = run_new ([], []) True in c\<lparr>rx := snd (register_descriptor (lift_ctl (recorded script_ctl)) 0 5 (rx c))\<rparr>)"

definition asked_run :: "(sock_body, (int + buffer) list \<times> request list) run_state" where
  "asked_run = asked_open\<lparr>rx := start_op (logging (quiet (sock_perform script_os))) (lift_ctl (recorded script_ctl)) connect_op 5 (Some 0)
      (new_op 0 0 Connect) False False (rx asked_open), begun := begun asked_open @ [op_id (new_op 0 0 Connect)]\<rparr>"

lemma asked_open_proper: "proper_reaches (sock_perform script_os) script_ctl (\<lambda>_. (0, 1)) asked_open"
  unfolding asked_open_def Let_def
  by (rule proper_reaches.step [OF proper_reaches.new reactor_step.register]) (simp_all add: run_new_def)

lemma asked_open_descs: "descs (rx asked_open) 0 = Some (fresh_state 5)" "current (rx asked_open) 0 5"
proof -
  show "descs (rx asked_open) 0 = Some (fresh_state 5)"
    by (simp add: asked_open_def run_new_def register_descriptor_def lift_ctl_def recorded_def script_ctl_def Let_def)
  show "current (rx asked_open) 0 5"
    unfolding asked_open_def Let_def by (simp, rule register_current [OF prod.collapse [symmetric]])
qed

lemma asked_run_proper: "proper_reaches (sock_perform script_os) script_ctl (\<lambda>_. (0, 1)) asked_run"
  unfolding asked_run_def
  by (rule proper_reaches.step [OF asked_open_proper reactor_step.start [OF asked_open_descs(1)]])
    (simp_all add: asked_open_descs(2) new_op_def op_type_defs)

lemma asked_run_descs:
  "descs (rx asked_run) 0 = Some (enqueue 1 (new_op 0 0 Connect) ((fresh_state 5)\<lparr>registered_events := all_events OR EPOLLOUT\<rparr>))"
  using asked_open_descs(1)
  by (simp add: asked_run_def start_op_def fresh_state_def lift_ctl_def recorded_def script_ctl_def Let_def op_type_defs
      all_events_def epoll_defs split: prod.split)

theorem waiting_is_registered_witness:
  "\<exists>q. last_request (requests (rx asked_run)) 5 = Some q \<and> req_ptr q = Some 0 \<and> req_events q AND EPOLLOUT \<noteq> 0 \<and>
     (req_result q = 0 \<longrightarrow> epoll_set (requests (rx asked_run)) 5 = Some (Some 0, all_events OR EPOLLOUT))"
  using waiting_is_registered [OF sock_keeps_ids asked_run_proper asked_run_descs, of 1]
  by (simp add: max_ops_def flag_def enqueue_def fresh_state_def) blast

theorem close_aborts_operations_witness:
  "posted (snd (snd (async_close (lift_ctl script_ctl) (\<lambda>_ w. (ec_ok, w)) demo_impl (rx demo)))) =
     posted (rx demo) + {#(new_op 1 0 (Recv True 4 []))\<lparr>op_ec := asio_operation_aborted\<rparr>#} \<and>
   count (handed (snd (snd (async_close (lift_ctl script_ctl) (\<lambda>_ w. (ec_ok, w)) demo_impl (rx demo))))) 1 = 1"
proof -
  let ?c = "async_close (lift_ctl script_ctl) (\<lambda>_ w. (ec_ok, w)) demo_impl (rx demo)"
  have "?c = (fst ?c, fst (snd ?c), snd (snd ?c))" by simp
  from close_aborts_operations [OF sock_keeps_ids demo_demo_reaches _ _ _ demo_fields(6) _ this] show ?thesis
    by (auto simp: fresh_state_def op_type_defs dest!: spec [of _ "1 :: nat"])
qed

end
