(* ===== verification/AsioTimers.thy ===== *)
theory AsioTimers
  imports AsioReactor
begin

text \<open>
  The timer queue of asio (\<^verbatim>\<open>detail/timer_queue.hpp\<close>): a binary heap in a vector, ordered by expiry, whose entries point to timers that
  know their index in it, and a doubly linked list of the active timers. The model has the vector, the fields of every timer
  object and the pointers; times are any linear order, as the class is a template over them. A queue of operations is a list,
  after theory \<open>AsioOpQueue\<close>.
\<close>

section \<open>State\<close>

record wait_op =
  w_id :: nat
  w_ec :: error_code
  w_key :: nat

record per_timer_data =
  t_ops :: "wait_op list"
  heap_index :: nat
  t_next :: "nat option"
  t_prev :: "nat option"

record 't timer_queue =
  timers :: "nat option"
  theap :: "('t \<times> nat) list"
  tdata :: "nat \<Rightarrow> per_timer_data"

text \<open>The greatest value of \<^verbatim>\<open>size_t\<close>, the index of a timer that is not in the heap.\<close>

definition no_index :: nat where
  "no_index = 2 ^ 64 - 1"

definition per_timer_new :: per_timer_data where
  "per_timer_new = \<lparr>t_ops = [], heap_index = no_index, t_next = None, t_prev = None\<rparr>"

definition timer_queue_new :: "'t timer_queue" where
  "timer_queue_new = \<lparr>timers = None, theap = [], tdata = (\<lambda>_. per_timer_new)\<rparr>"

definition upd_timer :: "nat \<Rightarrow> (per_timer_data \<Rightarrow> per_timer_data) \<Rightarrow> 't timer_queue \<Rightarrow> 't timer_queue" where
  "upd_timer t f q = q\<lparr>tdata := (tdata q)(t := f (tdata q t))\<rparr>"

definition set_index :: "nat \<Rightarrow> nat \<Rightarrow> 't timer_queue \<Rightarrow> 't timer_queue" where
  "set_index t i q = upd_timer t (\<lambda>x. x\<lparr>heap_index := i\<rparr>) q"

section \<open>The heap\<close>

definition time_at :: "'t timer_queue \<Rightarrow> nat \<Rightarrow> 't" where
  "time_at q i = fst (theap q ! i)"

definition swap_heap :: "nat \<Rightarrow> nat \<Rightarrow> 't timer_queue \<Rightarrow> 't timer_queue" where
  "swap_heap i j q =
     (let q1 = q\<lparr>theap := (theap q)[i := theap q ! j, j := theap q ! i]\<rparr>
      in set_index (snd (theap q1 ! j)) j (set_index (snd (theap q1 ! i)) i q1))"

lemma swap_length [simp]: "length (theap (swap_heap i j q)) = length (theap q)"
  by (simp add: swap_heap_def set_index_def upd_timer_def Let_def)

function up_heap :: "nat \<Rightarrow> 't::linorder timer_queue \<Rightarrow> 't timer_queue" where
  "up_heap index q =
     (if index > 0 then
        (let parent = (index - 1) div 2
         in if \<not> time_at q index < time_at q parent then q else up_heap parent (swap_heap index parent q))
      else q)"
  by auto
termination by (relation "measure fst") auto

definition min_child :: "'t::linorder timer_queue \<Rightarrow> nat \<Rightarrow> nat" where
  "min_child q child = (if child + 1 = length (theap q) \<or> time_at q child < time_at q (child + 1) then child else child + 1)"

function down_heap :: "nat \<Rightarrow> 't::linorder timer_queue \<Rightarrow> 't timer_queue" where
  "down_heap index q =
     (let child = index * 2 + 1
      in if child < length (theap q) then
           (if time_at q index < time_at q (min_child q child) then q
            else down_heap (min_child q child) (swap_heap index (min_child q child) q))
         else q)"
  by auto
termination by (relation "measure (\<lambda>(i, q). length (theap q) - i)") (auto simp: min_child_def)

declare up_heap.simps [simp del] down_heap.simps [simp del]

section \<open>Operations\<close>

text \<open>The two halves of \<open>remove_timer\<close>: out of the heap, out of the list.\<close>

definition remove_from_heap :: "nat \<Rightarrow> 't::linorder timer_queue \<Rightarrow> 't timer_queue" where
  "remove_from_heap t q =
     (let index = heap_index (tdata q t)
      in if theap q \<noteq> [] \<and> index < length (theap q) then
           (if index = length (theap q) - 1
            then (let q1 = set_index t no_index q in q1\<lparr>theap := butlast (theap q1)\<rparr>)
            else
              (let q1 = set_index t no_index (swap_heap index (length (theap q) - 1) q);
                   q2 = q1\<lparr>theap := butlast (theap q1)\<rparr>
               in if index > 0 \<and> time_at q2 index < time_at q2 ((index - 1) div 2) then up_heap index q2 else down_heap index q2))
         else q)"

definition unlink :: "nat \<Rightarrow> 't timer_queue \<Rightarrow> 't timer_queue" where
  "unlink t q =
     (let q1 = (if timers q = Some t then q\<lparr>timers := t_next (tdata q t)\<rparr> else q);
          q2 = (case t_prev (tdata q1 t) of None \<Rightarrow> q1 | Some p \<Rightarrow> upd_timer p (\<lambda>x. x\<lparr>t_next := t_next (tdata q1 t)\<rparr>) q1);
          q3 = (case t_next (tdata q2 t) of None \<Rightarrow> q2 | Some n \<Rightarrow> upd_timer n (\<lambda>x. x\<lparr>t_prev := t_prev (tdata q2 t)\<rparr>) q2)
      in upd_timer t (\<lambda>x. x\<lparr>t_next := None, t_prev := None\<rparr>) q3)"

definition remove_timer :: "nat \<Rightarrow> 't::linorder timer_queue \<Rightarrow> 't timer_queue" where
  "remove_timer t q = unlink t (remove_from_heap t q)"

definition active :: "'t timer_queue \<Rightarrow> nat \<Rightarrow> bool" where
  "active q t \<longleftrightarrow> t_prev (tdata q t) \<noteq> None \<or> timers q = Some t"

definition insert_into_heap :: "('t \<Rightarrow> bool) \<Rightarrow> 't \<Rightarrow> nat \<Rightarrow> 't::linorder timer_queue \<Rightarrow> 't timer_queue" where
  "insert_into_heap is_positive_infinity time t q =
     (if is_positive_infinity time then set_index t no_index q
      else (let q1 = set_index t (length (theap q)) q;
                q2 = q1\<lparr>theap := theap q1 @ [(time, t)]\<rparr>
            in up_heap (length (theap q2) - 1) q2))"

definition link_first :: "nat \<Rightarrow> 't timer_queue \<Rightarrow> 't timer_queue" where
  "link_first t q =
     (let q1 = upd_timer t (\<lambda>x. x\<lparr>t_next := timers q, t_prev := None\<rparr>) q;
          q2 = (case timers q1 of None \<Rightarrow> q1 | Some n \<Rightarrow> upd_timer n (\<lambda>x. x\<lparr>t_prev := Some t\<rparr>) q1)
      in q2\<lparr>timers := Some t\<rparr>)"

text \<open>The result tells whether the reactor's wait has to be shortened.\<close>

definition enqueue_timer :: "('t \<Rightarrow> bool) \<Rightarrow> 't \<Rightarrow> nat \<Rightarrow> wait_op \<Rightarrow> 't::linorder timer_queue \<Rightarrow> bool \<times> 't timer_queue" where
  "enqueue_timer is_positive_infinity time t op q =
     (let q1 = (if \<not> active q t then link_first t (insert_into_heap is_positive_infinity time t q) else q);
          q2 = upd_timer t (\<lambda>x. x\<lparr>t_ops := t_ops x @ [op]\<rparr>) q1
      in (heap_index (tdata q2 t) = 0 \<and> w_id (hd (t_ops (tdata q2 t))) = w_id op, q2))"

definition timers_empty :: "'t timer_queue \<Rightarrow> bool" where
  "timers_empty q \<longleftrightarrow> timers q = None"

text \<open>Operations that expire are given success, operations that are cancelled \<open>operation_aborted\<close>.\<close>

definition expired :: "wait_op \<Rightarrow> wait_op" where
  "expired op = op\<lparr>w_ec := ec_ok\<rparr>"

definition cancelled :: "wait_op \<Rightarrow> wait_op" where
  "cancelled op = op\<lparr>w_ec := asio_operation_aborted\<rparr>"

partial_function (option) ready_loop :: "'t::linorder \<Rightarrow> wait_op list \<Rightarrow> 't timer_queue \<Rightarrow> (wait_op list \<times> 't timer_queue) option" where
  "ready_loop now ops q =
     (if theap q \<noteq> [] \<and> \<not> now < time_at q 0 then
        (let t = snd (theap q ! 0)
         in ready_loop now (ops @ map expired (t_ops (tdata q t))) (remove_timer t (upd_timer t (\<lambda>x. x\<lparr>t_ops := []\<rparr>) q)))
      else Some (ops, q))"

definition get_ready_timers :: "'t::linorder \<Rightarrow> wait_op list \<Rightarrow> 't timer_queue \<Rightarrow> (wait_op list \<times> 't timer_queue) option" where
  "get_ready_timers now ops q = (if theap q \<noteq> [] then ready_loop now ops q else Some (ops, q))"

partial_function (option) all_loop :: "wait_op list \<Rightarrow> 't timer_queue \<Rightarrow> (wait_op list \<times> 't timer_queue) option" where
  "all_loop ops q =
     (case timers q of
        None \<Rightarrow> Some (ops, q)
      | Some t \<Rightarrow>
          all_loop (ops @ t_ops (tdata q t))
            (upd_timer t (\<lambda>x. x\<lparr>t_ops := [], t_next := None, t_prev := None\<rparr>) (q\<lparr>timers := t_next (tdata q t)\<rparr>)))"

definition get_all_timers :: "wait_op list \<Rightarrow> 't timer_queue \<Rightarrow> (wait_op list \<times> 't timer_queue) option" where
  "get_all_timers ops q = map_option (\<lambda>(ops1, q1). (ops1, q1\<lparr>theap := []\<rparr>)) (all_loop ops q)"

fun cancel_loop :: "nat \<Rightarrow> nat \<Rightarrow> wait_op list \<Rightarrow> nat \<times> wait_op list \<times> wait_op list" where
  "cancel_loop max_cancelled n [] = (n, [], [])"
| "cancel_loop max_cancelled n (op # ops) =
     (if n \<noteq> max_cancelled
      then (case cancel_loop max_cancelled (n + 1) ops of (m, cs, rest) \<Rightarrow> (m, cancelled op # cs, rest))
      else (n, [], op # ops))"

definition cancel_timer :: "nat \<Rightarrow> wait_op list \<Rightarrow> nat \<Rightarrow> 't::linorder timer_queue \<Rightarrow> nat \<times> wait_op list \<times> 't timer_queue" where
  "cancel_timer t ops max_cancelled q =
     (if active q t then
        (case cancel_loop max_cancelled 0 (t_ops (tdata q t)) of (n, cs, rest) \<Rightarrow>
           let q1 = upd_timer t (\<lambda>x. x\<lparr>t_ops := rest\<rparr>) q
           in (n, ops @ cs, if rest = [] then remove_timer t q1 else q1))
      else (0, ops, q))"

definition cancel_timer_by_key :: "nat \<Rightarrow> wait_op list \<Rightarrow> nat \<Rightarrow> 't::linorder timer_queue \<Rightarrow> wait_op list \<times> 't timer_queue" where
  "cancel_timer_by_key t ops key q =
     (if active q t then
        (let (mine, other_ops) = partition (\<lambda>op. w_key op = key) (t_ops (tdata q t));
             q1 = upd_timer t (\<lambda>x. x\<lparr>t_ops := other_ops\<rparr>) q
         in (ops @ map cancelled mine, if other_ops = [] then remove_timer t q1 else q1))
      else (ops, q))"

definition move_timer :: "nat \<Rightarrow> nat \<Rightarrow> 't timer_queue \<Rightarrow> 't timer_queue" where
  "move_timer target source q =
     (let so = tdata q source;
          q1 = upd_timer source (\<lambda>x. x\<lparr>t_ops := []\<rparr>) (upd_timer target (\<lambda>x. x\<lparr>t_ops := t_ops x @ t_ops so\<rparr>) q);
          q2 = set_index source no_index (set_index target (heap_index so) q1);
          q3 = (if heap_index so < length (theap q2)
                then q2\<lparr>theap := (theap q2)[heap_index so := (fst (theap q2 ! heap_index so), target)]\<rparr> else q2);
          q4 = (if timers q3 = Some source then q3\<lparr>timers := Some target\<rparr> else q3);
          q5 = (case t_prev so of None \<Rightarrow> q4 | Some p \<Rightarrow> upd_timer p (\<lambda>x. x\<lparr>t_next := Some target\<rparr>) q4);
          q6 = (case t_next so of None \<Rightarrow> q5 | Some n \<Rightarrow> upd_timer n (\<lambda>x. x\<lparr>t_prev := Some target\<rparr>) q5);
          q7 = upd_timer target (\<lambda>x. x\<lparr>t_next := t_next (tdata q6 source), t_prev := t_prev (tdata q6 source)\<rparr>) q6
      in upd_timer source (\<lambda>x. x\<lparr>t_next := None, t_prev := None\<rparr>) q7)"

section \<open>The order of the heap\<close>

definition heap_ok :: "('t::linorder \<times> 'a) list \<Rightarrow> bool" where
  "heap_ok h \<longleftrightarrow> (\<forall>k. 0 < k \<and> k < length h \<longrightarrow> fst (h ! ((k - 1) div 2)) \<le> fst (h ! k))"

text \<open>In order but for the entry \<open>i\<close>, which may be too early for its place (\<open>up\<close>) or too late (\<open>down\<close>).\<close>

definition heap_up :: "('t::linorder \<times> 'a) list \<Rightarrow> nat \<Rightarrow> bool" where
  "heap_up h i \<longleftrightarrow>
     (\<forall>k. 0 < k \<and> k < length h \<and> k \<noteq> i \<longrightarrow> fst (h ! ((k - 1) div 2)) \<le> fst (h ! k)) \<and>
     (\<forall>k. 0 < k \<and> k < length h \<and> (k - 1) div 2 = i \<and> 0 < i \<longrightarrow> fst (h ! ((i - 1) div 2)) \<le> fst (h ! k))"

definition heap_down :: "('t::linorder \<times> 'a) list \<Rightarrow> nat \<Rightarrow> bool" where
  "heap_down h i \<longleftrightarrow>
     (\<forall>k. 0 < k \<and> k < length h \<and> (k - 1) div 2 \<noteq> i \<longrightarrow> fst (h ! ((k - 1) div 2)) \<le> fst (h ! k)) \<and>
     (\<forall>k. 0 < k \<and> k < length h \<and> (k - 1) div 2 = i \<and> 0 < i \<longrightarrow> fst (h ! ((i - 1) div 2)) \<le> fst (h ! k))"

lemma child_iff: "0 < k \<Longrightarrow> (k - 1) div 2 = i \<longleftrightarrow> k = i * 2 + 1 \<or> k = i * 2 + 2" for k i :: nat
  by auto

lemma up_step:
  assumes "heap_up h i" and "0 < i" and "i < length h" and "fst (h ! i) < fst (h ! ((i - 1) div 2))"
  shows "heap_up (h[i := h ! ((i - 1) div 2), (i - 1) div 2 := h ! i]) ((i - 1) div 2)"
proof -
  define p where "p = (i - 1) div 2"
  have p: "p < i" using assms(2) by (auto simp: p_def)
  have a: "0 < k \<Longrightarrow> k < length h \<Longrightarrow> k \<noteq> i \<Longrightarrow> fst (h ! ((k - 1) div 2)) \<le> fst (h ! k)" for k
    using assms(1,2) unfolding heap_up_def by blast
  have b: "0 < k \<Longrightarrow> k < length h \<Longrightarrow> (k - 1) div 2 = i \<Longrightarrow> fst (h ! p) \<le> fst (h ! k)" for k
    using assms(1,2) unfolding heap_up_def p_def by blast
  let ?n = "\<lambda>k. if k = p then h ! i else if k = i then h ! p else h ! k"
  have up: "0 < p \<Longrightarrow> fst (h ! ((p - 1) div 2)) \<le> fst (h ! p)" using a [of p] p assms(3) by simp
  have e: "h[i := h ! p, p := h ! i] ! k = ?n k" for k using p assms(3) by (simp add: nth_list_update)
  have A: "fst (?n ((k - 1) div 2)) \<le> fst (?n k)" if "0 < k" "k < length h" "k \<noteq> p" for k
    using a [of k] b [of k] that p assms(4) p_def by (cases "k = i"; cases "(k - 1) div 2 = p"; cases "(k - 1) div 2 = i") auto
  have B: "fst (?n ((p - 1) div 2)) \<le> fst (?n k)" if "0 < k" "k < length h" "(k - 1) div 2 = p" "0 < p" for k
  proof -
    have "(p - 1) div 2 < p" using that(4) by auto
    then have "?n ((p - 1) div 2) = h ! ((p - 1) div 2)" using p by auto
    moreover have "k \<noteq> p" using that by auto
    moreover have "k \<noteq> i \<Longrightarrow> fst (h ! p) \<le> fst (h ! k)" using a [of k] that by auto
    ultimately show ?thesis using up [OF that(4)] by auto
  qed
  show ?thesis unfolding heap_up_def p_def [symmetric] e length_list_update using A B by blast
qed

lemma down_step:
  assumes "heap_down h i" and c: "c = i * 2 + 1 \<or> c = i * 2 + 2" "c < length h" and "\<not> fst (h ! i) < fst (h ! c)"
    and least: "\<And>k. k = i * 2 + 1 \<or> k = i * 2 + 2 \<Longrightarrow> k < length h \<Longrightarrow> fst (h ! c) \<le> fst (h ! k)"
  shows "heap_down (h[i := h ! c, c := h ! i]) c"
proof -
  have i: "i < c" using c by auto
  have a: "0 < k \<Longrightarrow> k < length h \<Longrightarrow> (k - 1) div 2 \<noteq> i \<Longrightarrow> fst (h ! ((k - 1) div 2)) \<le> fst (h ! k)" for k
    using assms(1) unfolding heap_down_def by blast
  have b: "0 < k \<Longrightarrow> k < length h \<Longrightarrow> (k - 1) div 2 = i \<Longrightarrow> 0 < i \<Longrightarrow> fst (h ! ((i - 1) div 2)) \<le> fst (h ! k)" for k
    using assms(1) unfolding heap_down_def by blast
  have pc: "(c - 1) div 2 = i" using c by auto
  let ?n = "\<lambda>k. if k = c then h ! i else if k = i then h ! c else h ! k"
  have e: "h[i := h ! c, c := h ! i] ! k = ?n k" for k using i c by (simp add: nth_list_update)
  have A: "fst (?n ((k - 1) div 2)) \<le> fst (?n k)" if k: "0 < k" "k < length h" "(k - 1) div 2 \<noteq> c" for k
  proof (cases "(k - 1) div 2 = i")
    case True
    then have "fst (h ! c) \<le> fst (h ! k)" using least [of k] k child_iff [OF k(1)] by auto
    then show ?thesis using True i k assms(4) by auto
  next
    case False
    then have "k \<noteq> c" using pc by auto
    moreover have "k = i \<Longrightarrow> fst (h ! ((k - 1) div 2)) \<le> fst (h ! c)" using b [of c] pc i c k by auto
    ultimately show ?thesis using False a [of k] k by auto
  qed
  have B: "fst (?n ((c - 1) div 2)) \<le> fst (?n k)" if k: "0 < k" "k < length h" "(k - 1) div 2 = c" for k
  proof -
    have "k \<noteq> c" "k \<noteq> i" using k i by auto
    then show ?thesis using a [of k] k i pc by auto
  qed
  show ?thesis unfolding heap_down_def e length_list_update using A B by blast
qed

lemma heap_top:
  assumes "heap_ok h" and "k < length h"
  shows "fst (h ! 0) \<le> fst (h ! k)"
  using assms(2)
proof (induction k rule: less_induct)
  case (less k)
  show ?case
  proof (cases "k = 0")
    case False
    then have "(k - 1) div 2 < k" by auto
    moreover have "fst (h ! ((k - 1) div 2)) \<le> fst (h ! k)" using assms(1) less.prems False by (simp add: heap_ok_def)
    ultimately show ?thesis using less by (meson order.trans less_trans)
  qed simp
qed

section \<open>Moving entries keeps the links between heap and timers\<close>

definition in_heap :: "'t timer_queue \<Rightarrow> nat set" where
  "in_heap q = snd ` set (theap q)"

definition indexed :: "'t timer_queue \<Rightarrow> bool" where
  "indexed q \<longleftrightarrow> (\<forall>i < length (theap q). heap_index (tdata q (snd (theap q ! i))) = i)"

text \<open>The same entries, and the same timers but for the indices of those in the heap.\<close>

definition rearranged :: "'t timer_queue \<Rightarrow> 't timer_queue \<Rightarrow> bool" where
  "rearranged q q1 \<longleftrightarrow>
     mset (theap q1) = mset (theap q) \<and> timers q1 = timers q \<and>
     (\<forall>t. t_ops (tdata q1 t) = t_ops (tdata q t) \<and> t_next (tdata q1 t) = t_next (tdata q t) \<and> t_prev (tdata q1 t) = t_prev (tdata q t)) \<and>
     (\<forall>t. t \<notin> in_heap q \<longrightarrow> heap_index (tdata q1 t) = heap_index (tdata q t))"

lemma rearranged_refl [simp]: "rearranged q q"
  by (simp add: rearranged_def)

lemma rearranged_heap: "rearranged q q1 \<Longrightarrow> in_heap q1 = in_heap q" "rearranged q q1 \<Longrightarrow> length (theap q1) = length (theap q)"
  by (auto simp: rearranged_def in_heap_def dest: mset_eq_setD mset_eq_length)

lemma rearranged_trans: "rearranged q q1 \<Longrightarrow> rearranged q1 q2 \<Longrightarrow> rearranged q q2"
  using rearranged_heap(1) [of q q1] by (simp add: rearranged_def)

lemma index_fields [simp]:
  "timers (set_index t i q) = timers q" "theap (set_index t i q) = theap q"
  "t_ops (tdata (set_index t i q) u) = t_ops (tdata q u)" "t_next (tdata (set_index t i q) u) = t_next (tdata q u)"
  "t_prev (tdata (set_index t i q) u) = t_prev (tdata q u)"
  "heap_index (tdata (set_index t i q) u) = (if u = t then i else heap_index (tdata q u))"
  by (simp_all add: set_index_def upd_timer_def)

lemma swap_heap_list: "theap (swap_heap i j q) = (theap q)[i := theap q ! j, j := theap q ! i]"
  by (simp add: swap_heap_def Let_def)

lemma indexed_distinct: "indexed q \<Longrightarrow> i < length (theap q) \<Longrightarrow> j < length (theap q) \<Longrightarrow> snd (theap q ! i) = snd (theap q ! j) \<Longrightarrow> i = j"
  unfolding indexed_def by metis

lemma swap_rearranged:
  assumes "i < length (theap q)" and "j < length (theap q)"
  shows "rearranged q (swap_heap i j q)"
proof -
  have "mset (theap (swap_heap i j q)) = mset (theap q)" unfolding swap_heap_list by (rule mset_swap [OF assms(2,1)])
  moreover have "snd (theap q ! i) \<in> in_heap q" "snd (theap q ! j) \<in> in_heap q" using assms by (auto simp: in_heap_def)
  ultimately show ?thesis using assms by (auto simp: rearranged_def swap_heap_def Let_def nth_list_update)
qed

lemma swap_indexed:
  assumes "indexed q" and "i < length (theap q)" and "j < length (theap q)"
  shows "indexed (swap_heap i j q)"
  unfolding indexed_def
proof (intro allI impI)
  fix k assume "k < length (theap (swap_heap i j q))"
  then have k: "k < length (theap q)" by simp
  have ne: "k \<noteq> m \<Longrightarrow> m < length (theap q) \<Longrightarrow> snd (theap q ! k) \<noteq> snd (theap q ! m)" for m
    using indexed_distinct [OF assms(1) k] by blast
  have ix: "heap_index (tdata q (snd (theap q ! k))) = k" using assms(1) k by (simp add: indexed_def)
  show "heap_index (tdata (swap_heap i j q) (snd (theap (swap_heap i j q) ! k))) = k"
    unfolding swap_heap_list using assms(2,3) k ix ne [OF _ assms(2)] ne [OF _ assms(3)]
      indexed_distinct [OF assms(1,2,3)]
    by (cases "k = i"; cases "k = j"; simp add: swap_heap_def Let_def nth_list_update)
qed

lemma up_heap_rearranged: "index < length (theap q) \<Longrightarrow> rearranged q (up_heap index q)"
proof (induction index q rule: up_heap.induct)
  case (1 index q)
  let ?p = "(index - 1) div 2"
  show ?case
  proof (cases "0 < index \<and> time_at q index < time_at q ?p")
    case True
    have p: "?p < length (theap q)" using "1.prems" by linarith
    then have "rearranged (swap_heap index ?p q) (up_heap ?p (swap_heap index ?p q))" using 1 True by simp
    then show ?thesis using True swap_rearranged [OF "1.prems" p] rearranged_trans by (subst up_heap.simps) (auto simp: Let_def)
  qed (subst up_heap.simps, auto simp: Let_def)
qed

lemma up_heap_indexed: "index < length (theap q) \<Longrightarrow> indexed q \<Longrightarrow> indexed (up_heap index q)"
proof (induction index q rule: up_heap.induct)
  case (1 index q)
  let ?p = "(index - 1) div 2"
  show ?case
  proof (cases "0 < index \<and> time_at q index < time_at q ?p")
    case True
    have p: "?p < length (theap q)" using "1.prems" by linarith
    then have "indexed (up_heap ?p (swap_heap index ?p q))" using 1 True swap_indexed [OF "1.prems"(2,1) p] by simp
    then show ?thesis using True by (subst up_heap.simps) (auto simp: Let_def)
  qed (subst up_heap.simps, use 1 in \<open>auto simp: Let_def\<close>)
qed

lemma up_heap_ok: "index < length (theap q) \<Longrightarrow> heap_up (theap q) index \<Longrightarrow> heap_ok (theap (up_heap index q))"
proof (induction index q rule: up_heap.induct)
  case (1 index q)
  let ?p = "(index - 1) div 2"
  show ?case
  proof (cases "0 < index \<and> time_at q index < time_at q ?p")
    case True
    have p: "?p < length (theap q)" using "1.prems" by linarith
    have "heap_up (theap (swap_heap index ?p q)) ?p"
      unfolding swap_heap_list using True "1.prems" by (intro up_step) (auto simp: time_at_def)
    then have "heap_ok (theap (up_heap ?p (swap_heap index ?p q)))" using 1 True p by simp
    then show ?thesis using True by (subst up_heap.simps) (auto simp: Let_def)
  next
    case False
    then have "0 < index \<Longrightarrow> fst (theap q ! ?p) \<le> fst (theap q ! index)" by (auto simp: time_at_def)
    then have "heap_ok (theap q)" using "1.prems"(2) unfolding heap_ok_def heap_up_def by metis
    then show ?thesis using False by (subst up_heap.simps) (auto simp: Let_def)
  qed
qed

lemma min_child_props:
  assumes "i * 2 + 1 < length (theap q)"
  defines "c \<equiv> min_child q (i * 2 + 1)"
  shows "c = i * 2 + 1 \<or> c = i * 2 + 2" and "c < length (theap q)"
    and "k = i * 2 + 1 \<or> k = i * 2 + 2 \<Longrightarrow> k < length (theap q) \<Longrightarrow> fst (theap q ! c) \<le> fst (theap q ! k)"
  using assms by (auto simp: min_child_def time_at_def split: if_splits)

lemma down_heap_props:
  "index < length (theap q) \<Longrightarrow> rearranged q (down_heap index q) \<and> (indexed q \<longrightarrow> indexed (down_heap index q)) \<and>
     (heap_down (theap q) index \<longrightarrow> heap_ok (theap (down_heap index q)))"
proof (induction index q rule: down_heap.induct)
  case (1 index q)
  show ?case
  proof (cases "index * 2 + 1 < length (theap q)")
    case False
    then have "heap_down (theap q) index \<Longrightarrow> heap_ok (theap q)" using child_iff unfolding heap_down_def heap_ok_def by fastforce
    then show ?thesis using False by (subst (1 2 3) down_heap.simps) (simp add: Let_def)
  next
    case True
    let ?c = "min_child q (index * 2 + 1)"
    note c = min_child_props [OF True]
    show ?thesis
    proof (cases "time_at q index < time_at q ?c")
      case stop: True
      have "heap_ok (theap q)" if d: "heap_down (theap q) index"
        unfolding heap_ok_def
      proof (intro allI impI)
        fix k assume k: "0 < k \<and> k < length (theap q)"
        show "fst (theap q ! ((k - 1) div 2)) \<le> fst (theap q ! k)"
        proof (cases "(k - 1) div 2 = index")
          case True
          then have "fst (theap q ! ?c) \<le> fst (theap q ! k)" using c(3) [of k] k child_iff by blast
          then show ?thesis using stop True by (simp add: time_at_def)
        next
          case False
          then show ?thesis using d k unfolding heap_down_def by blast
        qed
      qed
      then show ?thesis using True stop by (subst (1 2 3) down_heap.simps) (simp add: Let_def)
    next
      case go: False
      let ?q = "swap_heap index ?c q"
      have ih: "rearranged ?q (down_heap ?c ?q) \<and> (indexed ?q \<longrightarrow> indexed (down_heap ?c ?q)) \<and>
          (heap_down (theap ?q) ?c \<longrightarrow> heap_ok (theap (down_heap ?c ?q)))"
        using "1.IH" [OF refl True go] c(2) by simp
      have "heap_down (theap q) index \<Longrightarrow> heap_down (theap ?q) ?c"
        unfolding swap_heap_list using c go by (intro down_step) (auto simp: time_at_def)
      moreover have "down_heap index q = down_heap ?c ?q" using True go by (subst down_heap.simps) (simp add: Let_def)
      ultimately show ?thesis
        using ih swap_indexed [OF _ "1.prems" c(2)] rearranged_trans [OF swap_rearranged [OF "1.prems" c(2)]] by simp
    qed
  qed
qed

section \<open>Inserting and removing\<close>

definition heap_inv :: "'t::linorder timer_queue \<Rightarrow> bool" where
  "heap_inv q \<longleftrightarrow>
     heap_ok (theap q) \<and> indexed q \<and> (\<forall>t. t \<notin> in_heap q \<longrightarrow> heap_index (tdata q t) = no_index) \<and> length (theap q) \<le> no_index"

definition same_lists :: "'t timer_queue \<Rightarrow> 't timer_queue \<Rightarrow> bool" where
  "same_lists q q1 \<longleftrightarrow>
     timers q1 = timers q \<and>
     (\<forall>t. t_ops (tdata q1 t) = t_ops (tdata q t) \<and> t_next (tdata q1 t) = t_next (tdata q t) \<and> t_prev (tdata q1 t) = t_prev (tdata q t))"

lemma same_lists_trans: "same_lists q q1 \<Longrightarrow> same_lists q1 q2 \<Longrightarrow> same_lists q q2"
  by (simp add: same_lists_def)

lemma rearranged_same: "rearranged q q1 \<Longrightarrow> same_lists q q1"
  by (simp add: rearranged_def same_lists_def)

lemma replaced_entry:
  assumes h: "heap_ok h" and i: "i < length g" and l: "length g \<le> length h" and g: "\<And>k. k < length g \<Longrightarrow> k \<noteq> i \<Longrightarrow> g ! k = h ! k"
  shows "0 < i \<Longrightarrow> fst (g ! i) < fst (g ! ((i - 1) div 2)) \<Longrightarrow> heap_up g i"
    and "\<not> (0 < i \<and> fst (g ! i) < fst (g ! ((i - 1) div 2))) \<Longrightarrow> heap_down g i"
proof -
  have o: "0 < k \<Longrightarrow> k < length g \<Longrightarrow> fst (h ! ((k - 1) div 2)) \<le> fst (h ! k)" for k
    using h l unfolding heap_ok_def by force
  have u: "fst (g ! ((k - 1) div 2)) \<le> fst (g ! k)" if "0 < k" "k < length g" "k \<noteq> i" "(k - 1) div 2 \<noteq> i" for k
  proof -
    have "(k - 1) div 2 < length g" using that by linarith
    then show ?thesis using o that g by metis
  qed
  have c: "fst (g ! ((i - 1) div 2)) \<le> fst (g ! k)" if "0 < k" "k < length g" "(k - 1) div 2 = i" "0 < i" for k
  proof -
    have "(i - 1) div 2 < i" "k \<noteq> i" using that by auto
    then have "g ! ((i - 1) div 2) = h ! ((i - 1) div 2)" "g ! k = h ! k" using g i that by auto
    then show ?thesis using o [of k] o [of i] that i by auto
  qed
  show "heap_up g i" if "0 < i" "fst (g ! i) < fst (g ! ((i - 1) div 2))"
  proof -
    have "fst (g ! ((k - 1) div 2)) \<le> fst (g ! k)" if k: "0 < k" "k < length g" "k \<noteq> i" for k
      using u [OF k] c [OF k(1,2)] \<open>0 < i\<close> \<open>fst (g ! i) < _\<close> by (cases "(k - 1) div 2 = i") auto
    then show ?thesis unfolding heap_up_def using c by blast
  qed
  show "heap_down g i" if n: "\<not> (0 < i \<and> fst (g ! i) < fst (g ! ((i - 1) div 2)))"
  proof -
    have "fst (g ! ((k - 1) div 2)) \<le> fst (g ! k)" if k: "0 < k" "k < length g" "(k - 1) div 2 \<noteq> i" for k
      using u [OF k(1,2) _ k(3)] n k by (cases "k = i") auto
    then show ?thesis unfolding heap_down_def using c by blast
  qed
qed

text \<open>Dropping the last entry, that of the timer \<open>t\<close>.\<close>

definition pop_last :: "nat \<Rightarrow> 't timer_queue \<Rightarrow> 't timer_queue" where
  "pop_last t q = (let q1 = set_index t no_index q in q1\<lparr>theap := butlast (theap q1)\<rparr>)"

lemma pop_last_effect:
  assumes "indexed q" and "theap q \<noteq> []" and t: "snd (last (theap q)) = t"
  shows "mset (theap (pop_last t q)) = filter_mset (\<lambda>e. snd e \<noteq> t) (mset (theap q))" and "indexed (pop_last t q)"
    and "same_lists q (pop_last t q)" and "theap (pop_last t q) = butlast (theap q)"
    and "heap_index (tdata (pop_last t q) u) = (if u = t then no_index else heap_index (tdata q u))"
proof -
  let ?n = "length (theap q) - 1"
  show b: "theap (pop_last t q) = butlast (theap q)" by (simp add: pop_last_def Let_def)
  show "same_lists q (pop_last t q)" by (simp add: pop_last_def Let_def same_lists_def)
  show x: "heap_index (tdata (pop_last t q) u) = (if u = t then no_index else heap_index (tdata q u))" for u
    by (simp add: pop_last_def Let_def)
  have l: "theap q ! ?n = last (theap q)" using assms(2) by (simp add: last_conv_nth)
  have ne: "snd (theap q ! k) \<noteq> t" if "k < ?n" for k
  proof
    assume "snd (theap q ! k) = t"
    moreover have "?n < length (theap q)" using assms(2) by (cases "theap q") auto
    ultimately show False using indexed_distinct [OF assms(1), of k ?n] that l t by simp
  qed
  then have "filter_mset (\<lambda>e. snd e \<noteq> t) (mset (butlast (theap q))) = mset (butlast (theap q))"
    by (auto simp: filter_mset_eq_conv in_set_conv_nth nth_butlast) (metis snd_conv)
  moreover have "mset (theap q) = mset (butlast (theap q)) + {#last (theap q)#}"
    using assms(2) by (metis append_butlast_last_id mset.simps(1) mset.simps(2) mset_append add_mset_add_single)
  ultimately show "mset (theap (pop_last t q)) = filter_mset (\<lambda>e. snd e \<noteq> t) (mset (theap q))" using t b by simp
  show "indexed (pop_last t q)" unfolding indexed_def b x using assms(1) ne by (simp add: nth_butlast indexed_def)
qed

lemma in_heap_index:
  assumes "heap_inv q" and "t \<in> in_heap q"
  shows "heap_index (tdata q t) < length (theap q)" and "snd (theap q ! heap_index (tdata q t)) = t"
proof -
  obtain k where "k < length (theap q)" "snd (theap q ! k) = t" using assms(2) by (auto simp: in_heap_def in_set_conv_nth)
  then show "heap_index (tdata q t) < length (theap q)" "snd (theap q ! heap_index (tdata q t)) = t"
    using assms(1) by (auto simp: heap_inv_def indexed_def)
qed

lemma restored:
  assumes "rearranged q q1" and "indexed q1" and "heap_ok (theap q1)" and "length (theap q) \<le> no_index"
    and "\<And>u. u \<notin> in_heap q \<Longrightarrow> heap_index (tdata q u) = no_index"
  shows "heap_inv q1"
  using assms rearranged_heap [OF assms(1)] by (simp add: heap_inv_def rearranged_def)

theorem remove_from_heap_effect:
  assumes inv: "heap_inv q"
  shows "heap_inv (remove_from_heap t q) \<and> same_lists q (remove_from_heap t q) \<and>
    mset (theap (remove_from_heap t q)) = filter_mset (\<lambda>e. snd e \<noteq> t) (mset (theap q))"
proof (cases "t \<in> in_heap q")
  case False
  then have "\<not> heap_index (tdata q t) < length (theap q)" using inv by (simp add: heap_inv_def)
  moreover have "filter_mset (\<lambda>e. snd e \<noteq> t) (mset (theap q)) = mset (theap q)"
    using False by (force simp: filter_mset_eq_conv in_heap_def)
  ultimately show ?thesis using inv by (simp add: remove_from_heap_def Let_def same_lists_def)
next
  case True
  define i where "i = heap_index (tdata q t)"
  note i = in_heap_index [OF inv True, folded i_def]
  let ?n = "length (theap q) - 1"
  define q0 where "q0 = (if i = ?n then q else swap_heap i ?n q)"
  let ?q = "pop_last t q0"
  have n: "?n < length (theap q)" "theap q \<noteq> []" using i by auto
  have ix: "indexed q" and ok: "heap_ok (theap q)" using inv by (simp_all add: heap_inv_def)
  have r: "rearranged q q0" "indexed q0" using swap_rearranged [OF i(1) n(1)] swap_indexed [OF ix i(1) n(1)] ix by (simp_all add: q0_def)
  have h: "theap q0 = (if i = ?n then theap q else (theap q)[i := theap q ! ?n, ?n := theap q ! i])" by (simp add: q0_def swap_heap_list)
  have l: "length (theap q0) = length (theap q)" by (simp add: h)
  have t: "snd (last (theap q0)) = t" using i n by (auto simp: h last_conv_nth nth_list_update)
  have e0: "theap q0 \<noteq> []" using n(2) h by auto
  note p = pop_last_effect [OF r(2) e0 t]
  have m: "mset (theap ?q) = filter_mset (\<lambda>e. snd e \<noteq> t) (mset (theap q))" using p(1) r(1) by (simp add: rearranged_def)
  then have "set (theap ?q) = {e \<in> set (theap q). snd e \<noteq> t}" by (metis set_mset_mset set_mset_filter)
  then have mem: "in_heap ?q = in_heap q - {t}" by (auto simp: in_heap_def)
  have out: "heap_index (tdata ?q u) = no_index" if "u \<notin> in_heap ?q" for u
    using that mem p(5) [of u] r(1) inv by (auto simp: rearranged_def heap_inv_def)
  have len: "length (theap ?q) \<le> no_index" using p(4) l inv by (auto simp: heap_inv_def)
  have s: "same_lists q ?q" using same_lists_trans [OF rearranged_same [OF r(1)] p(3)] .
  show ?thesis
  proof (cases "i = ?n")
    case True
    then have "remove_from_heap t q = ?q" using i n by (simp add: remove_from_heap_def pop_last_def q0_def Let_def i_def)
    moreover have "heap_ok (theap ?q)" using ok p(4) True by (auto simp: heap_ok_def q0_def nth_butlast)
    ultimately show ?thesis using p(2) out len s m by (simp add: heap_inv_def)
  next
    case False
    let ?up = "0 < i \<and> time_at ?q i < time_at ?q ((i - 1) div 2)"
    have rem: "remove_from_heap t q = (if ?up then up_heap i ?q else down_heap i ?q)"
      using i n False by (simp add: remove_from_heap_def pop_last_def q0_def Let_def i_def)
    have il: "i < length (theap ?q)" using i False p(4) l by simp
    have g: "theap ?q ! k = theap q ! k" if "k < length (theap ?q)" "k \<noteq> i" for k
      using that False p(4) l by (simp add: h nth_butlast nth_list_update)
    have "length (theap ?q) \<le> length (theap q)" using p(4) l by simp
    note e = replaced_entry [OF ok il this g]
    have "rearranged ?q (remove_from_heap t q) \<and> indexed (remove_from_heap t q) \<and> heap_ok (theap (remove_from_heap t q))"
      using up_heap_rearranged [OF il] up_heap_indexed [OF il p(2)] up_heap_ok [OF il] down_heap_props [OF il] p(2) e
      by (simp add: rem time_at_def)
    then show ?thesis using restored [OF _ _ _ len out] same_lists_trans [OF s rearranged_same] m by (auto simp: rearranged_def)
  qed
qed

theorem insert_into_heap_effect:
  assumes inv: "heap_inv q" and t: "t \<notin> in_heap q" and room: "length (theap q) < no_index"
  shows "heap_inv (insert_into_heap pos_inf time t q) \<and> same_lists q (insert_into_heap pos_inf time t q) \<and>
    mset (theap (insert_into_heap pos_inf time t q)) = mset (theap q) + (if pos_inf time then {#} else {#(time, t)#})"
proof (cases "pos_inf time")
  case True
  then show ?thesis using inv t by (auto simp: insert_into_heap_def heap_inv_def same_lists_def indexed_def in_heap_def)
next
  case False
  define q0 where "q0 = (set_index t (length (theap q)) q)\<lparr>theap := theap q @ [(time, t)]\<rparr>"
  let ?n = "length (theap q)"
  have e: "insert_into_heap pos_inf time t q = up_heap ?n q0" using False by (simp add: insert_into_heap_def Let_def q0_def)
  have ne: "snd (theap q ! k) \<noteq> t" if "k < ?n" for k using t that by (auto simp: in_heap_def)
  have n: "?n < length (theap q0)" by (simp add: q0_def)
  have ix: "indexed q0" using inv ne by (auto simp: indexed_def q0_def nth_append heap_inv_def less_Suc_eq)
  have "heap_up (theap q0) ?n"
  proof -
    have "fst (theap q0 ! ((k - 1) div 2)) \<le> fst (theap q0 ! k)" if "0 < k" "k < ?n" for k
    proof -
      have "(k - 1) div 2 < ?n" using that by linarith
      then show ?thesis using inv that by (simp add: q0_def nth_append heap_inv_def heap_ok_def)
    qed
    then show ?thesis by (auto simp: heap_up_def q0_def)
  qed
  then have u: "rearranged q0 (up_heap ?n q0)" "indexed (up_heap ?n q0)" "heap_ok (theap (up_heap ?n q0))"
    using up_heap_rearranged [OF n] up_heap_indexed [OF n ix] up_heap_ok [OF n] by blast+
  have "heap_inv (up_heap ?n q0)"
    using inv room by (intro restored [OF u]) (auto simp: q0_def heap_inv_def in_heap_def)
  moreover have "same_lists q q0" by (simp add: q0_def same_lists_def)
  ultimately show ?thesis using same_lists_trans [OF _ rearranged_same [OF u(1)]] u(1) False unfolding e
    by (simp add: rearranged_def) (simp add: q0_def)
qed

section \<open>The list of active timers\<close>

text \<open>A doubly linked segment, from the timer before it to the timer after it.\<close>

definition first_or :: "nat option \<Rightarrow> nat list \<Rightarrow> nat option" where
  "first_or n xs = (case xs of [] \<Rightarrow> n | x # _ \<Rightarrow> Some x)"

definition last_or :: "nat option \<Rightarrow> nat list \<Rightarrow> nat option" where
  "last_or p xs = (if xs = [] then p else Some (last xs))"

primrec segment :: "(nat \<Rightarrow> per_timer_data) \<Rightarrow> nat option \<Rightarrow> nat list \<Rightarrow> nat option \<Rightarrow> bool" where
  "segment d p [] n = True"
| "segment d p (x # xs) n = (t_prev (d x) = p \<and> t_next (d x) = first_or n xs \<and> segment d (Some x) xs n)"

definition linked :: "'t timer_queue \<Rightarrow> nat list \<Rightarrow> bool" where
  "linked q xs \<longleftrightarrow>
     distinct xs \<and> timers q = first_or None xs \<and> segment (tdata q) None xs None \<and>
     (\<forall>t. t \<notin> set xs \<longrightarrow> t_next (tdata q t) = None \<and> t_prev (tdata q t) = None)"

lemma or_simps [simp]:
  "first_or n [] = n" "first_or n (x # xs) = Some x" "last_or p [] = p" "last_or p (x # xs) = last_or (Some x) xs"
  "first_or n (xs @ ys) = first_or (first_or n ys) xs"
  by (auto simp: first_or_def last_or_def split: list.split)

lemma segment_append: "segment d p (ys @ zs) n \<longleftrightarrow> segment d p ys (first_or n zs) \<and> segment d (last_or p ys) zs n"
  by (induction ys arbitrary: p) auto

lemma segment_same:
  "(\<And>x. x \<in> set xs \<Longrightarrow> t_next (e x) = t_next (d x) \<and> t_prev (e x) = t_prev (d x)) \<Longrightarrow> segment e p xs n = segment d p xs n"
  by (induction xs arbitrary: p) auto

lemma segment_last:
  assumes "segment d p ys n" and "distinct ys" and "ys \<noteq> []"
  shows "segment (d(last ys := (d (last ys))\<lparr>t_next := m\<rparr>)) p ys m"
proof -
  obtain bs b where y: "ys = bs @ [b]" using assms(3) by (meson rev_exhaust)
  then have "segment (d(b := (d b)\<lparr>t_next := m\<rparr>)) p bs (Some b) = segment d p bs (Some b)" using assms(2) by (intro segment_same) auto
  then show ?thesis using assms(1) y by (simp add: segment_append)
qed

lemma segment_first:
  assumes "segment d p (z # zs) n" and "distinct (z # zs)"
  shows "segment (d(z := (d z)\<lparr>t_prev := m\<rparr>)) m (z # zs) n"
proof -
  have "segment (d(z := (d z)\<lparr>t_prev := m\<rparr>)) (Some z) zs n = segment d (Some z) zs n" using assms(2) by (intro segment_same) auto
  then show ?thesis using assms(1) by simp
qed

lemma segment_prev: "segment d (Some p) xs n \<Longrightarrow> t \<in> set xs \<Longrightarrow> t_prev (d t) \<noteq> None"
  by (induction xs arbitrary: p) auto

lemma active_iff:
  assumes "linked q xs"
  shows "active q t \<longleftrightarrow> t \<in> set xs"
proof (cases xs)
  case Nil
  then show ?thesis using assms by (simp add: linked_def active_def)
next
  case (Cons x ys)
  then have "t \<in> set ys \<Longrightarrow> t_prev (tdata q t) \<noteq> None" "t \<notin> set xs \<Longrightarrow> t_prev (tdata q t) = None" "timers q = Some x"
    using assms segment_prev by (auto simp: linked_def)
  then show ?thesis using Cons by (cases "t = x"; cases "t \<in> set ys"; simp add: active_def)
qed

lemma linked_same: "same_lists q q1 \<Longrightarrow> linked q xs \<Longrightarrow> linked q1 xs"
  using segment_same [of xs "tdata q1" "tdata q" None None] by (simp add: linked_def same_lists_def)

lemma upd_fields [simp]:
  "timers (upd_timer t f q) = timers q" "theap (upd_timer t f q) = theap q"
  "tdata (upd_timer t f q) = (tdata q)(t := f (tdata q t))"
  by (simp_all add: upd_timer_def)

lemma link_first_effect:
  assumes l: "linked q xs" and t: "t \<notin> set xs"
  shows "linked (link_first t q) (t # xs)" and "theap (link_first t q) = theap q"
    and "t_ops (tdata (link_first t q) u) = t_ops (tdata q u)" and "heap_index (tdata (link_first t q) u) = heap_index (tdata q u)"
proof -
  show "theap (link_first t q) = theap q" "t_ops (tdata (link_first t q) u) = t_ops (tdata q u)"
    "heap_index (tdata (link_first t q) u) = heap_index (tdata q u)"
    by (auto simp: link_first_def Let_def split: option.splits)
  let ?d = "(tdata q)(t := (tdata q t)\<lparr>t_next := timers q, t_prev := None\<rparr>)"
  have "segment ?d None xs None = segment (tdata q) None xs None" using t by (intro segment_same) auto
  then have d: "segment ?d None xs None" using l by (simp add: linked_def)
  show "linked (link_first t q) (t # xs)"
  proof (cases xs)
    case Nil
    then show ?thesis using l t by (auto simp: linked_def link_first_def Let_def)
  next
    case (Cons x ys)
    then have x: "x \<noteq> t" "segment (?d(x := (?d x)\<lparr>t_prev := Some t\<rparr>)) (Some t) xs None"
      using segment_first [of ?d None x ys None "Some t"] d l t unfolding linked_def by auto
    then show ?thesis using l t Cons by (auto simp: linked_def link_first_def Let_def)
  qed
qed

lemma unlink_segments:
  assumes "segment d None (ys @ t # zs) None" and "distinct (ys @ t # zs)"
  defines "d2 \<equiv> (case t_prev (d t) of None \<Rightarrow> d | Some p \<Rightarrow> d(p := (d p)\<lparr>t_next := t_next (d t)\<rparr>))"
  defines "d3 \<equiv> (case t_next (d2 t) of None \<Rightarrow> d2 | Some n \<Rightarrow> d2(n := (d2 n)\<lparr>t_prev := t_prev (d2 t)\<rparr>))"
  shows "segment (d3(t := (d3 t)\<lparr>t_next := None, t_prev := None\<rparr>)) None (ys @ zs) None"
proof -
  have y: "segment d None ys (Some t)" and z: "segment d (Some t) zs None"
    and t: "t_prev (d t) = last_or None ys" "t_next (d t) = first_or None zs"
    using assms(1) by (simp_all add: segment_append)
  have dy: "distinct ys" "distinct zs" "t \<notin> set ys" "t \<notin> set zs" "set ys \<inter> set zs = {}" using assms(2) by auto
  have d2: "d2 = (if ys = [] then d else d(last ys := (d (last ys))\<lparr>t_next := first_or None zs\<rparr>))"
    by (simp add: d2_def t last_or_def)
  have lt: "ys \<noteq> [] \<Longrightarrow> last ys \<noteq> t \<and> last ys \<notin> set zs" using dy last_in_set by fastforce
  have t2: "t_prev (d2 t) = last_or None ys" "t_next (d2 t) = first_or None zs" using t lt by (auto simp: d2)
  have d3: "d3 = (case zs of [] \<Rightarrow> d2 | n # _ \<Rightarrow> d2(n := (d2 n)\<lparr>t_prev := last_or None ys\<rparr>))"
    by (simp add: d3_def t2 split: list.split)
  have y2: "segment d2 None ys (first_or None zs)" using segment_last [OF y dy(1)] by (auto simp: d2)
  have "segment d2 (Some t) zs None = segment d (Some t) zs None" using lt by (intro segment_same) (auto simp: d2)
  then have z2: "segment d2 (Some t) zs None" using z by simp
  have y3: "segment d3 None ys (first_or None zs)"
  proof -
    have "segment d3 None ys (first_or None zs) = segment d2 None ys (first_or None zs)"
      using dy(5) by (intro segment_same) (auto simp: d3 split: list.splits)
    then show ?thesis using y2 by simp
  qed
  have z3: "segment d3 (last_or None ys) zs None"
    using segment_first [of d2 "Some t" _ _ None "last_or None ys"] z2 dy(2) by (cases zs) (simp_all add: d3)
  have "segment (d3(t := v)) p xs n = segment d3 p xs n" if "t \<notin> set xs" for v p xs n
    using that by (intro segment_same) auto
  then show ?thesis using y3 z3 dy(3,4) by (simp add: segment_append)
qed

theorem unlink_effect:
  assumes l: "linked q xs" and t: "t \<in> set xs"
  shows "linked (unlink t q) (remove1 t xs)" and "theap (unlink t q) = theap q"
    and "t_ops (tdata (unlink t q) u) = t_ops (tdata q u)" and "heap_index (tdata (unlink t q) u) = heap_index (tdata q u)"
proof -
  show "theap (unlink t q) = theap q" "t_ops (tdata (unlink t q) u) = t_ops (tdata q u)"
    "heap_index (tdata (unlink t q) u) = heap_index (tdata q u)"
    by (auto simp: unlink_def Let_def split: option.splits)
  obtain ys zs where xs: "xs = ys @ t # zs" "t \<notin> set ys" using t by (meson split_list_first)
  then have dist: "distinct (ys @ t # zs)" and seg: "segment (tdata q) None (ys @ t # zs) None"
    and tm: "timers q = first_or (Some t) ys" using l by (auto simp: linked_def)
  let ?d = "tdata q"
  let ?d2 = "case t_prev (?d t) of None \<Rightarrow> ?d | Some p \<Rightarrow> ?d(p := (?d p)\<lparr>t_next := t_next (?d t)\<rparr>)"
  let ?d3 = "case t_next (?d2 t) of None \<Rightarrow> ?d2 | Some n \<Rightarrow> ?d2(n := (?d2 n)\<lparr>t_prev := t_prev (?d2 t)\<rparr>)"
  have td: "tdata (unlink t q) = ?d3(t := (?d3 t)\<lparr>t_next := None, t_prev := None\<rparr>)"
    by (auto simp: unlink_def Let_def split: option.splits)
  have p: "t_prev (?d t) = last_or None ys" "t_next (?d t) = first_or None zs" using seg by (simp_all add: segment_append)
  have "timers (unlink t q) = (if timers q = Some t then t_next (?d t) else timers q)"
    by (auto simp: unlink_def Let_def split: option.splits)
  also have "\<dots> = first_or None (ys @ zs)" using tm p xs(2) by (cases ys) auto
  finally have 1: "timers (unlink t q) = first_or None (ys @ zs)" .
  have 2: "t_next (tdata (unlink t q) u) = None \<and> t_prev (tdata (unlink t q) u) = None" if u: "u \<notin> set (ys @ zs)" for u
  proof (cases "u = t")
    case False
    have "u \<noteq> last ys \<or> ys = []" "zs = [] \<or> u \<noteq> hd zs" using u last_in_set by fastforce+
    moreover have "t_next (?d u) = None \<and> t_prev (?d u) = None" using l u False xs by (auto simp: linked_def)
    ultimately show ?thesis using False p by (cases zs; cases "ys = []") (auto simp: td last_or_def)
  qed (simp add: td)
  show "linked (unlink t q) (remove1 t xs)"
    using 1 2 dist unlink_segments [OF seg dist] xs unfolding linked_def td by (simp add: remove1_append)
qed

end
