(* ===== verification/AsioTimerQueue.thy ===== *)
theory AsioTimerQueue
  imports AsioTimers "HOL-Library.Signed_Division"
begin

text \<open>
  What the timer queue of theory \<open>AsioTimers\<close> stands for: a map from the active timers to their expiry and operations. Every call
  of a history refines the operation on the map, operations expire in the order of their times, and the time the reactor
  waits is that of the earliest timer, computed without overflow (\<^verbatim>\<open>detail/chrono_time_traits.hpp\<close>).
\<close>

section \<open>What a timer queue stands for\<close>

text \<open>The active timers, each with its expiry (none if it never expires) and its operations.\<close>

definition due :: "'t timer_queue \<Rightarrow> nat \<Rightarrow> 't option" where
  "due q = map_of (map prod.swap (theap q))"

definition contents :: "'t timer_queue \<Rightarrow> nat \<Rightarrow> ('t option \<times> wait_op list) option" where
  "contents q t = (if active q t then Some (due q t, t_ops (tdata q t)) else None)"

definition timers_inv :: "'t::linorder timer_queue \<Rightarrow> bool" where
  "timers_inv q \<longleftrightarrow>
     heap_inv q \<and> (\<exists>xs. linked q xs \<and> in_heap q \<subseteq> set xs \<and> (\<forall>t. t_ops (tdata q t) \<noteq> [] \<longleftrightarrow> t \<in> set xs))"

lemma heap_inv_cong:
  "theap q1 = theap q \<Longrightarrow> (\<And>t. heap_index (tdata q1 t) = heap_index (tdata q t)) \<Longrightarrow> heap_inv q1 = heap_inv q"
  by (simp add: heap_inv_def indexed_def in_heap_def)

lemma due_iff:
  assumes "heap_inv q"
  shows "due q t = Some x \<longleftrightarrow> (x, t) \<in> set (theap q)"
proof -
  have "distinct (map snd (theap q))"
    using indexed_distinct [of q] assms by (auto simp: distinct_conv_nth heap_inv_def)
  then have "distinct (map fst (map prod.swap (theap q)))" by (simp add: comp_def)
  then show ?thesis by (auto simp: due_def image_iff intro: bexI [of _ "(x, t)"])
qed

lemma due_by_set:
  assumes "heap_inv q" and "heap_inv q1" and "\<And>x. (x, t) \<in> set (theap q1) \<longleftrightarrow> (x, t) \<in> set (theap q)"
  shows "due q1 t = due q t"
  using assms due_iff by (metis option.exhaust)

lemma due_none: "t \<notin> in_heap q \<Longrightarrow> due q t = None"
  by (force simp: due_def in_heap_def map_of_eq_None_iff)

lemma remove_timer_effect:
  assumes inv: "heap_inv q" and l: "linked q xs" and t: "t \<in> set xs"
  shows "heap_inv (remove_timer t q)" and "linked (remove_timer t q) (remove1 t xs)"
    and "mset (theap (remove_timer t q)) = filter_mset (\<lambda>e. snd e \<noteq> t) (mset (theap q))"
    and "t_ops (tdata (remove_timer t q) u) = t_ops (tdata q u)"
    and "in_heap (remove_timer t q) = in_heap q - {t}"
    and "u \<noteq> t \<Longrightarrow> due (remove_timer t q) u = due q u"
proof -
  note h = remove_from_heap_effect [OF inv, of t]
  have l1: "linked (remove_from_heap t q) xs" using h l linked_same by blast
  note u = unlink_effect [OF l1 t]
  show i: "heap_inv (remove_timer t q)" unfolding remove_timer_def using h u heap_inv_cong by blast
  show "linked (remove_timer t q) (remove1 t xs)" unfolding remove_timer_def by (rule u(1))
  show m: "mset (theap (remove_timer t q)) = filter_mset (\<lambda>e. snd e \<noteq> t) (mset (theap q))" unfolding remove_timer_def u(2) using h by blast
  show "t_ops (tdata (remove_timer t q) u) = t_ops (tdata q u)" for u unfolding remove_timer_def u(3) using h by (simp add: same_lists_def)
  have s: "set (theap (remove_timer t q)) = {e \<in> set (theap q). snd e \<noteq> t}" using m by (metis set_mset_mset set_mset_filter)
  then show "in_heap (remove_timer t q) = in_heap q - {t}" by (auto simp: in_heap_def)
  show "due (remove_timer t q) u = due q u" if "u \<noteq> t" for u
    using that by (intro due_by_set inv i) (simp add: s)
qed

lemma contents_linked: "linked q xs \<Longrightarrow> contents q t = (if t \<in> set xs then Some (due q t, t_ops (tdata q t)) else None)"
  by (simp add: contents_def active_iff)

text \<open>Replacing the operations of a timer, and removing the timer when none is left.\<close>

lemma replace_ops_effect:
  fixes rest :: "wait_op list"
  assumes inv: "timers_inv q" and t: "active q t"
  defines "q1 \<equiv> upd_timer t (\<lambda>x. x\<lparr>t_ops := rest\<rparr>) q"
  shows "rest \<noteq> [] \<Longrightarrow> timers_inv q1 \<and> contents q1 = (contents q)(t \<mapsto> (due q t, rest))"
    and "rest = [] \<Longrightarrow> timers_inv (remove_timer t q1) \<and> contents (remove_timer t q1) = (contents q)(t := None)"
proof -
  obtain xs where xs: "heap_inv q" "linked q xs" "in_heap q \<subseteq> set xs" "\<forall>t. t_ops (tdata q t) \<noteq> [] \<longleftrightarrow> t \<in> set xs"
    using inv by (auto simp: timers_inv_def)
  have tx: "t \<in> set xs" using t active_iff [OF xs(2)] by simp
  have h1: "heap_inv q1" using xs(1) heap_inv_cong [of q1 q] by (simp add: q1_def)
  have l1: "linked q1 xs" using xs(2) segment_same [of xs "tdata q1" "tdata q"] by (simp add: q1_def linked_def)
  have o1: "t_ops (tdata q1 u) = (if u = t then rest else t_ops (tdata q u))" for u by (simp add: q1_def)
  have d1: "due q1 = due q" "in_heap q1 = in_heap q" by (simp_all add: due_def in_heap_def q1_def)
  show "timers_inv q1 \<and> contents q1 = (contents q)(t \<mapsto> (due q t, rest))" if "rest \<noteq> []"
  proof
    show "timers_inv q1" unfolding timers_inv_def using h1 l1 d1 o1 xs(3,4) tx that by auto
    show "contents q1 = (contents q)(t \<mapsto> (due q t, rest))"
      using tx by (auto simp: contents_linked [OF l1] contents_linked [OF xs(2)] d1 o1 fun_eq_iff)
  qed
  show "timers_inv (remove_timer t q1) \<and> contents (remove_timer t q1) = (contents q)(t := None)" if "rest = []"
  proof
    note r = remove_timer_effect [OF h1 l1 tx]
    have dist: "distinct xs" using xs(2) by (simp add: linked_def)
    show "timers_inv (remove_timer t q1)" unfolding timers_inv_def
      using r(1,2,4,5) d1 o1 xs(3,4) that dist by (intro conjI exI [of _ "remove1 t xs"]) auto
    show "contents (remove_timer t q1) = (contents q)(t := None)"
      using dist r(6) by (auto simp: contents_linked [OF r(2)] contents_linked [OF xs(2)] r(4) d1 o1 fun_eq_iff)
  qed
qed

lemma activate_effect:
  fixes time :: "'t::linorder" and pos_inf :: "'t \<Rightarrow> bool"
  assumes inv: "timers_inv q" and t: "\<not> active q t" and room: "length (theap q) < no_index" and ops: "ops \<noteq> []"
  defines "q1 \<equiv> upd_timer t (\<lambda>x. x\<lparr>t_ops := t_ops x @ ops\<rparr>) (link_first t (insert_into_heap pos_inf time t q))"
  shows "timers_inv q1 \<and> contents q1 = (contents q)(t \<mapsto> (if pos_inf time then None else Some time, ops))"
proof -
  obtain xs where xs: "heap_inv q" "linked q xs" "in_heap q \<subseteq> set xs" "\<forall>t. t_ops (tdata q t) \<noteq> [] \<longleftrightarrow> t \<in> set xs"
    using inv by (auto simp: timers_inv_def)
  have tx: "t \<notin> set xs" "t \<notin> in_heap q" "t_ops (tdata q t) = []" using t active_iff [OF xs(2)] xs by auto
  let ?h = "insert_into_heap pos_inf time t q"
  note i = insert_into_heap_effect [OF xs(1) tx(2) room, of pos_inf time]
  have "linked ?h xs" using i xs(2) linked_same by blast
  note f = link_first_effect [OF this tx(1)]
  have hp: "theap q1 = theap ?h" by (simp add: q1_def f(2))
  have "heap_inv (link_first t ?h)" using i f heap_inv_cong by blast
  then have h1: "heap_inv q1" using heap_inv_cong [of q1 "link_first t ?h"] by (simp add: q1_def)
  have l1: "linked q1 (t # xs)" using f(1) segment_same [of xs "tdata q1" "tdata (link_first t ?h)"] by (simp add: q1_def linked_def)
  have o1: "t_ops (tdata q1 u) = (if u = t then ops else t_ops (tdata q u))" for u
    using i tx(3) by (simp add: q1_def f(3) same_lists_def)
  have s1: "set (theap q1) = set (theap q) \<union> (if pos_inf time then {} else {(time, t)})"
    using arg_cong [of _ _ set_mset, OF i [THEN conjunct2, THEN conjunct2]] unfolding hp by (cases "pos_inf time") simp_all
  have d: "due q1 u = due q u" if "u \<noteq> t" for u using that by (intro due_by_set xs(1) h1) (simp add: s1)
  have dt: "due q1 t = (if pos_inf time then None else Some time)"
  proof (cases "pos_inf time")
    case True
    then have "t \<notin> in_heap q1" using tx(2) s1 by (simp add: in_heap_def)
    then show ?thesis using True due_none by simp
  next
    case False
    then show ?thesis using due_iff [OF h1, of t time] s1 by simp
  qed
  have "in_heap q1 \<subseteq> set (t # xs)" using s1 xs(3) by (auto simp: in_heap_def)
  then have "timers_inv q1" unfolding timers_inv_def using h1 l1 o1 xs(4) ops by (intro conjI exI [of _ "t # xs"]) auto
  moreover have "contents q1 = (contents q)(t \<mapsto> (if pos_inf time then None else Some time, ops))"
    by (intro ext) (simp add: contents_linked [OF l1] contents_linked [OF xs(2)] o1 d dt)
  ultimately show ?thesis ..
qed

definition spec_enqueue :: "('t \<Rightarrow> bool) \<Rightarrow> 't \<Rightarrow> nat \<Rightarrow> wait_op \<Rightarrow> (nat \<Rightarrow> ('t option \<times> wait_op list) option) \<Rightarrow>
    nat \<Rightarrow> ('t option \<times> wait_op list) option" where
  "spec_enqueue pos_inf time t op m =
     (case m t of
        None \<Rightarrow> m(t \<mapsto> (if pos_inf time then None else Some time, [op]))
      | Some (x, ops) \<Rightarrow> m(t \<mapsto> (x, ops @ [op])))"

definition spec_keep :: "nat \<Rightarrow> wait_op list \<Rightarrow> (nat \<Rightarrow> ('t option \<times> wait_op list) option) \<Rightarrow> nat \<Rightarrow> ('t option \<times> wait_op list) option" where
  "spec_keep t rest m =
     (case m t of
        None \<Rightarrow> m
      | Some (x, _) \<Rightarrow> if rest = [] then m(t := None) else m(t \<mapsto> (x, rest)))"

lemma enqueue_effect:
  assumes "timers_inv q" and "length (theap q) < no_index"
  shows "timers_inv (snd (enqueue_timer pos_inf time t op q)) \<and>
    contents (snd (enqueue_timer pos_inf time t op q)) = spec_enqueue pos_inf time t op (contents q)"
proof (cases "active q t")
  case True
  then show ?thesis using replace_ops_effect(1) [OF assms(1) True, of "t_ops (tdata q t) @ [op]"]
    by (simp add: enqueue_timer_def Let_def spec_enqueue_def contents_def upd_timer_def)
next
  case False
  then show ?thesis using activate_effect [OF assms(1) False assms(2), of "[op]" pos_inf time]
    by (simp add: enqueue_timer_def Let_def spec_enqueue_def contents_def)
qed

lemma cancel_loop_eq: "n \<le> m \<Longrightarrow> cancel_loop m n ops = (n + min (m - n) (length ops), map cancelled (take (m - n) ops), drop (m - n) ops)"
proof (induction ops arbitrary: n)
  case (Cons op ops)
  show ?case
  proof (cases "n = m")
    case False
    then have "m - n = Suc (m - Suc n)" using Cons.prems by linarith
    then show ?thesis using Cons.IH [of "Suc n"] Cons.prems False by simp
  qed simp
qed simp

definition ops_of :: "(nat \<Rightarrow> ('t option \<times> wait_op list) option) \<Rightarrow> nat \<Rightarrow> wait_op list" where
  "ops_of m t = (case m t of None \<Rightarrow> [] | Some (_, ops) \<Rightarrow> ops)"

lemma cancel_effect:
  assumes "timers_inv q"
  shows "cancel_timer t ops n q = (m, ops1, q1) \<Longrightarrow>
      timers_inv q1 \<and> m = min n (length (ops_of (contents q) t)) \<and> ops1 = ops @ map cancelled (take n (ops_of (contents q) t)) \<and>
      contents q1 = spec_keep t (drop n (ops_of (contents q) t)) (contents q)"
    and "cancel_timer_by_key t ops key q = (ops2, q2) \<Longrightarrow>
      timers_inv q2 \<and> ops2 = ops @ map cancelled (filter (\<lambda>op. w_key op = key) (ops_of (contents q) t)) \<and>
      contents q2 = spec_keep t (filter (\<lambda>op. w_key op \<noteq> key) (ops_of (contents q) t)) (contents q)"
proof -
  have k: "timers_inv (if rest = [] then remove_timer t (upd_timer t (\<lambda>x. x\<lparr>t_ops := rest\<rparr>) q) else upd_timer t (\<lambda>x. x\<lparr>t_ops := rest\<rparr>) q) \<and>
      contents (if rest = [] then remove_timer t (upd_timer t (\<lambda>x. x\<lparr>t_ops := rest\<rparr>) q) else upd_timer t (\<lambda>x. x\<lparr>t_ops := rest\<rparr>) q) =
        spec_keep t rest (contents q)" if "active q t" for rest
    using replace_ops_effect [OF assms that, of rest] that by (simp add: spec_keep_def contents_def)
  have o: "active q t \<Longrightarrow> ops_of (contents q) t = t_ops (tdata q t)" "\<not> active q t \<Longrightarrow> ops_of (contents q) t = [] \<and> contents q t = None"
    by (simp_all add: ops_of_def contents_def)
  show "timers_inv q1 \<and> m = min n (length (ops_of (contents q) t)) \<and> ops1 = ops @ map cancelled (take n (ops_of (contents q) t)) \<and>
      contents q1 = spec_keep t (drop n (ops_of (contents q) t)) (contents q)" if "cancel_timer t ops n q = (m, ops1, q1)"
    using that k [of "drop n (t_ops (tdata q t))"] o assms
    by (cases "active q t") (auto simp: cancel_timer_def cancel_loop_eq Let_def spec_keep_def)
  show "timers_inv q2 \<and> ops2 = ops @ map cancelled (filter (\<lambda>op. w_key op = key) (ops_of (contents q) t)) \<and>
      contents q2 = spec_keep t (filter (\<lambda>op. w_key op \<noteq> key) (ops_of (contents q) t)) (contents q)"
    if "cancel_timer_by_key t ops key q = (ops2, q2)"
    using that k [of "filter (\<lambda>op. w_key op \<noteq> key) (t_ops (tdata q t))"] o assms
    by (cases "active q t") (auto simp: cancel_timer_by_key_def Let_def spec_keep_def comp_def)
qed

section \<open>Expiry\<close>

definition expiry :: "(nat \<Rightarrow> ('t option \<times> wait_op list) option) \<Rightarrow> nat \<Rightarrow> 't" where
  "expiry m t = the (fst (the (m t)))"

definition ready :: "'t::linorder \<Rightarrow> (nat \<Rightarrow> ('t option \<times> wait_op list) option) \<Rightarrow> nat set" where
  "ready now m = {t. \<exists>x os. m t = Some (Some x, os) \<and> x \<le> now}"

lemma contents_due:
  assumes "timers_inv q"
  shows "contents q t = Some (Some x, os) \<longleftrightarrow> (x, t) \<in> set (theap q) \<and> os = t_ops (tdata q t)"
proof -
  obtain xs where xs: "heap_inv q" "linked q xs" "in_heap q \<subseteq> set xs" using assms by (auto simp: timers_inv_def)
  have "(x, t) \<in> set (theap q) \<Longrightarrow> t \<in> set xs" using xs(3) by (force simp: in_heap_def)
  then show ?thesis using due_iff [OF xs(1), of t x] by (auto simp: contents_linked [OF xs(2)])
qed

lemma in_heap_contents: "timers_inv q \<Longrightarrow> in_heap q = {t. \<exists>x os. contents q t = Some (Some x, os)}"
  by (force simp: in_heap_def contents_due)

lemma root_least:
  assumes "timers_inv q" and "contents q t = Some (Some x, os)"
  shows "theap q \<noteq> []" and "time_at q 0 \<le> x"
proof -
  have m: "(x, t) \<in> set (theap q)" using assms by (simp add: contents_due)
  then show "theap q \<noteq> []" by auto
  from m obtain k where "k < length (theap q)" "theap q ! k = (x, t)" by (auto simp: in_set_conv_nth)
  then show "time_at q 0 \<le> x" using heap_top [of "theap q" k] assms(1) by (auto simp: timers_inv_def heap_inv_def time_at_def)
qed

theorem ready_loop_effect:
  assumes "timers_inv q"
  shows "\<exists>ts q1. ready_loop now ops q = Some (ops @ concat (map (\<lambda>t. map expired (ops_of (contents q) t)) ts), q1) \<and> timers_inv q1 \<and>
    distinct ts \<and> set ts = ready now (contents q) \<and> sorted (map (expiry (contents q)) ts) \<and>
    contents q1 = (\<lambda>t. if t \<in> set ts then None else contents q t)"
  using assms
proof (induction "card (in_heap q)" arbitrary: q ops rule: less_induct)
  case less
  note inv = less.prems
  show ?case
  proof (cases "theap q \<noteq> [] \<and> \<not> now < time_at q 0")
    case False
    then have "ready now (contents q) = {}" using root_least [OF inv] by (force simp: ready_def)
    moreover have "ready_loop now ops q = Some (ops, q)" using False by (subst ready_loop.simps) auto
    ultimately show ?thesis using inv by (intro exI [of _ "[]"] exI [of _ q]) simp
  next
    case True
    obtain x t where xt: "theap q ! 0 = (x, t)" by force
    then have c: "contents q t = Some (Some x, t_ops (tdata q t))" using True contents_due [OF inv] by (metis length_greater_0_conv nth_mem)
    then have act: "active q t" by (auto simp: contents_def split: if_splits)
    let ?q = "remove_timer t (upd_timer t (\<lambda>x. x\<lparr>t_ops := []\<rparr>) q)"
    have r: "timers_inv ?q" "contents ?q = (contents q)(t := None)" using replace_ops_effect(2) [OF inv act] by blast+
    have h: "in_heap ?q = in_heap q - {t}" "t \<in> in_heap q" using c by (auto simp: in_heap_contents [OF r(1)] in_heap_contents [OF inv] r(2))
    have "finite (in_heap q)" by (simp add: in_heap_def)
    then have "card (in_heap ?q) < card (in_heap q)" unfolding h(1) by (rule card_Diff1_less [OF _ h(2)])
    from less.hyps [OF this r(1), of "ops @ map expired (t_ops (tdata q t))"]
    obtain ts q1 where i: "ready_loop now (ops @ map expired (t_ops (tdata q t))) ?q =
          Some ((ops @ map expired (t_ops (tdata q t))) @ concat (map (\<lambda>t. map expired (ops_of (contents ?q) t)) ts), q1)"
        "timers_inv q1" "distinct ts" "set ts = ready now (contents ?q)" "sorted (map (expiry (contents ?q)) ts)"
        "contents q1 = (\<lambda>t. if t \<in> set ts then None else contents ?q t)" by blast
    have x: "x \<le> now" using True xt by (simp add: time_at_def not_less)
    have nt: "t \<notin> set ts" using i(4) by (simp add: ready_def r(2))
    then have e: "map (expiry (contents ?q)) ts = map (expiry (contents q)) ts"
      "map (\<lambda>t. map expired (ops_of (contents ?q) t)) ts = map (\<lambda>t. map expired (ops_of (contents q) t)) ts"
      by (auto simp: expiry_def ops_of_def r(2))
    have "\<forall>u\<in>set ts. expiry (contents q) t \<le> expiry (contents q) u"
      using root_least(2) [OF inv] xt c by (auto simp: i(4) ready_def r(2) expiry_def time_at_def)
    then have "sorted (map (expiry (contents q)) (t # ts))" using i(5) e by simp
    moreover have "set (t # ts) = ready now (contents q)" using c x by (auto simp: i(4) ready_def r(2))
    moreover have "ready_loop now ops q = Some (ops @ concat (map (\<lambda>t. map expired (ops_of (contents q) t)) (t # ts)), q1)"
    proof -
      have "ops_of (contents q) t = t_ops (tdata q t)" using c by (simp add: ops_of_def)
      then show ?thesis using True xt i(1) [unfolded e(2)] by (subst ready_loop.simps) (simp add: Let_def)
    qed
    ultimately show ?thesis using i(2,3,6) nt r(2) by (intro exI [of _ "t # ts"] exI [of _ q1]) (auto simp: fun_eq_iff)
  qed
qed

section \<open>Moving a timer, and the end\<close>

lemma move_fields:
  assumes "source \<noteq> target"
  shows "heap_index (tdata (move_timer target source q) u) =
      (if u = source then no_index else if u = target then heap_index (tdata q source) else heap_index (tdata q u))"
    and "t_ops (tdata (move_timer target source q) u) =
      (if u = source then [] else if u = target then t_ops (tdata q target) @ t_ops (tdata q source) else t_ops (tdata q u))"
    and "theap (move_timer target source q) =
      (let i = heap_index (tdata q source) in if i < length (theap q) then (theap q)[i := (fst (theap q ! i), target)] else theap q)"
    and "timers (move_timer target source q) = (if timers q = Some source then Some target else timers q)"
  using assms by (auto simp: move_timer_def Let_def split: option.splits)

lemma move_linked:
  assumes l: "linked q (ys @ source # zs)" and t: "target \<notin> set (ys @ source # zs)"
  shows "linked (move_timer target source q) (ys @ target # zs)"
proof -
  let ?d = "tdata q" and ?e = "tdata (move_timer target source q)"
  have st: "source \<noteq> target" using t by auto
  have y: "segment ?d None ys (Some source)" and z: "segment ?d (Some source) zs None"
    and s: "t_prev (?d source) = last_or None ys" "t_next (?d source) = first_or None zs"
    and dist: "distinct (ys @ source # zs)" and tm: "timers q = first_or (Some source) ys"
    using l by (simp_all add: linked_def segment_append)
  have sets: "source \<notin> set ys" "source \<notin> set zs" "target \<notin> set ys" "target \<notin> set zs" "\<And>u. u \<in> set ys \<Longrightarrow> u \<notin> set zs"
    using dist t by auto
  have ne1: "ys \<noteq> [] \<Longrightarrow> last ys \<noteq> source \<and> last ys \<noteq> target \<and> last ys \<notin> set zs" using sets last_in_set by metis
  have ne2: "zs \<noteq> [] \<Longrightarrow> hd zs \<noteq> source \<and> hd zs \<noteq> target \<and> hd zs \<notin> set ys" using sets hd_in_set by metis
  note ne = ne1 ne2
  have nx: "t_next (?e u) = (if u = source then None else if u = target then first_or None zs
      else if ys \<noteq> [] \<and> u = last ys then Some target else t_next (?d u))" for u
    using s ne st by (cases zs; cases "ys = []") (auto simp: move_timer_def Let_def set_index_def last_or_def)
  have pv: "t_prev (?e u) = (if u = source then None else if u = target then last_or None ys
      else if zs \<noteq> [] \<and> u = hd zs then Some target else t_prev (?d u))" for u
    using s ne st by (cases zs; cases "ys = []") (auto simp: move_timer_def Let_def set_index_def last_or_def)
  have "segment ?e None ys (Some target)"
  proof (cases "ys = []")
    case False
    have "segment ?e None ys (Some target) = segment (?d(last ys := (?d (last ys))\<lparr>t_next := Some target\<rparr>)) None ys (Some target)"
      using dist t ne hd_in_set [of zs] by (intro segment_same) (auto simp: nx pv)
    then show ?thesis using segment_last [OF y _ False] dist by simp
  qed simp
  moreover have "segment ?e (Some target) zs None"
  proof (cases zs)
    case (Cons a as)
    have "segment ?e (Some target) zs None = segment (?d(a := (?d a)\<lparr>t_prev := Some target\<rparr>)) (Some target) zs None"
      using dist t ne Cons last_in_set [of ys] by (intro segment_same) (auto simp: nx pv)
    then show ?thesis using segment_first [of ?d "Some source" a as None "Some target"] z dist Cons by simp
  qed simp
  ultimately have seg: "segment ?e None (ys @ target # zs) None" using st by (simp add: segment_append nx pv)
  have out: "t_next (?e u) = None \<and> t_prev (?e u) = None" if u: "u \<notin> set (ys @ target # zs)" for u
  proof (cases "u = source")
    case False
    have "ys = [] \<or> u \<noteq> last ys" "zs = [] \<or> u \<noteq> hd zs" using u last_in_set [of ys] hd_in_set [of zs] by auto
    then show ?thesis using False u l by (auto simp: nx pv linked_def)
  qed (simp add: nx pv)
  have "timers (move_timer target source q) = first_or None (ys @ target # zs)"
    using tm dist by (cases ys) (auto simp: move_fields(4) [OF st])
  then show ?thesis using seg out dist t unfolding linked_def by auto
qed

definition spec_move :: "nat \<Rightarrow> nat \<Rightarrow> (nat \<Rightarrow> ('t option \<times> wait_op list) option) \<Rightarrow> nat \<Rightarrow> ('t option \<times> wait_op list) option" where
  "spec_move target source m = (case m source of None \<Rightarrow> m | Some x \<Rightarrow> m(source := None, target \<mapsto> x))"

lemma move_heap_set:
  assumes inv: "heap_inv q" and st: "source \<noteq> target"
  shows "set (theap (move_timer target source q)) = {e \<in> set (theap q). snd e \<noteq> source} \<union> {(x, target) |x. (x, source) \<in> set (theap q)}"
proof (cases "source \<in> in_heap q")
  case False
  then have "\<not> heap_index (tdata q source) < length (theap q)" using inv by (simp add: heap_inv_def)
  then show ?thesis using False by (force simp: move_fields(3) [OF st] Let_def in_heap_def)
next
  case True
  let ?q = "move_timer target source q" and ?i = "heap_index (tdata q source)"
  note f = move_fields(3) [OF st]
  note i = in_heap_index [OF inv True]
  have u: "theap q ! k = (x, source) \<Longrightarrow> k < length (theap q) \<Longrightarrow> k = ?i" for k x
    using inv by (auto simp: heap_inv_def indexed_def)
  show ?thesis
  proof (intro set_eqI iffI)
    fix e assume "e \<in> set (theap ?q)"
    then obtain k where k: "k < length (theap q)" "e = (if k = ?i then (fst (theap q ! ?i), target) else theap q ! k)"
      using i by (auto simp: f Let_def in_set_conv_nth nth_list_update)
    show "e \<in> {e \<in> set (theap q). snd e \<noteq> source} \<union> {(x, target) |x. (x, source) \<in> set (theap q)}"
      using k i u [of k] nth_mem [OF k(1)] nth_mem [OF i(1)] by (cases "theap q ! k"; cases "theap q ! ?i") (auto split: if_splits)
  next
    fix e assume "e \<in> {e \<in> set (theap q). snd e \<noteq> source} \<union> {(x, target) |x. (x, source) \<in> set (theap q)}"
    then consider k where "k < length (theap q)" "e = theap q ! k" "k \<noteq> ?i" | "e = (fst (theap q ! ?i), target)"
      using i u by (auto simp: in_set_conv_nth)
    then show "e \<in> set (theap ?q)"
    proof cases
      case 1
      then have "theap ?q ! k = e" "k < length (theap ?q)" using i by (simp_all add: f Let_def)
      then show ?thesis by auto
    next
      case 2
      then have "theap ?q ! ?i = e" "?i < length (theap ?q)" using i by (simp_all add: f Let_def)
      then show ?thesis by auto
    qed
  qed
qed

lemma move_heap:
  assumes inv: "heap_inv q" and t: "target \<notin> in_heap q" and st: "source \<noteq> target"
  shows "heap_inv (move_timer target source q)"
proof -
  let ?q = "move_timer target source q"
  note f = move_fields [OF st]
  have nt: "snd (theap q ! k) \<noteq> target" if "k < length (theap q)" for k using t that by (auto simp: in_heap_def)
  note sets = move_heap_set [OF inv st]
  have m1: "u \<in> in_heap ?q" if "u \<in> in_heap q" "u \<noteq> source" for u
    using that unfolding in_heap_def sets image_iff by blast
  have m2: "target \<in> in_heap ?q" if s: "source \<in> in_heap q"
  proof -
    obtain x where "(x, source) \<in> set (theap q)" using s by (auto simp: in_heap_def)
    then have "(x, target) \<in> set (theap ?q)" using sets by blast
    then show ?thesis unfolding in_heap_def by force
  qed
  have nth: "fst (theap ?q ! k) = fst (theap q ! k)" for k by (simp add: f(3) Let_def nth_list_update)
  have "heap_ok (theap ?q)" using inv unfolding heap_ok_def nth by (simp add: f(3) Let_def heap_inv_def heap_ok_def)
  moreover have "indexed ?q" unfolding indexed_def
  proof (intro allI impI)
    fix k assume "k < length (theap ?q)"
    then have k: "k < length (theap q)" by (simp add: f(3) Let_def split: if_splits)
    have "heap_index (tdata q (snd (theap q ! k))) = k" using inv k by (simp add: heap_inv_def indexed_def)
    then show "heap_index (tdata ?q (snd (theap ?q ! k))) = k" using k nt [OF k] st by (auto simp: f(1,3) Let_def nth_list_update)
  qed
  moreover have "\<forall>u. u \<notin> in_heap ?q \<longrightarrow> heap_index (tdata ?q u) = no_index" using inv m1 m2 by (auto simp: f(1) heap_inv_def)
  moreover have "length (theap ?q) \<le> no_index" using inv by (simp add: f(3) Let_def heap_inv_def)
  ultimately show ?thesis by (simp add: heap_inv_def)
qed

lemma in_heap_iff: "t \<in> in_heap q \<longleftrightarrow> (\<exists>x. (x, t) \<in> set (theap q))"
  unfolding in_heap_def by force

lemma move_effect:
  assumes inv: "timers_inv q" and t: "\<not> active q target" and st: "source \<noteq> target"
  shows "timers_inv (move_timer target source q) \<and> contents (move_timer target source q) = spec_move target source (contents q)"
proof -
  let ?q = "move_timer target source q"
  obtain xs where xs: "heap_inv q" "linked q xs" "in_heap q \<subseteq> set xs" "\<forall>t. t_ops (tdata q t) \<noteq> [] \<longleftrightarrow> t \<in> set xs"
    using inv by (auto simp: timers_inv_def)
  have tx: "target \<notin> set xs" "t_ops (tdata q target) = []" "target \<notin> in_heap q" using t active_iff [OF xs(2)] xs(3,4) by auto
  have h: "heap_inv ?q" by (rule move_heap [OF xs(1) tx(3) st])
  note sets = move_heap_set [OF xs(1) st] and f = move_fields [OF st]
  have d: "due ?q u = due q u" if "u \<noteq> source" "u \<noteq> target" for u
    using that by (intro due_by_set xs(1) h) (auto simp: sets)
  have "due ?q target = Some x \<longleftrightarrow> due q source = Some x" for x
    using tx(3) unfolding due_iff [OF h] due_iff [OF xs(1)] sets in_heap_def by force
  then have dt: "due ?q target = due q source" by (metis option.exhaust)
  have hs: "in_heap ?q \<subseteq> (in_heap q - {source}) \<union> (if source \<in> in_heap q then {target} else {})"
  proof
    fix u assume "u \<in> in_heap ?q"
    then obtain x where "(x, u) \<in> set (theap ?q)" by (auto simp: in_heap_def)
    then consider "(x, u) \<in> set (theap q)" "u \<noteq> source" | "u = target" "(x, source) \<in> set (theap q)" unfolding sets by auto
    then show "u \<in> (in_heap q - {source}) \<union> (if source \<in> in_heap q then {target} else {})"
      by cases (auto simp: in_heap_iff)
  qed
  show ?thesis
  proof (cases "source \<in> set xs")
    case True
    then obtain ys zs where x: "xs = ys @ source # zs" by (meson split_list)
    have l: "linked ?q (ys @ target # zs)" using move_linked [of q ys source zs target] xs(2) tx(1) x by simp
    have dist: "source \<notin> set ys" "source \<notin> set zs" using xs(2) x by (auto simp: linked_def)
    have "in_heap ?q \<subseteq> set (ys @ target # zs)" using hs xs(3) x by (auto split: if_splits)
    moreover have "\<forall>u. t_ops (tdata ?q u) \<noteq> [] \<longleftrightarrow> u \<in> set (ys @ target # zs)" using xs(4) tx x dist st by (auto simp: f(2))
    ultimately have "timers_inv ?q" unfolding timers_inv_def using h l by blast
    moreover have "contents ?q = spec_move target source (contents q)"
      using x tx dist st by (intro ext) (simp add: contents_linked [OF l] contents_linked [OF xs(2)] spec_move_def f(2) d dt)
    ultimately show ?thesis ..
  next
    case False
    have n: "t_next (tdata q source) = None" "t_prev (tdata q source) = None" "t_ops (tdata q source) = []"
      "t_next (tdata q target) = None" "t_prev (tdata q target) = None" "timers q \<noteq> Some source"
      using False xs(2,4) tx(1) by (auto simp: linked_def split: list.splits) (cases xs; simp)
    have "t_next (tdata ?q u) = t_next (tdata q u) \<and> t_prev (tdata ?q u) = t_prev (tdata q u)" for u
      using n by (simp add: move_timer_def Let_def)
    then have "same_lists q ?q" using n tx(2) by (auto simp: same_lists_def f(2,4))
    then have l: "linked ?q xs" "\<And>u. t_ops (tdata ?q u) = t_ops (tdata q u)" using xs(2) linked_same by (auto simp: same_lists_def)
    have s: "source \<notin> in_heap q" using False xs(3) by blast
    then have "timers_inv ?q" unfolding timers_inv_def using h l hs xs(3,4) by auto
    moreover have "contents ?q = spec_move target source (contents q)"
    proof
      fix u
      have "u \<in> set xs \<Longrightarrow> due ?q u = due q u" using d [of u] False tx(1) by auto
      then show "contents ?q u = spec_move target source (contents q) u"
        using False l(2) by (simp add: contents_linked [OF l(1)] contents_linked [OF xs(2)] spec_move_def)
    qed
    ultimately show ?thesis ..
  qed
qed

lemma all_loop_effect:
  assumes "distinct xs" and "timers q = first_or None xs" and "segment (tdata q) p xs None"
  shows "\<exists>q1. all_loop ops q = Some (ops @ concat (map (\<lambda>t. t_ops (tdata q t)) xs), q1) \<and> timers q1 = None \<and>
    (\<forall>u. t_prev (tdata q1 u) = (if u \<in> set xs then None else t_prev (tdata q u)))"
  using assms
proof (induction xs arbitrary: q p ops)
  case Nil
  then show ?case by (subst all_loop.simps) simp
next
  case (Cons x xs)
  let ?q = "upd_timer x (\<lambda>x. x\<lparr>t_ops := [], t_next := None, t_prev := None\<rparr>) (q\<lparr>timers := t_next (tdata q x)\<rparr>)"
  have "segment (tdata ?q) (Some x) xs None = segment (tdata q) (Some x) xs None" using Cons.prems(1) by (intro segment_same) auto
  then have sg: "segment (tdata ?q) (Some x) xs None" using Cons.prems(3) by simp
  have m: "map (\<lambda>t. t_ops (tdata ?q t)) xs = map (\<lambda>t. t_ops (tdata q t)) xs" using Cons.prems(1) by auto
  have "\<exists>q1. all_loop (ops @ t_ops (tdata q x)) ?q = Some ((ops @ t_ops (tdata q x)) @ concat (map (\<lambda>t. t_ops (tdata ?q t)) xs), q1) \<and>
      timers q1 = None \<and> (\<forall>u. t_prev (tdata q1 u) = (if u \<in> set xs then None else t_prev (tdata ?q u)))"
    using Cons.prems by (intro Cons.IH [OF _ _ sg]) auto
  then obtain q1 where q1: "all_loop (ops @ t_ops (tdata q x)) ?q = Some ((ops @ t_ops (tdata q x)) @ concat (map (\<lambda>t. t_ops (tdata q t)) xs), q1)"
      "timers q1 = None" "\<forall>u. t_prev (tdata q1 u) = (if u \<in> set xs then None else t_prev (tdata ?q u))" unfolding m by blast
  have "all_loop ops q = all_loop (ops @ t_ops (tdata q x)) ?q" using Cons.prems(2) by (subst all_loop.simps) simp
  then show ?case using q1 by (intro exI [of _ q1]) simp
qed

section \<open>Every history of calls\<close>

text \<open>
  The calls of the reactor (\<^verbatim>\<open>detail/impl/epoll_reactor.hpp\<close>); its \<open>move_timer\<close> cancels the target first. The result has the
  operations handed out; \<open>None\<close> stands for a call that does not return.
\<close>

datatype 't timer_call = Enqueue 't nat wait_op | Cancel nat nat | Cancel_key nat nat | Move nat nat | Ready 't

fun exec_call :: "('t \<Rightarrow> bool) \<Rightarrow> 't timer_call \<Rightarrow> 't::linorder timer_queue \<Rightarrow> (wait_op list \<times> 't timer_queue) option" where
  "exec_call pos_inf (Enqueue time t op) q = Some ([], snd (enqueue_timer pos_inf time t op q))"
| "exec_call pos_inf (Cancel t n) q = Some (snd (cancel_timer t [] n q))"
| "exec_call pos_inf (Cancel_key t key) q = Some (cancel_timer_by_key t [] key q)"
| "exec_call pos_inf (Move target source) q = (case cancel_timer target [] no_index q of (_, ops, q1) \<Rightarrow> Some (ops, move_timer target source q1))"
| "exec_call pos_inf (Ready now) q = get_ready_timers now [] q"

text \<open>The queue has room for one more timer, and a timer is not moved onto itself; no timer has more operations than \<^verbatim>\<open>size_t\<close> can count.\<close>

fun call_ok :: "'t timer_call \<Rightarrow> 't timer_queue \<Rightarrow> bool" where
  "call_ok (Enqueue _ t _) q \<longleftrightarrow> length (theap q) < no_index \<and> length (t_ops (tdata q t)) < no_index"
| "call_ok (Move target source) q \<longleftrightarrow> source \<noteq> target \<and> length (t_ops (tdata q target)) \<le> no_index"
| "call_ok _ q \<longleftrightarrow> True"

inductive timers_reach :: "('t \<Rightarrow> bool) \<Rightarrow> 't::linorder timer_queue \<Rightarrow> bool" for pos_inf where
  new: "timers_reach pos_inf timer_queue_new"
| call: "timers_reach pos_inf q \<Longrightarrow> call_ok c q \<Longrightarrow> exec_call pos_inf c q = Some (ops, q1) \<Longrightarrow> timers_reach pos_inf q1"

text \<open>What a call does to the active timers and which operations it hands out.\<close>

fun spec_call :: "('t \<Rightarrow> bool) \<Rightarrow> 't::linorder timer_call \<Rightarrow> (nat \<Rightarrow> ('t option \<times> wait_op list) option) \<Rightarrow> wait_op list \<Rightarrow>
    (nat \<Rightarrow> ('t option \<times> wait_op list) option) \<Rightarrow> bool" where
  "spec_call pos_inf (Enqueue time t op) m ops m1 \<longleftrightarrow> ops = [] \<and> m1 = spec_enqueue pos_inf time t op m"
| "spec_call pos_inf (Cancel t n) m ops m1 \<longleftrightarrow> ops = map cancelled (take n (ops_of m t)) \<and> m1 = spec_keep t (drop n (ops_of m t)) m"
| "spec_call pos_inf (Cancel_key t key) m ops m1 \<longleftrightarrow>
     ops = map cancelled (filter (\<lambda>op. w_key op = key) (ops_of m t)) \<and> m1 = spec_keep t (filter (\<lambda>op. w_key op \<noteq> key) (ops_of m t)) m"
| "spec_call pos_inf (Move target source) m ops m1 \<longleftrightarrow> ops = map cancelled (ops_of m target) \<and> m1 = spec_move target source (m(target := None))"
| "spec_call pos_inf (Ready now) m ops m1 \<longleftrightarrow>
     (\<exists>ts. distinct ts \<and> set ts = ready now m \<and> sorted (map (expiry m) ts) \<and>
        ops = concat (map (\<lambda>t. map expired (ops_of m t)) ts) \<and> m1 = (\<lambda>t. if t \<in> set ts then None else m t))"

lemma call_simulated:
  assumes inv: "timers_inv q" and ok: "call_ok c q"
  shows "\<exists>ops q1. exec_call pos_inf c q = Some (ops, q1) \<and> timers_inv q1 \<and> spec_call pos_inf c (contents q) ops (contents q1)"
proof (cases c)
  case (Enqueue time t op)
  then show ?thesis using enqueue_effect [OF inv] ok by simp
next
  case (Cancel t n)
  obtain k ops q1 where e: "cancel_timer t [] n q = (k, ops, q1)" by (metis prod_cases3)
  then show ?thesis using cancel_effect(1) [OF inv e] Cancel by simp
next
  case (Cancel_key t key)
  obtain ops q1 where e: "cancel_timer_by_key t [] key q = (ops, q1)" by force
  then show ?thesis using cancel_effect(2) [OF inv e] Cancel_key by simp
next
  case (Move target source)
  obtain k ops q1 where e: "cancel_timer target [] no_index q = (k, ops, q1)" by (metis prod_cases3)
  have len: "length (ops_of (contents q) target) \<le> no_index" using ok Move by (auto simp: ops_of_def contents_def)
  have c: "timers_inv q1" "ops = map cancelled (ops_of (contents q) target)" "contents q1 = (contents q)(target := None)"
    using cancel_effect(1) [OF inv e] len by (auto simp: spec_keep_def split: option.splits)
  have "\<not> active q1 target" using fun_cong [OF c(3), of target] by (auto simp: contents_def split: if_splits)
  then show ?thesis using move_effect [OF c(1), of target source] ok Move e c by simp
next
  case (Ready now)
  have "get_ready_timers now [] q = ready_loop now [] q"
    by (simp add: get_ready_timers_def) (subst ready_loop.simps, simp)
  then show ?thesis using ready_loop_effect [OF inv, of now "[]"] Ready by auto
qed

lemma reach_inv: "timers_reach pos_inf q \<Longrightarrow> timers_inv q"
proof (induction rule: timers_reach.induct)
  case new
  show ?case
    by (auto simp: timers_inv_def heap_inv_def heap_ok_def indexed_def timer_queue_new_def in_heap_def linked_def per_timer_new_def intro!: exI [of _ "[]"])
next
  case (call q c ops q1)
  then show ?case using call_simulated [of q c pos_inf] by auto
qed

lemma enqueue_result:
  assumes inv: "timers_inv q" and ok: "length (theap q) < no_index" and new: "\<not> active q t" "\<not> pos_inf time"
  shows "fst (enqueue_timer pos_inf time t op q) \<longleftrightarrow> theap (snd (enqueue_timer pos_inf time t op q)) ! 0 = (time, t)"
    and "contents (snd (enqueue_timer pos_inf time t op q)) = (contents q)(t \<mapsto> (Some time, [op]))"
proof -
  let ?q = "snd (enqueue_timer pos_inf time t op q)"
  have "contents q t = None" using new(1) by (simp add: contents_def)
  then show c: "contents ?q = (contents q)(t \<mapsto> (Some time, [op]))" using enqueue_effect [OF inv ok, of pos_inf time t op] new(2)
    by (simp add: spec_enqueue_def)
  have i: "timers_inv ?q" using enqueue_effect [OF inv ok] by blast
  have m: "(time, t) \<in> set (theap ?q)" "t_ops (tdata ?q t) = [op]"
    using contents_due [OF i, of t time "[op]"] c by auto
  have h: "heap_inv ?q" using i by (simp add: timers_inv_def)
  have "t \<in> in_heap ?q" using m(1) by (force simp: in_heap_def)
  note x = in_heap_index [OF h this]
  have "theap ?q \<noteq> []" using m(1) by auto
  moreover have "heap_index (tdata ?q t) = 0 \<longleftrightarrow> theap ?q ! 0 = (time, t)"
  proof
    assume 0: "heap_index (tdata ?q t) = 0"
    then have "(fst (theap ?q ! 0), t) \<in> set (theap ?q)" using x by (metis nth_mem prod.collapse)
    then have "fst (theap ?q ! 0) = time" using due_iff [OF h] m(1) by (metis option.inject)
    then show "theap ?q ! 0 = (time, t)" using x 0 by (metis prod.collapse)
  next
    assume "theap ?q ! 0 = (time, t)"
    then show "heap_index (tdata ?q t) = 0" using h \<open>theap ?q \<noteq> []\<close> by (force simp: heap_inv_def indexed_def)
  qed
  moreover have "fst (enqueue_timer pos_inf time t op q) \<longleftrightarrow> heap_index (tdata ?q t) = 0 \<and> w_id (hd (t_ops (tdata ?q t))) = w_id op"
    unfolding enqueue_timer_def Let_def fst_conv snd_conv ..
  ultimately show "fst (enqueue_timer pos_inf time t op q) \<longleftrightarrow> theap ?q ! 0 = (time, t)" using m(2) by simp
qed

section \<open>Durations\<close>

text \<open>
  Times of a clock are signed numbers of 64 bits. An operation whose exact result has no such representation is undefined in the
  language: it is \<open>None\<close> here.
\<close>

definition rep_max :: int where "rep_max = 2 ^ 63 - 1"
definition rep_min :: int where "rep_min = - (2 ^ 63)"

definition rep :: "int \<Rightarrow> int option" where
  "rep x = (if rep_min \<le> x \<and> x \<le> rep_max then Some x else None)"

definition time_less :: "int option \<Rightarrow> int option \<Rightarrow> bool option" where
  "time_less a b = (case (a, b) of (Some x, Some y) \<Rightarrow> Some (x < y) | _ \<Rightarrow> None)"

definition chrono_add :: "int \<Rightarrow> int \<Rightarrow> int option" where
  "chrono_add t d =
     (if t \<ge> 0
      then (case time_less (rep (rep_max - t)) (Some d) of None \<Rightarrow> None | Some True \<Rightarrow> Some rep_max | Some False \<Rightarrow> rep (t + d))
      else (case time_less (Some d) (case rep (t - rep_min) of None \<Rightarrow> None | Some x \<Rightarrow> rep (- x)) of
              None \<Rightarrow> None | Some True \<Rightarrow> Some rep_min | Some False \<Rightarrow> rep (t + d)))"

definition chrono_subtract :: "int \<Rightarrow> int \<Rightarrow> int option" where
  "chrono_subtract t1 t2 =
     (if t1 \<ge> 0 then
        (if t2 \<ge> 0 then rep (t1 - t2)
         else if t2 = rep_min then Some rep_max
         else (case time_less (rep (rep_max - t1)) (rep (0 - t2)) of None \<Rightarrow> None | Some True \<Rightarrow> Some rep_max | Some False \<Rightarrow> rep (t1 - t2)))
      else
        (if t2 < 0 then rep (t1 - t2)
         else if t1 = rep_min then Some rep_min
         else (case time_less (rep (rep_max - t2)) (rep (0 - t1)) of
                 None \<Rightarrow> None | Some True \<Rightarrow> Some rep_min | Some False \<Rightarrow> (case rep (t2 - t1) of None \<Rightarrow> None | Some x \<Rightarrow> rep (- x)))))"

definition clamp :: "int \<Rightarrow> int" where
  "clamp x = max rep_min (min rep_max x)"

lemma chrono_exact:
  assumes "rep_min \<le> t1" "t1 \<le> rep_max" "rep_min \<le> t2" "t2 \<le> rep_max"
  shows "chrono_subtract t1 t2 = Some (clamp (t1 - t2))" and "chrono_add t1 t2 = Some (clamp (t1 + t2))"
  using assms by (auto simp: chrono_subtract_def chrono_add_def time_less_def rep_def clamp_def rep_max_def rep_min_def split: bool.split)

text \<open>The conversion of ticks of a period \<open>pn/pd\<close> of a second into units of \<open>n/dn\<close> of a second.\<close>

fun tgcd :: "nat \<Rightarrow> nat \<Rightarrow> nat" where
  "tgcd v1 v2 = (if v2 = 0 then v1 else tgcd v2 (v1 mod v2))"

definition duration_cast :: "nat \<Rightarrow> nat \<Rightarrow> nat \<Rightarrow> nat \<Rightarrow> int \<Rightarrow> int" where
  "duration_cast pn pd n dn ticks =
     (let num1 = pn div tgcd pn n; num2 = n div tgcd pn n; den1 = pd div tgcd pd dn; den2 = dn div tgcd pd dn;
          num = num1 * den2; den = num2 * den1
      in if num = 1 \<and> den = 1 then ticks
         else if num \<noteq> 1 \<and> den = 1 then ticks * int num
         else if num = 1 \<and> pd \<noteq> 1 then ticks sdiv int den
         else (ticks * int num) sdiv int den)"

definition to_units :: "(int \<Rightarrow> int) \<Rightarrow> int \<Rightarrow> int \<Rightarrow> int" where
  "to_units conv d max_duration =
     (if d \<le> 0 then 0
      else let u = conv d in if u = 0 then 1 else if u > max_duration then max_duration else u)"

text \<open>The clock is \<^verbatim>\<open>std::chrono::steady_clock\<close>, which counts nanoseconds.\<close>

definition to_msec :: "int \<Rightarrow> int \<Rightarrow> int" where
  "to_msec = to_units (duration_cast 1 1000000000 1 1000)"

definition to_usec :: "int \<Rightarrow> int \<Rightarrow> int" where
  "to_usec = to_units (duration_cast 1 1000000000 1 1000000)"

definition wait_duration :: "(int \<Rightarrow> int \<Rightarrow> int) \<Rightarrow> int \<Rightarrow> int \<Rightarrow> int timer_queue \<Rightarrow> int option" where
  "wait_duration to now max_duration q =
     (if theap q = [] then Some max_duration else map_option (\<lambda>d. to d max_duration) (chrono_subtract (time_at q 0) now))"

lemma cast_msec: "duration_cast 1 1000000000 1 1000 d = d sdiv 1000000" "duration_cast 1 1000000000 1 1000000 d = d sdiv 1000"
proof -
  have g: "tgcd 1 1 = 1" "tgcd 1000000000 1000 = 1000" "tgcd 1000000000 1000000 = 1000000" by simp_all
  show "duration_cast 1 1000000000 1 1000 d = d sdiv 1000000" "duration_cast 1 1000000000 1 1000000 d = d sdiv 1000"
    unfolding duration_cast_def Let_def g by simp_all
qed

lemma to_msec_eq:
  "to_msec d m = (if d \<le> 0 then 0 else let u = d div 1000000 in if u = 0 then 1 else if u > m then m else u)"
  unfolding to_msec_def to_units_def cast_msec Let_def by (auto simp: signed_divide_int_def)

lemma to_msec_bounds:
  assumes "0 \<le> m"
  shows "0 \<le> to_msec d m" and "to_msec d m \<le> max m 1" and "d \<le> 0 \<Longrightarrow> to_msec d m = 0"
    and "0 < d \<Longrightarrow> to_msec d m = 0 \<Longrightarrow> m = 0" and "0 < d \<Longrightarrow> m = 0 \<Longrightarrow> to_msec d m = 0 \<or> to_msec d m = 1 \<and> d < 1000000"
    and "0 < d \<Longrightarrow> to_msec d m * 1000000 \<le> max 1000000 d"
proof -
  have d: "0 < d \<Longrightarrow> 0 \<le> d div 1000000" "d div 1000000 * 1000000 \<le> d" by auto
  show "0 \<le> to_msec d m" "to_msec d m \<le> max m 1" "d \<le> 0 \<Longrightarrow> to_msec d m = 0"
    using assms d(1) by (auto simp: to_msec_eq Let_def)
  show "0 < d \<Longrightarrow> to_msec d m = 0 \<Longrightarrow> m = 0" using assms d by (auto simp: to_msec_eq Let_def split: if_splits)
  show "0 < d \<Longrightarrow> m = 0 \<Longrightarrow> to_msec d m = 0 \<or> to_msec d m = 1 \<and> d < 1000000"
    using d(1) by (auto simp: to_msec_eq Let_def)
  show "0 < d \<Longrightarrow> to_msec d m * 1000000 \<le> max 1000000 d" using assms d by (auto simp: to_msec_eq Let_def)
qed

section \<open>Theorems\<close>

text \<open>
  C20. After any history of calls the next one returns and does to the active timers and their operations what it should: enqueueing adds
  the operation to its timer, cancelling hands out the right operations with \<open>operation_aborted\<close>, in their order, and drops a
  timer that has none left, moving gives the operations and the expiry to the target, and the expiry of timers hands out exactly
  the operations of the timers whose time has come, earliest first, each once and with success, and leaves all other timers as they
  were. The heap, the indices in it and the doubly linked list behave as the map they stand for.
\<close>

theorem timer_queue_refines:
  assumes "timers_reach pos_inf q" and "call_ok c q"
  shows "\<exists>ops q1. exec_call pos_inf c q = Some (ops, q1) \<and> spec_call pos_inf c (contents q) ops (contents q1)"
  using call_simulated [OF reach_inv [OF assms(1)] assms(2)] by blast

definition demo_wait :: "nat \<Rightarrow> wait_op" where
  "demo_wait i = \<lparr>w_id = i, w_ec = asio_would_block, w_key = 0\<rparr>"

lemma demo_reach:
  "timers_reach (\<lambda>_. False) (snd (enqueue_timer (\<lambda>_. False) (5 :: int) 0 (demo_wait 0) timer_queue_new))"
  by (rule timers_reach.call [OF timers_reach.new, of "Enqueue 5 0 (demo_wait 0)" _ "[]"])
    (simp_all add: timer_queue_new_def no_index_def per_timer_new_def)

theorem timer_queue_refines_witness:
  "\<exists>ops q1. exec_call (\<lambda>_. False) (Ready 7) (snd (enqueue_timer (\<lambda>_. False) (5 :: int) 0 (demo_wait 0) timer_queue_new)) = Some (ops, q1) \<and>
    spec_call (\<lambda>_. False) (Ready 7) (contents (snd (enqueue_timer (\<lambda>_. False) (5 :: int) 0 (demo_wait 0) timer_queue_new))) ops (contents q1)"
  by (rule timer_queue_refines [OF demo_reach]) simp

text \<open>
  The reactor is interrupted when it has to be: a new timer that expires before all others is reported as the earliest, and a timer
  that is reported expires no later than any other.
\<close>

theorem enqueue_reports_earliest:
  assumes "timers_reach pos_inf q" and "call_ok (Enqueue time t op) q" and "\<not> active q t" and "\<not> pos_inf time"
  shows "((\<forall>u x os. contents q u = Some (Some x, os) \<longrightarrow> time < x) \<longrightarrow> fst (enqueue_timer pos_inf time t op q)) \<and>
    (fst (enqueue_timer pos_inf time t op q) \<longrightarrow> (\<forall>u x os. contents q u = Some (Some x, os) \<longrightarrow> time \<le> x))"
proof -
  let ?q = "snd (enqueue_timer pos_inf time t op q)"
  have inv: "timers_inv q" by (rule reach_inv [OF assms(1)])
  have room: "length (theap q) < no_index" using assms(2) by simp
  note e = enqueue_result [where op = op and pos_inf = pos_inf and time = time, OF inv room assms(3,4)]
  have i: "timers_inv ?q" using enqueue_effect [OF inv room] by blast
  have old: "contents q u = Some (Some x, os) \<Longrightarrow> contents ?q u = Some (Some x, os)" for u x os
    using assms(3) by (auto simp: e(2) contents_def split: if_splits)
  have ne: "theap ?q \<noteq> []" using root_least(1) [OF i, of t time "[op]"] by (simp add: e(2))
  obtain x0 u0 where r: "theap ?q ! 0 = (x0, u0)" by force
  then have c0: "contents ?q u0 = Some (Some x0, t_ops (tdata ?q u0))" using contents_due [OF i] ne by (metis length_greater_0_conv nth_mem)
  have t0: "x0 \<le> time" using root_least(2) [OF i, of t time "[op]"] r by (simp add: e(2) time_at_def)
  have "theap ?q ! 0 = (time, t)" if "\<forall>u x os. contents q u = Some (Some x, os) \<longrightarrow> time < x"
  proof -
    have "u0 = t"
    proof (rule ccontr)
      assume "u0 \<noteq> t"
      then have "contents q u0 = Some (Some x0, t_ops (tdata ?q u0))" using c0 by (simp add: e(2))
      then have "time < x0" using that by blast
      then show False using t0 by simp
    qed
    then show ?thesis using c0 r by (simp add: e(2))
  qed
  moreover have "time \<le> x" if "theap ?q ! 0 = (time, t)" "contents q u = Some (Some x, os)" for u x os
    using root_least(2) [OF i old [OF that(2)]] that(1) by (simp add: time_at_def)
  ultimately show ?thesis unfolding e(1) by blast
qed

theorem enqueue_reports_earliest_witness:
  "let q = snd (enqueue_timer (\<lambda>_. False) (5 :: int) 0 (demo_wait 0) timer_queue_new)
   in ((\<forall>u x os. contents q u = Some (Some x, os) \<longrightarrow> 3 < x) \<longrightarrow> fst (enqueue_timer (\<lambda>_. False) 3 1 (demo_wait 1) q)) \<and>
      (fst (enqueue_timer (\<lambda>_. False) 3 1 (demo_wait 1) q) \<longrightarrow> (\<forall>u x os. contents q u = Some (Some x, os) \<longrightarrow> 3 \<le> x))"
proof -
  let ?q = "snd (enqueue_timer (\<lambda>_. False) (5 :: int) 0 (demo_wait 0) timer_queue_new)"
  have "contents ?q 1 = None" "length (theap ?q) = 1" "t_ops (tdata ?q 1) = []"
    by (simp_all add: enqueue_timer_def insert_into_heap_def link_first_def timer_queue_new_def per_timer_new_def active_def
        up_heap.simps contents_def Let_def)
  then show ?thesis unfolding Let_def
    by (intro enqueue_reports_earliest [OF demo_reach]) (simp_all add: contents_def no_index_def split: if_splits)
qed

section \<open>Several queues\<close>

text \<open>The set of the reactor's timer queues (\<^verbatim>\<open>detail/impl/timer_queue_set.ipp\<close>), in the order of its list.\<close>

definition set_insert :: "nat \<Rightarrow> nat list \<Rightarrow> nat list" where
  "set_insert q qs = q # qs"

fun set_erase :: "nat \<Rightarrow> nat list \<Rightarrow> nat list" where
  "set_erase q [] = []"
| "set_erase q (p # ps) = (if q = p then ps else p # set_erase q ps)"

fun set_all_empty :: "'t timer_queue list \<Rightarrow> bool" where
  "set_all_empty [] = True"
| "set_all_empty (q # qs) = (if \<not> timers_empty q then False else set_all_empty qs)"

fun set_wait_duration :: "(int \<Rightarrow> int \<Rightarrow> int) \<Rightarrow> int \<Rightarrow> int \<Rightarrow> int timer_queue list \<Rightarrow> int option" where
  "set_wait_duration to now m [] = Some m"
| "set_wait_duration to now m (q # qs) = (case wait_duration to now m q of None \<Rightarrow> None | Some m1 \<Rightarrow> set_wait_duration to now m1 qs)"

fun set_get_ready :: "'t::linorder \<Rightarrow> wait_op list \<Rightarrow> 't timer_queue list \<Rightarrow> (wait_op list \<times> 't timer_queue list) option" where
  "set_get_ready now ops [] = Some (ops, [])"
| "set_get_ready now ops (q # qs) =
     (case get_ready_timers now ops q of
        None \<Rightarrow> None
      | Some (ops1, q1) \<Rightarrow> map_option (\<lambda>(ops2, qs1). (ops2, q1 # qs1)) (set_get_ready now ops1 qs))"

fun set_get_all :: "wait_op list \<Rightarrow> 't timer_queue list \<Rightarrow> (wait_op list \<times> 't timer_queue list) option" where
  "set_get_all ops [] = Some (ops, [])"
| "set_get_all ops (q # qs) =
     (case get_all_timers ops q of
        None \<Rightarrow> None
      | Some (ops1, q1) \<Rightarrow> map_option (\<lambda>(ops2, qs1). (ops2, q1 # qs1)) (set_get_all ops1 qs))"

text \<open>Shutdown hands out the operations of all timers and leaves no active timer.\<close>

theorem get_all_effect:
  assumes "timers_inv q"
  shows "\<exists>ts q1. get_all_timers ops q = Some (ops @ concat (map (ops_of (contents q)) ts), q1) \<and> distinct ts \<and> set ts = dom (contents q) \<and>
    contents q1 = (\<lambda>_. None) \<and> timers_empty q1"
proof -
  obtain xs where l: "linked q xs" using assms by (auto simp: timers_inv_def)
  have m: "map (\<lambda>t. t_ops (tdata q t)) xs = map (ops_of (contents q)) xs" by (simp add: ops_of_def contents_linked [OF l])
  obtain q1 where q1: "all_loop ops q = Some (ops @ concat (map (ops_of (contents q)) xs), q1)" "timers q1 = None"
      "\<forall>u. t_prev (tdata q1 u) = (if u \<in> set xs then None else t_prev (tdata q u))"
    using all_loop_effect [of xs q None ops] l unfolding m linked_def by blast
  have "t_prev (tdata q1 u) = None" for u using q1(3) l by (simp add: linked_def)
  then have "contents (q1\<lparr>theap := []\<rparr>) = (\<lambda>_. None)" using q1(2) by (auto simp: contents_def active_def)
  moreover have "set xs = dom (contents q)" by (auto simp: contents_linked [OF l] split: if_splits)
  ultimately show ?thesis using q1 l
    by (intro exI [of _ xs] exI [of _ "q1\<lparr>theap := []\<rparr>"]) (simp add: get_all_timers_def timers_empty_def linked_def)
qed

text \<open>
  With two queues the wait need not be zero when a timer has expired: the second queue rounds up to one whatever the first has
  returned.
\<close>

lemma set_wait_rounds_up:
  "\<exists>q1 q2. wait_duration to_msec 0 300000 q1 = Some 0 \<and> set_wait_duration to_msec 0 300000 [q1, q2] = Some 1"
proof (intro exI conjI)
  let ?q = "\<lambda>x :: int. timer_queue_new\<lparr>theap := [(x, 0)]\<rparr>"
  have s: "chrono_subtract (- 1) 0 = Some (- 1)" "chrono_subtract 5 0 = Some 5"
    using chrono_exact(1) [of "- 1" 0] chrono_exact(1) [of 5 0] by (simp_all add: clamp_def rep_min_def rep_max_def)
  have t: "to_msec (- 1) 300000 = 0" "to_msec 5 0 = 1"
    unfolding to_msec_def to_units_def cast_msec Let_def by (simp_all add: signed_divide_int_def)
  show w: "wait_duration to_msec 0 300000 (?q (- 1)) = Some 0" by (simp add: wait_duration_def time_at_def s t)
  have "wait_duration to_msec 0 0 (?q 5) = Some 1" by (simp add: wait_duration_def time_at_def s t)
  then show "set_wait_duration to_msec 0 300000 [?q (- 1), ?q 5] = Some 1" by (simp only: set_wait_duration.simps w option.case)
qed

text \<open>
  For the claim on the wait: a queue of the reactor after any history, with times in the range of the clock; some timer has expired;
  some timer expires within the next millisecond.
\<close>

definition in_clock :: "int \<Rightarrow> bool" where
  "in_clock x \<longleftrightarrow> rep_min \<le> x \<and> x \<le> rep_max"

definition due_within :: "int \<Rightarrow> int \<Rightarrow> int timer_queue \<Rightarrow> bool" where
  "due_within now d q \<longleftrightarrow> (\<exists>t x os. contents q t = Some (Some x, os) \<and> now < x \<and> x < now + d)"

definition not_overslept :: "int \<Rightarrow> int \<Rightarrow> int timer_queue \<Rightarrow> bool" where
  "not_overslept now w q \<longleftrightarrow> (\<forall>t x os. contents q t = Some (Some x, os) \<and> now < x \<longrightarrow> w * 1000000 \<le> max 1000000 (x - now))"

lemma queue_wait:
  assumes "timers_reach pos_inf q" and "\<forall>(x, t)\<in>set (theap q). in_clock x" and "in_clock now" and "0 \<le> m"
  shows "\<exists>w. wait_duration to_msec now m q = Some w \<and> 0 \<le> w \<and> w \<le> max m 1 \<and> not_overslept now w q \<and>
    (ready now (contents q) \<noteq> {} \<longrightarrow> w = 0) \<and>
    (ready now (contents q) = {} \<longrightarrow> (1 \<le> m \<longrightarrow> 1 \<le> w) \<and> (m = 0 \<longrightarrow> w = 0 \<or> w = 1 \<and> due_within now 1000000 q))"
proof (cases "theap q = []")
  case True
  then have "contents q t \<noteq> Some (Some x, os)" for t x os using root_least(1) [OF reach_inv [OF assms(1)]] by blast
  then show ?thesis using True assms(4) by (auto simp: wait_duration_def ready_def not_overslept_def)
next
  case False
  have inv: "timers_inv q" by (rule reach_inv [OF assms(1)])
  obtain x0 t0 where r: "theap q ! 0 = (x0, t0)" by force
  then have m: "(x0, t0) \<in> set (theap q)" using False by (metis length_greater_0_conv nth_mem)
  then have b: "rep_min \<le> x0" "x0 \<le> rep_max" "rep_min \<le> now" "now \<le> rep_max" using assms(2,3) by (auto simp: in_clock_def)
  let ?d = "clamp (x0 - now)"
  have w: "wait_duration to_msec now m q = Some (to_msec ?d m)"
    using False r chrono_exact(1) [OF b] by (simp add: wait_duration_def time_at_def)
  note t = to_msec_bounds [OF assms(4), of ?d]
  have least: "contents q t = Some (Some x, os) \<Longrightarrow> x0 \<le> x" for t x os using root_least(2) [OF inv] r by (simp add: time_at_def)
  have c0: "contents q t0 = Some (Some x0, t_ops (tdata q t0))" using m contents_due [OF inv] by blast
  have d: "?d \<le> 0 \<longleftrightarrow> x0 \<le> now" "0 < ?d \<Longrightarrow> ?d \<le> x0 - now" "?d < 1000000 \<Longrightarrow> x0 < now + 1000000"
    by (auto simp: clamp_def rep_min_def rep_max_def)
  have rd: "ready now (contents q) \<noteq> {} \<longleftrightarrow> ?d \<le> 0"
    using c0 least by (auto simp: ready_def d(1) intro: order.trans)
  have "to_msec ?d m * 1000000 \<le> max 1000000 (x - now)" if "contents q t = Some (Some x, os)" "now < x" for t x os
  proof (cases "?d \<le> 0")
    case True
    then show ?thesis using t(3) by simp
  next
    case False
    then have "to_msec ?d m * 1000000 \<le> max 1000000 ?d" "?d \<le> x - now" using t(6) d(2) least [OF that(1)] by auto
    then show ?thesis by linarith
  qed
  then have "not_overslept now (to_msec ?d m) q" by (auto simp: not_overslept_def)
  moreover have "1 \<le> to_msec ?d m" if "0 < ?d" "1 \<le> m" using t(1,4) that by linarith
  moreover have "to_msec ?d m = 0 \<or> to_msec ?d m = 1 \<and> due_within now 1000000 q" if "0 < ?d" "m = 0"
    using t(5) that d c0 by (force simp: due_within_def)
  ultimately show ?thesis using w t(1,2,3) rd by (intro exI [of _ "to_msec ?d m"]) auto
qed

lemma not_overslept_le: "not_overslept now w q \<Longrightarrow> w' \<le> max w 1 \<Longrightarrow> not_overslept now w' q"
  unfolding not_overslept_def by (smt (verit))

lemma set_wait:
  assumes "\<forall>q\<in>set qs. timers_reach pos_inf q \<and> (\<forall>(x, t)\<in>set (theap q). in_clock x)" and "in_clock now" and "0 \<le> m"
  shows "\<exists>w. set_wait_duration to_msec now m qs = Some w \<and> 0 \<le> w \<and> w \<le> max m 1 \<and> (\<forall>q\<in>set qs. not_overslept now w q) \<and>
    (1 \<le> m \<and> (\<forall>q\<in>set qs. ready now (contents q) = {}) \<longrightarrow> 1 \<le> w) \<and>
    (m = 0 \<or> (\<exists>q\<in>set qs. ready now (contents q) \<noteq> {}) \<longrightarrow> w = 0 \<or> w = 1 \<and> (\<exists>q\<in>set qs. due_within now 1000000 q)) \<and>
    (qs \<noteq> [] \<and> ready now (contents (last qs)) \<noteq> {} \<longrightarrow> w = 0)"
  using assms(1,3)
proof (induction qs arbitrary: m)
  case (Cons q qs)
  obtain m1 where m1: "wait_duration to_msec now m q = Some m1" "0 \<le> m1" "m1 \<le> max m 1" "not_overslept now m1 q"
      "ready now (contents q) \<noteq> {} \<longrightarrow> m1 = 0"
      "ready now (contents q) = {} \<longrightarrow> (1 \<le> m \<longrightarrow> 1 \<le> m1) \<and> (m = 0 \<longrightarrow> m1 = 0 \<or> m1 = 1 \<and> due_within now 1000000 q)"
    using queue_wait [of pos_inf q now m] Cons.prems assms(2) by auto
  obtain w where w: "set_wait_duration to_msec now m1 qs = Some w" "0 \<le> w" "w \<le> max m1 1" "\<forall>q\<in>set qs. not_overslept now w q"
      "1 \<le> m1 \<and> (\<forall>q\<in>set qs. ready now (contents q) = {}) \<longrightarrow> 1 \<le> w"
      "m1 = 0 \<or> (\<exists>q\<in>set qs. ready now (contents q) \<noteq> {}) \<longrightarrow> w = 0 \<or> w = 1 \<and> (\<exists>q\<in>set qs. due_within now 1000000 q)"
      "qs \<noteq> [] \<and> ready now (contents (last qs)) \<noteq> {} \<longrightarrow> w = 0"
    using Cons.IH [of m1] Cons.prems m1(2) by auto
  have "not_overslept now w q" using m1(4) w(3) by (rule not_overslept_le)
  moreover have "w = 0 \<or> w = 1 \<and> (\<exists>p\<in>set (q # qs). due_within now 1000000 p)"
    if "m = 0 \<or> (\<exists>p\<in>set (q # qs). ready now (contents p) \<noteq> {})"
  proof (cases "m1 = 0 \<or> (\<exists>p\<in>set qs. ready now (contents p) \<noteq> {})")
    case True
    then show ?thesis using w(6) by auto
  next
    case False
    then have "m1 = 1" "due_within now 1000000 q" using that m1(5,6) by auto
    then show ?thesis using w(2,3) by auto
  qed
  moreover have "w = 0" if "ready now (contents (last (q # qs))) \<noteq> {}"
    using that w(1,7) m1(5) by (cases "qs = []") auto
  moreover have "w \<le> max m 1" using m1(3) w(3) by linarith
  ultimately show ?case using m1(1,5,6) w(1,2,4,5) by (intro exI [of _ w]) auto
qed auto

text \<open>
  C21. The time the reactor may wait, as \<^verbatim>\<open>timer_queue_set::wait_duration_msec\<close> computes it over any number of queues, fits the
  timers. For every history of every queue, and for times and a present anywhere in the range of the clock, the computation does
  not overflow; the result is between zero and the limit; it is positive when no timer has expired; no timer that has not expired
  is overslept by more than the one millisecond that is the shortest wait. When a timer has expired the result is zero, except that
  it may be one millisecond when another timer expires within the next millisecond, in a queue further down the list: that queue
  rounds up to one whatever the queues before it returned. It is zero whenever the timer is in the last queue, thus always when
  there is only one queue.
\<close>

theorem wait_fits_earliest:
  assumes "\<forall>q\<in>set qs. timers_reach pos_inf q \<and> (\<forall>(x, t)\<in>set (theap q). in_clock x)" and "in_clock now" and "1 \<le> limit"
  shows "\<exists>w. set_wait_duration to_msec now limit qs = Some w \<and> 0 \<le> w \<and> w \<le> limit \<and>
    ((\<forall>q\<in>set qs. ready now (contents q) = {}) \<longrightarrow> 1 \<le> w) \<and>
    (\<forall>q\<in>set qs. \<forall>t x os. contents q t = Some (Some x, os) \<and> now < x \<longrightarrow> w * 1000000 \<le> max 1000000 (x - now)) \<and>
    ((\<exists>q\<in>set qs. ready now (contents q) \<noteq> {}) \<longrightarrow> w = 0 \<or> w = 1 \<and> (\<exists>q\<in>set qs. due_within now 1000000 q)) \<and>
    (qs \<noteq> [] \<and> ready now (contents (last qs)) \<noteq> {} \<longrightarrow> w = 0)"
proof -
  have "0 \<le> limit" "max limit 1 = limit" "limit \<noteq> 0" using assms(3) by simp_all
  then show ?thesis using set_wait [OF assms(1,2), of limit] assms(3) unfolding not_overslept_def by (simp only: simp_thms) blast
qed

theorem wait_fits_earliest_witness:
  "\<exists>w. set_wait_duration to_msec 7 300000 [snd (enqueue_timer (\<lambda>_. False) (5 :: int) 0 (demo_wait 0) timer_queue_new), timer_queue_new] = Some w \<and>
    0 \<le> w \<and> w \<le> 1"
proof -
  let ?q = "snd (enqueue_timer (\<lambda>_. False) (5 :: int) 0 (demo_wait 0) timer_queue_new)"
  have h: "theap ?q = [(5, 0)]" "theap (timer_queue_new :: int timer_queue) = []"
    by (simp_all add: enqueue_timer_def insert_into_heap_def link_first_def timer_queue_new_def per_timer_new_def active_def up_heap.simps Let_def)
  then have "\<forall>q\<in>set [?q, timer_queue_new]. timers_reach (\<lambda>_. False) q \<and> (\<forall>(x, t)\<in>set (theap q). in_clock x)"
    using demo_reach timers_reach.new by (auto simp: in_clock_def rep_min_def rep_max_def)
  moreover have "contents ?q 0 = Some (Some 5, t_ops (tdata ?q 0))"
    using contents_due [OF reach_inv [OF demo_reach], of 0 5 "t_ops (tdata ?q 0)"] by (simp only: h(1)) simp
  then have "0 \<in> ready 7 (contents ?q)" unfolding ready_def by (intro CollectI exI conjI) (assumption, simp)
  ultimately show ?thesis
    using wait_fits_earliest [of "[?q, timer_queue_new]" "\<lambda>_. False" 7 300000]
    unfolding in_clock_def rep_min_def rep_max_def by fastforce
qed

end
