(* ===== verification/AsioReactorTimers.thy ===== *)
theory AsioReactorTimers
  imports AsioTimerQueue
begin

text \<open>
  The calls that join the reactor to its timer queue (\<^verbatim>\<open>detail/impl/epoll_reactor.hpp\<close>) over the scheduler of theory \<open>AsioScheduler\<close>: scheduling,
  cancelling and moving timers, and the check for expired ones in the reactor's \<open>run\<close>. No operation is lost or handed over twice, and
  the count of work stays that of the operations.
\<close>

section \<open>Operations\<close>

text \<open>\<open>rearmed\<close> counts the calls of \<open>update_timeout\<close>.\<close>

record 't timer_reactor =
  tqueue :: "'t timer_queue"
  tsched :: "wait_op scheduler"
  tthread :: "wait_op thread_info option"
  tshut :: bool
  rearmed :: nat

definition post_waits :: "wait_op list \<Rightarrow> 't timer_reactor \<Rightarrow> 't timer_reactor" where
  "post_waits ops r = (case post_deferred_completions ops (tthread r) (tsched r) of (s, t) \<Rightarrow> r\<lparr>tsched := s, tthread := t\<rparr>)"

definition schedule_timer :: "('t \<Rightarrow> bool) \<Rightarrow> 't \<Rightarrow> nat \<Rightarrow> wait_op \<Rightarrow> 't::linorder timer_reactor \<Rightarrow> 't timer_reactor" where
  "schedule_timer pos_inf time t op r =
     (if tshut r
      then (case post_immediate_completion op False (tthread r) (tsched r) of (s, th) \<Rightarrow> r\<lparr>tsched := s, tthread := th\<rparr>)
      else (case enqueue_timer pos_inf time t op (tqueue r) of (earliest, q) \<Rightarrow>
              let r1 = r\<lparr>tqueue := q, tsched := work_started (tsched r)\<rparr>
              in if earliest then r1\<lparr>rearmed := rearmed r1 + 1\<rparr> else r1))"

definition reactor_cancel_timer :: "nat \<Rightarrow> nat \<Rightarrow> 't::linorder timer_reactor \<Rightarrow> nat \<times> 't timer_reactor" where
  "reactor_cancel_timer t max_cancelled r =
     (case cancel_timer t [] max_cancelled (tqueue r) of (n, ops, q) \<Rightarrow> (n, post_waits ops (r\<lparr>tqueue := q\<rparr>)))"

definition reactor_cancel_timer_by_key :: "nat \<Rightarrow> nat \<Rightarrow> 't::linorder timer_reactor \<Rightarrow> 't timer_reactor" where
  "reactor_cancel_timer_by_key t key r = (case cancel_timer_by_key t [] key (tqueue r) of (ops, q) \<Rightarrow> post_waits ops (r\<lparr>tqueue := q\<rparr>))"

definition reactor_move_timer :: "nat \<Rightarrow> nat \<Rightarrow> 't::linorder timer_reactor \<Rightarrow> 't timer_reactor" where
  "reactor_move_timer target source r =
     (case cancel_timer target [] no_index (tqueue r) of (_, ops, q) \<Rightarrow> post_waits ops (r\<lparr>tqueue := move_timer target source q\<rparr>))"

text \<open>In \<open>run\<close> the expired operations go to the queue the scheduler has passed, the private one of the thread.\<close>

definition check_timers :: "'t \<Rightarrow> 't::linorder timer_reactor \<Rightarrow> 't timer_reactor option" where
  "check_timers now r =
     (case tthread r of
        None \<Rightarrow> Some r
      | Some th \<Rightarrow>
          map_option (\<lambda>(ops, q). r\<lparr>tqueue := q, tthread := Some (th\<lparr>private_op_queue := ops\<rparr>)\<rparr>)
            (get_ready_timers now (private_op_queue th) (tqueue r)))"

fun reactor_call :: "('t \<Rightarrow> bool) \<Rightarrow> 't timer_call \<Rightarrow> 't::linorder timer_reactor \<Rightarrow> 't timer_reactor option" where
  "reactor_call pos_inf (Enqueue time t op) r = Some (schedule_timer pos_inf time t op r)"
| "reactor_call pos_inf (Cancel t n) r = Some (snd (reactor_cancel_timer t n r))"
| "reactor_call pos_inf (Cancel_key t key) r = Some (reactor_cancel_timer_by_key t key r)"
| "reactor_call pos_inf (Move target source) r = Some (reactor_move_timer target source r)"
| "reactor_call pos_inf (Ready now) r = check_timers now r"

section \<open>Where the operations are\<close>

definition held_waits :: "(nat \<Rightarrow> ('t option \<times> wait_op list) option) \<Rightarrow> nat multiset" where
  "held_waits m = (\<Sum>t\<in>dom m. mset (map w_id (ops_of m t)))"

definition handed_waits :: "'t timer_reactor \<Rightarrow> nat multiset" where
  "handed_waits r = mset (map w_id (queued_ops (sched_queue (tsched r)))) +
     (case tthread r of None \<Rightarrow> {#} | Some th \<Rightarrow> mset (map w_id (private_op_queue th)))"

definition waits_work :: "'t timer_reactor \<Rightarrow> int" where
  "waits_work r = outstanding_work (tsched r) + (case tthread r of None \<Rightarrow> 0 | Some th \<Rightarrow> private_outstanding_work th)"

lemma ops_of_upd [simp]: "ops_of (m(t := y)) u = (if u = t then (case y of None \<Rightarrow> [] | Some (_, os) \<Rightarrow> os) else ops_of m u)"
  by (simp add: ops_of_def)

lemma held_upd:
  assumes "finite (dom m)"
  shows "held_waits (m(t := y)) + mset (map w_id (ops_of m t)) = held_waits m + mset (map w_id (case y of None \<Rightarrow> [] | Some (_, os) \<Rightarrow> os))"
proof -
  let ?f = "\<lambda>m t. mset (map w_id (ops_of m t))"
  have out: "held_waits n = ?f n t + (\<Sum>u\<in>dom n - {t}. ?f n u)" if "finite (dom n)" for n :: "nat \<Rightarrow> ('a option \<times> wait_op list) option"
  proof (cases "t \<in> dom n")
    case True
    then show ?thesis using that by (simp add: held_waits_def sum.remove)
  next
    case False
    then have "n t = None" by blast
    then have "ops_of n t = []" by (simp add: ops_of_def)
    then show ?thesis using False by (simp add: held_waits_def)
  qed
  have d: "dom (m(t := y)) - {t} = dom m - {t}" by (auto split: if_splits)
  have "finite (dom (m(t := y)))" using assms by (cases y) auto
  then have "held_waits (m(t := y)) = mset (map w_id (case y of None \<Rightarrow> [] | Some (_, os) \<Rightarrow> os)) + (\<Sum>u\<in>dom m - {t}. ?f (m(t := y)) u)"
    using out [of "m(t := y)"] unfolding d by simp
  moreover have "(\<Sum>u\<in>dom m - {t}. ?f (m(t := y)) u) = (\<Sum>u\<in>dom m - {t}. ?f m u)" by (intro sum.cong) auto
  ultimately show ?thesis using out [OF assms] by (simp add: ac_simps)
qed

text \<open>The operations a call adds, and that it hands out what it takes away.\<close>

fun scheduled :: "'t timer_call \<Rightarrow> nat multiset" where
  "scheduled (Enqueue _ _ op) = {#w_id op#}"
| "scheduled _ = {#}"

lemma ids_unchanged [simp]: "w_id (expired op) = w_id op" "w_id (cancelled op) = w_id op"
  by (simp_all add: expired_def cancelled_def)

lemma ids_comp [simp]: "w_id \<circ> expired = w_id" "w_id \<circ> cancelled = w_id"
  by auto

lemma ids_expired [simp]: "map w_id (map expired ops) = map w_id ops" "map w_id (map cancelled ops) = map w_id ops"
  by simp_all

lemma keep_conserves:
  assumes "finite (dom m)" and "mset gone + mset rest = mset (ops_of m t)"
  shows "held_waits (spec_keep t rest m) + mset (map w_id gone) = held_waits m"
proof -
  have i: "mset (map w_id gone) + mset (map w_id rest) = mset (map w_id (ops_of m t))"
    using arg_cong [OF assms(2), of "image_mset w_id"] by simp
  show ?thesis
  proof (cases "m t")
    case None
    then have "gone = []" "rest = []" using assms(2) by (simp_all add: ops_of_def)
    then show ?thesis using None by (simp add: spec_keep_def)
  next
    case (Some z)
    obtain x os where z: "z = (x, os)" by force
    have "held_waits (spec_keep t rest m) + mset (map w_id (ops_of m t)) = held_waits m + mset (map w_id rest)"
      using held_upd [OF assms(1), of t None] held_upd [OF assms(1), of t "Some (x, rest)"] Some z by (simp add: spec_keep_def)
    then have "held_waits (spec_keep t rest m) + mset (map w_id gone) + mset (map w_id rest) = held_waits m + mset (map w_id rest)"
      using i by (simp only: add.assoc)
    then show ?thesis by (rule add_right_imp_eq)
  qed
qed

lemma ready_conserves:
  assumes "finite (dom m)" and "distinct ts" and "set ts \<subseteq> dom m"
  shows "held_waits (\<lambda>t. if t \<in> set ts then None else m t) + mset (map w_id (concat (map (\<lambda>t. map expired (ops_of m t)) ts))) = held_waits m"
  using assms
proof (induction ts)
  case Nil
  then show ?case by simp
next
  case (Cons t ts)
  let ?m = "\<lambda>t. if t \<in> set ts then None else m t"
  have e: "(\<lambda>u. if u \<in> set (t # ts) then None else m u) = ?m(t := None)" by auto
  have f: "finite (dom ?m)" using Cons.prems(1) by (rule rev_finite_subset) (auto split: if_splits)
  have "ops_of ?m t = ops_of m t" using Cons.prems(2) by (simp add: ops_of_def)
  then have 1: "held_waits (?m(t := None)) + mset (map w_id (ops_of m t)) = held_waits ?m" using held_upd [OF f, of t None] by simp
  have 2: "held_waits ?m + mset (map w_id (concat (map (\<lambda>t. map expired (ops_of m t)) ts))) = held_waits m" using Cons by simp
  have 3: "mset (map w_id (concat (map (\<lambda>t. map expired (ops_of m t)) (t # ts)))) =
      mset (map w_id (ops_of m t)) + mset (map w_id (concat (map (\<lambda>t. map expired (ops_of m t)) ts)))"
    by (simp only: list.map concat.simps map_append mset_append ids_expired)
  show ?case unfolding e 3 by (simp only: add.assoc [symmetric] 1 2)
qed

lemma call_conserves:
  assumes "finite (dom m)" and "spec_call pos_inf c m ops m1" and "case c of Move target source \<Rightarrow> source \<noteq> target | _ \<Rightarrow> True"
  shows "held_waits m1 + mset (map w_id ops) = held_waits m + scheduled c"
proof (cases c)
  case (Enqueue time t op)
  have "held_waits (spec_enqueue pos_inf time t op m) = held_waits m + {#w_id op#}"
  proof (cases "m t")
    case None
    then show ?thesis using held_upd [OF assms(1), of t "Some (if pos_inf time then None else Some time, [op])"]
      by (simp add: spec_enqueue_def ops_of_def)
  next
    case (Some z)
    obtain x os where z: "z = (x, os)" by force
    have "held_waits (m(t \<mapsto> (x, os @ [op]))) + mset (map w_id os) = held_waits m + {#w_id op#} + mset (map w_id os)"
      using held_upd [OF assms(1), of t "Some (x, os @ [op])"] Some z by (simp add: ops_of_def)
    then have "held_waits (m(t \<mapsto> (x, os @ [op]))) = held_waits m + {#w_id op#}" by (rule add_right_imp_eq)
    then show ?thesis using Some z by (simp add: spec_enqueue_def)
  qed
  then show ?thesis using assms(2) Enqueue by simp
next
  case (Cancel t n)
  have "mset (take n (ops_of m t)) + mset (drop n (ops_of m t)) = mset (ops_of m t)" by (metis append_take_drop_id mset_append)
  from keep_conserves [OF assms(1) this] show ?thesis using assms(2) Cancel by simp
next
  case (Cancel_key t key)
  have "mset (filter (\<lambda>op. w_key op = key) (ops_of m t)) + mset (filter (\<lambda>op. w_key op \<noteq> key) (ops_of m t)) = mset (ops_of m t)"
    by (metis mset_filter multiset_partition)
  from keep_conserves [OF assms(1) this] show ?thesis using assms(2) Cancel_key by simp
next
  case (Move target source)
  let ?m = "m(target := None)"
  have st: "source \<noteq> target" using assms(3) Move by simp
  have f: "finite (dom ?m)" using assms(1) by simp
  have "held_waits (spec_move target source ?m) = held_waits ?m"
  proof (cases "?m source")
    case None
    then show ?thesis by (simp add: spec_move_def)
  next
    case (Some z)
    obtain x os where z: "z = (x, os)" by force
    have "held_waits ((?m(source := None))(target \<mapsto> z)) = held_waits (?m(source := None)) + mset (map w_id os)"
      using held_upd [of "?m(source := None)" target "Some z"] f z st by (auto simp: fun_upd_twist)
    moreover have "held_waits (?m(source := None)) + mset (map w_id os) = held_waits ?m"
      using held_upd [OF f, of source None] Some z by (simp add: ops_of_def split: if_splits)
    ultimately show ?thesis using Some by (simp add: spec_move_def)
  qed
  moreover have "held_waits ?m + mset (map w_id (ops_of m target)) = held_waits m" using held_upd [OF assms(1), of target None] by simp
  ultimately show ?thesis using assms(2) Move by simp
next
  case (Ready now)
  then obtain ts where "distinct ts" "set ts = ready now m" "ops = concat (map (\<lambda>t. map expired (ops_of m t)) ts)"
    "m1 = (\<lambda>t. if t \<in> set ts then None else m t)" using assms(2) by auto
  then show ?thesis using ready_conserves [OF assms(1), of ts] Ready by (force simp: ready_def)
qed

section \<open>Conservation\<close>

lemma post_waits_effect [simp]:
  "handed_waits (post_waits ops r) = handed_waits r + mset (map w_id ops)" "waits_work (post_waits ops r) = waits_work r"
  "tqueue (post_waits ops r) = tqueue r"
  by (auto simp: post_waits_def post_deferred_completions_def Let_def handed_waits_def waits_work_def push_ops_def
      split: option.splits prod.splits)

lemma queue_field [simp]: "handed_waits (r\<lparr>tqueue := q\<rparr>) = handed_waits r" "waits_work (r\<lparr>tqueue := q\<rparr>) = waits_work r"
  by (simp_all add: handed_waits_def waits_work_def)

lemma contents_finite: "timers_inv q \<Longrightarrow> finite (dom (contents q))"
proof -
  assume "timers_inv q"
  then obtain xs where "linked q xs" by (auto simp: timers_inv_def)
  then have "dom (contents q) \<subseteq> set xs" by (auto simp: contents_linked split: if_splits)
  then show ?thesis by (rule finite_subset) simp
qed

text \<open>
  Every call of the reactor on its timers returns and conserves the operations: those that wait on timers and those handed to the scheduler are
  the same as before, with the one that is scheduled, and the count of work grows by that one.
\<close>

theorem timer_operations_conserved:
  assumes inv: "timers_inv (tqueue r)" and ok: "call_ok c (tqueue r)" and th: "tthread r \<noteq> None"
  shows "\<exists>r1. reactor_call pos_inf c r = Some r1 \<and> timers_inv (tqueue r1) \<and>
    held_waits (contents (tqueue r1)) + handed_waits r1 = held_waits (contents (tqueue r)) + handed_waits r + scheduled c \<and>
    waits_work r1 = waits_work r + int (size (scheduled c))"
proof -
  let ?m = "contents (tqueue r)"
  obtain ops q1 where s: "exec_call pos_inf c (tqueue r) = Some (ops, q1)" "timers_inv q1" "spec_call pos_inf c ?m ops (contents q1)"
    using call_simulated [OF inv ok] by blast
  have "case c of Move target source \<Rightarrow> source \<noteq> target | _ \<Rightarrow> True" using ok by (cases c) auto
  note b = call_conserves [OF contents_finite [OF inv] s(3) this]
  have p: "held_waits (contents q1) + (handed_waits r + mset (map w_id ops)) = held_waits ?m + handed_waits r + scheduled c"
    using b by (metis add.assoc add.commute)
  show ?thesis
  proof (cases c)
    case (Enqueue time t op)
    show ?thesis
    proof (cases "tshut r")
      case True
      then show ?thesis using inv Enqueue
        by (auto simp: schedule_timer_def post_immediate_completion_def Let_def handed_waits_def waits_work_def push_ops_def work_started_def
            split: option.splits)
    next
      case False
      obtain e q where e: "enqueue_timer pos_inf time t op (tqueue r) = (e, q)" by force
      then have "q = q1" "ops = []" using s(1) Enqueue by simp_all
      then have h: "held_waits (contents q1) = held_waits ?m + {#w_id op#}" using b Enqueue by simp
      let ?r = "schedule_timer pos_inf time t op r"
      have "tqueue ?r = q1" "handed_waits ?r = handed_waits r" "waits_work ?r = waits_work r + 1"
        using False e \<open>q = q1\<close> by (cases e; simp add: schedule_timer_def Let_def handed_waits_def waits_work_def work_started_def)+
      then show ?thesis using Enqueue s(2) h by simp
    qed
  next
    case (Cancel t n)
    obtain k z where k: "cancel_timer t [] n (tqueue r) = (k, z)" by (meson surj_pair)
    then have "z = (ops, q1)" using s(1) Cancel by simp
    with k show ?thesis using Cancel s(2) p by (simp add: reactor_cancel_timer_def)
  next
    case (Cancel_key t key)
    then have "cancel_timer_by_key t [] key (tqueue r) = (ops, q1)" using s(1) by simp
    then show ?thesis using Cancel_key s(2) p by (simp add: reactor_cancel_timer_by_key_def)
  next
    case (Move target source)
    then obtain k q0 where "cancel_timer target [] no_index (tqueue r) = (k, ops, q0)" "q1 = move_timer target source q0"
      using s(1) by (auto split: prod.splits)
    then show ?thesis using Move s(2) p by (simp add: reactor_move_timer_def)
  next
    case (Ready now)
    obtain t where t: "tthread r = Some t" using th by blast
    obtain ts q2 where g: "ready_loop now (private_op_queue t) (tqueue r) = Some (private_op_queue t @ concat (map (\<lambda>u. map expired (ops_of ?m u)) ts), q2)"
        "timers_inv q2" "distinct ts" "set ts = ready now ?m" "contents q2 = (\<lambda>u. if u \<in> set ts then None else ?m u)"
      using ready_loop_effect [OF inv, of now "private_op_queue t"] by blast
    let ?ops = "concat (map (\<lambda>u. map expired (ops_of ?m u)) ts)"
    have "get_ready_timers now (private_op_queue t) (tqueue r) = ready_loop now (private_op_queue t) (tqueue r)"
      by (simp add: get_ready_timers_def) (subst ready_loop.simps, simp)
    moreover have "set ts \<subseteq> dom ?m" using g(4) by (auto simp: ready_def)
    ultimately have e: "check_timers now r = Some (r\<lparr>tqueue := q2, tthread := Some (t\<lparr>private_op_queue := private_op_queue t @ ?ops\<rparr>)\<rparr>)"
      and h: "held_waits (contents q2) + mset (map w_id ?ops) = held_waits ?m"
      using t g(1,5) ready_conserves [OF contents_finite [OF inv] g(3)] by (simp_all only: check_timers_def option.case option.map prod.case)
    let ?r = "r\<lparr>tqueue := q2, tthread := Some (t\<lparr>private_op_queue := private_op_queue t @ ?ops\<rparr>)\<rparr>"
    have "handed_waits ?r = handed_waits r + mset (map w_id ?ops)" "waits_work ?r = waits_work r"
      using t by (simp_all add: handed_waits_def waits_work_def)
    moreover have "held_waits (contents q2) + (handed_waits r + mset (map w_id ?ops)) = held_waits ?m + handed_waits r"
      using h by (metis add.assoc add.commute)
    ultimately show ?thesis using Ready e g(2) by simp
  qed
qed

end
