(* ===== verification/Spec2Isabelle.thy ===== *)
theory Spec2Isabelle
  imports Limits Protocol_Properties FunctionRunner TtmathInt Broken Secure AsioWakeups AsioSocketOps AsioReactorTimers
begin

text \<open>
  \<^bold>\<open>lapq, a PostgreSQL client library in C++, verified.\<close>

  \<^bold>\<open>The program.\<close> An application (like the programs under \<^verbatim>\<open>src/test\<close>) owns a
  \<^verbatim>\<open>Connection\<close> or \<^verbatim>\<open>AsyncConnection\<close> (\<^verbatim>\<open>src/src/dbconnection.cpp\<close>). It drives a protocol state
  machine (\<^verbatim>\<open>src/src/fsm.cpp\<close>), which sends and receives messages (\<^verbatim>\<open>src/src/protocol.cpp\<close>) through
  one of four transport classes (\<^verbatim>\<open>src/src/connection.cpp\<close>) on top of asio, decodes columns
  (\<^verbatim>\<open>src/src/pgformat.cpp\<close>) and fills the application's result object (\<^verbatim>\<open>src/src/dbresult.h\<close>). Queries
  with bound values are \<^verbatim>\<open>src/src/dbquery.h\<close>; options from the environment and the TLS context are
  \<^verbatim>\<open>src/src/util.cpp\<close>; error codes are \<^verbatim>\<open>src/src/error.cpp\<close>.

  \<^bold>\<open>Conventions\<close> (\<open>Lapq_Prelude\<close>). A function that may throw or run into undefined behaviour
  returns \<open>res\<close>: \<open>Inl\<close> with the fault, \<open>Inr\<close> with the value. A \<^verbatim>\<open>std::error_code\<close> is a value, as in the
  source. Machine integers are words (\<open>int16\<close>, \<open>int32\<close>, \<open>size_t\<close> of 64 bits, a little-endian host);
  sizes of buffers are natural numbers bounded by the allocation limit where the source can exceed
  it. A \<^verbatim>\<open>std::map\<close> is a list of pairs sorted by key. A moved-from \<^verbatim>\<open>std::function\<close> is empty, as in
  libstdc++, with which the program is built.

  \<^bold>\<open>Theories.\<close>
  \<^item> \<open>Lapq_Error\<close>, \<open>LapqTypes\<close>: error codes, \<open>Error\<close>, \<open>SQLError\<close>; hexadecimal dumps.
  \<^item> \<open>Wire\<close>: the overloads of \<^verbatim>\<open>serialize\<close> and \<^verbatim>\<open>deserialize\<close> on raw bytes. The locales \<open>reader\<close> and \<open>codec\<close>
    are their contract; each pair interprets them.
  \<^item> \<open>Protocol\<close>: header and all message classes; \<open>Protocol_Laws\<close>: the locale \<open>message_parser\<close>,
    interpreted by all thirteen parsers, and the layout of all messages; \<open>Protocol_Roundtrip\<close>: encoders
    for backend messages and their round trips; \<open>Protocol_Properties\<close>: the claims about messages.
  \<^item> \<open>PgFormat\<close>: decoders, their table, \<^verbatim>\<open>std::stoi\<close>; the locale \<open>column_decoder\<close>, interpreted by the three
    decoders and by the table. \<open>DbResult\<close>: records and result sets; the locale \<open>result_sink\<close> is what the
    row parser needs of a result object. \<open>DbQuery\<close>: queries. \<open>Util\<close>: options, TLS context.
  \<^item> \<open>Conn\<close>: the four transport classes over the parameter record \<open>asio\<close>; the locale \<open>connection\<close> is the
    contract of the virtual interface and each class interprets it.
  \<^item> \<open>Fsm\<close>: the state machine. The record \<open>FSM\<close> has the members of the class, the operations handed to
    the transport and not completed (\<open>pending\<close>, with the lambda that is their continuation, a value of
    \<open>cont\<close>), the result objects of the application (\<open>heap\<close>) and the handler calls made so far
    (\<open>calls\<close>). One definition per method; \<open>resume\<close> is the body of the lambdas; \<open>m_state_table\<close> the
    transition table.
  \<^item> \<open>Fsm_Run\<close>: the asynchronous semantics, in which any outstanding operation may complete next with any
    result of its kind (inductive \<open>session\<close>), and the blocking one, \<open>sync_run\<close>, with fuel.
    \<open>Fsm_Session\<close>: invariants of all sessions by rule induction.
  \<^item> \<open>DbConnection\<close>: the application's classes. \<open>Blocking\<close>: the hypothesis \<open>reliable\<close> on a stream and the
    delivery of frames. \<open>Dialogue\<close>: the abstract specification \<open>spec_replies\<close> of what the answer to a query
    means, and that \<open>exec\<close> implements it. \<open>Startup\<close>: \<open>connect\<close>, \<open>prepare\<close>, \<open>close\<close>. \<open>Secure\<close>: a connection with TLS, from the
    request to the session in it, and a refused request. \<open>Broken\<close>: streams that end during an answer. \<open>Limits\<close>: misuse
    and server errors.
  \<^item> \<open>AsioSocket\<close>, \<open>AsioStream\<close>, \<open>AsioPosix\<close>: the part of the vendored asio that a blocking connection runs
    through (\<^verbatim>\<open>src/lib/asio-1.30.2/include/asio\<close>): \<^verbatim>\<open>socket_ops\<close> and the socket service over a record \<open>os\<close>
    of system calls; the composed \<^verbatim>\<open>read\<close>, \<^verbatim>\<open>write\<close>, \<^verbatim>\<open>read_op\<close>, \<^verbatim>\<open>write_op\<close>; and that a healthy operating
    system makes the stream \<open>reliable\<close>.
  \<^item> \<open>AsioOpQueue\<close>: the intrusive queue of operations (\<^verbatim>\<open>detail/op_queue.hpp\<close>) over a heap of links; the locale \<open>fifo\<close> is its
    contract. \<open>AsioScheduler\<close>: the event loop of an \<^verbatim>\<open>io_service\<close> (\<^verbatim>\<open>detail/impl/scheduler.ipp\<close>), one definition per function,
    with the event its threads sleep on. \<open>AsioThreads\<close>, \<open>AsioWakeups\<close>: any number of threads that run, post, stop and shut
    down; the step relation interleaves the sections of code under the mutex, a signal with the section that sends it.
  \<^item> \<open>AsioReactor\<close>: the epoll reactor (\<^verbatim>\<open>detail/impl/epoll_reactor.ipp\<close>): descriptors, the operations that wait on them, and
    the loop over the events; the locale \<open>performer\<close> is what it needs of an operation, and \<open>logged_performer\<close> extends it by a
    log. \<open>AsioReactorRuns\<close>: runs of the reactor with the scheduler, as an inductive relation,
    and the requests made to epoll in them. \<open>AsioSocketOps\<close>: asynchronous receive,
    send and connect, which interpret the locales, and opening, cancelling and closing a socket with operations
    outstanding. \<open>AsioTimers\<close>, \<open>AsioTimerQueue\<close>: the queue of timers (\<^verbatim>\<open>detail/timer_queue.hpp\<close>), a binary heap whose entries know
    their timers and whose timers know their entries, with a doubly linked list, and the arithmetic of times
    (\<^verbatim>\<open>detail/chrono_time_traits.hpp\<close>). \<open>AsioReactorTimers\<close>: the calls that join the reactor to it.
  \<^item> \<open>TtmathUInt\<close>, \<open>TtmathTable\<close>, \<open>TtmathMul\<close>, \<open>TtmathDiv\<close>, \<open>TtmathKnuth\<close>, \<open>TtmathDivAll\<close>, \<open>TtmathPow\<close>, \<open>TtmathString\<close>, \<open>TtmathInt\<close>: big integers of the vendored
    ttmath (\<^verbatim>\<open>ttmathuint_noasm.h\<close>, \<^verbatim>\<open>ttmathuint.h\<close>, \<^verbatim>\<open>ttmathint.h\<close>), which two test programs use as a column type: words, shifts,
    comparison; products, Karatsuba's included; division of two words by one and the three algorithms
    for tables, Knuth's among them; powers and roots; conversion from and to strings; signed numbers. Each is
    specified by the number \<open>uval\<close> of a table.
  \<^item> \<open>FunctionRunner\<close>: the registry of \<^verbatim>\<open>src/lib/utest\<close>.

  \<^bold>\<open>What is shown.\<close> End to end: a session of blocking calls returns, sends exactly the right frames, reads
  exactly the greeting and the answer, and leaves in the result object what the abstract dialogue
  says; over a reliable stream, and over system calls that cut the bytes arbitrarily. A connection with
  TLS sends only the request in plain text. A stream that ends during an answer is reported with its code. For all
  asynchronous sessions, as long as nothing throws: handlers are called exactly once, at most one operation is outstanding (and
  which failures throw, so that the handler owed is never called, is proved), the transition table is never consulted in a state it lacks. For messages: layout, readability by a
  server, round trips, error fields. For the transport: complete writes, no fallback from TLS, equality
  of asynchronous and blocking classes. \<open>Limits\<close> proves what the code does where it deviates from its
  intent (SQL errors are not visible in the result, a refused login is reported as success, an MD5 login
  starts two reads, a lost handler, exceptions on NULL columns and on short length fields).

  For the event loop: one thread that calls run completes everything posted, in order, and returns; under every
  interleaving of threads each operation is completed once, the count of work is zero only when there is none,
  one thread at most is in the reactor, and, among threads that stay in run, no wake-up is lost (with a thread that leaves after one
  operation one can be, by an example). For the reactor: in every run each operation
  started is accounted for, operations of one kind on a descriptor are carried out in the order in which they were
  started, none waits without epoll having been asked for its event on its descriptor, and closing a socket completes all of its
  operations. For
  timers: after every history the queue is the map from timers to times and operations that it should be, operations expire earliest
  first, the wait computed from all queues neither overflows nor oversleeps, and no operation is lost on the way to the scheduler.

  For big numbers: every modelled routine is exact, and its carry tells whether the result fits, for any number of
  words; strings read back. Where the code is wrong (a reference division, a signed power, the quotient of the
  smallest number by minus one) the deviation is proved.

  \<^bold>\<open>Fuel and termination.\<close> \<open>sync_run\<close> takes fuel, one unit per completed operation; every theorem on
  blocking calls states that some amount suffices and that any larger one gives the same result.
  Loops of asio that wait for the operating system or sleep on the scheduler's event are partial functions with
  result \<open>None\<close> when they do not return; the theorems on single calls state that they return. In the runs of threads and of the reactor
  every step is finite and the theorems are invariants of all reachable states. All other loops are total.

  \<^bold>\<open>Parameters.\<close> The MD5 digest (\<open>md5\<close>), the TLS layer and the asynchronous completions (\<open>asio\<close>), system
  calls (\<open>os\<close>), the environment, the password database, the file system and the TLS context object
  (\<open>Util\<close>), \<^verbatim>\<open>operator<<\<close> of a bound value.

  \<^bold>\<open>Not modelled.\<close> TLS itself, whose phases in the asynchronous handshake are one operation; executors and strands, timer objects, resolvers, coroutines and other platforms of asio;
  in the reactor the timer descriptor, fork, and attempts interrupted for ever; in the scheduler a thread of its own, the capturing of
  exceptions, and, in the interleavings, \<^verbatim>\<open>poll_one\<close>, \<^verbatim>\<open>wait_one\<close> and a thread between the release of the mutex and its signal; that epoll reports an event when there is one, and that a waiting operation completes, depend on the operating
  system and the peer and are not claimed. Object lifetimes (a result object that
  dies before the reply arrives); the floating-point numbers of ttmath, its parser, its conversions for 32-bit words and wide strings;
  stream inserters used for debugging; the test programs.
\<close>

section \<open>A whole session\<close>

text \<open>
  A small application, as the programs under \<^verbatim>\<open>src/test\<close> are written: connect, run one query, close,
  and stop at the first error code. The result is the three codes returned so far, the connection
  and the stream; \<open>None\<close> when a call does not return within the fuel.
\<close>

definition run_session ::
  "(string \<Rightarrow> char list) \<Rightarrow> 's asio \<Rightarrow> nat \<Rightarrow> Option \<Rightarrow> (nat \<Rightarrow> ResultSet) \<Rightarrow> string \<Rightarrow> nat \<Rightarrow> 's
   \<Rightarrow> (error_code list \<times> DbConn \<times> 's) res option" where
  "run_session md5 io fuel option h q r s =
     (case Db_connect md5 io fuel option h DbConn_init s of
        Some (Inr (ec1, c1, s1)) \<Rightarrow>
          if ec_bool ec1 then Some (Inr ([ec1], c1, s1))
          else (case Db_exec md5 io fuel q r c1 s1 of
                  Some (Inr (ec2, c2, s2)) \<Rightarrow>
                    if ec_bool ec2 then Some (Inr ([ec1, ec2], c2, s2))
                    else (case Db_close md5 io fuel c2 s2 of
                            Some (Inr (ec3, c3, s3)) \<Rightarrow> Some (Inr ([ec1, ec2, ec3], c3, s3))
                          | Some (Inl e) \<Rightarrow> Some (Inl e)
                          | None \<Rightarrow> None)
                | Some (Inl e) \<Rightarrow> Some (Inl e)
                | None \<Rightarrow> None)
      | Some (Inl e) \<Rightarrow> Some (Inl e)
      | None \<Rightarrow> None)"

lemma session_run:
  assumes io: "reliable io net" and opt: "sendable (StartUp option)" and ps: "list_all valid_param ps"
    and pg: "m_pgformat (h r) = PGFormat_init" and q: "sendable (Query q)" and sp: "spec_replies ms (h r) = Some res"
    and s: "net s = (startup_reply ps pid key st @ replies_bytes ms @ ready_frame st' @ rest, out)"
  shows "\<exists>m s' c f. net s' = (rest, out @ frame_of (StartUp option) @ frame_of (Query q) @ frame_of Terminate) \<and>
    m_fsm c = Some f \<and> m_state f = S_END \<and> pending f = [] \<and> heap f r = res \<and>
    (\<forall>n \<ge> m. run_session md5 io n option h q r s = Some (Inr ([ec_ok, ec_ok, ec_ok], c, s')))"
proof -
  obtain m1 s1 f1 where 1: "net s1 = (replies_bytes ms @ ready_frame st' @ rest, out @ frame_of (StartUp option))"
      "m_state f1 = S_IDLE" "pending f1 = []" "heap f1 = h"
      "\<forall>n \<ge> m1. Db_connect md5 io n option h DbConn_init s = Some (Inr (ec_ok, DbConn_init\<lparr>db_class := Some Plain,
         db_endpoint := Some (Local_Endpoint ''/var/run/postgresql/.s.PGSQL.5432''), m_fsm := Some f1\<rparr>, s1))"
    using connect_call [OF io opt ps s] by blast
  let ?c1 = "DbConn_init\<lparr>db_class := Some Plain,
     db_endpoint := Some (Local_Endpoint ''/var/run/postgresql/.s.PGSQL.5432''), m_fsm := Some f1\<rparr>"
  let ?f2 = "after_query r res f1"
  let ?c2 = "?c1\<lparr>m_fsm := Some ?f2\<rparr>"
  have i: "idle ?c1 f1" using 1(2,3) by (simp add: idle_def)
  obtain m2 s2 where 2: "net s2 = (rest, (out @ frame_of (StartUp option)) @ frame_of (Query q))"
      "\<forall>n \<ge> m2. Db_exec md5 io n q r ?c1 s1 = Some (Inr (ec_ok, ?c2, s2))"
    using exec_call [OF io i _ q _ 1(1)] pg sp 1(4) by metis
  have f2: "m_fsm ?c2 = Some ?f2" "db_class ?c2 = Some Plain" "pending ?f2 = []" using 1(3) by (simp_all add: after_query_def)
  let ?f3 = "?f2\<lparr>m_state := S_END, m_ehandler := Some 0, calls := calls ?f2 @ [(0, ec_ok)]\<rparr>"
  obtain m3 s3 where 3: "net s3 = (rest, ((out @ frame_of (StartUp option)) @ frame_of (Query q)) @ frame_of Terminate)"
      "\<forall>n \<ge> m3. Db_close md5 io n ?c2 s2 = Some (Inr (ec_ok, ?c2\<lparr>m_fsm := Some ?f3\<rparr>, s3))"
    using close_call [OF io f2 2(1)] by blast
  have "\<forall>n \<ge> max m1 (max m2 m3). run_session md5 io n option h q r s
      = Some (Inr ([ec_ok, ec_ok, ec_ok], ?c2\<lparr>m_fsm := Some ?f3\<rparr>, s3))"
    using 1(5) 2(2) 3(2) by (simp add: run_session_def)
  moreover have "m_state ?f3 = S_END" "pending ?f3 = []" "heap ?f3 r = res" using 1(3) by (simp_all add: after_query_def)
  ultimately show ?thesis
    using 3(1) by (intro exI [of _ "max m1 (max m2 m3)"] exI [of _ s3] exI [of _ "?c2\<lparr>m_fsm := Some ?f3\<rparr>"] exI [of _ ?f3]) simp
qed

text \<open>
  C1. A whole session, through every component: over a healthy stream on which the server sends its
  greeting and the answer to one query, the application's three calls return (enough fuel exists)
  with success. The bytes sent are exactly the frames of the startup message, the query and the
  termination, in this order; the bytes read are exactly the greeting and the answer; the machine
  has reached its final state with nothing outstanding; and the result object holds what the
  abstract dialogue says the answer means.
\<close>

theorem whole_session:
  assumes io: "reliable io net" and opt: "sendable (StartUp option)" and ps: "list_all valid_param ps"
    and pg: "m_pgformat (h r) = PGFormat_init" and q: "sendable (Query q)" and sp: "spec_replies ms (h r) = Some res"
    and s: "net s = (startup_reply ps pid key st @ replies_bytes ms @ ready_frame st' @ rest, out)"
  shows "\<exists>m s' c f. net s' = (rest, out @ frame_of (StartUp option) @ frame_of (Query q) @ frame_of Terminate) \<and>
    m_fsm c = Some f \<and> m_state f = S_END \<and> pending f = [] \<and> heap f r = res \<and>
    (\<forall>n \<ge> m. run_session md5 io n option h q r s = Some (Inr ([ec_ok, ec_ok, ec_ok], c, s')))"
  by (rule session_run [where h = h and r = r, OF assms])

theorem whole_session_witness:
  "\<exists>m s' c f. id s' = ([], [] @ frame_of (StartUp [(''user'', ''joe'')]) @ frame_of (Query ''select -7'') @ frame_of Terminate) \<and>
    m_fsm c = Some f \<and> m_state f = S_END \<and> pending f = [] \<and> heap f 0 = demo_result \<and>
    (\<forall>n \<ge> m. run_session (\<lambda>_. []) script_io n [(''user'', ''joe'')] demo_heap ''select -7'' 0
        (startup_reply [(''TimeZone'', ''UTC'')] 7 9 (CHR ''I'') @ replies_bytes demo_reply @ ready_frame (CHR ''I'') @ [], [])
      = Some (Inr ([ec_ok, ec_ok, ec_ok], c, s')))"
  by (rule whole_session [where io = script_io and net = id and h = demo_heap and r = 0 and ms = demo_reply
        and ps = "[(''TimeZone'', ''UTC'')]", OF script_reliable _ _ _ _ demo_spec])
    (simp_all add: sendable_def valid_param_def param_body_def demo_heap_def ResultSet_init_def demo_sendable)

text \<open>
  C2. The same session over system calls. Instead of assuming a stream that delivers what is asked for,
  the transport is asio's own code (opening, connecting, the loops of \<open>asio::read\<close> and \<open>asio::write\<close> over
  \<open>recv\<close> and \<open>sendmsg\<close>, closing) over an operating system that may cut the bytes into pieces of any size
  and may report \<open>EAGAIN\<close> before each. The three calls return with success, the bytes sent and read are the
  same, and so is the result.
\<close>

theorem session_over_system_calls:
  assumes os: "healthy os net lag" and io: "served_by io u os" and opt: "sendable (StartUp option)" and ps: "list_all valid_param ps"
    and pg: "m_pgformat (h r) = PGFormat_init" and q: "sendable (Query q)" and sp: "spec_replies ms (h r) = Some res"
    and s: "net s = (startup_reply ps pid key st @ replies_bytes ms @ ready_frame st' @ rest, out)"
  shows "\<exists>m s' c f. net s' = (rest, out @ frame_of (StartUp option) @ frame_of (Query q) @ frame_of Terminate) \<and>
    m_fsm c = Some f \<and> m_state f = S_END \<and> pending f = [] \<and> heap f r = res \<and>
    (\<forall>n \<ge> m. run_session md5 io n option h q r s = Some (Inr ([ec_ok, ec_ok, ec_ok], c, s')))"
  by (rule session_run [where h = h and r = r, OF served_reliable [OF os io] opt ps pg q sp s])

theorem session_over_system_calls_witness:
  "\<exists>m s' c f. chunk_net s' = ([], [] @ frame_of (StartUp [(''user'', ''joe'')]) @ frame_of (Query ''select -7'') @ frame_of Terminate) \<and>
    m_fsm c = Some f \<and> m_state f = S_END \<and> pending f = [] \<and> heap f 0 = demo_result \<and>
    (\<forall>n \<ge> m. run_session (\<lambda>_. []) (os_io True chunk_os) n [(''user'', ''joe'')] demo_heap ''select -7'' 0
        (startup_reply [(''TimeZone'', ''UTC'')] 7 9 (CHR ''I'') @ replies_bytes demo_reply @ ready_frame (CHR ''I'') @ [], [], 1)
      = Some (Inr ([ec_ok, ec_ok, ec_ok], c, s')))"
  by (rule session_over_system_calls [where h = demo_heap and r = 0 and ms = demo_reply
        and ps = "[(''TimeZone'', ''UTC'')]", OF chunk_healthy chunk_served _ _ _ _ demo_spec])
    (simp_all add: sendable_def valid_param_def param_body_def demo_heap_def ResultSet_init_def demo_sendable chunk_net_def)

end
